(* ===== verification/Prelude.thy ===== *)
theory Prelude
  imports Main "HOL-Library.Word"
begin

text \<open>
  Shared material: the outcome type of a C function, byte arrays with checked accesses, the
  predicate that a byte sequence stands at an offset of an array, and C strings.

  A C function that may be undefined (an access outside the objects it was given) or may
  return an error code is a function into \<open>res\<close>: \<open>Fault\<close> is the undefined access, \<open>Err e\<close> an
  error return with what the caller can observe of it, \<open>Ok a\<close> a normal return. \<open>bindr\<close> is
  sequencing with early return.
\<close>

unbundle bit_operations_syntax

named_theorems res_simps \<open>equations of the outcome monad and of the array accesses\<close>
named_theorems enc_spec \<open>encoders as plain emission of their byte sequence\<close>

type_synonym byte = "8 word"

section \<open>Outcomes\<close>

datatype ('e, 'a) res = Fault | Err 'e | Ok 'a

fun bindr :: "('e, 'a) res \<Rightarrow> ('a \<Rightarrow> ('e, 'b) res) \<Rightarrow> ('e, 'b) res" where
  "bindr Fault f = Fault"
| "bindr (Err e) f = Err e"
| "bindr (Ok a) f = f a"

fun is_Ok :: "('e, 'a) res \<Rightarrow> bool" where
  "is_Ok (Ok _) = True"
| "is_Ok _ = False"

lemma bindr_cong [fundef_cong]:
  "m = m' \<Longrightarrow> (\<And>a. m' = Ok a \<Longrightarrow> f a = f' a) \<Longrightarrow> bindr m f = bindr m' f'"
  by (cases m') auto

lemma bindr_assoc: "bindr (bindr m f) g = bindr m (\<lambda>a. bindr (f a) g)"
  by (cases m) auto

lemma bindr_Ok_right: "bindr m Ok = m"
  by (cases m) auto

lemma bindr_eq_Ok: "bindr m f = Ok b \<longleftrightarrow> (\<exists>a. m = Ok a \<and> f a = Ok b)"
  by (cases m) auto

lemma bindr_eq_Fault: "bindr m f = Fault \<longleftrightarrow> m = Fault \<or> (\<exists>a. m = Ok a \<and> f a = Fault)"
  by (cases m) auto

section \<open>Outcomes with fuel\<close>

text \<open>A call of a function whose recursion is bounded by fuel: \<open>None\<close> when the fuel is used up.\<close>

fun bindf :: "('e, 'a) res option \<Rightarrow> ('a \<Rightarrow> ('e, 'b) res option) \<Rightarrow> ('e, 'b) res option" where
  "bindf None f = None"
| "bindf (Some Fault) f = Some Fault"
| "bindf (Some (Err e)) f = Some (Err e)"
| "bindf (Some (Ok a)) f = f a"

lemma bindf_mono:
  "bindf m f = Some r \<Longrightarrow> (\<And>a. m' = m \<or> m = None) \<Longrightarrow> (\<And>a. f a = Some r \<Longrightarrow> f' a = Some r) \<Longrightarrow> bindf m' f' = Some r"
  by (cases "(m, f)" rule: bindf.cases) auto

lemma bindf_cong [fundef_cong]:
  "m = m' \<Longrightarrow> (\<And>a. m' = Some (Ok a) \<Longrightarrow> f a = f' a) \<Longrightarrow> bindf m f = bindf m' f'"
  by (cases "(m, f)" rule: bindf.cases) auto

lemma bindf_eq_Ok: "bindf m f = Some (Ok b) \<longleftrightarrow> (\<exists>a. m = Some (Ok a) \<and> f a = Some (Ok b))"
  by (cases "(m, f)" rule: bindf.cases) auto

section \<open>Byte arrays\<close>

text \<open>Reading and writing one byte at an offset; an offset outside the array is a fault.\<close>

definition in_range :: "byte list \<Rightarrow> int \<Rightarrow> bool" where
  "in_range b i \<longleftrightarrow> 0 \<le> i \<and> i < int (length b)"

definition rd :: "byte list \<Rightarrow> int \<Rightarrow> ('e, byte) res" where
  "rd b i = (if in_range b i then Ok (b ! nat i) else Fault)"

definition wr :: "byte list \<Rightarrow> int \<Rightarrow> byte \<Rightarrow> ('e, byte list) res" where
  "wr b i x = (if in_range b i then Ok (b[nat i := x]) else Fault)"

fun wrs :: "byte list \<Rightarrow> int \<Rightarrow> byte list \<Rightarrow> ('e, byte list) res" where
  "wrs b i [] = Ok b"
| "wrs b i (x # xs) = bindr (wr b i x) (\<lambda>b. wrs b (i + 1) xs)"

fun rds :: "byte list \<Rightarrow> int \<Rightarrow> nat \<Rightarrow> ('e, byte list) res" where
  "rds b i 0 = Ok []"
| "rds b i (Suc n) = bindr (rd b i) (\<lambda>x. bindr (rds b (i + 1) n) (\<lambda>xs. Ok (x # xs)))"

text \<open>\<open>memcpy\<close> and \<open>memmove\<close> take a size: a negative C \<open>int\<close> is a huge one.\<close>

definition memcpy :: "byte list \<Rightarrow> int \<Rightarrow> byte list \<Rightarrow> int \<Rightarrow> ('e, byte list) res" where
  "memcpy b i src n =
     (if n < 0 then Fault else bindr (rds src 0 (nat n)) (\<lambda>xs. wrs b i xs))"

lemma wr_neq_Err [simp]: "wr b i x \<noteq> Err e"
  by (simp add: wr_def)

lemma rd_neq_Err [simp]: "rd b i \<noteq> Err e"
  by (simp add: rd_def)

lemma wrs_neq_Err [simp]: "wrs b i xs \<noteq> Err e"
  by (induction b i xs rule: wrs.induct) (auto simp: wr_def)

lemma rds_neq_Err [simp]: "rds b i n \<noteq> Err e"
  by (induction b i n rule: rds.induct) (auto simp: rd_def bindr_eq_Ok split: if_splits, metis bindr.elims res.distinct(5) res.inject(1))

lemma length_wr: "wr b i x = Ok b' \<Longrightarrow> length b' = length b"
  by (auto simp: wr_def split: if_splits)

lemma length_wrs: "wrs b i xs = Ok b' \<Longrightarrow> length b' = length b"
  by (induction xs arbitrary: b i) (auto simp: bindr_eq_Ok dest: length_wr)

lemma wrs_append: "wrs b i (xs @ ys) = bindr (wrs b i xs) (\<lambda>b. wrs b (i + int (length xs)) ys)"
  by (induction xs arbitrary: b i) (auto simp: bindr_assoc add.assoc add.commute)

lemma wrs_single: "wrs b i [x] = wr b i x"
  by (simp add: bindr_Ok_right)

lemma wr_Ok_iff: "is_Ok (wr b i x) \<longleftrightarrow> in_range b i"
  by (simp add: wr_def)

text \<open>The closed form of a run of writes.\<close>

lemma wrs_eq:
  "wrs b i xs =
     (if xs = [] then Ok b
      else if 0 \<le> i \<and> i + int (length xs) \<le> int (length b)
      then Ok (take (nat i) b @ xs @ drop (nat i + length xs) b) else Fault)"
proof (induction xs arbitrary: b i)
  case Nil
  show ?case by simp
next
  case (Cons x xs)
  show ?case
  proof (cases "0 \<le> i \<and> i + 1 + int (length xs) \<le> int (length b)")
    case True
    then have r: "in_range b i" and n: "nat (i + 1) = Suc (nat i)" by (auto simp: in_range_def)
    show ?thesis
      using True r n
      by (auto simp: Cons.IH wr_def take_Suc_conv_app_nth upd_conv_take_nth_drop in_range_def
          take_update_cancel)
  next
    case False
    then show ?thesis
      by (auto simp: Cons.IH wr_def in_range_def)
  qed
qed

lemma wrs_Ok:
  "0 \<le> i \<Longrightarrow> i + int (length xs) \<le> int (length b) \<Longrightarrow>
   wrs b i xs = Ok (take (nat i) b @ xs @ drop (nat i + length xs) b)"
  by (auto simp: wrs_eq)

lemma wrs_Fault_iff:
  "wrs b i xs = Fault \<longleftrightarrow> xs \<noteq> [] \<and> \<not> (0 \<le> i \<and> i + int (length xs) \<le> int (length b))"
  by (auto simp: wrs_eq)

lemma wr_commute:
  "i \<noteq> j \<Longrightarrow> bindr (wr b i x) (\<lambda>b. wr b j y) = bindr (wr b j y) (\<lambda>b. wr b i x)"
  by (auto simp: wr_def in_range_def list_update_swap)

text \<open>Writing a later part before an earlier one gives the same array.\<close>

lemma wr_wrs_swap:
  "i < j \<Longrightarrow> bindr (wrs b j ys) (\<lambda>b. wr b i x :: ('e, byte list) res) = bindr (wr b i x) (\<lambda>b. wrs b j ys)"
proof (induction ys arbitrary: b j)
  case Nil
  show ?case by (simp add: bindr_Ok_right)
next
  case (Cons y ys)
  have "bindr (wrs b j (y # ys)) (\<lambda>b. wr b i x :: ('e, byte list) res) =
        bindr (wr b j y) (\<lambda>b. bindr (wr b i x) (\<lambda>b. wrs b (j + 1) ys))"
    using Cons by (simp add: bindr_assoc)
  also have "\<dots> = bindr (bindr (wr b j y) (\<lambda>b. wr b i x)) (\<lambda>b. wrs b (j + 1) ys)"
    by (simp add: bindr_assoc)
  also have "\<dots> = bindr (bindr (wr b i x) (\<lambda>b. wr b j y)) (\<lambda>b. wrs b (j + 1) ys)"
    using Cons.prems by (subst wr_commute) auto
  finally show ?case by (simp add: bindr_assoc)
qed

lemma wrs_wrs_swap:
  "i + int (length xs) \<le> j \<Longrightarrow>
   bindr (wrs b j ys) (\<lambda>b. wrs b i xs :: ('e, byte list) res) = bindr (wrs b i xs) (\<lambda>b. wrs b j ys)"
proof (induction xs arbitrary: b i)
  case Nil
  show ?case by (simp add: bindr_Ok_right)
next
  case (Cons x xs)
  have "bindr (wrs b j ys) (\<lambda>b. wrs b i (x # xs) :: ('e, byte list) res) =
        bindr (bindr (wrs b j ys) (\<lambda>b. wr b i x)) (\<lambda>b. wrs b (i + 1) xs)"
    by (simp add: bindr_assoc)
  also have "\<dots> = bindr (wr b i x) (\<lambda>b. bindr (wrs b j ys) (\<lambda>b. wrs b (i + 1) xs))"
    using Cons.prems by (subst wr_wrs_swap) (auto simp: bindr_assoc)
  also have "\<dots> = bindr (wr b i x) (\<lambda>b. bindr (wrs b (i + 1) xs) (\<lambda>b. wrs b j ys))"
    using Cons by (simp add: algebra_simps)
  finally show ?case by (simp add: bindr_assoc)
qed

section \<open>A byte sequence at an offset\<close>

fun at_off :: "byte list \<Rightarrow> int \<Rightarrow> byte list \<Rightarrow> bool" where
  "at_off b i [] = True"
| "at_off b i (x # xs) = (in_range b i \<and> b ! nat i = x \<and> at_off b (i + 1) xs)"

lemma at_off_append:
  "at_off b i (xs @ ys) \<longleftrightarrow> at_off b i xs \<and> at_off b (i + int (length xs)) ys"
  by (induction xs arbitrary: i) (auto simp: add.assoc add.commute)

lemma at_off_rd: "at_off b i (x # xs) \<Longrightarrow> rd b i = Ok x"
  by (simp add: rd_def)

lemma at_off_rds: "at_off b i xs \<Longrightarrow> rds b i (length xs) = Ok xs"
  by (induction xs arbitrary: i) (auto simp: rd_def)

lemma at_off_iff:
  "0 \<le> i \<Longrightarrow> at_off b i xs \<longleftrightarrow>
     xs = [] \<or> (i + int (length xs) \<le> int (length b) \<and> take (length xs) (drop (nat i) b) = xs)"
proof (induction xs arbitrary: i)
  case Nil
  show ?case by simp
next
  case (Cons x xs)
  have n: "nat (i + 1) = Suc (nat i)" using Cons.prems by auto
  show ?case
  proof (cases "in_range b i")
    case True
    then have "drop (nat i) b = b ! nat i # drop (Suc (nat i)) b"
      by (auto simp: in_range_def intro: Cons_nth_drop_Suc [symmetric])
    with True Cons.prems Cons.IH [of "i + 1"] show ?thesis
      by (auto simp: n in_range_def)
  next
    case False
    then show ?thesis using Cons.prems by (auto simp: in_range_def)
  qed
qed

lemma at_off_mid: "at_off (xs @ ys @ zs) (int (length xs)) ys"
  by (simp add: at_off_iff)

lemma at_off_start: "at_off (ys @ zs) 0 ys"
  by (simp add: at_off_iff)

lemma at_off_wrs:
  "0 \<le> i \<Longrightarrow> wrs b i xs = Ok b' \<Longrightarrow> at_off b' i xs"
  by (auto simp: wrs_eq at_off_iff split: if_splits)

text \<open>A statement about one byte is checked on the 256 values.\<close>

lemma byte_cases:
  assumes "list_all (\<lambda>n. P (word_of_nat n)) [0..<256]"
  shows "P (c :: byte)"
proof -
  have "unat c \<in> set [0..<256]" using unsigned_less [of c] by simp
  with assms have "P (word_of_nat (unat c))" unfolding list_all_iff by blast
  then show ?thesis by simp
qed

section \<open>Base-256 digits\<close>

lemma unat_drop_8: "unat (drop_bit 8 (w :: 'a::len word)) = unat w div 256"
  by (simp only: unat_drop_bit_eq) (simp add: drop_bit_eq_div)

lemma unat_drop_8_less: "w \<noteq> 0 \<Longrightarrow> unat (drop_bit 8 (w :: 'a::len word)) < unat w"
  by (simp add: unat_drop_8 unat_gt_0)

lemma ucast_byte: "(ucast (w :: 'a::len word) :: byte) = word_of_nat (unat w mod 256)"
proof -
  have "unat w mod 256 = take_bit 8 (unat w)" by (simp add: take_bit_eq_mod)
  then show ?thesis by (auto intro!: bit_word_eqI simp: bit_simps)
qed

text \<open>The base-256 digits of a number, least significant first, without leading zeros.\<close>

fun le_digits :: "nat \<Rightarrow> byte list" where
  "le_digits n = (if n = 0 then [] else word_of_nat (n mod 256) # le_digits (n div 256))"

fun le_value :: "byte list \<Rightarrow> nat" where
  "le_value [] = 0"
| "le_value (x # xs) = unat x + 256 * le_value xs"

declare le_digits.simps [simp del]

lemma le_digits_0 [simp]: "le_digits 0 = []"
  by (simp add: le_digits.simps)

lemma le_value_digits [simp]: "le_value (le_digits n) = n"
proof (induction n rule: le_digits.induct)
  case (1 n)
  then show ?case
    by (subst le_digits.simps) (auto simp: unat_of_nat)
qed

lemma le_value_bound: "le_value xs < 256 ^ length xs"
proof (induction xs)
  case (Cons x xs)
  have "unat x < 256" using unsigned_less [of x] by simp
  with Cons show ?case by simp
qed simp

lemma length_le_digits: "n < 256 ^ k \<Longrightarrow> length (le_digits n) \<le> k"
proof (induction k arbitrary: n)
  case (Suc k)
  show ?case
  proof (cases "n = 0")
    case False
    from Suc.prems have "n div 256 < 256 ^ k" by (simp add: less_mult_imp_div_less mult.commute)
    with Suc.IH False show ?thesis by (subst le_digits.simps) auto
  qed simp
qed simp

section \<open>C strings\<close>

text \<open>
  A C string is the list of the characters of its array; its length counts the characters
  before the first NUL, and the end of the list stands for the terminating NUL.
\<close>

definition strlen :: "byte list \<Rightarrow> nat" where
  "strlen p = length (takeWhile (\<lambda>c. c \<noteq> 0) p)"

lemma strlen_le: "strlen p \<le> length p"
  by (simp add: strlen_def length_takeWhile_le)

lemma strlen_eq_length: "0 \<notin> set p \<Longrightarrow> strlen p = length p"
  unfolding strlen_def by (subst takeWhile_eq_all_conv [THEN iffD2]) auto

lemma rds_take: "n \<le> length p \<Longrightarrow> rds p 0 n = Ok (take n p)"
proof -
  assume n: "n \<le> length p"
  then have "at_off p 0 (take n p)" by (simp add: at_off_iff)
  from at_off_rds [OF this] n show ?thesis by simp
qed

end
