(* ===== verification/Ei_PutGet.thy ===== *)
theory Ei_PutGet
  imports Prelude
begin

text \<open>
  The byte-order macros of \<^verbatim>\<open>erl_interface/src/misc/putget.h\<close>: \<open>put*\<close> writes an integer at the
  cursor and advances it, \<open>get*\<close> reads one. A value is a C integer of any width, read as \<open>int\<close>
  (its arithmetic shifts are \<open>drop_bit\<close>); \<open>get32be\<close> and \<open>get32le\<close> have type \<open>int\<close> in C, so
  their value is the signed reading of the four bytes.
\<close>

section \<open>Writing\<close>

definition put8 :: "byte list \<Rightarrow> int \<Rightarrow> int \<Rightarrow> ('e, byte list \<times> int) res" where
  "put8 b s n = bindr (wr b s (word_of_int (n AND 255))) (\<lambda>b. Ok (b, s + 1))"

definition put16be :: "byte list \<Rightarrow> int \<Rightarrow> int \<Rightarrow> ('e, byte list \<times> int) res" where
  "put16be b s n =
     bindr (wr b s (word_of_int (drop_bit 8 n AND 255))) (\<lambda>b.
     bindr (wr b (s + 1) (word_of_int (n AND 255))) (\<lambda>b. Ok (b, s + 2)))"

definition put32be :: "byte list \<Rightarrow> int \<Rightarrow> int \<Rightarrow> ('e, byte list \<times> int) res" where
  "put32be b s n =
     bindr (wr b s (word_of_int (drop_bit 24 n AND 255))) (\<lambda>b.
     bindr (wr b (s + 1) (word_of_int (drop_bit 16 n AND 255))) (\<lambda>b.
     bindr (wr b (s + 2) (word_of_int (drop_bit 8 n AND 255))) (\<lambda>b.
     bindr (wr b (s + 3) (word_of_int (n AND 255))) (\<lambda>b. Ok (b, s + 4)))))"

definition put32le :: "byte list \<Rightarrow> int \<Rightarrow> int \<Rightarrow> ('e, byte list \<times> int) res" where
  "put32le b s n =
     bindr (wr b s (word_of_int (n AND 255))) (\<lambda>b.
     bindr (wr b (s + 1) (word_of_int (drop_bit 8 n AND 255))) (\<lambda>b.
     bindr (wr b (s + 2) (word_of_int (drop_bit 16 n AND 255))) (\<lambda>b.
     bindr (wr b (s + 3) (word_of_int (drop_bit 24 n AND 255))) (\<lambda>b. Ok (b, s + 4)))))"

definition put64be :: "byte list \<Rightarrow> int \<Rightarrow> 64 word \<Rightarrow> ('e, byte list \<times> int) res" where
  "put64be b s n =
     bindr (wr b s (ucast (drop_bit 56 n AND 255))) (\<lambda>b.
     bindr (wr b (s + 1) (ucast (drop_bit 48 n AND 255))) (\<lambda>b.
     bindr (wr b (s + 2) (ucast (drop_bit 40 n AND 255))) (\<lambda>b.
     bindr (wr b (s + 3) (ucast (drop_bit 32 n AND 255))) (\<lambda>b.
     bindr (wr b (s + 4) (ucast (drop_bit 24 n AND 255))) (\<lambda>b.
     bindr (wr b (s + 5) (ucast (drop_bit 16 n AND 255))) (\<lambda>b.
     bindr (wr b (s + 6) (ucast (drop_bit 8 n AND 255))) (\<lambda>b.
     bindr (wr b (s + 7) (ucast (n AND 255))) (\<lambda>b. Ok (b, s + 8)))))))))"

section \<open>Reading\<close>

definition get8 :: "byte list \<Rightarrow> int \<Rightarrow> ('e, int \<times> int) res" where
  "get8 b s = bindr (rd b s) (\<lambda>x. Ok (uint x, s + 1))"

definition get16be :: "byte list \<Rightarrow> int \<Rightarrow> ('e, int \<times> int) res" where
  "get16be b s =
     bindr (rd b s) (\<lambda>x0. bindr (rd b (s + 1)) (\<lambda>x1.
       Ok ((push_bit 8 (uint x0) OR uint x1) AND 65535, s + 2)))"

definition get32be :: "byte list \<Rightarrow> int \<Rightarrow> ('e, int \<times> int) res" where
  "get32be b s =
     bindr (rd b s) (\<lambda>x0. bindr (rd b (s + 1)) (\<lambda>x1.
     bindr (rd b (s + 2)) (\<lambda>x2. bindr (rd b (s + 3)) (\<lambda>x3.
       Ok (sint (push_bit 24 (ucast x0) OR push_bit 16 (ucast x1) OR push_bit 8 (ucast x2)
             OR ucast x3 :: 32 word), s + 4)))))"

definition get32le :: "byte list \<Rightarrow> int \<Rightarrow> ('e, int \<times> int) res" where
  "get32le b s =
     bindr (rd b s) (\<lambda>x0. bindr (rd b (s + 1)) (\<lambda>x1.
     bindr (rd b (s + 2)) (\<lambda>x2. bindr (rd b (s + 3)) (\<lambda>x3.
       Ok (sint (push_bit 24 (ucast x3) OR push_bit 16 (ucast x2) OR push_bit 8 (ucast x1)
             OR ucast x0 :: 32 word), s + 4)))))"

definition get64be :: "byte list \<Rightarrow> int \<Rightarrow> ('e, 64 word \<times> int) res" where
  "get64be b s =
     bindr (rd b s) (\<lambda>x0. bindr (rd b (s + 1)) (\<lambda>x1.
     bindr (rd b (s + 2)) (\<lambda>x2. bindr (rd b (s + 3)) (\<lambda>x3.
     bindr (rd b (s + 4)) (\<lambda>x4. bindr (rd b (s + 5)) (\<lambda>x5.
     bindr (rd b (s + 6)) (\<lambda>x6. bindr (rd b (s + 7)) (\<lambda>x7.
       Ok (push_bit 56 (ucast x0) OR push_bit 48 (ucast x1) OR push_bit 40 (ucast x2)
           OR push_bit 32 (ucast x3) OR push_bit 24 (ucast x4) OR push_bit 16 (ucast x5)
           OR push_bit 8 (ucast x6) OR ucast x7, s + 8)))))))))"

section \<open>The byte sequences they stand for\<close>

definition byte_of :: "int \<Rightarrow> byte" where
  "byte_of n = word_of_int n"

definition be16 :: "int \<Rightarrow> byte list" where
  "be16 n = [byte_of (drop_bit 8 n), byte_of n]"

definition be32 :: "int \<Rightarrow> byte list" where
  "be32 n = [byte_of (drop_bit 24 n), byte_of (drop_bit 16 n), byte_of (drop_bit 8 n), byte_of n]"

definition le32 :: "int \<Rightarrow> byte list" where
  "le32 n = rev (be32 n)"

definition be64 :: "64 word \<Rightarrow> byte list" where
  "be64 n = [ucast (drop_bit 56 n), ucast (drop_bit 48 n), ucast (drop_bit 40 n),
     ucast (drop_bit 32 n), ucast (drop_bit 24 n), ucast (drop_bit 16 n), ucast (drop_bit 8 n),
     ucast n]"

lemma be_lengths [simp]:
  "length (be16 n) = 2" "length (be32 n) = 4" "length (le32 n) = 4" "length (be64 w) = 8"
  by (simp_all add: be16_def be32_def le32_def be64_def)

lemma and_255: "n AND 255 = take_bit 8 (n :: int)" "w AND 255 = take_bit 8 (w :: 64 word)"
proof -
  have "(255 :: int) = mask 8" "(255 :: 64 word) = mask 8" by (simp_all add: mask_eq_exp_minus_1)
  then show "n AND 255 = take_bit 8 (n :: int)" "w AND 255 = take_bit 8 (w :: 64 word)"
    by (simp_all only: take_bit_eq_mask)
qed

lemma byte_of_and: "(word_of_int (n AND 255) :: byte) = byte_of n"
  unfolding byte_of_def and_255 by (rule bit_word_eqI) (auto simp: bit_simps)

lemma ucast_and: "(ucast (w AND 255 :: 64 word) :: byte) = ucast w"
  unfolding and_255 by (rule bit_word_eqI) (auto simp: bit_simps)

lemma uint_byte_of: "uint (byte_of n) = n mod 256"
  by (simp add: byte_of_def uint_word_of_int take_bit_eq_mod)

lemma put8_wrs [res_simps]: "put8 b s n = bindr (wrs b s [byte_of n]) (\<lambda>b. Ok (b, s + 1))"
  by (simp add: put8_def byte_of_and bindr_Ok_right)

lemma put16be_wrs [res_simps]: "put16be b s n = bindr (wrs b s (be16 n)) (\<lambda>b. Ok (b, s + 2))"
  by (simp add: put16be_def be16_def byte_of_and bindr_Ok_right bindr_assoc)

lemma put32be_wrs [res_simps]: "put32be b s n = bindr (wrs b s (be32 n)) (\<lambda>b. Ok (b, s + 4))"
  by (simp add: put32be_def be32_def byte_of_and bindr_Ok_right bindr_assoc add.commute)

lemma put32le_wrs [res_simps]: "put32le b s n = bindr (wrs b s (le32 n)) (\<lambda>b. Ok (b, s + 4))"
  by (simp add: put32le_def be32_def le32_def byte_of_and bindr_Ok_right bindr_assoc add.commute)

lemma put64be_wrs [res_simps]: "put64be b s n = bindr (wrs b s (be64 n)) (\<lambda>b. Ok (b, s + 8))"
  by (simp add: put64be_def be64_def ucast_and bindr_Ok_right bindr_assoc add.commute)

lemma get8_at: "at_off b s (x # xs) \<Longrightarrow> get8 b s = Ok (uint x, s + 1)"
  by (simp add: get8_def rd_def)

text \<open>Gluing byte \<open>k\<close> onto the lower bits.\<close>

lemma glue_byte:
  fixes w :: "'a::len word"
  shows "push_bit k (take_bit m (drop_bit k w)) OR take_bit k w = take_bit (m + k) w"
  by (rule bit_word_eqI) (auto simp: bit_simps)

lemma glue_bytes:
  fixes w :: "'a::len word"
  shows "push_bit 8 (take_bit 8 (drop_bit 8 w)) OR take_bit 8 w = take_bit 16 w"
    "push_bit 16 (take_bit 8 (drop_bit 16 w)) OR take_bit 16 w = take_bit 24 w"
    "push_bit 24 (take_bit 8 (drop_bit 24 w)) OR take_bit 24 w = take_bit 32 w"
    "push_bit 32 (take_bit 8 (drop_bit 32 w)) OR take_bit 32 w = take_bit 40 w"
    "push_bit 40 (take_bit 8 (drop_bit 40 w)) OR take_bit 40 w = take_bit 48 w"
    "push_bit 48 (take_bit 8 (drop_bit 48 w)) OR take_bit 48 w = take_bit 56 w"
    "push_bit 56 (take_bit 8 (drop_bit 56 w)) OR take_bit 56 w = take_bit 64 w"
  using glue_byte [of 8 8 w] glue_byte [of 16 8 w] glue_byte [of 24 8 w] glue_byte [of 32 8 w]
    glue_byte [of 40 8 w] glue_byte [of 48 8 w] glue_byte [of 56 8 w] by simp_all

lemma ucast_byte_of:
  "k + 8 \<le> 32 \<Longrightarrow> ucast (byte_of (drop_bit k n)) = take_bit 8 (drop_bit k (word_of_int n :: 32 word))"
  unfolding byte_of_def by (rule bit_word_eqI) (auto simp: bit_simps)

lemma ucast_byte_of_0: "ucast (byte_of n) = take_bit 8 (word_of_int n :: 32 word)"
  using ucast_byte_of [of 0 n] by simp

lemma ucast_ucast_byte: "ucast (ucast (w :: 64 word) :: byte) = take_bit 8 w"
  by (rule bit_word_eqI) (auto simp: bit_simps)

lemma be32_word:
  "push_bit 24 (ucast (byte_of (drop_bit 24 n))) OR push_bit 16 (ucast (byte_of (drop_bit 16 n)))
   OR push_bit 8 (ucast (byte_of (drop_bit 8 n))) OR ucast (byte_of n) = (word_of_int n :: 32 word)"
proof -
  have c: "ucast (byte_of (drop_bit 24 n)) = take_bit 8 (drop_bit 24 (word_of_int n :: 32 word))"
    "ucast (byte_of (drop_bit 16 n)) = take_bit 8 (drop_bit 16 (word_of_int n :: 32 word))"
    "ucast (byte_of (drop_bit 8 n)) = take_bit 8 (drop_bit 8 (word_of_int n :: 32 word))"
    by (rule ucast_byte_of, simp)+
  show ?thesis
    by (simp only: c ucast_byte_of_0 [of n] glue_bytes) (simp add: take_bit_word_eq_self)
qed

lemma be64_word:
  "push_bit 56 (ucast (ucast (drop_bit 56 n) :: byte)) OR push_bit 48 (ucast (ucast (drop_bit 48 n) :: byte))
   OR push_bit 40 (ucast (ucast (drop_bit 40 n) :: byte)) OR push_bit 32 (ucast (ucast (drop_bit 32 n) :: byte))
   OR push_bit 24 (ucast (ucast (drop_bit 24 n) :: byte)) OR push_bit 16 (ucast (ucast (drop_bit 16 n) :: byte))
   OR push_bit 8 (ucast (ucast (drop_bit 8 n) :: byte)) OR ucast (ucast n :: byte) = (n :: 64 word)"
  by (simp add: ucast_ucast_byte glue_bytes take_bit_word_eq_self)

lemma be16_int:
  "(push_bit 8 (uint (byte_of (drop_bit 8 n))) OR uint (byte_of n)) AND 65535 = n mod 65536"
proof -
  have "(push_bit 8 (uint (byte_of (drop_bit 8 n))) OR uint (byte_of n)) AND mask 16 = take_bit 16 n"
    unfolding byte_of_def
    by (rule bit_eqI) (auto simp: bit_simps not_less le_add_diff_inverse)
  then show ?thesis by (simp add: mask_eq_exp_minus_1 take_bit_eq_mod)
qed

lemma get16be_at: "at_off b s (be16 n) \<Longrightarrow> get16be b s = Ok (n mod 65536, s + 2)"
  by (simp add: get16be_def be16_def rd_def be16_int)

lemma sint_word32: "sint (word_of_int n :: 32 word) = signed_take_bit 31 n"
  by (simp add: signed_of_int numeral_eq_Suc)

lemma get32be_at: "at_off b s (be32 n) \<Longrightarrow> get32be b s = Ok (signed_take_bit 31 n, s + 4)"
  by (simp add: get32be_def be32_def rd_def be32_word add.commute sint_word32)

lemma get32le_at: "at_off b s (le32 n) \<Longrightarrow> get32le b s = Ok (signed_take_bit 31 n, s + 4)"
  by (simp add: get32le_def be32_def le32_def rd_def be32_word add.commute sint_word32)

lemma get64be_at: "at_off b s (be64 n) \<Longrightarrow> get64be b s = Ok (n, s + 8)"
  by (simp add: get64be_def be64_def rd_def be64_word add.commute)

text \<open>The value read back is the value written, for the values of the C type.\<close>

lemma signed_take_bit_31_id: "- (2 ^ 31) \<le> n \<Longrightarrow> n < 2 ^ 31 \<Longrightarrow> signed_take_bit 31 n = (n :: int)"
  by (simp add: signed_take_bit_int_eq_self)

lemma get32be_range: "get32be b s = Ok (n, s') \<Longrightarrow> - (2 ^ 31) \<le> n \<and> n < 2 ^ 31"
  using sint_range_size [where 'a = 32] by (auto simp: get32be_def bindr_eq_Ok word_size)

lemma get8_range: "get8 b s = Ok (n, s') \<Longrightarrow> 0 \<le> n \<and> n < 256"
  using uint_bounded [where 'a = 8] by (auto simp: get8_def bindr_eq_Ok)

declare uint_byte_of [simp]

end
