(* ===== verification/Ei_Encode.thy ===== *)
theory Ei_Encode
  imports Ei_PutGet
begin

text \<open>
  The encoders of \<^verbatim>\<open>erl_interface/src/encode\<close> for integers, floats, headers, binaries and
  strings. An encoder takes the caller's buffer (\<open>None\<close> is a NULL pointer: only the size is
  computed) and \<open>*index\<close>, and returns both updated; \<open>Err\<close> carries them as they are when the C
  function returns -1. \<open>emit buf i bs\<close> is the abstract encoder that puts the bytes \<open>bs\<close> at \<open>i\<close>;
  every encoder here is shown equal to \<open>emit\<close> of an explicit byte sequence.
\<close>

type_synonym ebuf = "byte list option"
type_synonym estate = "ebuf \<times> int"
type_synonym eres = "(estate, estate) res"

section \<open>Tags of the external term format\<close>

abbreviation (input) ERL_VERSION_MAGIC :: int where "ERL_VERSION_MAGIC \<equiv> 131"
abbreviation (input) ERL_SMALL_INTEGER_EXT :: int where "ERL_SMALL_INTEGER_EXT \<equiv> 97"
abbreviation (input) ERL_INTEGER_EXT :: int where "ERL_INTEGER_EXT \<equiv> 98"
abbreviation (input) ERL_FLOAT_EXT :: int where "ERL_FLOAT_EXT \<equiv> 99"
abbreviation (input) NEW_FLOAT_EXT :: int where "NEW_FLOAT_EXT \<equiv> 70"
abbreviation (input) ERL_ATOM_EXT :: int where "ERL_ATOM_EXT \<equiv> 100"
abbreviation (input) ERL_SMALL_ATOM_EXT :: int where "ERL_SMALL_ATOM_EXT \<equiv> 115"
abbreviation (input) ERL_ATOM_UTF8_EXT :: int where "ERL_ATOM_UTF8_EXT \<equiv> 118"
abbreviation (input) ERL_SMALL_ATOM_UTF8_EXT :: int where "ERL_SMALL_ATOM_UTF8_EXT \<equiv> 119"
abbreviation (input) ERL_REFERENCE_EXT :: int where "ERL_REFERENCE_EXT \<equiv> 101"
abbreviation (input) ERL_NEW_REFERENCE_EXT :: int where "ERL_NEW_REFERENCE_EXT \<equiv> 114"
abbreviation (input) ERL_NEWER_REFERENCE_EXT :: int where "ERL_NEWER_REFERENCE_EXT \<equiv> 90"
abbreviation (input) ERL_PORT_EXT :: int where "ERL_PORT_EXT \<equiv> 102"
abbreviation (input) ERL_NEW_PORT_EXT :: int where "ERL_NEW_PORT_EXT \<equiv> 89"
abbreviation (input) ERL_PID_EXT :: int where "ERL_PID_EXT \<equiv> 103"
abbreviation (input) ERL_NEW_PID_EXT :: int where "ERL_NEW_PID_EXT \<equiv> 88"
abbreviation (input) ERL_SMALL_TUPLE_EXT :: int where "ERL_SMALL_TUPLE_EXT \<equiv> 104"
abbreviation (input) ERL_LARGE_TUPLE_EXT :: int where "ERL_LARGE_TUPLE_EXT \<equiv> 105"
abbreviation (input) ERL_NIL_EXT :: int where "ERL_NIL_EXT \<equiv> 106"
abbreviation (input) ERL_STRING_EXT :: int where "ERL_STRING_EXT \<equiv> 107"
abbreviation (input) ERL_LIST_EXT :: int where "ERL_LIST_EXT \<equiv> 108"
abbreviation (input) ERL_BINARY_EXT :: int where "ERL_BINARY_EXT \<equiv> 109"
abbreviation (input) ERL_SMALL_BIG_EXT :: int where "ERL_SMALL_BIG_EXT \<equiv> 110"
abbreviation (input) ERL_LARGE_BIG_EXT :: int where "ERL_LARGE_BIG_EXT \<equiv> 111"
abbreviation (input) ERL_NEW_FUN_EXT :: int where "ERL_NEW_FUN_EXT \<equiv> 112"
abbreviation (input) ERL_MAP_EXT :: int where "ERL_MAP_EXT \<equiv> 116"
abbreviation (input) ERL_FUN_EXT :: int where "ERL_FUN_EXT \<equiv> 117"
abbreviation (input) ERL_MAX :: int where "ERL_MAX \<equiv> 2 ^ 27 - 1"
abbreviation (input) ERL_MIN :: int where "ERL_MIN \<equiv> - (2 ^ 27)"
abbreviation (input) INT_MAX :: int where "INT_MAX \<equiv> 2 ^ 31 - 1"

section \<open>Emission of a byte sequence\<close>

definition emit :: "ebuf \<Rightarrow> int \<Rightarrow> byte list \<Rightarrow> eres" where
  "emit buf i bs =
     (case buf of
        None \<Rightarrow> Ok (None, i + int (length bs))
      | Some b \<Rightarrow> bindr (wrs b i bs) (\<lambda>b. Ok (Some b, i + int (length bs))))"

lemma emit_None [simp]: "emit None i bs = Ok (None, i + int (length bs))"
  by (simp add: emit_def)

lemma emit_Some: "emit (Some b) i bs = bindr (wrs b i bs) (\<lambda>b. Ok (Some b, i + int (length bs)))"
  by (simp add: emit_def)

lemma emit_Nil [simp]: "emit buf i [] = Ok (buf, i)"
  by (cases buf) (simp_all add: emit_def)

lemma emit_append: "bindr (emit buf i xs) (\<lambda>(buf, i). emit buf i ys) = emit buf i (xs @ ys)"
  by (cases buf) (auto simp: emit_def wrs_append bindr_assoc add.assoc)

lemma emit_fits:
  "0 \<le> i \<Longrightarrow> i + int (length bs) \<le> int (length b) \<Longrightarrow>
   emit (Some b) i bs =
     Ok (Some (take (nat i) b @ bs @ drop (nat i + length bs) b), i + int (length bs))"
  by (simp add: emit_Some wrs_Ok)

lemma emit_Ok_at_off:
  "0 \<le> i \<Longrightarrow> emit (Some b) i bs = Ok (Some b', j) \<Longrightarrow>
   at_off b' i bs \<and> j = i + int (length bs) \<and> length b' = length b"
  by (auto simp: emit_Some bindr_eq_Ok dest: at_off_wrs length_wrs)

section \<open>Version, characters, small integers\<close>

definition ei_encode_version :: "ebuf \<Rightarrow> int \<Rightarrow> eres" where
  "ei_encode_version buf index =
     (case buf of
        None \<Rightarrow> Ok (None, index + 1)
      | Some b \<Rightarrow> bindr (put8 b index ERL_VERSION_MAGIC) (\<lambda>(b, s). Ok (Some b, s)))"

definition ei_encode_char :: "ebuf \<Rightarrow> int \<Rightarrow> byte \<Rightarrow> eres" where
  "ei_encode_char buf index p =
     (case buf of
        None \<Rightarrow> Ok (None, index + 2)
      | Some b \<Rightarrow>
          bindr (put8 b index ERL_SMALL_INTEGER_EXT) (\<lambda>(b, s).
          bindr (put8 b s (sint p AND 255)) (\<lambda>(b, s). Ok (Some b, s))))"

definition ei_encode_boolean :: "ebuf \<Rightarrow> int \<Rightarrow> int \<Rightarrow> eres" where
  "ei_encode_boolean buf index p =
     (let val = (if p \<noteq> 0 then [116, 114, 117, 101] else [102, 97, 108, 115, 101]);
          len = int (strlen val)
      in case buf of
           None \<Rightarrow> Ok (None, index + 2 + len)
         | Some b \<Rightarrow>
             bindr (put8 b index ERL_SMALL_ATOM_UTF8_EXT) (\<lambda>(b, s).
             bindr (put8 b s len) (\<lambda>(b, s).
             bindr (memcpy b s val len) (\<lambda>b. Ok (Some b, s + len)))))"

section \<open>Integers\<close>

text \<open>
  The loop \<open>while (up) { *s++ = up & 0xff; up >>= 8; arity++; }\<close> and its counterpart that only
  counts.
\<close>

function put_digits :: "byte list \<Rightarrow> int \<Rightarrow> 64 word \<Rightarrow> int \<Rightarrow> (estate, byte list \<times> int \<times> int) res" where
  "put_digits b s up arity =
     (if up \<noteq> 0
      then bindr (wr b s (ucast (up AND 255))) (\<lambda>b. put_digits b (s + 1) (drop_bit 8 up) (arity + 1))
      else Ok (b, s, arity))"
  by pat_completeness auto
termination
  by (relation "measure (\<lambda>(b, s, up, arity). unat up)") (auto simp: unat_drop_8_less)

function count_digits :: "64 word \<Rightarrow> int" where
  "count_digits up = (if up \<noteq> 0 then 1 + count_digits (drop_bit 8 up) else 0)"
  by pat_completeness auto
termination
  by (relation "measure unat") (auto simp: unat_drop_8_less)

declare put_digits.simps [simp del] count_digits.simps [simp del]

text \<open>
  \<open>abs(p)\<close> of the smallest number is a signed overflow, which C leaves undefined. The model takes the
  result of two's complement arithmetic, the number itself, whose bits are those of its magnitude.
\<close>

definition ei_encode_longlong :: "ebuf \<Rightarrow> int \<Rightarrow> 64 word \<Rightarrow> eres" where
  "ei_encode_longlong buf index p =
     (if sint p < 256 \<and> 0 \<le> sint p
      then (case buf of
              None \<Rightarrow> Ok (None, index + 2)
            | Some b \<Rightarrow>
                bindr (put8 b index ERL_SMALL_INTEGER_EXT) (\<lambda>(b, s).
                bindr (put8 b s (sint p AND 255)) (\<lambda>(b, s). Ok (Some b, s))))
      else if sint p \<le> ERL_MAX \<and> ERL_MIN \<le> sint p
      then (case buf of
              None \<Rightarrow> Ok (None, index + 5)
            | Some b \<Rightarrow>
                bindr (put8 b index ERL_INTEGER_EXT) (\<lambda>(b, s).
                bindr (put32be b s (sint p)) (\<lambda>(b, s). Ok (Some b, s))))
      else let up = (if sint p < 0 then - p else p)
      in case buf of
           Some b \<Rightarrow>
             bindr (put8 b index ERL_SMALL_BIG_EXT) (\<lambda>(b, arityp).
             bindr (put8 b (arityp + 1) (of_bool (sint p < 0))) (\<lambda>(b, s).
             bindr (put_digits b s up 0) (\<lambda>(b, s, arity).
             bindr (put8 b arityp arity) (\<lambda>(b, _). Ok (Some b, s)))))
         | None \<Rightarrow> Ok (None, index + 3 + count_digits up))"

definition ei_encode_ulonglong :: "ebuf \<Rightarrow> int \<Rightarrow> 64 word \<Rightarrow> eres" where
  "ei_encode_ulonglong buf index p =
     (if uint p < 256
      then (case buf of
              None \<Rightarrow> Ok (None, index + 2)
            | Some b \<Rightarrow>
                bindr (put8 b index ERL_SMALL_INTEGER_EXT) (\<lambda>(b, s).
                bindr (put8 b s (uint p AND 255)) (\<lambda>(b, s). Ok (Some b, s))))
      else if uint p \<le> ERL_MAX
      then (case buf of
              None \<Rightarrow> Ok (None, index + 5)
            | Some b \<Rightarrow>
                bindr (put8 b index ERL_INTEGER_EXT) (\<lambda>(b, s).
                bindr (put32be b s (uint p)) (\<lambda>(b, s). Ok (Some b, s))))
      else case buf of
           Some b \<Rightarrow>
             bindr (put8 b index ERL_SMALL_BIG_EXT) (\<lambda>(b, arityp).
             bindr (put8 b (arityp + 1) 0) (\<lambda>(b, s).
             bindr (put_digits b s p 0) (\<lambda>(b, s, arity).
             bindr (put8 b arityp arity) (\<lambda>(b, _). Ok (Some b, s)))))
         | None \<Rightarrow> Ok (None, index + 3 + count_digits p))"

text \<open>With \<^verbatim>\<open>EI_64BIT\<close> a C \<open>long\<close> is encoded as a 64-bit integer.\<close>

definition ei_encode_long :: "ebuf \<Rightarrow> int \<Rightarrow> 64 word \<Rightarrow> eres" where
  "ei_encode_long buf index p = ei_encode_longlong buf index p"

definition ei_encode_ulong :: "ebuf \<Rightarrow> int \<Rightarrow> 64 word \<Rightarrow> eres" where
  "ei_encode_ulong buf index p = ei_encode_ulonglong buf index p"

text \<open>Without \<^verbatim>\<open>EI_64BIT\<close> a C \<open>long\<close> has 32 bits and there are separate encoders.\<close>

definition ei_encode_long_32 :: "ebuf \<Rightarrow> int \<Rightarrow> 32 word \<Rightarrow> eres" where
  "ei_encode_long_32 buf index p =
     (if sint p < 256 \<and> 0 \<le> sint p
      then (case buf of
              None \<Rightarrow> Ok (None, index + 2)
            | Some b \<Rightarrow>
                bindr (put8 b index ERL_SMALL_INTEGER_EXT) (\<lambda>(b, s).
                bindr (put8 b s (sint p AND 255)) (\<lambda>(b, s). Ok (Some b, s))))
      else if sint p \<le> ERL_MAX \<and> ERL_MIN \<le> sint p
      then (case buf of
              None \<Rightarrow> Ok (None, index + 5)
            | Some b \<Rightarrow>
                bindr (put8 b index ERL_INTEGER_EXT) (\<lambda>(b, s).
                bindr (put32be b s (sint p)) (\<lambda>(b, s). Ok (Some b, s))))
      else case buf of
           None \<Rightarrow> Ok (None, index + 7)
         | Some b \<Rightarrow>
             bindr (put8 b index ERL_SMALL_BIG_EXT) (\<lambda>(b, s).
             bindr (put8 b s 4) (\<lambda>(b, s).
             bindr (put8 b s (of_bool (sint p < 0))) (\<lambda>(b, s).
             bindr (put32le b s (sint (if sint p < 0 then - p else p))) (\<lambda>(b, s). Ok (Some b, s))))))"

definition ei_encode_ulong_32 :: "ebuf \<Rightarrow> int \<Rightarrow> 32 word \<Rightarrow> eres" where
  "ei_encode_ulong_32 buf index p =
     (if ERL_MAX < uint p
      then (case buf of
           None \<Rightarrow> Ok (None, index + 7)
         | Some b \<Rightarrow>
             bindr (put8 b index ERL_SMALL_BIG_EXT) (\<lambda>(b, s).
             bindr (put8 b s 4) (\<lambda>(b, s).
             bindr (put8 b s 0) (\<lambda>(b, s).
             bindr (put32le b s (uint p)) (\<lambda>(b, s). Ok (Some b, s))))))
      else if uint p < 256 \<and> 0 \<le> uint p
      then (case buf of
              None \<Rightarrow> Ok (None, index + 2)
            | Some b \<Rightarrow>
                bindr (put8 b index ERL_SMALL_INTEGER_EXT) (\<lambda>(b, s).
                bindr (put8 b s (uint p AND 255)) (\<lambda>(b, s). Ok (Some b, s))))
      else case buf of
              None \<Rightarrow> Ok (None, index + 5)
            | Some b \<Rightarrow>
                bindr (put8 b index ERL_INTEGER_EXT) (\<lambda>(b, s).
                bindr (put32be b s (uint p)) (\<lambda>(b, s). Ok (Some b, s))))"

section \<open>Floats\<close>

text \<open>
  A C \<open>double\<close> is its IEEE 754 bit pattern (the union \<open>FloatExt\<close> reads it); it is finite when
  its exponent bits are not all ones.
\<close>

definition isfinite :: "64 word \<Rightarrow> bool" where
  "isfinite d \<longleftrightarrow> drop_bit 52 d AND 2047 \<noteq> 2047"

definition ei_encode_double :: "ebuf \<Rightarrow> int \<Rightarrow> 64 word \<Rightarrow> eres" where
  "ei_encode_double buf index p =
     (if \<not> isfinite p then Err (buf, index)
      else case buf of
        None \<Rightarrow> Ok (None, index + 9)
      | Some b \<Rightarrow>
          bindr (put8 b index NEW_FLOAT_EXT) (\<lambda>(b, s).
          bindr (put64be b s p) (\<lambda>(b, s). Ok (Some b, s))))"

section \<open>Headers\<close>

definition ei_encode_list_header :: "ebuf \<Rightarrow> int \<Rightarrow> int \<Rightarrow> eres" where
  "ei_encode_list_header buf index arity =
     (if arity < 0 then Err (buf, index)
      else if arity > 0
      then (case buf of
              None \<Rightarrow> Ok (None, index + 5)
            | Some b \<Rightarrow>
                bindr (put8 b index ERL_LIST_EXT) (\<lambda>(b, s).
                bindr (put32be b s arity) (\<lambda>(b, s). Ok (Some b, s))))
      else case buf of
             None \<Rightarrow> Ok (None, index + 1)
           | Some b \<Rightarrow> bindr (put8 b index ERL_NIL_EXT) (\<lambda>(b, s). Ok (Some b, s)))"

definition ei_encode_empty_list :: "ebuf \<Rightarrow> int \<Rightarrow> eres" where
  "ei_encode_empty_list buf index = ei_encode_list_header buf index 0"

definition ei_encode_tuple_header :: "ebuf \<Rightarrow> int \<Rightarrow> int \<Rightarrow> eres" where
  "ei_encode_tuple_header buf index arity =
     (if arity < 0 then Err (buf, index)
      else if arity \<le> 255
      then (case buf of
              None \<Rightarrow> Ok (None, index + 2)
            | Some b \<Rightarrow>
                bindr (put8 b index ERL_SMALL_TUPLE_EXT) (\<lambda>(b, s).
                bindr (put8 b s arity) (\<lambda>(b, s). Ok (Some b, s))))
      else case buf of
             None \<Rightarrow> Ok (None, index + 5)
           | Some b \<Rightarrow>
               bindr (put8 b index ERL_LARGE_TUPLE_EXT) (\<lambda>(b, s).
               bindr (put32be b s arity) (\<lambda>(b, s). Ok (Some b, s))))"

definition ei_encode_map_header :: "ebuf \<Rightarrow> int \<Rightarrow> int \<Rightarrow> eres" where
  "ei_encode_map_header buf index arity =
     (if arity < 0 then Err (buf, index)
      else case buf of
             None \<Rightarrow> Ok (None, index + 5)
           | Some b \<Rightarrow>
               bindr (put8 b index ERL_MAP_EXT) (\<lambda>(b, s).
               bindr (put32be b s arity) (\<lambda>(b, s). Ok (Some b, s))))"

section \<open>Binaries and strings\<close>

definition ei_encode_binary :: "ebuf \<Rightarrow> int \<Rightarrow> byte list \<Rightarrow> int \<Rightarrow> eres" where
  "ei_encode_binary buf index p len =
     (case buf of
        None \<Rightarrow> Ok (None, index + 5 + len)
      | Some b \<Rightarrow>
          bindr (put8 b index ERL_BINARY_EXT) (\<lambda>(b, s).
          bindr (put32be b s len) (\<lambda>(b, s).
          bindr (memcpy b s p len) (\<lambda>b. Ok (Some b, s + len)))))"

text \<open>The loop that writes a long string as a list of small integers.\<close>

fun put_chars :: "byte list \<Rightarrow> int \<Rightarrow> byte list \<Rightarrow> int \<Rightarrow> nat \<Rightarrow> (estate, byte list \<times> int) res" where
  "put_chars b s p i 0 = Ok (b, s)"
| "put_chars b s p i (Suc n) =
     bindr (put8 b s ERL_SMALL_INTEGER_EXT) (\<lambda>(b, s).
     bindr (rd p i) (\<lambda>c.
     bindr (put8 b s (sint c)) (\<lambda>(b, s). put_chars b s p (i + 1) n)))"

definition ei_encode_string_len :: "ebuf \<Rightarrow> int \<Rightarrow> byte list \<Rightarrow> int \<Rightarrow> eres" where
  "ei_encode_string_len buf index p len =
     (if len = 0
      then (case buf of
              None \<Rightarrow> Ok (None, index + 1)
            | Some b \<Rightarrow> bindr (put8 b index ERL_NIL_EXT) (\<lambda>(b, s). Ok (Some b, s)))
      else if len \<le> 65535
      then (case buf of
              None \<Rightarrow> Ok (None, index + 3 + len)
            | Some b \<Rightarrow>
                bindr (put8 b index ERL_STRING_EXT) (\<lambda>(b, s).
                bindr (put16be b s len) (\<lambda>(b, s).
                bindr (memcpy b s p len) (\<lambda>b. Ok (Some b, s + len)))))
      else case buf of
             None \<Rightarrow> if 5 + 2 * len + 1 > INT_MAX then Fault else Ok (None, index + (5 + 2 * len + 1))
           | Some b \<Rightarrow>
               bindr (put8 b index ERL_LIST_EXT) (\<lambda>(b, s).
               bindr (put32be b s len) (\<lambda>(b, s).
               bindr (put_chars b s p 0 (nat len)) (\<lambda>(b, s).
               bindr (put8 b s ERL_NIL_EXT) (\<lambda>(b, s). Ok (Some b, s))))))"

definition ei_encode_string :: "ebuf \<Rightarrow> int \<Rightarrow> byte list \<Rightarrow> eres" where
  "ei_encode_string buf index p =
     (let len = int (strlen p)
      in if len \<ge> INT_MAX then Err (buf, index) else ei_encode_string_len buf index p len)"

section \<open>The byte sequences of the format\<close>

definition etf_big :: "int \<Rightarrow> byte list" where
  "etf_big n =
     (let ds = le_digits (nat \<bar>n\<bar>)
      in byte_of ERL_SMALL_BIG_EXT # byte_of (int (length ds)) # of_bool (n < 0) # ds)"

definition etf_int :: "int \<Rightarrow> byte list" where
  "etf_int n =
     (if 0 \<le> n \<and> n < 256 then [byte_of ERL_SMALL_INTEGER_EXT, byte_of n]
      else if ERL_MIN \<le> n \<and> n \<le> ERL_MAX then byte_of ERL_INTEGER_EXT # be32 n
      else etf_big n)"

definition etf_boolean :: "int \<Rightarrow> byte list" where
  "etf_boolean p =
     byte_of ERL_SMALL_ATOM_UTF8_EXT #
       (if p \<noteq> 0 then [4, 116, 114, 117, 101] else [5, 102, 97, 108, 115, 101])"

definition etf_double :: "64 word \<Rightarrow> byte list" where
  "etf_double d = byte_of NEW_FLOAT_EXT # be64 d"

definition etf_list_header :: "int \<Rightarrow> byte list" where
  "etf_list_header n = (if n = 0 then [byte_of ERL_NIL_EXT] else byte_of ERL_LIST_EXT # be32 n)"

definition etf_tuple_header :: "int \<Rightarrow> byte list" where
  "etf_tuple_header n =
     (if n \<le> 255 then [byte_of ERL_SMALL_TUPLE_EXT, byte_of n]
      else byte_of ERL_LARGE_TUPLE_EXT # be32 n)"

definition etf_map_header :: "int \<Rightarrow> byte list" where
  "etf_map_header n = byte_of ERL_MAP_EXT # be32 n"

definition etf_binary :: "byte list \<Rightarrow> byte list" where
  "etf_binary bs = byte_of ERL_BINARY_EXT # be32 (int (length bs)) @ bs"

definition etf_string :: "byte list \<Rightarrow> byte list" where
  "etf_string cs =
     (if cs = [] then [byte_of ERL_NIL_EXT]
      else if length cs \<le> 65535
      then byte_of ERL_STRING_EXT # be16 (int (length cs)) @ cs
      else byte_of ERL_LIST_EXT # be32 (int (length cs))
             @ concat (map (\<lambda>c. [byte_of ERL_SMALL_INTEGER_EXT, c]) cs)
             @ [byte_of ERL_NIL_EXT])"

section \<open>Every encoder emits its byte sequence\<close>

lemma byte_of_uint [simp]: "byte_of (uint c) = c"
  by (simp add: byte_of_def)

lemma byte_of_sint [simp]: "byte_of (sint c) = c"
  by (simp add: byte_of_def)

lemma byte_of_and_255 [simp]: "byte_of (n AND 255) = byte_of n"
  using byte_of_and by (simp add: byte_of_def)

lemma byte_of_bool [simp]: "byte_of (of_bool c) = of_bool c"
  by (simp add: byte_of_def)

lemma memcpy_wrs:
  "0 \<le> n \<Longrightarrow> nat n \<le> length src \<Longrightarrow> memcpy b i src n = wrs b i (take (nat n) src)"
  by (simp add: memcpy_def rds_take)

text \<open>
  Consecutive writes are one write, and a write that ends at the returned index is an emission:
  with these two as rewrite rules the simplifier turns an encoder's body into \<open>emit\<close>.
\<close>

lemma wrs_join:
  "j = i + int (length xs) \<Longrightarrow>
   bindr (wrs b i xs) (\<lambda>b. bindr (wrs b j ys) f) = bindr (wrs b i (xs @ ys)) f"
  by (simp add: wrs_append bindr_assoc)

lemma wrs_join_last:
  "j = i + int (length xs) \<Longrightarrow> bindr (wrs b i xs) (\<lambda>b. wrs b j ys) = wrs b i (xs @ ys)"
  by (simp add: wrs_append)

lemma emit_join:
  "j = i + int (length xs) \<Longrightarrow> bindr (wrs b i xs) (\<lambda>b. Ok (Some b, j)) = emit (Some b) i xs"
  by (simp add: emit_Some)

lemma wrs_emit:
  "j = i + int (length xs) \<Longrightarrow>
   bindr (wrs b i xs) (\<lambda>b. emit (Some b) j ys) = emit (Some b) i (xs @ ys)"
  by (simp add: emit_Some wrs_append bindr_assoc add.assoc)

lemmas emit_simps = bindr_assoc put8_wrs put16be_wrs put32be_wrs put32le_wrs put64be_wrs
  wrs_join emit_join wrs_emit

lemma put_digits_wrs:
  "put_digits b s up k =
     (let ds = le_digits (unat up)
      in bindr (wrs b s ds) (\<lambda>b. Ok (b, s + int (length ds), k + int (length ds))))"
proof (induction b s up k rule: put_digits.induct)
  case (1 b s up k)
  show ?case
  proof (cases "up = 0")
    case True
    then show ?thesis by (simp add: put_digits.simps [of b s 0 k])
  next
    case False
    have u: "(ucast (up AND 255) :: byte) = word_of_nat (unat up mod 256)"
      unfolding ucast_and by (rule ucast_byte)
    from False have d: "le_digits (unat up) =
        ucast (up AND 255) # le_digits (unat (drop_bit 8 up))"
      by (subst le_digits.simps) (simp add: unat_drop_8 u unat_eq_0)
    show ?thesis
      using False "1.IH" [OF False]
      by (auto simp: put_digits.simps [of b s up k] d Let_def bindr_assoc algebra_simps
          intro!: bindr_cong)
  qed
qed

lemma count_digits_length: "count_digits up = int (length (le_digits (unat up)))"
proof (induction up rule: count_digits.induct)
  case (1 up)
  then show ?case
    by (subst count_digits.simps, subst le_digits.simps) (auto simp: unat_drop_8 unat_eq_0)
qed

declare wrs.simps [simp del]

lemma wrs_Nil [simp]: "wrs b i [] = Ok b"
  by (simp add: wrs.simps)

lemma ei_encode_version_emit [enc_spec]:
  "ei_encode_version buf i = emit buf i [byte_of ERL_VERSION_MAGIC]"
  by (cases buf) (simp_all add: ei_encode_version_def emit_simps)

lemma ei_encode_char_emit [enc_spec]:
  "ei_encode_char buf i c = emit buf i [byte_of ERL_SMALL_INTEGER_EXT, c]"
  by (cases buf) (simp_all add: ei_encode_char_def emit_simps)

lemma strlen_true: "strlen [116, 114, 117, 101] = 4" "strlen [102, 97, 108, 115, 101] = 5"
  by (simp_all add: strlen_eq_length)

lemma byte_of_01 [simp]: "byte_of 0 = 0" "byte_of 1 = 1"
  by (simp_all add: byte_of_def)

lemma byte_of_numeral: "byte_of (numeral k) = numeral k"
  by (simp add: byte_of_def)

lemma ei_encode_boolean_emit [enc_spec]:
  "ei_encode_boolean buf i p = emit buf i (etf_boolean p)"
  by (cases buf)
    (simp_all add: ei_encode_boolean_def etf_boolean_def emit_simps strlen_true memcpy_wrs byte_of_numeral)

text \<open>The arity byte is filled in after the digits behind it are written.\<close>

lemma put_big_wrs:
  assumes "j = i + 1" "k = i + 2"
  shows "bindr (wrs b i [x]) (\<lambda>b. bindr (wrs b k ys) (\<lambda>b. bindr (wrs b j [ar]) f)) =
     bindr (wrs b i (x # ar # ys)) f"
proof -
  have "bindr (wrs b i [x]) (\<lambda>b. bindr (wrs b k ys) (\<lambda>b. bindr (wrs b j [ar]) f)) =
     bindr (wrs b i [x]) (\<lambda>b. bindr (bindr (wrs b k ys) (\<lambda>b. wrs b j [ar])) f)"
    by (simp add: bindr_assoc)
  also have "\<dots> = bindr (wrs b i [x]) (\<lambda>b. bindr (bindr (wrs b j [ar]) (\<lambda>b. wrs b k ys)) f)"
    using assms by (subst wrs_wrs_swap) auto
  finally show ?thesis using assms by (simp add: bindr_assoc wrs_join)
qed

lemma uint_sint_mod: "uint (p :: 64 word) = sint p mod 2 ^ 64" "uint (q :: 32 word) = sint q mod 2 ^ 32"
  by (simp_all add: uint_sint take_bit_eq_mod)

lemma sint64_range: "- (2 ^ 63) \<le> sint (p :: 64 word)" "sint (p :: 64 word) < 2 ^ 63"
  using sint_range_size [of p] by (simp_all add: word_size)

lemma sint32_range: "- (2 ^ 31) \<le> sint (p :: 32 word)" "sint (p :: 32 word) < 2 ^ 31"
  using sint_range_size [of p] by (simp_all add: word_size)

lemma nat_abs_sint:
  fixes p :: "64 word"
  shows "nat \<bar>sint p\<bar> = unat (if sint p < 0 then - p else p)"
proof -
  have "uint (- p) = (- sint p) mod 2 ^ 64"
    by (simp add: uint_word_ariths(4) uint_sint_mod(1) [of p] mod_minus_eq)
  then have "uint (if sint p < 0 then - p else p) = \<bar>sint p\<bar>"
    using sint64_range [of p] by (auto simp: uint_sint_mod)
  then show ?thesis by (metis nat_uint_eq)
qed

lemma ei_encode_longlong_emit [enc_spec]:
  "ei_encode_longlong buf i p = emit buf i (etf_int (sint p))"
proof -
  note u = nat_abs_sint [of p]
  show ?thesis
  proof (cases buf)
    case None
    then show ?thesis
      using u by (auto simp: ei_encode_longlong_def etf_int_def etf_big_def count_digits_length Let_def)
  next
    case (Some b)
    then show ?thesis
      by (auto simp: ei_encode_longlong_def etf_int_def etf_big_def emit_simps put_digits_wrs u Let_def
          put_big_wrs)
  qed
qed

lemma ei_encode_ulonglong_emit [enc_spec]:
  "ei_encode_ulonglong buf i p = emit buf i (etf_int (uint p))"
proof -
  have u: "nat \<bar>uint p\<bar> = unat p" by simp
  show ?thesis
  proof (cases buf)
    case None
    then show ?thesis
      by (auto simp: ei_encode_ulonglong_def etf_int_def etf_big_def count_digits_length u Let_def)
  next
    case (Some b)
    then show ?thesis
      by (auto simp: ei_encode_ulonglong_def etf_int_def etf_big_def emit_simps put_digits_wrs u Let_def
          put_big_wrs)
  qed
qed

lemma ei_encode_long_emit [enc_spec]: "ei_encode_long buf i p = emit buf i (etf_int (sint p))"
  by (simp add: ei_encode_long_def ei_encode_longlong_emit)

lemma ei_encode_ulong_emit [enc_spec]: "ei_encode_ulong buf i p = emit buf i (etf_int (uint p))"
  by (simp add: ei_encode_ulong_def ei_encode_ulonglong_emit)

lemma ei_encode_double_emit [enc_spec]:
  "ei_encode_double buf i d = (if isfinite d then emit buf i (etf_double d) else Err (buf, i))"
  by (cases buf) (simp_all add: ei_encode_double_def etf_double_def emit_simps)

lemma ei_encode_list_header_emit [enc_spec]:
  "ei_encode_list_header buf i n = (if n < 0 then Err (buf, i) else emit buf i (etf_list_header n))"
  by (cases buf) (simp_all add: ei_encode_list_header_def etf_list_header_def emit_simps)

lemma ei_encode_tuple_header_emit [enc_spec]:
  "ei_encode_tuple_header buf i n = (if n < 0 then Err (buf, i) else emit buf i (etf_tuple_header n))"
  by (cases buf) (simp_all add: ei_encode_tuple_header_def etf_tuple_header_def emit_simps)

lemma ei_encode_map_header_emit [enc_spec]:
  "ei_encode_map_header buf i n = (if n < 0 then Err (buf, i) else emit buf i (etf_map_header n))"
  by (cases buf) (simp_all add: ei_encode_map_header_def etf_map_header_def emit_simps)

lemma ei_encode_binary_emit [enc_spec]:
  "0 \<le> n \<Longrightarrow> nat n \<le> length p \<Longrightarrow>
   ei_encode_binary buf i p n = emit buf i (etf_binary (take (nat n) p))"
  by (cases buf) (simp_all add: ei_encode_binary_def etf_binary_def emit_simps memcpy_wrs)

lemma put_chars_wrs:
  "0 \<le> k \<Longrightarrow> nat k + n \<le> length p \<Longrightarrow>
   put_chars b s p k n =
     (let cs = concat (map (\<lambda>c. [byte_of ERL_SMALL_INTEGER_EXT, c]) (take n (drop (nat k) p)))
      in bindr (wrs b s cs) (\<lambda>b. Ok (b, s + 2 * int n)))"
proof (induction n arbitrary: b s k)
  case (Suc n)
  then have r: "rd p k = Ok (p ! nat k)" and n: "nat (k + 1) = Suc (nat k)"
    by (auto simp: rd_def in_range_def)
  have d: "drop (nat k) p = p ! nat k # drop (Suc (nat k)) p"
    using Suc.prems by (intro Cons_nth_drop_Suc [symmetric]) auto
  from Suc.prems have IH: "put_chars b s p (k + 1) n =
      (let cs = concat (map (\<lambda>c. [byte_of ERL_SMALL_INTEGER_EXT, c]) (take n (drop (nat (k + 1)) p)))
      in bindr (wrs b s cs) (\<lambda>b. Ok (b, s + 2 * int n)))" for b s
    by (intro Suc.IH) auto
  show ?case
    by (simp add: IH r n d put8_wrs bindr_assoc wrs_join Let_def) (simp add: algebra_simps)
qed simp

lemma length_pair_concat: "length (concat (map (\<lambda>c. [x, c]) cs)) = 2 * length cs"
  by (induction cs) auto

text \<open>The size of a string of more than 65535 characters has to be an \<open>int\<close> in the pass without a buffer.\<close>

lemma ei_encode_string_len_emit [enc_spec]:
  "0 \<le> n \<Longrightarrow> nat n \<le> length p \<Longrightarrow>
   ei_encode_string_len buf i p n =
     (if buf = None \<and> int (length (etf_string (take (nat n) p))) > INT_MAX then Fault
      else emit buf i (etf_string (take (nat n) p)))"
  by (cases buf)
    (auto simp: ei_encode_string_len_def etf_string_def emit_simps memcpy_wrs put_chars_wrs
      length_pair_concat Let_def min_def)

lemma ei_encode_string_emit [enc_spec]:
  "int (strlen p) < INT_MAX \<Longrightarrow>
   ei_encode_string (Some b) i p = emit (Some b) i (etf_string (take (strlen p) p))"
  using strlen_le [of p] by (simp add: ei_encode_string_def ei_encode_string_len_emit)

text \<open>The 32-bit variants write the same bytes: a value that needs the big form has four digits.\<close>

lemma byte_of_drop_word:
  "k + 8 \<le> 32 \<Longrightarrow> byte_of (drop_bit k n) = ucast (drop_bit k (word_of_int n :: 32 word))"
  unfolding byte_of_def by (rule bit_word_eqI) (auto simp: bit_simps)

lemma le32_cong: "(word_of_int m :: 32 word) = word_of_int n \<Longrightarrow> le32 m = le32 n"
  using byte_of_drop_word [of 0 m] byte_of_drop_word [of 0 n]
  by (simp add: le32_def be32_def byte_of_drop_word)

lemma le32_sint: "le32 (sint (p :: 32 word)) = le32 (uint p)"
  by (rule le32_cong) simp

lemma byte_of_nat: "byte_of (drop_bit k (int n)) = word_of_nat (n div 2 ^ k mod 256)"
proof -
  have "byte_of (drop_bit k (int n)) = (word_of_nat (drop_bit k n) :: byte)"
    by (simp add: byte_of_def drop_bit_of_nat)
  also have "\<dots> = word_of_nat (take_bit 8 (drop_bit k n))"
    by (rule bit_word_eqI) (auto simp: bit_simps)
  finally show ?thesis by (simp add: drop_bit_eq_div take_bit_eq_mod)
qed

lemma le32_digits:
  assumes "2 ^ 24 \<le> n" "n < 2 ^ 32"
  shows "le32 (int n) = le_digits n"
proof -
  have d: "n \<noteq> 0" "n div 256 \<noteq> 0" "n div 65536 \<noteq> 0" "n div 16777216 \<noteq> 0" "n div 4294967296 = 0"
    using assms by auto
  have "le_digits n = [word_of_nat (n mod 256), word_of_nat (n div 256 mod 256),
      word_of_nat (n div 65536 mod 256), word_of_nat (n div 16777216 mod 256)]"
    using d by (simp add: le_digits.simps [of n] le_digits.simps [of "n div 256"]
        le_digits.simps [of "n div 65536"] le_digits.simps [of "n div 16777216"]
        div_mult2_eq [symmetric])
  then show ?thesis
    using byte_of_nat [of 0 n] byte_of_nat [of 8 n] byte_of_nat [of 16 n] byte_of_nat [of 24 n]
    by (simp add: le32_def be32_def)
qed

lemma nat_abs_sint_32:
  fixes p :: "32 word"
  shows "nat \<bar>sint p\<bar> = unat (if sint p < 0 then - p else p)"
proof -
  have "uint (- p) = (- sint p) mod 2 ^ 32"
    by (simp add: uint_word_ariths(4) uint_sint_mod(2) [of p] mod_minus_eq)
  then have "uint (if sint p < 0 then - p else p) = \<bar>sint p\<bar>"
    using sint32_range [of p] by (auto simp: uint_sint_mod)
  then show ?thesis by (metis nat_uint_eq)
qed

lemma etf_big_4:
  assumes "2 ^ 24 \<le> \<bar>n\<bar>" "\<bar>n\<bar> < 2 ^ 32"
  shows "etf_big n = [byte_of ERL_SMALL_BIG_EXT, 4, of_bool (n < 0)] @ le32 \<bar>n\<bar>"
proof -
  have "le32 (int (nat \<bar>n\<bar>)) = le_digits (nat \<bar>n\<bar>)"
    using assms by (intro le32_digits) (simp_all add: le_nat_iff nat_less_iff)
  moreover from this have "length (le_digits (nat \<bar>n\<bar>)) = 4" by (metis be_lengths(3))
  ultimately show ?thesis by (simp add: etf_big_def Let_def byte_of_numeral)
qed

lemma ei_encode_long_32_emit: "ei_encode_long_32 buf i p = emit buf i (etf_int (sint p))"
proof -
  note u = nat_abs_sint_32 [of p]
  have big: "etf_big (sint p) = [byte_of ERL_SMALL_BIG_EXT, 4, of_bool (sint p < 0)]
      @ le32 (sint (if sint p < 0 then - p else p))"
    if "\<not> (ERL_MIN \<le> sint p \<and> sint p \<le> ERL_MAX)"
  proof -
    have "int (unat (if sint p < 0 then - p else p)) = \<bar>sint p\<bar>" by (simp flip: u)
    then show ?thesis
      using that sint32_range [of p] by (subst etf_big_4) (auto simp: le32_sint)
  qed
  show ?thesis
    using big by (cases buf) (auto simp: ei_encode_long_32_def etf_int_def emit_simps byte_of_numeral)
qed

lemma ei_encode_ulong_32_emit: "ei_encode_ulong_32 buf i p = emit buf i (etf_int (uint p))"
proof -
  have big: "etf_big (uint p) = [byte_of ERL_SMALL_BIG_EXT, 4, 0] @ le32 (uint p)"
    if "ERL_MAX < uint p"
    using that uint_bounded [of p] by (subst etf_big_4) auto
  show ?thesis
    using big by (cases buf) (auto simp: ei_encode_ulong_32_def etf_int_def emit_simps byte_of_numeral)
qed

end
