(* ===== verification/Ei_Atom.thy ===== *)
theory Ei_Atom
  imports Ei_Encode
begin

text \<open>
  Atoms: \<^verbatim>\<open>encode_atom.c\<close> and \<^verbatim>\<open>decode_atom.c\<close>, with the Latin-1/UTF-8 conversions. An
  \<open>erlang_char_encoding\<close> is its bit mask. A destination array of a decoder is an \<open>ebuf\<close> like an
  encoder's buffer, so a write past its end is a fault.
\<close>

type_synonym 'a dres = "(unit, 'a \<times> int) res"

abbreviation (input) ERLANG_ASCII :: int where "ERLANG_ASCII \<equiv> 1"
abbreviation (input) ERLANG_LATIN1 :: int where "ERLANG_LATIN1 \<equiv> 2"
abbreviation (input) ERLANG_UTF8 :: int where "ERLANG_UTF8 \<equiv> 4"
abbreviation (input) MAXATOMLEN :: int where "MAXATOMLEN \<equiv> 256"
abbreviation (input) MAXATOMLEN_UTF8 :: int where "MAXATOMLEN_UTF8 \<equiv> 1021"

section \<open>Conversions\<close>

text \<open>
  \<open>latin1_to_utf8\<close> converts \<open>slen\<close> characters of \<open>src\<close> from \<open>k\<close> on and stores them at \<open>d\<close>
  (offsets; \<open>dst = None\<close> is a NULL destination). The result is the destination and, unless the
  return value is -1, the new cursor and whether a non-ASCII character was found.
\<close>

fun latin1_to_utf8_loop ::
  "ebuf \<Rightarrow> int \<Rightarrow> byte list \<Rightarrow> int \<Rightarrow> nat \<Rightarrow> int \<Rightarrow> bool \<Rightarrow> ('e, ebuf \<times> (int \<times> bool) option) res" where
  "latin1_to_utf8_loop dst d src k 0 dst_end found = Ok (dst, Some (d, found))"
| "latin1_to_utf8_loop dst d src k (Suc n) dst_end found =
     (if d \<ge> dst_end then Ok (dst, None)
      else bindr (rd src k) (\<lambda>c.
        if c AND 128 = 0
        then bindr (case dst of None \<Rightarrow> Ok None
                    | Some b \<Rightarrow> bindr (wr b d c) (\<lambda>b. Ok (Some b))) (\<lambda>dst.
             latin1_to_utf8_loop dst (d + 1) src (k + 1) n dst_end found)
        else bindr (case dst of None \<Rightarrow> Ok None
                    | Some b \<Rightarrow>
                        bindr (wr b d (192 OR drop_bit 6 c)) (\<lambda>b.
                        bindr (wr b (d + 1) (128 OR (c AND 63))) (\<lambda>b. Ok (Some b)))) (\<lambda>dst.
             latin1_to_utf8_loop dst (d + 2) src (k + 1) n dst_end True)))"

definition latin1_to_utf8 ::
  "ebuf \<Rightarrow> int \<Rightarrow> byte list \<Rightarrow> int \<Rightarrow> int \<Rightarrow> int \<Rightarrow> ('e, ebuf \<times> (int \<times> int) option) res" where
  "latin1_to_utf8 dst d0 src k slen destlen =
     bindr (latin1_to_utf8_loop dst d0 src k (nat slen) (d0 + destlen) False) (\<lambda>(dst, r).
       Ok (dst, map_option (\<lambda>(d, found). (d - d0, if found then ERLANG_UTF8 else ERLANG_ASCII)) r))"

function utf8_to_latin1_loop ::
  "ebuf \<Rightarrow> int \<Rightarrow> byte list \<Rightarrow> int \<Rightarrow> int \<Rightarrow> int \<Rightarrow> bool \<Rightarrow> ('e, ebuf \<times> (int \<times> bool) option) res" where
  "utf8_to_latin1_loop dst d src k slen dst_end found =
     (if slen > 0
      then if d \<ge> dst_end then Ok (dst, None)
      else bindr (rd src k) (\<lambda>c.
        if c AND 128 = 0
        then bindr (case dst of None \<Rightarrow> Ok None
                    | Some b \<Rightarrow> bindr (wr b d c) (\<lambda>b. Ok (Some b))) (\<lambda>dst.
             utf8_to_latin1_loop dst (d + 1) src (k + 1) (slen - 1) dst_end found)
        else if slen > 1 \<and> c AND 254 = 194
        then bindr (rd src (k + 1)) (\<lambda>c1.
             if c1 AND 192 = 128
             then bindr (case dst of None \<Rightarrow> Ok None
                    | Some b \<Rightarrow> bindr (wr b d (push_bit 6 c OR (c1 AND 63))) (\<lambda>b. Ok (Some b))) (\<lambda>dst.
                  utf8_to_latin1_loop dst (d + 1) src (k + 2) (slen - 2) dst_end True)
             else Ok (dst, None))
        else Ok (dst, None))
      else Ok (dst, Some (d, found)))"
  by pat_completeness auto
termination
  by (relation "measure (\<lambda>(dst, d, src, k, slen, dst_end, found). nat slen)") auto

definition utf8_to_latin1 ::
  "ebuf \<Rightarrow> int \<Rightarrow> byte list \<Rightarrow> int \<Rightarrow> int \<Rightarrow> int \<Rightarrow> ('e, ebuf \<times> (int \<times> int) option) res" where
  "utf8_to_latin1 dst d0 src k slen destlen =
     bindr (utf8_to_latin1_loop dst d0 src k slen (d0 + destlen) False) (\<lambda>(dst, r).
       Ok (dst, map_option (\<lambda>(d, found). (d - d0, if found then ERLANG_LATIN1 else ERLANG_ASCII)) r))"

section \<open>Encoding\<close>

fun verify_ascii_atom :: "byte list \<Rightarrow> int \<Rightarrow> nat \<Rightarrow> ('e, bool) res" where
  "verify_ascii_atom src k 0 = Ok True"
| "verify_ascii_atom src k (Suc n) =
     bindr (rd src k) (\<lambda>c. if c AND 128 \<noteq> 0 then Ok False else verify_ascii_atom src (k + 1) n)"

function verify_utf8_atom :: "byte list \<Rightarrow> int \<Rightarrow> int \<Rightarrow> int \<Rightarrow> ('e, bool) res" where
  "verify_utf8_atom src k slen num_chars =
     (if slen > 0
      then if num_chars + 1 \<ge> MAXATOMLEN then Ok False
      else bindr (rd src k) (\<lambda>c.
        if c AND 128 \<noteq> 0
        then if c AND 224 = 192
          then if slen < 2 then Ok False
               else bindr (rd src (k + 1)) (\<lambda>c1.
                 if c1 AND 192 \<noteq> 128 then Ok False
                 else verify_utf8_atom src (k + 2) (slen - 2) (num_chars + 1))
          else if c AND 240 = 224
          then if slen < 3 then Ok False
               else bindr (rd src (k + 1)) (\<lambda>c1.
                 if c1 AND 192 \<noteq> 128 then Ok False
                 else bindr (rd src (k + 2)) (\<lambda>c2.
                 if c2 AND 192 \<noteq> 128 then Ok False
                 else verify_utf8_atom src (k + 3) (slen - 3) (num_chars + 1)))
          else if c AND 248 = 240
          then if slen < 4 then Ok False
               else bindr (rd src (k + 1)) (\<lambda>c1.
                 if c1 AND 192 \<noteq> 128 then Ok False
                 else bindr (rd src (k + 2)) (\<lambda>c2.
                 if c2 AND 192 \<noteq> 128 then Ok False
                 else bindr (rd src (k + 3)) (\<lambda>c3.
                 if c3 AND 192 \<noteq> 128 then Ok False
                 else verify_utf8_atom src (k + 4) (slen - 4) (num_chars + 1))))
          else Ok False
        else verify_utf8_atom src (k + 1) (slen - 1) (num_chars + 1))
      else Ok True)"
  by pat_completeness auto
termination
  by (relation "measure (\<lambda>(src, k, slen, n). nat slen)") auto

declare utf8_to_latin1_loop.simps [simp del] verify_utf8_atom.simps [simp del]

text \<open>
  The three source encodings differ in how they check and copy the characters; each yields the
  buffer with the characters stored behind a header of \<open>offs\<close> bytes, and the length of the
  name, or nothing when the function returns -1.
\<close>

definition put_atom_header :: "byte list \<Rightarrow> int \<Rightarrow> int \<Rightarrow> int \<Rightarrow> (estate, byte list) res" where
  "put_atom_header b s offs len =
     (if offs = 2
      then bindr (put8 b s ERL_SMALL_ATOM_UTF8_EXT) (\<lambda>(b, s).
           bindr (put8 b s len) (\<lambda>(b, s). Ok b))
      else bindr (put8 b s ERL_ATOM_UTF8_EXT) (\<lambda>(b, s).
           bindr (put16be b s len) (\<lambda>(b, s). Ok b)))"

definition ei_encode_atom_len_as ::
  "ebuf \<Rightarrow> int \<Rightarrow> byte list \<Rightarrow> int \<Rightarrow> int \<Rightarrow> int \<Rightarrow> eres" where
  "ei_encode_atom_len_as buf index p len from_enc to_enc =
     (if len \<ge> MAXATOMLEN \<and> from_enc AND (ERLANG_LATIN1 OR ERLANG_ASCII) \<noteq> 0
      then Err (buf, index)
      else
        bindr
          (if from_enc = ERLANG_LATIN1
           then let offs = (if len \<ge> 128 then 3 else 2)
                in bindr (latin1_to_utf8 buf (index + offs) p 0 len (MAXATOMLEN_UTF8 - 1)) (\<lambda>(buf, r).
                   Ok (buf, offs, case r of None \<Rightarrow> -1 | Some (l, _) \<Rightarrow> l))
           else if from_enc = ERLANG_ASCII
           then bindr (verify_ascii_atom p 0 (nat len)) (\<lambda>ok.
                if \<not> ok then Err (buf, index)
                else case buf of None \<Rightarrow> Ok (None, 2, len)
                | Some b \<Rightarrow> bindr (memcpy b (index + 2) p len) (\<lambda>b. Ok (Some b, 2, len)))
           else if from_enc = ERLANG_UTF8
           then let offs = (if len \<ge> 256 then 3 else 2)
                in bindr (verify_utf8_atom p 0 len 0) (\<lambda>ok.
                   if \<not> ok then Err (buf, index)
                   else case buf of None \<Rightarrow> Ok (None, offs, len)
                   | Some b \<Rightarrow> bindr (memcpy b (index + offs) p len) (\<lambda>b. Ok (Some b, offs, len)))
           else Err (buf, index))
          (\<lambda>(buf, offs, len).
             case buf of
               None \<Rightarrow> Ok (None, index + offs + len)
             | Some b \<Rightarrow> bindr (put_atom_header b index offs len) (\<lambda>b. Ok (Some b, index + offs + len))))"

definition ei_encode_atom :: "ebuf \<Rightarrow> int \<Rightarrow> byte list \<Rightarrow> eres" where
  "ei_encode_atom buf index p =
     (let len = int (strlen p); len = (if len \<ge> MAXATOMLEN then MAXATOMLEN - 1 else len)
      in ei_encode_atom_len_as buf index p len ERLANG_LATIN1 0)"

definition ei_encode_atom_len :: "ebuf \<Rightarrow> int \<Rightarrow> byte list \<Rightarrow> int \<Rightarrow> eres" where
  "ei_encode_atom_len buf index p len =
     (let len = (if len \<ge> MAXATOMLEN then MAXATOMLEN - 1 else len)
      in ei_encode_atom_len_as buf index p len ERLANG_LATIN1 0)"

definition ei_encode_atom_as :: "ebuf \<Rightarrow> int \<Rightarrow> byte list \<Rightarrow> int \<Rightarrow> int \<Rightarrow> eres" where
  "ei_encode_atom_as buf index p from_enc to_enc =
     ei_encode_atom_len_as buf index p (int (strlen p)) from_enc to_enc"

section \<open>Decoding\<close>

text \<open>The copying loop of \<open>ei_decode_atom_as\<close> when no conversion is needed.\<close>

fun copy_atom :: "byte list \<Rightarrow> int \<Rightarrow> ebuf \<Rightarrow> int \<Rightarrow> nat \<Rightarrow> bool \<Rightarrow> (unit, ebuf \<times> bool) res" where
  "copy_atom buf s p i 0 found = Ok (p, found)"
| "copy_atom buf s p i (Suc n) found =
     bindr (rd buf (s + i)) (\<lambda>c.
     bindr (case p of None \<Rightarrow> Ok None | Some a \<Rightarrow> bindr (wr a i c) (\<lambda>a. Ok (Some a))) (\<lambda>p.
     copy_atom buf s p (i + 1) n (found \<or> c AND 128 \<noteq> 0)))"

definition put_nul :: "ebuf \<Rightarrow> int \<Rightarrow> (unit, ebuf) res" where
  "put_nul p i = (case p of None \<Rightarrow> Ok None | Some a \<Rightarrow> bindr (wr a i 0) (\<lambda>a. Ok (Some a)))"

definition atom_header :: "byte list \<Rightarrow> int \<Rightarrow> (unit, (int \<times> int) \<times> int) res" where
  "atom_header buf s =
     bindr (get8 buf s) (\<lambda>(t, s).
       if t = ERL_ATOM_EXT then bindr (get16be buf s) (\<lambda>(l, s). Ok ((l, ERLANG_LATIN1), s))
       else if t = ERL_SMALL_ATOM_EXT then bindr (get8 buf s) (\<lambda>(l, s). Ok ((l, ERLANG_LATIN1), s))
       else if t = ERL_ATOM_UTF8_EXT then bindr (get16be buf s) (\<lambda>(l, s). Ok ((l, ERLANG_UTF8), s))
       else if t = ERL_SMALL_ATOM_UTF8_EXT then bindr (get8 buf s) (\<lambda>(l, s). Ok ((l, ERLANG_UTF8), s))
       else Err ())"

text \<open>The value is the destination array, \<open>*was_encp\<close> and \<open>*res_encp\<close>.\<close>

definition ei_decode_atom_as ::
  "byte list \<Rightarrow> int \<Rightarrow> ebuf \<Rightarrow> int \<Rightarrow> int \<Rightarrow> (ebuf \<times> int \<times> int) dres" where
  "ei_decode_atom_as buf index p destlen want_enc =
     bindr (atom_header buf index) (\<lambda>((len, got_enc), s).
       if want_enc AND got_enc \<noteq> 0 \<or> want_enc = ERLANG_ASCII
       then if len \<ge> destlen then Err ()
            else bindr (copy_atom buf s p 0 (nat len) False) (\<lambda>(p, found).
                 bindr (put_nul p len) (\<lambda>p.
                 if want_enc = ERLANG_ASCII \<and> found then Err ()
                 else Ok ((p, got_enc, if found then got_enc else ERLANG_ASCII), s + len)))
       else bindr (if got_enc = ERLANG_LATIN1
                   then latin1_to_utf8 p 0 buf s len (destlen - 1)
                   else utf8_to_latin1 p 0 buf s len (destlen - 1)) (\<lambda>(p, r).
            case r of None \<Rightarrow> Err ()
            | Some (plen, enc) \<Rightarrow>
                bindr (put_nul p plen) (\<lambda>p. Ok ((p, got_enc, enc), s + len))))"

definition ei_decode_atom :: "byte list \<Rightarrow> int \<Rightarrow> ebuf \<Rightarrow> ebuf dres" where
  "ei_decode_atom buf index p =
     bindr (ei_decode_atom_as buf index p MAXATOMLEN ERLANG_LATIN1) (\<lambda>((p, _), i). Ok (p, i))"

text \<open>\<open>ei_internal_put_atom\<close> and \<open>ei_internal_get_atom\<close> work on a cursor instead of an index.\<close>

definition ei_internal_put_atom :: "byte list \<Rightarrow> int \<Rightarrow> byte list \<Rightarrow> int \<Rightarrow> int \<Rightarrow> eres" where
  "ei_internal_put_atom b s p slen to_enc =
     ei_encode_atom_len_as (Some b) s p slen ERLANG_UTF8 to_enc"

definition ei_internal_get_atom :: "byte list \<Rightarrow> int \<Rightarrow> ebuf \<Rightarrow> (ebuf \<times> int) dres" where
  "ei_internal_get_atom buf s p =
     bindr (ei_decode_atom_as buf s p MAXATOMLEN_UTF8 ERLANG_UTF8) (\<lambda>((p, was, _), i). Ok ((p, was), i))"

section \<open>The byte sequences of atoms\<close>

fun latin1_utf8 :: "byte list \<Rightarrow> byte list" where
  "latin1_utf8 [] = []"
| "latin1_utf8 (c # cs) =
     (if c AND 128 = 0 then [c] else [192 OR drop_bit 6 c, 128 OR (c AND 63)]) @ latin1_utf8 cs"

definition non_ascii :: "byte list \<Rightarrow> bool" where
  "non_ascii cs \<longleftrightarrow> (\<exists>c \<in> set cs. c AND 128 \<noteq> 0)"

definition etf_atom_latin1 :: "byte list \<Rightarrow> byte list" where
  "etf_atom_latin1 cs =
     (let u = latin1_utf8 cs; n = int (length u)
      in if length cs \<ge> 128 then byte_of ERL_ATOM_UTF8_EXT # be16 n @ u
         else byte_of ERL_SMALL_ATOM_UTF8_EXT # byte_of n # u)"

definition etf_atom_utf8 :: "byte list \<Rightarrow> byte list" where
  "etf_atom_utf8 bs =
     (if length bs \<ge> 256 then byte_of ERL_ATOM_UTF8_EXT # be16 (int (length bs)) @ bs
      else byte_of ERL_SMALL_ATOM_UTF8_EXT # byte_of (int (length bs)) # bs)"

text \<open>Well-formed UTF-8 as the code checks it, with the number of characters.\<close>

definition cont :: "byte \<Rightarrow> bool" where
  "cont c \<longleftrightarrow> c AND 192 = 128"

fun utf8_chars :: "byte list \<Rightarrow> nat option" where
  "utf8_chars [] = Some 0"
| "utf8_chars (c # cs) =
     (if c AND 128 = 0 then map_option Suc (utf8_chars cs)
      else if c AND 224 = 192 then
        (case cs of c1 # r \<Rightarrow> if cont c1 then map_option Suc (utf8_chars r) else None | _ \<Rightarrow> None)
      else if c AND 240 = 224 then
        (case cs of c1 # c2 # r \<Rightarrow>
           if cont c1 \<and> cont c2 then map_option Suc (utf8_chars r) else None | _ \<Rightarrow> None)
      else if c AND 248 = 240 then
        (case cs of c1 # c2 # c3 # r \<Rightarrow>
           if cont c1 \<and> cont c2 \<and> cont c3 then map_option Suc (utf8_chars r) else None | _ \<Rightarrow> None)
      else None)"

section \<open>Encoding emits them\<close>

lemma length_latin1_utf8: "length cs \<le> length (latin1_utf8 cs)" "length (latin1_utf8 cs) \<le> 2 * length cs"
  by (induction cs) auto

lemma latin1_to_utf8_loop_wrs:
  "at_off src k cs \<Longrightarrow> d + int (length (latin1_utf8 cs)) \<le> dst_end \<Longrightarrow>
   latin1_to_utf8_loop dst d src k (length cs) dst_end found =
     bindr (case dst of None \<Rightarrow> Ok None
            | Some b \<Rightarrow> bindr (wrs b d (latin1_utf8 cs)) (\<lambda>b. Ok (Some b)))
       (\<lambda>dst. Ok (dst, Some (d + int (length (latin1_utf8 cs)), found \<or> non_ascii cs)))"
proof (induction cs arbitrary: dst d k found)
  case Nil
  then show ?case by (cases dst) (simp_all add: non_ascii_def)
next
  case (Cons c cs)
  have lt: "d < dst_end"
    using Cons.prems(2) length_latin1_utf8(1) [of "c # cs"] by simp
  show ?case
  proof (cases "c AND 128 = 0")
    case True
    with Cons lt show ?thesis
      by (cases dst) (auto simp: rd_def bindr_assoc non_ascii_def wrs.simps algebra_simps intro!: bindr_cong)
  next
    case False
    with Cons lt show ?thesis
      by (cases dst) (auto simp: rd_def bindr_assoc non_ascii_def wrs.simps algebra_simps intro!: bindr_cong)
  qed
qed

lemma latin1_to_utf8_wrs:
  assumes "at_off src k cs" "int (length (latin1_utf8 cs)) \<le> destlen" "n = int (length cs)"
  shows "latin1_to_utf8 dst d src k n destlen =
     bindr (case dst of None \<Rightarrow> Ok None
            | Some b \<Rightarrow> bindr (wrs b d (latin1_utf8 cs)) (\<lambda>b. Ok (Some b)))
       (\<lambda>dst. Ok (dst, Some (int (length (latin1_utf8 cs)),
          if non_ascii cs then ERLANG_UTF8 else ERLANG_ASCII)))"
proof -
  have "d + int (length (latin1_utf8 cs)) \<le> d + destlen" using assms(2) by simp
  note r = latin1_to_utf8_loop_wrs [OF assms(1) this, of dst False]
  show ?thesis using assms(3) by (simp add: latin1_to_utf8_def bindr_assoc r)
qed

lemma put_atom_header_wrs:
  "put_atom_header b s offs len =
     wrs b s (if offs = 2 then [byte_of ERL_SMALL_ATOM_UTF8_EXT, byte_of len]
              else byte_of ERL_ATOM_UTF8_EXT # be16 len)"
  by (simp add: put_atom_header_def put8_wrs put16be_wrs bindr_assoc wrs_join wrs_join_last bindr_Ok_right)

lemma body_then_header:
  assumes "j = i + int (length h)"
  shows "bindr (wrs b j body) (\<lambda>b. bindr (wrs b i h) f) = bindr (wrs b i (h @ body)) f"
proof -
  have "bindr (wrs b j body) (\<lambda>b. bindr (wrs b i h) f) =
      bindr (bindr (wrs b j body) (\<lambda>b. wrs b i h)) f"
    by (simp add: bindr_assoc)
  also have "\<dots> = bindr (bindr (wrs b i h) (\<lambda>b. wrs b j body)) f"
    using assms by (subst wrs_wrs_swap) auto
  finally show ?thesis using assms by (simp add: bindr_assoc wrs_join)
qed

lemma at_off_take: "n \<le> length p \<Longrightarrow> at_off p 0 (take n p)"
  by (simp add: at_off_iff)

theorem ei_encode_atom_latin1_emit:
  assumes "0 \<le> n" "n < 256" "nat n \<le> length p"
  shows "ei_encode_atom_len_as buf i p n ERLANG_LATIN1 t = emit buf i (etf_atom_latin1 (take (nat n) p))"
proof -
  let ?cs = "take (nat n) p"
  have len: "n = int (length ?cs)" and c: "at_off p 0 ?cs"
    using assms by (auto intro: at_off_take)
  have b: "int (length (latin1_utf8 ?cs)) \<le> 1020"
    using length_latin1_utf8(2) [of ?cs] assms by auto
  show ?thesis
    using assms
    by (cases buf) (auto simp: latin1_to_utf8_wrs [OF c b len] ei_encode_atom_len_as_def etf_atom_latin1_def Let_def bindr_assoc
        put_atom_header_wrs body_then_header emit_join)
qed

lemma verify_ascii_atom_eq:
  "at_off src k cs \<Longrightarrow> verify_ascii_atom src k (length cs) = Ok (\<not> non_ascii cs)"
  by (induction cs arbitrary: k) (auto simp: rd_def non_ascii_def)

lemma map_Suc_neq_0 [simp]: "map_option Suc x \<noteq> Some 0"
  by (cases x) auto

lemma utf8_chars_pos: "utf8_chars (c # cs) \<noteq> Some 0"
  by (simp split: list.split)

text \<open>The checking loop decides well-formed UTF-8 of fewer than 256 characters.\<close>

lemma verify_utf8_atom_eq:
  "at_off src k cs \<Longrightarrow>
   verify_utf8_atom src k (int (length cs)) (int m) =
     Ok (case utf8_chars cs of None \<Rightarrow> False | Some n \<Rightarrow> m + n < 256 \<or> cs = [])"
  if "m < 256"
  using that
proof (induction cs arbitrary: k m rule: utf8_chars.induct)
  case 1
  then show ?case by (subst verify_utf8_atom.simps) simp
next
  case (2 c cs)
  from "2.prems" have r: "rd src k = Ok c" and a: "at_off src (k + 1) cs"
    by (auto simp: rd_def)
  show ?case
  proof (cases "m = 255")
    case True
    then have "verify_utf8_atom src k (int (length (c # cs))) (int m) = Ok False"
      by (subst verify_utf8_atom.simps) simp
    with True utf8_chars_pos [of c cs] show ?thesis
      by (cases "utf8_chars (c # cs)") (auto simp del: utf8_chars.simps)
  next
    case False
    with "2.prems" have m: "Suc m < 256" by simp
    have m1: "int m + 1 = int (Suc m)" by simp
    consider (one) "c AND 128 = 0"
      | (two) "c AND 128 \<noteq> 0" "c AND 224 = 192"
      | (three) "c AND 128 \<noteq> 0" "c AND 224 \<noteq> 192" "c AND 240 = 224"
      | (four) "c AND 128 \<noteq> 0" "c AND 224 \<noteq> 192" "c AND 240 \<noteq> 224" "c AND 248 = 240"
      | (bad) "c AND 128 \<noteq> 0" "c AND 224 \<noteq> 192" "c AND 240 \<noteq> 224" "c AND 248 \<noteq> 240"
      by blast
    then show ?thesis
    proof cases
      case one
      show ?thesis
        using "2.IH"(1) [OF one a m] m one
        by (subst verify_utf8_atom.simps) (auto simp: r m1 split: option.splits)
    next
      case two
      show ?thesis
      proof (cases cs)
        case Nil
        with two m show ?thesis by (subst verify_utf8_atom.simps) (simp add: r)
      next
        case (Cons c1 cs')
        with a have r1: "rd src (k + 1) = Ok c1" and a2: "at_off src (k + 2) cs'"
          by (auto simp: rd_def add.commute)
        show ?thesis
          using "2.IH"(2) [OF two Cons _ a2 m] m two Cons
          by (subst verify_utf8_atom.simps) (auto simp: r r1 m1 cont_def split: option.splits)
      qed
    next
      case three
      show ?thesis
      proof (cases "\<exists>c1 c2 cs'. cs = c1 # c2 # cs'")
        case False
        then have "length cs < 2" by (cases cs rule: remdups_adj.cases) auto
        with three m False show ?thesis
          by (subst verify_utf8_atom.simps) (auto simp: r split: list.splits)
      next
        case True
        then obtain c1 c2 cs' where Cons: "cs = c1 # c2 # cs'" by blast
        with a have r1: "rd src (k + 1) = Ok c1" "rd src (k + 2) = Ok c2" and a2: "at_off src (k + 3) cs'"
          by (auto simp: rd_def add.commute)
        show ?thesis
          using "2.IH"(3) [OF three Cons refl _ a2 m] m three Cons
          by (subst verify_utf8_atom.simps) (auto simp: r r1 m1 cont_def split: option.splits)
      qed
    next
      case four
      show ?thesis
      proof (cases "\<exists>c1 c2 c3 cs'. cs = c1 # c2 # c3 # cs'")
        case False
        then have "length cs < 3"
          by (auto simp: numeral_3_eq_3 Suc_le_length_iff not_le [symmetric])
        with four m False show ?thesis
          by (subst verify_utf8_atom.simps) (auto simp: r split: list.splits)
      next
        case True
        then obtain c1 c2 c3 cs' where Cons: "cs = c1 # c2 # c3 # cs'" by blast
        with a have r1: "rd src (k + 1) = Ok c1" "rd src (k + 2) = Ok c2" "rd src (k + 3) = Ok c3"
          and a2: "at_off src (k + 4) cs'"
          by (auto simp: rd_def add.commute)
        show ?thesis
          using "2.IH"(4) [OF four Cons refl refl _ a2 m] m four Cons
          by (subst verify_utf8_atom.simps) (auto simp: r r1 m1 cont_def split: option.splits)
      qed
    next
      case bad
      with m show ?thesis by (subst verify_utf8_atom.simps) (simp add: r)
    qed
  qed
qed

lemma verify_utf8_atom_0:
  assumes "at_off src k cs"
  shows "verify_utf8_atom src k (int (length cs)) 0 =
     Ok (case utf8_chars cs of None \<Rightarrow> False | Some n \<Rightarrow> n < 256)"
proof (cases cs)
  case Nil
  then show ?thesis by (subst verify_utf8_atom.simps) simp
next
  case (Cons x xs)
  then show ?thesis
    using verify_utf8_atom_eq [of 0, OF _ assms] by (auto split: option.splits simp del: utf8_chars.simps)
qed

theorem ei_encode_atom_utf8_emit:
  assumes "0 \<le> n" "nat n \<le> length p"
  shows "ei_encode_atom_len_as buf i p n ERLANG_UTF8 t =
     (case utf8_chars (take (nat n) p) of
        Some k \<Rightarrow> if k < 256 then emit buf i (etf_atom_utf8 (take (nat n) p)) else Err (buf, i)
      | None \<Rightarrow> Err (buf, i))"
proof -
  let ?cs = "take (nat n) p"
  have len: "int (length ?cs) = n" and c: "at_off p 0 ?cs"
    using assms by (auto intro: at_off_take)
  note v = verify_utf8_atom_0 [OF c, unfolded len]
  show ?thesis
    using assms
    by (cases buf) (auto simp: ei_encode_atom_len_as_def etf_atom_utf8_def v Let_def bindr_assoc memcpy_wrs
        put_atom_header_wrs body_then_header emit_join split: option.splits)
qed

theorem ei_encode_atom_ascii_emit:
  assumes "0 \<le> n" "n < 256" "nat n \<le> length p"
  shows "ei_encode_atom_len_as buf i p n ERLANG_ASCII t =
     (if non_ascii (take (nat n) p) then Err (buf, i)
      else emit buf i (etf_atom_utf8 (take (nat n) p)))"
proof -
  let ?cs = "take (nat n) p"
  have len: "nat n = length ?cs" and c: "at_off p 0 ?cs"
    using assms by (auto intro: at_off_take)
  have v: "verify_ascii_atom p 0 (nat n) = Ok (\<not> non_ascii ?cs)"
    using verify_ascii_atom_eq [OF c] len by metis
  show ?thesis
    using assms
    by (cases buf) (auto simp: ei_encode_atom_len_as_def etf_atom_utf8_def v Let_def bindr_assoc memcpy_wrs
        put_atom_header_wrs body_then_header emit_join)
qed

text \<open>The entry points for Latin-1 truncate the name to 255 characters.\<close>

lemma ei_encode_atom_emit [enc_spec]:
  "ei_encode_atom buf i p = emit buf i (etf_atom_latin1 (take (min (strlen p) 255) p))"
  using strlen_le [of p]
  by (simp add: ei_encode_atom_def Let_def ei_encode_atom_latin1_emit min_def)

lemma ei_encode_atom_len_emit [enc_spec]:
  "0 \<le> n \<Longrightarrow> nat n \<le> length p \<Longrightarrow>
   ei_encode_atom_len buf i p n = emit buf i (etf_atom_latin1 (take (min (nat n) 255) p))"
  by (auto simp: ei_encode_atom_len_def Let_def ei_encode_atom_latin1_emit min_def nat_le_iff)

section \<open>Decoding\<close>

lemma copy_atom_wrs:
  "at_off buf (s + i) cs \<Longrightarrow>
   copy_atom buf s p i (length cs) found =
     (case p of None \<Rightarrow> Ok (None, found \<or> non_ascii cs)
      | Some a \<Rightarrow> bindr (wrs a i cs) (\<lambda>a. Ok (Some a, found \<or> non_ascii cs)))"
proof (induction cs arbitrary: p i found)
  case Nil
  then show ?case by (cases p) (simp_all add: non_ascii_def)
next
  case (Cons c cs)
  from Cons.prems have "at_off buf (s + (i + 1)) cs" by (simp add: add.assoc)
  note IH = Cons.IH [OF this]
  from Cons.prems show ?case
    by (cases p) (auto simp: rd_def IH wrs.simps bindr_assoc non_ascii_def split: option.split intro!: bindr_cong)
qed

lemma atom_header_long:
  assumes "at_off buf i (byte_of ERL_ATOM_UTF8_EXT # be16 n @ bs)" "0 \<le> n" "n < 65536"
  shows "atom_header buf i = Ok ((n, ERLANG_UTF8), i + 3)" "at_off buf (i + 3) bs"
  using assms by (auto simp: atom_header_def get8_def rd_def at_off_append get16be_at add.assoc)

lemma atom_header_short:
  assumes "at_off buf i (byte_of ERL_SMALL_ATOM_UTF8_EXT # byte_of n # bs)" "0 \<le> n" "n < 256"
  shows "atom_header buf i = Ok ((n, ERLANG_UTF8), i + 2)" "at_off buf (i + 2) bs"
  using assms by (auto simp: atom_header_def get8_def rd_def add.assoc)

lemma atom_header_utf8:
  assumes "at_off buf i (etf_atom_utf8 bs)" "length bs < 65536"
  shows "atom_header buf i = Ok ((int (length bs), ERLANG_UTF8), i + int (length (etf_atom_utf8 bs)) - int (length bs))"
    and "at_off buf (i + int (length (etf_atom_utf8 bs)) - int (length bs)) bs"
  using assms atom_header_long [of buf i "int (length bs)" bs] atom_header_short [of buf i "int (length bs)" bs]
  by (auto simp: etf_atom_utf8_def split: if_splits)

text \<open>
  The destination holds the name and its NUL terminator; the rest is as before.
\<close>

definition stored_name :: "ebuf \<Rightarrow> byte list \<Rightarrow> ebuf" where
  "stored_name p bs = map_option (\<lambda>a. bs @ 0 # drop (Suc (length bs)) a) p"

definition room :: "ebuf \<Rightarrow> int \<Rightarrow> bool" where
  "room p n \<longleftrightarrow> (case p of None \<Rightarrow> True | Some a \<Rightarrow> n \<le> int (length a))"

lemma put_name:
  assumes "room p (int (length bs) + 1)"
  shows "bindr (case p of None \<Rightarrow> Ok (None, f) | Some a \<Rightarrow> bindr (wrs a 0 bs) (\<lambda>a. Ok (Some a, f)))
     (\<lambda>(p, x). bindr (put_nul p (int (length bs))) (\<lambda>p. g p x)) = g (stored_name p bs) f"
proof (cases p)
  case None
  then show ?thesis by (simp add: put_nul_def stored_name_def)
next
  case (Some a)
  with assms have l: "length bs < length a" by (simp add: room_def)
  then have "(wrs a 0 bs :: (unit, byte list) res) = Ok (bs @ drop (length bs) a)" by (subst wrs_Ok) auto
  moreover from l have "(bs @ drop (length bs) a)[length bs := 0] = bs @ 0 # drop (Suc (length bs)) a"
    by (simp add: list_update_append drop_eq_Nil Cons_nth_drop_Suc [symmetric])
  ultimately show ?thesis
    using Some l by (simp add: put_nul_def stored_name_def wr_def in_range_def)
qed

lemma put_name':
  assumes "room p (int (length bs) + 1)"
  shows "bindr (case p of None \<Rightarrow> Ok None | Some a \<Rightarrow> bindr (wrs a 0 bs) (\<lambda>a. Ok (Some a)))
     (\<lambda>p. bindr (put_nul p (int (length bs))) g) = g (stored_name p bs)"
  using put_name [OF assms, of "()" "\<lambda>p _. g p"] by (cases p) (simp_all add: bindr_assoc)

theorem ei_decode_atom_as_utf8:
  assumes "at_off buf i (etf_atom_utf8 bs)" "length bs < 65536"
    and "int (length bs) < destlen" "room p (int (length bs) + 1)" "want AND ERLANG_UTF8 \<noteq> 0"
  shows "ei_decode_atom_as buf i p destlen want =
     Ok ((stored_name p bs, ERLANG_UTF8, if non_ascii bs then ERLANG_UTF8 else ERLANG_ASCII),
       i + int (length (etf_atom_utf8 bs)))"
proof -
  have "at_off buf (i + int (length (etf_atom_utf8 bs)) - int (length bs) + 0) bs"
    using atom_header_utf8(2) [OF assms(1,2)] by simp
  note c = copy_atom_wrs [OF this, of p False]
  have "want \<noteq> 1" using assms(5) by auto
  then show ?thesis
    using assms(3-5)
    by (simp add: ei_decode_atom_as_def atom_header_utf8 [OF assms(1,2)] c put_name Let_def)
qed

lemma ei_decode_atom_as_ascii:
  assumes "at_off buf i (etf_atom_utf8 bs)" "length bs < 65536"
    and "int (length bs) < destlen" "room p (int (length bs) + 1)"
  shows "ei_decode_atom_as buf i p destlen ERLANG_ASCII =
     (if non_ascii bs then Err ()
      else Ok ((stored_name p bs, ERLANG_UTF8, ERLANG_ASCII), i + int (length (etf_atom_utf8 bs))))"
proof -
  have "at_off buf (i + int (length (etf_atom_utf8 bs)) - int (length bs) + 0) bs"
    using atom_header_utf8(2) [OF assms(1,2)] by simp
  note c = copy_atom_wrs [OF this, of p False]
  show ?thesis
    using assms(3,4)
    by (simp add: ei_decode_atom_as_def atom_header_utf8 [OF assms(1,2)] c put_name Let_def)
qed

section \<open>Latin-1 names come back unchanged\<close>

lemma latin1_utf8_byte:
  "c AND 128 \<noteq> 0 \<Longrightarrow>
   (192 OR drop_bit 6 c) AND 128 \<noteq> 0 \<and> (192 OR drop_bit 6 c) AND 254 = 194 \<and>
   (128 OR (c AND 63)) AND 192 = 128 \<and>
   push_bit 6 (192 OR drop_bit 6 c) OR ((128 OR (c AND 63)) AND 63) = (c :: byte)"
proof -
  have "c AND 128 \<noteq> 0 \<longrightarrow>
   (192 OR drop_bit 6 c) AND 128 \<noteq> 0 \<and> (192 OR drop_bit 6 c) AND 254 = 194 \<and>
   (128 OR (c AND 63)) AND 192 = 128 \<and>
   push_bit 6 (192 OR drop_bit 6 c) OR ((128 OR (c AND 63)) AND 63) = (c :: byte)"
    by (rule byte_cases [where c = c]) code_simp
  then show "c AND 128 \<noteq> 0 \<Longrightarrow> ?thesis" by blast
qed

lemma utf8_to_latin1_loop_wrs:
  "at_off src k (latin1_utf8 cs) \<Longrightarrow> d + int (length cs) \<le> dst_end \<Longrightarrow>
   (utf8_to_latin1_loop dst d src k (int (length (latin1_utf8 cs))) dst_end found :: ('e, _) res) =
     bindr (case dst of None \<Rightarrow> Ok None
            | Some b \<Rightarrow> bindr (wrs b d cs) (\<lambda>b. Ok (Some b)))
       (\<lambda>dst. Ok (dst, Some (d + int (length cs), found \<or> non_ascii cs)))"
proof (induction cs arbitrary: dst d k found)
  case Nil
  then show ?case by (subst utf8_to_latin1_loop.simps) (cases dst; simp add: non_ascii_def)
next
  case (Cons c cs)
  show ?case
  proof (cases "c AND 128 = 0")
    case True
    with Cons show ?thesis
      by (subst utf8_to_latin1_loop.simps, cases dst)
        (auto simp: rd_def bindr_assoc non_ascii_def wrs.simps algebra_simps intro!: bindr_cong)
  next
    case False
    define b0 b1 where "b0 = 192 OR drop_bit 6 c" and "b1 = 128 OR (c AND 63)"
    note b = latin1_utf8_byte [OF False, folded b0_def b1_def]
    have u: "latin1_utf8 (c # cs) = b0 # b1 # latin1_utf8 cs"
      using False by (simp add: b0_def b1_def)
    have a: "at_off src (k + 2) (latin1_utf8 cs)" "rd src k = Ok b0" "rd src (k + 1) = Ok b1"
      using Cons.prems(1) unfolding u by (auto simp: rd_def algebra_simps)
    from Cons.prems have d: "d + 1 + int (length cs) \<le> dst_end" by simp
    from b have b4: "push_bit 6 b0 OR (b1 AND 63) = c" by blast
    have "(utf8_to_latin1_loop dst d src k (int (length (latin1_utf8 (c # cs)))) dst_end found :: ('e, _) res) =
        bindr (case dst of None \<Rightarrow> Ok None | Some b \<Rightarrow> bindr (wr b d c) (\<lambda>b. Ok (Some b))) (\<lambda>dst.
          utf8_to_latin1_loop dst (d + 1) src (k + 2) (int (length (latin1_utf8 cs))) dst_end True)"
      unfolding u using d b by (subst utf8_to_latin1_loop.simps, cases dst) (simp_all add: a b4)
    also have "\<dots> = bindr (case dst of None \<Rightarrow> Ok None | Some b \<Rightarrow> bindr (wrs b d (c # cs)) (\<lambda>b. Ok (Some b)))
       (\<lambda>dst. Ok (dst, Some (d + int (length (c # cs)), True)))"
      unfolding Cons.IH [OF a(1) d] by (cases dst) (simp_all add: wrs.simps bindr_assoc algebra_simps)
    finally show ?thesis using False by (simp add: non_ascii_def)
  qed
qed

lemma utf8_to_latin1_wrs:
  assumes "at_off src k (latin1_utf8 cs)" "int (length cs) \<le> destlen" "n = int (length (latin1_utf8 cs))"
  shows "utf8_to_latin1 dst d src k n destlen =
     bindr (case dst of None \<Rightarrow> Ok None
            | Some b \<Rightarrow> bindr (wrs b d cs) (\<lambda>b. Ok (Some b)))
       (\<lambda>dst. Ok (dst, Some (int (length cs), if non_ascii cs then ERLANG_LATIN1 else ERLANG_ASCII)))"
proof -
  have "d + int (length cs) \<le> d + destlen" using assms(2) by simp
  note r = utf8_to_latin1_loop_wrs [OF assms(1) this, of dst False]
  show ?thesis using assms(3) by (simp add: utf8_to_latin1_def bindr_assoc r)
qed

lemma etf_atom_latin1_utf8:
  assumes "length cs < 128 \<or> 256 \<le> length (latin1_utf8 cs)"
  shows "etf_atom_latin1 cs = etf_atom_utf8 (latin1_utf8 cs)"
  using assms length_latin1_utf8 [of cs] by (auto simp: etf_atom_latin1_def etf_atom_utf8_def Let_def)

lemma atom_header_latin1:
  assumes "at_off buf i (etf_atom_latin1 cs)" "length cs < 256"
  defines "n \<equiv> int (length (latin1_utf8 cs))"
  shows "atom_header buf i = Ok ((n, ERLANG_UTF8), i + int (length (etf_atom_latin1 cs)) - n)"
    and "at_off buf (i + int (length (etf_atom_latin1 cs)) - n) (latin1_utf8 cs)"
proof -
  have n: "0 \<le> n" "n < 65536" "length cs < 128 \<Longrightarrow> n < 256"
    using assms(2) length_latin1_utf8 [of cs] by (auto simp: n_def)
  show "atom_header buf i = Ok ((n, ERLANG_UTF8), i + int (length (etf_atom_latin1 cs)) - n)"
    and "at_off buf (i + int (length (etf_atom_latin1 cs)) - n) (latin1_utf8 cs)"
    using assms(1) n atom_header_long [of buf i n "latin1_utf8 cs"] atom_header_short [of buf i n "latin1_utf8 cs"]
    by (auto simp: etf_atom_latin1_def Let_def n_def split: if_splits)
qed

text \<open>A Latin-1 name written by the encoder is read back as the same characters.\<close>

lemma ei_decode_atom_latin1:
  assumes "at_off buf i (etf_atom_latin1 cs)" "length cs < 256" "room p (int (length cs) + 1)"
  shows "ei_decode_atom buf i p = Ok (stored_name p cs, i + int (length (etf_atom_latin1 cs)))"
proof -
  note h = atom_header_latin1 [OF assms(1,2)]
  have "int (length cs) \<le> 255" using assms(2) by simp
  note u = utf8_to_latin1_wrs [OF h(2) this refl, of p 0]
  show ?thesis
    using assms(3)
    by (simp add: ei_decode_atom_def ei_decode_atom_as_def h(1) u put_name' bindr_assoc)
qed

end
