(* ===== verification/Ei_Decode.thy ===== *)
theory Ei_Decode
  imports Ei_Atom
begin

text \<open>
  The decoders of \<^verbatim>\<open>erl_interface/src/decode\<close> for integers, floats, booleans, headers,
  binaries, strings and integer lists. A decoder takes the buffer and \<open>*index\<close> and returns the
  decoded value with the new index; \<open>Err\<close> is a return of -1. Where a decoder stores through a
  pointer that may be NULL and does nothing else with it, the model returns the value and the
  caller stores it; where the code reads less when the pointer is NULL, or fills an array, the
  pointer is an argument (\<open>None\<close> is NULL, an array is a list and a store outside it is a fault).
\<close>

section \<open>Integers\<close>

text \<open>
  The loop that assembles at most \<open>k\<close> little-endian digits into an unsigned integer and insists
  that the further ones are zero.
\<close>

fun get_digits ::
  "int \<Rightarrow> byte list \<Rightarrow> int \<Rightarrow> int \<Rightarrow> nat \<Rightarrow> 'a::len word \<Rightarrow> (unit, 'a word \<times> int) res" where
  "get_digits k buf s i 0 u = Ok (u, s)"
| "get_digits k buf s i (Suc n) u =
     bindr (get8 buf s) (\<lambda>(c, s).
       if i < k then get_digits k buf s (i + 1) n (u OR push_bit (nat (i * 8)) (word_of_int c))
       else if c \<noteq> 0 then Err ()
       else get_digits k buf s (i + 1) n u)"

text \<open>The arity field of the two big forms.\<close>

definition big_arity :: "byte list \<Rightarrow> int \<Rightarrow> int \<Rightarrow> (unit, int \<times> int) res" where
  "big_arity buf s t = (if t = ERL_SMALL_BIG_EXT then get8 buf s else get32be buf s)"

definition ei_decode_longlong :: "byte list \<Rightarrow> int \<Rightarrow> 64 word dres" where
  "ei_decode_longlong buf index =
     bindr (get8 buf index) (\<lambda>(t, s).
       if t = ERL_SMALL_INTEGER_EXT then bindr (get8 buf s) (\<lambda>(n, s). Ok (word_of_int n, s))
       else if t = ERL_INTEGER_EXT then bindr (get32be buf s) (\<lambda>(n, s). Ok (word_of_int n, s))
       else if t = ERL_SMALL_BIG_EXT \<or> t = ERL_LARGE_BIG_EXT
       then bindr (big_arity buf s t) (\<lambda>(arity, s).
            bindr (get8 buf s) (\<lambda>(sign, s).
            bindr (get_digits 8 buf s 0 (nat arity) 0) (\<lambda>(u, s).
              if sign \<noteq> 0
              then if u > 0x8000000000000000 then Err () else Ok (- u, s)
              else if u > 0x7FFFFFFFFFFFFFFF then Err () else Ok (u, s))))
       else Err ())"

definition ei_decode_ulonglong :: "byte list \<Rightarrow> int \<Rightarrow> 64 word dres" where
  "ei_decode_ulonglong buf index =
     bindr (get8 buf index) (\<lambda>(t, s).
       if t = ERL_SMALL_INTEGER_EXT then bindr (get8 buf s) (\<lambda>(n, s). Ok (word_of_int n, s))
       else if t = ERL_INTEGER_EXT
       then bindr (get32be buf s) (\<lambda>(sn, s). if sn < 0 then Err () else Ok (word_of_int sn, s))
       else if t = ERL_SMALL_BIG_EXT \<or> t = ERL_LARGE_BIG_EXT
       then bindr (big_arity buf s t) (\<lambda>(arity, s).
            bindr (get8 buf s) (\<lambda>(sign, s).
            if sign \<noteq> 0 then Err () else get_digits 8 buf s 0 (nat arity) 0))
       else Err ())"

text \<open>With \<^verbatim>\<open>EI_64BIT\<close> a C \<open>long\<close> is decoded as a 64-bit integer.\<close>

definition ei_decode_long :: "byte list \<Rightarrow> int \<Rightarrow> 64 word dres" where
  "ei_decode_long buf index = ei_decode_longlong buf index"

definition ei_decode_ulong :: "byte list \<Rightarrow> int \<Rightarrow> 64 word dres" where
  "ei_decode_ulong buf index = ei_decode_ulonglong buf index"

text \<open>Without \<^verbatim>\<open>EI_64BIT\<close> a C \<open>long\<close> has 32 bits and there are separate decoders.\<close>

definition ei_decode_long_32 :: "byte list \<Rightarrow> int \<Rightarrow> 32 word dres" where
  "ei_decode_long_32 buf index =
     bindr (get8 buf index) (\<lambda>(t, s).
       if t = ERL_SMALL_INTEGER_EXT then bindr (get8 buf s) (\<lambda>(n, s). Ok (word_of_int n, s))
       else if t = ERL_INTEGER_EXT then bindr (get32be buf s) (\<lambda>(n, s). Ok (word_of_int n, s))
       else if t = ERL_SMALL_BIG_EXT \<or> t = ERL_LARGE_BIG_EXT
       then bindr (big_arity buf s t) (\<lambda>(arity, s).
            bindr (get8 buf s) (\<lambda>(sign, s).
            bindr (get_digits 4 buf s 0 (nat arity) 0) (\<lambda>(u, s).
              if sign \<noteq> 0
              then if u > 0x80000000 then Err () else Ok (- u, s)
              else if u > 0x7FFFFFFF then Err () else Ok (u, s))))
       else Err ())"

definition ei_decode_ulong_32 :: "byte list \<Rightarrow> int \<Rightarrow> 32 word dres" where
  "ei_decode_ulong_32 buf index =
     bindr (get8 buf index) (\<lambda>(t, s).
       if t = ERL_SMALL_INTEGER_EXT then bindr (get8 buf s) (\<lambda>(n, s). Ok (word_of_int n, s))
       else if t = ERL_INTEGER_EXT
       then bindr (get32be buf s) (\<lambda>(sn, s). if sn < 0 then Err () else Ok (word_of_int sn, s))
       else if t = ERL_SMALL_BIG_EXT \<or> t = ERL_LARGE_BIG_EXT
       then bindr (big_arity buf s t) (\<lambda>(arity, s).
            bindr (get8 buf s) (\<lambda>(sign, s).
            if sign \<noteq> 0 then Err () else get_digits 4 buf s 0 (nat arity) 0))
       else Err ())"

fun all_zero :: "byte list \<Rightarrow> int \<Rightarrow> nat \<Rightarrow> (unit, int) res" where
  "all_zero buf s 0 = Ok s"
| "all_zero buf s (Suc n) = bindr (rd buf s) (\<lambda>c. if c \<noteq> 0 then Err () else all_zero buf (s + 1) n)"

definition ei_decode_char :: "byte list \<Rightarrow> int \<Rightarrow> byte dres" where
  "ei_decode_char buf index =
     bindr (get8 buf index) (\<lambda>(t, s).
       if t = ERL_SMALL_INTEGER_EXT then bindr (get8 buf s) (\<lambda>(n, s). Ok (word_of_int n, s))
       else if t = ERL_INTEGER_EXT
       then bindr (get32be buf s) (\<lambda>(n, s). if n < 0 \<or> n > 255 then Err () else Ok (word_of_int n, s))
       else if t = ERL_SMALL_BIG_EXT \<or> t = ERL_LARGE_BIG_EXT
       then bindr (big_arity buf s t) (\<lambda>(arity, s).
            bindr (get8 buf s) (\<lambda>(sign, s).
            if sign \<noteq> 0 then Err ()
            else bindr (get8 buf s) (\<lambda>(n, s).
                 bindr (all_zero buf s (nat (arity - 1))) (\<lambda>s. Ok (word_of_int n, s)))))
       else Err ())"

section \<open>Version, booleans, floats\<close>

definition ei_decode_version :: "byte list \<Rightarrow> int \<Rightarrow> int dres" where
  "ei_decode_version buf index =
     bindr (get8 buf index) (\<lambda>(v, s). if v \<noteq> ERL_VERSION_MAGIC then Err () else Ok (v, s))"

text \<open>
  The local array \<open>tbuf\<close> has six characters; the name stored there is compared with the two
  constants, NUL included, so its initial contents do not matter. An atom with another name is
  an error, but the index has moved by then: \<open>Err\<close> carries it.
\<close>

definition ei_decode_boolean :: "byte list \<Rightarrow> int \<Rightarrow> (int, int \<times> int) res" where
  "ei_decode_boolean buf index =
     (case ei_decode_atom_as buf index (Some (replicate 6 0)) 6 ERLANG_ASCII of
        Fault \<Rightarrow> Fault
      | Err _ \<Rightarrow> Err index
      | Ok ((tbuf, _), index) \<Rightarrow>
          if map_option (take 5) tbuf = Some [116, 114, 117, 101, 0] then Ok (1, index)
          else if map_option (take 6) tbuf = Some [102, 97, 108, 115, 101, 0] then Ok (0, index)
          else Err index)"

text \<open>
  The old textual float is read with \<open>sscanf\<close>, the parameter \<open>scan\<close>: the float that starts
  at an offset, if there is one. The result is the bit pattern of the \<open>double\<close>.
\<close>

definition ei_decode_double ::
  "(byte list \<Rightarrow> int \<Rightarrow> 64 word option) \<Rightarrow> byte list \<Rightarrow> int \<Rightarrow> 64 word dres" where
  "ei_decode_double scan buf index =
     bindr (get8 buf index) (\<lambda>(t, s).
       if t = ERL_FLOAT_EXT
       then (case scan buf s of None \<Rightarrow> Err () | Some d \<Rightarrow> Ok (d, s + 31))
       else if t = NEW_FLOAT_EXT then get64be buf s
       else Err ())"

section \<open>Headers\<close>

text \<open>The arity is read only when the pointer \<open>arity\<close> is not NULL (\<open>want\<close>).\<close>

definition ei_decode_list_header :: "byte list \<Rightarrow> int \<Rightarrow> bool \<Rightarrow> int option dres" where
  "ei_decode_list_header buf index want =
     bindr (get8 buf index) (\<lambda>(t, s).
       if t = ERL_NIL_EXT then Ok (if want then Some 0 else None, s)
       else if t = ERL_LIST_EXT
       then if want then bindr (get32be buf s) (\<lambda>(n, s). Ok (Some n, s)) else Ok (None, s + 4)
       else Err ())"

definition ei_decode_tuple_header :: "byte list \<Rightarrow> int \<Rightarrow> bool \<Rightarrow> int option dres" where
  "ei_decode_tuple_header buf index want =
     bindr (get8 buf index) (\<lambda>(t, s).
       if t = ERL_SMALL_TUPLE_EXT
       then if want then bindr (get8 buf s) (\<lambda>(n, s). Ok (Some n, s)) else Ok (None, s + 1)
       else if t = ERL_LARGE_TUPLE_EXT
       then if want then bindr (get32be buf s) (\<lambda>(n, s). Ok (Some n, s)) else Ok (None, s + 4)
       else Err ())"

definition ei_decode_map_header :: "byte list \<Rightarrow> int \<Rightarrow> bool \<Rightarrow> int option dres" where
  "ei_decode_map_header buf index want =
     bindr (get8 buf index) (\<lambda>(t, s).
       if t = ERL_MAP_EXT
       then if want then bindr (get32be buf s) (\<lambda>(n, s). Ok (Some n, s)) else Ok (None, s + 4)
       else Err ())"

section \<open>Binaries, strings, integer lists\<close>

text \<open>\<open>memmove\<close> from an offset of the buffer to the start of an array.\<close>

definition memmove_from :: "ebuf \<Rightarrow> byte list \<Rightarrow> int \<Rightarrow> int \<Rightarrow> (unit, ebuf) res" where
  "memmove_from p buf s n =
     (case p of
        None \<Rightarrow> Ok None
      | Some a \<Rightarrow>
          if n < 0 then Fault
          else bindr (rds buf s (nat n)) (\<lambda>xs. bindr (wrs a 0 xs) (\<lambda>a. Ok (Some a))))"

definition ei_decode_binary :: "byte list \<Rightarrow> int \<Rightarrow> ebuf \<Rightarrow> (ebuf \<times> int) dres" where
  "ei_decode_binary buf index p =
     bindr (get8 buf index) (\<lambda>(t, s).
       if t \<noteq> ERL_BINARY_EXT then Err ()
       else bindr (get32be buf s) (\<lambda>(len, s).
            bindr (memmove_from p buf s len) (\<lambda>p. Ok ((p, len), s + len))))"

text \<open>The two loops over a long string: storing the characters, or only checking the tags.\<close>

fun get_chars :: "byte list \<Rightarrow> int \<Rightarrow> byte list \<Rightarrow> int \<Rightarrow> nat \<Rightarrow> (unit, byte list \<times> int) res" where
  "get_chars buf s p i 0 = bindr (wr p i 0) (\<lambda>p. Ok (p, s))"
| "get_chars buf s p i (Suc n) =
     bindr (get8 buf s) (\<lambda>(t, s).
       if t \<noteq> ERL_SMALL_INTEGER_EXT then bindr (wr p i 0) (\<lambda>p. Err ())
       else bindr (get8 buf s) (\<lambda>(c, s).
            bindr (wr p i (word_of_int c)) (\<lambda>p. get_chars buf s p (i + 1) n)))"

fun skip_chars :: "byte list \<Rightarrow> int \<Rightarrow> nat \<Rightarrow> (unit, int) res" where
  "skip_chars buf s 0 = Ok s"
| "skip_chars buf s (Suc n) =
     bindr (get8 buf s) (\<lambda>(t, s).
       if t \<noteq> ERL_SMALL_INTEGER_EXT then Err () else skip_chars buf (s + 1) n)"

definition ei_decode_string :: "byte list \<Rightarrow> int \<Rightarrow> ebuf \<Rightarrow> ebuf dres" where
  "ei_decode_string buf index p =
     bindr (get8 buf index) (\<lambda>(t, s).
       if t = ERL_STRING_EXT
       then bindr (get16be buf s) (\<lambda>(len, s).
            bindr (memmove_from p buf s len) (\<lambda>p.
            bindr (put_nul p len) (\<lambda>p. Ok (p, s + len))))
       else if t = ERL_LIST_EXT
       then bindr (get32be buf s) (\<lambda>(len, s).
            bindr (case p of
                     Some a \<Rightarrow> bindr (get_chars buf s a 0 (nat len)) (\<lambda>(a, s). Ok (Some a, s))
                   | None \<Rightarrow> bindr (skip_chars buf s (nat len)) (\<lambda>s. Ok (None, s))) (\<lambda>(p, s).
            bindr (get8 buf s) (\<lambda>(t, s). if t \<noteq> ERL_NIL_EXT then Err () else Ok (p, s))))
       else if t = ERL_NIL_EXT then bindr (put_nul p 0) (\<lambda>p. Ok (p, s))
       else Err ())"

text \<open>An array of \<open>long\<close>; a store outside it is a fault.\<close>

definition wr_long :: "64 word list option \<Rightarrow> int \<Rightarrow> 64 word \<Rightarrow> ('e, 64 word list option) res" where
  "wr_long a i x =
     (case a of
        None \<Rightarrow> Ok None
      | Some xs \<Rightarrow> if 0 \<le> i \<and> i < int (length xs) then Ok (Some (xs[nat i := x])) else Fault)"

fun chars_to_longs ::
  "byte list \<Rightarrow> int \<Rightarrow> 64 word list option \<Rightarrow> int \<Rightarrow> nat \<Rightarrow> (unit, 64 word list option) res" where
  "chars_to_longs buf s a i 0 = Ok a"
| "chars_to_longs buf s a i (Suc n) =
     (case a of
        None \<Rightarrow> Ok None
      | Some _ \<Rightarrow> bindr (rd buf (s + i)) (\<lambda>c.
                  bindr (wr_long a i (ucast c)) (\<lambda>a. chars_to_longs buf s a (i + 1) n)))"

text \<open>A failing element leaves its position in \<open>*count\<close>: \<open>Err\<close> carries it.\<close>

fun get_longs ::
  "byte list \<Rightarrow> int \<Rightarrow> 64 word list option \<Rightarrow> int \<Rightarrow> nat \<Rightarrow> (int option, 64 word list option \<times> int) res" where
  "get_longs buf s a i 0 = Ok (a, s)"
| "get_longs buf s a i (Suc n) =
     (case ei_decode_long buf s of
        Fault \<Rightarrow> Fault
      | Err _ \<Rightarrow> Err (Some i)
      | Ok (x, s) \<Rightarrow> bindr (wr_long a i x) (\<lambda>a. get_longs buf s a (i + 1) n))"

definition lift_err :: "'f \<Rightarrow> ('e, 'a) res \<Rightarrow> ('f, 'a) res" where
  "lift_err e r = (case r of Fault \<Rightarrow> Fault | Err _ \<Rightarrow> Err e | Ok a \<Rightarrow> Ok a)"

definition ei_decode_intlist ::
  "byte list \<Rightarrow> int \<Rightarrow> 64 word list option \<Rightarrow> (int option, (64 word list option \<times> int) \<times> int) res" where
  "ei_decode_intlist buf index a =
     bindr (get8 buf index) (\<lambda>(t, s).
       if t = ERL_STRING_EXT
       then bindr (get16be buf s) (\<lambda>(len, s).
            bindr (lift_err None (chars_to_longs buf s a 0 (nat len))) (\<lambda>a. Ok ((a, len), s + len)))
       else if t = ERL_LIST_EXT
       then bindr (get32be buf s) (\<lambda>(len, s).
            bindr (get_longs buf s a 0 (nat len)) (\<lambda>(a, s). Ok ((a, len), s)))
       else Err None)"

section \<open>Integers come back\<close>

lemma or_push_word:
  fixes u :: "'a::len word"
  assumes "unat u < 256 ^ i"
  shows "u OR push_bit (8 * i) v = u + push_bit (8 * i) v"
proof -
  have e: "(2 :: nat) ^ (8 * i) = 256 ^ i" by (simp add: power_mult)
  have "unat (take_bit (8 * i) u) = unat u"
    using assms by (simp add: unsigned_take_bit_eq take_bit_nat_eq_self e)
  then have "u = take_bit (8 * i) u" by (metis word_unat_eq_iff)
  then have "u AND push_bit (8 * i) v = take_bit (8 * i) u AND push_bit (8 * i) v" by simp
  also have "\<dots> = 0" by (rule bit_word_eqI) (auto simp: bit_simps)
  finally show ?thesis by (rule disjunctive_add_eq_or [symmetric])
qed

text \<open>The digits so far have the value \<open>U\<close>; one byte per word position is left.\<close>

lemma unat_or_push:
  fixes c :: byte
  assumes "U < 256 ^ i" "8 * Suc i \<le> LENGTH('a)"
  shows "(word_of_nat U OR push_bit (nat (int i * 8)) (word_of_int (uint c)) :: 'a::len word) =
     word_of_nat (U + unat c * 256 ^ i)"
    and "U + unat c * 256 ^ i < 256 ^ Suc i"
proof -
  have c: "unat c < 256" using unsigned_less [of c] by simp
  then have "unat c * 256 ^ i \<le> 255 * 256 ^ i" by simp
  with assms(1) show "U + unat c * 256 ^ i < 256 ^ Suc i" by (simp only: power_Suc)
  have "(256 :: nat) ^ i \<le> 256 ^ (LENGTH('a) div 8)"
    using assms(2) by (intro power_increasing) auto
  also have "\<dots> = 2 ^ (8 * (LENGTH('a) div 8))" by (simp add: power_mult)
  also have "\<dots> \<le> 2 ^ LENGTH('a)" by (intro power_increasing) auto
  finally have "unat (word_of_nat U :: 'a word) = U"
    using assms(1) by (simp add: unat_of_nat)
  with assms(1) have "unat (word_of_nat U :: 'a word) < 256 ^ i" by simp
  have e: "(2 :: 'a word) ^ (8 * i) = 256 ^ i" and n: "nat (int i * 8) = 8 * i"
    by (simp_all add: power_mult nat_mult_distrib)
  from or_push_word [OF \<open>unat (word_of_nat U :: 'a word) < 256 ^ i\<close>, of "word_of_nat (unat c)"]
  show "(word_of_nat U OR push_bit (nat (int i * 8)) (word_of_int (uint c)) :: 'a word) =
     word_of_nat (U + unat c * 256 ^ i)"
    using e n by (simp add: push_bit_eq_mult)
qed

lemma get_digits_high:
  "at_off buf s ds \<Longrightarrow> k \<le> i \<Longrightarrow>
   get_digits k buf s i (length ds) u =
     (if le_value ds = 0 then Ok (u, s + int (length ds)) else Err ())"
  by (induction ds arbitrary: s i) (auto simp: get8_def rd_def unat_eq_0 uint_0_iff add.assoc)

lemma get_digits_at:
  assumes "LENGTH('a) = 8 * k"
  shows "at_off buf s ds \<Longrightarrow> i \<le> k \<Longrightarrow> U < 256 ^ i \<Longrightarrow>
   get_digits (int k) buf s (int i) (length ds) (word_of_nat U :: 'a::len word) =
     (if U + le_value ds * 256 ^ i < 256 ^ k
      then Ok (word_of_nat (U + le_value ds * 256 ^ i), s + int (length ds)) else Err ())"
proof (induction ds arbitrary: s i U)
  case Nil
  then have "U < 256 ^ k" by (meson order_less_le_trans power_increasing one_le_numeral)
  then show ?case by simp
next
  case (Cons c ds)
  from Cons.prems have r: "get8 buf s = Ok (uint c, s + 1)" and a: "at_off buf (s + 1) ds"
    by (auto simp: get8_def rd_def)
  show ?case
  proof (cases "i < k")
    case True
    with assms have "8 * Suc i \<le> LENGTH('a)" by simp
    note u = unat_or_push [OF Cons.prems(3) this, of c]
    have e: "U + unat c * 256 ^ i + le_value ds * 256 ^ Suc i = U + le_value (c # ds) * 256 ^ i"
      by (simp add: algebra_simps)
    from True have "Suc i \<le> k" by simp
    note IH = Cons.IH [OF a this u(2)]
    have "get_digits (int k) buf s (int i) (length (c # ds)) (word_of_nat U :: 'a word) =
        get_digits (int k) buf (s + 1) (int (Suc i)) (length ds) (word_of_nat (U + unat c * 256 ^ i))"
      using True by (simp only: list.size(4) add_Suc_right add_0_right get_digits.simps r bindr.simps prod.case u(1))
        (simp add: add.commute)
    then show ?thesis using IH unfolding e by (simp add: add.assoc)
  next
    case False
    then have k: "i = k" using Cons.prems(2) by simp
    have "le_value (c # ds) \<noteq> 0 \<Longrightarrow> 256 ^ k \<le> U + le_value (c # ds) * 256 ^ k"
      by (cases "le_value (c # ds)") (simp_all del: le_value.simps)
    then show ?thesis
      using get_digits_high [OF Cons.prems(1), of "int k" "int i" "word_of_nat U :: 'a word"]
        k Cons.prems(3) by (auto simp: not_less simp del: get_digits.simps le_value.simps)
  qed
qed

lemma get_digits_0:
  assumes "LENGTH('a) = 8 * k" "at_off buf s ds" "int k = k'"
  shows "get_digits k' buf s 0 (length ds) (0 :: 'a::len word) =
     (if le_value ds < 256 ^ k then Ok (word_of_nat (le_value ds), s + int (length ds)) else Err ())"
  using get_digits_at [OF assms(1,2), of 0 0] assms(3) by simp

text \<open>The header of the big form.\<close>

lemma big_at:
  assumes "at_off buf i (etf_big n)" "length (le_digits (nat \<bar>n\<bar>)) < 256"
  defines "ds \<equiv> le_digits (nat \<bar>n\<bar>)"
  shows "get8 buf i = Ok (110, i + 1)" "big_arity buf (i + 1) 110 = Ok (int (length ds), i + 2)"
    "get8 buf (i + 2) = Ok (if n < 0 then 1 else 0, i + 3)" "at_off buf (i + 3) ds"
    "length (etf_big n) = length ds + 3"
proof -
  have e: "etf_big n = byte_of 110 # byte_of (int (length ds)) # of_bool (n < 0) # ds"
    by (simp add: etf_big_def ds_def Let_def)
  then have a: "at_off buf i (byte_of 110 # byte_of (int (length ds)) # of_bool (n < 0) # ds)"
    using assms(1) by simp
  then have b: "at_off buf (i + 1) (byte_of (int (length ds)) # of_bool (n < 0) # ds)"
    and c: "at_off buf (i + 2) (of_bool (n < 0) # ds)" and d: "at_off buf (i + 3) ds"
    by (simp_all add: add.assoc)
  show "get8 buf i = Ok (110, i + 1)" using get8_at [OF a] by simp
  show "big_arity buf (i + 1) 110 = Ok (int (length ds), i + 2)"
    using get8_at [OF b] assms(2) by (simp add: big_arity_def ds_def add.commute)
  show "get8 buf (i + 2) = Ok (if n < 0 then 1 else 0, i + 3)"
    using get8_at [OF c] by (cases "n < 0") (simp_all add: add.commute)
  show "at_off buf (i + 3) ds" by (rule d)
  show "length (etf_big n) = length ds + 3" by (simp add: e)
qed

text \<open>The decoders on the two small forms.\<close>

lemma int_at:
  assumes "at_off buf i (etf_int n)"
  shows "0 \<le> n \<Longrightarrow> n < 256 \<Longrightarrow> get8 buf i = Ok (97, i + 1) \<and> get8 buf (i + 1) = Ok (n, i + 2)"
    and "\<not> (0 \<le> n \<and> n < 256) \<Longrightarrow> ERL_MIN \<le> n \<Longrightarrow> n \<le> ERL_MAX \<Longrightarrow>
      get8 buf i = Ok (98, i + 1) \<and> get32be buf (i + 1) = Ok (n, i + 5)"
  using assms by (auto simp: etf_int_def get8_def rd_def get32be_at signed_take_bit_31_id)

lemma length_etf_int:
  "0 \<le> n \<Longrightarrow> n < 256 \<Longrightarrow> length (etf_int n) = 2"
  "\<not> (0 \<le> n \<and> n < 256) \<Longrightarrow> ERL_MIN \<le> n \<Longrightarrow> n \<le> ERL_MAX \<Longrightarrow> length (etf_int n) = 5"
  "\<not> (0 \<le> n \<and> n < 256) \<Longrightarrow> \<not> (ERL_MIN \<le> n \<and> n \<le> ERL_MAX) \<Longrightarrow> etf_int n = etf_big n"
  by (auto simp: etf_int_def)

lemma word64_le: "word_of_nat m \<le> (word_of_nat k :: 64 word) \<longleftrightarrow> m \<le> k" if "m < 2 ^ 64" "k < 2 ^ 64"
  using that by (simp add: word_le_nat_alt unat_of_nat)

lemma word32_le: "word_of_nat m \<le> (word_of_nat k :: 32 word) \<longleftrightarrow> m \<le> k" if "m < 2 ^ 32" "k < 2 ^ 32"
  using that by (simp add: word_le_nat_alt unat_of_nat)

lemma word_of_abs:
  "n < 0 \<Longrightarrow> - word_of_nat (nat \<bar>n\<bar>) = (word_of_int n :: 'a::len word)"
  "0 \<le> n \<Longrightarrow> word_of_nat (nat \<bar>n\<bar>) = (word_of_int n :: 'a::len word)"
  by simp_all

text \<open>
  The decoders of signed and unsigned 64-bit integers on any integer of the format: its value if
  the C type has it, an error otherwise.
\<close>

lemma ei_decode_longlong_at:
  assumes "at_off buf i (etf_int n)" "length (le_digits (nat \<bar>n\<bar>)) < 256"
  shows "ei_decode_longlong buf i =
     (if - (2 ^ 63) \<le> n \<and> n < 2 ^ 63 then Ok (word_of_int n, i + int (length (etf_int n))) else Err ())"
proof -
  consider "0 \<le> n" "n < 256" | "\<not> (0 \<le> n \<and> n < 256)" "ERL_MIN \<le> n" "n \<le> ERL_MAX"
    | (big) "\<not> (0 \<le> n \<and> n < 256)" "\<not> (ERL_MIN \<le> n \<and> n \<le> ERL_MAX)" by auto
  then show ?thesis
  proof cases
    case big
    note e = length_etf_int(3) [OF big]
    note b = big_at [OF assms(1) [unfolded e] assms(2)]
    define m where "m = nat \<bar>n\<bar>"
    define ds where "ds = le_digits m"
    have m: "(word_of_nat m :: 64 word) > 0x8000000000000000 \<longleftrightarrow> m > 2 ^ 63"
      "(word_of_nat m :: 64 word) > 0x7FFFFFFFFFFFFFFF \<longleftrightarrow> m > 2 ^ 63 - 1" if "m < 2 ^ 64"
      using that word64_le [of m "2 ^ 63"] word64_le [of m "2 ^ 63 - 1"] by (simp_all add: not_le [symmetric])
    have mn: "m < 2 ^ 64 \<longleftrightarrow> \<bar>n\<bar> < 2 ^ 64" "m > 2 ^ 63 \<longleftrightarrow> \<bar>n\<bar> > 2 ^ 63" "m > 2 ^ 63 - 1 \<longleftrightarrow> \<bar>n\<bar> > 2 ^ 63 - 1"
      by (auto simp: m_def)
    have g: "get_digits 8 buf (i + 3) 0 (length ds) (0 :: 64 word) =
        (if m < 2 ^ 64 then Ok (word_of_nat m, i + 3 + int (length ds)) else Err ())"
      using get_digits_0 [where 'a = 64, of 8 buf "i + 3" ds 8] b(4) by (simp add: ds_def m_def)
    note w = word_of_abs [of n, where 'a = 64, folded m_def]
    have "ei_decode_longlong buf i =
       (if m < 2 ^ 64 then
          if n < 0 then if m > 2 ^ 63 then Err () else Ok (- word_of_nat m, i + 3 + int (length ds))
          else if m > 2 ^ 63 - 1 then Err () else Ok (word_of_nat m, i + 3 + int (length ds))
        else Err ())"
      using m by (simp add: ei_decode_longlong_def b [folded m_def, folded ds_def] g)
    then show ?thesis
      using w b(5) [folded m_def, folded ds_def] unfolding e mn by (auto simp: algebra_simps)
  qed (auto simp: ei_decode_longlong_def int_at [OF assms(1)] length_etf_int)
qed

lemma ei_decode_ulonglong_at:
  assumes "at_off buf i (etf_int n)" "length (le_digits (nat \<bar>n\<bar>)) < 256"
  shows "ei_decode_ulonglong buf i =
     (if 0 \<le> n \<and> n < 2 ^ 64 then Ok (word_of_int n, i + int (length (etf_int n))) else Err ())"
proof -
  consider "0 \<le> n" "n < 256" | "\<not> (0 \<le> n \<and> n < 256)" "ERL_MIN \<le> n" "n \<le> ERL_MAX"
    | (big) "\<not> (0 \<le> n \<and> n < 256)" "\<not> (ERL_MIN \<le> n \<and> n \<le> ERL_MAX)" by auto
  then show ?thesis
  proof cases
    case big
    note e = length_etf_int(3) [OF big]
    note b = big_at [OF assms(1) [unfolded e] assms(2)]
    define m where "m = nat \<bar>n\<bar>"
    define ds where "ds = le_digits m"
    have mn: "m < 2 ^ 64 \<longleftrightarrow> \<bar>n\<bar> < 2 ^ 64" by (auto simp: m_def)
    have g: "get_digits 8 buf (i + 3) 0 (length ds) (0 :: 64 word) =
        (if m < 2 ^ 64 then Ok (word_of_nat m, i + 3 + int (length ds)) else Err ())"
      using get_digits_0 [where 'a = 64, of 8 buf "i + 3" ds 8] b(4) by (simp add: ds_def m_def)
    note w = word_of_abs [of n, where 'a = 64, folded m_def]
    have "ei_decode_ulonglong buf i =
       (if n < 0 then Err () else if m < 2 ^ 64 then Ok (word_of_nat m, i + 3 + int (length ds)) else Err ())"
      by (simp add: ei_decode_ulonglong_def b [folded m_def, folded ds_def] g)
    then show ?thesis
      using w b(5) [folded m_def, folded ds_def] unfolding e mn by (auto simp: algebra_simps)
  qed (auto simp: ei_decode_ulonglong_def int_at [OF assms(1)] length_etf_int)
qed

text \<open>A character is any integer between 0 and 255.\<close>

lemma ei_decode_char_at:
  assumes "at_off buf i (etf_int n)" "length (le_digits (nat \<bar>n\<bar>)) < 256"
  shows "ei_decode_char buf i =
     (if 0 \<le> n \<and> n < 256 then Ok (word_of_int n, i + int (length (etf_int n))) else Err ())"
proof -
  consider "0 \<le> n" "n < 256" | "\<not> (0 \<le> n \<and> n < 256)" "ERL_MIN \<le> n" "n \<le> ERL_MAX"
    | (big) "\<not> (0 \<le> n \<and> n < 256)" "\<not> (ERL_MIN \<le> n \<and> n \<le> ERL_MAX)" by auto
  then show ?thesis
  proof cases
    case big
    note e = length_etf_int(3) [OF big]
    note b = big_at [OF assms(1) [unfolded e] assms(2)]
    define m where "m = nat \<bar>n\<bar>"
    have m: "m \<noteq> 0" "m div 256 \<noteq> 0" using big by (auto simp: m_def)
    define d0 ds where "d0 = (word_of_nat (m mod 256) :: byte)" and "ds = le_digits (m div 256)"
    have l: "le_digits m = d0 # ds"
      using m(1) by (subst le_digits.simps) (simp add: d0_def ds_def)
    have z: "all_zero buf s (length ds) = (if le_value ds = 0 then Ok (s + int (length ds)) else Err ())"
      if "at_off buf s ds" for s
      using that by (induction ds arbitrary: s) (auto simp: rd_def unat_eq_0 add.assoc)
    have "at_off buf (i + 3) (d0 # ds)" using b(4) l by (simp add: m_def)
    then have g: "get8 buf (i + 3) = Ok (uint d0, i + 4)" and a: "at_off buf (i + 4) ds"
      by (auto simp: get8_def rd_def add.assoc)
    have "le_value ds \<noteq> 0" using m(2) by (simp add: ds_def)
    then have "ei_decode_char buf i = Err ()"
      by (simp add: ei_decode_char_def b [folded m_def, unfolded l] g z [OF a])
    then show ?thesis using big by auto
  qed (auto simp: ei_decode_char_def int_at [OF assms(1)] length_etf_int)
qed

text \<open>The 32-bit decoders behave the same with the bounds of their type.\<close>

lemma ei_decode_long_32_at:
  assumes "at_off buf i (etf_int n)" "length (le_digits (nat \<bar>n\<bar>)) < 256"
  shows "ei_decode_long_32 buf i =
     (if - (2 ^ 31) \<le> n \<and> n < 2 ^ 31 then Ok (word_of_int n, i + int (length (etf_int n))) else Err ())"
proof -
  consider "0 \<le> n" "n < 256" | "\<not> (0 \<le> n \<and> n < 256)" "ERL_MIN \<le> n" "n \<le> ERL_MAX"
    | (big) "\<not> (0 \<le> n \<and> n < 256)" "\<not> (ERL_MIN \<le> n \<and> n \<le> ERL_MAX)" by auto
  then show ?thesis
  proof cases
    case big
    note e = length_etf_int(3) [OF big]
    note b = big_at [OF assms(1) [unfolded e] assms(2)]
    define m where "m = nat \<bar>n\<bar>"
    define ds where "ds = le_digits m"
    have m: "(word_of_nat m :: 32 word) > 0x80000000 \<longleftrightarrow> m > 2 ^ 31"
      "(word_of_nat m :: 32 word) > 0x7FFFFFFF \<longleftrightarrow> m > 2 ^ 31 - 1" if "m < 2 ^ 32"
      using that word32_le [of m "2 ^ 31"] word32_le [of m "2 ^ 31 - 1"] by (simp_all add: not_le [symmetric])
    have mn: "m < 2 ^ 32 \<longleftrightarrow> \<bar>n\<bar> < 2 ^ 32" "m > 2 ^ 31 \<longleftrightarrow> \<bar>n\<bar> > 2 ^ 31" "m > 2 ^ 31 - 1 \<longleftrightarrow> \<bar>n\<bar> > 2 ^ 31 - 1"
      by (auto simp: m_def)
    have g: "get_digits 4 buf (i + 3) 0 (length ds) (0 :: 32 word) =
        (if m < 2 ^ 32 then Ok (word_of_nat m, i + 3 + int (length ds)) else Err ())"
      using get_digits_0 [where 'a = 32, of 4 buf "i + 3" ds 4] b(4) by (simp add: ds_def m_def)
    note w = word_of_abs [of n, where 'a = 32, folded m_def]
    have "ei_decode_long_32 buf i =
       (if m < 2 ^ 32 then
          if n < 0 then if m > 2 ^ 31 then Err () else Ok (- word_of_nat m, i + 3 + int (length ds))
          else if m > 2 ^ 31 - 1 then Err () else Ok (word_of_nat m, i + 3 + int (length ds))
        else Err ())"
      using m by (simp add: ei_decode_long_32_def b [folded m_def, folded ds_def] g)
    then show ?thesis
      using w b(5) [folded m_def, folded ds_def] unfolding e mn by (auto simp: algebra_simps)
  qed (auto simp: ei_decode_long_32_def int_at [OF assms(1)] length_etf_int)
qed

lemma ei_decode_ulong_32_at:
  assumes "at_off buf i (etf_int n)" "length (le_digits (nat \<bar>n\<bar>)) < 256"
  shows "ei_decode_ulong_32 buf i =
     (if 0 \<le> n \<and> n < 2 ^ 32 then Ok (word_of_int n, i + int (length (etf_int n))) else Err ())"
proof -
  consider "0 \<le> n" "n < 256" | "\<not> (0 \<le> n \<and> n < 256)" "ERL_MIN \<le> n" "n \<le> ERL_MAX"
    | (big) "\<not> (0 \<le> n \<and> n < 256)" "\<not> (ERL_MIN \<le> n \<and> n \<le> ERL_MAX)" by auto
  then show ?thesis
  proof cases
    case big
    note e = length_etf_int(3) [OF big]
    note b = big_at [OF assms(1) [unfolded e] assms(2)]
    define m where "m = nat \<bar>n\<bar>"
    define ds where "ds = le_digits m"
    have mn: "m < 2 ^ 32 \<longleftrightarrow> \<bar>n\<bar> < 2 ^ 32" by (auto simp: m_def)
    have g: "get_digits 4 buf (i + 3) 0 (length ds) (0 :: 32 word) =
        (if m < 2 ^ 32 then Ok (word_of_nat m, i + 3 + int (length ds)) else Err ())"
      using get_digits_0 [where 'a = 32, of 4 buf "i + 3" ds 4] b(4) by (simp add: ds_def m_def)
    note w = word_of_abs [of n, where 'a = 32, folded m_def]
    have "ei_decode_ulong_32 buf i =
       (if n < 0 then Err () else if m < 2 ^ 32 then Ok (word_of_nat m, i + 3 + int (length ds)) else Err ())"
      by (simp add: ei_decode_ulong_32_def b [folded m_def, folded ds_def] g)
    then show ?thesis
      using w b(5) [folded m_def, folded ds_def] unfolding e mn by (auto simp: algebra_simps)
  qed (auto simp: ei_decode_ulong_32_def int_at [OF assms(1)] length_etf_int)
qed

section \<open>Booleans, floats, headers\<close>

lemma ei_decode_version_at:
  "at_off buf i [byte_of ERL_VERSION_MAGIC] \<Longrightarrow> ei_decode_version buf i = Ok (ERL_VERSION_MAGIC, i + 1)"
  by (simp add: ei_decode_version_def get8_def rd_def)

lemma etf_boolean_atom:
  "etf_boolean p = etf_atom_utf8 (if p \<noteq> 0 then [116, 114, 117, 101] else [102, 97, 108, 115, 101])"
  by (simp add: etf_boolean_def etf_atom_utf8_def byte_of_numeral)

lemma ei_decode_double_at:
  "at_off buf i (etf_double d) \<Longrightarrow> ei_decode_double scan buf i = Ok (d, i + 9)"
  by (auto simp: ei_decode_double_def etf_double_def get8_def rd_def get64be_at)

lemma ei_decode_list_header_at:
  assumes "at_off buf i (etf_list_header n)" "0 \<le> n" "n < 2 ^ 31"
  shows "ei_decode_list_header buf i want =
     Ok (if want then Some n else None, i + int (length (etf_list_header n)))"
  using assms
  by (auto simp: ei_decode_list_header_def etf_list_header_def get8_def rd_def get32be_at signed_take_bit_31_id)

lemma ei_decode_tuple_header_at:
  assumes "at_off buf i (etf_tuple_header n)" "0 \<le> n" "n < 2 ^ 31"
  shows "ei_decode_tuple_header buf i want =
     Ok (if want then Some n else None, i + int (length (etf_tuple_header n)))"
  using assms
  by (auto simp: ei_decode_tuple_header_def etf_tuple_header_def get8_def rd_def get32be_at signed_take_bit_31_id)

lemma ei_decode_map_header_at:
  assumes "at_off buf i (etf_map_header n)" "0 \<le> n" "n < 2 ^ 31"
  shows "ei_decode_map_header buf i want =
     Ok (if want then Some n else None, i + int (length (etf_map_header n)))"
  using assms
  by (auto simp: ei_decode_map_header_def etf_map_header_def get8_def rd_def get32be_at signed_take_bit_31_id)

section \<open>Binaries and strings\<close>

lemma memmove_from_at:
  assumes "at_off buf s bs" "n = int (length bs)" "room p n"
  shows "memmove_from p buf s n = Ok (map_option (\<lambda>a. bs @ drop (length bs) a) p)"
  using assms by (auto simp: memmove_from_def room_def at_off_rds wrs_Ok split: option.splits)

lemma ei_decode_binary_at:
  assumes "at_off buf i (etf_binary bs)" "int (length bs) < 2 ^ 31" "room p (int (length bs))"
  shows "ei_decode_binary buf i p =
     Ok ((map_option (\<lambda>a. bs @ drop (length bs) a) p, int (length bs)), i + int (length (etf_binary bs)))"
proof -
  have a: "at_off buf (i + 5) bs" and g: "get32be buf (i + 1) = Ok (int (length bs), i + 5)"
    and t: "get8 buf i = Ok (109, i + 1)"
    using assms(1,2)
    by (auto simp: etf_binary_def at_off_append get8_def rd_def get32be_at signed_take_bit_31_id add.commute)
  show ?thesis
    using memmove_from_at [OF a refl assms(3)] g
    by (simp add: ei_decode_binary_def t g etf_binary_def)
qed

lemma ei_decode_boolean_at:
  assumes "at_off buf i (etf_boolean v)"
  shows "ei_decode_boolean buf i = Ok (of_bool (v \<noteq> 0), i + int (length (etf_boolean v)))"
proof -
  have "ei_decode_atom_as buf i (Some (replicate 6 0)) 6 ERLANG_ASCII =
      Ok ((stored_name (Some (replicate 6 0)) (if v \<noteq> 0 then [116, 114, 117, 101] else [102, 97, 108, 115, 101]),
        ERLANG_UTF8, ERLANG_ASCII), i + int (length (etf_boolean v)))"
    unfolding etf_boolean_atom
    using assms by (subst ei_decode_atom_as_ascii) (auto simp: etf_boolean_atom non_ascii_def room_def)
  moreover have "replicate 6 0 = [0, 0, 0, 0, 0, 0 :: byte]" by (simp add: numeral_eq_Suc)
  ultimately show ?thesis by (cases "v = 0") (simp_all add: ei_decode_boolean_def stored_name_def)
qed

lemma get_chars_at:
  "at_off buf s (concat (map (\<lambda>c. [byte_of ERL_SMALL_INTEGER_EXT, c]) cs)) \<Longrightarrow>
   get_chars buf s p k (length cs) =
     bindr (wrs p k (cs @ [0])) (\<lambda>p. Ok (p, s + 2 * int (length cs)))"
proof (induction cs arbitrary: s p k)
  case (Cons c cs)
  then have a: "at_off buf (s + 2) (concat (map (\<lambda>c. [byte_of ERL_SMALL_INTEGER_EXT, c]) cs))"
    and g: "get8 buf s = Ok (97, s + 1)" "get8 buf (s + 1) = Ok (uint c, s + 2)"
    by (auto simp: get8_def rd_def add.commute)
  show ?case by (simp add: g Cons.IH [OF a] wrs.simps bindr_assoc add.assoc)
qed (simp add: wrs.simps bindr_assoc)

lemma skip_chars_at:
  "at_off buf s (concat (map (\<lambda>c. [byte_of ERL_SMALL_INTEGER_EXT, c]) cs)) \<Longrightarrow>
   skip_chars buf s (length cs) = Ok (s + 2 * int (length cs))"
proof (induction cs arbitrary: s)
  case (Cons c cs)
  then have a: "at_off buf (s + 2) (concat (map (\<lambda>c. [byte_of ERL_SMALL_INTEGER_EXT, c]) cs))"
    and g: "get8 buf s = Ok (97, s + 1)"
    by (auto simp: get8_def rd_def add.commute)
  show ?case using Cons.IH [OF a] by (simp add: g add.commute)
qed simp

lemma wrs_name:
  "room (Some a) (int (length cs) + 1) \<Longrightarrow>
   wrs a 0 (cs @ [0]) = Ok (cs @ 0 # drop (Suc (length cs)) a)"
  by (simp add: room_def wrs_Ok)

lemma ei_decode_string_at:
  assumes "at_off buf i (etf_string cs)" "int (length cs) < 2 ^ 31" "room p (int (length cs) + 1)"
  shows "ei_decode_string buf i p = Ok (stored_name p cs, i + int (length (etf_string cs)))"
proof -
  consider "cs = []" | (short) "cs \<noteq> []" "length cs \<le> 65535" | (long) "cs \<noteq> []" "length cs > 65535" by linarith
  then show ?thesis
  proof cases
    case 1
    then show ?thesis
      using assms by (cases p) (auto simp: ei_decode_string_def etf_string_def get8_def rd_def put_nul_def
          stored_name_def wr_def in_range_def room_def Suc_le_length_iff)
  next
    case short
    then have a: "at_off buf (i + 3) cs" and g: "get16be buf (i + 1) = Ok (int (length cs), i + 3)"
      and t: "get8 buf i = Ok (107, i + 1)"
      using assms(1,2)
      by (auto simp: etf_string_def at_off_append get8_def rd_def get16be_at add.commute)
    have r: "room p (int (length cs))" using assms(3) by (auto simp: room_def split: option.splits)
    have n: "put_nul (map_option (\<lambda>a. cs @ drop (length cs) a) p) (int (length cs)) = Ok (stored_name p cs)"
      using assms(3) by (cases p) (auto simp: put_nul_def wr_def in_range_def room_def stored_name_def
          list_update_append Cons_nth_drop_Suc [symmetric])
    show ?thesis
      using short by (simp add: ei_decode_string_def t g memmove_from_at [OF a refl r] n etf_string_def)
  next
    case long
    let ?cs = "concat (map (\<lambda>c. [byte_of ERL_SMALL_INTEGER_EXT, c]) cs)"
    from long have e: "etf_string cs = byte_of 108 # be32 (int (length cs)) @ ?cs @ [byte_of 106]"
      by (simp add: etf_string_def)
    then have a: "at_off buf (i + 5) ?cs" and g: "get32be buf (i + 1) = Ok (int (length cs), i + 5)"
      and t: "get8 buf i = Ok (108, i + 1)" and z: "at_off buf (i + 5 + int (length ?cs)) [byte_of 106]"
      using assms(1,2) unfolding e
      by (auto simp: at_off_append get8_def rd_def get32be_at signed_take_bit_31_id algebra_simps)
    then have z: "get8 buf (i + 5 + 2 * int (length cs)) = Ok (106, i + 6 + 2 * int (length cs))"
      by (auto simp: get8_def rd_def length_pair_concat)
    show ?thesis
      using assms(3) unfolding e
      by (cases p) (simp_all add: ei_decode_string_def t g get_chars_at [OF a] skip_chars_at [OF a] z
          wrs_name stored_name_def length_pair_concat)
  qed
qed

section \<open>Integer lists\<close>

text \<open>Characters and integers are both delivered as an array of \<open>long\<close>.\<close>

definition stored_longs :: "64 word list option \<Rightarrow> 64 word list \<Rightarrow> 64 word list option" where
  "stored_longs a xs = map_option (\<lambda>l. xs @ drop (length xs) l) a"

lemma wr_long_next:
  "length xs < length l \<Longrightarrow>
   wr_long (Some (xs @ drop (length xs) l)) (int (length xs)) x =
     Ok (Some ((xs @ [x]) @ drop (length (xs @ [x])) l))"
  by (simp add: wr_long_def list_update_append Cons_nth_drop_Suc [symmetric])

lemma chars_to_longs_at:
  "at_off buf (s + int (length xs)) cs \<Longrightarrow> length xs + length cs \<le> length l \<Longrightarrow>
   chars_to_longs buf s (Some (xs @ drop (length xs) l)) (int (length xs)) (length cs) =
     Ok (stored_longs (Some l) (xs @ map ucast cs))"
proof (induction cs arbitrary: xs)
  case Nil
  then show ?case by (simp add: stored_longs_def)
next
  case (Cons c cs)
  then have r: "rd buf (s + int (length xs)) = Ok c"
    and a: "at_off buf (s + int (length (xs @ [ucast c]))) cs"
    by (auto simp: rd_def algebra_simps)
  have "length (xs @ [ucast c]) + length cs \<le> length l" using Cons.prems(2) by simp
  note IH = Cons.IH [OF a this]
  have "length xs < length l" using Cons.prems(2) by simp
  note w = wr_long_next [OF this]
  show ?case using IH by (simp add: r w add.commute)
qed

lemma get_longs_at:
  "at_off buf s (concat (map etf_int ns)) \<Longrightarrow> \<forall>n \<in> set ns. - (2 ^ 63) \<le> n \<and> n < 2 ^ 63 \<Longrightarrow>
   length xs + length ns \<le> length l \<Longrightarrow>
   get_longs buf s (Some (xs @ drop (length xs) l)) (int (length xs)) (length ns) =
     Ok (stored_longs (Some l) (xs @ map word_of_int ns), s + int (length (concat (map etf_int ns))))"
proof (induction ns arbitrary: s xs)
  case Nil
  then show ?case by (simp add: stored_longs_def)
next
  case (Cons n ns)
  from Cons.prems have n: "- (2 ^ 63) \<le> n" "n < 2 ^ 63" by auto
  then have "nat \<bar>n\<bar> < 256 ^ 8" by (simp add: nat_less_iff)
  then have d: "length (le_digits (nat \<bar>n\<bar>)) < 256"
    using length_le_digits [of "nat \<bar>n\<bar>" 8] by simp
  from Cons.prems(1) have a: "at_off buf s (etf_int n)"
    "at_off buf (s + int (length (etf_int n))) (concat (map etf_int ns))"
    by (simp_all add: at_off_append)
  have "length (xs @ [word_of_int n]) + length ns \<le> length l" using Cons.prems(3) by simp
  note IH = Cons.IH [OF a(2) _ this]
  have "length xs < length l" using Cons.prems(3) by simp
  note w = wr_long_next [OF this]
  show ?case
    using IH Cons.prems(2) n
    by (simp add: ei_decode_long_def ei_decode_longlong_at [OF a(1) d] w add.commute add.left_commute)
qed

lemma ei_decode_intlist_list_at:
  assumes "at_off buf i (etf_list_header (int (length ns)) @ concat (map etf_int ns))" "ns \<noteq> []"
    "int (length ns) < 2 ^ 31" "\<forall>n \<in> set ns. - (2 ^ 63) \<le> n \<and> n < 2 ^ 63" "length ns \<le> length l"
  shows "ei_decode_intlist buf i (Some l) =
     Ok ((stored_longs (Some l) (map word_of_int ns), int (length ns)),
       i + int (length (etf_list_header (int (length ns)) @ concat (map etf_int ns))))"
proof -
  have a: "at_off buf (i + 5) (concat (map etf_int ns))" and g: "get32be buf (i + 1) = Ok (int (length ns), i + 5)"
    and t: "get8 buf i = Ok (108, i + 1)"
    using assms(1-3)
    by (auto simp: etf_list_header_def at_off_append get8_def rd_def get32be_at signed_take_bit_31_id add.commute)
  show ?thesis
    using get_longs_at [OF a assms(4), of "[]" l] assms(2,5)
    by (simp add: ei_decode_intlist_def t g etf_list_header_def)
qed

lemma ei_decode_intlist_string_at:
  assumes "at_off buf i (etf_string cs)" "cs \<noteq> []" "length cs \<le> 65535" "length cs \<le> length l"
  shows "ei_decode_intlist buf i (Some l) =
     Ok ((stored_longs (Some l) (map ucast cs), int (length cs)), i + int (length (etf_string cs)))"
proof -
  have a: "at_off buf (i + 3) cs" and g: "get16be buf (i + 1) = Ok (int (length cs), i + 3)"
    and t: "get8 buf i = Ok (107, i + 1)"
    using assms(1-3)
    by (auto simp: etf_string_def at_off_append get8_def rd_def get16be_at add.commute)
  show ?thesis
    using chars_to_longs_at [of buf "i + 3" "[]" cs l] a assms(2-4)
    by (simp add: ei_decode_intlist_def t g etf_string_def lift_err_def)
qed

end
