(* ===== verification/Ei_Ids.thy ===== *)
theory Ei_Ids
  imports Ei_Decode
begin

text \<open>
  Process identifiers, ports, references and big integers: \<^verbatim>\<open>encode_pid.c\<close>,
  \<^verbatim>\<open>encode_port.c\<close>, \<^verbatim>\<open>encode_ref.c\<close>, \<^verbatim>\<open>decode_pid.c\<close>, \<^verbatim>\<open>decode_port.c\<close>, \<^verbatim>\<open>decode_ref.c\<close> and
  \<^verbatim>\<open>decode_big.c\<close>. The records are the structs of \<^verbatim>\<open>ei.h\<close>; a node name is a \<open>char\<close> array.
\<close>

section \<open>The structs\<close>

record erlang_pid =
  pid_node :: "byte list"
  pid_num :: "32 word"
  pid_serial :: "32 word"
  pid_creation :: "32 word"

record erlang_port =
  port_node :: "byte list"
  port_id :: "32 word"
  port_creation :: "32 word"

record erlang_ref =
  ref_node :: "byte list"
  ref_len :: int
  ref_n :: "32 word list"
  ref_creation :: "32 word"

record erlang_big =
  big_digit_bytes :: "32 word"
  big_is_neg :: int
  big_digits :: "16 word list"

section \<open>Encoding\<close>

definition ei_encode_pid :: "ebuf \<Rightarrow> int \<Rightarrow> erlang_pid \<Rightarrow> eres" where
  "ei_encode_pid buf index p =
     (let s = index; tag = (if pid_creation p > 3 then ERL_NEW_PID_EXT else ERL_PID_EXT);
          node = pid_node p
      in bindr (ei_encode_atom_len_as buf (index + 1) node (int (strlen node)) ERLANG_UTF8
                  (ERLANG_LATIN1 OR ERLANG_UTF8)) (\<lambda>(buf, index).
         bindr (case buf of
                  None \<Rightarrow> Ok None
                | Some b \<Rightarrow>
                    bindr (put8 b s tag) (\<lambda>(b, _).
                    bindr (put32be b index (uint (pid_num p AND 0x7fff))) (\<lambda>(b, s).
                    bindr (put32be b s (uint (pid_serial p AND 0x1fff))) (\<lambda>(b, s).
                    if tag = ERL_PID_EXT
                    then bindr (put8 b s (uint (pid_creation p AND 3))) (\<lambda>(b, s). Ok (Some b))
                    else bindr (put32be b s (uint (pid_creation p))) (\<lambda>(b, s). Ok (Some b)))))) (\<lambda>buf.
         Ok (buf, index + (4 + 4 + (if tag = ERL_PID_EXT then 1 else 4))))))"

definition ei_encode_port :: "ebuf \<Rightarrow> int \<Rightarrow> erlang_port \<Rightarrow> eres" where
  "ei_encode_port buf index p =
     (let s = index; tag = (if port_creation p > 3 then ERL_NEW_PORT_EXT else ERL_PORT_EXT);
          node = port_node p
      in bindr (ei_encode_atom_len_as buf (index + 1) node (int (strlen node)) ERLANG_UTF8
                  (ERLANG_LATIN1 OR ERLANG_UTF8)) (\<lambda>(buf, index).
         bindr (case buf of
                  None \<Rightarrow> Ok None
                | Some b \<Rightarrow>
                    bindr (put8 b s tag) (\<lambda>(b, _).
                    bindr (put32be b index (uint (port_id p AND 0x0fffffff))) (\<lambda>(b, s).
                    if tag = ERL_PORT_EXT
                    then bindr (put8 b s (uint (port_creation p AND 3))) (\<lambda>(b, s). Ok (Some b))
                    else bindr (put32be b s (uint (port_creation p))) (\<lambda>(b, s). Ok (Some b))))) (\<lambda>buf.
         Ok (buf, index + (4 + (if tag = ERL_PORT_EXT then 1 else 4))))))"

text \<open>The loop over \<open>p->n\<close>, an array of three integers.\<close>

fun put_ref_ints :: "byte list \<Rightarrow> int \<Rightarrow> 32 word list \<Rightarrow> nat \<Rightarrow> nat \<Rightarrow> (estate, byte list \<times> int) res" where
  "put_ref_ints b s n i 0 = Ok (b, s)"
| "put_ref_ints b s n i (Suc k) =
     (if i < length n
      then bindr (put32be b s (uint (n ! i))) (\<lambda>(b, s). put_ref_ints b s n (Suc i) k)
      else Fault)"

definition ei_encode_ref :: "ebuf \<Rightarrow> int \<Rightarrow> erlang_ref \<Rightarrow> eres" where
  "ei_encode_ref buf index p =
     (let tag = (if ref_creation p > 3 then ERL_NEWER_REFERENCE_EXT else ERL_NEW_REFERENCE_EXT);
          s = index; node = ref_node p
      in bindr (ei_encode_atom_len_as buf (index + (1 + 2)) node (int (strlen node)) ERLANG_UTF8
                  (ERLANG_LATIN1 OR ERLANG_UTF8)) (\<lambda>(buf, index).
         bindr (case buf of
                  None \<Rightarrow> Ok None
                | Some b \<Rightarrow>
                    bindr (put8 b s tag) (\<lambda>(b, s).
                    bindr (put16be b s (ref_len p)) (\<lambda>(b, _).
                    bindr (if tag = ERL_NEW_REFERENCE_EXT
                           then put8 b index (uint (ref_creation p AND 3))
                           else put32be b index (uint (ref_creation p))) (\<lambda>(b, s).
                    bindr (put_ref_ints b s (ref_n p) 0 (nat (ref_len p))) (\<lambda>(b, s). Ok (Some b)))))) (\<lambda>buf.
         Ok (buf, index + (ref_len p * 4 + (if tag = ERL_NEW_REFERENCE_EXT then 1 else 4))))))"

section \<open>Decoding\<close>

text \<open>
  With a NULL destination the integers are skipped without being read. A value is the updated
  struct; what a failing decoder has stored by then is not part of the model.
\<close>

definition word32 :: "int \<Rightarrow> 32 word" where
  "word32 n = word_of_int n"

definition get_creation :: "byte list \<Rightarrow> int \<Rightarrow> bool \<Rightarrow> (unit, 32 word \<times> int) res" where
  "get_creation buf s old =
     (if old then bindr (get8 buf s) (\<lambda>(c, s). Ok (word32 c AND 3, s))
      else bindr (get32be buf s) (\<lambda>(c, s). Ok (word32 c, s)))"

definition ei_decode_pid :: "byte list \<Rightarrow> int \<Rightarrow> erlang_pid option \<Rightarrow> erlang_pid option dres" where
  "ei_decode_pid buf index p =
     bindr (get8 buf index) (\<lambda>(tag, s).
       if tag \<noteq> ERL_PID_EXT \<and> tag \<noteq> ERL_NEW_PID_EXT then Err ()
       else case p of
         Some q \<Rightarrow>
           bindr (ei_internal_get_atom buf s (Some (pid_node q))) (\<lambda>((node, _), s).
           bindr (get32be buf s) (\<lambda>(num, s).
           bindr (get32be buf s) (\<lambda>(serial, s).
           bindr (get_creation buf s (tag = ERL_PID_EXT)) (\<lambda>(creation, s).
           Ok (Some (q\<lparr>pid_node := the node, pid_num := word32 num AND 0x7fff,
                  pid_serial := word32 serial AND 0x1fff, pid_creation := creation\<rparr>), s)))))
       | None \<Rightarrow>
           bindr (ei_internal_get_atom buf s None) (\<lambda>(_, s).
           Ok (None, s + (if tag = ERL_PID_EXT then 9 else 12))))"

definition ei_decode_port :: "byte list \<Rightarrow> int \<Rightarrow> erlang_port option \<Rightarrow> erlang_port option dres" where
  "ei_decode_port buf index p =
     bindr (get8 buf index) (\<lambda>(tag, s).
       if tag \<noteq> ERL_PORT_EXT \<and> tag \<noteq> ERL_NEW_PORT_EXT then Err ()
       else case p of
         Some q \<Rightarrow>
           bindr (ei_internal_get_atom buf s (Some (port_node q))) (\<lambda>((node, _), s).
           bindr (get32be buf s) (\<lambda>(id, s).
           bindr (get_creation buf s (tag = ERL_PORT_EXT)) (\<lambda>(creation, s).
           Ok (Some (q\<lparr>port_node := the node, port_id := word32 id AND 0x0fffffff,
                  port_creation := creation\<rparr>), s))))
       | None \<Rightarrow>
           bindr (ei_internal_get_atom buf s None) (\<lambda>(_, s).
           Ok (None, s + (if tag = ERL_PORT_EXT then 5 else 8))))"

text \<open>The loop \<open>for (i = 0; (i<count) && (i<3); i++) p->n[i] = get32be(s)\<close>.\<close>

fun get_ref_ints :: "byte list \<Rightarrow> int \<Rightarrow> 32 word list \<Rightarrow> nat \<Rightarrow> nat \<Rightarrow> (unit, 32 word list \<times> int) res" where
  "get_ref_ints buf s n i 0 = Ok (n, s)"
| "get_ref_ints buf s n i (Suc k) =
     bindr (get32be buf s) (\<lambda>(x, s).
       if i < length n then get_ref_ints buf s (n[i := word32 x]) (Suc i) k else Fault)"

definition ei_decode_ref :: "byte list \<Rightarrow> int \<Rightarrow> erlang_ref option \<Rightarrow> erlang_ref option dres" where
  "ei_decode_ref buf index p =
     bindr (get8 buf index) (\<lambda>(tag, s).
       if tag = ERL_REFERENCE_EXT
       then (case p of
           Some q \<Rightarrow>
             bindr (ei_internal_get_atom buf s (Some (ref_node q))) (\<lambda>((node, _), s).
             bindr (get32be buf s) (\<lambda>(n0, s).
             if length (ref_n q) = 0 then Fault else
             bindr (get8 buf s) (\<lambda>(c, s).
             Ok (Some (q\<lparr>ref_node := the node, ref_n := (ref_n q)[0 := word32 n0], ref_len := 1,
                    ref_creation := word32 c AND 3\<rparr>), s))))
         | None \<Rightarrow> bindr (ei_internal_get_atom buf s None) (\<lambda>(_, s). Ok (None, s + 5)))
       else if tag = ERL_NEW_REFERENCE_EXT \<or> tag = ERL_NEWER_REFERENCE_EXT
       then bindr (get16be buf s) (\<lambda>(count, s).
         case p of
           Some q \<Rightarrow>
             bindr (ei_internal_get_atom buf s (Some (ref_node q))) (\<lambda>((node, _), s).
             bindr (get_creation buf s (tag = ERL_NEW_REFERENCE_EXT)) (\<lambda>(creation, s).
             bindr (get_ref_ints buf s (ref_n q) 0 (min (nat count) 3)) (\<lambda>(n, s).
             Ok (Some (q\<lparr>ref_node := the node, ref_len := count, ref_n := n,
                    ref_creation := creation\<rparr>), s))))
         | None \<Rightarrow>
             bindr (ei_internal_get_atom buf s None) (\<lambda>(_, s).
             Ok (None, s + (if tag = ERL_NEW_REFERENCE_EXT then 1 else 4) + 4 * count)))
       else Err ())"

section \<open>Big integers\<close>

text \<open>The loop that packs two bytes into each 16-bit digit.\<close>

fun get_big_digits ::
  "byte list \<Rightarrow> int \<Rightarrow> int \<Rightarrow> 16 word list \<Rightarrow> nat \<Rightarrow> nat \<Rightarrow> (unit, 16 word list) res" where
  "get_big_digits buf s digit_bytes dt i 0 = Ok dt"
| "get_big_digits buf s digit_bytes dt i (Suc k) =
     bindr (rd buf (s + int i * 2)) (\<lambda>lo.
       if i < length dt
       then bindr (if int i * 2 + 1 < digit_bytes
                   then bindr (rd buf (s + int i * 2 + 1)) (\<lambda>hi. Ok (ucast lo OR push_bit 8 (ucast hi)))
                   else Ok (ucast lo)) (\<lambda>d.
            get_big_digits buf s digit_bytes (dt[i := d]) (Suc i) k)
       else Fault)"

text \<open>\<open>digit_bytes\<close> is an unsigned integer; the caller must have announced the same number.\<close>

definition ei_decode_big :: "byte list \<Rightarrow> int \<Rightarrow> erlang_big option \<Rightarrow> erlang_big option dres" where
  "ei_decode_big buf index b =
     bindr (get8 buf index) (\<lambda>(t, s).
       if t = ERL_SMALL_BIG_EXT \<or> t = ERL_LARGE_BIG_EXT
       then bindr (big_arity buf s t) (\<lambda>(n, s).
         let digit_bytes = word32 n
         in case b of
           Some q \<Rightarrow>
             if digit_bytes \<noteq> big_digit_bytes q then Err ()
             else bindr (get8 buf s) (\<lambda>(neg, s).
                  bindr (get_big_digits buf s (uint digit_bytes) (big_digits q) 0
                           (nat (uint ((digit_bytes + 1) div 2)))) (\<lambda>dt.
                  Ok (Some (q\<lparr>big_is_neg := neg, big_digits := dt\<rparr>), s + uint digit_bytes)))
         | None \<Rightarrow> Ok (None, s + 1 + uint digit_bytes))
       else Err ())"

text \<open>\<open>encode_big.c\<close>: the loop splits each digit again; the last one may have one byte only.\<close>

fun put_big_digits ::
  "byte list \<Rightarrow> int \<Rightarrow> int \<Rightarrow> 16 word list \<Rightarrow> nat \<Rightarrow> nat \<Rightarrow> (estate, byte list) res" where
  "put_big_digits b s digit_bytes dt i 0 = Ok b"
| "put_big_digits b s digit_bytes dt i (Suc k) =
     (if i < length dt
      then bindr (wr b (s + int i * 2) (ucast (dt ! i))) (\<lambda>b.
           bindr (if int i * 2 + 1 < digit_bytes
                  then wr b (s + int i * 2 + 1) (ucast (drop_bit 8 (dt ! i))) else Ok b) (\<lambda>b.
           put_big_digits b s digit_bytes dt (Suc i) k))
      else Fault)"

definition ei_encode_big :: "ebuf \<Rightarrow> int \<Rightarrow> erlang_big \<Rightarrow> eres" where
  "ei_encode_big buf index big =
     (let digit_bytes = big_digit_bytes big; n = (digit_bytes + 1) div 2
      in case buf of
        None \<Rightarrow> Ok (None, index + (if digit_bytes < 256 then 2 else 5) + 1 + uint digit_bytes)
      | Some b \<Rightarrow>
          bindr (if digit_bytes < 256
                 then bindr (put8 b index ERL_SMALL_BIG_EXT) (\<lambda>(b, s). put8 b s (uint digit_bytes))
                 else bindr (put8 b index ERL_LARGE_BIG_EXT) (\<lambda>(b, s). put32be b s (uint digit_bytes))) (\<lambda>(b, s).
          bindr (put8 b s (big_is_neg big)) (\<lambda>(b, s).
          bindr (put_big_digits b s (uint digit_bytes) (big_digits big) 0 (nat (uint n))) (\<lambda>b.
          Ok (Some b, s + uint digit_bytes)))))"

text \<open>
  The allocator may fail: \<open>alloc\<close> tells which of the two requests succeed. The digits start
  as zeros.
\<close>

definition ei_alloc_big :: "bool \<times> bool \<Rightarrow> 32 word \<Rightarrow> erlang_big option" where
  "ei_alloc_big alloc digit_bytes =
     (let n = (digit_bytes + 1) div 2
      in if \<not> fst alloc then None
         else if \<not> snd alloc then None
         else Some \<lparr>big_digit_bytes = digit_bytes, big_is_neg = 0, big_digits = replicate (nat (uint n)) 0\<rparr>)"

text \<open>The comparison walks down from the most significant digit while the digits agree.\<close>

fun I_comp_loop :: "16 word list \<Rightarrow> 16 word list \<Rightarrow> nat \<Rightarrow> int" where
  "I_comp_loop x y 0 = 0"
| "I_comp_loop x y (Suc xl) =
     (if x ! xl = y ! xl then I_comp_loop x y xl else if x ! xl < y ! xl then -1 else 1)"

definition I_comp :: "16 word list \<Rightarrow> nat \<Rightarrow> 16 word list \<Rightarrow> nat \<Rightarrow> (unit, int) res" where
  "I_comp x xl y yl =
     (if xl < yl then Ok (-1)
      else if xl > yl then Ok 1
      else if xl > length x \<or> yl > length y then Fault
      else Ok (I_comp_loop x y xl))"

definition ei_big_comp :: "erlang_big \<Rightarrow> erlang_big \<Rightarrow> (unit, int) res" where
  "ei_big_comp x y =
     (if big_is_neg x = big_is_neg y
      then bindr (I_comp (big_digits x) (nat (uint ((big_digit_bytes x + 1) div 2)))
                    (big_digits y) (nat (uint ((big_digit_bytes y + 1) div 2)))) (\<lambda>c.
           Ok (if big_is_neg x \<noteq> 0 then - c else c))
      else Ok (if big_is_neg x \<noteq> 0 then -1 else 1))"

text \<open>\<open>DLOW\<close> and \<open>DHIGH\<close> of a C \<open>int\<close>: the low half of it, and of it shifted right.\<close>

definition ei_small_to_big :: "32 word \<Rightarrow> erlang_big \<Rightarrow> (unit, erlang_big) res" where
  "ei_small_to_big s b =
     (if (big_digit_bytes b + 1) div 2 < 2 then Err ()
      else if length (big_digits b) < 2 then Fault
      else Ok (b\<lparr>big_is_neg := of_bool (sint s < 0),
                 big_digits := (big_digits b)[0 := ucast s, 1 := ucast (signed_drop_bit 16 s)]\<rparr>))"

section \<open>The byte sequences\<close>

definition name_of :: "byte list \<Rightarrow> byte list" where
  "name_of node = take (strlen node) node"

text \<open>A node name the encoder accepts: well-formed UTF-8 of at most 255 characters.\<close>

definition good_name :: "byte list \<Rightarrow> bool" where
  "good_name cs \<longleftrightarrow> (case utf8_chars cs of Some k \<Rightarrow> k < 256 | None \<Rightarrow> False)"

definition etf_creation :: "32 word \<Rightarrow> byte list" where
  "etf_creation c = (if c > 3 then be32 (uint c) else [ucast c])"

definition etf_pid :: "erlang_pid \<Rightarrow> byte list" where
  "etf_pid p =
     byte_of (if pid_creation p > 3 then ERL_NEW_PID_EXT else ERL_PID_EXT)
     # etf_atom_utf8 (name_of (pid_node p))
     @ be32 (uint (pid_num p AND 0x7fff)) @ be32 (uint (pid_serial p AND 0x1fff))
     @ etf_creation (pid_creation p)"

definition etf_port :: "erlang_port \<Rightarrow> byte list" where
  "etf_port p =
     byte_of (if port_creation p > 3 then ERL_NEW_PORT_EXT else ERL_PORT_EXT)
     # etf_atom_utf8 (name_of (port_node p))
     @ be32 (uint (port_id p AND 0x0fffffff)) @ etf_creation (port_creation p)"

definition etf_ref :: "erlang_ref \<Rightarrow> byte list" where
  "etf_ref p =
     byte_of (if ref_creation p > 3 then ERL_NEWER_REFERENCE_EXT else ERL_NEW_REFERENCE_EXT)
     # be16 (ref_len p) @ etf_atom_utf8 (name_of (ref_node p)) @ etf_creation (ref_creation p)
     @ concat (map (\<lambda>x. be32 (uint x)) (take (nat (ref_len p)) (ref_n p)))"

section \<open>Encoding emits them\<close>

lemma name_of_at: "at_off p 0 (name_of p)" "length (name_of p) = strlen p"
  using strlen_le [of p] by (auto simp: name_of_def intro: at_off_take)

lemma ei_encode_atom_node:
  "ei_encode_atom_len_as buf i p (int (strlen p)) ERLANG_UTF8 t =
     (if good_name (name_of p) then emit buf i (etf_atom_utf8 (name_of p)) else Err (buf, i))"
  using strlen_le [of p]
  by (simp add: ei_encode_atom_utf8_emit good_name_def name_of_def split: option.split)

lemma word_le_3: "\<not> c > 3 \<Longrightarrow> c = 0 \<or> c = 1 \<or> c = 2 \<or> c = (3 :: 32 word)"
proof -
  assume "\<not> c > 3"
  then have "unat c \<le> 3" by (simp add: word_less_nat_alt not_less)
  then have "unat c = 0 \<or> unat c = 1 \<or> unat c = 2 \<or> unat c = 3" by linarith
  then show ?thesis by (simp add: word_unat_eq_iff)
qed

lemma creation_small: "\<not> c > 3 \<Longrightarrow> byte_of (uint (c AND 3)) = ucast (c :: 32 word)"
  by (drule word_le_3) (auto simp: byte_of_numeral)

lemmas id_simps = bindr_assoc ei_encode_atom_node emit_Some put8_wrs put16be_wrs put32be_wrs
  etf_creation_def creation_small put_ref_ints.simps

lemma ei_encode_pid_emit:
  "ei_encode_pid buf i p =
     (if good_name (name_of (pid_node p)) then emit buf i (etf_pid p) else Err (buf, i + 1))"
proof (cases buf)
  case None
  then show ?thesis by (simp add: ei_encode_pid_def etf_pid_def Let_def id_simps)
next
  case (Some b)
  then show ?thesis
    by (simp add: ei_encode_pid_def etf_pid_def Let_def id_simps body_then_header [where h = "[x]" for x] wrs_join)
      (simp add: algebra_simps)
qed

lemma ei_encode_port_emit:
  "ei_encode_port buf i p =
     (if good_name (name_of (port_node p)) then emit buf i (etf_port p) else Err (buf, i + 1))"
proof (cases buf)
  case None
  then show ?thesis by (simp add: ei_encode_port_def etf_port_def Let_def id_simps)
next
  case (Some b)
  then show ?thesis
    by (simp add: ei_encode_port_def etf_port_def Let_def id_simps body_then_header [where h = "[x]" for x] wrs_join)
      (simp add: algebra_simps)
qed

lemma put_ref_ints_wrs:
  "i + k \<le> length n \<Longrightarrow>
   put_ref_ints b s n i k =
     bindr (wrs b s (concat (map (\<lambda>x. be32 (uint x)) (take k (drop i n))))) (\<lambda>b. Ok (b, s + 4 * int k))"
proof (induction k arbitrary: b s i)
  case (Suc k)
  then have d: "take (Suc k) (drop i n) = n ! i # take k (drop (Suc i) n)"
    by (simp add: Cons_nth_drop_Suc [symmetric])
  from Suc.prems have "Suc i + k \<le> length n" by simp
  note IH = Suc.IH [OF this]
  show ?case
    using Suc.prems by (simp add: put32be_wrs bindr_assoc IH d wrs_join add.assoc del: take_Suc_Cons)
qed simp

lemma length_be32s: "length (concat (map (\<lambda>x. be32 (f x)) xs)) = 4 * length xs"
  by (induction xs) auto

lemma ei_encode_ref_emit:
  assumes "0 \<le> ref_len p" "nat (ref_len p) \<le> length (ref_n p)"
  shows "ei_encode_ref buf i p =
     (if good_name (name_of (ref_node p)) then emit buf i (etf_ref p) else Err (buf, i + 3))"
proof (cases buf)
  case None
  then show ?thesis
    using assms by (simp add: ei_encode_ref_def etf_ref_def Let_def id_simps length_be32s min_def)
next
  case (Some b)
  then show ?thesis
    using assms
    by (simp add: ei_encode_ref_def etf_ref_def Let_def id_simps put_ref_ints_wrs wrs_join body_then_header)
      (simp add: length_be32s min_def algebra_simps)
qed

section \<open>Decoding reads them back\<close>

lemma utf8_chars_length: "utf8_chars cs = Some k \<Longrightarrow> length cs \<le> 4 * k"
  by (induction cs arbitrary: k rule: utf8_chars.induct) (auto split: if_splits list.splits, fastforce+)

lemma good_name_length: "good_name cs \<Longrightarrow> length cs \<le> 1020"
  using utf8_chars_length [of cs] by (fastforce simp: good_name_def split: option.splits)

lemma get_atom_at:
  assumes "at_off buf i (etf_atom_utf8 cs)" "good_name cs" "room p MAXATOMLEN_UTF8"
  shows "ei_internal_get_atom buf i p =
     Ok ((stored_name p cs, ERLANG_UTF8), i + int (length (etf_atom_utf8 cs)))"
proof -
  have l: "length cs \<le> 1020" using assms(2) by (rule good_name_length)
  then have "room p (int (length cs) + 1)" using assms(3) by (auto simp: room_def split: option.splits)
  then show ?thesis
    using assms(1) l by (simp add: ei_internal_get_atom_def ei_decode_atom_as_utf8)
qed

lemma word32_signed [simp]: "word32 (signed_take_bit 31 n) = word_of_int n"
  unfolding word32_def sint_word32 [symmetric] by simp

lemma get_creation_at:
  "at_off buf i (etf_creation c) \<Longrightarrow> old = (\<not> c > 3) \<Longrightarrow>
   get_creation buf i old = Ok (c, i + int (length (etf_creation c)))"
proof (cases "c > 3")
  case True
  then show "at_off buf i (etf_creation c) \<Longrightarrow> old = (\<not> c > 3) \<Longrightarrow> ?thesis"
    by (simp add: etf_creation_def get_creation_def get32be_at)
next
  case False
  then show "at_off buf i (etf_creation c) \<Longrightarrow> old = (\<not> c > 3) \<Longrightarrow> ?thesis"
    using word_le_3 [OF False]
    by (auto simp: etf_creation_def get_creation_def get8_def rd_def word32_def)
qed

definition pid_stored :: "erlang_pid \<Rightarrow> erlang_pid \<Rightarrow> erlang_pid" where
  "pid_stored q p = q\<lparr>pid_node := the (stored_name (Some (pid_node q)) (name_of (pid_node p))),
     pid_num := pid_num p AND 0x7fff, pid_serial := pid_serial p AND 0x1fff, pid_creation := pid_creation p\<rparr>"

lemma ei_decode_pid_at:
  assumes "at_off buf i (etf_pid p)" "good_name (name_of (pid_node p))" "length (pid_node q) = 1021"
  shows "ei_decode_pid buf i (Some q) = Ok (Some (pid_stored q p), i + int (length (etf_pid p)))"
    and "ei_decode_pid buf i None = Ok (None, i + int (length (etf_pid p)))"
proof -
  define j where "j = i + 1 + int (length (etf_atom_utf8 (name_of (pid_node p))))"
  have a: "at_off buf (i + 1) (etf_atom_utf8 (name_of (pid_node p)))"
    and n: "get32be buf j = Ok (signed_take_bit 31 (uint (pid_num p AND 0x7fff)), j + 4)"
    and s: "get32be buf (j + 4) = Ok (signed_take_bit 31 (uint (pid_serial p AND 0x1fff)), j + 8)"
    and c: "at_off buf (j + 8) (etf_creation (pid_creation p))"
    and t: "get8 buf i = Ok (if pid_creation p > 3 then 88 else 103, i + 1)"
    using assms(1) by (auto simp: etf_pid_def at_off_append get8_def rd_def get32be_at add.assoc j_def)
  have r: "room (Some (pid_node q)) 1021" "room None 1021" using assms(3) by (simp_all add: room_def)
  note g = get_atom_at [OF a assms(2), folded j_def]
  note d = g [OF r(1)] g [OF r(2)] n s get_creation_at [OF c] t
  have e: "i + int (length (etf_pid p)) = j + 8 + int (length (etf_creation (pid_creation p)))"
    by (simp add: etf_pid_def j_def)
  show "ei_decode_pid buf i (Some q) = Ok (Some (pid_stored q p), i + int (length (etf_pid p)))"
    unfolding e by (simp add: ei_decode_pid_def d pid_stored_def)
  show "ei_decode_pid buf i None = Ok (None, i + int (length (etf_pid p)))"
    unfolding e by (simp add: ei_decode_pid_def d etf_creation_def)
qed

definition port_stored :: "erlang_port \<Rightarrow> erlang_port \<Rightarrow> erlang_port" where
  "port_stored q p = q\<lparr>port_node := the (stored_name (Some (port_node q)) (name_of (port_node p))),
     port_id := port_id p AND 0x0fffffff, port_creation := port_creation p\<rparr>"

lemma ei_decode_port_at:
  assumes "at_off buf i (etf_port p)" "good_name (name_of (port_node p))" "length (port_node q) = 1021"
  shows "ei_decode_port buf i (Some q) = Ok (Some (port_stored q p), i + int (length (etf_port p)))"
    and "ei_decode_port buf i None = Ok (None, i + int (length (etf_port p)))"
proof -
  define j where "j = i + 1 + int (length (etf_atom_utf8 (name_of (port_node p))))"
  have a: "at_off buf (i + 1) (etf_atom_utf8 (name_of (port_node p)))"
    and n: "get32be buf j = Ok (signed_take_bit 31 (uint (port_id p AND 0x0fffffff)), j + 4)"
    and c: "at_off buf (j + 4) (etf_creation (port_creation p))"
    and t: "get8 buf i = Ok (if port_creation p > 3 then 89 else 102, i + 1)"
    using assms(1) by (auto simp: etf_port_def at_off_append get8_def rd_def get32be_at add.assoc j_def)
  have r: "room (Some (port_node q)) 1021" "room None 1021" using assms(3) by (simp_all add: room_def)
  note g = get_atom_at [OF a assms(2), folded j_def]
  note d = g [OF r(1)] g [OF r(2)] n get_creation_at [OF c] t
  have e: "i + int (length (etf_port p)) = j + 4 + int (length (etf_creation (port_creation p)))"
    by (simp add: etf_port_def j_def)
  show "ei_decode_port buf i (Some q) = Ok (Some (port_stored q p), i + int (length (etf_port p)))"
    unfolding e by (simp add: ei_decode_port_def d port_stored_def)
  show "ei_decode_port buf i None = Ok (None, i + int (length (etf_port p)))"
    unfolding e by (simp add: ei_decode_port_def d etf_creation_def)
qed

text \<open>A reference of at most three integers comes back; the NULL decoder skips it.\<close>

lemma get_ref_ints_at:
  "at_off buf s (concat (map (\<lambda>x. be32 (uint x)) xs)) \<Longrightarrow> length ys + length xs \<le> length n \<Longrightarrow>
   get_ref_ints buf s (ys @ drop (length ys) n) (length ys) (length xs) =
     Ok ((ys @ xs) @ drop (length (ys @ xs)) n, s + 4 * int (length xs))"
proof (induction xs arbitrary: s ys)
  case (Cons x xs)
  then have g: "get32be buf s = Ok (signed_take_bit 31 (uint x), s + 4)"
    and a: "at_off buf (s + 4) (concat (map (\<lambda>x. be32 (uint x)) xs))"
    by (simp_all add: at_off_append get32be_at)
  have l: "length (ys @ [x]) + length xs \<le> length n" "length ys < length n" using Cons.prems(2) by simp_all
  then have u: "(ys @ drop (length ys) n)[length ys := x] = (ys @ [x]) @ drop (length (ys @ [x])) n"
    by (simp add: list_update_append Cons_nth_drop_Suc [symmetric])
  show ?case using Cons.IH [OF a l(1)] l(2) u by (simp add: g)
qed simp

definition ref_stored :: "erlang_ref \<Rightarrow> erlang_ref \<Rightarrow> erlang_ref" where
  "ref_stored q p = q\<lparr>ref_node := the (stored_name (Some (ref_node q)) (name_of (ref_node p))),
     ref_len := ref_len p, ref_n := take (nat (ref_len p)) (ref_n p) @ drop (nat (ref_len p)) (ref_n q),
     ref_creation := ref_creation p\<rparr>"

lemma ei_decode_ref_at:
  assumes "at_off buf i (etf_ref p)" "good_name (name_of (ref_node p))" "length (ref_node q) = 1021"
    "0 \<le> ref_len p" "ref_len p \<le> 3" "length (ref_n p) = 3" "length (ref_n q) = 3"
  shows "ei_decode_ref buf i (Some q) = Ok (Some (ref_stored q p), i + int (length (etf_ref p)))"
    and "ei_decode_ref buf i None = Ok (None, i + int (length (etf_ref p)))"
proof -
  define j where "j = i + 3 + int (length (etf_atom_utf8 (name_of (ref_node p))))"
  define k where "k = j + int (length (etf_creation (ref_creation p)))"
  let ?xs = "take (nat (ref_len p)) (ref_n p)"
  have l: "nat (ref_len p) \<le> 3" using assms(5) by simp
  have lx: "length ?xs = nat (ref_len p)" using assms(6) l by simp
  have a: "at_off buf (i + 3) (etf_atom_utf8 (name_of (ref_node p)))"
    and n: "get16be buf (i + 1) = Ok (ref_len p, i + 3)"
    and c: "at_off buf j (etf_creation (ref_creation p))"
    and x: "at_off buf k (concat (map (\<lambda>x. be32 (uint x)) ?xs))"
    and t: "get8 buf i = Ok (if ref_creation p > 3 then 90 else 114, i + 1)"
    using assms(1,4,5)
    by (auto simp: etf_ref_def at_off_append get8_def rd_def get16be_at add.assoc j_def k_def)
  have r: "room (Some (ref_node q)) 1021" "room None 1021" using assms(3) by (simp_all add: room_def)
  have m: "get_ref_ints buf k (ref_n q) 0 (min (nat (ref_len p)) 3) =
      Ok (?xs @ drop (nat (ref_len p)) (ref_n q), k + 4 * ref_len p)"
    using get_ref_ints_at [OF x, of "[]" "ref_n q"] l assms(4,6,7) by (simp add: min_def)
  note g = get_atom_at [OF a assms(2), folded j_def]
  note d = g [OF r(1)] g [OF r(2)] n get_creation_at [OF c, folded k_def] m t
  have e: "i + int (length (etf_ref p)) = k + 4 * ref_len p"
    using lx assms(4,6) by (simp add: etf_ref_def j_def k_def length_be32s min_def)
  show "ei_decode_ref buf i (Some q) = Ok (Some (ref_stored q p), i + int (length (etf_ref p)))"
    unfolding e by (simp add: ei_decode_ref_def d ref_stored_def)
  show "ei_decode_ref buf i None = Ok (None, i + int (length (etf_ref p)))"
    unfolding e by (simp add: ei_decode_ref_def d k_def etf_creation_def)
qed

section \<open>The value of a big integer\<close>

fun val16 :: "16 word list \<Rightarrow> nat" where
  "val16 [] = 0"
| "val16 (x # xs) = unat x + 65536 * val16 xs"

definition big_len :: "erlang_big \<Rightarrow> nat" where
  "big_len b = unat ((big_digit_bytes b + 1) div 2)"

definition big_value :: "erlang_big \<Rightarrow> int" where
  "big_value b =
     (let v = int (val16 (take (big_len b) (big_digits b))) in if big_is_neg b \<noteq> 0 then - v else v)"

lemma val16_append: "val16 (xs @ ys) = val16 xs + 65536 ^ length xs * val16 ys"
  by (induction xs) (auto simp: algebra_simps)

lemma val16_bound: "val16 xs < 65536 ^ length xs"
proof (induction xs)
  case (Cons x xs)
  have "unat x < 65536" using unsigned_less [of x] by simp
  with Cons show ?case by simp
qed simp

lemma val16_take_Suc:
  "n < length x \<Longrightarrow> val16 (take (Suc n) x) = val16 (take n x) + 65536 ^ n * unat (x ! n)"
  by (simp add: take_Suc_conv_app_nth val16_append)

lemma I_comp_loop_sgn:
  "n \<le> length x \<Longrightarrow> n \<le> length y \<Longrightarrow>
   I_comp_loop x y n = sgn (int (val16 (take n x)) - int (val16 (take n y)))"
proof (induction n)
  case (Suc n)
  have b: "val16 (take n x) < 65536 ^ n" "val16 (take n y) < 65536 ^ n"
    using val16_bound [of "take n x"] val16_bound [of "take n y"] Suc.prems by auto
  have less: "A + P * a < B + P * b" if "A < P" "a < b" for A B P a b :: nat
  proof -
    have "A + P * a < P * Suc a" using that(1) by simp
    also have "\<dots> \<le> P * b" using that(2) by (intro mult_le_mono) auto
    finally show ?thesis by simp
  qed
  show ?case
  proof (cases "x ! n = y ! n")
    case True
    with Suc show ?thesis by (simp add: val16_take_Suc)
  next
    case False
    then consider "x ! n < y ! n" | "y ! n < x ! n" by (metis linorder_cases)
    then show ?thesis
    proof cases
      case 1
      then have "unat (x ! n) < unat (y ! n)" by (simp add: word_less_nat_alt)
      from less [OF b(1) this, of "val16 (take n y)"] Suc.prems
      have "val16 (take (Suc n) x) < val16 (take (Suc n) y)" by (simp add: val16_take_Suc)
      moreover have "x ! n \<noteq> y ! n" using 1 by auto
      ultimately show ?thesis using 1 by (simp add: sgn_if)
    next
      case 2
      then have "unat (y ! n) < unat (x ! n)" by (simp add: word_less_nat_alt)
      from less [OF b(2) this, of "val16 (take n x)"] Suc.prems
      have "val16 (take (Suc n) y) < val16 (take (Suc n) x)" by (simp add: val16_take_Suc)
      moreover have "x ! n \<noteq> y ! n" "\<not> x ! n < y ! n" using 2 by auto
      ultimately show ?thesis by (simp add: sgn_if)
    qed
  qed
qed simp

text \<open>A canonical big integer has no leading zero digit, and zero is not negative.\<close>

definition big_ok :: "erlang_big \<Rightarrow> bool" where
  "big_ok b \<longleftrightarrow> big_is_neg b \<in> {0, 1} \<and> big_len b \<le> length (big_digits b) \<and>
     (if big_len b = 0 then big_is_neg b = 0 else big_digits b ! (big_len b - 1) \<noteq> 0)"

lemma canonical_bounds:
  assumes "big_ok b"
  defines "v \<equiv> val16 (take (big_len b) (big_digits b))"
  shows "v < 65536 ^ big_len b" "0 < big_len b \<Longrightarrow> 65536 ^ (big_len b - 1) \<le> v"
proof -
  have l: "big_len b \<le> length (big_digits b)" using assms(1) by (simp add: big_ok_def)
  then show "v < 65536 ^ big_len b"
    using val16_bound [of "take (big_len b) (big_digits b)"] by (simp add: v_def)
  assume p: "0 < big_len b"
  then obtain n where n: "big_len b = Suc n" by (cases "big_len b") auto
  with assms(1) have "big_digits b ! n \<noteq> 0" by (simp add: big_ok_def)
  then have "1 \<le> unat (big_digits b ! n)" by (simp add: Suc_le_eq unat_gt_0)
  then have "65536 ^ n * 1 \<le> 65536 ^ n * unat (big_digits b ! n)" by (intro mult_le_mono) auto
  also have "\<dots> \<le> v" using l n by (simp add: v_def val16_take_Suc)
  finally show "65536 ^ (big_len b - 1) \<le> v" using n by simp
qed

lemma shorter_less:
  assumes "big_ok x" "big_ok y" "big_len x < big_len y"
  shows "val16 (take (big_len x) (big_digits x)) < val16 (take (big_len y) (big_digits y))"
proof -
  have "(65536 :: nat) ^ big_len x \<le> 65536 ^ (big_len y - 1)"
    using assms(3) by (intro power_increasing) auto
  moreover have "0 < big_len y" using assms(3) by simp
  ultimately show ?thesis
    using canonical_bounds(1) [OF assms(1)] canonical_bounds(2) [OF assms(2)] by linarith
qed

lemma I_comp_sgn:
  assumes "big_ok x" "big_ok y"
  shows "I_comp (big_digits x) (big_len x) (big_digits y) (big_len y) =
     Ok (sgn (int (val16 (take (big_len x) (big_digits x))) - int (val16 (take (big_len y) (big_digits y)))))"
  using shorter_less [OF assms] shorter_less [OF assms(2,1)] assms
  by (auto simp: I_comp_def big_ok_def I_comp_loop_sgn)

lemma ei_big_comp_sgn:
  assumes "big_ok x" "big_ok y"
  shows "ei_big_comp x y = Ok (sgn (big_value x - big_value y))"
proof -
  have s: "big_is_neg x \<in> {0, 1}" "big_is_neg y \<in> {0, 1}"
    and z: "big_is_neg b \<noteq> 0 \<Longrightarrow> 0 < val16 (take (big_len b) (big_digits b))" if "big_ok b" for b
    using assms canonical_bounds(2) [OF that] that
    by (auto simp: big_ok_def split: if_splits intro: less_le_trans [of 0 "65536 ^ (big_len b - 1)"])
  show ?thesis
    using s [OF assms(1)] I_comp_sgn [OF assms] z [OF assms(1)] z [OF assms(2)]
    by (auto simp: ei_big_comp_def big_len_def [symmetric] big_value_def Let_def sgn_if)
qed

text \<open>Two bytes of the format make one digit.\<close>

fun pack :: "byte list \<Rightarrow> 16 word list" where
  "pack [] = []"
| "pack [a] = [ucast a]"
| "pack (a # b # r) = (ucast a OR push_bit 8 (ucast b)) # pack r"

lemma unat_pair: "unat (ucast a OR push_bit 8 (ucast b) :: 16 word) = unat (a :: byte) + 256 * unat (b :: byte)"
proof -
  have a: "unat a < 256" and b: "unat b < 256" using unsigned_less [of a] unsigned_less [of b] by simp_all
  have "ucast a AND push_bit 8 (ucast b) = (0 :: 16 word)"
    by (rule bit_word_eqI) (auto simp: bit_simps dest: bit_imp_le_length)
  then have "(ucast a OR push_bit 8 (ucast b) :: 16 word) = ucast a + push_bit 8 (ucast b)"
    by (rule disjunctive_add_eq_or [symmetric])
  also have "\<dots> = word_of_nat (unat a + 256 * unat b)"
    by (simp add: push_bit_eq_mult mult.commute)
  finally have e: "(ucast a OR push_bit 8 (ucast b) :: 16 word) = word_of_nat (unat a + 256 * unat b)" .
  have "unat a + 256 * unat b < 65536" using a b by simp
  then show ?thesis unfolding e by (simp only: unat_of_nat) (simp add: take_bit_nat_eq_self)
qed

lemma unat_ucast_byte: "unat (ucast (a :: byte) :: 16 word) = unat a"
proof -
  have "unat a < 256" using unsigned_less [of a] by simp
  then show ?thesis by (simp add: unsigned_ucast_eq take_bit_nat_eq_self)
qed

lemma val16_pack: "val16 (pack ds) = le_value ds"
  by (induction ds rule: pack.induct) (auto simp: unat_pair unat_ucast_byte)

lemma length_pack: "length (pack ds) = (length ds + 1) div 2"
  by (induction ds rule: pack.induct) auto

lemma get_big_digits_at:
  "at_off buf (s + 2 * int (length xs)) ds \<Longrightarrow> length xs + (length ds + 1) div 2 \<le> length l \<Longrightarrow>
   n = int (2 * length xs + length ds) \<Longrightarrow>
   get_big_digits buf s n (xs @ drop (length xs) l) (length xs) ((length ds + 1) div 2) =
     Ok ((xs @ pack ds) @ drop (length xs + length (pack ds)) l)"
proof (induction ds arbitrary: xs rule: pack.induct)
  case (2 a)
  then have r: "rd buf (s + int (length xs) * 2) = Ok a" by (simp add: rd_def mult.commute)
  from 2 have u: "(xs @ drop (length xs) l)[length xs := ucast a] = (xs @ [ucast a]) @ drop (length (xs @ [ucast a])) l"
    and l: "length xs < length l" "length xs \<le> length l"
    by (simp_all add: list_update_append Cons_nth_drop_Suc [symmetric])
  show ?case using 2(3) l u by (simp add: r)
next
  case (3 a b r)
  then have r: "rd buf (s + int (length xs) * 2) = Ok a" "rd buf (s + int (length xs) * 2 + 1) = Ok b"
    by (auto simp: rd_def mult.commute)
  let ?d = "ucast a OR push_bit 8 (ucast b) :: 16 word"
  from 3 have a: "at_off buf (s + 2 * int (length (xs @ [?d]))) r"
    "length (xs @ [?d]) + (length r + 1) div 2 \<le> length l" "n = int (2 * length (xs @ [?d]) + length r)"
    by (auto simp: algebra_simps)
  have u: "(xs @ drop (length xs) l)[length xs := ?d] = (xs @ [?d]) @ drop (length (xs @ [?d])) l"
    and l: "length xs < length l" "length xs \<le> length l"
    using a(2) by (simp_all add: list_update_append Cons_nth_drop_Suc [symmetric])
  show ?case using "3.IH" [OF a] l u a(3) by (simp add: r)
qed simp

text \<open>
  A big integer written by the encoder is read into a struct that was allocated for as many
  bytes; one of another size is refused.
\<close>

lemma ei_decode_big_at:
  assumes "at_off buf i (etf_big n)" "length (le_digits (nat \<bar>n\<bar>)) < 256" "big_len q \<le> length (big_digits q)"
  shows "ei_decode_big buf i (Some q) =
     (if big_digit_bytes q = word_of_nat (length (le_digits (nat \<bar>n\<bar>)))
      then Ok (Some (q\<lparr>big_is_neg := of_bool (n < 0),
             big_digits := pack (le_digits (nat \<bar>n\<bar>)) @ drop (big_len q) (big_digits q)\<rparr>),
           i + int (length (etf_big n)))
      else Err ())"
    and "ei_decode_big buf i None = Ok (None, i + int (length (etf_big n)))"
proof -
  define ds where "ds = le_digits (nat \<bar>n\<bar>)"
  note b = big_at [OF assms(1,2), folded ds_def]
  have l: "length ds < 256" using assms(2) by (simp add: ds_def)
  have w: "word32 (int (length ds)) = word_of_nat (length ds)" by (simp add: word32_def)
  have u: "uint (word_of_nat (length ds) :: 32 word) = int (length ds)"
    using l by (simp add: uint_nat unat_of_nat)
  have v: "unat ((word_of_nat (length ds) + 1 :: 32 word) div 2) = (length ds + 1) div 2"
  proof -
    have "unat (word_of_nat (length ds) + 1 :: 32 word) = length ds + 1"
      using l by (simp add: unat_word_ariths unat_of_nat)
    then show ?thesis by (simp add: unat_div)
  qed
  have g: "get_big_digits buf (i + 3) (int (length ds)) (big_digits q) 0 ((length ds + 1) div 2) =
      Ok (pack ds @ drop ((length ds + 1) div 2) (big_digits q))"
    if "big_digit_bytes q = word_of_nat (length ds)"
    using get_big_digits_at [of buf "i + 3" "[]" ds "big_digits q" "int (length ds)"] b(4) assms(3) v that
    by (simp add: big_len_def length_pack)
  show "ei_decode_big buf i (Some q) =
     (if big_digit_bytes q = word_of_nat (length (le_digits (nat \<bar>n\<bar>)))
      then Ok (Some (q\<lparr>big_is_neg := of_bool (n < 0),
             big_digits := pack (le_digits (nat \<bar>n\<bar>)) @ drop (big_len q) (big_digits q)\<rparr>),
           i + int (length (etf_big n)))
      else Err ())"
    using g u v unfolding ds_def [symmetric]
    by (auto simp: ei_decode_big_def b w Let_def big_len_def)
  show "ei_decode_big buf i None = Ok (None, i + int (length (etf_big n)))"
    using u by (simp add: ei_decode_big_def b w Let_def)
qed

text \<open>A small integer becomes a big one; for a negative one the two digits are its two's complement.\<close>

lemma word32_halves: "unat (ucast s :: 16 word) + 65536 * unat (ucast (signed_drop_bit 16 s) :: 16 word) = unat (s :: 32 word)"
proof -
  have "ucast (signed_drop_bit 16 s) = (ucast (drop_bit 16 s) :: 16 word)"
    by (rule bit_word_eqI) (auto simp: bit_simps)
  moreover have "unat (ucast s :: 16 word) = unat s mod 65536"
    by (simp add: unsigned_ucast_eq take_bit_eq_mod)
  moreover have "unat (ucast (drop_bit 16 s) :: 16 word) = unat s div 65536"
  proof -
    have "unat s div 65536 < 65536" using unsigned_less [of s, where 'a = nat] by (simp add: less_mult_imp_div_less)
    then show ?thesis
      by (simp add: unsigned_ucast_eq take_bit_eq_mod drop_bit_eq_div unat_div)
  qed
  ultimately show ?thesis by simp
qed

lemma ei_small_to_big_value:
  assumes "big_len b = 2" "2 \<le> length (big_digits b)"
  shows "\<exists>b'. ei_small_to_big s b = Ok b' \<and> big_len b' = 2 \<and>
     big_value b' = (if sint s < 0 then - (2 ^ 32 + sint s) else sint s)"
proof -
  obtain x y r where d: "big_digits b = x # y # r"
    using assms(2) by (auto simp: numeral_2_eq_2 Suc_le_length_iff)
  have n: "\<not> (big_digit_bytes b + 1) div 2 < 2" using assms(1) by (simp add: big_len_def word_less_nat_alt)
  have m: "sint s mod 2 ^ 32 = (2 ^ 32 + sint s) mod 2 ^ 32" by simp
  have "uint s = (if sint s < 0 then 2 ^ 32 + sint s else sint s)"
  proof (cases "sint s < 0")
    case True
    then have "(2 ^ 32 + sint s) mod 2 ^ 32 = 2 ^ 32 + sint s"
      using sint32_range [of s] by (intro mod_pos_pos_trivial) auto
    with True m show ?thesis by (simp only: uint_sint_mod if_True)
  next
    case False
    then show ?thesis using sint32_range [of s] by (simp add: uint_sint_mod mod_pos_pos_trivial)
  qed
  then have u: "int (unat s) = (if sint s < 0 then 2 ^ 32 + sint s else sint s)" by simp
  have v: "val16 [ucast s, ucast (signed_drop_bit 16 s)] = unat s" using word32_halves [of s] by simp
  show ?thesis
    using u assms(1) n d v
    by (auto simp: ei_small_to_big_def big_value_def big_len_def numeral_2_eq_2 Let_def simp del: val16.simps)
qed

section \<open>Encoding a big integer\<close>

fun unpack :: "16 word list \<Rightarrow> byte list" where
  "unpack [] = []"
| "unpack (d # ds) = ucast d # ucast (drop_bit 8 d) # unpack ds"

definition etf_big_struct :: "erlang_big \<Rightarrow> byte list" where
  "etf_big_struct b =
     (let n = uint (big_digit_bytes b)
      in (if n < 256 then [byte_of ERL_SMALL_BIG_EXT, byte_of n] else byte_of ERL_LARGE_BIG_EXT # be32 n)
         @ byte_of (big_is_neg b) # take (nat n) (unpack (take (big_len b) (big_digits b))))"

lemma length_unpack: "length (unpack ds) = 2 * length ds"
  by (induction ds) auto

lemma put_big_digits_wrs:
  "n = int m \<Longrightarrow> i + k = (m + 1) div 2 \<Longrightarrow> (m + 1) div 2 \<le> length dt \<Longrightarrow>
   put_big_digits b s n dt i k = wrs b (s + 2 * int i) (take (m - 2 * i) (unpack (take k (drop i dt))))"
proof (induction k arbitrary: b i)
  case (Suc k)
  have i: "i < length dt" "2 * i < m" using Suc.prems by auto
  then have d: "take (Suc k) (drop i dt) = dt ! i # take k (drop (Suc i) dt)"
    by (simp add: Cons_nth_drop_Suc [symmetric])
  from Suc.prems have "Suc i + k = (m + 1) div 2" by simp
  note IH = Suc.IH [OF Suc.prems(1) this Suc.prems(3)]
  show ?case
  proof (cases "2 * i + 1 < m")
    case True
    then obtain r where r: "m - 2 * i = Suc (Suc r)" "m - 2 * Suc i = r"
      by (metis Suc_diff_Suc add.commute add_2_eq_Suc' diff_Suc_1' i(2) less_diff_conv mult_Suc_right plus_1_eq_Suc zero_less_diff)
    then show ?thesis
      using True Suc.prems(1) i IH unfolding d
      by (simp add: wrs.simps mult.commute algebra_simps)
  next
    case False
    then have m: "m = 2 * i + 1" "k = 0" using i(2) Suc.prems(2) by auto
    then show ?thesis
      using Suc.prems(1) i unfolding d by (simp add: wrs.simps bindr_Ok_right mult.commute)
  qed
qed simp

lemma ei_encode_big_emit:
  assumes "big_digit_bytes b < - 1" "big_len b \<le> length (big_digits b)"
  shows "ei_encode_big buf i b = emit buf i (etf_big_struct b)"
proof -
  define m where "m = unat (big_digit_bytes b)"
  have u: "uint (big_digit_bytes b) = int m" by (simp add: m_def)
  have "(- 1 :: 32 word) = 0xFFFFFFFF" by simp
  then have "m < 2 ^ 32 - 1"
    using assms(1) unfolding m_def by (simp only: word_less_nat_alt) simp
  then have "unat (big_digit_bytes b + 1) = m + 1"
    by (simp add: m_def unat_word_ariths)
  then have l: "big_len b = (m + 1) div 2" by (simp add: big_len_def unat_div)
  have s: "big_digit_bytes b < 256 \<longleftrightarrow> m < 256" by (simp add: m_def word_less_nat_alt)
  define bs where "bs = take m (unpack (take (big_len b) (big_digits b)))"
  have t: "length bs = m"
    using assms(2) l by (simp add: bs_def length_unpack)
  define h where "h = (m + 1) div 2"
  have n: "unat ((big_digit_bytes b + 1) div 2) = h"
    using l by (simp add: big_len_def h_def)
  have p: "put_big_digits a j (int m) (big_digits b) 0 h = wrs a j bs" for a j
    using put_big_digits_wrs [of "int m" m 0 h "big_digits b" a j] assms(2) l by (simp add: h_def bs_def)
  have e: "etf_big_struct b = (if m < 256 then [byte_of 110, byte_of (int m)] else byte_of 111 # be32 (int m))
      @ byte_of (big_is_neg b) # bs"
    by (simp add: etf_big_struct_def u bs_def)
  show ?thesis
    by (cases buf) (simp_all add: ei_encode_big_def e u s n p t Let_def emit_simps)
qed

end
