(* ===== verification/Ei_Fun.thy ===== *)
theory Ei_Fun
  imports Ei_Ids
begin

text \<open>
  Trace tokens and the encoder of funs: \<^verbatim>\<open>encode_trace.c\<close>, \<^verbatim>\<open>decode_trace.c\<close>, \<^verbatim>\<open>encode_fun.c\<close>
  (the decoder of funs needs \<open>ei_skip_term\<close> and is in theory \<open>Ei_Skip\<close>).
\<close>

section \<open>The structs\<close>

record erlang_trace =
  trace_serial :: "64 word"
  trace_prev :: "64 word"
  trace_from :: erlang_pid
  trace_label :: "64 word"
  trace_flags :: "64 word"

record erlang_fun =
  fun_arity :: "64 word"
  fun_module :: "byte list"
  fun_module_org_enc :: int
  fun_md5 :: "byte list"
  fun_index :: "64 word"
  fun_old_index :: "64 word"
  fun_uniq :: "64 word"
  fun_n_free_vars :: "64 word"
  fun_pid :: erlang_pid
  fun_free_var_len :: "64 word"
  fun_free_vars :: "byte list"

section \<open>Trace tokens\<close>

text \<open>The return values of the nested encoders are ignored: the next one starts where the last stopped.\<close>

definition and_then :: "eres \<Rightarrow> (ebuf \<Rightarrow> int \<Rightarrow> eres) \<Rightarrow> eres" where
  "and_then r f = (case r of Fault \<Rightarrow> Fault | Err (buf, index) \<Rightarrow> f buf index | Ok (buf, index) \<Rightarrow> f buf index)"

definition ei_encode_trace :: "ebuf \<Rightarrow> int \<Rightarrow> erlang_trace \<Rightarrow> eres" where
  "ei_encode_trace buf index p =
     and_then (ei_encode_tuple_header buf index 5) (\<lambda>buf index.
     and_then (ei_encode_long buf index (trace_flags p)) (\<lambda>buf index.
     and_then (ei_encode_long buf index (trace_label p)) (\<lambda>buf index.
     and_then (ei_encode_long buf index (trace_serial p)) (\<lambda>buf index.
     and_then (ei_encode_pid buf index (trace_from p)) (\<lambda>buf index.
     and_then (ei_encode_long buf index (trace_prev p)) (\<lambda>buf index. Ok (buf, index)))))))"

definition ei_decode_trace :: "byte list \<Rightarrow> int \<Rightarrow> erlang_trace option \<Rightarrow> erlang_trace option dres" where
  "ei_decode_trace buf index p =
     bindr (ei_decode_tuple_header buf index True) (\<lambda>(arity, i).
     if arity \<noteq> Some 5 then Err () else
     bindr (ei_decode_long buf i) (\<lambda>(flags, i).
     bindr (ei_decode_long buf i) (\<lambda>(label, i).
     bindr (ei_decode_long buf i) (\<lambda>(serial, i).
     bindr (ei_decode_pid buf i (map_option trace_from p)) (\<lambda>(from, i).
     bindr (ei_decode_long buf i) (\<lambda>(prev, i).
     Ok (map_option (\<lambda>q. \<lparr>trace_serial = serial, trace_prev = prev, trace_from = the from,
           trace_label = label, trace_flags = flags\<rparr>) p, i)))))))"

section \<open>Encoding of funs\<close>

text \<open>
  The function works on a copy \<open>ix\<close> of the index and stores it back at the end, so an error
  leaves \<open>*index\<close> as it was.
\<close>

definition keep_index :: "int \<Rightarrow> eres \<Rightarrow> eres" where
  "keep_index index r = (case r of Fault \<Rightarrow> Fault | Err (buf, _) \<Rightarrow> Err (buf, index) | Ok a \<Rightarrow> Ok a)"

definition put_free_vars :: "ebuf \<Rightarrow> int \<Rightarrow> erlang_fun \<Rightarrow> eres" where
  "put_free_vars buf ix p =
     (case buf of
        None \<Rightarrow> Ok (None, ix + sint (fun_free_var_len p))
      | Some b \<Rightarrow> bindr (memcpy b ix (fun_free_vars p) (uint (fun_free_var_len p))) (\<lambda>b.
                  Ok (Some b, ix + sint (fun_free_var_len p))))"

definition ei_encode_fun :: "ebuf \<Rightarrow> int \<Rightarrow> erlang_fun \<Rightarrow> eres" where
  "ei_encode_fun buf index p = keep_index index
     (if fun_arity p = - 1
      then
        bindr (case buf of
                 None \<Rightarrow> Ok None
               | Some b \<Rightarrow> bindr (put8 b index ERL_FUN_EXT) (\<lambda>(b, s).
                           bindr (put32be b s (sint (fun_n_free_vars p))) (\<lambda>(b, s). Ok (Some b)))) (\<lambda>buf.
        bindr (ei_encode_pid buf (index + (1 + 4)) (fun_pid p)) (\<lambda>(buf, ix).
        bindr (ei_encode_atom_as buf ix (fun_module p) ERLANG_UTF8 (fun_module_org_enc p)) (\<lambda>(buf, ix).
        bindr (ei_encode_long buf ix (fun_index p)) (\<lambda>(buf, ix).
        bindr (ei_encode_long buf ix (fun_uniq p)) (\<lambda>(buf, ix).
        put_free_vars buf ix p)))))
      else
        bindr (case buf of
                 None \<Rightarrow> Ok None
               | Some b \<Rightarrow> bindr (put8 b index ERL_NEW_FUN_EXT) (\<lambda>(b, size_p).
                           bindr (put8 b (size_p + 4) (sint (fun_arity p))) (\<lambda>(b, s).
                           bindr (memcpy b s (fun_md5 p) 16) (\<lambda>b.
                           bindr (put32be b (s + 16) (sint (fun_index p))) (\<lambda>(b, s).
                           bindr (put32be b s (sint (fun_n_free_vars p))) (\<lambda>(b, s). Ok (Some b))))))) (\<lambda>buf.
        bindr (ei_encode_atom_as buf (index + (1 + 4 + 1 + 16 + 4 + 4)) (fun_module p) ERLANG_UTF8
                 (fun_module_org_enc p)) (\<lambda>(buf, ix).
        bindr (ei_encode_long buf ix (fun_old_index p)) (\<lambda>(buf, ix).
        bindr (ei_encode_long buf ix (fun_uniq p)) (\<lambda>(buf, ix).
        bindr (ei_encode_pid buf ix (fun_pid p)) (\<lambda>(buf, ix).
        bindr (put_free_vars buf ix p) (\<lambda>(buf, ix).
          case buf of
            None \<Rightarrow> Ok (None, ix)
          | Some b \<Rightarrow> bindr (put32be b (index + 1) (ix - (index + 1))) (\<lambda>(b, _). Ok (Some b, ix)))))))))"

section \<open>Trace tokens come back\<close>

definition etf_trace :: "erlang_trace \<Rightarrow> byte list" where
  "etf_trace p =
     etf_tuple_header 5 @ etf_int (sint (trace_flags p)) @ etf_int (sint (trace_label p))
     @ etf_int (sint (trace_serial p)) @ etf_pid (trace_from p) @ etf_int (sint (trace_prev p))"

lemma emit_neq_Err [simp]: "emit buf i bs \<noteq> Err e"
  by (cases buf; cases "wrs (the buf) i bs :: (estate, byte list) res") (auto simp: emit_def)

lemma and_then_emit: "and_then (emit buf i bs) f = bindr (emit buf i bs) (\<lambda>(buf, i). f buf i)"
  by (cases "emit buf i bs") (auto simp: and_then_def)

lemma emit_then: "bindr (emit buf i xs) (\<lambda>(buf, i). bindr (emit buf i ys) f) = bindr (emit buf i (xs @ ys)) f"
proof -
  have "bindr (emit buf i xs) (\<lambda>(buf, i). bindr (emit buf i ys) f) =
      bindr (bindr (emit buf i xs) (\<lambda>(buf, i). emit buf i ys)) f"
    unfolding bindr_assoc by (rule bindr_cong) auto
  then show ?thesis by (simp add: emit_append)
qed

lemma ei_encode_trace_emit:
  "good_name (name_of (pid_node (trace_from p))) \<Longrightarrow> ei_encode_trace buf i p = emit buf i (etf_trace p)"
  by (simp add: ei_encode_trace_def ei_encode_tuple_header_emit ei_encode_long_emit ei_encode_pid_emit
      and_then_emit emit_then bindr_Ok_right emit_append etf_trace_def)

lemma sint_digits: "length (le_digits (nat \<bar>sint (w :: 64 word)\<bar>)) < 256"
proof -
  have "nat \<bar>sint w\<bar> < 256 ^ 8" using sint64_range [of w] by (simp add: nat_less_iff)
  then show ?thesis using length_le_digits [of "nat \<bar>sint w\<bar>" 8] by simp
qed

lemma ei_decode_long_sint:
  "at_off buf i (etf_int (sint w)) \<Longrightarrow> ei_decode_long buf i = Ok (w, i + int (length (etf_int (sint w))))"
  using sint64_range [of w] by (simp add: ei_decode_long_def ei_decode_longlong_at sint_digits)

lemma ei_decode_trace_at:
  assumes "at_off buf i (etf_trace p)" "good_name (name_of (pid_node (trace_from p)))"
    "length (pid_node (trace_from q)) = 1021"
  shows "ei_decode_trace buf i (Some q) =
     Ok (Some (p\<lparr>trace_from := pid_stored (trace_from q) (trace_from p)\<rparr>), i + int (length (etf_trace p)))"
proof -
  define i1 where "i1 = i + int (length (etf_tuple_header 5))"
  define i2 where "i2 = i1 + int (length (etf_int (sint (trace_flags p))))"
  define i3 where "i3 = i2 + int (length (etf_int (sint (trace_label p))))"
  define i4 where "i4 = i3 + int (length (etf_int (sint (trace_serial p))))"
  define i5 where "i5 = i4 + int (length (etf_pid (trace_from p)))"
  note i = i1_def i2_def i3_def i4_def i5_def
  have a: "at_off buf i (etf_tuple_header 5)" "at_off buf i1 (etf_int (sint (trace_flags p)))"
    "at_off buf i2 (etf_int (sint (trace_label p)))" "at_off buf i3 (etf_int (sint (trace_serial p)))"
    "at_off buf i4 (etf_pid (trace_from p))" "at_off buf i5 (etf_int (sint (trace_prev p)))"
    using assms(1) by (simp_all add: etf_trace_def at_off_append i add.assoc)
  have e: "i + int (length (etf_trace p)) = i5 + int (length (etf_int (sint (trace_prev p))))"
    by (simp add: etf_trace_def i)
  note d = ei_decode_tuple_header_at [OF a(1), of True, folded i1_def]
    ei_decode_long_sint [OF a(2), folded i2_def] ei_decode_long_sint [OF a(3), folded i3_def]
    ei_decode_long_sint [OF a(4), folded i4_def]
    ei_decode_pid_at(1) [OF a(5) assms(2,3), folded i5_def] ei_decode_long_sint [OF a(6)]
  show ?thesis
    unfolding e by (simp add: ei_decode_trace_def d)
qed

section \<open>The byte sequence of a fun\<close>

definition etf_fun_tail :: "erlang_fun \<Rightarrow> byte list" where
  "etf_fun_tail p =
     byte_of (sint (fun_arity p)) # fun_md5 p @ be32 (sint (fun_index p)) @ be32 (sint (fun_n_free_vars p))
     @ etf_atom_utf8 (name_of (fun_module p)) @ etf_int (sint (fun_old_index p))
     @ etf_int (sint (fun_uniq p)) @ etf_pid (fun_pid p) @ fun_free_vars p"

definition etf_fun :: "erlang_fun \<Rightarrow> byte list" where
  "etf_fun p =
     (if fun_arity p = - 1
      then byte_of ERL_FUN_EXT # be32 (sint (fun_n_free_vars p)) @ etf_pid (fun_pid p)
           @ etf_atom_utf8 (name_of (fun_module p)) @ etf_int (sint (fun_index p))
           @ etf_int (sint (fun_uniq p)) @ fun_free_vars p
      else byte_of ERL_NEW_FUN_EXT # be32 (4 + int (length (etf_fun_tail p))) @ etf_fun_tail p)"

definition fun_ok :: "erlang_fun \<Rightarrow> bool" where
  "fun_ok p \<longleftrightarrow> good_name (name_of (fun_module p)) \<and> good_name (name_of (pid_node (fun_pid p)))
     \<and> length (fun_md5 p) = 16 \<and> sint (fun_free_var_len p) = int (length (fun_free_vars p))"

lemma put_gap_wrs:
  assumes "j = i + int (length xs)" "k = j + int (length zs)"
  shows "bindr (wrs b i xs) (\<lambda>b. bindr (wrs b k ys) (\<lambda>b. bindr (wrs b j zs) f)) =
     bindr (wrs b i (xs @ zs @ ys)) f"
proof -
  have "bindr (wrs b i xs) (\<lambda>b. bindr (wrs b k ys) (\<lambda>b. bindr (wrs b j zs) f)) =
     bindr (wrs b i xs) (\<lambda>b. bindr (bindr (wrs b k ys) (\<lambda>b. wrs b j zs)) f)"
    by (simp add: bindr_assoc)
  also have "\<dots> = bindr (wrs b i xs) (\<lambda>b. bindr (bindr (wrs b j zs) (\<lambda>b. wrs b k ys)) f)"
    using assms by (subst wrs_wrs_swap) auto
  finally show ?thesis using assms by (simp add: bindr_assoc wrs_join)
qed

lemma keep_index_emit [simp]: "keep_index j (emit buf i bs) = emit buf i bs"
  by (cases "emit buf i bs") (auto simp: keep_index_def)

lemma uint_of_sint: "0 \<le> sint w \<Longrightarrow> uint (w :: 64 word) = sint w"
  using sint64_range [of w] by (simp add: uint_sint_mod mod_pos_pos_trivial)

lemma put_free_vars_emit:
  "sint (fun_free_var_len p) = int (length (fun_free_vars p)) \<Longrightarrow>
   put_free_vars buf i p = emit buf i (fun_free_vars p)"
  using uint_of_sint [of "fun_free_var_len p"]
  by (cases buf) (auto simp: put_free_vars_def memcpy_wrs emit_Some)

lemma ei_encode_atom_as_emit:
  "good_name (name_of p) \<Longrightarrow> ei_encode_atom_as buf i p ERLANG_UTF8 t = emit buf i (etf_atom_utf8 (name_of p))"
  by (simp add: ei_encode_atom_as_def ei_encode_atom_node)

lemma ei_encode_fun_emit:
  assumes "fun_ok p"
  shows "ei_encode_fun buf i p = emit buf i (etf_fun p)"
proof -
  have g: "good_name (name_of (fun_module p))" "good_name (name_of (pid_node (fun_pid p)))"
    and m: "length (fun_md5 p) = 16"
    and v: "sint (fun_free_var_len p) = int (length (fun_free_vars p))"
    using assms by (auto simp: fun_ok_def)
  note e = ei_encode_pid_emit [of _ _ "fun_pid p"] ei_encode_atom_as_emit [OF g(1)] ei_encode_long_emit
    put_free_vars_emit [OF v]
  have k: "keep_index i (bindr (wrs b i bs) (\<lambda>b. Ok (Some b, j))) = emit (Some b) i bs"
    if "j = i + int (length bs)" for b bs j
    using that keep_index_emit [of i "Some b" i bs] by (simp add: emit_Some)
  show ?thesis
  proof (cases buf)
    case None
    then show ?thesis using g m
      by (simp add: ei_encode_fun_def e etf_fun_def etf_fun_tail_def keep_index_def)
  next
    case (Some b)
    show ?thesis
    proof (cases "fun_arity p = - 1")
      case True
      then show ?thesis using g Some
        by (simp add: ei_encode_fun_def e etf_fun_def bindr_assoc put8_wrs put32be_wrs wrs_join wrs_emit emit_Some k)
    next
      case False
      then show ?thesis using g m Some
        by (simp add: ei_encode_fun_def e etf_fun_def etf_fun_tail_def bindr_assoc put8_wrs put32be_wrs wrs_join
            memcpy_wrs emit_Some put_gap_wrs k)
    qed
  qed
qed

end
