(* ===== verification/Ei_XBuff.thy ===== *)
theory Ei_XBuff
  imports Ei_Fun
begin

text \<open>
  The self-expanding buffer of \<^verbatim>\<open>ei_x_encode.c\<close> (with \<^verbatim>\<open>ei_malloc.c\<close>). Every
  \<open>ei_x_encode_*\<close> calls an encoder twice: with a NULL buffer to learn the size, and again after
  \<open>x_fix_buff\<close> has made room. The locale \<open>sized_encoder\<close> states what that relies on: both
  passes are the emission of one byte sequence, or both fail. The sizes are numbers of type \<open>int\<close>:
  where a sum of them leaves that range the outcome is \<open>Fault\<close>, and \<open>fits\<close> says that it does not.
\<close>

section \<open>The allocator\<close>

text \<open>
  \<open>alloc n\<close> is fresh memory of \<open>n\<close> bytes with arbitrary contents, or \<open>None\<close> when the C
  library has none. \<open>ei_realloc\<close> keeps the old bytes that fit.
\<close>

type_synonym allocator = "int \<Rightarrow> byte list option"

definition ei_malloc :: "allocator \<Rightarrow> int \<Rightarrow> ebuf" where
  "ei_malloc alloc sz = alloc sz"

definition ei_realloc :: "allocator \<Rightarrow> ebuf \<Rightarrow> int \<Rightarrow> ebuf" where
  "ei_realloc alloc orig sz =
     (case alloc sz of
        None \<Rightarrow> None
      | Some c \<Rightarrow> (case orig of
          None \<Rightarrow> Some c
        | Some b \<Rightarrow> Some (take (length c) b @ drop (length b) c)))"

definition alloc_ok :: "allocator \<Rightarrow> bool" where
  "alloc_ok alloc \<longleftrightarrow> (\<forall>n c. alloc n = Some c \<longrightarrow> int (length c) = n)"

section \<open>The buffer\<close>

record ei_x_buff =
  x_buff :: ebuf
  x_buffsz :: int
  x_index :: int

abbreviation (input) ei_x_extra :: int where "ei_x_extra \<equiv> 100"

type_synonym xres = "(ei_x_buff, ei_x_buff) res"

definition ei_x_new :: "allocator \<Rightarrow> xres" where
  "ei_x_new alloc =
     (let x = \<lparr>x_buff = ei_malloc alloc ei_x_extra, x_buffsz = ei_x_extra, x_index = 0\<rparr>
      in if x_buff x \<noteq> None then Ok x else Err x)"

text \<open>An encoder that works on the buffer of \<open>x\<close> updates its contents and its index.\<close>

definition encode_into :: "ei_x_buff \<Rightarrow> (ebuf \<Rightarrow> int \<Rightarrow> eres) \<Rightarrow> xres" where
  "encode_into x enc =
     (case enc (x_buff x) (x_index x) of
        Fault \<Rightarrow> Fault
      | Err (b, i) \<Rightarrow> Err (x\<lparr>x_buff := b, x_index := i\<rparr>)
      | Ok (b, i) \<Rightarrow> Ok (x\<lparr>x_buff := b, x_index := i\<rparr>))"

definition ei_x_new_with_version :: "allocator \<Rightarrow> xres" where
  "ei_x_new_with_version alloc = bindr (ei_x_new alloc) (\<lambda>x. encode_into x ei_encode_version)"

definition ei_x_free :: "ei_x_buff \<Rightarrow> xres" where
  "ei_x_free x = (if x_buff x = None then Err x else Ok (x\<lparr>x_buff := None\<rparr>))"

text \<open>
  \<open>Ok\<close> for 1, there is room, and \<open>Err\<close> for 0, with the updated struct. Both sums are sums of \<open>int\<close>:
  beyond the largest number they are undefined.
\<close>

definition x_fix_buff :: "allocator \<Rightarrow> ei_x_buff \<Rightarrow> int \<Rightarrow> xres" where
  "x_fix_buff alloc x szneeded =
     (let sz = szneeded + ei_x_extra
      in if sz > INT_MAX then Fault
         else if sz > x_buffsz x
         then let sz = sz + ei_x_extra
              in if sz > INT_MAX then Fault
                 else let x = x\<lparr>x_buffsz := sz, x_buff := ei_realloc alloc (x_buff x) sz\<rparr>
                      in if x_buff x \<noteq> None then Ok x else Err x
         else if x_buff x \<noteq> None then Ok x else Err x)"

definition ei_x_append_buf :: "allocator \<Rightarrow> ei_x_buff \<Rightarrow> byte list \<Rightarrow> int \<Rightarrow> xres" where
  "ei_x_append_buf alloc x buf len =
     bindr (x_fix_buff alloc x (x_index x + len)) (\<lambda>x.
     bindr (memcpy (the (x_buff x)) (x_index x) buf len) (\<lambda>b.
       Ok (x\<lparr>x_buff := Some b, x_index := x_index x + len\<rparr>)))"

definition ei_x_append :: "allocator \<Rightarrow> ei_x_buff \<Rightarrow> ei_x_buff \<Rightarrow> xres" where
  "ei_x_append alloc x x2 = ei_x_append_buf alloc x (case x_buff x2 of None \<Rightarrow> [] | Some b \<Rightarrow> b) (x_index x2)"

text \<open>The body that all the \<open>ei_x_encode_*\<close> functions share.\<close>

definition x_encode :: "allocator \<Rightarrow> ei_x_buff \<Rightarrow> (ebuf \<Rightarrow> int \<Rightarrow> eres) \<Rightarrow> xres" where
  "x_encode alloc x enc =
     (case enc None (x_index x) of
        Fault \<Rightarrow> Fault
      | Err _ \<Rightarrow> Err x
      | Ok (_, i) \<Rightarrow> bindr (x_fix_buff alloc x i) (\<lambda>x. encode_into x enc))"

definition ei_x_encode_string_len :: "allocator \<Rightarrow> ei_x_buff \<Rightarrow> byte list \<Rightarrow> int \<Rightarrow> xres" where
  "ei_x_encode_string_len alloc x s len = x_encode alloc x (\<lambda>b i. ei_encode_string_len b i s len)"

definition ei_x_encode_string :: "allocator \<Rightarrow> ei_x_buff \<Rightarrow> byte list \<Rightarrow> xres" where
  "ei_x_encode_string alloc x s = ei_x_encode_string_len alloc x s (int (strlen s))"

definition ei_x_encode_binary :: "allocator \<Rightarrow> ei_x_buff \<Rightarrow> byte list \<Rightarrow> int \<Rightarrow> xres" where
  "ei_x_encode_binary alloc x p len = x_encode alloc x (\<lambda>b i. ei_encode_binary b i p len)"

definition ei_x_encode_long :: "allocator \<Rightarrow> ei_x_buff \<Rightarrow> 64 word \<Rightarrow> xres" where
  "ei_x_encode_long alloc x n = x_encode alloc x (\<lambda>b i. ei_encode_long b i n)"

definition ei_x_encode_ulong :: "allocator \<Rightarrow> ei_x_buff \<Rightarrow> 64 word \<Rightarrow> xres" where
  "ei_x_encode_ulong alloc x n = x_encode alloc x (\<lambda>b i. ei_encode_ulong b i n)"

definition ei_x_encode_longlong :: "allocator \<Rightarrow> ei_x_buff \<Rightarrow> 64 word \<Rightarrow> xres" where
  "ei_x_encode_longlong alloc x n = x_encode alloc x (\<lambda>b i. ei_encode_longlong b i n)"

definition ei_x_encode_ulonglong :: "allocator \<Rightarrow> ei_x_buff \<Rightarrow> 64 word \<Rightarrow> xres" where
  "ei_x_encode_ulonglong alloc x n = x_encode alloc x (\<lambda>b i. ei_encode_ulonglong b i n)"

definition ei_x_encode_char :: "allocator \<Rightarrow> ei_x_buff \<Rightarrow> byte \<Rightarrow> xres" where
  "ei_x_encode_char alloc x p = x_encode alloc x (\<lambda>b i. ei_encode_char b i p)"

definition ei_x_encode_boolean :: "allocator \<Rightarrow> ei_x_buff \<Rightarrow> int \<Rightarrow> xres" where
  "ei_x_encode_boolean alloc x p = x_encode alloc x (\<lambda>b i. ei_encode_boolean b i p)"

definition ei_x_encode_double :: "allocator \<Rightarrow> ei_x_buff \<Rightarrow> 64 word \<Rightarrow> xres" where
  "ei_x_encode_double alloc x dbl = x_encode alloc x (\<lambda>b i. ei_encode_double b i dbl)"

text \<open>The arity of a header is a \<open>long\<close> that is passed on as an \<open>int\<close>.\<close>

definition as_int :: "64 word \<Rightarrow> int" where
  "as_int n = sint (ucast n :: 32 word)"

definition ei_x_encode_list_header :: "allocator \<Rightarrow> ei_x_buff \<Rightarrow> 64 word \<Rightarrow> xres" where
  "ei_x_encode_list_header alloc x n = x_encode alloc x (\<lambda>b i. ei_encode_list_header b i (as_int n))"

definition ei_x_encode_empty_list :: "allocator \<Rightarrow> ei_x_buff \<Rightarrow> xres" where
  "ei_x_encode_empty_list alloc x = x_encode alloc x ei_encode_empty_list"

definition ei_x_encode_version :: "allocator \<Rightarrow> ei_x_buff \<Rightarrow> xres" where
  "ei_x_encode_version alloc x = x_encode alloc x ei_encode_version"

definition ei_x_encode_tuple_header :: "allocator \<Rightarrow> ei_x_buff \<Rightarrow> 64 word \<Rightarrow> xres" where
  "ei_x_encode_tuple_header alloc x n = x_encode alloc x (\<lambda>b i. ei_encode_tuple_header b i (as_int n))"

definition ei_x_encode_map_header :: "allocator \<Rightarrow> ei_x_buff \<Rightarrow> 64 word \<Rightarrow> xres" where
  "ei_x_encode_map_header alloc x n = x_encode alloc x (\<lambda>b i. ei_encode_map_header b i (as_int n))"

definition ei_x_encode_atom_len_as :: "allocator \<Rightarrow> ei_x_buff \<Rightarrow> byte list \<Rightarrow> int \<Rightarrow> int \<Rightarrow> int \<Rightarrow> xres" where
  "ei_x_encode_atom_len_as alloc x s len from_enc to_enc =
     x_encode alloc x (\<lambda>b i. ei_encode_atom_len_as b i s len from_enc to_enc)"

definition ei_x_encode_atom :: "allocator \<Rightarrow> ei_x_buff \<Rightarrow> byte list \<Rightarrow> xres" where
  "ei_x_encode_atom alloc x s = ei_x_encode_atom_len_as alloc x s (int (strlen s)) ERLANG_LATIN1 ERLANG_LATIN1"

definition ei_x_encode_atom_len :: "allocator \<Rightarrow> ei_x_buff \<Rightarrow> byte list \<Rightarrow> int \<Rightarrow> xres" where
  "ei_x_encode_atom_len alloc x s len = ei_x_encode_atom_len_as alloc x s len ERLANG_LATIN1 ERLANG_LATIN1"

definition ei_x_encode_atom_as :: "allocator \<Rightarrow> ei_x_buff \<Rightarrow> byte list \<Rightarrow> int \<Rightarrow> int \<Rightarrow> xres" where
  "ei_x_encode_atom_as alloc x s from_enc to_enc =
     ei_x_encode_atom_len_as alloc x s (int (strlen s)) from_enc to_enc"

definition ei_x_encode_pid :: "allocator \<Rightarrow> ei_x_buff \<Rightarrow> erlang_pid \<Rightarrow> xres" where
  "ei_x_encode_pid alloc x pid = x_encode alloc x (\<lambda>b i. ei_encode_pid b i pid)"

definition ei_x_encode_fun :: "allocator \<Rightarrow> ei_x_buff \<Rightarrow> erlang_fun \<Rightarrow> xres" where
  "ei_x_encode_fun alloc x f = x_encode alloc x (\<lambda>b i. ei_encode_fun b i f)"

definition ei_x_encode_ref :: "allocator \<Rightarrow> ei_x_buff \<Rightarrow> erlang_ref \<Rightarrow> xres" where
  "ei_x_encode_ref alloc x ref = x_encode alloc x (\<lambda>b i. ei_encode_ref b i ref)"

definition ei_x_encode_port :: "allocator \<Rightarrow> ei_x_buff \<Rightarrow> erlang_port \<Rightarrow> xres" where
  "ei_x_encode_port alloc x port = x_encode alloc x (\<lambda>b i. ei_encode_port b i port)"

definition ei_x_encode_trace :: "allocator \<Rightarrow> ei_x_buff \<Rightarrow> erlang_trace \<Rightarrow> xres" where
  "ei_x_encode_trace alloc x trace = x_encode alloc x (\<lambda>b i. ei_encode_trace b i trace)"

definition ei_x_encode_big :: "allocator \<Rightarrow> ei_x_buff \<Rightarrow> erlang_big \<Rightarrow> xres" where
  "ei_x_encode_big alloc x big = x_encode alloc x (\<lambda>b i. ei_encode_big b i big)"

section \<open>What the buffer holds\<close>

definition x_ok :: "ei_x_buff \<Rightarrow> bool" where
  "x_ok x \<longleftrightarrow> (case x_buff x of None \<Rightarrow> False
     | Some b \<Rightarrow> int (length b) = x_buffsz x \<and> 0 \<le> x_index x \<and> x_index x \<le> x_buffsz x)"

definition x_data :: "ei_x_buff \<Rightarrow> byte list" where
  "x_data x = take (nat (x_index x)) (the (x_buff x))"

lemma x_okE:
  assumes "x_ok x"
  obtains b where "x_buff x = Some b" "int (length b) = x_buffsz x" "0 \<le> x_index x" "x_index x \<le> x_buffsz x"
  using assms by (auto simp: x_ok_def split: option.splits)

text \<open>
  \<open>fits x bs\<close>: the buffer is good and after appending \<open>bs\<close> the sizes that \<open>x_fix_buff\<close> computes are
  numbers of type \<open>int\<close>.
\<close>

definition fits :: "ei_x_buff \<Rightarrow> byte list \<Rightarrow> bool" where
  "fits x bs \<longleftrightarrow> x_ok x \<and> x_index x + int (length bs) + 2 * ei_x_extra \<le> INT_MAX"

lemma length_x_data: "x_ok x \<Longrightarrow> int (length (x_data x)) = x_index x"
  by (auto simp: x_data_def min_def elim!: x_okE)

lemma fits_ok [simp]: "fits x bs \<Longrightarrow> x_ok x"
  by (simp add: fits_def)

lemma fits_prefix [intro]: "fits x (as @ bs) \<Longrightarrow> fits x as"
  by (simp add: fits_def)

lemma fits_shorter: "fits x bs \<Longrightarrow> length as \<le> length bs \<Longrightarrow> fits x as"
  by (simp add: fits_def)

lemma fits_after: "fits x (as @ bs) \<Longrightarrow> x_ok x' \<Longrightarrow> x_data x' = x_data x @ as \<Longrightarrow> fits x' bs"
  using length_x_data [of x] length_x_data [of x'] by (simp add: fits_def)

lemma fits_inner: "fits x bs \<Longrightarrow> length as \<le> length bs \<Longrightarrow> x_ok y \<Longrightarrow> x_data y = [] \<Longrightarrow> fits y as"
  using length_x_data [of x] length_x_data [of y] by (simp add: fits_def)

text \<open>
  After making room the data is the same and what was asked for fits, unless memory is short or the
  size too large.
\<close>

lemma x_fix_buff_cases:
  assumes "x_ok x" "alloc_ok alloc" "x_index x \<le> n"
  shows "case x_fix_buff alloc x n of
      Fault \<Rightarrow> INT_MAX < n + 2 * ei_x_extra
    | Err y \<Rightarrow> alloc (n + 2 * ei_x_extra) = None
    | Ok y \<Rightarrow> x_ok y \<and> x_data y = x_data x \<and> x_index y = x_index x \<and> n \<le> x_buffsz y \<and> n \<le> INT_MAX"
proof -
  from assms(1) obtain b where b: "x_buff x = Some b" "int (length b) = x_buffsz x" "0 \<le> x_index x"
    "x_index x \<le> x_buffsz x" by (rule x_okE)
  consider "n + 100 > INT_MAX" | "n + 100 \<le> INT_MAX" "n + 100 > x_buffsz x" | "n + 100 \<le> INT_MAX" "n + 100 \<le> x_buffsz x"
    by linarith
  then show ?thesis
  proof cases
    case 2
    show ?thesis
    proof (cases "alloc (n + 200)")
      case None
      then show ?thesis using 2 b(1) by (simp add: x_fix_buff_def Let_def ei_realloc_def add.commute)
    next
      case (Some c)
      then have l: "int (length c) = n + 200" using assms(2) by (auto simp: alloc_ok_def)
      then have "length b \<le> length c" using 2(2) b(2) by linarith
      then show ?thesis
        using 2 b assms(3) Some l
        by (auto simp: x_fix_buff_def Let_def ei_realloc_def x_ok_def x_data_def nat_le_iff add.commute)
    qed
  qed (use b assms in \<open>simp_all add: x_fix_buff_def\<close>)
qed

lemma emit_data:
  assumes "x_ok x" "x_index x + int (length bs) \<le> x_buffsz x"
  shows "\<exists>b'. emit (x_buff x) (x_index x) bs = Ok (Some b', x_index x + int (length bs)) \<and>
     int (length b') = x_buffsz x \<and> take (nat (x_index x + int (length bs))) b' = x_data x @ bs"
proof -
  from assms(1) obtain b where b: "x_buff x = Some b" "int (length b) = x_buffsz x" "0 \<le> x_index x"
    "x_index x \<le> x_buffsz x" by (rule x_okE)
  have l: "nat (x_index x) \<le> length b" "nat (x_index x + int (length bs)) = nat (x_index x) + length bs"
    using b by auto
  show ?thesis
    using b l assms(2) by (simp add: emit_fits x_data_def)
qed

section \<open>The interface of an encoder\<close>

text \<open>
  \<open>enc\<close> emits the bytes \<open>spec\<close> whatever the buffer, NULL included, or always fails; a failure
  moves the index by \<open>off\<close>. For more bytes than an \<open>int\<close> can count it may be undefined.
\<close>

locale sized_encoder =
  fixes enc :: "ebuf \<Rightarrow> int \<Rightarrow> eres" and spec :: "byte list option" and off :: int
  assumes emits: "spec = Some bs \<Longrightarrow> int (length bs) \<le> INT_MAX \<Longrightarrow> enc buf i = emit buf i bs"
    and undefined: "spec = Some bs \<Longrightarrow> enc None i = emit None i bs \<or> enc None i = Fault \<and> INT_MAX < int (length bs)"
    and fails: "spec = None \<Longrightarrow> enc buf i = Err (buf, i + off)"
begin

text \<open>
  The bytes are appended, unless memory is short or there are too many of them; a bad value changes
  nothing.
\<close>

lemma x_encode_cases:
  assumes "x_ok x" "alloc_ok alloc" "spec = Some bs"
  shows "case x_encode alloc x enc of
      Fault \<Rightarrow> \<not> fits x bs
    | Err _ \<Rightarrow> alloc (x_index x + int (length bs) + 2 * ei_x_extra) = None
    | Ok x' \<Rightarrow> x_ok x' \<and> x_data x' = x_data x @ bs"
proof (cases "enc None (x_index x) = Fault")
  case True
  then have "\<not> fits x bs"
    using undefined [OF assms(3), of "x_index x"] assms(1) by (auto simp: fits_def elim!: x_okE)
  then show ?thesis using True by (simp add: x_encode_def)
next
  case False
  let ?n = "x_index x + int (length bs)"
  have null: "x_encode alloc x enc = bindr (x_fix_buff alloc x ?n) (\<lambda>x. encode_into x enc)"
    using undefined [OF assms(3), of "x_index x"] False by (simp add: x_encode_def)
  have "x_index x \<le> ?n" "0 \<le> x_index x" using assms(1) by (auto elim: x_okE)
  note f = x_fix_buff_cases [OF assms(1,2) this(1)] this(2)
  show ?thesis
  proof (cases "x_fix_buff alloc x ?n")
    case (Ok y)
    then have y: "x_ok y" "x_data y = x_data x" "x_index y = x_index x" "?n \<le> x_buffsz y" "int (length bs) \<le> INT_MAX"
      using f by simp_all
    obtain b' where b': "emit (x_buff y) (x_index y) bs = Ok (Some b', x_index y + int (length bs))"
      "int (length b') = x_buffsz y" "take (nat (x_index y + int (length bs))) b' = x_data y @ bs"
      using y emit_data [of y bs] by auto
    then have "x_encode alloc x enc = Ok (y\<lparr>x_buff := Some b', x_index := x_index y + int (length bs)\<rparr>)"
      using Ok by (simp add: null emits [OF assms(3) y(5)] encode_into_def)
    then show ?thesis using b' y by (auto simp: x_ok_def x_data_def split: option.splits)
  qed (use f in \<open>simp_all add: null fits_def\<close>)
qed

lemma x_encode_refuses: "spec = None \<Longrightarrow> x_encode alloc x enc = Err x"
  by (simp add: x_encode_def fails)

end

section \<open>The encoders provide it\<close>

interpretation x_version: sized_encoder ei_encode_version "Some [byte_of ERL_VERSION_MAGIC]" 0
  by unfold_locales (simp_all add: ei_encode_version_emit)

interpretation x_long: sized_encoder "\<lambda>b i. ei_encode_long b i n" "Some (etf_int (sint n))" 0 for n
  by unfold_locales (simp_all add: ei_encode_long_emit)

interpretation x_ulong: sized_encoder "\<lambda>b i. ei_encode_ulong b i n" "Some (etf_int (uint n))" 0 for n
  by unfold_locales (simp_all add: ei_encode_ulong_emit)

interpretation x_longlong: sized_encoder "\<lambda>b i. ei_encode_longlong b i n" "Some (etf_int (sint n))" 0 for n
  by unfold_locales (simp_all add: ei_encode_longlong_emit)

interpretation x_ulonglong: sized_encoder "\<lambda>b i. ei_encode_ulonglong b i n" "Some (etf_int (uint n))" 0 for n
  by unfold_locales (simp_all add: ei_encode_ulonglong_emit)

interpretation x_char: sized_encoder "\<lambda>b i. ei_encode_char b i c" "Some [byte_of ERL_SMALL_INTEGER_EXT, c]" 0 for c
  by unfold_locales (simp_all add: ei_encode_char_emit)

interpretation x_boolean: sized_encoder "\<lambda>b i. ei_encode_boolean b i p" "Some (etf_boolean p)" 0 for p
  by unfold_locales (simp_all add: ei_encode_boolean_emit)

interpretation x_double: sized_encoder "\<lambda>b i. ei_encode_double b i d"
  "if isfinite d then Some (etf_double d) else None" 0 for d
  by unfold_locales (simp_all add: ei_encode_double_emit split: if_splits)

interpretation x_list_header: sized_encoder "\<lambda>b i. ei_encode_list_header b i n"
  "if n < 0 then None else Some (etf_list_header n)" 0 for n
  by unfold_locales (simp_all add: ei_encode_list_header_emit split: if_splits)

interpretation x_empty_list: sized_encoder ei_encode_empty_list "Some (etf_list_header 0)" 0
  by unfold_locales (simp_all add: ei_encode_empty_list_def ei_encode_list_header_emit)

interpretation x_tuple_header: sized_encoder "\<lambda>b i. ei_encode_tuple_header b i n"
  "if n < 0 then None else Some (etf_tuple_header n)" 0 for n
  by unfold_locales (simp_all add: ei_encode_tuple_header_emit split: if_splits)

interpretation x_map_header: sized_encoder "\<lambda>b i. ei_encode_map_header b i n"
  "if n < 0 then None else Some (etf_map_header n)" 0 for n
  by unfold_locales (simp_all add: ei_encode_map_header_emit split: if_splits)

interpretation x_binary: sized_encoder "\<lambda>b i. ei_encode_binary b i p (int (length p))" "Some (etf_binary p)" 0 for p
  by unfold_locales (simp_all add: ei_encode_binary_emit)

interpretation x_string_len: sized_encoder "\<lambda>b i. ei_encode_string_len b i p (int (length p))" "Some (etf_string p)" 0 for p
  by unfold_locales (auto simp: ei_encode_string_len_emit)

interpretation x_atom_utf8: sized_encoder "\<lambda>b i. ei_encode_atom_len_as b i p (int (length p)) ERLANG_UTF8 t"
  "if good_name p then Some (etf_atom_utf8 p) else None" 0 for p t
  by unfold_locales (auto simp: ei_encode_atom_utf8_emit good_name_def split: if_splits option.splits)

interpretation x_pid: sized_encoder "\<lambda>b i. ei_encode_pid b i p"
  "if good_name (name_of (pid_node p)) then Some (etf_pid p) else None" 1 for p
  by unfold_locales (simp_all add: ei_encode_pid_emit split: if_splits)

interpretation x_port: sized_encoder "\<lambda>b i. ei_encode_port b i p"
  "if good_name (name_of (port_node p)) then Some (etf_port p) else None" 1 for p
  by unfold_locales (simp_all add: ei_encode_port_emit split: if_splits)

text \<open>References and funs are encoders of this kind when their arrays are as long as they say.\<close>

lemma sized_encoder_ref:
  "0 \<le> ref_len p \<Longrightarrow> nat (ref_len p) \<le> length (ref_n p) \<Longrightarrow>
   sized_encoder (\<lambda>b i. ei_encode_ref b i p) (if good_name (name_of (ref_node p)) then Some (etf_ref p) else None) 3"
  by unfold_locales (simp_all add: ei_encode_ref_emit split: if_splits)

lemma sized_encoder_fun: "fun_ok p \<Longrightarrow> sized_encoder (\<lambda>b i. ei_encode_fun b i p) (Some (etf_fun p)) 0"
  by unfold_locales (simp_all add: ei_encode_fun_emit)

lemma sized_encoder_trace:
  "good_name (name_of (pid_node (trace_from p))) \<Longrightarrow>
   sized_encoder (\<lambda>b i. ei_encode_trace b i p) (Some (etf_trace p)) 0"
  by unfold_locales (simp_all add: ei_encode_trace_emit)

lemma sized_encoder_big:
  "big_digit_bytes p < - 1 \<Longrightarrow> big_len p \<le> length (big_digits p) \<Longrightarrow>
   sized_encoder (\<lambda>b i. ei_encode_big b i p) (Some (etf_big_struct p)) 0"
  by unfold_locales (simp_all add: ei_encode_big_emit)

section \<open>New buffers and plain bytes\<close>

lemma ei_x_new_ok:
  assumes "alloc_ok alloc" "ei_x_new alloc = Ok x"
  shows "x_ok x \<and> x_data x = []"
  using assms by (auto simp: ei_x_new_def ei_malloc_def alloc_ok_def x_ok_def x_data_def Let_def split: if_splits)

lemma ei_x_new_with_version_ok:
  assumes "alloc_ok alloc" "ei_x_new_with_version alloc = Ok x"
  shows "x_ok x \<and> x_data x = [byte_of ERL_VERSION_MAGIC]"
proof -
  from assms obtain y where y: "ei_x_new alloc = Ok y" and x: "encode_into y ei_encode_version = Ok x"
    by (auto simp: ei_x_new_with_version_def bindr_eq_Ok)
  obtain c where c: "alloc 100 = Some c" "y = \<lparr>x_buff = Some c, x_buffsz = 100, x_index = 0\<rparr>"
    using y by (auto simp: ei_x_new_def ei_malloc_def Let_def split: if_splits)
  have l: "int (length c) = 100" using assms(1) c(1) by (auto simp: alloc_ok_def)
  then have "c \<noteq> []" by auto
  then show ?thesis
    using x l by (auto simp: c(2) encode_into_def ei_encode_version_emit emit_fits x_ok_def x_data_def)
qed

lemma ei_x_append_buf_cases:
  assumes "x_ok x" "alloc_ok alloc" "0 \<le> n" "nat n \<le> length buf"
  shows "case ei_x_append_buf alloc x buf n of
      Fault \<Rightarrow> \<not> fits x (take (nat n) buf)
    | Err _ \<Rightarrow> alloc (x_index x + n + 2 * ei_x_extra) = None
    | Ok x' \<Rightarrow> x_ok x' \<and> x_data x' = x_data x @ take (nat n) buf"
proof -
  have l: "length (take (nat n) buf) = nat n" using assms(4) by simp
  have "x_index x \<le> x_index x + n" using assms(3) by simp
  note f = x_fix_buff_cases [OF assms(1,2) this]
  show ?thesis
  proof (cases "x_fix_buff alloc x (x_index x + n)")
    case (Ok y)
    then have y: "x_ok y" "x_data y = x_data x" "x_index y = x_index x" "x_index x + n \<le> x_buffsz y"
      using f by simp_all
    then obtain b where b: "x_buff y = Some b" "int (length b) = x_buffsz y" "0 \<le> x_index y" "x_index y \<le> x_buffsz y"
      by (auto elim: x_okE)
    let ?z = "y\<lparr>x_buff := Some (take (nat (x_index y)) b @ take (nat n) buf @ drop (nat (x_index y) + nat n) b),
          x_index := x_index y + n\<rparr>"
    have "ei_x_append_buf alloc x buf n = Ok ?z"
      using assms(3,4) y b l Ok by (simp add: ei_x_append_buf_def memcpy_wrs wrs_Ok)
    moreover have "x_ok ?z \<and> x_data ?z = x_data y @ take (nat n) buf"
      using y(3,4) b l assms(3) by (auto simp: x_ok_def x_data_def nat_add_distrib)
    ultimately show ?thesis using y(2) by simp
  qed (use f assms(3) l in \<open>simp_all add: ei_x_append_buf_def fits_def\<close>)
qed

lemma ei_x_append_buf_ok:
  assumes "x_ok x" "alloc_ok alloc" "0 \<le> n" "nat n \<le> length buf" "ei_x_append_buf alloc x buf n = Ok x'"
  shows "x_ok x' \<and> x_data x' = x_data x @ take (nat n) buf"
  using ei_x_append_buf_cases [OF assms(1-4)] assms(5) by simp

end
