(* ===== verification/Ei_Skip.thy ===== *)
theory Ei_Skip
  imports Ei_Fun
begin

text \<open>
  Looking at a term without knowing its type: \<^verbatim>\<open>get_type.c\<close>, \<^verbatim>\<open>decode_skip.c\<close>,
  \<^verbatim>\<open>decode_fun.c\<close> and \<^verbatim>\<open>ei_decode_term.c\<close>. \<open>ei_skip_term\<close> is recursive in C without a bound;
  here it gets a recursion depth as fuel, and a result is \<open>None\<close> when the fuel is used up.
\<close>

section \<open>The type of the next term\<close>

text \<open>The length is \<open>None\<close> where \<open>*len\<close> is left as it was.\<close>

definition ei_get_type_internal :: "byte list \<Rightarrow> int \<Rightarrow> (unit, int \<times> int option) res" where
  "ei_get_type_internal buf index =
     bindr (get8 buf index) (\<lambda>(t, s).
       if t = ERL_SMALL_ATOM_EXT \<or> t = ERL_SMALL_ATOM_UTF8_EXT
       then bindr (get8 buf s) (\<lambda>(n, _). Ok (ERL_ATOM_EXT, Some n))
       else if t = ERL_SMALL_TUPLE_EXT then bindr (get8 buf s) (\<lambda>(n, _). Ok (t, Some n))
       else if t = ERL_ATOM_UTF8_EXT then bindr (get16be buf s) (\<lambda>(n, _). Ok (ERL_ATOM_EXT, Some n))
       else if t = ERL_ATOM_EXT \<or> t = ERL_STRING_EXT
       then bindr (get16be buf s) (\<lambda>(n, _). Ok (t, Some n))
       else if t = ERL_FLOAT_EXT \<or> t = NEW_FLOAT_EXT then Ok (ERL_FLOAT_EXT, None)
       else if t = ERL_LARGE_TUPLE_EXT \<or> t = ERL_LIST_EXT \<or> t = ERL_BINARY_EXT
       then bindr (get32be buf s) (\<lambda>(n, _). Ok (t, Some n))
       else if t = ERL_SMALL_BIG_EXT then bindr (get8 buf s) (\<lambda>(n, _). Ok (t, Some n))
       else if t = ERL_LARGE_BIG_EXT then bindr (get32be buf s) (\<lambda>(n, _). Ok (t, Some n))
       else if t = ERL_NEW_PID_EXT then Ok (ERL_PID_EXT, None)
       else if t = ERL_NEW_PORT_EXT then Ok (ERL_PORT_EXT, None)
       else if t = ERL_NEWER_REFERENCE_EXT then Ok (ERL_NEW_REFERENCE_EXT, None)
       else Ok (t, Some 0))"

definition ei_get_type :: "byte list \<Rightarrow> int \<Rightarrow> (unit, int \<times> int option) res" where
  "ei_get_type buf index = ei_get_type_internal buf index"

section \<open>Calls that report where they stopped\<close>

text \<open>
  A call of \<open>ei_skip_term\<close> leaves the index somewhere, also when it fails: \<open>Err\<close> carries it.
  \<open>ignoring\<close> is a call whose return value is not looked at.
\<close>

type_synonym skipper = "int \<Rightarrow> (int, int) res option"

definition ignoring :: "(int, int) res option \<Rightarrow> (int, int) res option" where
  "ignoring r = map_option (\<lambda>r. case r of Err i \<Rightarrow> Ok i | _ \<Rightarrow> r) r"

primrec skip_ignoring :: "skipper \<Rightarrow> nat \<Rightarrow> skipper" where
  "skip_ignoring f 0 i = Some (Ok i)"
| "skip_ignoring f (Suc n) i = bindf (ignoring (f i)) (\<lambda>i. skip_ignoring f n i)"

primrec skip_all :: "skipper \<Rightarrow> nat \<Rightarrow> skipper" where
  "skip_all f 0 i = Some (Ok i)"
| "skip_all f (Suc n) i = bindf (f i) (\<lambda>i. skip_all f n i)"

section \<open>Funs\<close>

text \<open>
  \<open>alloc n\<close> tells whether the allocation of \<open>n\<close> bytes for the free variables succeeds. The
  part of \<open>ei_decode_fun\<close> for each tag starts behind the tag.
\<close>

definition copy_out :: "byte list \<Rightarrow> int \<Rightarrow> int \<Rightarrow> (unit, byte list) res" where
  "copy_out buf s n = (if n < 0 then Fault else rds buf s (nat n))"

definition decode_old_fun ::
  "skipper \<Rightarrow> (int \<Rightarrow> bool) \<Rightarrow> byte list \<Rightarrow> int \<Rightarrow> erlang_fun option \<Rightarrow> (unit, erlang_fun option \<times> int) res option" where
  "decode_old_fun skip alloc buf s p =
     bindf (Some (get32be buf s)) (\<lambda>(n, ix).
     bindf (Some (ei_decode_pid buf ix (map_option fun_pid p))) (\<lambda>(pid, ix).
     bindf (Some (ei_decode_atom_as buf ix (map_option fun_module p) MAXATOMLEN_UTF8 ERLANG_UTF8)) (\<lambda>((m, enc, _), ix).
     bindf (Some (ei_decode_long buf ix)) (\<lambda>(idx, ix).
     bindf (Some (ei_decode_long buf ix)) (\<lambda>(uniq, ix0).
     bindf (map_option (lift_err ()) (skip_all skip (nat n) ix0)) (\<lambda>ix.
     case p of
       None \<Rightarrow> Some (Ok (None, ix))
     | Some q \<Rightarrow>
         if \<not> alloc (ix - ix0) then Some (Err ())
         else bindf (Some (copy_out buf ix0 (ix - ix0))) (\<lambda>vars.
           Some (Ok (Some (q\<lparr>fun_arity := - 1, fun_pid := the pid, fun_module := the m,
             fun_module_org_enc := enc, fun_index := idx, fun_uniq := uniq,
             fun_n_free_vars := word_of_int n, fun_free_var_len := word_of_int (ix - ix0),
             fun_free_vars := vars\<rparr>), ix)))))))))"

text \<open>
  The size of the free variables is what is left of the total size in the header, computed as a
  \<open>long\<close> and stored in the \<open>int\<close> \<open>n\<close>.
\<close>

definition int_of_long :: "int \<Rightarrow> int" where
  "int_of_long n = sint (word_of_int n :: 32 word)"

definition decode_new_fun ::
  "(int \<Rightarrow> bool) \<Rightarrow> byte list \<Rightarrow> int \<Rightarrow> int \<Rightarrow> erlang_fun option \<Rightarrow> erlang_fun option dres" where
  "decode_new_fun alloc buf s0 s p =
     bindr (get32be buf s) (\<lambda>(n, s).
     bindr (get8 buf s) (\<lambda>(arity, s).
     bindr (case p of None \<Rightarrow> Ok [] | Some _ \<Rightarrow> rds buf s 16) (\<lambda>md5.
     bindr (get32be buf (s + 16)) (\<lambda>(idx, s).
     bindr (get32be buf s) (\<lambda>(nfree, s).
     bindr (ei_decode_atom_as buf s (map_option fun_module p) MAXATOMLEN_UTF8 ERLANG_UTF8) (\<lambda>((m, enc, _), s).
     bindr (ei_decode_long buf s) (\<lambda>(old_index, s).
     bindr (ei_decode_long buf s) (\<lambda>(uniq, s).
     bindr (ei_decode_pid buf s (map_option fun_pid p)) (\<lambda>(pid, s).
     let n = int_of_long (n - (s - s0) + 1)
     in if n < 0 then Err ()
        else case p of
          None \<Rightarrow> Ok (None, s + n)
        | Some q \<Rightarrow>
            let q = q\<lparr>fun_arity := word_of_int arity, fun_md5 := md5, fun_index := word_of_int idx,
                  fun_n_free_vars := word_of_int nfree, fun_module := the m, fun_module_org_enc := enc,
                  fun_old_index := old_index, fun_uniq := uniq, fun_pid := the pid,
                  fun_free_var_len := word_of_int n\<rparr>
            in if n > 0
               then if \<not> alloc n then Err ()
                    else bindr (copy_out buf s n) (\<lambda>vars. Ok (Some (q\<lparr>fun_free_vars := vars\<rparr>), s + n))
               else Ok (Some q, s + n))))))))))"

definition decode_fun_with ::
  "skipper \<Rightarrow> (int \<Rightarrow> bool) \<Rightarrow> byte list \<Rightarrow> int \<Rightarrow> erlang_fun option \<Rightarrow> (unit, erlang_fun option \<times> int) res option" where
  "decode_fun_with skip alloc buf index p =
     bindf (Some (get8 buf index)) (\<lambda>(t, s).
       if t = ERL_FUN_EXT then decode_old_fun skip alloc buf s p
       else if t = ERL_NEW_FUN_EXT then Some (decode_new_fun alloc buf index s p)
       else Some (Err ()))"

section \<open>Skipping a term\<close>

definition skipped :: "int \<Rightarrow> (unit, 'a \<times> int) res \<Rightarrow> (int, int) res option" where
  "skipped index r = Some (case r of Fault \<Rightarrow> Fault | Err _ \<Rightarrow> Err index | Ok (_, i) \<Rightarrow> Ok i)"

text \<open>
  The body of \<open>ei_skip_term\<close> with the recursive calls as the parameter \<open>skip\<close>. The arity of a
  map is doubled as an \<open>int\<close>.
\<close>

definition skip_step ::
  "(byte list \<Rightarrow> int \<Rightarrow> 64 word option) \<Rightarrow> byte list \<Rightarrow> skipper \<Rightarrow> skipper" where
  "skip_step scan buf skip index =
     bindf (Some (lift_err index (ei_get_type_internal buf index))) (\<lambda>(ty, _).
       if ty = ERL_ATOM_EXT
       then skipped index (ei_decode_atom_as buf index None MAXATOMLEN_UTF8 (ERLANG_LATIN1 OR ERLANG_UTF8))
       else if ty = ERL_PID_EXT \<or> ty = ERL_NEW_PID_EXT then skipped index (ei_decode_pid buf index None)
       else if ty = ERL_PORT_EXT \<or> ty = ERL_NEW_PORT_EXT then skipped index (ei_decode_port buf index None)
       else if ty = ERL_NEW_REFERENCE_EXT \<or> ty = ERL_NEWER_REFERENCE_EXT \<or> ty = ERL_REFERENCE_EXT
       then skipped index (ei_decode_ref buf index None)
       else if ty = ERL_NIL_EXT then skipped index (ei_decode_list_header buf index True)
       else if ty = ERL_LIST_EXT
       then bindf (Some (lift_err index (ei_decode_list_header buf index True))) (\<lambda>(n, i).
            bindf (skip_ignoring skip (nat (the n)) i) (\<lambda>i.
            bindf (Some (lift_err i (ei_get_type_internal buf i))) (\<lambda>(ty, _).
              if ty \<noteq> ERL_NIL_EXT then ignoring (skip i)
              else skipped i (ei_decode_list_header buf i True))))
       else if ty = ERL_STRING_EXT then skipped index (ei_decode_string buf index None)
       else if ty = ERL_SMALL_TUPLE_EXT \<or> ty = ERL_LARGE_TUPLE_EXT
       then bindf (Some (lift_err index (ei_decode_tuple_header buf index True))) (\<lambda>(n, i).
            skip_ignoring skip (nat (the n)) i)
       else if ty = ERL_MAP_EXT
       then bindf (Some (lift_err index (ei_decode_map_header buf index True))) (\<lambda>(n, i).
            skip_ignoring skip (nat (int_of_long (the n * 2))) i)
       else if ty = ERL_BINARY_EXT then skipped index (ei_decode_binary buf index None)
       else if ty = ERL_SMALL_INTEGER_EXT \<or> ty = ERL_INTEGER_EXT then skipped index (ei_decode_long buf index)
       else if ty = ERL_SMALL_BIG_EXT \<or> ty = ERL_LARGE_BIG_EXT then skipped index (ei_decode_big buf index None)
       else if ty = ERL_FLOAT_EXT \<or> ty = NEW_FLOAT_EXT then skipped index (ei_decode_double scan buf index)
       else if ty = ERL_FUN_EXT \<or> ty = ERL_NEW_FUN_EXT
       then bindf (map_option (lift_err index) (decode_fun_with skip (\<lambda>_. True) buf index None))
              (\<lambda>(_, i). Some (Ok i))
       else Some (Err index))"

primrec ei_skip_term ::
  "nat \<Rightarrow> (byte list \<Rightarrow> int \<Rightarrow> 64 word option) \<Rightarrow> byte list \<Rightarrow> skipper" where
  "ei_skip_term 0 scan buf index = None"
| "ei_skip_term (Suc d) scan buf index = skip_step scan buf (ei_skip_term d scan buf) index"

definition ei_decode_fun ::
  "nat \<Rightarrow> (byte list \<Rightarrow> int \<Rightarrow> 64 word option) \<Rightarrow> (int \<Rightarrow> bool) \<Rightarrow> byte list \<Rightarrow> int \<Rightarrow> erlang_fun option
     \<Rightarrow> (unit, erlang_fun option \<times> int) res option" where
  "ei_decode_fun d scan alloc buf index p = decode_fun_with (ei_skip_term d scan buf) alloc buf index p"

end
