(* ===== verification/Ei_Term.thy ===== *)
theory Ei_Term
  imports Ei_Skip
begin

text \<open>
  Terms. \<open>eterm\<close> is an Erlang term as the encoders of the library can write it and \<open>etf\<close> its
  byte sequence; \<open>ei_skip_term\<close> steps over exactly that sequence. \<open>ei_decode_ei_term\<close> of
  \<^verbatim>\<open>ei_decode_term.c\<close> decodes one term, or the header of a compound one, into a struct.
\<close>

section \<open>\<open>ei_decode_ei_term\<close>\<close>

text \<open>The members of the union are kept apart: the code writes the one that goes with the type.\<close>

record ei_term =
  term_type :: int
  term_arity :: int
  term_size :: int
  term_i_val :: "64 word"
  term_d_val :: "64 word"
  term_atom_name :: "byte list"
  term_pid :: erlang_pid
  term_port :: erlang_port
  term_ref :: erlang_ref

definition ERL_PASS_THROUGH :: int where "ERL_PASS_THROUGH = 112"

definition into :: "('b \<Rightarrow> ei_term) \<Rightarrow> 'b dres \<Rightarrow> (int \<times> ei_term) dres" where
  "into f r = bindr r (\<lambda>(x, i). Ok ((1, f x), i))"

text \<open>The value is the return value 1 or 0 with the struct; \<open>Err\<close> is -1.\<close>

definition ei_decode_ei_term ::
  "(byte list \<Rightarrow> int \<Rightarrow> 64 word option) \<Rightarrow> byte list \<Rightarrow> int \<Rightarrow> ei_term option \<Rightarrow> (int \<times> ei_term) dres" where
  "ei_decode_ei_term scan buf index term =
     (case term of
        None \<Rightarrow> Err ()
      | Some e \<Rightarrow>
        bindr (get8 buf index) (\<lambda>(c, s).
        let e = e\<lparr>term_type := c\<rparr>
        in if c = ERL_SMALL_INTEGER_EXT
           then bindr (get8 buf s) (\<lambda>(n, s). Ok ((1, e\<lparr>term_i_val := word_of_int n\<rparr>), s))
           else if c = ERL_INTEGER_EXT
           then bindr (get32be buf s) (\<lambda>(n, s). Ok ((1, e\<lparr>term_i_val := word_of_int n\<rparr>), s))
           else if c = ERL_FLOAT_EXT \<or> c = NEW_FLOAT_EXT
           then into (\<lambda>d. e\<lparr>term_d_val := d\<rparr>) (ei_decode_double scan buf index)
           else if c = ERL_ATOM_EXT \<or> c = ERL_ATOM_UTF8_EXT \<or> c = ERL_SMALL_ATOM_EXT \<or> c = ERL_SMALL_ATOM_UTF8_EXT
           then into (\<lambda>a. e\<lparr>term_atom_name := the a\<rparr>) (ei_decode_atom buf index (Some (term_atom_name e)))
           else if c = ERL_REFERENCE_EXT \<or> c = ERL_NEW_REFERENCE_EXT \<or> c = ERL_NEWER_REFERENCE_EXT
           then into (\<lambda>r. e\<lparr>term_ref := the r\<rparr>) (ei_decode_ref buf index (Some (term_ref e)))
           else if c = ERL_PORT_EXT \<or> c = ERL_NEW_PORT_EXT
           then into (\<lambda>p. e\<lparr>term_port := the p\<rparr>) (ei_decode_port buf index (Some (term_port e)))
           else if c = ERL_PID_EXT \<or> c = ERL_NEW_PID_EXT
           then into (\<lambda>p. e\<lparr>term_pid := the p\<rparr>) (ei_decode_pid buf index (Some (term_pid e)))
           else if c = ERL_SMALL_TUPLE_EXT
           then bindr (get8 buf s) (\<lambda>(n, s). Ok ((1, e\<lparr>term_arity := n\<rparr>), s))
           else if c = ERL_LARGE_TUPLE_EXT
           then bindr (get32be buf s) (\<lambda>(n, s). Ok ((1, e\<lparr>term_arity := n\<rparr>), s))
           else if c = ERL_NIL_EXT then Ok ((1, e\<lparr>term_arity := 0\<rparr>), s)
           else if c = ERL_STRING_EXT
           then bindr (get16be buf s) (\<lambda>(n, s). Ok ((0, e\<lparr>term_size := n\<rparr>), index))
           else if c = ERL_LIST_EXT \<or> c = ERL_MAP_EXT
           then bindr (get32be buf s) (\<lambda>(n, s). Ok ((1, e\<lparr>term_arity := n\<rparr>), s))
           else if c = ERL_BINARY_EXT
           then bindr (get32be buf s) (\<lambda>(n, s). Ok ((0, e\<lparr>term_size := n\<rparr>), index))
           else if c = ERL_SMALL_BIG_EXT
           then bindr (get8 buf s) (\<lambda>(arity, s).
                if arity \<noteq> 4 then Err ()
                else bindr (get8 buf s) (\<lambda>(sign, s).
                     bindr (get32le buf s) (\<lambda>(n, s).
                     if sign \<noteq> 0
                     then if int_of_long (n - 1) < 0 then Err () else Ok ((1, e\<lparr>term_arity := arity\<rparr>), s)
                     else if n < 0 then Err () else Ok ((1, e\<lparr>term_arity := arity\<rparr>), s))))
           else if c = ERL_LARGE_BIG_EXT \<or> c = ERL_PASS_THROUGH then Ok ((0, e), index)
           else Err ()))"

section \<open>Terms and their byte sequences\<close>

datatype eterm =
    EInt int
  | EFloat "64 word"
  | EAtom "byte list"
  | EPid erlang_pid
  | EPort erlang_port
  | ERef erlang_ref
  | EFun erlang_fun
  | ENil
  | EString "byte list"
  | EBinary "byte list"
  | EList "eterm list" eterm
  | ETuple "eterm list"
  | EMap "eterm list"

primrec etf :: "eterm \<Rightarrow> byte list" where
  "etf (EInt n) = etf_int n"
| "etf (EFloat d) = etf_double d"
| "etf (EAtom a) = etf_atom_utf8 a"
| "etf (EPid p) = etf_pid p"
| "etf (EPort p) = etf_port p"
| "etf (ERef r) = etf_ref r"
| "etf (EFun f) = etf_fun f"
| "etf ENil = etf_list_header 0"
| "etf (EString s) = etf_string s"
| "etf (EBinary b) = etf_binary b"
| "etf (EList ts t) = etf_list_header (int (length ts)) @ concat (map etf ts) @ etf t"
| "etf (ETuple ts) = etf_tuple_header (int (length ts)) @ concat (map etf ts)"
| "etf (EMap ts) = etf_map_header (int (length ts div 2)) @ concat (map etf ts)"

text \<open>Terms within the limits of the format and of the encoders; a map has keys and values in turn.\<close>

primrec eterm_ok :: "eterm \<Rightarrow> bool" where
  "eterm_ok (EInt n) = (length (le_digits (nat \<bar>n\<bar>)) < 256)"
| "eterm_ok (EFloat d) = True"
| "eterm_ok (EAtom a) = good_name a"
| "eterm_ok (EPid p) = good_name (name_of (pid_node p))"
| "eterm_ok (EPort p) = good_name (name_of (port_node p))"
| "eterm_ok (ERef r) = (good_name (name_of (ref_node r)) \<and> 0 \<le> ref_len r \<and> ref_len r \<le> 3 \<and> length (ref_n r) = 3)"
| "eterm_ok (EFun f) = (fun_ok f \<and> fun_arity f \<noteq> - 1 \<and> int (length (etf_fun_tail f)) < 2 ^ 31 - 4)"
| "eterm_ok ENil = True"
| "eterm_ok (EString s) = (s \<noteq> [] \<and> length s \<le> 65535)"
| "eterm_ok (EBinary b) = (int (length b) < 2 ^ 31)"
| "eterm_ok (EList ts t) = (ts \<noteq> [] \<and> int (length ts) < 2 ^ 31 \<and> list_all eterm_ok ts \<and> eterm_ok t)"
| "eterm_ok (ETuple ts) = (int (length ts) < 2 ^ 31 \<and> list_all eterm_ok ts)"
| "eterm_ok (EMap ts) = (int (length ts) < 2 ^ 31 \<and> even (length ts) \<and> list_all eterm_ok ts)"

text \<open>The recursion depth that skipping needs.\<close>

primrec depth :: "eterm \<Rightarrow> nat" where
  "depth (EInt n) = 1"
| "depth (EFloat d) = 1"
| "depth (EAtom a) = 1"
| "depth (EPid p) = 1"
| "depth (EPort p) = 1"
| "depth (ERef r) = 1"
| "depth (EFun f) = 1"
| "depth ENil = 1"
| "depth (EString s) = 1"
| "depth (EBinary b) = 1"
| "depth (EList ts t) = Suc (fold max (map depth ts) (depth t))"
| "depth (ETuple ts) = Suc (fold max (map depth ts) 0)"
| "depth (EMap ts) = Suc (fold max (map depth ts) 0)"

primrec etype :: "eterm \<Rightarrow> int" where
  "etype (EInt n) = (if 0 \<le> n \<and> n < 256 then 97 else if ERL_MIN \<le> n \<and> n \<le> ERL_MAX then 98 else 110)"
| "etype (EFloat d) = ERL_FLOAT_EXT"
| "etype (EAtom a) = ERL_ATOM_EXT"
| "etype (EPid p) = ERL_PID_EXT"
| "etype (EPort p) = ERL_PORT_EXT"
| "etype (ERef r) = ERL_NEW_REFERENCE_EXT"
| "etype (EFun f) = ERL_NEW_FUN_EXT"
| "etype ENil = ERL_NIL_EXT"
| "etype (EString s) = ERL_STRING_EXT"
| "etype (EBinary b) = ERL_BINARY_EXT"
| "etype (EList ts t) = ERL_LIST_EXT"
| "etype (ETuple ts) = (if length ts \<le> 255 then ERL_SMALL_TUPLE_EXT else ERL_LARGE_TUPLE_EXT)"
| "etype (EMap ts) = ERL_MAP_EXT"

section \<open>The reported type\<close>

lemma get8_Cons: "at_off buf i (byte_of n # bs) \<Longrightarrow> 0 \<le> n \<Longrightarrow> n < 256 \<Longrightarrow> get8 buf i = Ok (n, i + 1)"
  by (simp add: get8_def rd_def)

lemma get_type_etf:
  assumes "at_off buf i (etf t)" "eterm_ok t"
  shows "\<exists>n. ei_get_type_internal buf i = Ok (etype t, n)"
  using assms
  by (cases t) (auto simp: ei_get_type_internal_def etf_int_def etf_double_def etf_atom_utf8_def etf_pid_def
        etf_port_def etf_ref_def etf_fun_def etf_string_def etf_binary_def etf_list_header_def etf_tuple_header_def
        etf_map_header_def etf_big_def Let_def get8_def rd_def at_off_append get16be_at get32be_at split: if_splits)

section \<open>Skipping a term\<close>

lemma skip_ignoring_all:
  assumes "\<And>t i. t \<in> set ts \<Longrightarrow> at_off buf i (etf t) \<Longrightarrow> f i = Some (Ok (i + int (length (etf t))))"
  shows "at_off buf i (concat (map etf ts)) \<Longrightarrow>
    skip_ignoring f (length ts) i = Some (Ok (i + int (length (concat (map etf ts)))))"
  using assms
proof (induction ts arbitrary: i)
  case (Cons t ts)
  from Cons.prems(1) have a: "at_off buf i (etf t)"
    "at_off buf (i + int (length (etf t))) (concat (map etf ts))" by (simp_all add: at_off_append)
  have "f i = Some (Ok (i + int (length (etf t))))" using Cons.prems(2) a(1) by simp
  moreover have "skip_ignoring f (length ts) (i + int (length (etf t))) =
      Some (Ok (i + int (length (etf t)) + int (length (concat (map etf ts)))))"
    using Cons.prems(2) by (intro Cons.IH a(2)) auto
  ultimately show ?case by (simp add: ignoring_def add.assoc)
qed simp

lemma fold_max_le: "fold max xs a \<le> (b :: nat) \<longleftrightarrow> a \<le> b \<and> (\<forall>x \<in> set xs. x \<le> b)"
  by (induction xs arbitrary: a) auto

lemma skip_atom_at:
  assumes "at_off buf i (etf_atom_utf8 a)" "good_name a"
  shows "ei_decode_atom_as buf i None MAXATOMLEN_UTF8 (ERLANG_LATIN1 OR ERLANG_UTF8) =
    Ok ((None, ERLANG_UTF8, if non_ascii a then ERLANG_UTF8 else ERLANG_ASCII), i + int (length (etf_atom_utf8 a)))"
proof -
  have "length a \<le> 1020" using assms(2) by (rule good_name_length)
  then show ?thesis using assms(1) by (subst ei_decode_atom_as_utf8) (auto simp: room_def stored_name_def)
qed

lemma skip_int_at:
  assumes "at_off buf i (etf_int n)" "length (le_digits (nat \<bar>n\<bar>)) < 256"
  shows "etype (EInt n) \<noteq> 110 \<Longrightarrow> skipped i (ei_decode_long buf i) = Some (Ok (i + int (length (etf_int n))))"
    and "etype (EInt n) = 110 \<Longrightarrow> skipped i (ei_decode_big buf i None) = Some (Ok (i + int (length (etf_int n))))"
proof -
  show "skipped i (ei_decode_long buf i) = Some (Ok (i + int (length (etf_int n))))" if "etype (EInt n) \<noteq> 110"
    using that assms by (auto simp: skipped_def ei_decode_long_def ei_decode_longlong_at split: if_splits)
  show "skipped i (ei_decode_big buf i None) = Some (Ok (i + int (length (etf_int n))))" if "etype (EInt n) = 110"
  proof -
    have "etf_int n = etf_big n" using that by (auto simp: etf_int_def split: if_splits)
    moreover have "big_len \<lparr>big_digit_bytes = 0, big_is_neg = 0, big_digits = []\<rparr> = 0"
      by (simp add: big_len_def)
    ultimately show ?thesis
      using assms ei_decode_big_at(2) [of buf i n "\<lparr>big_digit_bytes = 0, big_is_neg = 0, big_digits = []\<rparr>"]
      by (simp add: skipped_def)
  qed
qed

text \<open>The total size in the header of a new fun leads behind the free variables.\<close>

lemma skip_fun_at:
  assumes "at_off buf i (etf_fun f)" "eterm_ok (EFun f)"
  shows "decode_fun_with skip alloc buf i None = Some (Ok (None, i + int (length (etf_fun f))))"
proof -
  have ok: "fun_ok f" "fun_arity f \<noteq> - 1" "int (length (etf_fun_tail f)) < 2 ^ 31 - 4" using assms(2) by simp_all
  have g: "good_name (name_of (fun_module f))" "good_name (name_of (pid_node (fun_pid f)))"
    and m: "length (fun_md5 f) = 16" using ok(1) by (auto simp: fun_ok_def)
  have l: "length (name_of (fun_module f)) \<le> 1020" using g(1) by (rule good_name_length)
  define n where "n = 4 + int (length (etf_fun_tail f))"
  define i1 where "i1 = i + 30"
  define i2 where "i2 = i1 + int (length (etf_atom_utf8 (name_of (fun_module f))))"
  define i3 where "i3 = i2 + int (length (etf_int (sint (fun_old_index f))))"
  define i4 where "i4 = i3 + int (length (etf_int (sint (fun_uniq f))))"
  define i5 where "i5 = i4 + int (length (etf_pid (fun_pid f)))"
  note i = i1_def i2_def i3_def i4_def i5_def
  from ok(2) have e: "etf_fun f = byte_of 112 # be32 n @ etf_fun_tail f" by (simp add: etf_fun_def n_def)
  have a: "(get8 buf i :: (unit, _) res) = Ok (112, i + 1)" "(get32be buf (i + 1) :: (unit, _) res) = Ok (n, i + 5)"
    "\<exists>x. (get8 buf (i + 5) :: (unit, _) res) = Ok (x, i + 6)"
    "\<exists>x. (get32be buf (22 + i) :: (unit, _) res) = Ok (x, 26 + i)"
    "\<exists>x. (get32be buf (26 + i) :: (unit, _) res) = Ok (x, i + 30)"
    and b: "at_off buf i1 (etf_atom_utf8 (name_of (fun_module f)))"
    "at_off buf i2 (etf_int (sint (fun_old_index f)))" "at_off buf i3 (etf_int (sint (fun_uniq f)))"
    "at_off buf i4 (etf_pid (fun_pid f))"
    using assms(1) ok(3) m unfolding e
    by (auto simp: etf_fun_tail_def at_off_append get8_def rd_def get32be_at i n_def signed_take_bit_31_id algebra_simps)
  then obtain x y z where c: "(get8 buf (i + 5) :: (unit, _) res) = Ok (x, i + 6)"
    "(get32be buf (22 + i) :: (unit, _) res) = Ok (y, 26 + i)" "(get32be buf (26 + i) :: (unit, _) res) = Ok (z, i1)" unfolding i1_def by blast
  have d: "ei_decode_atom_as buf i1 None 1021 4 = Ok ((None, 4, if non_ascii (name_of (fun_module f)) then 4 else 1), i2)"
    using b(1) l by (subst ei_decode_atom_as_utf8) (auto simp: room_def stored_name_def i2_def)
  have q: "length (pid_node ((fun_pid f)\<lparr>pid_node := replicate 1021 0\<rparr>)) = 1021" by simp
  have v: "n - (i5 - i) + 1 = int (length (fun_free_vars f))"
    using m by (simp add: n_def etf_fun_tail_def i)
  have r: "int_of_long (n - (i5 - i) + 1) = int (length (fun_free_vars f))"
    using ok(3) unfolding v int_of_long_def sint_word32
    by (intro signed_take_bit_31_id) (auto simp: etf_fun_tail_def)
  have f: "i + int (length (etf_fun f)) = i5 + int (length (fun_free_vars f))"
    using m by (simp add: e etf_fun_tail_def i)
  show ?thesis
    unfolding f
    using r by (simp add: decode_fun_with_def a(1,2) decode_new_fun_def c d
        ei_decode_long_sint [OF b(2), folded i3_def] ei_decode_long_sint [OF b(3), folded i4_def]
        ei_decode_pid_at(2) [OF b(4) g(2) q, folded i5_def])
qed

lemma skipped_Ok [simp]: "skipped i (Ok (a, j)) = Some (Ok j)"
  by (simp add: skipped_def)

lemma lift_err_Ok [simp]: "lift_err e (Ok a) = Ok a"
  by (simp add: lift_err_def)

lemma get_type_tail:
  assumes "at_off buf i (etf t)" "eterm_ok t"
  shows "\<exists>n. ei_get_type_internal buf i = Ok (etype t, n) \<and> (etype t = 106 \<longleftrightarrow> t = ENil)"
  using get_type_etf [OF assms] by (cases t) auto

lemma header_at:
  assumes "eterm_ok (EList ts t)" "at_off buf i (etf (EList ts t))"
  shows "ei_decode_list_header buf i True = Ok (Some (int (length ts)), i + 5)" "at_off buf (i + 5) (concat (map etf ts))"
    "at_off buf (i + 5 + int (length (concat (map etf ts)))) (etf t)"
    "int (length (etf (EList ts t))) = 5 + int (length (concat (map etf ts))) + int (length (etf t))"
  using assms ei_decode_list_header_at [of buf i "int (length ts)" True]
  by (auto simp: at_off_append etf_list_header_def add.commute)

declare skip_step_def [simp]

lemma skip_etf:
  assumes "at_off buf i (etf t)" "eterm_ok t" "depth t \<le> d"
  shows "ei_skip_term d scan buf i = Some (Ok (i + int (length (etf t))))"
  using assms
proof (induction d arbitrary: t i)
  case 0
  then show ?case by (cases t) auto
next
  case (Suc d)
  obtain n where ty: "ei_get_type_internal buf i = Ok (etype t, n)"
    using get_type_etf [OF Suc.prems(1,2)] by blast
  have sub: "skip_ignoring (ei_skip_term d scan buf) (length ts) j =
      Some (Ok (j + int (length (concat (map etf ts)))))"
    if "at_off buf j (concat (map etf ts))" "list_all eterm_ok ts" "\<forall>t \<in> set ts. depth t \<le> d" for j ts
    using that by (intro skip_ignoring_all Suc.IH) (auto simp: list_all_iff)
  show ?case
  proof (cases t)
    case (EInt n)
    with Suc.prems have a: "at_off buf i (etf_int n)" "length (le_digits (nat \<bar>n\<bar>)) < 256" by simp_all
    show ?thesis using skip_int_at [OF a] ty EInt by auto
  next
    case (EFloat x)
    then show ?thesis using Suc.prems ty ei_decode_double_at [of buf i x scan] by (simp add: etf_double_def)
  next
    case (EAtom x)
    then show ?thesis using Suc.prems ty skip_atom_at [of buf i x] by simp
  next
    case (EPid x)
    then show ?thesis
      using Suc.prems ty ei_decode_pid_at(2) [of buf i x "x\<lparr>pid_node := replicate 1021 0\<rparr>"] by simp
  next
    case (EPort x)
    then show ?thesis
      using Suc.prems ty ei_decode_port_at(2) [of buf i x "x\<lparr>port_node := replicate 1021 0\<rparr>"] by simp
  next
    case (ERef x)
    then show ?thesis
      using Suc.prems ty ei_decode_ref_at(2) [of buf i x "x\<lparr>ref_node := replicate 1021 0\<rparr>"] by simp
  next
    case (EFun x)
    then show ?thesis using Suc.prems ty by (simp add: skip_fun_at del: eterm_ok.simps)
  next
    case ENil
    then show ?thesis using Suc.prems ty ei_decode_list_header_at [of buf i 0 True] by simp
  next
    case (EString x)
    then show ?thesis
      using Suc.prems ty ei_decode_string_at [of buf i x None] by (simp add: room_def stored_name_def)
  next
    case (EBinary x)
    then show ?thesis
      using Suc.prems ty ei_decode_binary_at [of buf i x None] by (simp add: room_def)
  next
    case (EList ts r)
    note h = header_at [OF Suc.prems(2,1) [unfolded EList]]
    have ok: "list_all eterm_ok ts" "\<forall>t \<in> set ts. depth t \<le> d" "eterm_ok r" "depth r \<le> d"
      using Suc.prems(2,3) EList by (auto simp: fold_max_le)
    obtain m where m: "ei_get_type_internal buf (i + 5 + int (length (concat (map etf ts)))) = Ok (etype r, m)"
      "etype r = 106 \<longleftrightarrow> r = ENil"
      using get_type_tail [OF h(3) ok(3)] by blast
    have e: "int (length (etf t)) = 5 + int (length (concat (map etf ts))) + int (length (etf r))"
      using h(4) EList by simp
    show ?thesis
    proof (cases "r = ENil")
      case True
      define j where "j = i + 5 + int (length (concat (map etf ts)))"
      have "ei_decode_list_header buf j True = Ok (Some 0, j + 1)"
        using ei_decode_list_header_at [of buf j 0 True] h(3) True by (simp add: etf_list_header_def j_def)
      with True show ?thesis
        using m ty EList sub [OF h(2) ok(1,2)] Suc.prems(2)
        by (simp add: h(1) e etf_list_header_def flip: j_def) (simp add: j_def)
    next
      case False
      then show ?thesis
        using m ty EList sub [OF h(2) ok(1,2)] Suc.IH [OF h(3) ok(3,4)]
          Suc.prems(2) by (simp add: h(1) e ignoring_def etf_list_header_def)
    qed
  next
    case (ETuple ts)
    have a: "at_off buf i (etf_tuple_header (int (length ts)))"
      "at_off buf (i + int (length (etf_tuple_header (int (length ts))))) (concat (map etf ts))"
      and ok: "list_all eterm_ok ts" "\<forall>t \<in> set ts. depth t \<le> d" "int (length ts) < 2 ^ 31"
      using Suc.prems ETuple by (auto simp: at_off_append fold_max_le)
    show ?thesis
      using ty ETuple sub [OF a(2) ok(1,2)] ei_decode_tuple_header_at [OF a(1) _ ok(3), of True] by simp
  next
    case (EMap ts)
    have a: "at_off buf i (etf_map_header (int (length ts div 2)))"
      "at_off buf (i + int (length (etf_map_header (int (length ts div 2))))) (concat (map etf ts))"
      and ok: "list_all eterm_ok ts" "\<forall>t \<in> set ts. depth t \<le> d" "int (length ts) < 2 ^ 31" "even (length ts)"
      using Suc.prems EMap by (auto simp: at_off_append fold_max_le)
    have l: "int (length ts div 2) < 2 ^ 31" and n: "int (length ts div 2) * 2 = int (length ts)"
      using ok(3,4) by auto
    have "int_of_long (int (length ts)) = int (length ts)"
      using ok(3) unfolding int_of_long_def sint_word32 by (intro signed_take_bit_31_id) auto
    with n have "int_of_long (int (length ts div 2) * 2) = int (length ts)" by simp
    then show ?thesis
      using ty EMap sub [OF a(2) ok(1,2)] ei_decode_map_header_at [OF a(1) _ l, of True] by simp
  qed
qed

section \<open>Fuel\<close>

declare skip_step_def [simp del]

text \<open>More fuel does not change a result that was reached.\<close>

definition extends :: "skipper \<Rightarrow> skipper \<Rightarrow> bool" where
  "extends f g \<longleftrightarrow> (\<forall>i r. f i = Some r \<longrightarrow> g i = Some r)"

lemma ignoring_mono: "extends f g \<Longrightarrow> ignoring (f i) = Some r \<Longrightarrow> ignoring (g i) = Some r"
  by (auto simp: extends_def ignoring_def)

lemma skip_ignoring_mono:
  "extends f g \<Longrightarrow> skip_ignoring f n i = Some r \<Longrightarrow> skip_ignoring g n i = Some r"
proof (induction n arbitrary: i)
  case (Suc n)
  have "ignoring (g i) = ignoring (f i) \<or> ignoring (f i) = None"
    using ignoring_mono [OF Suc.prems(1), of i] by (cases "ignoring (f i)") auto
  then show ?case
    using Suc.prems(2) Suc.IH [OF Suc.prems(1)] by (auto intro: bindf_mono)
qed simp

lemma skip_all_mono: "extends f g \<Longrightarrow> skip_all f n i = Some r \<Longrightarrow> skip_all g n i = Some r"
proof (induction n arbitrary: i)
  case (Suc n)
  have "g i = f i \<or> f i = None"
    using Suc.prems(1) by (cases "f i") (auto simp: extends_def)
  then show ?case
    using Suc.prems(2) Suc.IH [OF Suc.prems(1)] by (auto intro: bindf_mono)
qed simp

lemma decode_fun_mono:
  assumes "extends f g" "decode_fun_with f alloc buf i p = Some r"
  shows "decode_fun_with g alloc buf i p = Some r"
proof -
  have a: "map_option (lift_err ()) (skip_all g n j) = map_option (lift_err ()) (skip_all f n j)
      \<or> map_option (lift_err ()) (skip_all f n j) = None" for n j
    using skip_all_mono [OF assms(1), of n j] by (cases "skip_all f n j") auto
  have "decode_old_fun f alloc buf s p = Some r \<Longrightarrow> decode_old_fun g alloc buf s p = Some r" for s
    unfolding decode_old_fun_def
    by (erule bindf_mono, simp, clarsimp split: prod.splits, erule bindf_mono, simp, clarsimp split: prod.splits,
        erule bindf_mono, simp, clarsimp split: prod.splits, erule bindf_mono, simp, clarsimp split: prod.splits,
        erule bindf_mono, simp, clarsimp split: prod.splits, erule bindf_mono, rule a, assumption)
  then show ?thesis
    using assms(2) unfolding decode_fun_with_def
    by (auto elim!: bindf_mono split: prod.splits if_splits)
qed

lemma skip_step_mono:
  assumes "extends f g" "skip_step scan buf f i = Some r"
  shows "skip_step scan buf g i = Some r"
proof -
  note m = skip_ignoring_mono [OF assms(1)] ignoring_mono [OF assms(1)] decode_fun_mono [OF assms(1)]
  show ?thesis
    using assms(2) unfolding skip_step_def
    by (auto elim!: bindf_mono split: prod.splits if_splits) (auto dest: m)
qed

lemma skip_term_step: "extends (ei_skip_term d scan buf) (ei_skip_term (Suc d) scan buf)"
proof (induction d)
  case 0
  then show ?case by (simp add: extends_def)
next
  case (Suc d)
  then show ?case using skip_step_mono [OF Suc.IH, of scan buf]
    unfolding extends_def ei_skip_term.simps by blast
qed

lemma skip_term_more:
  assumes "ei_skip_term d scan buf i = Some r" "d \<le> d'"
  shows "ei_skip_term d' scan buf i = Some r"
  using assms(2,1)
proof (induction d' rule: dec_induct)
  case (step n)
  then show ?case using skip_term_step [of n scan buf] by (simp add: extends_def del: ei_skip_term.simps)
qed

text \<open>
  No depth is enough for every input: the binary inside this list has a negative length that
  leads back to the list.
\<close>

definition loop_bytes :: "byte list" where
  "loop_bytes = [108, 0, 0, 0, 1, 109, 255, 255, 255, 246]"

lemma skip_term_loops: "ei_skip_term d scan loop_bytes 0 = None"
proof (induction d)
  case (Suc d)
  have t: "ei_get_type_internal loop_bytes 0 = Ok (108, Some 1)"
    "ei_get_type_internal loop_bytes 5 = Ok (109, Some (- 10))"
    "ei_decode_list_header loop_bytes 0 True = Ok (Some 1, 5)"
    "ei_decode_binary loop_bytes 5 None = Ok ((None, - 10), 0)"
    by code_simp+
  have b: "ei_skip_term (Suc e) scan loop_bytes 5 = Some (Ok 0)" for e
    by (simp add: t skip_step_def del: One_nat_def)
  show ?case
  proof (cases d)
    case 0
    then show ?thesis by (simp add: t ignoring_def skip_step_def)
  next
    case (Suc e)
    then have "ei_skip_term d scan loop_bytes 5 = Some (Ok 0)" using b by (simp del: ei_skip_term.simps)
    then show ?thesis using Suc.IH by (simp add: t ignoring_def skip_step_def)
  qed
qed simp

end
