(* ===== verification/Ei_Build.thy ===== *)
theory Ei_Build
  imports Ei_XBuff Ei_Term
begin

text \<open>
  The buffer, the encoders and the skipper together. \<open>build\<close> is the sequence of
  \<open>ei_x_encode_*\<close> calls with which a client writes a term; what it leaves in the buffer is the
  term's byte sequence, which \<open>ei_skip_term\<close> steps over.
\<close>

text \<open>Terms a client can write: the integers of \<open>long long\<close>, finite floats, whole arrays.\<close>

primrec writable :: "eterm \<Rightarrow> bool" where
  "writable (EInt n) = (- (2 ^ 63) \<le> n \<and> n < 2 ^ 63)"
| "writable (EFloat d) = isfinite d"
| "writable (EAtom a) = good_name a"
| "writable (EPid p) = good_name (name_of (pid_node p))"
| "writable (EPort p) = good_name (name_of (port_node p))"
| "writable (ERef r) = (good_name (name_of (ref_node r)) \<and> 0 \<le> ref_len r \<and> ref_len r \<le> 3 \<and> length (ref_n r) = 3)"
| "writable (EFun f) = (fun_ok f \<and> fun_arity f \<noteq> - 1 \<and> int (length (etf_fun_tail f)) < 2 ^ 31 - 4)"
| "writable ENil = True"
| "writable (EString s) = (s \<noteq> [] \<and> length s \<le> 65535)"
| "writable (EBinary b) = (int (length b) < 2 ^ 31)"
| "writable (EList ts t) = (ts \<noteq> [] \<and> int (length ts) < 2 ^ 31 \<and> list_all writable ts \<and> writable t)"
| "writable (ETuple ts) = (int (length ts) < 2 ^ 31 \<and> list_all writable ts)"
| "writable (EMap ts) = (int (length ts) < 2 ^ 31 \<and> even (length ts) \<and> list_all writable ts)"

definition then_all :: "(ei_x_buff \<Rightarrow> xres) list \<Rightarrow> xres \<Rightarrow> xres" where
  "then_all fs r = fold (\<lambda>f r. bindr r f) fs r"

primrec build :: "allocator \<Rightarrow> eterm \<Rightarrow> ei_x_buff \<Rightarrow> xres" where
  "build alloc (EInt n) x = ei_x_encode_longlong alloc x (word_of_int n)"
| "build alloc (EFloat d) x = ei_x_encode_double alloc x d"
| "build alloc (EAtom a) x = ei_x_encode_atom_len_as alloc x a (int (length a)) ERLANG_UTF8 ERLANG_UTF8"
| "build alloc (EPid p) x = ei_x_encode_pid alloc x p"
| "build alloc (EPort p) x = ei_x_encode_port alloc x p"
| "build alloc (ERef r) x = ei_x_encode_ref alloc x r"
| "build alloc (EFun f) x = ei_x_encode_fun alloc x f"
| "build alloc ENil x = ei_x_encode_empty_list alloc x"
| "build alloc (EString s) x = ei_x_encode_string_len alloc x s (int (length s))"
| "build alloc (EBinary b) x = ei_x_encode_binary alloc x b (int (length b))"
| "build alloc (EList ts t) x =
     bindr (then_all (map (build alloc) ts) (ei_x_encode_list_header alloc x (word_of_nat (length ts)))) (build alloc t)"
| "build alloc (ETuple ts) x =
     then_all (map (build alloc) ts) (ei_x_encode_tuple_header alloc x (word_of_nat (length ts)))"
| "build alloc (EMap ts) x =
     then_all (map (build alloc) ts) (ei_x_encode_map_header alloc x (word_of_nat (length ts div 2)))"

section \<open>What a call does\<close>

text \<open>
  \<open>adds f bs\<close>: from a good buffer, \<open>f\<close> appends \<open>bs\<close> if it succeeds, and fails only for lack of
  memory; it is undefined only when the sizes leave the range of \<open>int\<close>.
\<close>

definition adds :: "allocator \<Rightarrow> (ei_x_buff \<Rightarrow> xres) \<Rightarrow> byte list \<Rightarrow> bool" where
  "adds alloc f bs \<longleftrightarrow> (\<forall>x. x_ok x \<longrightarrow>
     (case f x of
        Fault \<Rightarrow> \<not> fits x bs
      | Err _ \<Rightarrow> \<exists>n \<ge> 0. alloc n = None
      | Ok x' \<Rightarrow> x_ok x' \<and> x_data x' = x_data x @ bs))"

lemma adds_encoder:
  assumes "sized_encoder enc (Some bs) off" "alloc_ok alloc"
  shows "adds alloc (\<lambda>x. x_encode alloc x enc) bs"
proof -
  have "case x_encode alloc x enc of Fault \<Rightarrow> \<not> fits x bs | Err _ \<Rightarrow> \<exists>n \<ge> 0. alloc n = None
      | Ok x' \<Rightarrow> x_ok x' \<and> x_data x' = x_data x @ bs" if "x_ok x" for x
  proof -
    have "0 \<le> x_index x + int (length bs) + 2 * ei_x_extra" using that by (auto elim: x_okE)
    then show ?thesis
      using sized_encoder.x_encode_cases [OF assms(1) that assms(2) refl]
      by (cases "x_encode alloc x enc") (auto simp del: fits_def)
  qed
  then show ?thesis by (simp add: adds_def)
qed

text \<open>An allocator that never fails.\<close>

definition plain_alloc :: allocator where
  "plain_alloc n = (if n < 0 then None else Some (replicate (nat n) 0))"

lemma alloc_ok_plain: "alloc_ok plain_alloc"
  by (auto simp: alloc_ok_def plain_alloc_def split: if_splits)

lemma plain_alloc_Some: "0 \<le> n \<Longrightarrow> plain_alloc n \<noteq> None"
  by (simp add: plain_alloc_def)

lemma adds_bindr: "adds alloc f xs \<Longrightarrow> adds alloc g ys \<Longrightarrow> adds alloc (\<lambda>x. bindr (f x) g) (xs @ ys)"
  unfolding adds_def
  by (intro allI impI, drule spec, drule (1) mp, auto dest: fits_after split: res.splits)

lemma adds_then_all:
  "adds alloc f bs \<Longrightarrow> (\<And>t. t \<in> set ts \<Longrightarrow> adds alloc (g t) (h t)) \<Longrightarrow>
   adds alloc (\<lambda>x. then_all (map g ts) (f x)) (bs @ concat (map h ts))"
proof (induction ts arbitrary: f bs)
  case (Cons t ts)
  have "adds alloc (\<lambda>x. then_all (map g ts) (bindr (f x) (g t))) ((bs @ h t) @ concat (map h ts))"
    using Cons.prems by (intro Cons.IH adds_bindr) auto
  then show ?case by (simp add: then_all_def)
qed (simp add: then_all_def)

lemma as_int_nat: "int n < 2 ^ 31 \<Longrightarrow> as_int (word_of_nat n) = int n"
proof -
  assume n: "int n < 2 ^ 31"
  have "ucast (word_of_nat n :: 64 word) = (word_of_int (int n) :: 32 word)"
    by (rule bit_word_eqI) (auto simp: bit_simps)
  then show ?thesis using n by (simp only: as_int_def sint_word32) (simp add: signed_take_bit_31_id)
qed

lemma adds_if:
  "sized_encoder enc (if c then Some bs else None) off \<Longrightarrow> c \<Longrightarrow> alloc_ok alloc \<Longrightarrow>
   adds alloc (\<lambda>x. x_encode alloc x enc) bs"
  by (simp add: adds_encoder)

lemma adds_unless:
  "sized_encoder enc (if c then None else Some bs) off \<Longrightarrow> \<not> c \<Longrightarrow> alloc_ok alloc \<Longrightarrow>
   adds alloc (\<lambda>x. x_encode alloc x enc) bs"
  by (simp add: adds_encoder)

lemma build_adds: "alloc_ok alloc \<Longrightarrow> writable t \<Longrightarrow> adds alloc (build alloc t) (etf t)"
proof (induction t)
  case (EInt n)
  have "sint (word_of_int n :: 64 word) = n"
    using EInt by (simp add: signed_of_int signed_take_bit_int_eq_self)
  then show ?case
    using adds_encoder [OF x_longlong.sized_encoder_axioms EInt(1), of "word_of_int n"]
    by (simp add: ei_x_encode_longlong_def)
next
  case (EFloat d)
  then show ?case
    using adds_if [OF x_double.sized_encoder_axioms _ EFloat(1), of d] by (simp add: ei_x_encode_double_def)
next
  case (EAtom a)
  then show ?case
    using adds_if [OF x_atom_utf8.sized_encoder_axioms _ EAtom(1), of a 4]
    by (simp add: ei_x_encode_atom_len_as_def)
next
  case (EPid p)
  then show ?case
    using adds_if [OF x_pid.sized_encoder_axioms _ EPid(1), of p] by (simp add: ei_x_encode_pid_def)
next
  case (EPort p)
  then show ?case
    using adds_if [OF x_port.sized_encoder_axioms _ EPort(1), of p] by (simp add: ei_x_encode_port_def)
next
  case (ERef r)
  then have "nat (ref_len r) \<le> 3" by (simp add: nat_le_iff)
  with ERef show ?case
    using adds_if [OF sized_encoder_ref _ ERef(1), of r] by (simp add: ei_x_encode_ref_def)
next
  case (EFun f)
  then show ?case
    using adds_encoder [OF sized_encoder_fun EFun(1), of f] by (simp add: ei_x_encode_fun_def)
next
  case ENil
  then show ?case
    using adds_encoder [OF x_empty_list.sized_encoder_axioms ENil(1)] by (simp add: ei_x_encode_empty_list_def)
next
  case (EString s)
  then show ?case
    using adds_encoder [OF x_string_len.sized_encoder_axioms EString(1), of s]
    by (simp add: ei_x_encode_string_len_def)
next
  case (EBinary b)
  then show ?case
    using adds_encoder [OF x_binary.sized_encoder_axioms EBinary(1), of b] by (simp add: ei_x_encode_binary_def)
next
  case (EList ts t)
  have n: "as_int (word_of_nat (length ts)) = int (length ts)" using EList.prems by (simp add: as_int_nat)
  have h: "adds alloc (\<lambda>x. ei_x_encode_list_header alloc x (word_of_nat (length ts))) (etf_list_header (int (length ts)))"
    using adds_unless [OF x_list_header.sized_encoder_axioms _ EList.prems(1), of "int (length ts)"]
    by (simp add: ei_x_encode_list_header_def n)
  have "adds alloc (\<lambda>x. bindr (then_all (map (build alloc) ts)
        (ei_x_encode_list_header alloc x (word_of_nat (length ts)))) (build alloc t))
      ((etf_list_header (int (length ts)) @ concat (map etf ts)) @ etf t)"
    using EList.IH EList.prems by (intro adds_bindr adds_then_all h) (auto simp: list_all_iff)
  then show ?case by simp
next
  case (ETuple ts)
  have n: "as_int (word_of_nat (length ts)) = int (length ts)" using ETuple.prems by (simp add: as_int_nat)
  have h: "adds alloc (\<lambda>x. ei_x_encode_tuple_header alloc x (word_of_nat (length ts))) (etf_tuple_header (int (length ts)))"
    using adds_unless [OF x_tuple_header.sized_encoder_axioms _ ETuple.prems(1), of "int (length ts)"]
    by (simp add: ei_x_encode_tuple_header_def n)
  have "adds alloc (\<lambda>x. then_all (map (build alloc) ts)
        (ei_x_encode_tuple_header alloc x (word_of_nat (length ts)))) (etf_tuple_header (int (length ts)) @ concat (map etf ts))"
    using ETuple.IH ETuple.prems by (intro adds_then_all h) (auto simp: list_all_iff)
  then show ?case by simp
next
  case (EMap ts)
  have n: "as_int (word_of_nat (length ts div 2)) = int (length ts div 2)"
  proof (rule as_int_nat)
    have "int (length ts div 2) \<le> int (length ts)" by (simp only: of_nat_le_iff div_le_dividend)
    also have "\<dots> < 2 ^ 31" using EMap.prems by simp
    finally show "int (length ts div 2) < 2 ^ 31" .
  qed
  have h: "adds alloc (\<lambda>x. ei_x_encode_map_header alloc x (word_of_nat (length ts div 2))) (etf_map_header (int (length ts div 2)))"
    using adds_unless [OF x_map_header.sized_encoder_axioms _ EMap.prems(1), of "int (length ts div 2)"]
    by (simp add: ei_x_encode_map_header_def n)
  have "adds alloc (\<lambda>x. then_all (map (build alloc) ts)
        (ei_x_encode_map_header alloc x (word_of_nat (length ts div 2)))) (etf_map_header (int (length ts div 2)) @ concat (map etf ts))"
    using EMap.IH EMap.prems by (intro adds_then_all h) (auto simp: list_all_iff)
  then show ?case by simp
qed

lemma writable_ok: "writable t \<Longrightarrow> eterm_ok t"
proof (induction t)
  case (EInt n)
  then have "\<bar>n\<bar> < 2 ^ 64" by auto
  then have "nat \<bar>n\<bar> < 256 ^ 8" by (simp add: nat_less_iff)
  then show ?case using length_le_digits [of "nat \<bar>n\<bar>" 8] by simp
qed (auto simp: list_all_iff)

end
