(* ===== verification/Ei_Props.thy ===== *)
theory Ei_Props
  imports Ei_Build
begin

text \<open>
  The properties of the external-term-format library: what goes in comes out again, through the
  buffers, the encoders and the decoders of the C code, and where it does not.
\<close>

section \<open>Writing and reading\<close>

text \<open>A successful encoding leaves its bytes at the old index and the index behind them.\<close>

lemma written:
  assumes "0 \<le> i" "emit (Some b) i bs = Ok (Some b', j)"
  shows "at_off b' i bs" "i + int (length bs) = j"
  using emit_Ok_at_off [OF assms] by auto

lemma x_data_at: "x_data x = bs \<Longrightarrow> at_off (x_data x) 0 bs"
  using at_off_start [of bs "[]"] by simp

text \<open>C1: A term written with the \<open>ei_x_encode_*\<close> functions into a new buffer with version is read back
  as a version and one term that ends exactly where the data ends.\<close>

theorem build_then_skip:
  assumes "alloc_ok alloc" "writable t" "ei_x_new_with_version alloc = Ok x" "build alloc t x = Ok x'" "depth t \<le> d"
  shows "ei_decode_version (x_data x') 0 = Ok (131, 1) \<and>
    ei_skip_term d scan (x_data x') 1 = Some (Ok (int (length (x_data x'))))"
proof -
  have x: "x_ok x" "x_data x = [byte_of ERL_VERSION_MAGIC]"
    using ei_x_new_with_version_ok [OF assms(1,3)] by auto
  have d: "x_data x' = [byte_of ERL_VERSION_MAGIC] @ etf t"
    using build_adds [OF assms(1,2)] x assms(4) by (auto simp: adds_def)
  then have a: "at_off (x_data x') 0 [byte_of ERL_VERSION_MAGIC]" "at_off (x_data x') 1 (etf t)"
    using at_off_start [of "[byte_of ERL_VERSION_MAGIC]" "etf t"] at_off_mid [of "[byte_of ERL_VERSION_MAGIC]" "etf t" "[]"]
    by simp_all
  show ?thesis
    using ei_decode_version_at [OF a(1)] skip_etf [OF a(2) writable_ok [OF assms(2)] assms(5)] d by simp
qed

lemma plain_build:
  assumes "writable t" "int (length (etf t)) + 201 \<le> INT_MAX"
  shows "\<exists>x x'. ei_x_new_with_version plain_alloc = Ok x \<and> build plain_alloc t x = Ok x'"
proof -
  have "\<exists>x. ei_x_new_with_version plain_alloc = Ok x"
    by (simp add: ei_x_new_with_version_def ei_x_new_def ei_malloc_def plain_alloc_def encode_into_def
        ei_encode_version_emit emit_fits)
  then obtain x where x: "ei_x_new_with_version plain_alloc = Ok x" by blast
  have ok: "x_ok x" "x_data x = [byte_of ERL_VERSION_MAGIC]" using ei_x_new_with_version_ok [OF alloc_ok_plain x] by auto
  then have "x_index x = 1" using length_x_data [of x] by simp
  then have f: "fits x (etf t)" using ok(1) assms(2) by (simp add: fits_def)
  have "case build plain_alloc t x of Fault \<Rightarrow> \<not> fits x (etf t) | Err _ \<Rightarrow> \<exists>n \<ge> 0. plain_alloc n = None
      | Ok x' \<Rightarrow> x_ok x' \<and> x_data x' = x_data x @ etf t"
    using build_adds [OF alloc_ok_plain assms(1)] ok(1) by (simp add: adds_def)
  then show ?thesis using f x by (cases "build plain_alloc t x") (auto simp: plain_alloc_Some)
qed

theorem build_then_skip_witness:
  "\<exists>x x'. ei_x_new_with_version plain_alloc = Ok x \<and> build plain_alloc (EList [EInt (- 5), EAtom [97]] ENil) x = Ok x' \<and>
     ei_decode_version (x_data x') 0 = Ok (131, 1) \<and>
     ei_skip_term 2 (\<lambda>_ _. None) (x_data x') 1 = Some (Ok (int (length (x_data x'))))"
proof -
  have w: "writable (EList [EInt (- 5), EAtom [97]] ENil)" by (simp add: good_name_def)
  obtain x x' where x: "ei_x_new_with_version plain_alloc = Ok x" "build plain_alloc (EList [EInt (- 5), EAtom [97]] ENil) x = Ok x'"
    using plain_build [OF w] by (auto simp: etf_list_header_def etf_int_def etf_atom_utf8_def)
  have "depth (EList [EInt (- 5), EAtom [97]] ENil) \<le> 2" by simp
  from build_then_skip [OF alloc_ok_plain w x this] x show ?thesis by blast
qed





text \<open>The reported type of any such term is the one of its constructor, with all
  encodings of atoms, floats and identifiers reported alike.\<close>

theorem get_type_any_term:
  assumes "at_off buf i (etf t)" "eterm_ok t"
  shows "\<exists>n. ei_get_type buf i = Ok (etype t, n)"
  unfolding ei_get_type_def using assms by (rule get_type_etf)

theorem get_type_any_term_witness: "\<exists>n. ei_get_type [119, 1, 97] 0 = Ok (100, n)"
proof -
  have "at_off [119, 1, 97] 0 (etf (EAtom [97]))" by code_simp
  from get_type_any_term [OF this] show ?thesis by (simp add: good_name_def)
qed

section \<open>Integers\<close>

lemma scast_byte: "(scast (n :: 64 word) :: byte) = ucast n"
  by (rule bit_word_eqI) (auto simp: bit_simps)

text \<open>C17: A 64-bit integer comes back as itself; read as an unsigned one it is refused exactly when
  it is negative, and as a character exactly when it is not between 0 and 255.\<close>

theorem longlong_roundtrip:
  assumes "0 \<le> i" "ei_encode_longlong (Some b) i n = Ok (Some b', j)"
  shows "ei_decode_longlong b' i = Ok (n, j) \<and> ei_decode_long b' i = Ok (n, j) \<and>
    ei_decode_ulonglong b' i = (if 0 \<le> sint n then Ok (n, j) else Err ()) \<and>
    ei_decode_char b' i = (if 0 \<le> sint n \<and> sint n < 256 then Ok (ucast n, j) else Err ())"
proof -
  note w = written [OF assms(1) assms(2) [unfolded ei_encode_longlong_emit]]
  show ?thesis
    using sint64_range [of n] w(2)
    by (auto simp: scast_byte ei_decode_long_def ei_decode_longlong_at [OF w(1) sint_digits]
        ei_decode_ulonglong_at [OF w(1) sint_digits] ei_decode_char_at [OF w(1) sint_digits])
qed

theorem longlong_roundtrip_witness:
  "ei_decode_longlong [110, 4, 1, 0, 0xA3, 0xE1, 0x11] 0 = Ok (- 300000000, 7)"
proof -
  have "ei_encode_longlong (Some [0, 0, 0, 0, 0, 0, 0]) 0 (- 300000000) =
    Ok (Some [110, 4, 1, 0, 0xA3, 0xE1, 0x11], 7)" by code_simp
  from longlong_roundtrip [OF _ this] show ?thesis by simp
qed

text \<open>An unsigned 64-bit integer comes back as itself; read as a signed one it is refused exactly
  when it is too large.\<close>

theorem ulonglong_roundtrip:
  assumes "0 \<le> i" "ei_encode_ulonglong (Some b) i n = Ok (Some b', j)"
  shows "ei_decode_ulonglong b' i = Ok (n, j) \<and> ei_decode_ulong b' i = Ok (n, j) \<and>
    ei_decode_longlong b' i = (if uint n < 2 ^ 63 then Ok (n, j) else Err ())"
proof -
  note w = written [OF assms(1) assms(2) [unfolded ei_encode_ulonglong_emit]]
  have "nat \<bar>uint n\<bar> < 256 ^ 8" using unsigned_less [of n, where 'a = nat] by simp
  then have d: "length (le_digits (nat \<bar>uint n\<bar>)) < 256"
    using length_le_digits [of "nat \<bar>uint n\<bar>" 8] by simp
  have "- (2 ^ 63) \<le> uint n" by (rule order_trans [of _ 0]) simp_all
  then show ?thesis
    using uint_bounded [of n] w(2)
    by (simp add: ei_decode_ulong_def ei_decode_longlong_at [OF w(1) d] ei_decode_ulonglong_at [OF w(1) d])
qed

theorem ulonglong_roundtrip_witness:
  "ei_decode_ulonglong [110, 8, 0, 255, 255, 255, 255, 255, 255, 255, 255] 0 = Ok (- 1, 11) \<and>
   ei_decode_longlong [110, 8, 0, 255, 255, 255, 255, 255, 255, 255, 255] 0 = Err ()"
proof -
  have e: "ei_encode_ulonglong (Some (replicate 11 0)) 0 (- 1) =
    Ok (Some [110, 8, 0, 255, 255, 255, 255, 255, 255, 255, 255], 11)" by code_simp
  have "\<not> uint (- 1 :: 64 word) < 2 ^ 63" by code_simp
  with ulonglong_roundtrip [OF _ e] show ?thesis by simp
qed

lemma long_32_interoperates_parts:
  assumes "0 \<le> i"
  shows "ei_encode_long_32 (Some b) i m = Ok (Some b', j) \<Longrightarrow> ei_decode_long b' i = Ok (scast m, j)"
    and "ei_encode_long (Some b) i n = Ok (Some b'', k) \<Longrightarrow>
      ei_decode_long_32 b'' i = (if - (2 ^ 31) \<le> sint n \<and> sint n < 2 ^ 31 then Ok (ucast n, k) else Err ())"
proof -
  show "ei_decode_long b' i = Ok (scast m, j)" if "ei_encode_long_32 (Some b) i m = Ok (Some b', j)"
  proof -
    note w = written [OF assms that [unfolded ei_encode_long_32_emit]]
    have r: "- (2 ^ 63) \<le> sint m" "sint m < 2 ^ 63" using sint32_range [of m] by simp_all
    then have "nat \<bar>sint m\<bar> < 256 ^ 8" by (simp add: nat_less_iff)
    then have d: "length (le_digits (nat \<bar>sint m\<bar>)) < 256"
      using length_le_digits [of "nat \<bar>sint m\<bar>" 8] by simp
    show ?thesis using r w(2) by (simp add: ei_decode_long_def ei_decode_longlong_at [OF w(1) d])
  qed
  show "ei_decode_long_32 b'' i = (if - (2 ^ 31) \<le> sint n \<and> sint n < 2 ^ 31 then Ok (ucast n, k) else Err ())"
    if "ei_encode_long (Some b) i n = Ok (Some b'', k)"
  proof -
    note w = written [OF assms that [unfolded ei_encode_long_emit]]
    have "(scast n :: 32 word) = ucast n" by (rule bit_word_eqI) (auto simp: bit_simps)
    then show ?thesis using w(2) by (simp add: ei_decode_long_32_at [OF w(1) sint_digits])
  qed
qed

text \<open>A program built with 32-bit \<open>long\<close>s and one with 64-bit ones understand each other: what the
  32-bit encoders write is read by the 64-bit decoders, and the 32-bit decoders read back what is
  in their range and refuse the rest.\<close>

theorem long_32_interoperates:
  assumes "0 \<le> i"
  shows "(ei_encode_long_32 (Some b) i m = Ok (Some b', j) \<longrightarrow> ei_decode_long b' i = Ok (scast m, j)) \<and>
    (ei_encode_long (Some b) i n = Ok (Some b'', k) \<longrightarrow>
      ei_decode_long_32 b'' i = (if - (2 ^ 31) \<le> sint n \<and> sint n < 2 ^ 31 then Ok (ucast n, k) else Err ()))"
  using long_32_interoperates_parts [OF assms] by blast

theorem long_32_interoperates_witness:
  "ei_decode_long [110, 4, 1, 0, 0, 0, 128] 0 = Ok (- 2147483648, 7) \<and>
   ei_decode_long_32 [110, 4, 0, 0, 0, 0, 128] 0 = Err ()"
proof -
  have a: "ei_encode_long_32 (Some (replicate 7 0)) 0 (- 2147483648) = Ok (Some [110, 4, 1, 0, 0, 0, 128], 7)"
    and b: "ei_encode_long (Some (replicate 7 0)) 0 2147483648 = Ok (Some [110, 4, 0, 0, 0, 0, 128], 7)"
    by code_simp+
  have c: "(scast (- 2147483648 :: 32 word) :: 64 word) = - 2147483648" "\<not> sint (2147483648 :: 64 word) < 2 ^ 31"
    by code_simp+
  show ?thesis
    using long_32_interoperates [of 0 "replicate 7 0" "- 2147483648" "[110, 4, 1, 0, 0, 0, 128]" 7
        2147483648 "[110, 4, 0, 0, 0, 0, 128]" 7] a b c by simp
qed

text \<open>C25: The size pass with a NULL buffer announces exactly what the second pass writes: a buffer of
  that size is enough, and nothing outside the announced range is touched. The pass returns for every
  string whose size is an \<open>int\<close>, \<open>5 + 2 * len + 1\<close> for a long one; for a longer string the sum is undefined.
  The announced index has to be an \<open>int\<close> itself.\<close>

theorem null_pass_announces_size:
  assumes "0 \<le> i"
  shows "(ei_encode_string_len None i p (int (length p)) = Fault \<longleftrightarrow> INT_MAX < int (length (etf_string p)))
    \<and> (\<forall>j (b :: byte list). ei_encode_string_len None i p (int (length p)) = Ok (None, j) \<and> j \<le> INT_MAX \<and> j \<le> int (length b) \<longrightarrow>
      (\<exists>b'. ei_encode_string_len (Some b) i p (int (length p)) = Ok (Some b', j) \<and> length b' = length b \<and>
        take (nat i) b' = take (nat i) b \<and> drop (nat j) b' = drop (nat j) b))"
proof (intro conjI allI impI)
  show "ei_encode_string_len None i p (int (length p)) = Fault \<longleftrightarrow> INT_MAX < int (length (etf_string p))"
    by (simp add: ei_encode_string_len_emit)
next
  fix j and b :: "byte list"
  assume pass: "ei_encode_string_len None i p (int (length p)) = Ok (None, j) \<and> j \<le> INT_MAX \<and> j \<le> int (length b)"
  then have j: "j = i + int (length (etf_string p))" by (auto simp: ei_encode_string_len_emit split: if_splits)
  then have n: "nat j = nat i + length (etf_string p)" using assms by simp
  show "\<exists>b'. ei_encode_string_len (Some b) i p (int (length p)) = Ok (Some b', j) \<and> length b' = length b \<and>
      take (nat i) b' = take (nat i) b \<and> drop (nat j) b' = drop (nat j) b"
    using assms pass [THEN conjunct2, THEN conjunct2] j n by (simp add: ei_encode_string_len_emit emit_fits)
qed

theorem null_pass_announces_size_witness:
  "\<exists>b'. ei_encode_string_len (Some (replicate 9 7)) 1 [104, 105] (int (length [104, 105 :: byte])) = Ok (Some b', 6) \<and>
     take 1 b' = [7] \<and> drop 6 b' = [7, 7, 7]"
proof -
  have "ei_encode_string_len None 1 [104, 105] (int (length [104, 105 :: byte])) = Ok (None, 6)" by code_simp
  moreover have "(6 :: int) \<le> int (length (replicate 9 (7 :: byte)))" by simp
  ultimately obtain b' where "ei_encode_string_len (Some (replicate 9 7)) 1 [104, 105] (int (length [104, 105 :: byte])) = Ok (Some b', 6)"
    "take (nat 1) b' = take (nat 1) (replicate 9 7)" "drop (nat 6) b' = drop (nat 6) (replicate 9 7)"
    using null_pass_announces_size [of 1 "[104, 105]", THEN conjunct2, rule_format, of 6 "replicate 9 7"] by auto
  then show ?thesis by (intro exI [of _ b']) (simp add: numeral_eq_Suc)
qed

section \<open>Atoms\<close>

text \<open>C26: The encoder of UTF-8 atoms accepts exactly the well-formed names of at most 255 characters,
  and such a name comes back with its NUL in a large enough array, the rest of which is as before.\<close>

theorem atom_utf8_roundtrip:
  assumes "0 \<le> i" "0 \<le> n" "nat n \<le> length p"
    "ei_encode_atom_len_as (Some b) i p n ERLANG_UTF8 t = Ok (Some b', j)" "MAXATOMLEN_UTF8 \<le> int (length a)"
  shows "good_name (take (nat n) p) \<and>
    ei_decode_atom_as b' i (Some a) MAXATOMLEN_UTF8 ERLANG_UTF8 =
      Ok ((Some (take (nat n) p @ 0 # drop (Suc (nat n)) a), ERLANG_UTF8,
        if non_ascii (take (nat n) p) then ERLANG_UTF8 else ERLANG_ASCII), j)"
proof -
  let ?cs = "take (nat n) p"
  have e: "good_name ?cs" "emit (Some b) i (etf_atom_utf8 ?cs) = Ok (Some b', j)"
    using assms(4) unfolding ei_encode_atom_utf8_emit [OF assms(2,3)]
    by (auto simp: good_name_def split: option.splits if_splits)
  note w = written [OF assms(1) e(2)]
  have "length ?cs \<le> 1020" using e(1) by (rule good_name_length)
  then show ?thesis
    using e(1) w(2) assms(3,5)
    by (subst ei_decode_atom_as_utf8 [OF w(1)]) (auto simp: room_def stored_name_def min_def)
qed

theorem atom_utf8_roundtrip_witness:
  "ei_decode_atom_as [119, 2, 0xC3, 0xA5] 0 (Some (replicate 1021 0)) 1021 4 =
     Ok ((Some ([0xC3, 0xA5] @ 0 # drop 3 (replicate 1021 0)), 4, 4), 4)"
proof -
  have "ei_encode_atom_len_as (Some (replicate 4 0)) 0 [0xC3, 0xA5] 2 4 4 = Ok (Some [119, 2, 0xC3, 0xA5], 4)" by code_simp
  moreover have "non_ascii [0xC3, 0xA5]" by code_simp
  ultimately show ?thesis
    using atom_utf8_roundtrip [of 0 2 "[0xC3, 0xA5]" "replicate 4 0" 4 "[119, 2, 0xC3, 0xA5]" 4 "replicate 1021 0"]
    by (simp add: numeral_eq_Suc del: replicate.simps)
qed

text \<open>C27: A Latin-1 name is converted to UTF-8 on the wire and comes back as the same characters; a name
  of more than 255 characters is cut to 255.\<close>

theorem atom_latin1_roundtrip:
  assumes "0 \<le> i" "ei_encode_atom (Some b) i p = Ok (Some b', j)" "MAXATOMLEN \<le> int (length a)"
  shows "ei_decode_atom b' i (Some a) =
    Ok (stored_name (Some a) (take (min (strlen p) 255) p), j)"
proof -
  note w = written [OF assms(1) assms(2) [unfolded ei_encode_atom_emit]]
  have "length (take (min (strlen p) 255) p) < 256" by simp
  from ei_decode_atom_latin1 [OF w(1) this, of "Some a"] show ?thesis
    using assms(3) w(2) by (simp add: room_def)
qed

theorem atom_latin1_roundtrip_witness:
  "ei_decode_atom [119, 3, 98, 0xC3, 0xA5] 0 (Some (replicate 256 0)) =
     Ok (stored_name (Some (replicate 256 0)) [98, 0xE5], 5)"
proof -
  have "ei_encode_atom (Some (replicate 5 0)) 0 [98, 0xE5, 0] = Ok (Some [119, 3, 98, 0xC3, 0xA5], 5)"
    "take (min (strlen [98, 0xE5, 0]) 255) [98, 0xE5, 0] = [98, 0xE5 :: byte]" by code_simp+
  with atom_latin1_roundtrip [of 0 "replicate 5 0" "[98, 0xE5, 0]" "[119, 3, 98, 0xC3, 0xA5]" 5 "replicate 256 0"]
  show ?thesis by simp
qed

lemma boolean_double_roundtrip_parts:
  assumes "0 \<le> i"
  shows "ei_encode_boolean (Some b) i v = Ok (Some b', j) \<Longrightarrow> ei_decode_boolean b' i = Ok (of_bool (v \<noteq> 0), j)"
    and "ei_encode_double (Some b) i d = Ok (Some b'', k) \<Longrightarrow> isfinite d \<and> ei_decode_double scan b'' i = Ok (d, k)"
proof -
  show "ei_decode_boolean b' i = Ok (of_bool (v \<noteq> 0), j)" if "ei_encode_boolean (Some b) i v = Ok (Some b', j)"
    using written [OF assms that [unfolded ei_encode_boolean_emit]] by (simp add: ei_decode_boolean_at)
  show "isfinite d \<and> ei_decode_double scan b'' i = Ok (d, k)" if "ei_encode_double (Some b) i d = Ok (Some b'', k)"
  proof -
    have f: "isfinite d" and e: "emit (Some b) i (etf_double d) = Ok (Some b'', k)"
      using that by (auto simp: ei_encode_double_emit split: if_splits)
    show ?thesis
      using f ei_decode_double_at [OF written(1) [OF assms e], of scan] written(2) [OF assms e]
      by (simp add: etf_double_def)
  qed
qed

text \<open>Booleans and finite floats come back; infinities and NaNs are refused by the encoder.\<close>

theorem boolean_double_roundtrip:
  assumes "0 \<le> i"
  shows "(ei_encode_boolean (Some b) i v = Ok (Some b', j) \<longrightarrow> ei_decode_boolean b' i = Ok (of_bool (v \<noteq> 0), j)) \<and>
    (ei_encode_double (Some b) i d = Ok (Some b'', k) \<longrightarrow> isfinite d \<and> ei_decode_double scan b'' i = Ok (d, k))"
  using boolean_double_roundtrip_parts [OF assms] by blast

theorem boolean_double_roundtrip_witness:
  "ei_decode_boolean [119, 4, 116, 114, 117, 101, 0, 0, 0] 0 = Ok (1, 6) \<and>
   ei_decode_double (\<lambda>_ _. None) [70, 0x3F, 0xF8, 0, 0, 0, 0, 0, 0] 0 = Ok (0x3FF8000000000000, 9)"
proof -
  have a: "ei_encode_boolean (Some (replicate 9 0)) 0 7 = Ok (Some [119, 4, 116, 114, 117, 101, 0, 0, 0], 6)"
    and b: "ei_encode_double (Some (replicate 9 0)) 0 0x3FF8000000000000 = Ok (Some [70, 0x3F, 0xF8, 0, 0, 0, 0, 0, 0], 9)"
    by code_simp+
  show ?thesis
    using boolean_double_roundtrip [where i = 0 and b = "replicate 9 0" and v = 7
        and b' = "[119, 4, 116, 114, 117, 101, 0, 0, 0]" and j = 6 and d = "0x3FF8000000000000"
        and b'' = "[70, 0x3F, 0xF8, 0, 0, 0, 0, 0, 0]" and k = 9 and scan = "\<lambda>_ _. None"] a b by simp
qed

lemma atom_encoder_refuses_parts:
  assumes "0 \<le> n" "nat n \<le> length p"
  shows "(\<exists>st. ei_encode_atom_len_as buf i p n ERLANG_UTF8 t = Err st) \<longleftrightarrow> \<not> good_name (take (nat n) p)"
    and "ei_encode_atom_len_as buf i p n ERLANG_UTF8 t = Err st \<Longrightarrow> st = (buf, i)"
    and "n \<ge> MAXATOMLEN \<Longrightarrow> ei_encode_atom_len_as buf i p n ERLANG_LATIN1 t = Err (buf, i) \<and>
      ei_encode_atom_len_as buf i p n ERLANG_ASCII t = Err (buf, i)"
  using assms
  by (auto simp: ei_encode_atom_utf8_emit good_name_def ei_encode_atom_len_as_def [of _ _ _ _ 1]
      ei_encode_atom_len_as_def [of _ _ _ _ 2] split: option.splits if_splits)

text \<open>The encoder of UTF-8 names refuses exactly the names that are not well-formed UTF-8 or too
  long, and then leaves buffer and index alone; Latin-1 and ASCII names of more than 255
  characters are refused as well.\<close>

theorem atom_encoder_refuses:
  assumes "0 \<le> n" "nat n \<le> length p"
  shows "((\<exists>st. ei_encode_atom_len_as buf i p n ERLANG_UTF8 t = Err st) \<longleftrightarrow> \<not> good_name (take (nat n) p)) \<and>
    (\<forall>st. ei_encode_atom_len_as buf i p n ERLANG_UTF8 t = Err st \<longrightarrow> st = (buf, i)) \<and>
    (n \<ge> MAXATOMLEN \<longrightarrow> ei_encode_atom_len_as buf i p n ERLANG_LATIN1 t = Err (buf, i) \<and>
      ei_encode_atom_len_as buf i p n ERLANG_ASCII t = Err (buf, i))"
  using atom_encoder_refuses_parts [OF assms] by blast

theorem atom_encoder_refuses_witness:
  "\<exists>st. ei_encode_atom_len_as (Some [0, 0, 0]) 0 [0xC3] 1 ERLANG_UTF8 4 = Err st"
proof -
  have "\<not> good_name (take (nat 1) [0xC3])" by code_simp
  then show ?thesis using atom_encoder_refuses [of 1 "[0xC3]"] by simp
qed

text \<open>A name that needs no conversion never makes the decoder write outside the array it was
  given, whatever the buffer holds: a name that does not fit is refused.\<close>

theorem atom_decoder_stays_in_array:
  assumes "atom_header buf i = Ok ((n, enc), s)" "want AND enc \<noteq> 0" "at_off buf s cs" "length cs = nat n"
    "destlen \<le> int (length a)" "want \<noteq> ERLANG_ASCII"
  shows "ei_decode_atom_as buf i (Some a) destlen want =
    (if n \<ge> destlen then Err ()
     else Ok ((stored_name (Some a) cs, enc, if non_ascii cs then enc else ERLANG_ASCII), s + n))"
proof -
  have n: "0 \<le> n"
    using assms(1) get8_range
    by (auto simp: atom_header_def bindr_eq_Ok get16be_def split: if_splits)
  have "at_off buf (s + 0) cs" using assms(3) by simp
  note c = copy_atom_wrs [OF this, of "Some a" False]
  have l: "n = int (length cs)" using n assms(4) by simp
  show ?thesis
  proof (cases "n \<ge> destlen")
    case True
    then show ?thesis using assms(2) by (simp add: ei_decode_atom_as_def assms(1))
  next
    case False
    then have "room (Some a) (int (length cs) + 1)" using assms(5) l by (simp add: room_def)
    note p = put_name [OF this, unfolded option.case]
    show ?thesis
      using False assms(2,6) unfolding l by (simp add: ei_decode_atom_as_def assms(1) [unfolded l] c p)
  qed
qed

theorem atom_decoder_stays_in_array_witness:
  "ei_decode_atom_as [119, 3, 97, 98, 99] 0 (Some [0, 0, 0]) 3 ERLANG_UTF8 = Err ()"
proof -
  have "atom_header [119, 3, 97, 98, 99] 0 = Ok ((3, 4), 2)" "at_off [119, 3, 97, 98, 99] 2 [97, 98, 99]" by code_simp+
  from atom_decoder_stays_in_array [OF this(1) _ this(2), of 4 3 "[0, 0, 0]"] show ?thesis by simp
qed

text \<open>The loop of \<open>latin1_to_utf8\<close> looks for room before a character, for one byte of it.\<close>

lemma latin1_to_utf8_loop_last:
  "at_off src k cs \<Longrightarrow> cs \<noteq> [] \<longrightarrow> d + int (length (latin1_utf8 (butlast cs))) < dst_end \<Longrightarrow>
   latin1_to_utf8_loop (Some b) d src k (length cs) dst_end found =
     bindr (wrs b d (latin1_utf8 cs)) (\<lambda>b. Ok (Some b, Some (d + int (length (latin1_utf8 cs)), found \<or> non_ascii cs)))"
proof (induction cs arbitrary: b d k found)
  case (Cons c cs)
  have lt: "d < dst_end" using Cons.prems(2) by simp
  have rest: "cs \<noteq> [] \<longrightarrow> d + (if c AND 128 = 0 then 1 else 2) + int (length (latin1_utf8 (butlast cs))) < dst_end"
    using Cons.prems(2) by (cases cs) auto
  show ?case
    using Cons.prems(1) Cons.IH [of "k + 1"] rest lt
    by (auto simp: rd_def bindr_assoc non_ascii_def wrs.simps algebra_simps intro!: bindr_cong)
qed (simp add: non_ascii_def)

lemma latin1_utf8_snoc: "latin1_utf8 (cs @ [c]) = latin1_utf8 cs @ latin1_utf8 [c]"
  by (induction cs) auto

text \<open>C28: With a conversion from Latin-1 to UTF-8 it does: the check for room in \<open>latin1_to_utf8\<close>
  counts one byte for a character that takes two. An atom in Latin-1 whose last character is not ASCII
  is accepted when the array has as many bytes as its UTF-8 form, and its terminating NUL is then
  stored behind the array; in a longer array it overwrites the byte behind the announced size.\<close>

theorem atom_decoder_overflows:
  assumes "at_off buf i (byte_of ERL_ATOM_EXT # be16 (int (length cs)) @ cs)" "length cs < 65536"
    "cs \<noteq> []" "last cs AND 128 \<noteq> 0" "n = length (latin1_utf8 cs)" "n \<le> length a"
  shows "ei_decode_atom_as buf i (Some a) (int n) ERLANG_UTF8 =
    (if length a = n then Fault
     else Ok ((Some (latin1_utf8 cs @ 0 # drop (Suc n) a), ERLANG_LATIN1, ERLANG_UTF8), i + 3 + int (length cs)))"
proof -
  have h: "atom_header buf i = Ok ((int (length cs), ERLANG_LATIN1), i + 3)" "at_off buf (i + 3) cs"
    using assms(1,2) by (auto simp: atom_header_def get8_def rd_def at_off_append get16be_at add.assoc)
  have "cs = butlast cs @ [last cs]" using assms(3) by simp
  then have u: "length (latin1_utf8 cs) = length (latin1_utf8 (butlast cs)) + 2" "non_ascii cs"
    using assms(3,4) latin1_utf8_snoc [of "butlast cs" "last cs"] last_in_set [of cs] by (auto simp: non_ascii_def)
  have "cs \<noteq> [] \<longrightarrow> 0 + int (length (latin1_utf8 (butlast cs))) < 0 + (int n - 1)" using u(1) assms(5) by simp
  note loop = latin1_to_utf8_loop_last [OF h(2) this, of a False]
  have w: "(wrs a 0 (latin1_utf8 cs) :: (unit, byte list) res) = Ok (latin1_utf8 cs @ drop n a)"
    using assms(5,6) by (subst wrs_Ok) simp_all
  have conv: "(latin1_to_utf8 (Some a) 0 buf (i + 3) (int (length cs)) (int n - 1) :: (unit, _) res)
      = Ok (Some (latin1_utf8 cs @ drop n a), Some (int n, ERLANG_UTF8))"
    using w u(2) by (simp add: latin1_to_utf8_def loop [simplified] assms(5) [symmetric])
  have "ei_decode_atom_as buf i (Some a) (int n) ERLANG_UTF8 =
      bindr (put_nul (Some (latin1_utf8 cs @ drop n a)) (int n)) (\<lambda>p. Ok ((p, ERLANG_LATIN1, ERLANG_UTF8), i + 3 + int (length cs)))"
    by (simp add: ei_decode_atom_as_def h(1) conv)
  also have "\<dots> = (if length a = n then Fault
      else Ok ((Some (latin1_utf8 cs @ 0 # drop (Suc n) a), ERLANG_LATIN1, ERLANG_UTF8), i + 3 + int (length cs)))"
    using assms(5,6)
    by (auto simp: put_nul_def wr_def in_range_def list_update_append Cons_nth_drop_Suc [symmetric])
  finally show ?thesis .
qed

theorem atom_decoder_overflows_witness:
  "ei_decode_atom_as [100, 0, 2, 97, 0xE9] 0 (Some [0, 0, 0]) 3 ERLANG_UTF8 = Fault \<and>
   ei_decode_atom_as [100, 0, 2, 97, 0xE9] 0 (Some [0, 0, 0, 0]) 3 ERLANG_UTF8 =
     Ok ((Some [97, 0xC3, 0xA9, 0], ERLANG_LATIN1, ERLANG_UTF8), 5)"
proof -
  have a: "at_off [100, 0, 2, 97, 0xE9] 0 (byte_of ERL_ATOM_EXT # be16 (int (length [97, 0xE9 :: byte])) @ [97, 0xE9])"
    and l: "last [97, 0xE9 :: byte] AND 128 \<noteq> 0" and u: "latin1_utf8 [97, 0xE9] = [97, 0xC3, 0xA9]"
    by code_simp+
  then have n: "3 = length (latin1_utf8 [97, 0xE9])" by simp
  show ?thesis
    using atom_decoder_overflows [OF a _ _ l n, of "[0, 0, 0]"] atom_decoder_overflows [OF a _ _ l n, of "[0, 0, 0, 0]"]
    by (simp add: u)
qed

section \<open>Strings, binaries, lists of integers\<close>

lemma string_roundtrip_parts:
  assumes "0 \<le> i" "ei_encode_string_len (Some b) i p (int (length p)) = Ok (Some b', j)"
    "int (length p) < 2 ^ 31" "length p < length a"
  shows "ei_decode_string b' i (Some a) = Ok (Some (p @ 0 # drop (Suc (length p)) a), j)"
    and "ei_decode_string b' i None = Ok (None, j)"
proof -
  have e: "emit (Some b) i (etf_string p) = Ok (Some b', j)"
    using assms(2) by (simp add: ei_encode_string_len_emit)
  note w = written [OF assms(1) e]
  show "ei_decode_string b' i (Some a) = Ok (Some (p @ 0 # drop (Suc (length p)) a), j)"
    using assms(4) w(2) by (simp add: ei_decode_string_at [OF w(1) assms(3)] room_def stored_name_def)
  show "ei_decode_string b' i None = Ok (None, j)"
    using w(2) by (simp add: ei_decode_string_at [OF w(1) assms(3)] room_def stored_name_def)
qed

text \<open>C29: A character string comes back with its NUL whatever its length: as nothing, as a string of
  the format, or, beyond 65535 characters, as a list of small integers.\<close>

theorem string_roundtrip:
  assumes "0 \<le> i" "ei_encode_string_len (Some b) i p (int (length p)) = Ok (Some b', j)"
    "int (length p) < 2 ^ 31" "length p < length a"
  shows "ei_decode_string b' i (Some a) = Ok (Some (p @ 0 # drop (Suc (length p)) a), j) \<and>
    ei_decode_string b' i None = Ok (None, j)"
  using string_roundtrip_parts [OF assms] by blast

theorem string_roundtrip_witness:
  "ei_decode_string [107, 0, 2, 104, 105] 0 (Some [7, 7, 7, 7]) = Ok (Some [104, 105, 0, 7], 5)"
proof -
  have "ei_encode_string_len (Some (replicate 5 0)) 0 [104, 105] (int (length [104, 105 :: byte])) =
    Ok (Some [107, 0, 2, 104, 105], 5)" by code_simp
  from string_roundtrip [OF _ this, of "[7, 7, 7, 7]"] show ?thesis by simp
qed

lemma binary_roundtrip_parts:
  assumes "0 \<le> i" "ei_encode_binary (Some b) i p (int (length p)) = Ok (Some b', j)"
    "int (length p) < 2 ^ 31" "length p \<le> length a"
  shows "ei_decode_binary b' i (Some a) = Ok ((Some (p @ drop (length p) a), int (length p)), j)"
    and "ei_decode_binary b' i None = Ok ((None, int (length p)), j)"
proof -
  have e: "emit (Some b) i (etf_binary p) = Ok (Some b', j)"
    using assms(2) by (simp add: ei_encode_binary_emit)
  note w = written [OF assms(1) e]
  show "ei_decode_binary b' i (Some a) = Ok ((Some (p @ drop (length p) a), int (length p)), j)"
    using assms(4) w(2) by (simp add: ei_decode_binary_at [OF w(1) assms(3)] room_def)
  show "ei_decode_binary b' i None = Ok ((None, int (length p)), j)"
    using w(2) by (simp add: ei_decode_binary_at [OF w(1) assms(3)] room_def)
qed

text \<open>C34: A binary comes back with its length; a NULL destination only skips it.\<close>

theorem binary_roundtrip:
  assumes "0 \<le> i" "ei_encode_binary (Some b) i p (int (length p)) = Ok (Some b', j)"
    "int (length p) < 2 ^ 31" "length p \<le> length a"
  shows "ei_decode_binary b' i (Some a) = Ok ((Some (p @ drop (length p) a), int (length p)), j) \<and>
    ei_decode_binary b' i None = Ok ((None, int (length p)), j)"
  using binary_roundtrip_parts [OF assms] by blast

theorem binary_roundtrip_witness:
  "ei_decode_binary [109, 0, 0, 0, 2, 1, 255] 0 (Some [7, 7, 7]) = Ok ((Some [1, 255, 7], 2), 7)"
proof -
  have "ei_encode_binary (Some (replicate 7 0)) 0 [1, 255] (int (length [1, 255 :: byte])) =
    Ok (Some [109, 0, 0, 0, 2, 1, 255], 7)" by code_simp
  from binary_roundtrip [OF _ this, of "[7, 7, 7]"] show ?thesis by simp
qed

lemma intlist_from_list_or_string_parts:
  assumes "length ns \<le> length l" "ns \<noteq> []"
  shows "at_off buf i (etf_list_header (int (length ns)) @ concat (map etf_int ns)) \<Longrightarrow>
      int (length ns) < 2 ^ 31 \<Longrightarrow> \<forall>n \<in> set ns. - (2 ^ 63) \<le> n \<and> n < 2 ^ 63 \<Longrightarrow>
      \<exists>j. ei_decode_intlist buf i (Some l) =
        Ok ((Some (map word_of_int ns @ drop (length ns) l), int (length ns)), j)"
    and "at_off buf i (etf_string (map word_of_int ns)) \<Longrightarrow> length ns \<le> 65535 \<Longrightarrow>
      \<forall>n \<in> set ns. 0 \<le> n \<and> n < 256 \<Longrightarrow>
      \<exists>j. ei_decode_intlist buf i (Some l) =
        Ok ((Some (map word_of_int ns @ drop (length ns) l), int (length ns)), j)"
proof -
  show "\<exists>j. ei_decode_intlist buf i (Some l) = Ok ((Some (map word_of_int ns @ drop (length ns) l), int (length ns)), j)"
    if "at_off buf i (etf_list_header (int (length ns)) @ concat (map etf_int ns))"
      "int (length ns) < 2 ^ 31" "\<forall>n \<in> set ns. - (2 ^ 63) \<le> n \<and> n < 2 ^ 63"
    using ei_decode_intlist_list_at [OF that(1) assms(2) that(2,3) assms(1)] by (simp add: stored_longs_def)
  show "\<exists>j. ei_decode_intlist buf i (Some l) = Ok ((Some (map word_of_int ns @ drop (length ns) l), int (length ns)), j)"
    if "at_off buf i (etf_string (map word_of_int ns))" "length ns \<le> 65535" "\<forall>n \<in> set ns. 0 \<le> n \<and> n < 256"
  proof -
    have "(ucast (word_of_int n :: byte) :: 64 word) = word_of_int n" if "n \<in> set ns" for n
    proof -
      have u: "uint (word_of_int n :: byte) = n"
        using \<open>n \<in> set ns\<close> \<open>\<forall>n \<in> set ns. 0 \<le> n \<and> n < 256\<close> by (simp add: uint_word_of_int take_bit_eq_mod)
      show ?thesis by (subst of_int_uint [symmetric]) (simp only: u)
    qed
    then have "map ucast (map word_of_int ns :: byte list) = (map word_of_int ns :: 64 word list)" by simp
    then show ?thesis
      using ei_decode_intlist_string_at [OF that(1)] assms that(2) by (simp add: stored_longs_def)
  qed
qed

text \<open>C30: \<open>ei_decode_intlist\<close> delivers the same array for a list of integers of the format and for the
  string into which Erlang turns a list of small ones.\<close>

theorem intlist_from_list_or_string:
  assumes "length ns \<le> length l" "ns \<noteq> []" "length ns \<le> 65535"
    "at_off buf i (etf_list_header (int (length ns)) @ concat (map etf_int ns)) \<and>
       (\<forall>n \<in> set ns. - (2 ^ 63) \<le> n \<and> n < 2 ^ 63) \<or>
     at_off buf i (etf_string (map word_of_int ns)) \<and> (\<forall>n \<in> set ns. 0 \<le> n \<and> n < 256)"
  shows "\<exists>j. ei_decode_intlist buf i (Some l) =
    Ok ((Some (map word_of_int ns @ drop (length ns) l), int (length ns)), j)"
  using intlist_from_list_or_string_parts [OF assms(1,2), of buf i] assms(3,4) by auto

theorem intlist_from_list_or_string_witness:
  "\<exists>j. ei_decode_intlist [107, 0, 2, 200, 5] 0 (Some [0, 0, 9]) = Ok ((Some [200, 5, 9], 2), j)"
proof -
  have "at_off [107, 0, 2, 200, 5] 0 (etf_string (map word_of_int [200, 5]))"
    by (simp add: etf_string_def be16_def byte_of_def in_range_def drop_bit_eq_div)
  then show ?thesis
    using intlist_from_list_or_string [of "[200, 5]" "[0, 0, 9]" "[107, 0, 2, 200, 5]" 0] by simp
qed

section \<open>Identifiers\<close>

text \<open>C31: A process identifier with a valid node name comes back with its number cut to 15 and its
  serial to 13 bits, in the old and the new creation format; a NULL destination skips it.\<close>

theorem pid_roundtrip:
  assumes "0 \<le> i" "ei_encode_pid (Some b) i p = Ok (Some b', j)" "length (pid_node q) = 1021"
  shows "ei_decode_pid b' i (Some q) = Ok (Some (pid_stored q p), j) \<and> ei_decode_pid b' i None = Ok (None, j)"
proof -
  have g: "good_name (name_of (pid_node p))" and e: "emit (Some b) i (etf_pid p) = Ok (Some b', j)"
    using assms(2) by (auto simp: ei_encode_pid_emit split: if_splits)
  note w = written [OF assms(1) e]
  show ?thesis using w(2) ei_decode_pid_at [OF w(1) g assms(3)] by simp
qed

definition pid_0 :: erlang_pid where
  "pid_0 = \<lparr>pid_node = replicate 1021 0, pid_num = 0, pid_serial = 0, pid_creation = 0\<rparr>"

theorem pid_roundtrip_witness:
  "ei_decode_pid [103, 119, 1, 97, 0, 0, 0x7F, 0xFF, 0, 0, 0, 1, 2] 0 (Some pid_0) =
     Ok (Some (pid_stored pid_0 \<lparr>pid_node = [97], pid_num = 0xFFFF, pid_serial = 1, pid_creation = 2\<rparr>), 13)"
proof -
  have "ei_encode_pid (Some (replicate 13 0)) 0 \<lparr>pid_node = [97], pid_num = 0xFFFF, pid_serial = 1, pid_creation = 2\<rparr> =
     Ok (Some [103, 119, 1, 97, 0, 0, 0x7F, 0xFF, 0, 0, 0, 1, 2], 13)" by code_simp
  from pid_roundtrip [OF _ this, of pid_0] show ?thesis by (simp add: pid_0_def)
qed

lemma port_ref_roundtrip_parts:
  assumes "0 \<le> i"
  shows "ei_encode_port (Some b) i p = Ok (Some b', j) \<Longrightarrow> length (port_node q) = 1021 \<Longrightarrow>
      ei_decode_port b' i (Some q) = Ok (Some (port_stored q p), j) \<and> ei_decode_port b' i None = Ok (None, j)"
    and "ei_encode_ref (Some b) i r = Ok (Some b', j) \<Longrightarrow> length (ref_node s) = 1021 \<Longrightarrow>
      0 \<le> ref_len r \<Longrightarrow> ref_len r \<le> 3 \<Longrightarrow> length (ref_n r) = 3 \<Longrightarrow> length (ref_n s) = 3 \<Longrightarrow>
      ei_decode_ref b' i (Some s) = Ok (Some (ref_stored s r), j) \<and> ei_decode_ref b' i None = Ok (None, j)"
proof -
  show "ei_decode_port b' i (Some q) = Ok (Some (port_stored q p), j) \<and> ei_decode_port b' i None = Ok (None, j)"
    if "ei_encode_port (Some b) i p = Ok (Some b', j)" "length (port_node q) = 1021"
  proof -
    have g: "good_name (name_of (port_node p))" and e: "emit (Some b) i (etf_port p) = Ok (Some b', j)"
      using that(1) by (auto simp: ei_encode_port_emit split: if_splits)
    note w = written [OF assms(1) e]
    show ?thesis using w(2) ei_decode_port_at [OF w(1) g that(2)] by simp
  qed
  show "ei_decode_ref b' i (Some s) = Ok (Some (ref_stored s r), j) \<and> ei_decode_ref b' i None = Ok (None, j)"
    if "ei_encode_ref (Some b) i r = Ok (Some b', j)" "length (ref_node s) = 1021"
      "0 \<le> ref_len r" "ref_len r \<le> 3" "length (ref_n r) = 3" "length (ref_n s) = 3"
  proof -
    have "nat (ref_len r) \<le> length (ref_n r)" using that(4,5) by simp
    then have g: "good_name (name_of (ref_node r))" and e: "emit (Some b) i (etf_ref r) = Ok (Some b', j)"
      using that(1,3) by (auto simp: ei_encode_ref_emit split: if_splits)
    note w = written [OF assms(1) e]
    show ?thesis using w(2) ei_decode_ref_at [OF w(1) g that(2-)] by simp
  qed
qed

definition ref_0 :: erlang_ref where
  "ref_0 = \<lparr>ref_node = replicate 1021 0, ref_len = 0, ref_n = [0, 0, 0], ref_creation = 0\<rparr>"

text \<open>C32: Ports (28 bits of number) and references of at most three integers come back likewise.\<close>

theorem port_ref_roundtrip:
  assumes "0 \<le> i"
  shows "(ei_encode_port (Some b) i p = Ok (Some b', j) \<and> length (port_node q) = 1021 \<longrightarrow>
      ei_decode_port b' i (Some q) = Ok (Some (port_stored q p), j) \<and> ei_decode_port b' i None = Ok (None, j)) \<and>
    (ei_encode_ref (Some b) i r = Ok (Some b', j) \<and> length (ref_node s) = 1021 \<and>
      0 \<le> ref_len r \<and> ref_len r \<le> 3 \<and> length (ref_n r) = 3 \<and> length (ref_n s) = 3 \<longrightarrow>
      ei_decode_ref b' i (Some s) = Ok (Some (ref_stored s r), j) \<and> ei_decode_ref b' i None = Ok (None, j))"
  using port_ref_roundtrip_parts [OF assms] by metis

theorem port_ref_roundtrip_witness:
  "ei_decode_ref [90, 0, 2, 119, 1, 97, 0, 0, 1, 0, 0, 0, 0, 7, 0, 0, 0, 8] 0 (Some ref_0) =
     Ok (Some (ref_stored ref_0 \<lparr>ref_node = [97], ref_len = 2, ref_n = [7, 8, 9], ref_creation = 256\<rparr>), 18)"
proof -
  have "ei_encode_ref (Some (replicate 18 0)) 0 \<lparr>ref_node = [97], ref_len = 2, ref_n = [7, 8, 9], ref_creation = 256\<rparr> =
     Ok (Some [90, 0, 2, 119, 1, 97, 0, 0, 1, 0, 0, 0, 0, 7, 0, 0, 0, 8], 18)" by code_simp
  with port_ref_roundtrip [of 0 "replicate 18 0" _ "[90, 0, 2, 119, 1, 97, 0, 0, 1, 0, 0, 0, 0, 7, 0, 0, 0, 8]" 18 _
      "\<lparr>ref_node = [97], ref_len = 2, ref_n = [7, 8, 9], ref_creation = 256\<rparr>" ref_0]
  show ?thesis by (simp add: ref_0_def)
qed

text \<open>A reference of more than three integers is not handled: with a destination the decoder stores
  the announced count but stops after three integers, in the middle of the term; with a NULL
  destination it goes to the end.\<close>

theorem long_ref_index_differs:
  assumes "at_off buf i (byte_of ERL_NEW_REFERENCE_EXT # be16 (int (length ns)) @ etf_atom_utf8 cs @ [c]
      @ concat (map (\<lambda>x. be32 (uint x)) (ns :: 32 word list)))"
    "good_name cs" "3 < length ns" "length ns < 65536" "length (ref_node q) = 1021" "length (ref_n q) = 3"
  shows "\<exists>r j. ei_decode_ref buf i (Some q) = Ok (Some r, j) \<and> ref_len r = int (length ns) \<and>
    ei_decode_ref buf i None = Ok (None, j + 4 * (int (length ns) - 3))"
proof -
  define j where "j = i + 3 + int (length (etf_atom_utf8 cs))"
  have t: "(get8 buf i :: (unit, _) res) = Ok (114, i + 1)"
    and n: "(get16be buf (i + 1) :: (unit, _) res) = Ok (int (length ns), i + 3)"
    and a: "at_off buf (i + 3) (etf_atom_utf8 cs)" and c: "(get8 buf j :: (unit, _) res) = Ok (uint c, j + 1)"
    and x: "at_off buf (j + 1) (concat (map (\<lambda>x. be32 (uint x)) ns))"
    using assms(1,4) by (auto simp: at_off_append get8_def rd_def get16be_at add.assoc j_def)
  have "concat (map (\<lambda>x. be32 (uint x)) ns) =
      concat (map (\<lambda>x. be32 (uint x)) (take 3 ns)) @ concat (map (\<lambda>x. be32 (uint x)) (drop 3 ns))"
    by (metis append_take_drop_id concat_append map_append)
  with x have y: "at_off buf (j + 1) (concat (map (\<lambda>x. be32 (uint x)) (take 3 ns)))" by (simp add: at_off_append)
  have l: "length (take 3 ns) = 3" using assms(3) by simp
  have g: "get_ref_ints buf (j + 1) (ref_n q) 0 3 = Ok (take 3 ns, j + 13)"
    using get_ref_ints_at [OF y, of "[]" "ref_n q"] l assms(6) by (simp add: drop_eq_Nil)
  have r: "room (Some (ref_node q)) 1021" "room None 1021" using assms(5) by (simp_all add: room_def)
  note h = get_atom_at [OF a assms(2), folded j_def]
  have m: "min (nat (int (length ns))) 3 = 3" using assms(3) by simp
  have "ei_decode_ref buf i None = Ok (None, j + 1 + 4 * int (length ns))"
    by (simp add: ei_decode_ref_def t n h [OF r(2)])
  moreover have "\<exists>r. ei_decode_ref buf i (Some q) = Ok (Some r, j + 13) \<and> ref_len r = int (length ns)"
    using m by (simp add: ei_decode_ref_def t n h [OF r(1)] get_creation_def c g)
  ultimately show ?thesis by (auto simp: algebra_simps)
qed

theorem long_ref_index_differs_witness:
  "\<exists>r j. ei_decode_ref [114, 0, 4, 119, 1, 97, 0, 0, 0, 0, 1, 0, 0, 0, 2, 0, 0, 0, 3, 0, 0, 0, 4] 0 (Some ref_0) = Ok (Some r, j) \<and>
     ref_len r = 4 \<and>
     ei_decode_ref [114, 0, 4, 119, 1, 97, 0, 0, 0, 0, 1, 0, 0, 0, 2, 0, 0, 0, 3, 0, 0, 0, 4] 0 None = Ok (None, j + 4 * (4 - 3))"
proof -
  have "at_off [114, 0, 4, 119, 1, 97, 0, 0, 0, 0, 1, 0, 0, 0, 2, 0, 0, 0, 3, 0, 0, 0, 4] 0
    (byte_of ERL_NEW_REFERENCE_EXT # be16 (int (length [1, 2, 3, 4 :: 32 word])) @ etf_atom_utf8 [97] @ [0]
      @ concat (map (\<lambda>x. be32 (uint x)) [1, 2, 3, 4 :: 32 word]))" by code_simp
  from long_ref_index_differs [OF this, of ref_0] show ?thesis by (simp add: ref_0_def good_name_def)
qed


definition trace_0 :: "byte list \<Rightarrow> erlang_trace" where
  "trace_0 node = \<lparr>trace_serial = 1, trace_prev = 2, trace_from = \<lparr>pid_node = node, pid_num = 3, pid_serial = 4, pid_creation = 1\<rparr>,
     trace_label = 5, trace_flags = 6\<rparr>"


text \<open>\<open>ei_encode_trace\<close> ignores the failure of the nested \<open>ei_encode_pid\<close>: for every token whose node
  name is malformed the sizing pass succeeds, and the process is missing from the announced size.\<close>

theorem trace_with_bad_node_succeeds:
  assumes "\<not> good_name (name_of (pid_node (trace_from p)))"
  shows "ei_encode_trace None i p = Ok (None, i + int (length (etf_tuple_header 5) + length (etf_int (sint (trace_flags p)))
      + length (etf_int (sint (trace_label p))) + length (etf_int (sint (trace_serial p))) + 1
      + length (etf_int (sint (trace_prev p)))))"
  using assms
  by (simp add: ei_encode_trace_def and_then_def ei_encode_tuple_header_emit ei_encode_long_emit ei_encode_pid_emit)

theorem trace_with_bad_node_succeeds_witness: "\<exists>j. ei_encode_trace None 0 (trace_0 [0xFF]) = Ok (None, j)"
proof -
  have "\<not> good_name (name_of (pid_node (trace_from (trace_0 [0xFF]))))" by code_simp
  from trace_with_bad_node_succeeds [OF this] show ?thesis by simp
qed

section \<open>Big integers\<close>

text \<open>C35: An integer of the format of at most 255 digits is read into a struct allocated for as many
  bytes, and the struct has its value; a struct of another size is refused.\<close>

theorem big_decoded_value:
  assumes "at_off buf i (etf_big n)" "length (le_digits (nat \<bar>n\<bar>)) < 256"
    "ei_alloc_big (True, True) db = Some q"
  shows "if db = word_of_nat (length (le_digits (nat \<bar>n\<bar>)))
    then \<exists>r. ei_decode_big buf i (Some q) = Ok (Some r, i + int (length (etf_big n))) \<and> big_value r = n
    else ei_decode_big buf i (Some q) = Err ()"
proof -
  let ?ds = "le_digits (nat \<bar>n\<bar>)"
  have q: "q = \<lparr>big_digit_bytes = db, big_is_neg = 0, big_digits = replicate (nat (uint ((db + 1) div 2))) 0\<rparr>"
    using assms(3) by (simp add: ei_alloc_big_def Let_def)
  have l: "big_len q \<le> length (big_digits q)" by (simp add: q big_len_def)
  show ?thesis
  proof (cases "db = word_of_nat (length ?ds)")
    case False
    then show ?thesis using ei_decode_big_at(1) [OF assms(1,2) l] by (simp add: q)
  next
    case True
    define r where "r = q\<lparr>big_is_neg := of_bool (n < 0), big_digits := pack ?ds @ drop (big_len q) (big_digits q)\<rparr>"
    have d: "ei_decode_big buf i (Some q) = Ok (Some r, i + int (length (etf_big n)))"
      using ei_decode_big_at(1) [OF assms(1,2) l] True by (simp add: q r_def)
    have "unat (word_of_nat (length ?ds) + 1 :: 32 word) = length ?ds + 1"
      using assms(2) by (simp add: unat_word_ariths unat_of_nat)
    then have bl: "big_len r = (length ?ds + 1) div 2"
      using True by (simp add: r_def q big_len_def unat_div)
    have "take (big_len r) (big_digits r) = pack ?ds"
      using bl by (simp add: r_def length_pack)
    moreover have "big_is_neg r = of_bool (n < 0)" by (simp add: r_def)
    ultimately have "big_value r = n" by (simp add: big_value_def val16_pack Let_def)
    with d True show ?thesis by auto
  qed
qed

theorem big_decoded_value_witness:
  "\<exists>r. ei_decode_big [110, 3, 1, 1, 2, 3] 0 (Some \<lparr>big_digit_bytes = 3, big_is_neg = 0, big_digits = [0, 0]\<rparr>) = Ok (Some r, 6) \<and>
     big_value r = - 197121"
proof -
  have a: "at_off [110, 3, 1, 1, 2, 3] 0 (etf_big (- 197121))" "length (le_digits (nat \<bar>- 197121\<bar>)) = 3"
    "length (etf_big (- 197121)) = 6"
    by (simp_all add: etf_big_def le_digits.simps in_range_def byte_of_def)
  have b: "ei_alloc_big (True, True) 3 = Some \<lparr>big_digit_bytes = 3, big_is_neg = 0, big_digits = [0, 0]\<rparr>" by code_simp
  from big_decoded_value [OF a(1) _ b] a(2,3) show ?thesis by simp
qed

text \<open>C36: \<open>ei_big_comp\<close> compares big integers by their value when they are canonical: no leading zero
  digit, a sign of 0 or 1, and zero not negative.\<close>

theorem big_comp_is_numeric:
  assumes "big_ok x" "big_ok y"
  shows "ei_big_comp x y = Ok (sgn (big_value x - big_value y))"
  using assms by (rule ei_big_comp_sgn)

theorem big_comp_is_numeric_witness:
  "ei_big_comp \<lparr>big_digit_bytes = 3, big_is_neg = 1, big_digits = [0, 1]\<rparr>
     \<lparr>big_digit_bytes = 2, big_is_neg = 1, big_digits = [7]\<rparr> = Ok (- 1)"
proof -
  have "big_ok \<lparr>big_digit_bytes = 3, big_is_neg = 1, big_digits = [0, 1]\<rparr>"
    "big_ok \<lparr>big_digit_bytes = 2, big_is_neg = 1, big_digits = [7]\<rparr>"
    "big_value \<lparr>big_digit_bytes = 3, big_is_neg = 1, big_digits = [0, 1]\<rparr> = - 65536"
    "big_value \<lparr>big_digit_bytes = 2, big_is_neg = 1, big_digits = [7]\<rparr> = - 7"
    by (simp_all add: big_ok_def big_value_def big_len_def)
  from big_comp_is_numeric [OF this(1,2)] this(3,4) show ?thesis by simp
qed

text \<open>\<open>ei_small_to_big\<close> is right for non-negative integers only: for a negative \<open>s\<close> it stores the
  two's complement as the magnitude, that is, the value - (2^32 + s).\<close>

theorem small_to_big_value:
  assumes "big_len b = 2" "2 \<le> length (big_digits b)"
  shows "\<exists>b'. ei_small_to_big s b = Ok b' \<and> big_value b' = (if sint s < 0 then - (2 ^ 32 + sint s) else sint s)"
  using ei_small_to_big_value [OF assms, of s] by blast

theorem small_to_big_value_witness:
  "\<exists>b'. ei_small_to_big (- 1) \<lparr>big_digit_bytes = 4, big_is_neg = 0, big_digits = [0, 0]\<rparr> = Ok b' \<and> big_value b' = - 4294967295"
  using small_to_big_value [of "\<lparr>big_digit_bytes = 4, big_is_neg = 0, big_digits = [0, 0]\<rparr>" "- 1"]
  by (simp add: big_len_def)

section \<open>Skipping and single terms\<close>

text \<open>C37: \<open>ei_skip_term\<close> does not return on every input: a list that holds a binary of negative length
  leads back to itself, so that no recursion depth is enough.\<close>

theorem skip_term_can_recur_forever: "\<forall>d. ei_skip_term d scan [108, 0, 0, 0, 1, 109, 255, 255, 255, 246] 0 = None"
  using skip_term_loops by (simp add: loop_bytes_def)

text \<open>The fuel of the model is only a bound: once \<open>ei_skip_term\<close> has a result, more recursion depth
  gives the same one.\<close>

theorem skip_term_fuel_irrelevant:
  assumes "ei_skip_term d scan buf i = Some r" "d \<le> d'"
  shows "ei_skip_term d' scan buf i = Some r"
  using assms by (rule skip_term_more)

theorem skip_term_fuel_irrelevant_witness: "ei_skip_term 50 (\<lambda>_ _. None) [104, 1, 106] 0 = Some (Ok 3)"
proof -
  have "ei_skip_term 2 (\<lambda>_ _. None) [104, 1, 106] 0 = Some (Ok 3)" by code_simp
  from skip_term_fuel_irrelevant [OF this, of 50] show ?thesis by simp
qed

text \<open>The nested results are ignored: a list with an element of unknown type is reported as
  skipped although the index stays in front of that element.\<close>

theorem skip_term_hides_errors:
  "ei_skip_term 3 scan [255] 0 = Some (Err 0) \<and> ei_skip_term 3 scan [108, 0, 0, 0, 1, 255, 106] 0 = Some (Ok 5)"
proof -
  have t: "ei_get_type_internal [255] 0 = Ok (255, Some 0)"
    "ei_get_type_internal [108, 0, 0, 0, 1, 255, 106] 0 = Ok (108, Some 1)"
    "ei_get_type_internal [108, 0, 0, 0, 1, 255, 106] 5 = Ok (255, Some 0)"
    "ei_decode_list_header [108, 0, 0, 0, 1, 255, 106] 0 True = Ok (Some 1, 5)"
    by code_simp+
  show ?thesis by (simp add: numeral_3_eq_3 skip_step_def t ignoring_def)
qed

lemma ucast_byte_of_64: "0 \<le> n \<Longrightarrow> n < 256 \<Longrightarrow> ucast (byte_of n) = (word_of_int n :: 64 word)"
  by (subst of_int_uint [symmetric]) simp

lemma decode_ei_term_values_parts:
  shows "at_off buf i (etf_int n) \<Longrightarrow> ERL_MIN \<le> n \<Longrightarrow> n \<le> ERL_MAX \<Longrightarrow>
      \<exists>e'. ei_decode_ei_term scan buf i (Some e) = Ok ((1, e'), i + int (length (etf_int n))) \<and>
        term_i_val e' = word_of_int n \<and> term_type e' = etype (EInt n)"
    and "at_off buf i (etf_tuple_header k) \<Longrightarrow> 0 \<le> k \<Longrightarrow> k < 2 ^ 31 \<Longrightarrow>
      \<exists>e'. ei_decode_ei_term scan buf i (Some e) = Ok ((1, e'), i + int (length (etf_tuple_header k))) \<and> term_arity e' = k"
    and "at_off buf i (etf_list_header k) \<Longrightarrow> 0 \<le> k \<Longrightarrow> k < 2 ^ 31 \<Longrightarrow>
      \<exists>e'. ei_decode_ei_term scan buf i (Some e) = Ok ((1, e'), i + int (length (etf_list_header k))) \<and> term_arity e' = k"
    and "at_off buf i (etf_binary bs) \<Longrightarrow> int (length bs) < 2 ^ 31 \<Longrightarrow>
      \<exists>e'. ei_decode_ei_term scan buf i (Some e) = Ok ((0, e'), i) \<and> term_size e' = int (length bs)"
  by (auto simp: ei_decode_ei_term_def etf_int_def etf_tuple_header_def etf_list_header_def etf_binary_def
      get8_def rd_def at_off_append get32be_at signed_take_bit_31_id Let_def ucast_byte_of_64 [of 4, simplified] ucast_byte_of_64 split: if_splits)

definition term_0 :: ei_term where
  "term_0 = \<lparr>term_type = 0, term_arity = 0, term_size = 0, term_i_val = 0, term_d_val = 0,
     term_atom_name = replicate 1021 0, term_pid = pid_0,
     term_port = \<lparr>port_node = replicate 1021 0, port_id = 0, port_creation = 0\<rparr>, term_ref = ref_0\<rparr>"

text \<open>\<open>ei_decode_ei_term\<close> reads integers of the two small forms and the headers of compound terms,
  and moves behind them.\<close>

theorem decode_ei_term_values:
  shows "(at_off buf i (etf_int n) \<and> ERL_MIN \<le> n \<and> n \<le> ERL_MAX \<longrightarrow>
      (\<exists>e'. ei_decode_ei_term scan buf i (Some e) = Ok ((1, e'), i + int (length (etf_int n))) \<and>
        term_i_val e' = word_of_int n \<and> term_type e' = etype (EInt n))) \<and>
    (at_off buf i (etf_tuple_header k) \<and> 0 \<le> k \<and> k < 2 ^ 31 \<longrightarrow>
      (\<exists>e'. ei_decode_ei_term scan buf i (Some e) = Ok ((1, e'), i + int (length (etf_tuple_header k))) \<and> term_arity e' = k)) \<and>
    (at_off buf i (etf_list_header k) \<and> 0 \<le> k \<and> k < 2 ^ 31 \<longrightarrow>
      (\<exists>e'. ei_decode_ei_term scan buf i (Some e) = Ok ((1, e'), i + int (length (etf_list_header k))) \<and> term_arity e' = k)) \<and>
    (at_off buf i (etf_binary bs) \<and> int (length bs) < 2 ^ 31 \<longrightarrow>
      (\<exists>e'. ei_decode_ei_term scan buf i (Some e) = Ok ((0, e'), i) \<and> term_size e' = int (length bs)))"
  using decode_ei_term_values_parts [of buf i _ scan e] by blast

theorem decode_ei_term_values_witness:
  "\<exists>e'. ei_decode_ei_term (\<lambda>_ _. None) [98, 255, 255, 255, 254] 0 (Some term_0) = Ok ((1, e'), 5) \<and> term_i_val e' = - 2"
proof -
  have "at_off [98, 255, 255, 255, 254] 0 (etf_int (- 2))" by code_simp
  moreover have "length (etf_int (- 2)) = 5" by code_simp
  ultimately show ?thesis
    using decode_ei_term_values [of "[98, 255, 255, 255, 254]" 0 "- 2" "\<lambda>_ _. None" term_0] by auto
qed

text \<open>A big integer of four digits is accepted by \<open>ei_decode_ei_term\<close> and reported as decoded,
  but its value is never stored.\<close>

theorem decode_ei_term_drops_big:
  assumes "at_off buf i ([byte_of ERL_SMALL_BIG_EXT, byte_of 4, 0] @ le32 n)" "0 \<le> n" "n < 2 ^ 31"
  shows "\<exists>e'. ei_decode_ei_term scan buf i (Some e) = Ok ((1, e'), i + 7) \<and> term_i_val e' = term_i_val e"
  using assms
  by (auto simp: ei_decode_ei_term_def get8_def rd_def get32le_at signed_take_bit_31_id Let_def add.commute
      ERL_PASS_THROUGH_def)

theorem decode_ei_term_drops_big_witness:
  "\<exists>e'. ei_decode_ei_term (\<lambda>_ _. None) [110, 4, 0, 0, 0, 0, 64] 0 (Some term_0) = Ok ((1, e'), 7) \<and> term_i_val e' = 0"
proof -
  have "at_off [110, 4, 0, 0, 0, 0, 64] 0 ([byte_of ERL_SMALL_BIG_EXT, byte_of 4, 0] @ le32 1073741824)" by code_simp
  from decode_ei_term_drops_big [OF this, of "\<lambda>_ _. None" term_0] show ?thesis by (simp add: term_0_def)
qed

text \<open>Appending one buffer to another, or plain bytes, concatenates the data.\<close>

theorem x_append_concatenates:
  assumes "x_ok x" "x_ok y" "alloc_ok alloc" "ei_x_append alloc x y = Ok z"
  shows "x_ok z \<and> x_data z = x_data x @ x_data y"
proof -
  from assms(2) obtain b where b: "x_buff y = Some b" "int (length b) = x_buffsz y" "0 \<le> x_index y" "x_index y \<le> x_buffsz y"
    by (rule x_okE)
  then have l: "nat (x_index y) \<le> length b" by linarith
  have "ei_x_append_buf alloc x b (x_index y) = Ok z" using assms(4) b(1) by (simp add: ei_x_append_def)
  from ei_x_append_buf_ok [OF assms(1,3) b(3) l this] b(1) show ?thesis by (simp add: x_data_def)
qed

theorem x_append_concatenates_witness:
  "\<exists>z. ei_x_append plain_alloc \<lparr>x_buff = Some (replicate 150 1), x_buffsz = 150, x_index = 2\<rparr>
      \<lparr>x_buff = Some [5, 6], x_buffsz = 2, x_index = 1\<rparr> = Ok z \<and> x_data z = [1, 1, 5]"
proof -
  let ?x = "\<lparr>x_buff = Some (replicate 150 1), x_buffsz = 150, x_index = 2\<rparr>"
  let ?y = "\<lparr>x_buff = Some [5, 6], x_buffsz = 2, x_index = 1\<rparr>"
  have ok: "x_ok ?x" "x_ok ?y" by (simp_all add: x_ok_def)
  have "\<exists>z. ei_x_append plain_alloc ?x ?y = Ok z"
    by (simp add: ei_x_append_def ei_x_append_buf_def x_fix_buff_def memcpy_wrs wrs_Ok)
  then obtain z where z: "ei_x_append plain_alloc ?x ?y = Ok z" by blast
  from x_append_concatenates [OF ok alloc_ok_plain z] z show ?thesis by (simp add: x_data_def numeral_2_eq_2)
qed

end
