(* ===== verification/Asn1_Nif.thy ===== *)
theory Asn1_Nif
  imports Prelude
begin

text \<open>
  The interface between the ASN.1 library (\<^verbatim>\<open>asn1_erl_nif.c\<close>) and the Erlang runtime system.
  The runtime is not part of the C sources, so the functions \<open>enif_*\<close> that the library calls
  are a parameter of every definition that uses them: the record \<open>nif\<close>, over an arbitrary
  type of terms. Its fields return what the C function stores through its pointer arguments,
  \<open>None\<close> when it returns 0 or NULL.

  \<open>nif_env\<close> states what the documentation of \<open>erl_nif\<close> says of them. It is interpreted on
  \<open>erl_env\<close>, the functions on a datatype of Erlang terms.
\<close>

section \<open>The functions of the runtime\<close>

record 't nif =
  enif_make_uint :: "32 word \<Rightarrow> 't"
  enif_make_int :: "int \<Rightarrow> 't"
  enif_make_atom :: "string \<Rightarrow> 't"
  enif_make_badarg :: 't
  enif_make_tuple2 :: "'t \<Rightarrow> 't \<Rightarrow> 't"
  enif_make_binary :: "byte list \<Rightarrow> 't"
  enif_make_empty_list :: 't
  enif_make_list_cell :: "'t \<Rightarrow> 't \<Rightarrow> 't"
  enif_make_reverse_list :: "'t \<Rightarrow> 't option"
  enif_get_tuple :: "'t \<Rightarrow> 't list option"
  enif_is_list :: "'t \<Rightarrow> bool"
  enif_is_empty_list :: "'t \<Rightarrow> bool"
  enif_get_list_cell :: "'t \<Rightarrow> ('t \<times> 't) option"
  enif_get_uint :: "'t \<Rightarrow> 32 word option"
  enif_get_int :: "'t \<Rightarrow> int option"
  enif_inspect_binary :: "'t \<Rightarrow> byte list option"
  enif_inspect_iolist_as_binary :: "'t \<Rightarrow> byte list option"
  enif_alloc :: "int \<Rightarrow> byte list option"
  enif_alloc_binary :: "int \<Rightarrow> byte list option"
  enif_realloc_binary :: "byte list \<Rightarrow> int \<Rightarrow> byte list option"

text \<open>A list that is built from the empty list cell by cell.\<close>

definition nif_list :: "'t nif \<Rightarrow> 't list \<Rightarrow> 't" where
  "nif_list E ts = foldr (enif_make_list_cell E) ts (enif_make_empty_list E)"

lemma nif_list_simps [simp]:
  "nif_list E [] = enif_make_empty_list E"
  "nif_list E (t # ts) = enif_make_list_cell E t (nif_list E ts)"
  by (simp_all add: nif_list_def)

section \<open>What the library relies on\<close>

locale nif_terms =
  fixes E :: "'t nif"
  assumes get_uint_make: "enif_get_uint E (enif_make_uint E w) = Some w"
    and get_tuple_make: "enif_get_tuple E (enif_make_tuple2 E x y) = Some [x, y]"
    and is_list_nif_list: "enif_is_list E (nif_list E ts)"
    and is_list_binary: "\<not> enif_is_list E (enif_make_binary E b)"
    and inspect_binary_make: "enif_inspect_binary E (enif_make_binary E b) = Some b"
    and inspect_iolist_make: "enif_inspect_iolist_as_binary E (enif_make_binary E b) = Some b"
    and reverse_nif_list: "enif_make_reverse_list E (nif_list E ts) = Some (nif_list E (rev ts))"
    and get_cell_empty: "enif_get_list_cell E (enif_make_empty_list E) = None"
    and get_cell_make: "enif_get_list_cell E (enif_make_list_cell E t l) = Some (t, l)"
    and is_empty_list_empty: "enif_is_empty_list E (enif_make_empty_list E)"
begin

lemma reverse_accumulated:
  "enif_make_reverse_list E (foldl (\<lambda>l t. enif_make_list_cell E t l) (enif_make_empty_list E) ts) =
   Some (nif_list E ts)"
proof -
  have "foldl (\<lambda>l t. enif_make_list_cell E t l) (enif_make_empty_list E) ts = nif_list E (rev ts)"
    by (simp add: nif_list_def foldl_conv_foldr)
  then show ?thesis by (simp add: reverse_nif_list)
qed

end

text \<open>Memory from the runtime has the size that was asked for; growing a binary keeps its bytes.\<close>

locale nif_memory =
  fixes E :: "'t nif"
  assumes alloc_length: "enif_alloc E n = Some c \<Longrightarrow> int (length c) = n"
    and alloc_binary_length: "enif_alloc_binary E n = Some c \<Longrightarrow> int (length c) = n"
    and realloc_binary_length: "enif_realloc_binary E b n = Some c \<Longrightarrow> int (length c) = n"
    and realloc_binary_keeps:
      "enif_realloc_binary E b n = Some c \<Longrightarrow> i < length b \<Longrightarrow> i < length c \<Longrightarrow> c ! i = b ! i"

locale nif_env = nif_terms E + nif_memory E for E :: "'t nif"

section \<open>Erlang terms\<close>

datatype erl_term =
    EInt int
  | EAtom string
  | EBinary "byte list"
  | ENil
  | ECons erl_term erl_term
  | ETuple "erl_term list"
  | EBadarg

fun erl_list :: "erl_term \<Rightarrow> erl_term list option" where
  "erl_list ENil = Some []"
| "erl_list (ECons h t) = map_option ((#) h) (erl_list t)"
| "erl_list _ = None"

fun erl_iolist :: "erl_term \<Rightarrow> byte list option" where
  "erl_iolist ENil = Some []"
| "erl_iolist (EBinary b) = Some b"
| "erl_iolist (ECons h t) =
     (case (case h of EInt n \<Rightarrow> if 0 \<le> n \<and> n < 256 then Some [word_of_int n] else None | _ \<Rightarrow> erl_iolist h) of
        None \<Rightarrow> None
      | Some xs \<Rightarrow> map_option ((@) xs) (erl_iolist t))"
| "erl_iolist _ = None"

text \<open>A runtime in which an allocation of \<open>n\<close> bytes succeeds when \<open>avail n\<close>.\<close>

definition erl_block :: "(int \<Rightarrow> bool) \<Rightarrow> int \<Rightarrow> byte list option" where
  "erl_block avail n = (if 0 \<le> n \<and> avail n then Some (replicate (nat n) 0) else None)"

definition erl_env :: "(int \<Rightarrow> bool) \<Rightarrow> erl_term nif" where
  "erl_env avail =
     \<lparr>enif_make_uint = (\<lambda>w. EInt (uint w)), enif_make_int = EInt, enif_make_atom = EAtom,
      enif_make_badarg = EBadarg, enif_make_tuple2 = (\<lambda>a b. ETuple [a, b]), enif_make_binary = EBinary,
      enif_make_empty_list = ENil, enif_make_list_cell = ECons,
      enif_make_reverse_list = (\<lambda>l. map_option (\<lambda>ts. foldr ECons (rev ts) ENil) (erl_list l)),
      enif_get_tuple = (\<lambda>t. case t of ETuple ts \<Rightarrow> Some ts | _ \<Rightarrow> None),
      enif_is_list = (\<lambda>t. case t of ENil \<Rightarrow> True | ECons _ _ \<Rightarrow> True | _ \<Rightarrow> False),
      enif_is_empty_list = (\<lambda>t. t = ENil),
      enif_get_list_cell = (\<lambda>t. case t of ECons h t \<Rightarrow> Some (h, t) | _ \<Rightarrow> None),
      enif_get_uint = (\<lambda>t. case t of EInt n \<Rightarrow> if 0 \<le> n \<and> n < 2 ^ 32 then Some (word_of_int n) else None | _ \<Rightarrow> None),
      enif_get_int = (\<lambda>t. case t of EInt n \<Rightarrow> if - (2 ^ 31) \<le> n \<and> n < 2 ^ 31 then Some n else None | _ \<Rightarrow> None),
      enif_inspect_binary = (\<lambda>t. case t of EBinary b \<Rightarrow> Some b | _ \<Rightarrow> None),
      enif_inspect_iolist_as_binary = erl_iolist,
      enif_alloc = erl_block avail, enif_alloc_binary = erl_block avail,
      enif_realloc_binary = (\<lambda>b n. map_option (\<lambda>c. take (nat n) (b @ c)) (erl_block avail n))\<rparr>"

lemma erl_env_make:
  "enif_make_uint (erl_env avail) w = EInt (uint w)" "enif_make_int (erl_env avail) n = EInt n"
  "enif_make_atom (erl_env avail) a = EAtom a" "enif_make_tuple2 (erl_env avail) t u = ETuple [t, u]"
  "enif_make_binary (erl_env avail) b = EBinary b" "enif_make_empty_list (erl_env avail) = ENil"
  "enif_make_list_cell (erl_env avail) t u = ECons t u"
  by (simp_all add: erl_env_def)

lemma erl_env_list: "nif_list (erl_env avail) ts = foldr ECons ts ENil"
  by (simp add: nif_list_def erl_env_def)

lemma erl_list_foldr: "erl_list (foldr ECons ts ENil) = Some ts"
  by (induction ts) auto

interpretation erl: nif_env "erl_env avail"
proof
  fix w :: "32 word"
  show "enif_get_uint (erl_env avail) (enif_make_uint (erl_env avail) w) = Some w"
    using uint_lt2p [of w] by (simp add: erl_env_def)
  fix ts
  show "enif_is_list (erl_env avail) (nif_list (erl_env avail) ts)"
    unfolding erl_env_list by (cases ts) (auto simp: erl_env_def)
  show "enif_make_reverse_list (erl_env avail) (nif_list (erl_env avail) ts) = Some (nif_list (erl_env avail) (rev ts))"
    unfolding erl_env_list by (simp add: erl_env_def erl_list_foldr)
qed (auto simp: erl_env_def erl_block_def nth_append split: if_splits)

end
