(* ===== verification/Asn1_BerDecode.thy ===== *)
theory Asn1_BerDecode
  imports Asn1_Nif
begin

text \<open>
  The BER decoder of \<^verbatim>\<open>asn1_erl_nif.c\<close>: \<open>ber_decode_begin\<close>, \<open>ber_decode\<close>, \<open>ber_decode_tag\<close> and
  \<open>ber_decode_value\<close>. An error return is \<open>Err (code, ib_index)\<close>: the caller reports the index.

  \<open>ber_decode\<close> and \<open>ber_decode_value\<close> call each other; \<open>ber_decode_value\<close> gets the recursive call
  as the parameter \<open>rec\<close>, and \<open>ber_decode\<close> has fuel that bounds the depth of the recursion and
  the iterations of each loop. \<open>ber_decode_complete\<close> shows that one more than the bytes left in
  the buffer is enough fuel.
\<close>

section \<open>Constants\<close>

abbreviation "ASN1_ERROR \<equiv> (-1 :: int)"
abbreviation "ASN1_TAG_ERROR \<equiv> (-3 :: int)"
abbreviation "ASN1_LEN_ERROR \<equiv> (-4 :: int)"
abbreviation "ASN1_INDEF_LEN_ERROR \<equiv> (-5 :: int)"
abbreviation "ASN1_VALUE_ERROR \<equiv> (-6 :: int)"
abbreviation "ASN1_CLASS \<equiv> (0xC0 :: byte)"
abbreviation "ASN1_FORM \<equiv> (0x20 :: byte)"
abbreviation "ASN1_CLASSFORM \<equiv> (0xE0 :: byte)"
abbreviation "ASN1_LONG_TAG \<equiv> (0x7F :: byte)"
abbreviation "ASN1_INDEFINITE_LENGTH \<equiv> (0x80 :: byte)"
abbreviation "ASN1_PRIMITIVE \<equiv> (0 :: byte)"
abbreviation "ASN1_CONSTRUCTED \<equiv> (0x20 :: byte)"

type_synonym ber_error = "int \<times> int"
type_synonym 'a bres = "(ber_error, 'a \<times> int) res"

section \<open>The decoder\<close>

text \<open>\<open>ber_decode_tag\<close> returns the form, the tag and the index.\<close>

definition ber_decode_tag :: "'t nif \<Rightarrow> byte list \<Rightarrow> int \<Rightarrow> int \<Rightarrow> (byte \<times> 't) bres" where
  "ber_decode_tag E in_buf in_buf_len ib_index =
     bindr (rd in_buf ib_index) (\<lambda>b.
       let tag_no = push_bit 10 (ucast (b AND ASN1_CLASS)) :: 32 word;
           form = b AND ASN1_FORM;
           tmp_tag = b AND (ASN1_CLASSFORM XOR 0xFF)
       in if tmp_tag < 31
          then Ok ((form, enif_make_uint E (tag_no OR ucast tmp_tag)), ib_index + 1)
          else if ib_index + 3 > in_buf_len then Err (ASN1_VALUE_ERROR, ib_index)
          else bindr (rd in_buf (ib_index + 1)) (\<lambda>t.
               let (tag_no, ix) =
                     (if t \<ge> 128 then (tag_no OR push_bit 7 (ucast (t AND ASN1_LONG_TAG)), ib_index + 2)
                      else (tag_no, ib_index + 1))
               in bindr (rd in_buf ix) (\<lambda>t.
                  if t \<ge> 128 then Err (ASN1_TAG_ERROR, ix)
                  else Ok ((form, enif_make_uint E (tag_no OR ucast t)), ix + 1))))"

text \<open>
  The loop over the octets of a long length: \<open>len\<close> is an \<open>unsigned int\<close>; the index moves to the
  octet before it is read.
\<close>

primrec ber_long_length :: "nat \<Rightarrow> byte list \<Rightarrow> int \<Rightarrow> 32 word \<Rightarrow> (32 word) bres" where
  "ber_long_length 0 in_buf ib_index len = Ok (len, ib_index)"
| "ber_long_length (Suc n) in_buf ib_index len =
     (if \<not> len < push_bit 24 1 then Err (ASN1_LEN_ERROR, ib_index + 1)
      else bindr (rd in_buf (ib_index + 1)) (\<lambda>b.
           ber_long_length n in_buf (ib_index + 1) (push_bit 8 len + ucast b)))"

text \<open>The result of \<open>enif_make_reverse_list\<close> is not looked at: a failure leaves \<open>value\<close> unset.\<close>

definition ber_reverse :: "'t nif \<Rightarrow> 't \<Rightarrow> ('e, 't) res" where
  "ber_reverse E l = (case enif_make_reverse_list E l of None \<Rightarrow> Fault | Some v \<Rightarrow> Ok v)"

text \<open>
  The two loops over the elements of a constructed value: up to the end-of-contents octets, and
  up to \<open>end_index\<close>.
\<close>

primrec ber_indefinite ::
  "nat \<Rightarrow> 't nif \<Rightarrow> (int \<Rightarrow> 't bres option) \<Rightarrow> byte list \<Rightarrow> int \<Rightarrow> int \<Rightarrow> 't \<Rightarrow> 't bres option" where
  "ber_indefinite 0 E rec in_buf in_buf_len ib_index curr_head = None"
| "ber_indefinite (Suc k) E rec in_buf in_buf_len ib_index curr_head =
     bindf (Some (rd in_buf ib_index)) (\<lambda>b.
     bindf (Some (if b = 0 then rd in_buf (ib_index + 1) else Ok 1)) (\<lambda>b'.
       if b = 0 \<and> b' = 0
       then bindf (Some (ber_reverse E curr_head)) (\<lambda>v. Some (Ok (v, ib_index + 2)))
       else bindf (rec ib_index) (\<lambda>(term, ib_index).
              if ib_index + 1 \<ge> in_buf_len then Some (Err (ASN1_INDEF_LEN_ERROR, ib_index))
              else ber_indefinite k E rec in_buf in_buf_len ib_index (enif_make_list_cell E term curr_head))))"

primrec ber_definite ::
  "nat \<Rightarrow> 't nif \<Rightarrow> (int \<Rightarrow> 't bres option) \<Rightarrow> int \<Rightarrow> int \<Rightarrow> 't \<Rightarrow> 't bres option" where
  "ber_definite 0 E rec end_index ib_index curr_head = None"
| "ber_definite (Suc k) E rec end_index ib_index curr_head =
     (if ib_index < end_index
      then bindf (rec ib_index) (\<lambda>(term, ib_index).
             ber_definite k E rec end_index ib_index (enif_make_list_cell E term curr_head))
      else bindf (Some (ber_reverse E curr_head)) (\<lambda>v. Some (Ok (v, ib_index))))"

text \<open>
  A comparison or a sum of an \<open>int\<close> and an \<open>unsigned int\<close> is one of \<open>unsigned int\<close>s;
  \<open>as_int\<close> is the conversion back.
\<close>

definition uns :: "int \<Rightarrow> 32 word" where
  "uns i = word_of_int i"

definition as_int :: "32 word \<Rightarrow> int" where
  "as_int w = sint w"

text \<open>The part of \<open>ber_decode_value\<close> behind the length.\<close>

definition ber_decode_contents ::
  "nat \<Rightarrow> 't nif \<Rightarrow> (int \<Rightarrow> 't bres option) \<Rightarrow> byte list \<Rightarrow> int \<Rightarrow> byte \<Rightarrow> int \<Rightarrow> 32 word \<Rightarrow> 't bres option" where
  "ber_decode_contents k E rec in_buf ib_index form in_buf_len len =
     (if len > uns (in_buf_len - (ib_index + 1)) then Some (Err (ASN1_VALUE_ERROR, ib_index))
      else
        let ib_index = ib_index + 1
        in if form = ASN1_CONSTRUCTED
           then let end_index = as_int (uns ib_index + len)
                in if end_index > in_buf_len then Some (Err (ASN1_LEN_ERROR, ib_index))
                   else ber_definite k E rec end_index ib_index (enif_make_empty_list E)
           else if uns ib_index + len > uns in_buf_len then Some (Err (ASN1_LEN_ERROR, ib_index))
           else bindf (Some (rds in_buf ib_index (unat len))) (\<lambda>xs.
                Some (Ok (enif_make_binary E xs, as_int (uns ib_index + len)))))"

definition ber_decode_value ::
  "nat \<Rightarrow> 't nif \<Rightarrow> (int \<Rightarrow> 't bres option) \<Rightarrow> byte list \<Rightarrow> int \<Rightarrow> byte \<Rightarrow> int \<Rightarrow> 't bres option" where
  "ber_decode_value k E rec in_buf ib_index form in_buf_len =
     bindf (Some (rd in_buf ib_index)) (\<lambda>b.
       if b AND 0x80 = 0 then ber_decode_contents k E rec in_buf ib_index form in_buf_len (ucast b)
       else if b = ASN1_INDEFINITE_LENGTH
       then if ib_index + 1 + 1 \<ge> in_buf_len \<or> form = ASN1_PRIMITIVE
            then Some (Err (ASN1_INDEF_LEN_ERROR, ib_index + 1))
            else ber_indefinite k E rec in_buf in_buf_len (ib_index + 1) (enif_make_empty_list E)
       else let lenoflen = ucast (b AND 0x7F) :: 32 word
            in if lenoflen > uns (in_buf_len - (ib_index + 1)) then Some (Err (ASN1_LEN_ERROR, ib_index))
               else bindf (Some (ber_long_length (unat lenoflen) in_buf ib_index 0)) (\<lambda>(len, ib_index).
                    ber_decode_contents k E rec in_buf ib_index form in_buf_len len))"

primrec ber_decode :: "nat \<Rightarrow> 't nif \<Rightarrow> byte list \<Rightarrow> int \<Rightarrow> int \<Rightarrow> 't bres option" where
  "ber_decode 0 E in_buf in_buf_len ib_index = None"
| "ber_decode (Suc k) E in_buf in_buf_len ib_index =
     (if ib_index + 2 > in_buf_len then Some (Err (ASN1_VALUE_ERROR, ib_index))
      else bindf (Some (ber_decode_tag E in_buf in_buf_len ib_index)) (\<lambda>((form, tag), ib_index).
           if ib_index \<ge> in_buf_len then Some (Err (ASN1_TAG_ERROR, ib_index))
           else bindf (ber_decode_value k E (ber_decode k E in_buf in_buf_len) in_buf ib_index form in_buf_len)
                (\<lambda>(value, ib_index). Some (Ok (enif_make_tuple2 E tag value, ib_index)))))"

definition ber_decode_begin :: "nat \<Rightarrow> 't nif \<Rightarrow> byte list \<Rightarrow> int \<Rightarrow> (ber_error, 't) res option" where
  "ber_decode_begin k E in_buf in_buf_len =
     bindf (ber_decode k E in_buf in_buf_len 0) (\<lambda>(decoded_term, ib_index).
     bindf (Some (if in_buf_len < ib_index then Fault else rds in_buf ib_index (nat (in_buf_len - ib_index)))) (\<lambda>rest.
       Some (Ok (enif_make_tuple2 E decoded_term (enif_make_binary E rest)))))"

definition make_ber_error_term :: "'t nif \<Rightarrow> int \<Rightarrow> int \<Rightarrow> 't" where
  "make_ber_error_term E return_code err_pos =
     (let reason = enif_make_atom E
            (if return_code = ASN1_TAG_ERROR then ''invalid_tag''
             else if return_code = ASN1_LEN_ERROR \<or> return_code = ASN1_INDEF_LEN_ERROR then ''invalid_length''
             else if return_code = ASN1_VALUE_ERROR then ''invalid_value''
             else ''unknown'')
      in enif_make_tuple2 E (enif_make_atom E ''error'') (enif_make_tuple2 E reason (enif_make_int E err_pos)))"

definition decode_ber_tlv_raw :: "nat \<Rightarrow> 't nif \<Rightarrow> 't \<Rightarrow> (unit, 't) res option" where
  "decode_ber_tlv_raw k E argv0 =
     (case enif_inspect_iolist_as_binary E argv0 of
        None \<Rightarrow> Some (Ok (enif_make_badarg E))
      | Some data \<Rightarrow>
          map_option (\<lambda>r. case r of
              Fault \<Rightarrow> Fault
            | Err (return_code, err_pos) \<Rightarrow> Ok (make_ber_error_term E return_code err_pos)
            | Ok t \<Rightarrow> Ok t)
            (ber_decode_begin k E data (int (length data))))"

section \<open>Tagged values\<close>

text \<open>
  What the library exchanges with Erlang: a tag (class and number) with the contents octets or
  the list of the components; \<open>tlv_term\<close> is the Erlang term, \<open>tlv_bytes\<close> the definite-length
  encoding with the shortest lengths and tags.
\<close>

datatype tlv = Prim "32 word" "byte list" | Constr "32 word" "tlv list"

fun tlv_term :: "'t nif \<Rightarrow> tlv \<Rightarrow> 't" where
  "tlv_term E (Prim tag v) = enif_make_tuple2 E (enif_make_uint E tag) (enif_make_binary E v)"
| "tlv_term E (Constr tag ts) =
     enif_make_tuple2 E (enif_make_uint E tag) (nif_list E (map (tlv_term E) ts))"

text \<open>A tag of two class bits and a number that fits into two tag octets.\<close>

definition tag_ok :: "32 word \<Rightarrow> bool" where
  "tag_ok tag \<longleftrightarrow> tag < 0x40000 \<and> tag AND 0xFFFF < 0x4000"

fun tlv_ok :: "tlv \<Rightarrow> bool" where
  "tlv_ok (Prim tag _) = tag_ok tag"
| "tlv_ok (Constr tag ts) = (tag_ok tag \<and> list_all tlv_ok ts)"

section \<open>The decoder returns on every input\<close>

text \<open>
  \<open>returns P lo hi m\<close>: the call \<open>m\<close> has enough fuel, stays inside the buffer, and returns an error
  code with an index of the buffer or a value with the property \<open>P\<close> and an index from \<open>lo\<close> on.
\<close>

definition returns :: "('a \<Rightarrow> bool) \<Rightarrow> int \<Rightarrow> int \<Rightarrow> 'a bres option \<Rightarrow> bool" where
  "returns P lo hi m \<longleftrightarrow>
     (case m of
        Some (Ok (v, i)) \<Rightarrow> P v \<and> lo \<le> i \<and> i \<le> hi
      | Some (Err (c, i)) \<Rightarrow> c \<in> {ASN1_VALUE_ERROR..ASN1_TAG_ERROR} \<and> 0 \<le> i \<and> i \<le> hi
      | _ \<Rightarrow> False)"

lemma returns_Ok [simp]: "returns P lo hi (Some (Ok (v, i))) \<longleftrightarrow> P v \<and> lo \<le> i \<and> i \<le> hi"
  by (simp add: returns_def)

lemma returns_Err [simp]:
  "returns P lo hi (Some (Err (c, i))) \<longleftrightarrow> c \<in> {ASN1_VALUE_ERROR..ASN1_TAG_ERROR} \<and> 0 \<le> i \<and> i \<le> hi"
  by (simp add: returns_def)

lemma returns_bindf:
  assumes "returns P lo hi' m" "hi' \<le> hi" "\<And>v i. P v \<Longrightarrow> lo \<le> i \<Longrightarrow> i \<le> hi' \<Longrightarrow> returns Q lo' hi (f (v, i))"
  shows "returns Q lo' hi (bindf m f)"
  using assms by (cases "(m, f)" rule: bindf.cases) (auto simp: returns_def)

lemma returns_weaken:
  "returns P lo hi m \<Longrightarrow> lo' \<le> lo \<Longrightarrow> (\<And>v. P v \<Longrightarrow> Q v) \<Longrightarrow> returns Q lo' hi m"
  by (auto simp: returns_def split: option.splits res.splits)

lemma rd_in_range: "0 \<le> i \<Longrightarrow> i < int (length b) \<Longrightarrow> rd b i = Ok (b ! nat i)"
  by (simp add: rd_def in_range_def)

lemma rds_drop:
  assumes "0 \<le> i" "i + int n \<le> int (length b)"
  shows "rds b i n = Ok (take n (drop (nat i) b))"
proof -
  have n: "length (take n (drop (nat i) b)) = n" using assms by simp
  then have "at_off b i (take n (drop (nat i) b))" using assms by (simp add: at_off_iff)
  from at_off_rds [OF this] n show ?thesis by simp
qed

lemma word_less_2p:
  fixes w :: "'a::len word"
  assumes "\<And>k. n \<le> k \<Longrightarrow> \<not> bit w k" "n < LENGTH('a)"
  shows "w < 2 ^ n"
proof -
  have "take_bit n w = w"
    using assms(1) by (auto intro!: bit_word_eqI simp: bit_simps) (meson not_le)
  then have "unat w < 2 ^ n"
    by (metis take_bit_nat_less_exp unsigned_take_bit_eq)
  moreover have "unat (word_of_nat (2 ^ n) :: 'a word) = 2 ^ n"
    using assms(2) by (simp only: unat_of_nat) (simp add: mod_less)
  ultimately show ?thesis
    by (simp add: word_less_nat_alt)
qed

text \<open>Tags: the class bits and at most fourteen bits of number.\<close>

lemma tag_masks:
  "(0xFFFF :: 32 word) = mask 16" "(0xC0 :: byte) = push_bit 6 (mask 2)" "(0x7F :: byte) = mask 7"
  by (simp_all add: mask_eq_exp_minus_1)

lemma longer_tag_ok:
  fixes b t t' :: byte
  assumes "t' < 128"
  shows "tag_ok (push_bit 10 (ucast (b AND ASN1_CLASS)) OR push_bit 7 (ucast (t AND ASN1_LONG_TAG)) OR ucast t')"
  (is "tag_ok ?w")
proof -
  have "\<not> bit ?w k" if "18 \<le> k" for k
    using that by (auto simp: bit_simps dest: bit_imp_le_length)
  then have "?w < 2 ^ 18" by (rule word_less_2p) simp_all
  moreover have "\<not> bit (?w AND 0xFFFF) k" if "14 \<le> k" for k
    using that unfolding tag_masks by (auto simp: bit_simps dest: bit_imp_le_length)
  then have "?w AND 0xFFFF < 2 ^ 14" by (rule word_less_2p) simp_all
  ultimately show ?thesis by (simp add: tag_ok_def)
qed

lemma long_tag_ok:
  fixes b t :: byte
  assumes "t < 128"
  shows "tag_ok (push_bit 10 (ucast (b AND ASN1_CLASS)) OR ucast t)"
  using longer_tag_ok [OF assms, of b 0] by simp

lemma short_tag_ok:
  fixes b :: byte
  shows "tag_ok (push_bit 10 (ucast (b AND ASN1_CLASS)) OR ucast (b AND (ASN1_CLASSFORM XOR 0xFF)))"
proof (rule long_tag_ok)
  have "b AND (ASN1_CLASSFORM XOR 0xFF) \<le> ASN1_CLASSFORM XOR 0xFF" by (rule word_and_le1)
  also have "\<dots> < 128" by simp
  finally show "b AND (ASN1_CLASSFORM XOR 0xFF) < 128" .
qed

lemma form_cases:
  fixes b :: byte
  shows "b AND ASN1_FORM = ASN1_PRIMITIVE \<or> b AND ASN1_FORM = ASN1_CONSTRUCTED"
  by (cases "bit b 5") (auto intro!: bit_word_eqI simp: bit_simps less_Suc_eq numeral_eq_Suc)

definition is_tag :: "'t nif \<Rightarrow> 't \<Rightarrow> bool" where
  "is_tag E t \<longleftrightarrow> (\<exists>tag. tag_ok tag \<and> t = enif_make_uint E tag)"

lemma is_tagI: "tag_ok tag \<Longrightarrow> is_tag E (enif_make_uint E tag)"
  by (auto simp: is_tag_def)

lemma ber_decode_tag_returns:
  assumes "0 \<le> i" "i + 2 \<le> int (length buf)"
  shows "returns (\<lambda>(form, t). (form = ASN1_PRIMITIVE \<or> form = ASN1_CONSTRUCTED) \<and> is_tag E t)
    (i + 1) (int (length buf)) (Some (ber_decode_tag E buf (int (length buf)) i))"
proof -
  have rd: "rd buf j = (Ok (buf ! nat j) :: (ber_error, byte) res)" if "i \<le> j" "j < int (length buf)" for j
    using assms that by (intro rd_in_range) auto
  show ?thesis
    unfolding ber_decode_tag_def Let_def
    using assms form_cases [of "buf ! nat i"] short_tag_ok [of "buf ! nat i", THEN is_tagI, of E]
    by (auto simp: rd not_le or.assoc intro!: is_tagI long_tag_ok longer_tag_ok)
qed

lemma ber_long_length_returns:
  "0 \<le> i \<Longrightarrow> i + int n < int (length buf) \<Longrightarrow>
   returns (\<lambda>_. True) (i + int n) (int (length buf) - 1) (Some (ber_long_length n buf i len))"
proof (induction n arbitrary: i len)
  case (Suc n)
  have "rd buf (i + 1) = (Ok (buf ! nat (i + 1)) :: (ber_error, byte) res)"
    using Suc.prems by (intro rd_in_range) auto
  with Suc.IH [of "i + 1"] Suc.prems show ?case by (simp add: algebra_simps)
qed simp

text \<open>Sums of an index and a length that fit in an \<open>int\<close> do not wrap around.\<close>

lemma uns_less:
  assumes "0 \<le> i" "i < 2 ^ 31"
  shows "len > uns i \<longleftrightarrow> uint len > i"
  using assms by (simp add: uns_def word_less_def uint_word_of_int)

lemma uns_add:
  assumes "0 \<le> i" "i + uint len < 2 ^ 31"
  shows "uint (uns i + len) = i + uint len" "as_int (uns i + len) = i + uint len"
proof -
  have "i < 2 ^ 31" by (rule le_less_trans [OF _ assms(2)]) simp
  with assms have b: "i < 2 ^ 32" "i + uint len < 2 ^ 32" by simp_all
  then have "uint (uns i) = i"
    using assms unfolding uns_def by (intro word_of_int_inverse [OF refl]) auto
  then show u: "uint (uns i + len) = i + uint len"
    using b by (subst uint_plus_simple) (auto simp: no_olen_add)
  then show "as_int (uns i + len) = i + uint len"
    using assms order_trans [of "- (2 ^ 31)" 0 "i + uint len"] unfolding as_int_def sint_uint
    by (intro trans [OF arg_cong [OF u] signed_take_bit_int_eq_self]) simp_all
qed


context nif_terms
begin

definition is_tlv :: "'t \<Rightarrow> bool" where
  "is_tlv v \<longleftrightarrow> (\<exists>t. tlv_ok t \<and> v = tlv_term E t)"

definition is_tlv_list :: "'t \<Rightarrow> bool" where
  "is_tlv_list v \<longleftrightarrow> (\<exists>ts. list_all tlv_ok ts \<and> v = nif_list E (map (tlv_term E) ts))"

lemma is_tlv_list_empty: "is_tlv_list (enif_make_empty_list E)"
  by (auto simp: is_tlv_list_def intro!: exI [of _ "[]"])

lemma is_tlv_list_cell: "is_tlv v \<Longrightarrow> is_tlv_list l \<Longrightarrow> is_tlv_list (enif_make_list_cell E v l)"
  unfolding is_tlv_def is_tlv_list_def 
proof (elim exE conjE)
  fix t ts assume "tlv_ok t" "v = tlv_term E t" "list_all tlv_ok ts" "l = nif_list E (map (tlv_term E) ts)"
  then show "\<exists>us. list_all tlv_ok us \<and> enif_make_list_cell E v l = nif_list E (map (tlv_term E) us)"
    by (intro exI [of _ "t # ts"]) simp
qed

lemma is_tlv_tuple:
  assumes "is_tag E tag" "form = ASN1_CONSTRUCTED \<and> is_tlv_list v \<or> form = ASN1_PRIMITIVE \<and> (\<exists>xs. v = enif_make_binary E xs)"
  shows "is_tlv (enif_make_tuple2 E tag v)"
proof -
  obtain w where w: "tag_ok w" "tag = enif_make_uint E w" using assms(1) by (auto simp: is_tag_def)
  from assms(2) show ?thesis
  proof (elim disjE conjE exE)
    assume "is_tlv_list v"
    then obtain ts where "list_all tlv_ok ts" "v = nif_list E (map (tlv_term E) ts)"
      by (auto simp: is_tlv_list_def)
    with w show ?thesis unfolding is_tlv_def by (intro exI [of _ "Constr w ts"]) simp
  next
    fix xs assume "v = enif_make_binary E xs"
    with w show ?thesis unfolding is_tlv_def by (intro exI [of _ "Prim w xs"]) simp
  qed
qed

lemma ber_reverse_returns:
  "is_tlv_list l \<Longrightarrow> lo \<le> i \<Longrightarrow> i \<le> hi \<Longrightarrow>
   returns is_tlv_list lo hi (bindf (Some (ber_reverse E l)) (\<lambda>v. Some (Ok (v, i))))"
  unfolding is_tlv_list_def
  by (auto simp: ber_reverse_def reverse_nif_list rev_map [symmetric] intro!: exI [of _ "rev _"])

lemma ber_indefinite_returns:
  assumes "\<And>j. i \<le> j \<Longrightarrow> j \<le> int (length buf) \<Longrightarrow> returns is_tlv (j + 2) (int (length buf)) (rec j)"
    and "is_tlv_list l" "0 \<le> i" "i + 1 < int (length buf)" "int (length buf) - i \<le> int k"
  shows "returns is_tlv_list (i + 2) (int (length buf)) (ber_indefinite k E rec buf (int (length buf)) i l)"
  using assms
proof (induction k arbitrary: i l)
  case (Suc k)
  have rd: "rd buf j = (Ok (buf ! nat j) :: (ber_error, byte) res)" if "i \<le> j" "j < int (length buf)" for j
    using Suc.prems(3) that by (intro rd_in_range) auto
  have step: "returns is_tlv_list (i + 2) (int (length buf)) (bindf (rec i) (\<lambda>(term, j).
      if j + 1 \<ge> int (length buf) then Some (Err (ASN1_INDEF_LEN_ERROR, j))
      else ber_indefinite k E rec buf (int (length buf)) j (enif_make_list_cell E term l)))"
  proof (rule returns_bindf [OF Suc.prems(1) order_refl])
    fix v j assume "is_tlv v" "i + 2 \<le> j" "j \<le> int (length buf)"
    with Suc.prems Suc.IH [of j "enif_make_list_cell E v l"]
    show "returns is_tlv_list (i + 2) (int (length buf)) ((\<lambda>(term, j).
      if j + 1 \<ge> int (length buf) then Some (Err (ASN1_INDEF_LEN_ERROR, j))
      else ber_indefinite k E rec buf (int (length buf)) j (enif_make_list_cell E term l)) (v, j))"
      by (auto simp: is_tlv_list_cell intro: returns_weaken)
  qed (use Suc.prems in auto)
  show ?case
    using Suc.prems step ber_reverse_returns [OF Suc.prems(2)] by (simp add: rd)
qed simp

lemma ber_definite_returns:
  assumes "\<And>j. i \<le> j \<Longrightarrow> j \<le> hi \<Longrightarrow> returns is_tlv (j + 2) hi (rec j)"
    and "is_tlv_list l" "0 \<le> i" "i \<le> hi" "end_index \<le> hi" "hi - i < int k"
  shows "returns is_tlv_list i hi (ber_definite k E rec end_index i l)"
  using assms
proof (induction k arbitrary: i l)
  case (Suc k)
  have step: "returns is_tlv_list i hi (bindf (rec i) (\<lambda>(term, j).
      ber_definite k E rec end_index j (enif_make_list_cell E term l)))"
  proof (rule returns_bindf [OF Suc.prems(1) order_refl])
    fix v j assume "is_tlv v" "i + 2 \<le> j" "j \<le> hi"
    with Suc.prems Suc.IH [of j "enif_make_list_cell E v l"]
    show "returns is_tlv_list i hi ((\<lambda>(term, j).
      ber_definite k E rec end_index j (enif_make_list_cell E term l)) (v, j))"
      by (auto simp: is_tlv_list_cell intro: returns_weaken)
  qed (use Suc.prems in auto)
  then show ?case
    using Suc.prems ber_reverse_returns [OF Suc.prems(2)] by simp
qed simp

lemma ber_decode_contents_returns:
  assumes rec: "\<And>j. i < j \<Longrightarrow> j \<le> int (length buf) \<Longrightarrow> returns is_tlv (j + 2) (int (length buf)) (rec j)"
    and "0 \<le> i" "i < int (length buf)" "int (length buf) - i \<le> int k" "int (length buf) < 2 ^ 31"
    and form: "form = ASN1_PRIMITIVE \<or> form = ASN1_CONSTRUCTED"
  shows "returns (\<lambda>v. form = ASN1_CONSTRUCTED \<and> is_tlv_list v \<or>
        form = ASN1_PRIMITIVE \<and> (\<exists>xs. v = enif_make_binary E xs))
      (i + 1) (int (length buf)) (ber_decode_contents k E rec buf i form (int (length buf)) len)"
proof -
  have l: "0 \<le> uint len" by simp
  have less: "uns (int (length buf) - (i + 1)) < len \<longleftrightarrow> int (length buf) - (i + 1) < uint len"
    using assms(2-5) by (intro uns_less) auto
  show ?thesis
  proof (cases "int (length buf) - (i + 1) < uint len")
    case True
    then show ?thesis using assms(2,3) by (simp add: ber_decode_contents_def less)
  next
    case False
    then have fit: "i + 1 + uint len \<le> int (length buf)" by simp
    then have sum: "uint (uns (i + 1) + len) = i + 1 + uint len" "as_int (uns (i + 1) + len) = i + 1 + uint len"
      using assms(2,5) uns_add [of "i + 1" len] by simp_all
    have "\<not> uns (int (length buf)) < uns (i + 1) + len"
      using uns_less [of "int (length buf)" "uns (i + 1) + len"] sum(1) fit assms(5) by simp
    moreover have "rds buf (i + 1) (unat len) = (Ok (take (unat len) (drop (nat (i + 1)) buf)) :: (ber_error, byte list) res)"
      using fit assms(2) by (intro rds_drop) auto
    moreover have "returns is_tlv_list (i + 1) (int (length buf))
        (ber_definite k E rec (i + 1 + uint len) (i + 1) (enif_make_empty_list E))"
      using assms fit by (intro ber_definite_returns is_tlv_list_empty) auto
    ultimately show ?thesis
      using form fit False assms(2) l
      by (auto simp: ber_decode_contents_def less sum Let_def intro: returns_weaken)
  qed
qed

lemma ber_decode_value_returns:
  assumes rec: "\<And>j. i < j \<Longrightarrow> j \<le> int (length buf) \<Longrightarrow> returns is_tlv (j + 2) (int (length buf)) (rec j)"
    and "0 \<le> i" "i < int (length buf)" "int (length buf) - i \<le> int k" "int (length buf) < 2 ^ 31"
    and form: "form = ASN1_PRIMITIVE \<or> form = ASN1_CONSTRUCTED"
  shows "returns (\<lambda>v. form = ASN1_CONSTRUCTED \<and> is_tlv_list v \<or>
        form = ASN1_PRIMITIVE \<and> (\<exists>xs. v = enif_make_binary E xs))
      (i + 1) (int (length buf)) (ber_decode_value k E rec buf i form (int (length buf)))"
    (is "returns ?P _ _ _")
proof -
  define b where "b = buf ! nat i"
  define n where "n = unat (ucast (b AND 0x7F) :: 32 word)"
  have rd: "rd buf i = (Ok b :: (ber_error, byte) res)"
    using assms(2,3) unfolding b_def by (rule rd_in_range)
  have contents: "returns ?P (i + 1) (int (length buf)) (ber_decode_contents k E rec buf j form (int (length buf)) len)"
    if "i \<le> j" "j < int (length buf)" for j len
    using that assms by (intro returns_weaken [OF ber_decode_contents_returns]) auto
  have indef: "returns ?P (i + 1) (int (length buf))
      (ber_indefinite k E rec buf (int (length buf)) (i + 1) (enif_make_empty_list E))"
    if "i + 2 < int (length buf)" "form \<noteq> ASN1_PRIMITIVE"
    using that assms by (intro returns_weaken [OF ber_indefinite_returns] is_tlv_list_empty) auto
  have long: "returns ?P (i + 1) (int (length buf)) (bindf (Some (ber_long_length n buf i 0))
      (\<lambda>(len, j). ber_decode_contents k E rec buf j form (int (length buf)) len))"
    if "\<not> uns (int (length buf) - (i + 1)) < ucast (b AND 0x7F)"
  proof -
    have "int n \<le> int (length buf) - (i + 1)"
      using that uns_less [of "int (length buf) - (i + 1)" "ucast (b AND 0x7F)"] assms(2,3,5)
      by (simp add: n_def)
    then have "returns (\<lambda>_. True) i (int (length buf) - 1) (Some (ber_long_length n buf i 0))"
      using assms(2) by (intro returns_weaken [OF ber_long_length_returns]) auto
    then show ?thesis
      by (rule returns_bindf) (auto intro: contents)
  qed
  show ?thesis
    using indef long contents [of i] assms(2,3)
    by (auto simp: ber_decode_value_def rd Let_def n_def [symmetric])
qed

lemma ber_decode_complete:
  assumes "int (length buf) < 2 ^ 31" "0 \<le> i" "i \<le> int (length buf)" "int (length buf) - i < int k"
  shows "returns is_tlv (i + 2) (int (length buf)) (ber_decode k E buf (int (length buf)) i)"
  using assms(2-)
proof (induction k arbitrary: i)
  case (Suc k)
  show ?case
  proof (cases "i + 2 \<le> int (length buf)")
    case True
    show ?thesis
      unfolding ber_decode.simps if_not_P [OF leD [OF True]]
    proof (rule returns_bindf [OF ber_decode_tag_returns [OF Suc.prems(1) True] order_refl])
      fix ft j
      assume p: "case ft of (form, t) \<Rightarrow> (form = ASN1_PRIMITIVE \<or> form = ASN1_CONSTRUCTED) \<and> is_tag E t"
        and l: "i + 1 \<le> j" "j \<le> int (length buf)"
      obtain form tag where ft: "ft = (form, tag)" by (cases ft)
      from p have form: "form = ASN1_PRIMITIVE \<or> form = ASN1_CONSTRUCTED" and tag: "is_tag E tag"
        by (auto simp: ft)
      have "returns is_tlv (i + 2) (int (length buf)) (bindf
          (ber_decode_value k E (ber_decode k E buf (int (length buf))) buf j form (int (length buf)))
          (\<lambda>(value, ib_index). Some (Ok (enif_make_tuple2 E tag value, ib_index))))"
        if j: "j < int (length buf)"
      proof (rule returns_bindf [OF ber_decode_value_returns [OF _ _ j _ assms(1) form] order_refl])
        fix v l
        assume "form = ASN1_CONSTRUCTED \<and> is_tlv_list v \<or> form = ASN1_PRIMITIVE \<and> (\<exists>xs. v = enif_make_binary E xs)"
        with tag have "is_tlv (enif_make_tuple2 E tag v)" by (rule is_tlv_tuple)
        moreover assume "j + 1 \<le> l" "l \<le> int (length buf)"
        ultimately show "returns is_tlv (i + 2) (int (length buf))
            ((\<lambda>(value, ib_index). Some (Ok (enif_make_tuple2 E tag value, ib_index))) (v, l))"
          using l by simp
      qed (use l Suc.prems in \<open>auto intro!: Suc.IH\<close>)
      then show "returns is_tlv (i + 2) (int (length buf)) ((\<lambda>((form, tag), ib_index).
          if int (length buf) \<le> ib_index then Some (Err (ASN1_TAG_ERROR, ib_index))
          else bindf (ber_decode_value k E (ber_decode k E buf (int (length buf))) buf ib_index form (int (length buf)))
            (\<lambda>(value, ib_index). Some (Ok (enif_make_tuple2 E tag value, ib_index)))) (ft, j))"
        using l Suc.prems(1) by (simp add: ft)
    qed
  qed (use Suc.prems in simp)
qed simp

end

end
