(* ===== verification/Asn1_BerEncode.thy ===== *)
theory Asn1_BerEncode
  imports Asn1_BerDecode
begin

text \<open>
  The BER encoder of \<^verbatim>\<open>asn1_erl_nif.c\<close>: \<open>ber_encode\<close>, \<open>ber_encode_tag\<close>, \<open>ber_encode_length\<close> and the
  list of memory chunks they fill from the end. The head of the list of chunks is \<open>*curr\<close>, its
  tail is reached through \<open>next\<close>; the empty list is the NULL pointer. \<open>curr\<close> of a chunk is an
  offset from \<open>top\<close>; it is -1 when the chunk is full. Counts and the sizes that are passed on are
  \<open>unsigned int\<close>s and wrap around; the length of a chunk is an \<open>int\<close>, and doubling it beyond its range
  is a fault. The chunks are freed on every path, which has no part in the model.

  \<open>ber_encode\<close> calls itself for the components of a list; the fuel bounds the depth of the
  recursion and the length of the lists, and \<open>size t + 1\<close> is enough for the value \<open>t\<close>.
\<close>

section \<open>Memory chunks\<close>

record mem_chunk =
  chunk_length :: int
  chunk_top :: "byte list"
  chunk_curr :: int

type_synonym chunks = "mem_chunk list"
type_synonym ber_out = "(unit, chunks \<times> nat) res"

abbreviation "sizeof_mem_chunk \<equiv> (32 :: int)"

definition ber_new_chunk :: "'t nif \<Rightarrow> int \<Rightarrow> mem_chunk option" where
  "ber_new_chunk E n =
     (case enif_alloc E sizeof_mem_chunk of
        None \<Rightarrow> None
      | Some _ \<Rightarrow>
          (case enif_alloc E n of
             None \<Rightarrow> None
           | Some mem \<Rightarrow>
               Some \<lparr>chunk_length = (if n < 2 ^ 31 then n else n - 2 ^ 32), chunk_top = mem, chunk_curr = n - 1\<rparr>))"

text \<open>The comparison of the length with \<open>needed\<close> and the sum of the two are unsigned.\<close>

fun ber_check_memory :: "'t nif \<Rightarrow> chunks \<Rightarrow> int \<Rightarrow> (unit, chunks) res" where
  "ber_check_memory E [] needed = Fault"
| "ber_check_memory E (c # cs) needed =
     (let needed = needed mod 2 ^ 32; twice = (chunk_length c mod 2 ^ 32 > needed)
      in if chunk_curr c - needed \<ge> 0 then Ok (c # cs)
         else if twice \<and> (chunk_length c * 2 < - (2 ^ 31) \<or> 2 ^ 31 \<le> chunk_length c * 2) then Fault
         else case ber_new_chunk E ((if twice then chunk_length c * 2 else chunk_length c + needed) mod 2 ^ 32) of
                None \<Rightarrow> Err ()
              | Some new \<Rightarrow> Ok (new # c # cs))"

definition unsigned_int :: "nat \<Rightarrow> nat" where "unsigned_int n = nat (int n mod 2 ^ 32)"

lemma unsigned_int_small [simp]: "n < 4294967296 \<Longrightarrow> unsigned_int n = n"
  by (simp add: unsigned_int_def)

text \<open>\<open>*(*curr)->curr = x; (*curr)->curr -= 1; (*count)++\<close>\<close>

fun ber_put :: "byte \<Rightarrow> chunks \<Rightarrow> nat \<Rightarrow> ber_out" where
  "ber_put x [] count = Fault"
| "ber_put x (c # cs) count =
     bindr (wr (chunk_top c) (chunk_curr c) x) (\<lambda>m.
       Ok (c\<lparr>chunk_top := m, chunk_curr := chunk_curr c - 1\<rparr> # cs, unsigned_int (count + 1)))"

text \<open>\<open>memcpy((*curr)->curr - size + 1, data, size); (*curr)->curr -= size; *count += size\<close>\<close>

fun ber_put_data :: "byte list \<Rightarrow> chunks \<Rightarrow> nat \<Rightarrow> ber_out" where
  "ber_put_data data [] count = Fault"
| "ber_put_data data (c # cs) count =
     bindr (wrs (chunk_top c) (chunk_curr c - int (length data) + 1) data) (\<lambda>m.
       Ok (c\<lparr>chunk_top := m, chunk_curr := chunk_curr c - int (length data)\<rparr> # cs, unsigned_int (count + length data)))"

section \<open>Tags and lengths\<close>

lemma unat_drop_7_less: "w \<noteq> 0 \<Longrightarrow> unat (drop_bit 7 (w :: 'a::len word)) < unat w"
  by (simp only: unat_drop_bit_eq) (simp add: drop_bit_eq_div unat_gt_0)

function ber_tag_octets :: "32 word \<Rightarrow> chunks \<Rightarrow> nat \<Rightarrow> ber_out" where
  "ber_tag_octets class_tag_no cs count =
     (if class_tag_no > 0
      then bindr (ber_put (ucast ((class_tag_no AND 127) OR 0x80)) cs count) (\<lambda>(cs, count).
           ber_tag_octets (drop_bit 7 class_tag_no) cs count)
      else Ok (cs, count))"
  by auto
termination
  by (relation "measure (\<lambda>(w, _). unat w)") (auto simp: word_neq_0_conv intro: unat_drop_7_less)

definition ber_encode_tag :: "'t nif \<Rightarrow> 't \<Rightarrow> 32 word \<Rightarrow> chunks \<Rightarrow> nat \<Rightarrow> ber_out" where
  "ber_encode_tag E tag form cs count =
     (case enif_get_uint E tag of
        None \<Rightarrow> Err ()
      | Some class_tag_no \<Rightarrow>
          let head_tag = form OR drop_bit 10 (class_tag_no AND 0x30000);
              class_tag_no = class_tag_no AND 0xFFFF
          in if class_tag_no \<le> 30 then ber_put (ucast (head_tag OR class_tag_no)) cs count
             else bindr (ber_put (ucast (class_tag_no AND 127)) cs count) (\<lambda>(cs, count).
                  bindr (ber_tag_octets (drop_bit 7 class_tag_no) cs count) (\<lambda>(cs, count).
                  ber_put (ucast (head_tag OR 0x1F)) cs count)))"

fun ber_length_octets :: "nat \<Rightarrow> nat \<Rightarrow> chunks \<Rightarrow> nat \<Rightarrow> (unit, chunks \<times> nat \<times> nat) res" where
  "ber_length_octets n octets cs count =
     (if n > 0
      then bindr (ber_put (word_of_nat (n mod 256)) cs count) (\<lambda>(cs, count).
           ber_length_octets (n div 256) (octets + 1) cs count)
      else Ok (cs, count, octets))"

definition ber_encode_length :: "'t nif \<Rightarrow> nat \<Rightarrow> chunks \<Rightarrow> nat \<Rightarrow> ber_out" where
  "ber_encode_length E n cs count =
     (if n < 128
      then bindr (ber_check_memory E cs 1) (\<lambda>cs. ber_put (word_of_nat n) cs count)
      else bindr (ber_check_memory E cs 8) (\<lambda>cs.
           bindr (ber_length_octets n 0 cs count) (\<lambda>(cs, count, octets).
           ber_put (word_of_nat octets OR 0x80) cs count)))"

section \<open>Values\<close>

definition ber_encode_primitive :: "'t nif \<Rightarrow> 't \<Rightarrow> chunks \<Rightarrow> nat \<Rightarrow> ber_out" where
  "ber_encode_primitive E v cs count =
     (case enif_inspect_binary E v of
        None \<Rightarrow> Err ()
      | Some data \<Rightarrow>
          bindr (ber_check_memory E cs (int (length data))) (\<lambda>cs.
          bindr (ber_put_data data cs count) (\<lambda>(cs, count).
          ber_encode_length E (length data) cs count)))"

primrec ber_encode_elems ::
  "nat \<Rightarrow> 't nif \<Rightarrow> ('t \<Rightarrow> chunks \<Rightarrow> nat \<Rightarrow> ber_out option) \<Rightarrow> 't \<Rightarrow> 't \<Rightarrow> chunks \<Rightarrow> nat \<Rightarrow> ber_out option" where
  "ber_encode_elems 0 E rec head tail cs count = None"
| "ber_encode_elems (Suc k) E rec head tail cs count =
     bindf (rec head cs 0) (\<lambda>(cs, tmp_cnt).
       case enif_get_list_cell E tail of
         None \<Rightarrow> Some (Ok (cs, unsigned_int (count + tmp_cnt)))
       | Some (head, tail) \<Rightarrow> ber_encode_elems k E rec head tail cs (unsigned_int (count + tmp_cnt)))"

definition ber_encode_constructed ::
  "nat \<Rightarrow> 't nif \<Rightarrow> ('t \<Rightarrow> chunks \<Rightarrow> nat \<Rightarrow> ber_out option) \<Rightarrow> 't \<Rightarrow> chunks \<Rightarrow> nat \<Rightarrow> ber_out option" where
  "ber_encode_constructed k E rec v cs count =
     (case enif_make_reverse_list E v of
        None \<Rightarrow> Some (Err ())
      | Some l \<Rightarrow>
          (case enif_get_list_cell E l of
             None \<Rightarrow> if enif_is_empty_list E v then Some (ber_put 0 cs count) else Some (Err ())
           | Some (head, tail) \<Rightarrow>
               bindf (ber_encode_elems k E rec head tail cs count) (\<lambda>(cs, count).
               bindf (Some (ber_check_memory E cs (int count))) (\<lambda>cs.
               Some (ber_encode_length E count cs count)))))"

text \<open>The code reads \<open>tv[1]\<close> without a look at the arity.\<close>

primrec ber_encode :: "nat \<Rightarrow> 't nif \<Rightarrow> 't \<Rightarrow> chunks \<Rightarrow> nat \<Rightarrow> ber_out option" where
  "ber_encode 0 E t cs count = None"
| "ber_encode (Suc k) E t cs count =
     (case enif_get_tuple E t of
        None \<Rightarrow> Some (Err ())
      | Some tv \<Rightarrow>
          if length tv < 2 then Some Fault
          else
            let form = if enif_is_list E (tv ! 1) then 0x20 else 0
            in bindf (if form = 0 then Some (ber_encode_primitive E (tv ! 1) cs count)
                      else ber_encode_constructed k E (ber_encode k E) (tv ! 1) cs count) (\<lambda>(cs, count).
               bindf (Some (ber_check_memory E cs 3)) (\<lambda>cs.
               Some (ber_encode_tag E (tv ! 0) form cs count))))"

text \<open>The chunks are copied one after the other, the last one first.\<close>

fun ber_collect :: "chunks \<Rightarrow> byte list \<Rightarrow> int \<Rightarrow> (unit, byte list) res" where
  "ber_collect [] out pos = Ok out"
| "ber_collect (c # cs) out pos =
     (let n = chunk_length c - chunk_curr c - 1
      in bindr (if n > 0
                then bindr (rds (chunk_top c) (chunk_curr c + 1) (nat n)) (\<lambda>xs. wrs out pos xs)
                else Ok out) (\<lambda>out. ber_collect cs out (pos + n)))"

definition encode_ber_tlv :: "nat \<Rightarrow> 't nif \<Rightarrow> 't \<Rightarrow> (unit, 't) res option" where
  "encode_ber_tlv k E argv0 =
     (let cs = (case ber_new_chunk E 40 of None \<Rightarrow> [] | Some c \<Rightarrow> [c])
      in case ber_encode k E argv0 cs 0 of
           None \<Rightarrow> None
         | Some Fault \<Rightarrow> Some Fault
         | Some (Err _) \<Rightarrow> Some (Ok (enif_make_tuple2 E (enif_make_atom E ''error'') (enif_make_int E ASN1_ERROR)))
         | Some (Ok (cs, n)) \<Rightarrow>
             (case enif_alloc_binary E (int n) of
                None \<Rightarrow> Some (Ok (enif_make_tuple2 E (enif_make_atom E ''error'') (enif_make_atom E ''oom'')))
              | Some out \<Rightarrow> Some (bindr (ber_collect cs out 0) (\<lambda>out. Ok (enif_make_binary E out)))))"

section \<open>The encoding\<close>

text \<open>The octets of a value: shortest tags and lengths, always definite lengths.\<close>

definition tag_bytes :: "32 word \<Rightarrow> 32 word \<Rightarrow> byte list" where
  "tag_bytes form tag =
     (let head_tag = form OR drop_bit 10 (tag AND 0x30000); n = tag AND 0xFFFF
      in if n \<le> 30 then [ucast (head_tag OR n)]
         else if n < 128 then [ucast (head_tag OR 0x1F), ucast n]
         else [ucast (head_tag OR 0x1F), ucast (drop_bit 7 n OR 0x80), ucast (n AND 127)])"

definition length_bytes :: "nat \<Rightarrow> byte list" where
  "length_bytes n =
     (if n < 128 then [word_of_nat n]
      else (word_of_nat (length (le_digits n)) OR 0x80) # rev (le_digits n))"

fun tlv_bytes :: "tlv \<Rightarrow> byte list" where
  "tlv_bytes (Prim tag v) = tag_bytes 0 tag @ length_bytes (length v) @ v"
| "tlv_bytes (Constr tag ts) =
     (let v = concat (map tlv_bytes ts) in tag_bytes 0x20 tag @ length_bytes (length v) @ v)"

section \<open>What the chunks hold\<close>

definition chunk_ok :: "mem_chunk \<Rightarrow> bool" where
  "chunk_ok c \<longleftrightarrow> int (length (chunk_top c)) = chunk_length c \<and> 0 < chunk_length c \<and>
     -1 \<le> chunk_curr c \<and> chunk_curr c < chunk_length c"

definition chunks_ok :: "chunks \<Rightarrow> bool" where
  "chunks_ok cs \<longleftrightarrow> cs \<noteq> [] \<and> list_all chunk_ok cs"

definition chunk_used :: "mem_chunk \<Rightarrow> byte list" where
  "chunk_used c = drop (nat (chunk_curr c + 1)) (chunk_top c)"

definition chunks_out :: "chunks \<Rightarrow> byte list" where
  "chunks_out cs = concat (map chunk_used cs)"

definition chunk_room :: "chunks \<Rightarrow> int" where
  "chunk_room cs = chunk_curr (hd cs) + 1"

text \<open>
  \<open>prepends E bs cs count q m\<close>: the call \<open>m\<close> on the chunks \<open>cs\<close> puts the octets \<open>bs\<close> in front of what
  they hold, counts them and leaves \<open>q\<close> octets of room; it fails only when an allocation fails. That
  is so as long as the chunks do not hold more than \<open>ber_limit\<close> octets, so that no length of a chunk
  exceeds the range of an \<open>int\<close>: a chunk is at most twice as long as the octets so far and the ones
  that are needed.
\<close>

abbreviation ber_limit :: nat where "ber_limit \<equiv> 536870896"

definition within :: "byte list \<Rightarrow> chunks \<Rightarrow> nat \<Rightarrow> bool" where
  "within bs cs count \<longleftrightarrow> count \<le> length (chunks_out cs) \<and> length (chunks_out cs) + length bs \<le> ber_limit"

definition prepends :: "'t nif \<Rightarrow> byte list \<Rightarrow> chunks \<Rightarrow> nat \<Rightarrow> int \<Rightarrow> ber_out option \<Rightarrow> bool" where
  "prepends E bs cs count q m \<longleftrightarrow> within bs cs count \<longrightarrow>
     (case m of
        Some (Ok (cs', count')) \<Rightarrow>
          chunks_ok cs' \<and> chunks_out cs' = bs @ chunks_out cs \<and> count' = count + length bs \<and> q \<le> chunk_room cs'
      | Some (Err _) \<Rightarrow> \<exists>n > 0. enif_alloc E n = None
      | _ \<Rightarrow> False)"

lemma bindf_Some: "bindf (Some m) (\<lambda>a. Some (f a)) = Some (bindr m f)"
  by (cases m) auto

lemma prepends_bindf:
  assumes "prepends E bs cs n q m" "n \<le> count"
    and "\<And>cs'. chunks_ok cs' \<Longrightarrow> q \<le> chunk_room cs' \<Longrightarrow> prepends E bs' cs' (count + length bs) q' (f (cs', n + length bs))"
    and "bs'' = bs' @ bs"
  shows "prepends E bs'' cs count q' (bindf m f)"
proof (cases "within bs'' cs count")
  case True
  then have w: "within bs cs n" using assms(2,4) by (simp add: within_def)
  show ?thesis
  proof (cases "(m, f)" rule: bindf.cases)
    case (4 a f')
    obtain cs' n' where a: "a = (cs', n')" by (cases a)
    with assms(1) 4 w have c: "chunks_ok cs'" "chunks_out cs' = bs @ chunks_out cs" "n' = n + length bs" "q \<le> chunk_room cs'"
      by (auto simp: prepends_def)
    then have "within bs' cs' (count + length bs)" using True assms(4) by (simp add: within_def)
    with assms(3) [of cs'] assms(4) a c 4 show ?thesis
      by (auto simp: prepends_def split: option.splits res.splits)
  qed (use assms(1) w in \<open>auto simp: prepends_def\<close>)
qed (simp add: prepends_def)

lemmas prepends_bindr = prepends_bindf [OF _ order_refl, where m = "Some m" and f = "\<lambda>a. Some (f a)" for m f, unfolded bindf_Some]

lemma prepends_within: "(within bs cs count \<Longrightarrow> prepends E bs cs count q m) \<Longrightarrow> prepends E bs cs count q m"
  by (auto simp: prepends_def)

lemma prepends_weaken: "prepends E bs cs count q m \<Longrightarrow> q' \<le> q \<Longrightarrow> prepends E bs cs count q' m"
  by (auto simp: prepends_def split: option.splits res.splits)

lemma prepends_same: "chunks_out cs = chunks_out ds \<Longrightarrow> prepends E bs cs = prepends E bs ds"
  unfolding prepends_def within_def by (erule ssubst) (rule refl)

lemma ber_put_prepends:
  assumes "chunks_ok cs" "1 \<le> chunk_room cs"
  shows "prepends E [x] cs count (chunk_room cs - 1) (Some (ber_put x cs count))"
proof -
  obtain c ds where cs: "cs = c # ds" using assms(1) by (cases cs) (auto simp: chunks_ok_def)
  have c: "chunk_ok c" "0 \<le> chunk_curr c" using assms by (auto simp: cs chunks_ok_def chunk_room_def)
  define i where "i = nat (chunk_curr c)"
  have i: "chunk_curr c = int i" "i < length (chunk_top c)" using c by (auto simp: i_def chunk_ok_def)
  have "drop i ((chunk_top c)[i := x]) = x # drop (Suc i) (chunk_top c)"
    using i(2) by (simp add: Cons_nth_drop_Suc [symmetric])
  then show ?thesis
    using c i assms(1)
    by (auto simp: cs prepends_def within_def wr_def in_range_def chunks_ok_def chunk_ok_def chunks_out_def chunk_used_def chunk_room_def nat_add_distrib)
qed

lemma ber_put_data_prepends:
  assumes "chunks_ok cs" "int (length bs) \<le> chunk_room cs"
  shows "prepends E bs cs count (chunk_room cs - int (length bs)) (Some (ber_put_data bs cs count))"
proof -
  obtain c ds where cs: "cs = c # ds" using assms(1) by (cases cs) (auto simp: chunks_ok_def)
  define i where "i = nat (chunk_curr c + 1 - int (length bs))"
  have c: "chunk_ok c" using assms by (auto simp: cs chunks_ok_def)
  have i: "chunk_curr c = int i + int (length bs) - 1" "i + length bs \<le> length (chunk_top c)"
    using c assms by (auto simp: i_def chunk_ok_def cs chunk_room_def)
  have w: "wrs (chunk_top c) (int i) bs = (Ok (take i (chunk_top c) @ bs @ drop (i + length bs) (chunk_top c)) :: (unit, byte list) res)"
    using i(2) by (subst wrs_Ok) auto
  show ?thesis
    using c i assms(1)
    by (auto simp: cs prepends_def within_def w chunks_ok_def chunk_ok_def chunks_out_def chunk_used_def chunk_room_def nat_int_add)
qed

context nif_memory
begin

lemma ber_new_chunk_cases:
  assumes "0 < n" "n < 2 ^ 31"
  obtains m where "0 < m" "enif_alloc E m = None" "ber_new_chunk E n = None"
  | c where "ber_new_chunk E n = Some c" "chunk_ok c" "chunk_used c = []" "chunk_curr c = n - 1"
proof (cases "enif_alloc E sizeof_mem_chunk")
  case None
  then show ?thesis using that(1) [of sizeof_mem_chunk] by (simp add: ber_new_chunk_def)
next
  case (Some h)
  show ?thesis
  proof (cases "enif_alloc E n")
    case None
    with Some show ?thesis using that(1) [of n] assms by (simp add: ber_new_chunk_def)
  next
    case (Some m)
    with \<open>enif_alloc E sizeof_mem_chunk = Some h\<close> alloc_length [OF Some] show ?thesis
      using that(2) assms by (auto simp: ber_new_chunk_def chunk_ok_def chunk_used_def Let_def)
  qed
qed

lemma ber_check_memory_prepends:
  assumes "chunks_ok cs" "0 \<le> needed"
    and small: "within bs cs count \<Longrightarrow> needed \<le> 8 + int (length (chunks_out cs)) + int (length bs)"
    and "\<And>cs'. chunks_ok cs' \<Longrightarrow> chunks_out cs' = chunks_out cs \<Longrightarrow> needed + 1 \<le> chunk_room cs' \<Longrightarrow>
      prepends E bs cs' count q (f cs')"
  shows "prepends E bs cs count q (bindf (Some (ber_check_memory E cs needed)) f)"
proof (cases "within bs cs count")
  case w: True
  obtain c ds where cs: "cs = c # ds" using assms(1) by (cases cs) (auto simp: chunks_ok_def)
  have c: "chunk_ok c" using assms(1) by (simp add: cs chunks_ok_def)
  have k: "needed \<le> 8 + int (length (chunks_out cs)) + int (length bs)" by (rule small [OF w])
  have o: "int (length (chunks_out cs)) + int (length bs) \<le> 536870896" using w by (simp add: within_def)
  show ?thesis
  proof (cases "chunk_curr c - needed \<ge> 0")
    case True
    have "needed mod 2 ^ 32 = needed" using assms(2) k o by simp
    with True show ?thesis using assms(4) [of cs] assms(1) by (simp add: cs chunk_room_def Let_def)
  next
    case False
    define n where "n = (if chunk_length c > needed then chunk_length c * 2 else chunk_length c + needed)"
    have "int (length (chunk_used c)) = chunk_length c - chunk_curr c - 1"
      using c by (auto simp: chunk_ok_def chunk_used_def)
    moreover have "length (chunk_used c) \<le> length (chunks_out cs)" by (simp add: cs chunks_out_def)
    ultimately have l: "0 < chunk_length c" "chunk_length c \<le> needed + int (length (chunks_out cs))"
      using False c by (auto simp: chunk_ok_def)
    have n: "0 < n" "needed < n" "n < 2 ^ 31" using l assms(2) k o by (auto simp: n_def)
    have m: "needed mod 2 ^ 32 = needed" "chunk_length c mod 2 ^ 32 = chunk_length c" "n mod 2 ^ 32 = n"
      using assms(2) l k o n by simp_all
    have r: "ber_check_memory E cs needed = (case ber_new_chunk E n of None \<Rightarrow> Err () | Some new \<Rightarrow> Ok (new # cs))"
      using False n(3) l(1) unfolding cs ber_check_memory.simps Let_def m(1,2)
      by (auto simp: n_def [symmetric] m(3)) (auto simp: n_def)
    show ?thesis
    proof (rule ber_new_chunk_cases [OF n(1,3)])
      fix m :: int assume "0 < m" "enif_alloc E m = None" "ber_new_chunk E n = None"
      with False show ?thesis by (auto simp: r prepends_def)
    next
      fix d assume d: "ber_new_chunk E n = Some d" "chunk_ok d" "chunk_used d = []" "chunk_curr d = n - 1"
      have "prepends E bs (d # cs) count q (f (d # cs))"
        using d n assms(1) by (intro assms(4)) (auto simp: chunks_ok_def chunks_out_def chunk_room_def)
      moreover have "chunks_out (d # cs) = chunks_out cs" using d(3) by (simp add: chunks_out_def)
      ultimately show ?thesis using d(1) False prepends_same [of "d # cs" cs E bs] by (simp add: r)
    qed
  qed
qed (simp add: prepends_def)

lemmas ber_check_memory_prepends' =
  ber_check_memory_prepends [where f = "\<lambda>cs. Some (f cs)" for f, unfolded bindf_Some]

end

section \<open>Tags and lengths are written\<close>

lemma word_below_128:
  assumes "(w :: 32 word) < 128"
  shows "w AND 127 = w" "drop_bit 7 w = 0"
proof -
  have u: "unat w < 2 ^ 7" using assms by (simp add: word_less_nat_alt)
  have m: "(127 :: 32 word) = mask 7" by (simp add: mask_eq_exp_minus_1)
  show "w AND 127 = w"
    unfolding m take_bit_eq_mask [symmetric] using u
    by (intro word_unat_eq_iff [THEN iffD2]) (simp add: unsigned_take_bit_eq take_bit_nat_eq_self)
  have "unat (drop_bit 7 w) = 0"
    using u by (simp only: unat_drop_bit_eq) (simp add: drop_bit_eq_div)
  then show "drop_bit 7 w = 0" by (simp only: unat_eq_zero)
qed

declare ber_tag_octets.simps [simp del] ber_length_octets.simps [simp del]

lemma ber_tag_octets_0 [simp]: "ber_tag_octets 0 = (\<lambda>cs count. Ok (cs, count))"
  by (simp add: fun_eq_iff ber_tag_octets.simps [of 0])

lemma ber_tag_octets_prepends:
  assumes "n < 0x4000" "chunks_ok cs" "1 \<le> chunk_room cs"
  shows "prepends E (if n < 128 then [] else [ucast (drop_bit 7 n OR 0x80)]) cs count (chunk_room cs - 1)
    (Some (ber_tag_octets (drop_bit 7 n) cs count))"
proof (cases "n < 128")
  case True
  then show ?thesis
    using assms by (subst ber_tag_octets.simps) (simp add: word_below_128 prepends_def)
next
  case False
  have "unat (drop_bit 7 n) = unat n div 128"
    by (simp only: unat_drop_bit_eq) (simp add: drop_bit_eq_div)
  moreover have "unat n < 16384" "128 \<le> unat n"
    using assms(1) False by (simp_all add: word_less_nat_alt not_less word_le_nat_alt)
  ultimately have d: "drop_bit 7 n < 128" "drop_bit 7 n > 0"
    by (simp_all add: word_less_nat_alt)
  have "prepends E [ucast (drop_bit 7 n OR 0x80)] cs count (chunk_room cs - 1)
      (Some (bindr (ber_put (ucast (drop_bit 7 n OR 0x80)) cs count) (\<lambda>(cs, count). Ok (cs, count))))"
    by (rule prepends_bindr [OF ber_put_prepends [OF assms(2,3)], where bs' = "[]"]) (auto simp: prepends_def)
  then show ?thesis
    using False d word_below_128 [OF d(1)]
    by (subst ber_tag_octets.simps) simp
qed

lemma ber_length_octets_prepends:
  assumes "chunks_ok cs" "int (length (le_digits n)) \<le> chunk_room cs"
    and "\<And>cs'. chunks_ok cs' \<Longrightarrow> chunk_room cs - int (length (le_digits n)) \<le> chunk_room cs' \<Longrightarrow>
      prepends E bs cs' (count + length (le_digits n)) q
        (Some (f (cs', count + length (le_digits n), octets + length (le_digits n))))"
  shows "prepends E (bs @ rev (le_digits n)) cs count q (Some (bindr (ber_length_octets n octets cs count) f))"
  using assms
proof (induction n arbitrary: octets cs count rule: le_digits.induct)
  case (1 n)
  show ?case
  proof (cases "n = 0")
    case True
    with "1.prems" show ?thesis by (simp add: ber_length_octets.simps)
  next
    case False
    let ?m = "n div 256"
    have d: "le_digits n = word_of_nat (n mod 256) # le_digits ?m"
      using False by (subst le_digits.simps) simp
    then have l: "length (le_digits n) = Suc (length (le_digits ?m))" by simp
    have "prepends E ((bs @ rev (le_digits ?m)) @ [word_of_nat (n mod 256)]) cs count q
      (Some (bindr (ber_put (word_of_nat (n mod 256)) cs count)
        (\<lambda>a. bindr (case a of (cs, count) \<Rightarrow> ber_length_octets ?m (octets + 1) cs count) f)))"
    proof (rule prepends_bindr [OF ber_put_prepends])
      fix cs' assume c: "chunks_ok cs'" "chunk_room cs - 1 \<le> chunk_room cs'"
      show "prepends E (bs @ rev (le_digits ?m)) cs' (count + length [word_of_nat (n mod 256) :: byte]) q
        (Some (bindr (case (cs', count + length [word_of_nat (n mod 256) :: byte]) of
           (cs, count) \<Rightarrow> ber_length_octets ?m (octets + 1) cs count) f))"
        using "1.IH" [OF False c(1), of "count + 1" "octets + 1"] "1.prems" c l by simp
    qed (use "1.prems" l in auto)
    then show ?thesis
      using False d by (simp add: bindr_assoc ber_length_octets.simps [of n])
  qed
qed

context nif_memory
begin

lemma ber_encode_length_prepends:
  assumes "chunks_ok cs" "n < 256 ^ 8"
  shows "prepends E (length_bytes n) cs count 0 (Some (ber_encode_length E n cs count))"
proof (cases "n < 128")
  case True
  then show ?thesis
    unfolding ber_encode_length_def length_bytes_def
    using assms by (simp, intro ber_check_memory_prepends' prepends_weaken [OF ber_put_prepends]) auto
next
  case False
  have l: "length (le_digits n) \<le> 8" using assms(2) by (rule length_le_digits)
  have "prepends E ([word_of_nat (length (le_digits n)) OR 0x80] @ rev (le_digits n)) cs count 0
     (Some (bindr (ber_check_memory E cs 8) (\<lambda>cs.
       bindr (ber_length_octets n 0 cs count) (\<lambda>(cs, count, octets). ber_put (word_of_nat octets OR 0x80) cs count))))"
    using assms(1) l
    by (intro ber_check_memory_prepends' ber_length_octets_prepends) (auto intro: prepends_weaken [OF ber_put_prepends])
  with False show ?thesis by (simp add: ber_encode_length_def length_bytes_def)
qed

end

section \<open>Values are written\<close>

lemma tlv_bytes_nonempty: "2 \<le> length (tlv_bytes t)"
  by (cases t) (auto simp: tag_bytes_def length_bytes_def Let_def)

lemma length_le_size_list: "length xs \<le> size_list f xs"
  by (induction xs) auto

lemma length_le_concat: "x \<in> set xs \<Longrightarrow> length (f x) \<le> length (concat (map f xs))"
  by (induction xs) auto

context nif_env
begin

lemma ber_encode_tag_prepends:
  assumes "tag_ok tag" "chunks_ok cs" "4 \<le> chunk_room cs"
  shows "prepends E (tag_bytes form tag) cs count 1 (Some (ber_encode_tag E (enif_make_uint E tag) form cs count))"
proof -
  define h where "h = form OR drop_bit 10 (tag AND 0x30000)"
  define n where "n = tag AND 0xFFFF"
  have n: "n < 0x4000" using assms(1) by (simp add: tag_ok_def n_def)
  have put: "prepends E [x] cs' c q (Some (ber_put x cs' c))" if "chunks_ok cs'" "q + 1 \<le> chunk_room cs'" "0 \<le> q" for x cs' c q
    using that by (intro prepends_weaken [OF ber_put_prepends]) auto
  show ?thesis
  proof (cases "n \<le> 30")
    case True
    then show ?thesis
      using put [OF assms(2), of 1 "ucast (h OR n)" count] assms(3)
      by (simp add: ber_encode_tag_def tag_bytes_def get_uint_make Let_def h_def n_def)
  next
    case False
    let ?mid = "if n < 128 then [] else [ucast (drop_bit 7 n OR 0x80) :: byte]"
    have "prepends E (([ucast (h OR 0x1F)] @ ?mid) @ [ucast (n AND 127)]) cs count 1
      (Some (bindr (ber_put (ucast (n AND 127)) cs count) (\<lambda>(cs, count).
         bindr (ber_tag_octets (drop_bit 7 n) cs count) (\<lambda>(cs, count). ber_put (ucast (h OR 0x1F)) cs count))))"
    proof (rule prepends_bindr [OF put [OF assms(2), of 3] _ refl])
      fix cs' assume c: "chunks_ok cs'" "3 \<le> chunk_room cs'"
      have "prepends E ([ucast (h OR 0x1F)] @ ?mid) cs' (count + 1) 1
        (Some (bindr (ber_tag_octets (drop_bit 7 n) cs' (count + 1)) (\<lambda>(cs, count). ber_put (ucast (h OR 0x1F)) cs count)))"
        using c by (intro prepends_bindr [OF ber_tag_octets_prepends [OF n] _ refl]) (auto intro: put)
      then show "prepends E ([ucast (h OR 0x1F)] @ ?mid) cs' (count + length [ucast (n AND 127) :: byte]) 1
        (Some (case (cs', count + length [ucast (n AND 127) :: byte]) of (cs, count) \<Rightarrow>
          bindr (ber_tag_octets (drop_bit 7 n) cs count) (\<lambda>(cs, count). ber_put (ucast (h OR 0x1F)) cs count)))"
        by simp
    qed (use assms(3) in auto)
    with False show ?thesis
      using word_below_128 [of n]
      by (auto simp: ber_encode_tag_def tag_bytes_def get_uint_make Let_def h_def n_def)
  qed
qed

lemma ber_encode_elems_prepends:
  assumes "\<And>u cs. u \<in> set (t # ts) \<Longrightarrow> chunks_ok cs \<Longrightarrow> 1 \<le> chunk_room cs \<Longrightarrow>
      prepends E (tlv_bytes u) cs 0 1 (rec (tlv_term E u) cs 0)"
    and "length ts < k" "chunks_ok cs" "1 \<le> chunk_room cs"
  shows "prepends E (concat (map tlv_bytes (rev (t # ts)))) cs count 1
    (ber_encode_elems k E rec (tlv_term E t) (nif_list E (map (tlv_term E) ts)) cs count)"
  using assms
proof (induction k arbitrary: t ts cs count)
  case (Suc k)
  show ?case
    unfolding ber_encode_elems.simps
  proof (rule prepends_bindf [OF Suc.prems(1)])
    fix cs' assume c: "chunks_ok cs'" "1 \<le> chunk_room cs'"
    have p: "prepends E (concat (map tlv_bytes (rev ts))) cs' (count + length (tlv_bytes t)) 1
      (case enif_get_list_cell E (nif_list E (map (tlv_term E) ts)) of
          None \<Rightarrow> Some (Ok (cs', count + length (tlv_bytes t)))
        | Some (head, tail) \<Rightarrow> ber_encode_elems k E rec head tail cs' (count + length (tlv_bytes t)))"
    proof (cases ts)
      case Nil
      with c show ?thesis by (simp add: get_cell_empty prepends_def)
    next
      case (Cons u us)
      then show ?thesis
        using Suc.IH [of u us cs' "count + length (tlv_bytes t)"] Suc.prems c by (simp add: get_cell_make)
    qed
    have u: "unsigned_int (count + length (tlv_bytes t)) = count + length (tlv_bytes t)"
      if "within (concat (map tlv_bytes (rev ts))) cs' (count + length (tlv_bytes t))"
      using that by (simp add: within_def)
    show "prepends E (concat (map tlv_bytes (rev ts))) cs' (count + length (tlv_bytes t)) 1
      (case (cs', 0 + length (tlv_bytes t)) of (cs, tmp_cnt) \<Rightarrow>
        case enif_get_list_cell E (nif_list E (map (tlv_term E) ts)) of
          None \<Rightarrow> Some (Ok (cs, unsigned_int (count + tmp_cnt)))
        | Some (head, tail) \<Rightarrow> ber_encode_elems k E rec head tail cs (unsigned_int (count + tmp_cnt)))"
      unfolding prod.case add_0 by (rule prepends_within) (simp only: u p)
  qed (use Suc.prems in auto)
qed simp

lemma ber_encode_constructed_prepends:
  assumes "\<And>u cs. u \<in> set ts \<Longrightarrow> chunks_ok cs \<Longrightarrow> 1 \<le> chunk_room cs \<Longrightarrow>
      prepends E (tlv_bytes u) cs 0 1 (rec (tlv_term E u) cs 0)"
    and "length ts \<le> k" "chunks_ok cs" "1 \<le> chunk_room cs"
    and v: "v = concat (map tlv_bytes ts)" "length v < 256 ^ 8"
  shows "prepends E (length_bytes (length v) @ v) cs 0 0
    (ber_encode_constructed k E rec (nif_list E (map (tlv_term E) ts)) cs 0)"
proof (cases "rev ts")
  case Nil
  then show ?thesis
    using assms(3,4) v reverse_nif_list [of "[]"]
    by (auto simp: ber_encode_constructed_def get_cell_empty is_empty_list_empty
        length_bytes_def intro!: prepends_weaken [OF ber_put_prepends])
next
  case (Cons u us)
  then have ts: "ts = rev (u # us)" by (metis rev_rev_ident)
  have l: "prepends E v cs 0 1 (ber_encode_elems k E rec (tlv_term E u) (nif_list E (map (tlv_term E) us)) cs 0)"
    unfolding v(1) ts using assms(1-4) by (intro ber_encode_elems_prepends) (auto simp: ts)
  have "prepends E (length_bytes (length v) @ v) cs 0 0
    (bindf (ber_encode_elems k E rec (tlv_term E u) (nif_list E (map (tlv_term E) us)) cs 0) (\<lambda>(cs, count).
       bindf (Some (ber_check_memory E cs (int count))) (\<lambda>cs. Some (ber_encode_length E count cs count))))"
    using v(2) by (intro prepends_bindf [OF l order_refl _ refl])
      (auto simp: within_def simp del: bindf.simps intro!: ber_check_memory_prepends ber_encode_length_prepends)
  moreover have "enif_make_reverse_list E (nif_list E (map (tlv_term E) ts)) =
      Some (enif_make_list_cell E (tlv_term E u) (nif_list E (map (tlv_term E) us)))"
    by (simp add: reverse_nif_list rev_map Cons)
  ultimately show ?thesis
    by (simp add: ber_encode_constructed_def get_cell_make)
qed

lemma ber_encode_with_tag:
  assumes "prepends E bs cs 0 0 m" "tag_ok tag"
  shows "prepends E (tag_bytes form tag @ bs) cs 0 1 (bindf m (\<lambda>(cs, count).
    bindf (Some (ber_check_memory E cs 3)) (\<lambda>cs. Some (ber_encode_tag E (enif_make_uint E tag) form cs count))))"
  using assms(2)
  by (intro prepends_bindf [OF assms(1) order_refl _ refl])
    (auto simp del: bindf.simps intro!: ber_check_memory_prepends ber_encode_tag_prepends)

lemma ber_encode_prepends:
  "tlv_ok t \<Longrightarrow> size t < k \<Longrightarrow> length (tlv_bytes t) < 256 ^ 8 \<Longrightarrow> chunks_ok cs \<Longrightarrow> 1 \<le> chunk_room cs \<Longrightarrow>
   prepends E (tlv_bytes t) cs 0 1 (ber_encode k E (tlv_term E t) cs 0)"
proof (induction t arbitrary: k cs)
  case (Prim tag v)
  then obtain k' where k: "k = Suc k'" by (cases k) auto
  have "prepends E (length_bytes (length v) @ v) cs 0 0 (Some (ber_encode_primitive E (enif_make_binary E v) cs 0))"
    using Prim.prems unfolding ber_encode_primitive_def inspect_binary_make option.case
    by (intro ber_check_memory_prepends' prepends_bindr [OF ber_put_data_prepends])
      (auto intro: ber_encode_length_prepends)
  with Prim.prems show ?case
    using ber_encode_with_tag [of "length_bytes (length v) @ v" cs _ tag 0]
    by (simp add: k get_tuple_make is_list_binary)
next
  case (Constr tag ts)
  then obtain k' where k: "k = Suc k'" by (cases k) auto
  let ?v = "concat (map tlv_bytes ts)"
  have "prepends E (length_bytes (length ?v) @ ?v) cs 0 0
      (ber_encode_constructed k' E (ber_encode k' E) (nif_list E (map (tlv_term E) ts)) cs 0)"
  proof (rule ber_encode_constructed_prepends [OF _ _ Constr.prems(4,5) refl])
    have l: "length ?v < 256 ^ 8" using Constr.prems(3) by (simp add: Let_def)
    then show "length ?v < 256 ^ 8" .
    have "length ts \<le> size_list size ts" by (rule length_le_size_list)
    then show "length ts \<le> k'" using Constr.prems(2) by (simp add: k)
    fix u cs assume u: "u \<in> set ts" and c: "chunks_ok cs" "1 \<le> chunk_room cs"
    have "size u \<le> size_list size ts" using u by (rule size_list_estimation') simp
    moreover have "length (tlv_bytes u) \<le> length ?v" using u by (rule length_le_concat)
    ultimately show "prepends E (tlv_bytes u) cs 0 1 (ber_encode k' E (tlv_term E u) cs 0)"
      using Constr.prems(1,2) l u c by (intro Constr.IH) (auto simp: k list_all_iff)
  qed
  with Constr.prems show ?case
    using ber_encode_with_tag [of "length_bytes (length ?v) @ ?v" cs _ tag "0x20"] is_list_nif_list
    by (simp add: k get_tuple_make Let_def)
qed

end

section \<open>The result of the library function\<close>

lemma ber_collect_out:
  assumes "list_all chunk_ok cs" "0 \<le> pos" "pos + int (length (chunks_out cs)) \<le> int (length out)"
  shows "ber_collect cs out pos =
    Ok (take (nat pos) out @ chunks_out cs @ drop (nat pos + length (chunks_out cs)) out)"
  using assms
proof (induction cs arbitrary: out pos)
  case (Cons c cs)
  define n where "n = chunk_length c - chunk_curr c - 1"
  have c: "chunk_ok c" using Cons.prems(1) by simp
  then have n: "n = int (length (chunk_used c))" by (auto simp: n_def chunk_ok_def chunk_used_def)
  have "rds (chunk_top c) (chunk_curr c + 1) (nat n) = (Ok (chunk_used c) :: (unit, byte list) res)"
    using c n by (subst rds_drop) (auto simp: chunk_ok_def n_def chunk_used_def)
  moreover have "wrs out pos (chunk_used c) =
      (Ok (take (nat pos) out @ chunk_used c @ drop (nat pos + length (chunk_used c)) out) :: (unit, byte list) res)"
    using Cons.prems by (intro wrs_Ok) (auto simp: chunks_out_def)
  moreover have "chunk_used c = []" if "\<not> n > 0" using that n by simp
  ultimately have "ber_collect (c # cs) out pos =
      ber_collect cs (take (nat pos) out @ chunk_used c @ drop (nat pos + length (chunk_used c)) out) (pos + n)"
    by (auto simp: n_def [symmetric])
  also have "\<dots> = Ok (take (nat pos) out @ chunks_out (c # cs) @ drop (nat pos + length (chunks_out (c # cs))) out)"
  proof -
    obtain p where p: "pos = int p" using Cons.prems(2) by (cases pos) auto
    have o: "chunks_out (c # cs) = chunk_used c @ chunks_out cs" by (simp add: chunks_out_def)
    have l: "p + length (chunk_used c) + length (chunks_out cs) \<le> length out"
      using Cons.prems(3) by (simp add: o p)
    have "nat (int p + n) = p + length (chunk_used c)" using n by simp
    with l Cons.prems(1) show ?thesis
      by (subst Cons.IH) (auto simp: o p n ac_simps)
  qed
  finally show ?case .
qed (simp add: chunks_out_def)

context nif_env
begin

lemma encode_ber_tlv_bytes:
  assumes "tlv_ok t" "size t < k" "length (tlv_bytes t) \<le> ber_limit"
    and "\<And>n. 0 < n \<Longrightarrow> enif_alloc E n \<noteq> None" "\<And>n. 0 < n \<Longrightarrow> enif_alloc_binary E n \<noteq> None"
  shows "encode_ber_tlv k E (tlv_term E t) = Some (Ok (enif_make_binary E (tlv_bytes t)))"
proof -
  obtain c where c: "ber_new_chunk E 40 = Some c" "chunk_ok c" "chunk_used c = []" "chunk_curr c = 39"
    by (rule ber_new_chunk_cases [of 40]) (use assms(4) in auto)
  have w: "within (tlv_bytes t) [c] 0" using assms(3) c(3) by (simp add: within_def chunks_out_def)
  have "prepends E (tlv_bytes t) [c] 0 1 (ber_encode k E (tlv_term E t) [c] 0)"
    using assms(1-3) c by (intro ber_encode_prepends) (auto simp: chunks_ok_def chunk_room_def)
  then obtain cs where cs: "ber_encode k E (tlv_term E t) [c] 0 = Some (Ok (cs, length (tlv_bytes t)))"
      "chunks_ok cs" "chunks_out cs = tlv_bytes t"
    using assms(4) c(3) w unfolding prepends_def chunks_out_def
    by (auto simp del: not_None_eq split: option.splits res.splits)
  obtain out where out: "enif_alloc_binary E (int (length (tlv_bytes t))) = Some out"
    using assms(5) [of "int (length (tlv_bytes t))"] tlv_bytes_nonempty [of t] by (cases "tlv_bytes t") auto
  have "ber_collect cs out 0 = Ok (tlv_bytes t)"
    using cs alloc_binary_length [OF out] by (subst ber_collect_out) (auto simp: chunks_ok_def)
  with c cs out show ?thesis by (simp add: encode_ber_tlv_def)
qed

text \<open>Whatever the allocator does after the first chunk, the encoder stays inside its chunks.\<close>

lemma encode_ber_tlv_cases:
  assumes "tlv_ok t" "size t < k" "length (tlv_bytes t) \<le> ber_limit" "ber_new_chunk E 40 \<noteq> None"
  shows "encode_ber_tlv k E (tlv_term E t) \<in> {
    Some (Ok (enif_make_binary E (tlv_bytes t))),
    Some (Ok (enif_make_tuple2 E (enif_make_atom E ''error'') (enif_make_int E ASN1_ERROR))),
    Some (Ok (enif_make_tuple2 E (enif_make_atom E ''error'') (enif_make_atom E ''oom'')))}"
proof -
  obtain c where c: "ber_new_chunk E 40 = Some c" "chunk_ok c" "chunk_used c = []" "chunk_curr c = 39"
    by (rule ber_new_chunk_cases [of 40]) (use assms(4) in auto)
  have p: "prepends E (tlv_bytes t) [c] 0 1 (ber_encode k E (tlv_term E t) [c] 0)"
    using assms(1-3) c by (intro ber_encode_prepends) (auto simp: chunks_ok_def chunk_room_def)
  have w: "within (tlv_bytes t) [c] 0" using assms(3) c(3) by (simp add: within_def chunks_out_def)
  show ?thesis
  proof (cases "\<exists>u. ber_encode k E (tlv_term E t) [c] 0 = Some (Err u)")
    case True
    then show ?thesis using c by (auto simp: encode_ber_tlv_def)
  next
    case False
    with p obtain cs where cs: "ber_encode k E (tlv_term E t) [c] 0 = Some (Ok (cs, length (tlv_bytes t)))"
        "chunks_ok cs" "chunks_out cs = tlv_bytes t"
      using c(3) w unfolding prepends_def chunks_out_def by (auto split: option.splits res.splits)
    show ?thesis
    proof (cases "enif_alloc_binary E (int (length (tlv_bytes t)))")
      case (Some out)
      then have "ber_collect cs out 0 = Ok (tlv_bytes t)"
        using cs alloc_binary_length [OF Some] by (subst ber_collect_out) (auto simp: chunks_ok_def)
      with c cs Some show ?thesis by (simp add: encode_ber_tlv_def)
    qed (use c cs in \<open>simp add: encode_ber_tlv_def\<close>)
  qed
qed

end

end
