(* ===== verification/Asn1_Ber.thy ===== *)
theory Asn1_Ber
  imports Asn1_BerEncode
begin

text \<open>
  The BER decoder on the output of the encoder: \<open>ber_decode_bytes\<close> reads back every value from its
  octets, wherever they stand in a buffer. With \<open>encode_ber_tlv_bytes\<close> this gives the round trip
  through the two library functions.
\<close>

section \<open>Tags\<close>

lemma word_2p_less:
  fixes w :: "'a::len word"
  assumes "w < 2 ^ n" "n \<le> k" "n < LENGTH('a)"
  shows "\<not> bit w k"
proof -
  have "unat w < 2 ^ n"
    using assms(1,3) unat_of_nat [of "2 ^ n", where 'a = 'a]
    by (simp add: word_less_nat_alt)
  then have "take_bit n (unat w) = unat w" by (simp add: take_bit_nat_eq_self)
  then have "bit (unat w) k \<Longrightarrow> k < n" by (metis bit_take_bit_iff)
  moreover have "bit (unat w) k = bit w k" by (simp add: bit_simps)
  ultimately show ?thesis using assms(2) by auto
qed

lemmas bit_expand = bit_and_iff bit_or_iff bit_push_bit_iff bit_mask_iff bit_drop_bit_eq bit_unsigned_iff comp_apply
  possible_bit_word

lemma head_masks:
  "(0x30000 :: 32 word) = push_bit 16 (mask 2)" "(0x20 :: byte) = push_bit 5 (mask 1)" "(0x1F :: byte) = mask 5"
  by (simp_all add: mask_eq_exp_minus_1)

lemma head_octet:
  fixes m tag f :: "32 word"
  assumes "f = 0 \<or> f = 0x20" "m < 32"
  defines "b \<equiv> ucast ((f OR drop_bit 10 (tag AND 0x30000)) OR m) :: byte"
  shows "b AND 0x20 = ucast f" "b AND 0x1F = ucast m" "push_bit 10 (ucast (b AND 0xC0)) = tag AND 0x30000"
proof -
  have m: "bit m k \<Longrightarrow> k < 5" for k using word_2p_less [of m 5 k] assms(2) by (cases "k < 5") auto
  obtain c where c: "f = push_bit 5 (mask c)" "c \<le> 1"
  proof (cases "f = 0")
    case True then show ?thesis using that [of 0] by simp
  next
    case False then show ?thesis using that [of 1] assms(1) by (simp add: mask_eq_exp_minus_1)
  qed
  show "b AND 0x20 = ucast f" "b AND 0x1F = ucast m" "push_bit 10 (ucast (b AND 0xC0)) = tag AND 0x30000"
    unfolding b_def c(1) tag_masks head_masks bit_eq_iff bit_expand using c(2) 
    by (auto dest: m)
qed
lemma class_and_number:
  fixes tag :: "32 word"
  assumes "tag < 0x40000"
  shows "(tag AND 0x30000) OR (tag AND 0xFFFF) = tag"
proof -
  have b: "bit tag k \<Longrightarrow> k < 18" for k using word_2p_less [of tag 18 k] assms by (cases "k < 18") auto
  show ?thesis
    unfolding tag_masks head_masks bit_eq_iff bit_expand by (auto dest: b)
qed

lemma ucast_ucast_small:
  assumes "(m :: 32 word) < 256"
  shows "ucast (ucast m :: byte) = m"
proof -
  have "bit m k \<Longrightarrow> k < 8" for k using word_2p_less [of m 8 k] assms by (cases "k < 8") auto
  then show ?thesis unfolding bit_eq_iff bit_expand by auto
qed

lemma two_octet_number:
  fixes n :: "32 word"
  assumes "n < 0x4000"
  shows "push_bit 7 (ucast ((ucast (drop_bit 7 n OR 0x80) :: byte) AND 0x7F)) OR ucast (ucast (n AND 127) :: byte) = n"
proof -
  have b: "bit n k \<Longrightarrow> k < 14" for k using word_2p_less [of n 14 k] assms by (cases "k < 14") auto
  have m: "(127 :: 32 word) = mask 7" "(0x80 :: 32 word) = push_bit 7 (mask 1)" by (simp_all add: mask_eq_exp_minus_1)
  show ?thesis
    unfolding m tag_masks bit_eq_iff bit_expand by (auto dest: b)
qed

lemma high_bit_ge: "(128 :: byte) \<le> ucast (w OR 0x80 :: 32 word)"
proof -
  have "bit (ucast (w OR push_bit 7 1) :: byte) 7" unfolding bit_expand by simp
  then have "\<not> (ucast (w OR push_bit 7 1) :: byte) < 2 ^ 7"
    using word_2p_less [of "ucast (w OR push_bit 7 1) :: byte" 7 7] by auto
  then show ?thesis by (simp add: not_less)
qed

lemma low_bits_less: "(ucast (w AND 127 :: 32 word) :: byte) < 128"
proof -
  have m: "(127 :: 32 word) = mask 7" by (simp add: mask_eq_exp_minus_1)
  have "(ucast (w AND mask 7) :: byte) < 2 ^ 7" by (rule word_less_2p) (simp_all only: bit_expand, auto)
  then show ?thesis unfolding m by simp
qed

lemma ber_decode_tag_at:
  fixes form tag :: "32 word"
  assumes form: "form = 0 \<or> form = 0x20" and tag: "tag_ok tag"
    and "at_off buf i (tag_bytes form tag)" "i + int (length (tag_bytes form tag)) < int (length buf)"
  shows "ber_decode_tag E buf (int (length buf)) i =
    Ok ((ucast form, enif_make_uint E tag), i + int (length (tag_bytes form tag)))"
proof -
  define h where "h = form OR drop_bit 10 (tag AND 0x30000)"
  define n where "n = tag AND 0xFFFF"
  have t: "tag < 0x40000" and n: "n < 0x4000" using tag by (simp_all add: tag_ok_def n_def)
  have cls: "(tag AND 0x30000) OR n = tag" unfolding n_def by (rule class_and_number [OF t])
  have x: "ASN1_CLASSFORM XOR 0xFF = 0x1F" by simp
  show ?thesis
  proof (cases "n \<le> 30")
    case True
    then have m: "n < 32" "n < 256" "n < 31" by (auto intro: le_less_trans)
    have "tag_bytes form tag = [ucast (h OR n)]"
      using True by (simp add: tag_bytes_def h_def n_def Let_def)
    moreover have "(ucast n :: byte) < 31"
      using m(3) ucast_ucast_small [OF m(2)] by (simp add: word_less_nat_alt unsigned_ucast_eq take_bit_nat_eq_self)
    ultimately show ?thesis
      using assms(3) head_octet [OF form m(1), of tag, folded h_def] ucast_ucast_small [OF m(2)] cls
      by (simp add: ber_decode_tag_def x rd_def Let_def)
  next
    case False
    note head = head_octet [OF form, of "0x1F" tag, folded h_def, simplified]
    show ?thesis
    proof (cases "n < 128")
      case True
      have "tag_bytes form tag = [ucast (h OR 0x1F), ucast n]"
        using True False by (simp add: tag_bytes_def h_def n_def Let_def)
      then show ?thesis
        using assms(3,4) head cls word_below_128 [OF True] low_bits_less [of n] ucast_ucast_small [OF less_trans [OF True]]
        by (simp add: ber_decode_tag_def x rd_def Let_def not_le [symmetric])
    next
      case long: False
      have "tag_bytes form tag = [ucast (h OR 0x1F), ucast (drop_bit 7 n OR 0x80), ucast (n AND 127)]"
        using long False by (simp add: tag_bytes_def h_def n_def Let_def)
      then show ?thesis
        using assms(3,4) head cls two_octet_number [OF n] high_bit_ge [of "drop_bit 7 n"] low_bits_less [of n]
        by (simp add: ber_decode_tag_def x rd_def Let_def not_le [symmetric] or.assoc add.commute [of 2 i])
    qed
  qed
qed

section \<open>Lengths\<close>

definition be_value :: "nat \<Rightarrow> byte list \<Rightarrow> nat" where
  "be_value = foldl (\<lambda>a d. a * 256 + unat d)"

lemma be_value_simps [simp]: "be_value a [] = a" "be_value a (d # ds) = be_value (a * 256 + unat d) ds"
  by (simp_all add: be_value_def)

lemma be_value_rev: "be_value 0 (rev ds) = le_value ds"
  by (induction ds) (simp_all add: be_value_def algebra_simps)

lemma be_value_ge: "a * 256 ^ length ds \<le> be_value a ds"
proof (induction ds arbitrary: a)
  case (Cons d ds)
  have "a * 256 ^ length (d # ds) \<le> (a * 256 + unat d) * 256 ^ length ds" by (simp add: algebra_simps)
  also have "\<dots> \<le> be_value a (d # ds)" using Cons.IH by simp
  finally show ?case .
qed simp

lemma ber_long_length_at:
  "at_off buf (i + 1) ds \<Longrightarrow> be_value (unat len) ds < 2 ^ 32 \<Longrightarrow>
   ber_long_length (length ds) buf i len = Ok (word_of_nat (be_value (unat len) ds), i + int (length ds))"
proof (induction ds arbitrary: i len)
  case (Cons d ds)
  have "unat len * 256 \<le> unat len * 256 ^ length (d # ds)" by simp
  also have "\<dots> \<le> be_value (unat len) (d # ds)" by (rule be_value_ge)
  finally have small: "unat len < 2 ^ 24" using Cons.prems(2) by simp
  then have less: "len < push_bit 24 1" by (simp add: word_less_nat_alt)
  have u: "unat d < 256" using unsigned_less [of d] by simp
  have e: "push_bit 8 len + ucast d = (word_of_nat (unat len * 256 + unat d) :: 32 word)"
    by (simp add: push_bit_eq_mult mult.commute)
  have "unat (push_bit 8 len + ucast d) = unat len * 256 + unat d"
    unfolding e unat_of_nat using small u by simp
  with Cons.IH [of "i + 1" "push_bit 8 len + ucast d"] Cons.prems less show ?case
    by (simp add: rd_def algebra_simps)
qed simp

lemma ber_decode_value_at:
  assumes "at_off buf i (length_bytes n)" "0 \<le> i" "i + int (length (length_bytes n)) \<le> int (length buf)"
    and "n < 2 ^ 31" "int (length buf) < 2 ^ 31"
  shows "ber_decode_value k E rec buf i form (int (length buf)) =
    ber_decode_contents k E rec buf (i + int (length (length_bytes n)) - 1) form (int (length buf)) (word_of_nat n)"
proof (cases "n < 128")
  case True
  define b where "b = (word_of_nat n :: byte)"
  have u: "unat b = n" using True by (simp add: b_def unat_of_nat)
  have m: "(0x80 :: byte) = push_bit 7 (mask 1)" by (simp add: mask_eq_exp_minus_1)
  have "\<not> bit b k" if "7 \<le> k" for k
    using word_2p_less [of b 7 k] that u True by (simp add: word_less_nat_alt)
  then have "b AND 0x80 = 0" unfolding m bit_eq_iff bit_expand by auto
  moreover have "ucast b = (word_of_nat n :: 32 word)" unfolding u [symmetric] by simp
  ultimately have "b AND 0x80 = 0 \<and> ucast b = (word_of_nat n :: 32 word)" by simp
  with True assms(1) show ?thesis
    by (simp add: length_bytes_def ber_decode_value_def rd_def b_def [symmetric])
next
  case False
  define l where "l = length (le_digits n)"
  have "n < 256 ^ 4" using assms(4) by simp
  then have "l \<le> 4" unfolding l_def by (rule length_le_digits)
  moreover have "l \<noteq> 0" using False by (simp add: l_def le_digits.simps)
  ultimately have "l \<in> {1, 2, 3, 4}" by auto
  then have l: "(word_of_nat l OR 0x80 :: byte) AND 0x80 \<noteq> 0" "(word_of_nat l OR 0x80 :: byte) \<noteq> 0x80"
    "unat (ucast ((word_of_nat l OR 0x80 :: byte) AND 0x7F) :: 32 word) = l"
    by auto
  have b: "length_bytes n = (word_of_nat l OR 0x80) # rev (le_digits n)"
    using False by (simp add: length_bytes_def l_def)
  have fit: "\<not> uns (int (length buf) - (i + 1)) < ucast ((word_of_nat l OR 0x80 :: byte) AND 0x7F)"
    using uns_less [of "int (length buf) - (i + 1)" "ucast ((word_of_nat l OR 0x80 :: byte) AND 0x7F)"]
      arg_cong [OF l(3), of int] assms(2,3,5) by (simp add: b l_def)
  have "ber_long_length l buf i 0 = Ok (word_of_nat n, i + int l)"
    using ber_long_length_at [of buf i "rev (le_digits n)" 0] assms(1,4) by (simp add: b be_value_rev l_def)
  with l fit assms(1) show ?thesis
    by (simp add: b ber_decode_value_def rd_def Let_def l_def [symmetric])
qed

section \<open>Values\<close>

lemma contents_fits:
  assumes "0 \<le> i" "i + 1 + int n \<le> int (length buf)" "int (length buf) < 2 ^ 31"
  shows "\<not> uns (int (length buf) - (i + 1)) < word_of_nat n"
    and "as_int (uns (i + 1) + word_of_nat n) = i + 1 + int n"
    and "\<not> uns (int (length buf)) < uns (i + 1) + word_of_nat n"
    and "unat (word_of_nat n :: 32 word) = n"
proof -
  show u: "unat (word_of_nat n :: 32 word) = n" using assms unfolding unat_of_nat by simp
  then have n: "uint (word_of_nat n :: 32 word) = int n" by (simp only: uint_nat)
  show "\<not> uns (int (length buf) - (i + 1)) < word_of_nat n"
    using uns_less [of "int (length buf) - (i + 1)" "word_of_nat n"] n assms by simp
  show "as_int (uns (i + 1) + word_of_nat n) = i + 1 + int n"
    using uns_add(2) [of "i + 1" "word_of_nat n"] n assms by simp
  show "\<not> uns (int (length buf)) < uns (i + 1) + word_of_nat n"
    using uns_less [of "int (length buf)" "uns (i + 1) + word_of_nat n"]
      uns_add(1) [of "i + 1" "word_of_nat n"] n assms by simp
qed

context nif_terms
begin

lemma ber_definite_at:
  assumes "\<And>u j. u \<in> set ts \<Longrightarrow> i \<le> j \<Longrightarrow> at_off buf j (tlv_bytes u) \<Longrightarrow>
      rec j = Some (Ok (tlv_term E u, j + int (length (tlv_bytes u))))"
    and "\<And>u. u \<in> set ts \<Longrightarrow> tlv_bytes u \<noteq> []"
    and "at_off buf i (concat (map tlv_bytes ts))" "length ts < k"
  shows "ber_definite k E rec (i + int (length (concat (map tlv_bytes ts)))) i (nif_list E acc) =
    Some (Ok (nif_list E (rev acc @ map (tlv_term E) ts), i + int (length (concat (map tlv_bytes ts)))))"
  using assms
proof (induction ts arbitrary: i k acc)
  case Nil
  then show ?case by (cases k) (auto simp: ber_reverse_def reverse_nif_list)
next
  case (Cons t ts)
  obtain k' where k: "k = Suc k'" using Cons.prems(4) by (cases k) auto
  define j where "j = i + int (length (tlv_bytes t))"
  have j: "i < j" using Cons.prems(2) [of t] by (simp add: j_def)
  have "rec i = Some (Ok (tlv_term E t, j))"
    using Cons.prems(1) [of t i] Cons.prems(3) by (simp add: at_off_append j_def)
  moreover have "ber_definite k' E rec (j + int (length (concat (map tlv_bytes ts)))) j (nif_list E (tlv_term E t # acc)) =
      Some (Ok (nif_list E (rev (tlv_term E t # acc) @ map (tlv_term E) ts), j + int (length (concat (map tlv_bytes ts)))))"
    using Cons.prems j by (intro Cons.IH) (auto simp: k j_def at_off_append)
  moreover have "i + int (length (concat (map tlv_bytes (t # ts)))) = j + int (length (concat (map tlv_bytes ts)))"
    by (simp add: j_def)
  ultimately show ?case
    using j by (simp only: k ber_definite.simps) simp
qed

lemma length_le_concat_tlv: "length ts \<le> length (concat (map tlv_bytes ts))"
proof (induction ts)
  case (Cons t ts)
  with tlv_bytes_nonempty [of t] show ?case by simp
qed simp

lemma ber_decode_header:
  fixes form tag :: "32 word"
  assumes "int (length buf) < 2 ^ 31" "form = 0 \<or> form = 0x20" "tag_ok tag" "0 \<le> i"
    and at: "at_off buf i (tag_bytes form tag @ length_bytes (length v) @ v)"
  defines "j \<equiv> i + int (length (tag_bytes form tag)) + int (length (length_bytes (length v))) - 1"
  shows "j + 1 + int (length v) \<le> int (length buf)" "i + 1 \<le> j" "at_off buf (j + 1) v"
    and "ber_decode (Suc k) E buf (int (length buf)) i =
      bindf (ber_decode_contents k E (ber_decode k E buf (int (length buf))) buf j (ucast form) (int (length buf))
          (word_of_nat (length v)))
        (\<lambda>(value, ib_index). Some (Ok (enif_make_tuple2 E (enif_make_uint E tag) value, ib_index)))"
proof -
  have t: "1 \<le> length (tag_bytes form tag)" by (auto simp: tag_bytes_def Let_def)
  have l: "1 \<le> length (length_bytes (length v))" by (auto simp: length_bytes_def)
  show "i + 1 \<le> j" using t l by (simp add: j_def)
  have "i + int (length (tag_bytes form tag @ length_bytes (length v) @ v)) \<le> int (length buf)"
    using at t assms(4) by (auto simp: at_off_iff)
  then show fit: "j + 1 + int (length v) \<le> int (length buf)" by (simp add: j_def)
  show "at_off buf (j + 1) v" using at by (simp add: at_off_append j_def algebra_simps)
  define m where "m = i + int (length (tag_bytes form tag))"
  have m: "0 \<le> m" "m < int (length buf)" "m + int (length (length_bytes (length v))) \<le> int (length buf)"
    using fit l t assms(4) by (auto simp: m_def j_def)
  have "ber_decode_tag E buf (int (length buf)) i = Ok ((ucast form, enif_make_uint E tag), m)"
    unfolding m_def using at m by (intro ber_decode_tag_at assms(2,3)) (auto simp: at_off_append m_def)
  moreover have "ber_decode_value k E (ber_decode k E buf (int (length buf))) buf m (ucast form) (int (length buf)) =
    ber_decode_contents k E (ber_decode k E buf (int (length buf))) buf j (ucast form) (int (length buf))
      (word_of_nat (length v))"
    unfolding j_def m_def [symmetric] using at m assms(1) fit
    by (intro ber_decode_value_at) (auto simp: at_off_append m_def j_def)
  ultimately show "ber_decode (Suc k) E buf (int (length buf)) i =
      bindf (ber_decode_contents k E (ber_decode k E buf (int (length buf))) buf j (ucast form) (int (length buf))
          (word_of_nat (length v)))
        (\<lambda>(value, ib_index). Some (Ok (enif_make_tuple2 E (enif_make_uint E tag) value, ib_index)))"
    using m fit t l by (simp add: j_def m_def)
qed

lemma ber_decode_bytes:
  assumes "int (length buf) < 2 ^ 31"
  shows "tlv_ok t \<Longrightarrow> at_off buf i (tlv_bytes t) \<Longrightarrow> 0 \<le> i \<Longrightarrow> int (length buf) - i < int k \<Longrightarrow>
    ber_decode k E buf (int (length buf)) i = Some (Ok (tlv_term E t, i + int (length (tlv_bytes t))))"
proof (induction t arbitrary: i k)
  case (Prim tag v)
  have ok: "tag_ok tag" and at: "at_off buf i (tag_bytes 0 tag @ length_bytes (length v) @ v)"
    using Prim.prems by simp_all
  note h = ber_decode_header [OF assms disjI1 [OF refl] ok Prim.prems(3) at]
  define j where "j = i + int (length (tag_bytes 0 tag)) + int (length (length_bytes (length v))) - 1"
  note h = h [folded j_def]
  obtain k' where k: "k = Suc k'" using Prim.prems(4) h(1,2) by (cases k) auto
  have c: "0 \<le> j" using h(2) Prim.prems(3) by simp
  note fits = contents_fits [OF c h(1) assms]
  have e: "i + int (length (tlv_bytes (Prim tag v))) = j + 1 + int (length v)" by (simp add: j_def)
  show ?case
    unfolding k h(4) e by (simp add: ber_decode_contents_def fits Let_def at_off_rds [OF h(3)])
next
  case (Constr tag ts)
  define v where "v = concat (map tlv_bytes ts)"
  have ok: "tag_ok tag" and at: "at_off buf i (tag_bytes 0x20 tag @ length_bytes (length v) @ v)"
    using Constr.prems by (simp_all add: v_def Let_def)
  note h = ber_decode_header [OF assms disjI2 [OF refl] ok Constr.prems(3) at]
  define j where "j = i + int (length (tag_bytes 0x20 tag)) + int (length (length_bytes (length v))) - 1"
  note h = h [folded j_def]
  obtain k' where k: "k = Suc k'" using Constr.prems(4) h(1,2) by (cases k) auto
  have c: "0 \<le> j" using h(2) Constr.prems(3) by simp
  note fits = contents_fits [OF c h(1) assms]
  have "ber_definite k' E (ber_decode k' E buf (int (length buf))) (j + 1 + int (length v)) (j + 1) (nif_list E []) =
      Some (Ok (nif_list E (rev [] @ map (tlv_term E) ts), j + 1 + int (length v)))"
    unfolding v_def
  proof (rule ber_definite_at)
    fix u l assume "u \<in> set ts" "j + 1 \<le> l" "at_off buf l (tlv_bytes u)"
    with Constr.IH [of u l k'] Constr.prems(1,4) h(2) c
    show "ber_decode k' E buf (int (length buf)) l = Some (Ok (tlv_term E u, l + int (length (tlv_bytes u))))"
      by (auto simp: list_all_iff k)
  next
    show "tlv_bytes u \<noteq> []" for u using tlv_bytes_nonempty [of u] by auto
    show "at_off buf (j + 1) (concat (map tlv_bytes ts))" using h(3) by (simp add: v_def)
    show "length ts < k'"
      using length_le_concat_tlv [of ts] h(1,2) Constr.prems(4) by (simp add: k v_def)
  qed
  moreover have "i + int (length (tlv_bytes (Constr tag ts))) = j + 1 + int (length v)"
    by (simp add: j_def v_def Let_def)
  ultimately show ?case
    using h(1) unfolding k h(4) by (simp add: ber_decode_contents_def fits Let_def)
qed

lemma decode_ber_tlv_raw_bytes:
  assumes "tlv_ok t" "int (length (tlv_bytes t @ rest)) < 2 ^ 31" "length (tlv_bytes t @ rest) < k"
  shows "decode_ber_tlv_raw k E (enif_make_binary E (tlv_bytes t @ rest)) =
    Some (Ok (enif_make_tuple2 E (tlv_term E t) (enif_make_binary E rest)))"
proof -
  let ?b = "tlv_bytes t @ rest"
  have "ber_decode k E ?b (int (length ?b)) 0 = Some (Ok (tlv_term E t, 0 + int (length (tlv_bytes t))))"
    using assms by (intro ber_decode_bytes at_off_start) auto
  moreover have "rds ?b (int (length (tlv_bytes t))) (length rest) = (Ok rest :: (ber_error, byte list) res)"
    by (subst rds_drop) auto
  ultimately show ?thesis
    by (simp add: decode_ber_tlv_raw_def inspect_iolist_make ber_decode_begin_def)
qed

text \<open>
  On every input the library function returns: a badarg, an error term with a position of the
  input, or a value with the rest of the input.
\<close>

lemma decode_ber_tlv_raw_returns:
  assumes "int (length b) < 2 ^ 31" "length b < k" "enif_inspect_iolist_as_binary E d = Some b"
  shows "(\<exists>t rest. tlv_ok t \<and> length rest + 2 \<le> length b \<and> rest = drop (length b - length rest) b \<and>
        decode_ber_tlv_raw k E d = Some (Ok (enif_make_tuple2 E (tlv_term E t) (enif_make_binary E rest)))) \<or>
    (\<exists>c i. c \<in> {ASN1_VALUE_ERROR..ASN1_TAG_ERROR} \<and> 0 \<le> i \<and> i \<le> int (length b) \<and>
        decode_ber_tlv_raw k E d = Some (Ok (make_ber_error_term E c i)))"
proof -
  have r: "returns is_tlv 2 (int (length b)) (ber_decode k E b (int (length b)) 0)"
    using ber_decode_complete [of b 0 k] assms by simp
  then show ?thesis
  proof (cases "\<exists>v i. ber_decode k E b (int (length b)) 0 = Some (Ok (v, i))")
    case True
    then obtain v i where d: "ber_decode k E b (int (length b)) 0 = Some (Ok (v, i))" by blast
    with r obtain t where t: "tlv_ok t" "v = tlv_term E t" and i: "2 \<le> i" "i \<le> int (length b)"
      by (auto simp: is_tlv_def)
    define n where "n = nat i"
    have n: "i = int n" "2 \<le> n" "n \<le> length b" using i by (auto simp: n_def)
    have "rds b (int n) (length b - n) = (Ok (drop n b) :: (ber_error, byte list) res)"
      using n by (subst rds_drop) auto
    with d t n show ?thesis
      by (intro disjI1 exI [of _ t] exI [of _ "drop n b"])
        (auto simp: decode_ber_tlv_raw_def assms(3) ber_decode_begin_def nat_diff_distrib)
  next
    case False
    with r obtain c i where "ber_decode k E b (int (length b)) 0 = Some (Err (c, i))"
        "c \<in> {ASN1_VALUE_ERROR..ASN1_TAG_ERROR}" "0 \<le> i" "i \<le> int (length b)"
      by (auto simp: returns_def split: option.splits res.splits)
    then show ?thesis
      by (intro disjI2 exI [of _ c] exI [of _ i])
        (auto simp: decode_ber_tlv_raw_def assms(3) ber_decode_begin_def)
  qed
qed

end

end
