(* ===== verification/Asn1_Per.thy ===== *)
theory Asn1_Per
  imports Asn1_BerDecode
begin

text \<open>
  The completion of PER encodings in \<^verbatim>\<open>asn1_erl_nif.c\<close>. The input is a sequence of commands (insert
  a bit, align, insert octets, ...); \<open>per_complete\<close> interprets them and fills the output binary
  bit by bit.

  \<open>per_out\<close> is the output: the allocated bytes of \<open>out_binary\<close>, the offset of \<open>ptr\<close> in them, and
  \<open>unused\<close>, the number of rightmost bits of \<open>*ptr\<close> that are still free. A pointer into the input
  is an offset of \<open>in_buf\<close>. \<open>Err ()\<close> is the return of \<open>ASN1_ERROR\<close>.
\<close>

section \<open>The output\<close>

record per_out =
  po_data :: "byte list"
  po_ptr :: int
  po_unused :: int

type_synonym 'a pres = "(unit, 'a) res"

text \<open>\<open>*ptr = x\<close>, \<open>*ptr = *ptr | x\<close> and \<open>*++ptr = 0x00\<close>\<close>

definition po_set :: "byte \<Rightarrow> per_out \<Rightarrow> per_out pres" where
  "po_set x b = bindr (wr (po_data b) (po_ptr b) x) (\<lambda>d. Ok (b\<lparr>po_data := d\<rparr>))"

definition po_or :: "byte \<Rightarrow> per_out \<Rightarrow> per_out pres" where
  "po_or x b = bindr (rd (po_data b) (po_ptr b)) (\<lambda>y. po_set (y OR x) b)"

definition po_next :: "per_out \<Rightarrow> per_out pres" where
  "po_next b = po_set 0 (b\<lparr>po_ptr := po_ptr b + 1\<rparr>)"

text \<open>
  A byte is shifted as an \<open>int\<close> and stored as a byte; a count that is negative or not below 32 is
  undefined.
\<close>

definition shl :: "byte \<Rightarrow> int \<Rightarrow> byte pres" where
  "shl v n = (if 0 \<le> n \<and> n < 32 then Ok (push_bit (nat n) v) else Fault)"

definition shr :: "byte \<Rightarrow> int \<Rightarrow> byte pres" where
  "shr v n = (if 0 \<le> n \<and> n < 32 then Ok (drop_bit (nat n) v) else Fault)"

definition cdiv :: "int \<Rightarrow> int \<Rightarrow> int" where
  "cdiv a b = (if a < 0 then - ((- a) div b) else a div b)"

definition CEIL :: "int \<Rightarrow> int \<Rightarrow> int" where
  "CEIL x y = cdiv (x - 1) y + 1"

section \<open>Insertion\<close>

text \<open>One zero bit and one one bit; the number of new bytes is the first result.\<close>

definition per_zero_bit :: "per_out \<Rightarrow> (int \<times> per_out) pres" where
  "per_zero_bit b =
     (if po_unused b = 1 then bindr (po_next (b\<lparr>po_unused := 8\<rparr>)) (\<lambda>b. Ok (1, b))
      else Ok (0, b\<lparr>po_unused := po_unused b - 1\<rparr>))"

definition per_one_bit :: "per_out \<Rightarrow> (int \<times> per_out) pres" where
  "per_one_bit b =
     (if po_unused b = 1
      then bindr (po_or 1 b) (\<lambda>b. bindr (po_next (b\<lparr>po_unused := 8\<rparr>)) (\<lambda>b. Ok (1, b)))
      else bindr (shl 1 (po_unused b - 1)) (\<lambda>x.
           bindr (po_or x b) (\<lambda>b. Ok (0, b\<lparr>po_unused := po_unused b - 1\<rparr>))))"

definition per_insert_most_sign_bits :: "int \<Rightarrow> byte \<Rightarrow> per_out \<Rightarrow> per_out pres" where
  "per_insert_most_sign_bits no_bits val b =
     (let u = po_unused b
      in bindr (shr val (8 - u)) (\<lambda>x. bindr (po_or x b) (\<lambda>b.
           if no_bits < u then Ok (b\<lparr>po_unused := u - no_bits\<rparr>)
           else if no_bits = u then po_next (b\<lparr>po_unused := 8\<rparr>)
           else bindr (po_next b) (\<lambda>b. bindr (shl val u) (\<lambda>x. bindr (po_or x b) (\<lambda>b.
                Ok (b\<lparr>po_unused := 8 - (no_bits - u)\<rparr>)))))))"

definition per_insert_least_sign_bits :: "int \<Rightarrow> byte \<Rightarrow> per_out \<Rightarrow> (int \<times> per_out) pres" where
  "per_insert_least_sign_bits no_bits val b =
     (let u = po_unused b
      in if no_bits < u
         then bindr (shl val (u - no_bits)) (\<lambda>x. bindr (po_or x b) (\<lambda>b.
              Ok (0, b\<lparr>po_unused := u - no_bits\<rparr>)))
         else if no_bits = u
         then bindr (po_or val b) (\<lambda>b. bindr (po_next (b\<lparr>po_unused := 8\<rparr>)) (\<lambda>b. Ok (1, b)))
         else bindr (shr val (no_bits - u)) (\<lambda>x. bindr (po_or x b) (\<lambda>b. bindr (po_next b) (\<lambda>b.
              bindr (shl val (8 - (no_bits - u))) (\<lambda>x. bindr (po_or x b) (\<lambda>b.
              Ok (1, b\<lparr>po_unused := 8 - (no_bits - u)\<rparr>)))))))"

primrec per_pad :: "nat \<Rightarrow> int \<Rightarrow> per_out \<Rightarrow> (int \<times> per_out) pres" where
  "per_pad 0 ret b = Ok (ret, b)"
| "per_pad (Suc n) ret b = bindr (per_zero_bit b) (\<lambda>(new, b). per_pad n (ret + new) b)"

definition per_pad_bits :: "int \<Rightarrow> per_out \<Rightarrow> (int \<times> per_out) pres" where
  "per_pad_bits no_bits b = per_pad (nat no_bits) 0 b"

text \<open>
  The loops over \<open>no_bytes\<close> bytes of the input; each returns the input pointer and the output. When
  a loop ends, its counter \<open>no_bytes\<close> is zero (or was not positive before).
\<close>

primrec per_bit_octets :: "nat \<Rightarrow> byte list \<Rightarrow> int \<Rightarrow> per_out \<Rightarrow> (int \<times> per_out) pres" where
  "per_bit_octets 0 in_buf in_ptr b = Ok (in_ptr, b)"
| "per_bit_octets (Suc n) in_buf in_ptr b =
     bindr (rd in_buf (in_ptr + 1)) (\<lambda>v.
       if v = 0 then bindr (per_zero_bit b) (\<lambda>(_, b). per_bit_octets n in_buf (in_ptr + 1) b)
       else if v = 1 then bindr (per_one_bit b) (\<lambda>(_, b). per_bit_octets n in_buf (in_ptr + 1) b)
       else Err ())"

definition per_insert_octets_as_bits ::
  "int \<Rightarrow> byte list \<Rightarrow> int \<Rightarrow> per_out \<Rightarrow> (int \<times> int \<times> per_out) pres" where
  "per_insert_octets_as_bits no_bytes in_buf in_ptr b =
     (let used_bits = 8 - po_unused b
      in bindr (per_bit_octets (nat no_bytes) in_buf in_ptr b) (\<lambda>(in_ptr, b).
         Ok (cdiv (used_bits + min no_bytes 0) 8, in_ptr, b)))"

primrec per_copy_octets :: "nat \<Rightarrow> byte list \<Rightarrow> int \<Rightarrow> per_out \<Rightarrow> (int \<times> per_out) pres" where
  "per_copy_octets 0 in_buf in_ptr b = Ok (in_ptr, b)"
| "per_copy_octets (Suc n) in_buf in_ptr b =
     bindr (rd in_buf (in_ptr + 1)) (\<lambda>v. bindr (po_set v b) (\<lambda>b. bindr (po_next b) (\<lambda>b.
       per_copy_octets n in_buf (in_ptr + 1) b)))"

definition per_align :: "per_out \<Rightarrow> (int \<times> per_out) pres" where
  "per_align b =
     (if po_unused b \<noteq> 8 then bindr (po_next (b\<lparr>po_unused := 8\<rparr>)) (\<lambda>b. Ok (1, b)) else Ok (0, b))"

definition per_insert_octets :: "int \<Rightarrow> byte list \<Rightarrow> int \<Rightarrow> per_out \<Rightarrow> (int \<times> int \<times> per_out) pres" where
  "per_insert_octets no_bytes in_buf in_ptr b =
     bindr (per_align b) (\<lambda>(ret, b).
     bindr (per_copy_octets (nat no_bytes) in_buf in_ptr b) (\<lambda>(in_ptr, b).
       Ok (ret + min no_bytes 0, in_ptr, b)))"

primrec per_copy_unaligned :: "nat \<Rightarrow> byte list \<Rightarrow> int \<Rightarrow> int \<Rightarrow> per_out \<Rightarrow> (int \<times> per_out) pres" where
  "per_copy_unaligned 0 in_buf in_ptr u b = Ok (in_ptr, b)"
| "per_copy_unaligned (Suc n) in_buf in_ptr u b =
     bindr (rd in_buf (in_ptr + 1)) (\<lambda>v.
     bindr (if u = 8 then bindr (po_set v b) po_next
            else bindr (shr v (8 - u)) (\<lambda>x. bindr (po_or x b) (\<lambda>b. bindr (po_next b) (\<lambda>b.
                 bindr (shl v u) (\<lambda>x. po_set x b))))) (\<lambda>b.
     per_copy_unaligned n in_buf (in_ptr + 1) u b))"

definition per_insert_octets_unaligned ::
  "int \<Rightarrow> byte list \<Rightarrow> int \<Rightarrow> per_out \<Rightarrow> int \<Rightarrow> (int \<times> int \<times> per_out) pres" where
  "per_insert_octets_unaligned no_bytes in_buf in_ptr b u =
     bindr (per_copy_unaligned (nat no_bytes) in_buf in_ptr u b) (\<lambda>(in_ptr, b). Ok (no_bytes, in_ptr, b))"

text \<open>\<open>if ((ret = ...) == ASN1_ERROR) return ASN1_ERROR\<close>\<close>

definition per_checked :: "(int \<times> 'a) pres \<Rightarrow> (int \<times> 'a) pres" where
  "per_checked m = bindr m (\<lambda>(ret, a). if ret = ASN1_ERROR then Err () else Ok (ret, a))"

text \<open>A return of -1 (when \<open>no_bytes - 1\<close> is -1) is taken for \<open>ASN1_ERROR\<close>.\<close>

definition per_insert_octets_except_unused ::
  "int \<Rightarrow> byte list \<Rightarrow> int \<Rightarrow> per_out \<Rightarrow> int \<Rightarrow> (int \<times> int \<times> per_out) pres" where
  "per_insert_octets_except_unused no_bytes in_buf in_ptr b in_unused =
     (let u = po_unused b
      in if in_unused = 0
         then per_checked (per_insert_octets_unaligned no_bytes in_buf in_ptr b u)
         else bindr (per_checked (per_insert_octets_unaligned (no_bytes - 1) in_buf in_ptr b u)) (\<lambda>(ret, in_ptr, b).
              bindr (rd in_buf (in_ptr + 1)) (\<lambda>val.
                let no_bits = 8 - in_unused
                in bindr (shr val (8 - u)) (\<lambda>x. bindr (po_or x b) (\<lambda>b.
                   if no_bits < u then Ok (ret, in_ptr + 1, b\<lparr>po_unused := u - no_bits\<rparr>)
                   else if no_bits = u
                   then bindr (po_next (b\<lparr>po_unused := 8\<rparr>)) (\<lambda>b. Ok (ret + 1, in_ptr + 1, b))
                   else bindr (po_next b) (\<lambda>b. bindr (shl val u) (\<lambda>x. bindr (po_or x b) (\<lambda>b.
                        Ok (ret + 1, in_ptr + 1, b\<lparr>po_unused := 8 - (no_bits - u)\<rparr>)))))))))"

definition per_insert_octets_as_bits_exact_len ::
  "int \<Rightarrow> int \<Rightarrow> byte list \<Rightarrow> int \<Rightarrow> per_out \<Rightarrow> (int \<times> int \<times> per_out) pres" where
  "per_insert_octets_as_bits_exact_len desired_len in_buff_len in_buf in_ptr b =
     (if desired_len = in_buff_len then per_checked (per_insert_octets_as_bits in_buff_len in_buf in_ptr b)
      else if desired_len > in_buff_len
      then bindr (per_checked (per_insert_octets_as_bits in_buff_len in_buf in_ptr b)) (\<lambda>(ret, in_ptr, b).
           bindr (per_pad_bits (desired_len - in_buff_len) b) (\<lambda>(ret2, b). Ok (ret + ret2, in_ptr, b)))
      else bindr (per_checked (per_insert_octets_as_bits desired_len in_buf in_ptr b)) (\<lambda>(ret, in_ptr, b).
           Ok (ret, in_ptr + (in_buff_len - desired_len), b)))"

definition per_insert_bits_as_bits ::
  "int \<Rightarrow> int \<Rightarrow> byte list \<Rightarrow> int \<Rightarrow> per_out \<Rightarrow> (int \<times> int \<times> per_out) pres" where
  "per_insert_bits_as_bits desired_no no_bytes in_buf in_ptr b =
     (if desired_no = no_bytes * 8
      then bindr (per_insert_octets_unaligned no_bytes in_buf in_ptr b (po_unused b)) (\<lambda>(_, in_ptr, b).
           Ok (no_bytes, in_ptr, b))
      else if desired_no < no_bytes * 8
      then bindr (per_insert_octets_unaligned (desired_no div 8) in_buf in_ptr b (po_unused b)) (\<lambda>(_, in_ptr, b).
           bindr (rd in_buf (in_ptr + 1)) (\<lambda>val.
           bindr (per_insert_most_sign_bits (desired_no mod 8) val b) (\<lambda>b.
           Ok (CEIL desired_no 8, in_ptr + 1, b))))
      else bindr (per_insert_octets_unaligned no_bytes in_buf in_ptr b (po_unused b)) (\<lambda>(_, in_ptr, b).
           bindr (per_pad_bits (desired_no - no_bytes * 8) b) (\<lambda>(_, b).
           Ok (CEIL desired_no 8, in_ptr, b))))"

section \<open>The command interpreter\<close>

text \<open>The local variables of \<open>per_complete\<close>.\<close>

record per_state =
  counter :: int
  buf_space :: int
  buf_size :: int
  in_ptr :: int
  outp :: per_out

definition per_realloc_memory :: "'t nif \<Rightarrow> int \<Rightarrow> per_out \<Rightarrow> per_out pres" where
  "per_realloc_memory E amount b =
     (case enif_realloc_binary E (po_data b) amount of
        None \<Rightarrow> Err ()
      | Some d \<Rightarrow> Ok (b\<lparr>po_data := d\<rparr>))"

text \<open>One or two bytes of a command as a number; the pointer moves over them.\<close>

definition per_num :: "bool \<Rightarrow> byte list \<Rightarrow> int \<Rightarrow> (int \<times> int) pres" where
  "per_num wide in_buf p =
     bindr (rd in_buf (p + 1)) (\<lambda>x.
       if wide then bindr (rd in_buf (p + 2)) (\<lambda>y. Ok (uint x * 256 + uint y, p + 2))
       else Ok (uint x, p + 1))"

definition per_case_bit :: "bool \<Rightarrow> per_state \<Rightarrow> per_state pres" where
  "per_case_bit one s =
     bindr (if one then per_one_bit (outp s) else per_zero_bit (outp s)) (\<lambda>(new, b).
       Ok (s\<lparr>buf_space := buf_space s - new, outp := b\<rparr>))"

definition per_case_align :: "per_state \<Rightarrow> per_state pres" where
  "per_case_align s =
     bindr (per_align (outp s)) (\<lambda>(new, b). Ok (s\<lparr>buf_space := buf_space s - new, outp := b\<rparr>))"

definition per_case_lsb :: "byte list \<Rightarrow> per_state \<Rightarrow> per_state pres" where
  "per_case_lsb in_buf s =
     bindr (rd in_buf (in_ptr s + 1)) (\<lambda>no_bits.
     bindr (rd in_buf (in_ptr s + 2)) (\<lambda>val.
     bindr (per_insert_least_sign_bits (uint no_bits) val (outp s)) (\<lambda>(ret, b).
       Ok (s\<lparr>counter := counter s - 2, buf_space := buf_space s - ret, in_ptr := in_ptr s + 2, outp := b\<rparr>))))"

definition per_case_octets :: "bool \<Rightarrow> byte list \<Rightarrow> per_state \<Rightarrow> per_state pres" where
  "per_case_octets wide in_buf s =
     bindr (per_num wide in_buf (in_ptr s)) (\<lambda>(no_bytes, p).
       let c = counter s - ((if wide then 2 else 1) + no_bytes)
       in if c < 0 then Err ()
          else bindr (per_checked (per_insert_octets no_bytes in_buf p (outp s))) (\<lambda>(ret, p, b).
            Ok (s\<lparr>counter := c, buf_space := buf_space s - ret, in_ptr := p, outp := b\<rparr>)))"

definition per_case_except_unused :: "bool \<Rightarrow> byte list \<Rightarrow> per_state \<Rightarrow> per_state pres" where
  "per_case_except_unused wide in_buf s =
     bindr (rd in_buf (in_ptr s + 1)) (\<lambda>in_unused.
     bindr (per_num wide in_buf (in_ptr s + 1)) (\<lambda>(no_bytes, p).
       let c = counter s - ((if wide then 3 else 2) + no_bytes)
       in if c < 0 then Err ()
          else bindr (per_checked (per_insert_octets_except_unused no_bytes in_buf p (outp s) (uint in_unused))) (\<lambda>(ret, p, b).
            Ok (s\<lparr>counter := c, buf_space := buf_space s - ret, in_ptr := p, outp := b\<rparr>))))"

text \<open>More memory is allocated when less than \<open>needed\<close> bytes have been saved so far.\<close>

definition per_grow :: "'t nif \<Rightarrow> int \<Rightarrow> per_state \<Rightarrow> per_state pres" where
  "per_grow E needed s =
     (let saved_mem = buf_space s - counter s
      in if saved_mem < needed
         then let s = s\<lparr>buf_size := buf_size s + needed, buf_space := buf_space s + needed\<rparr>
              in bindr (per_realloc_memory E (buf_size s) (outp s)) (\<lambda>b. Ok (s\<lparr>outp := b\<rparr>))
         else Ok s)"

text \<open>Cases 40 to 43: \<open>wide_len\<close> and \<open>wide_no\<close> tell which of the two numbers has two bytes.\<close>

definition per_case_exact_len ::
  "bool \<Rightarrow> bool \<Rightarrow> 't nif \<Rightarrow> byte list \<Rightarrow> per_state \<Rightarrow> per_state pres" where
  "per_case_exact_len wide_len wide_no E in_buf s =
     bindr (per_num wide_len in_buf (in_ptr s)) (\<lambda>(desired_len, p).
     bindr (per_num wide_no in_buf p) (\<lambda>(no_bytes, p).
       let unused = po_unused (outp s);
           pad_bits = desired_len - no_bytes - unused;
           needed = (if wide_len \<or> wide_no then CEIL (desired_len - unused) 8 - no_bytes
                     else if pad_bits > 0 then CEIL pad_bits 8 else 0)
       in bindr (per_grow E needed s) (\<lambda>s.
          let c = counter s - ((if wide_len then 2 else 1) + (if wide_no then 2 else 1) + no_bytes)
          in if c < 0 then Err ()
             else bindr (per_checked (per_insert_octets_as_bits_exact_len desired_len no_bytes in_buf p (outp s))) (\<lambda>(ret, p, b).
               Ok (s\<lparr>counter := c, buf_space := buf_space s - ret, in_ptr := p, outp := b\<rparr>)))))"

text \<open>Cases 45 to 47.\<close>

definition per_case_bits_as_bits ::
  "bool \<Rightarrow> bool \<Rightarrow> 't nif \<Rightarrow> byte list \<Rightarrow> per_state \<Rightarrow> per_state pres" where
  "per_case_bits_as_bits wide_len wide_no E in_buf s =
     bindr (per_num wide_len in_buf (in_ptr s)) (\<lambda>(desired_len, p).
     bindr (per_num wide_no in_buf p) (\<lambda>(no_bytes, p).
       let needed = CEIL (desired_len - po_unused (outp s)) 8 - no_bytes
       in bindr (per_grow E needed s) (\<lambda>s.
          let c = counter s - ((if wide_len then 2 else 1) + (if wide_no then 2 else 1) + no_bytes)
          in if c < 0 then Err ()
             else bindr (per_checked (per_insert_bits_as_bits desired_len no_bytes in_buf p (outp s))) (\<lambda>(ret, p, b).
               Ok (s\<lparr>counter := c, buf_space := buf_space s - ret, in_ptr := p, outp := b\<rparr>)))))"

definition per_step :: "'t nif \<Rightarrow> byte list \<Rightarrow> per_state \<Rightarrow> per_state pres" where
  "per_step E in_buf s =
     bindr (rd in_buf (in_ptr s)) (\<lambda>cmd.
     bindr
       (if cmd = 0 then per_case_bit False s
        else if cmd = 1 then per_case_bit True s
        else if cmd = 2 then per_case_align s
        else if cmd = 10 then per_case_lsb in_buf s
        else if cmd = 20 then per_case_octets False in_buf s
        else if cmd = 21 then per_case_octets True in_buf s
        else if cmd = 30 then per_case_except_unused False in_buf s
        else if cmd = 31 then per_case_except_unused True in_buf s
        else if cmd = 40 then per_case_exact_len False False E in_buf s
        else if cmd = 41 then per_case_exact_len False True E in_buf s
        else if cmd = 42 then per_case_exact_len True False E in_buf s
        else if cmd = 43 then per_case_exact_len True True E in_buf s
        else if cmd = 45 then per_case_bits_as_bits False False E in_buf s
        else if cmd = 46 then per_case_bits_as_bits True False E in_buf s
        else if cmd = 47 then per_case_bits_as_bits True True E in_buf s
        else Err ()) (\<lambda>s. Ok (s\<lparr>in_ptr := in_ptr s + 1\<rparr>)))"

text \<open>The counter never grows, so the loop ends.\<close>

lemma per_num_nonneg: "per_num wide in_buf p = Ok (n, p') \<Longrightarrow> 0 \<le> n"
  by (auto simp: per_num_def bindr_eq_Ok split: if_splits)

lemma per_grow_counter: "per_grow E needed s = Ok s' \<Longrightarrow> counter s' = counter s"
  by (auto simp: per_grow_def bindr_eq_Ok Let_def split: if_splits)

lemma per_step_counter:
  assumes "per_step E in_buf s = Ok s'"
  shows "counter s' \<le> counter s"
  using assms
  by (auto simp: per_step_def bindr_eq_Ok per_case_bit_def per_case_align_def per_case_lsb_def
      per_case_octets_def per_case_except_unused_def per_case_exact_len_def per_case_bits_as_bits_def Let_def
      dest!: per_num_nonneg per_grow_counter split: if_splits)

function per_loop :: "'t nif \<Rightarrow> byte list \<Rightarrow> per_state \<Rightarrow> per_state pres" where
  "per_loop E in_buf s =
     (if counter s > 0
      then bindr (per_step E in_buf (s\<lparr>counter := counter s - 1\<rparr>)) (\<lambda>s. per_loop E in_buf s)
      else Ok s)"
  by auto
termination
  by (relation "measure (\<lambda>(_, _, s). nat (counter s))") (auto dest!: per_step_counter)

text \<open>
  \<open>per_complete\<close> gets the allocated output binary and returns the number of its bytes that are
  used, and the binary.
\<close>

definition per_complete :: "'t nif \<Rightarrow> byte list \<Rightarrow> byte list \<Rightarrow> int \<Rightarrow> (int \<times> byte list) pres" where
  "per_complete E out_binary in_buf in_buf_len =
     bindr (po_set 0 \<lparr>po_data = out_binary, po_ptr = 0, po_unused = 8\<rparr>) (\<lambda>b.
     bindr (per_loop E in_buf \<lparr>counter = in_buf_len, buf_space = in_buf_len, buf_size = in_buf_len,
              in_ptr = 0, outp = b\<rparr>) (\<lambda>s.
       let b = outp s
       in if po_unused b = 8 \<and> po_ptr b \<noteq> 0 then Ok (po_ptr b, po_data b)
          else Ok (po_ptr b + 1, po_data b)))"

definition encode_per_complete :: "'t nif \<Rightarrow> 't \<Rightarrow> 't pres" where
  "encode_per_complete E argv0 =
     (case enif_inspect_iolist_as_binary E argv0 of
        None \<Rightarrow> Ok (enif_make_badarg E)
      | Some in_binary \<Rightarrow>
          (case enif_alloc_binary E (int (length in_binary)) of
             None \<Rightarrow> Ok (enif_make_atom E ''alloc_binary_failed'')
           | Some out_binary \<Rightarrow>
               if in_binary = [] then Ok (enif_make_binary E out_binary)
               else case per_complete E out_binary in_binary (int (length in_binary)) of
                      Fault \<Rightarrow> Fault
                    | Err _ \<Rightarrow> Ok (enif_make_tuple2 E (enif_make_atom E ''error'') (enif_make_uint E 49))
                    | Ok (complete_len, out_binary) \<Rightarrow>
                        Ok (enif_make_binary E
                          (if complete_len < int (length out_binary)
                           then case enif_realloc_binary E out_binary complete_len of
                                  None \<Rightarrow> out_binary
                                | Some c \<Rightarrow> c
                           else out_binary))))"

end
