(* ===== verification/Asn1_PerBits.thy ===== *)
theory Asn1_PerBits
  imports Asn1_Per
begin

text \<open>
  The output of the PER completion as a sequence of bits. \<open>holds b bs\<close> says that the bits \<open>bs\<close>
  have been written: they are the bits of the bytes up to \<open>ptr\<close>, followed by \<open>unused\<close> zero bits.
  Every insertion appends its bits to them when the output has room.
\<close>

section \<open>The bits of a byte\<close>

definition byte_bits :: "byte \<Rightarrow> bool list" where
  "byte_bits x = map (\<lambda>i. bit x (7 - i)) [0..<8]"

lemma length_byte_bits [simp]: "length (byte_bits x) = 8"
  by (simp add: byte_bits_def)

lemma nth_byte_bits: "i < 8 \<Longrightarrow> byte_bits x ! i = bit x (7 - i)"
  by (simp add: byte_bits_def)

lemma byte_bits_0 [simp]: "byte_bits 0 = replicate 8 False"
  by (auto intro!: nth_equalityI simp: nth_byte_bits)

lemma byte_bits_push:
  assumes "n \<le> 8"
  shows "byte_bits (push_bit n v) = drop n (byte_bits v) @ replicate n False"
proof (rule nth_equalityI)
  fix i assume i: "i < length (byte_bits (push_bit n v))"
  show "byte_bits (push_bit n v) ! i = (drop n (byte_bits v) @ replicate n False) ! i"
  proof (cases "i < 8 - n")
    case True
    then have "7 - i - n = 7 - (n + i)" "n \<le> 7 - i" "7 - i < 8" by auto
    with True show ?thesis using assms by (simp add: nth_byte_bits nth_append bit_push_bit_iff)
  next
    case False
    then have "\<not> n \<le> 7 - i" using i by auto
    with False show ?thesis using i assms by (simp add: nth_byte_bits nth_append bit_push_bit_iff)
  qed
qed (use assms in simp)

lemma byte_bits_drop:
  assumes "n \<le> 8"
  shows "byte_bits (drop_bit n v) = replicate n False @ take (8 - n) (byte_bits v)"
proof (rule nth_equalityI)
  fix i assume i: "i < length (byte_bits (drop_bit n v))"
  show "byte_bits (drop_bit n v) ! i = (replicate n False @ take (8 - n) (byte_bits v)) ! i"
  proof (cases "i < n")
    case True
    then have "\<not> bit v (n + (7 - i))" using i by (auto dest: bit_imp_le_length)
    with True show ?thesis using i by (simp add: nth_byte_bits nth_append bit_drop_bit_eq)
  next
    case False
    then have "n + (7 - i) = 7 - (i - n)" using i by auto
    with False show ?thesis using i assms by (simp add: nth_byte_bits nth_append bit_drop_bit_eq)
  qed
qed (use assms in simp)

lemma byte_bits_or:
  assumes "byte_bits x = c @ replicate u False" "byte_bits y = replicate (8 - u) False @ e" "length e = u" "u \<le> 8"
  shows "byte_bits (x OR y) = c @ e"
proof -
  have c: "length c = 8 - u" using arg_cong [OF assms(1), of length] assms(4) by simp
  show ?thesis
  proof (rule nth_equalityI)
    fix i assume i: "i < length (byte_bits (x OR y))"
    have "bit x (7 - i) = (c @ replicate u False) ! i" "bit y (7 - i) = (replicate (8 - u) False @ e) ! i"
      using i arg_cong [OF assms(1), of "\<lambda>l. l ! i"] arg_cong [OF assms(2), of "\<lambda>l. l ! i"]
      by (simp_all add: nth_byte_bits)
    then show "byte_bits (x OR y) ! i = (c @ e) ! i"
      using i c assms(3,4) by (auto simp: nth_byte_bits bit_or_iff nth_append)
  qed (use c assms in auto)
qed

section \<open>The bits up to the current byte\<close>

definition reaches :: "per_out \<Rightarrow> bool list \<Rightarrow> bool" where
  "reaches b cs \<longleftrightarrow> 0 \<le> po_ptr b \<and> po_ptr b < int (length (po_data b)) \<and>
     concat (map byte_bits (take (Suc (nat (po_ptr b))) (po_data b))) = cs"

lemma reaches_unused [simp]: "reaches (b\<lparr>po_unused := u\<rparr>) cs = reaches b cs"
  by (simp add: reaches_def)

lemma length_concat_bits: "length (concat (map byte_bits xs)) = 8 * length xs"
  by (induction xs) auto

lemma reaches_length: "reaches b cs \<Longrightarrow> length cs = 8 * Suc (nat (po_ptr b))"
  by (auto simp: reaches_def length_concat_bits)

definition succeeds :: "'a pres \<Rightarrow> ('a \<Rightarrow> bool) \<Rightarrow> bool" where
  "succeeds m Q \<longleftrightarrow> (\<exists>a. m = Ok a \<and> Q a)"

lemma succeeds_Ok [simp]: "succeeds (Ok a) Q = Q a"
  by (simp add: succeeds_def)

lemma succeeds_bind: "succeeds m (\<lambda>a. succeeds (f a) Q) \<Longrightarrow> succeeds (bindr m f) Q"
  by (auto simp: succeeds_def)

lemma succeeds_weaken: "succeeds m P \<Longrightarrow> (\<And>a. P a \<Longrightarrow> Q a) \<Longrightarrow> succeeds m Q"
  by (auto simp: succeeds_def)

lemma reaches_split:
  assumes "reaches b cs"
  obtains ds where "cs = ds @ byte_bits (po_data b ! nat (po_ptr b))"
    and "concat (map byte_bits (take (nat (po_ptr b)) (po_data b))) = ds"
    and "nat (po_ptr b) < length (po_data b)"
  using assms by (auto simp: reaches_def take_Suc_conv_app_nth)

lemma reaches_set:
  assumes "nat (po_ptr b) < length (po_data b)" "0 \<le> po_ptr b"
    and "concat (map byte_bits (take (nat (po_ptr b)) (po_data b))) = ds"
  shows "succeeds (po_set x b) (\<lambda>b'. \<exists>d. b' = b\<lparr>po_data := d\<rparr> \<and> length d = length (po_data b) \<and>
    reaches (b\<lparr>po_data := d\<rparr>) (ds @ byte_bits x))"
  using assms by (auto simp: po_set_def wr_def in_range_def reaches_def take_Suc_conv_app_nth)

lemma po_or_reaches:
  assumes "reaches b (cs @ replicate u False)" "byte_bits x = replicate (8 - u) False @ e" "length e = u" "u \<le> 8"
  shows "succeeds (po_or x b) (\<lambda>b'. \<exists>d. b' = b\<lparr>po_data := d\<rparr> \<and> length d = length (po_data b) \<and>
    reaches (b\<lparr>po_data := d\<rparr>) (cs @ e))"
proof -
  let ?y = "po_data b ! nat (po_ptr b)"
  obtain ds where ds: "cs @ replicate u False = ds @ byte_bits ?y"
      "concat (map byte_bits (take (nat (po_ptr b)) (po_data b))) = ds" "nat (po_ptr b) < length (po_data b)"
    by (rule reaches_split [OF assms(1)])
  have l: "length cs = length ds + (8 - u)" using arg_cong [OF ds(1), of length] assms(4) by simp
  have "cs = ds @ drop (length ds) cs \<and> byte_bits ?y = drop (length ds) cs @ replicate u False"
    using ds(1) l by (simp add: append_eq_append_conv_if split: if_splits)
      (metis append_eq_conv_conj append_take_drop_id drop_append)
  then obtain c where c: "cs = ds @ c" "byte_bits ?y = c @ replicate u False" by blast
  have "byte_bits (?y OR x) = c @ e" using c(2) assms(2-4) by (rule byte_bits_or)
  moreover have "0 \<le> po_ptr b" using assms(1) by (simp add: reaches_def)
  ultimately show ?thesis
    using reaches_set [OF ds(3) _ ds(2), of "?y OR x"] ds(3) c(1)
    by (simp add: po_or_def rd_def in_range_def nat_less_iff)
qed

lemma po_set_reaches:
  assumes "reaches b (cs @ replicate 8 False)"
  shows "succeeds (po_set x b) (\<lambda>b'. \<exists>d. b' = b\<lparr>po_data := d\<rparr> \<and> length d = length (po_data b) \<and>
    reaches (b\<lparr>po_data := d\<rparr>) (cs @ byte_bits x))"
proof -
  obtain ds where ds: "cs @ replicate 8 False = ds @ byte_bits (po_data b ! nat (po_ptr b))"
      "concat (map byte_bits (take (nat (po_ptr b)) (po_data b))) = ds" "nat (po_ptr b) < length (po_data b)"
    by (rule reaches_split [OF assms])
  then have "cs = ds" using arg_cong [OF ds(1), of length] by (simp add: append_eq_append_conv)
  with reaches_set [OF ds(3) _ ds(2), of x] assms show ?thesis by (simp add: reaches_def)
qed

lemma po_next_reaches:
  assumes "reaches b cs" "po_ptr b + 1 < int (length (po_data b))"
  shows "succeeds (po_next b) (\<lambda>b'. \<exists>d. b' = b\<lparr>po_ptr := po_ptr b + 1\<rparr>\<lparr>po_data := d\<rparr> \<and> length d = length (po_data b) \<and>
    reaches (b\<lparr>po_ptr := po_ptr b + 1\<rparr>\<lparr>po_data := d\<rparr>) (cs @ replicate 8 False))"
proof -
  have n: "nat (po_ptr b + 1) = Suc (nat (po_ptr b))" using assms(1) by (auto simp: reaches_def)
  have "succeeds (po_set 0 (b\<lparr>po_ptr := po_ptr b + 1\<rparr>)) (\<lambda>b'. \<exists>d. b' = b\<lparr>po_ptr := po_ptr b + 1\<rparr>\<lparr>po_data := d\<rparr> \<and>
      length d = length (po_data (b\<lparr>po_ptr := po_ptr b + 1\<rparr>)) \<and>
      reaches (b\<lparr>po_ptr := po_ptr b + 1\<rparr>\<lparr>po_data := d\<rparr>) (cs @ byte_bits 0))"
    using assms n by (intro reaches_set) (auto simp: reaches_def)
  then show ?thesis unfolding po_next_def by (rule succeeds_weaken) auto
qed

section \<open>The bits that have been written\<close>

definition holds :: "per_out \<Rightarrow> bool list \<Rightarrow> bool" where
  "holds b bs \<longleftrightarrow> 1 \<le> po_unused b \<and> po_unused b \<le> 8 \<and> reaches b (bs @ replicate (nat (po_unused b)) False)"

lemma holds_length:
  assumes "holds b bs"
  shows "8 * (po_ptr b + 1) = int (length bs) + po_unused b" "0 \<le> po_ptr b"
proof -
  have r: "reaches b (bs @ replicate (nat (po_unused b)) False)" "1 \<le> po_unused b"
    using assms by (auto simp: holds_def)
  then show "0 \<le> po_ptr b" by (simp add: reaches_def)
  then show "8 * (po_ptr b + 1) = int (length bs) + po_unused b"
    using reaches_length [OF r(1)] r(2) by simp
qed

text \<open>\<open>extends b bs e b'\<close>: the output \<open>b'\<close> has the bits \<open>e\<close> behind the bits \<open>bs\<close> of \<open>b\<close>.\<close>

definition extends :: "per_out \<Rightarrow> bool list \<Rightarrow> bool list \<Rightarrow> per_out \<Rightarrow> bool" where
  "extends b bs e b' \<longleftrightarrow> holds b' (bs @ e) \<and> length (po_data b') = length (po_data b)"

definition has_room :: "per_out \<Rightarrow> bool list \<Rightarrow> nat \<Rightarrow> bool" where
  "has_room b bs n \<longleftrightarrow> length bs + n < 8 * length (po_data b)"

lemma extends_trans: "extends b bs e b' \<Longrightarrow> extends b' (bs @ e) e' b'' \<Longrightarrow> extends b bs (e @ e') b''"
  by (simp add: extends_def)

lemma has_room_extends: "extends b bs e b' \<Longrightarrow> has_room b bs (length e + n) \<Longrightarrow> has_room b' (bs @ e) n"
  by (simp add: extends_def has_room_def)

lemma next_fits:
  assumes "holds b bs" "has_room b bs n" "po_unused b \<le> int n"
  shows "po_ptr b + 1 < int (length (po_data b))"
  using holds_length [OF assms(1)] assms(2,3) by (simp add: has_room_def)

text \<open>The two ways in which an insertion ends: inside the current byte, or at its end.\<close>

lemma po_or_inside:
  assumes "holds b bs" "byte_bits x = replicate (8 - nat (po_unused b)) False @ e @ replicate n False"
    and "length e + n = nat (po_unused b)" "1 \<le> n"
  shows "succeeds (po_or x b) (\<lambda>b'. po_unused b' = po_unused b \<and> extends b bs e (b'\<lparr>po_unused := int n\<rparr>))"
proof -
  have r: "reaches b (bs @ replicate (nat (po_unused b)) False)" "nat (po_unused b) \<le> 8"
    using assms(1) by (auto simp: holds_def)
  show ?thesis
    by (rule succeeds_weaken [OF po_or_reaches [OF r(1) assms(2)]])
      (use assms r in \<open>auto simp: extends_def holds_def\<close>)
qed

lemma po_or_full:
  assumes "holds b bs" "byte_bits x = replicate (8 - nat (po_unused b)) False @ e"
    and "length e = nat (po_unused b)" "has_room b bs (length e)"
  shows "succeeds (bindr (po_or x b) po_next) (\<lambda>b'. po_unused b' = po_unused b \<and> extends b bs e (b'\<lparr>po_unused := 8\<rparr>))"
    and "succeeds (bindr (po_or x b) (\<lambda>b. po_next (b\<lparr>po_unused := 8\<rparr>))) (extends b bs e)"
proof -
  have u: "1 \<le> po_unused b" "po_unused b \<le> 8" using assms(1) by (auto simp: holds_def)
  have r: "reaches b (bs @ replicate (nat (po_unused b)) False)" "nat (po_unused b) \<le> 8"
    using assms(1) by (auto simp: holds_def)
  have f: "po_ptr b + 1 < int (length (po_data b))"
    using next_fits [OF assms(1,4)] assms(3) u by simp
  show "succeeds (bindr (po_or x b) po_next) (\<lambda>b'. po_unused b' = po_unused b \<and> extends b bs e (b'\<lparr>po_unused := 8\<rparr>))"
  proof (rule succeeds_bind, rule succeeds_weaken [OF po_or_reaches [OF r(1) assms(2,3) r(2)]], clarify)
    fix d assume d: "length d = length (po_data b)" "reaches (b\<lparr>po_data := d\<rparr>) (bs @ e)"
    show "succeeds (po_next (b\<lparr>po_data := d\<rparr>)) (\<lambda>b'. po_unused b' = po_unused b \<and> extends b bs e (b'\<lparr>po_unused := 8\<rparr>))"
      by (rule succeeds_weaken [OF po_next_reaches [OF d(2)]]) (use d f in \<open>auto simp: extends_def holds_def reaches_def\<close>)
  qed
  show "succeeds (bindr (po_or x b) (\<lambda>b. po_next (b\<lparr>po_unused := 8\<rparr>))) (extends b bs e)"
  proof (rule succeeds_bind, rule succeeds_weaken [OF po_or_reaches [OF r(1) assms(2,3) r(2)]], clarify)
    fix d assume d: "length d = length (po_data b)" "reaches (b\<lparr>po_data := d\<rparr>) (bs @ e)"
    then have "reaches (b\<lparr>po_data := d, po_unused := 8\<rparr>) (bs @ e)" by simp
    then show "succeeds (po_next (b\<lparr>po_data := d, po_unused := 8\<rparr>)) (extends b bs e)"
      by (rule succeeds_weaken [OF po_next_reaches]) (use d f in \<open>auto simp: extends_def holds_def reaches_def\<close>)
  qed
qed

lemma po_next_pads:
  assumes "holds b bs" "has_room b bs (nat (po_unused b))"
  shows "succeeds (po_next (b\<lparr>po_unused := 8\<rparr>)) (extends b bs (replicate (nat (po_unused b)) False))"
proof -
  have r: "reaches (b\<lparr>po_unused := 8\<rparr>) (bs @ replicate (nat (po_unused b)) False)"
    using assms(1) by (simp add: holds_def)
  show ?thesis
    by (rule succeeds_weaken [OF po_next_reaches [OF r]])
      (use next_fits [OF assms(1,2)] in \<open>auto simp: extends_def holds_def reaches_def\<close>)
qed

section \<open>Single bits and alignment\<close>

lemma per_zero_bit_extends:
  assumes "holds b bs" "has_room b bs 1"
  shows "succeeds (per_zero_bit b) (\<lambda>(_, b'). extends b bs [False] b')"
proof (cases "po_unused b = 1")
  case True
  then show ?thesis
    using po_next_pads [OF assms(1)] assms(2) by (auto simp: per_zero_bit_def intro!: succeeds_bind elim!: succeeds_weaken)
next
  case False
  then have "nat (po_unused b) = Suc (nat (po_unused b - 1))" using assms(1) by (auto simp: holds_def)
  with False assms show ?thesis
    by (auto simp: per_zero_bit_def extends_def holds_def)
qed

lemma byte_bits_power: "n < 8 \<Longrightarrow> byte_bits (push_bit n 1) = replicate (7 - n) False @ True # replicate n False"
proof -
  assume "n < 8"
  moreover have "byte_bits 1 = replicate 7 False @ [True]" by code_simp
  ultimately show ?thesis by (subst byte_bits_push) auto
qed

lemma per_one_bit_extends:
  assumes "holds b bs" "has_room b bs 1"
  shows "succeeds (per_one_bit b) (\<lambda>(_, b'). extends b bs [True] b')"
proof (cases "po_unused b = 1")
  case True
  have "byte_bits 1 = replicate (8 - nat (po_unused b)) False @ [True]"
    using byte_bits_power [of 0] True by simp
  from po_or_full(2) [OF assms(1) this] True assms(2) show ?thesis
    by (auto simp: per_one_bit_def bindr_assoc [symmetric] intro!: succeeds_bind [where f = "\<lambda>b. Ok (1, b)"] elim!: succeeds_weaken)
next
  case False
  define n where "n = nat (po_unused b - 1)"
  have n: "1 \<le> n" "n < 8" "nat (po_unused b) = Suc n" "po_unused b - 1 = int n"
    using assms(1) False by (auto simp: holds_def n_def)
  have "byte_bits (push_bit n 1) = replicate (8 - nat (po_unused b)) False @ [True] @ replicate n False"
    using byte_bits_power [OF n(2)] n(3) by simp
  from po_or_inside [OF assms(1) this] n have "succeeds (po_or (push_bit n 1) b)
      (\<lambda>b'. po_unused b' = po_unused b \<and> extends b bs [True] (b'\<lparr>po_unused := int n\<rparr>))" by simp
  with False n show ?thesis
    by (auto simp: per_one_bit_def shl_def intro!: succeeds_bind elim!: succeeds_weaken)
qed

section \<open>Parts of a byte\<close>

lemma or_next_or:
  assumes "holds b bs" "byte_bits x = replicate (8 - nat (po_unused b)) False @ e" "length e = nat (po_unused b)"
    and "byte_bits y = e' @ replicate n False" "1 \<le> n" "n \<le> 8" "has_room b bs (length e + length e')"
    and Q: "\<And>b'. po_unused b' = po_unused b \<Longrightarrow> extends b bs (e @ e') (b'\<lparr>po_unused := int n\<rparr>) \<Longrightarrow> succeeds (f b') Q"
  shows "succeeds (bindr (po_or x b) (\<lambda>b. bindr (po_next b) (\<lambda>b. bindr (po_or y b) f))) Q"
proof -
  have l: "length e' = 8 - n" using arg_cong [OF assms(4), of length] by simp
  have room: "has_room b bs (length e)" using assms(7) by (simp add: has_room_def)
  have "succeeds (bindr (bindr (po_or x b) po_next) (\<lambda>b. bindr (po_or y b) f)) Q"
  proof (rule succeeds_bind, rule succeeds_weaken [OF po_or_full(1) [OF assms(1-3) room]], clarify)
    fix b' assume b': "po_unused b' = po_unused b" "extends b bs e (b'\<lparr>po_unused := 8\<rparr>)"
    then have r: "reaches b' ((bs @ e) @ replicate 8 False)" by (simp add: extends_def holds_def)
    show "succeeds (bindr (po_or y b') f) Q"
    proof (rule succeeds_bind, rule succeeds_weaken [OF po_or_reaches [OF r]])
      show "byte_bits y = replicate (8 - 8) False @ (e' @ replicate n False)" using assms(4) by simp
      fix b'' assume "\<exists>d. b'' = b'\<lparr>po_data := d\<rparr> \<and> length d = length (po_data b') \<and>
        reaches (b'\<lparr>po_data := d\<rparr>) ((bs @ e) @ e' @ replicate n False)"
      then show "succeeds (f b'') Q"
        using b' assms(5,6) by (intro Q) (auto simp: extends_def holds_def)
    qed (use l assms(6) in auto)
  qed
  then show ?thesis by (simp add: bindr_assoc)
qed

lemma shift_simps:
  "0 \<le> n \<Longrightarrow> n \<le> 8 \<Longrightarrow> shl v n = Ok (push_bit (nat n) v)"
  "0 \<le> n \<Longrightarrow> n \<le> 8 \<Longrightarrow> shr v n = Ok (drop_bit (nat n) v)"
  by (simp_all add: shl_def shr_def)

lemma per_insert_most_sign_bits_extends:
  assumes b: "holds b bs" and v: "byte_bits v = e @ replicate (8 - n) False" "length e = n" "n \<le> 8"
    and room: "has_room b bs n"
  shows "succeeds (per_insert_most_sign_bits (int n) v b) (extends b bs e)"
proof -
  define u where "u = nat (po_unused b)"
  have u: "po_unused b = int u" "1 \<le> u" "u \<le> 8" using b by (auto simp: holds_def u_def)
  have sh: "shr v (8 - int u) = Ok (drop_bit (8 - u) v)" "shl v (int u) = Ok (push_bit u v)"
    using u by (simp_all add: shift_simps nat_diff_distrib')
  have x: "byte_bits (drop_bit (8 - u) v) = replicate (8 - nat (po_unused b)) False @ take u (e @ replicate (8 - n) False)"
    using u v by (simp add: byte_bits_drop)
  consider "n < u" | "n = u" | "n > u" by linarith
  then show ?thesis
  proof cases
    case 1
    have "byte_bits (drop_bit (8 - u) v) = replicate (8 - nat (po_unused b)) False @ e @ replicate (u - n) False"
      using x 1 v u by simp
    from po_or_inside [OF b this] have "succeeds (po_or (drop_bit (8 - u) v) b) (\<lambda>b'. po_unused b' = po_unused b \<and>
      extends b bs e (b'\<lparr>po_unused := int (u - n)\<rparr>))" using 1 v u by simp
    with 1 u show ?thesis
      by (auto simp: per_insert_most_sign_bits_def sh of_nat_diff intro!: succeeds_bind elim!: succeeds_weaken)
  next
    case 2
    have "byte_bits (drop_bit (8 - u) v) = replicate (8 - nat (po_unused b)) False @ e" using x 2 v u by simp
    from po_or_full(2) [OF b this] room 2 v u show ?thesis
      by (simp add: per_insert_most_sign_bits_def sh)
  next
    case 3
    have y: "byte_bits (push_bit u v) = drop u e @ replicate (8 - (n - u)) False"
      using 3 v u by (simp add: byte_bits_push replicate_add [symmetric])
    have x': "byte_bits (drop_bit (8 - u) v) = replicate (8 - nat (po_unused b)) False @ take u e"
      using x 3 v u by simp
    have "succeeds (bindr (po_or (drop_bit (8 - u) v) b) (\<lambda>b. bindr (po_next b) (\<lambda>b.
        bindr (po_or (push_bit u v) b) (\<lambda>b. Ok (b\<lparr>po_unused := 8 - (int n - int u)\<rparr>))))) (extends b bs e)"
      using 3 v u room by (intro or_next_or [OF b x' _ y]) (auto simp: of_nat_diff diff_diff_eq2)
    with 3 u show ?thesis by (simp add: per_insert_most_sign_bits_def sh)
  qed
qed

lemma per_insert_least_sign_bits_extends:
  assumes b: "holds b bs" and v: "byte_bits v = replicate (8 - n) False @ e" "length e = n" "n \<le> 8"
    and room: "has_room b bs n"
  shows "succeeds (per_insert_least_sign_bits (int n) v b) (\<lambda>(_, b'). extends b bs e b')"
proof -
  define u where "u = nat (po_unused b)"
  have u: "po_unused b = int u" "1 \<le> u" "u \<le> 8" using b by (auto simp: holds_def u_def)
  consider "n < u" | "n = u" | "n > u" by linarith
  then show ?thesis
  proof cases
    case 1
    have "byte_bits (push_bit (u - n) v) = replicate (8 - nat (po_unused b)) False @ e @ replicate (u - n) False"
      using 1 v u by (simp add: byte_bits_push)
    from po_or_inside [OF b this] have "succeeds (po_or (push_bit (u - n) v) b) (\<lambda>b'. po_unused b' = po_unused b \<and>
      extends b bs e (b'\<lparr>po_unused := int (u - n)\<rparr>))" using 1 v u by simp
    with 1 u show ?thesis
      by (auto simp: per_insert_least_sign_bits_def shift_simps nat_diff_distrib' of_nat_diff
          intro!: succeeds_bind elim!: succeeds_weaken)
  next
    case 2
    have "byte_bits v = replicate (8 - nat (po_unused b)) False @ e" using 2 v u by simp
    from po_or_full(2) [OF b this] room 2 v u show ?thesis
      by (auto simp: per_insert_least_sign_bits_def bindr_assoc [symmetric]
          intro!: succeeds_bind [where f = "\<lambda>b. Ok (1, b)"] elim!: succeeds_weaken)
  next
    case 3
    have s: "shr v (int n - int u) = Ok (drop_bit (n - u) v)" "shl v (8 - (int n - int u)) = Ok (push_bit (8 - (n - u)) v)"
      using 3 u v by (simp_all add: shift_simps nat_diff_distrib')
    have y: "byte_bits (push_bit (8 - (n - u)) v) = drop u e @ replicate (8 - (n - u)) False"
      using 3 v u by (simp add: byte_bits_push)
    have x: "byte_bits (drop_bit (n - u) v) = replicate (8 - nat (po_unused b)) False @ take u e"
      using 3 v u by (simp add: byte_bits_drop replicate_add [symmetric])
    have "succeeds (bindr (po_or (drop_bit (n - u) v) b) (\<lambda>b. bindr (po_next b) (\<lambda>b.
        bindr (po_or (push_bit (8 - (n - u)) v) b) (\<lambda>b. Ok (1 :: int, b\<lparr>po_unused := 8 - (int n - int u)\<rparr>)))))
        (\<lambda>(_, b'). extends b bs e b')"
      using 3 v u room by (intro or_next_or [OF b x _ y]) (auto simp: of_nat_diff diff_diff_eq2)
    with 3 u s show ?thesis by (simp add: per_insert_least_sign_bits_def)
  qed
qed

section \<open>Sequences of bits and octets\<close>

lemma succeeds_extends_bind:
  assumes "succeeds m (\<lambda>(x, b'). extends b bs e b')"
    and "\<And>x b'. extends b bs e b' \<Longrightarrow> succeeds (f (x, b')) Q"
  shows "succeeds (bindr m f) Q"
  using assms by (auto simp: succeeds_def)

lemma extends_refl: "holds b bs \<Longrightarrow> extends b bs [] b"
  by (simp add: extends_def)

lemma per_pad_extends:
  "holds b bs \<Longrightarrow> has_room b bs n \<Longrightarrow> succeeds (per_pad n r b) (\<lambda>(_, b'). extends b bs (replicate n False) b')"
proof (induction n arbitrary: r b bs)
  case (Suc n)
  have h: "has_room b bs 1" using Suc.prems(2) by (simp add: has_room_def)
  show ?case
    unfolding per_pad.simps
  proof (rule succeeds_extends_bind [OF per_zero_bit_extends [OF Suc.prems(1) h]])
    fix x b' assume b': "extends b bs [False] b'"
    then have "holds b' (bs @ [False])" "has_room b' (bs @ [False]) n"
      using has_room_extends [OF b', of n] Suc.prems(2) by (auto simp: extends_def)
    from Suc.IH [OF this, of "r + x"] show "succeeds (case (x, b') of (new, b) \<Rightarrow> per_pad n (r + new) b)
        (\<lambda>(_, b'). extends b bs (replicate (Suc n) False) b')"
      using extends_trans [OF b', of "replicate n False"] by (auto elim!: succeeds_weaken)
  qed
qed (simp add: extends_refl)

text \<open>A byte of the input that is 0 or 1 stands for a bit.\<close>

definition bit_octet :: "bool \<Rightarrow> byte" where
  "bit_octet v = (if v then 1 else 0)"

lemma per_bit_octets_extends:
  "holds b bs \<Longrightarrow> has_room b bs (length vs) \<Longrightarrow> at_off in_buf (p + 1) (map bit_octet vs) \<Longrightarrow>
   succeeds (per_bit_octets (length vs) in_buf p b) (\<lambda>(p', b'). p' = p + int (length vs) \<and> extends b bs vs b')"
proof (induction vs arbitrary: p b bs)
  case (Cons v vs)
  have h: "has_room b bs 1" using Cons.prems(2) by (simp add: has_room_def)
  have rd: "rd in_buf (p + 1) = (Ok (bit_octet v) :: byte pres)" using Cons.prems(3) by (simp add: rd_def)
  let ?m = "if v then per_one_bit b else per_zero_bit b"
  have m: "succeeds ?m (\<lambda>(_, b'). extends b bs [v] b')"
    using per_one_bit_extends [OF Cons.prems(1) h] per_zero_bit_extends [OF Cons.prems(1) h] by simp
  have "succeeds (bindr ?m (\<lambda>(_, b). per_bit_octets (length vs) in_buf (p + 1) b))
      (\<lambda>(p', b'). p' = p + int (length (v # vs)) \<and> extends b bs (v # vs) b')"
  proof (rule succeeds_extends_bind [OF m])
    fix x b' assume b': "extends b bs [v] b'"
    then have "holds b' (bs @ [v])" "has_room b' (bs @ [v]) (length vs)"
      using has_room_extends [OF b', of "length vs"] Cons.prems(2) by (auto simp: extends_def)
    from Cons.IH [OF this, of "p + 1"] Cons.prems(3)
    show "succeeds (case (x, b') of (_, b) \<Rightarrow> per_bit_octets (length vs) in_buf (p + 1) b)
        (\<lambda>(p', b'). p' = p + int (length (v # vs)) \<and> extends b bs (v # vs) b')"
      using extends_trans [OF b', of vs] by (auto elim!: succeeds_weaken)
  qed
  then show ?case by (simp add: rd bit_octet_def split: if_splits)
qed (simp add: extends_refl)

abbreviation octets_bits :: "byte list \<Rightarrow> bool list" where
  "octets_bits xs \<equiv> concat (map byte_bits xs)"

lemma per_align_extends:
  assumes "holds b bs" "has_room b bs ((8 - length bs mod 8) mod 8)"
  shows "succeeds (per_align b) (\<lambda>(_, b'). po_unused b' = 8 \<and>
    extends b bs (replicate ((8 - length bs mod 8) mod 8) False) b')"
proof -
  define u where "u = nat (po_unused b)"
  have u: "po_unused b = int u" "1 \<le> u" "u \<le> 8" using assms(1) by (auto simp: holds_def u_def)
  have l: "8 * Suc (nat (po_ptr b)) = length bs + u"
    using holds_length [OF assms(1)] u by (simp add: nat_eq_iff)
  have m: "(8 - length bs mod 8) mod 8 = (if u = 8 then 0 else u)"
  proof -
    define q where "q = nat (po_ptr b)"
    have "length bs = (8 - u) + 8 * q" using l u(2,3) unfolding q_def [symmetric] by arith
    then have "length bs mod 8 = (8 - u) mod 8" by simp
    then show ?thesis using u by (cases "u = 8") (simp_all add: mod_less)
  qed
  show ?thesis
  proof (cases "u = 8")
    case True
    then show ?thesis using assms(1) u m by (simp add: per_align_def extends_refl)
  next
    case False
    have r: "has_room b bs (nat (po_unused b))" using assms(2) u m False by (simp add: has_room_def)
    have "succeeds (po_next (b\<lparr>po_unused := 8\<rparr>)) (\<lambda>b'. po_unused b' = 8 \<and> extends b bs (replicate u False) b')"
      using po_next_pads [OF assms(1) r]
      by (auto simp: succeeds_def u po_next_def po_set_def bindr_eq_Ok)
    then show ?thesis
      using False u m by (auto simp: per_align_def intro!: succeeds_bind elim!: succeeds_weaken)
  qed
qed

text \<open>Whole octets, at a byte boundary and between.\<close>

lemma po_set_octet:
  assumes "holds b bs" "po_unused b = 8" "has_room b bs 8"
  shows "succeeds (bindr (po_set v b) po_next) (\<lambda>b'. po_unused b' = 8 \<and> extends b bs (byte_bits v) b')"
proof -
  have r: "reaches b (bs @ replicate 8 False)" using assms(1,2) by (simp add: holds_def)
  show ?thesis
  proof (rule succeeds_bind, rule succeeds_weaken [OF po_set_reaches [OF r]], clarify)
    fix d assume d: "length d = length (po_data b)" "reaches (b\<lparr>po_data := d\<rparr>) (bs @ byte_bits v)"
    show "succeeds (po_next (b\<lparr>po_data := d\<rparr>)) (\<lambda>b'. po_unused b' = 8 \<and> extends b bs (byte_bits v) b')"
      by (rule succeeds_weaken [OF po_next_reaches [OF d(2)]])
        (use next_fits [OF assms(1,3)] assms(2) d in \<open>auto simp: extends_def holds_def reaches_def\<close>)
  qed
qed

lemma per_copy_octets_extends:
  "holds b bs \<Longrightarrow> po_unused b = 8 \<Longrightarrow> has_room b bs (8 * length vs) \<Longrightarrow> at_off in_buf (p + 1) vs \<Longrightarrow>
   succeeds (per_copy_octets (length vs) in_buf p b)
     (\<lambda>(p', b'). p' = p + int (length vs) \<and> extends b bs (octets_bits vs) b')"
proof (induction vs arbitrary: p b bs)
  case (Cons v vs)
  have h: "has_room b bs 8" using Cons.prems(3) by (simp add: has_room_def)
  have rd: "rd in_buf (p + 1) = (Ok v :: byte pres)" using Cons.prems(4) by (simp add: rd_def)
  have "succeeds (bindr (bindr (po_set v b) po_next) (\<lambda>b. per_copy_octets (length vs) in_buf (p + 1) b))
      (\<lambda>(p', b'). p' = p + int (length (v # vs)) \<and> extends b bs (octets_bits (v # vs)) b')"
  proof (rule succeeds_bind, rule succeeds_weaken [OF po_set_octet [OF Cons.prems(1,2) h]], clarify)
    fix b' assume b': "po_unused b' = 8" "extends b bs (byte_bits v) b'"
    then have "holds b' (bs @ byte_bits v)" "has_room b' (bs @ byte_bits v) (8 * length vs)"
      using has_room_extends [OF b'(2), of "8 * length vs"] Cons.prems(3) by (auto simp: extends_def)
    from Cons.IH [OF this(1) b'(1) this(2), of "p + 1"] Cons.prems(4)
    show "succeeds (per_copy_octets (length vs) in_buf (p + 1) b')
        (\<lambda>(p', b'). p' = p + int (length (v # vs)) \<and> extends b bs (octets_bits (v # vs)) b')"
      using extends_trans [OF b'(2), of "octets_bits vs"] by (auto elim!: succeeds_weaken)
  qed
  then show ?case by (simp add: rd bindr_assoc)
qed (simp add: extends_refl)

lemma unaligned_octet:
  assumes "holds b bs" "po_unused b = u" "has_room b bs 8"
  shows "succeeds (if u = 8 then bindr (po_set v b) po_next
            else bindr (shr v (8 - u)) (\<lambda>x. bindr (po_or x b) (\<lambda>b. bindr (po_next b) (\<lambda>b.
                 bindr (shl v u) (\<lambda>x. po_set x b)))))
     (\<lambda>b'. po_unused b' = u \<and> extends b bs (byte_bits v) b')"
proof (cases "u = 8")
  case True
  then show ?thesis using po_set_octet assms by simp
next
  case False
  define n where "n = nat u"
  have n: "u = int n" "1 \<le> n" "n < 8" using assms(1,2) False by (auto simp: holds_def n_def)
  have x: "byte_bits (drop_bit (8 - n) v) = replicate (8 - nat (po_unused b)) False @ take n (byte_bits v)"
    using n assms(2) by (simp add: byte_bits_drop)
  have r: "has_room b bs (length (take n (byte_bits v)))" using assms(3) n by (simp add: has_room_def)
  have "succeeds (bindr (bindr (po_or (drop_bit (8 - n) v) b) po_next) (\<lambda>b. po_set (push_bit n v) b))
      (\<lambda>b'. po_unused b' = u \<and> extends b bs (byte_bits v) b')"
  proof (rule succeeds_bind, rule succeeds_weaken [OF po_or_full(1) [OF assms(1) x _ r]], goal_cases)
    case 1
    then show ?case using n assms(2) by simp
  next
    case (2 b')
    then have b': "po_unused b' = u" "reaches b' ((bs @ take n (byte_bits v)) @ replicate 8 False)"
      "length (po_data b') = length (po_data b)"
      using assms(2) by (auto simp: extends_def holds_def)
    have "take n (byte_bits v) @ byte_bits (push_bit n v) = byte_bits v @ replicate n False"
      using n by (simp add: byte_bits_push)
    then show ?case
      using b' n by (intro succeeds_weaken [OF po_set_reaches [OF b'(2)]]) (auto simp: extends_def holds_def)
  qed
  then show ?thesis
    using n False by (simp add: shift_simps bindr_assoc nat_diff_distrib')
qed

lemma per_copy_unaligned_extends:
  "holds b bs \<Longrightarrow> po_unused b = u \<Longrightarrow> has_room b bs (8 * length vs) \<Longrightarrow> at_off in_buf (p + 1) vs \<Longrightarrow>
   succeeds (per_copy_unaligned (length vs) in_buf p u b)
     (\<lambda>(p', b'). p' = p + int (length vs) \<and> po_unused b' = u \<and> extends b bs (octets_bits vs) b')"
proof (induction vs arbitrary: p b bs)
  case (Cons v vs)
  have h: "has_room b bs 8" using Cons.prems(3) by (simp add: has_room_def)
  have rd: "rd in_buf (p + 1) = (Ok v :: byte pres)" using Cons.prems(4) by (simp add: rd_def)
  let ?m = "if u = 8 then bindr (po_set v b) po_next
            else bindr (shr v (8 - u)) (\<lambda>x. bindr (po_or x b) (\<lambda>b. bindr (po_next b) (\<lambda>b.
                 bindr (shl v u) (\<lambda>x. po_set x b))))"
  have "succeeds (bindr ?m (\<lambda>b. per_copy_unaligned (length vs) in_buf (p + 1) u b))
     (\<lambda>(p', b'). p' = p + int (Suc (length vs)) \<and> po_unused b' = u \<and> extends b bs (octets_bits (v # vs)) b')"
  proof (rule succeeds_bind, rule succeeds_weaken [OF unaligned_octet [OF Cons.prems(1,2) h]], elim conjE)
    fix b' assume b': "po_unused b' = u" "extends b bs (byte_bits v) b'"
    then have "holds b' (bs @ byte_bits v)" "has_room b' (bs @ byte_bits v) (8 * length vs)"
      using has_room_extends [OF b'(2), of "8 * length vs"] Cons.prems(3) by (auto simp: extends_def)
    from Cons.IH [OF this(1) b'(1) this(2), of "p + 1"] Cons.prems(4)
    show "succeeds (per_copy_unaligned (length vs) in_buf (p + 1) u b')
        (\<lambda>(p', b'). p' = p + int (Suc (length vs)) \<and> po_unused b' = u \<and> extends b bs (octets_bits (v # vs)) b')"
      using extends_trans [OF b'(2), of "octets_bits vs"] by (auto elim!: succeeds_weaken)
  qed
  then show ?case by (simp add: rd)
qed (simp add: extends_refl)

end
