(* ===== verification/Asn1_PerCmds.thy ===== *)
theory Asn1_PerCmds
  imports Asn1_PerBits
begin

text \<open>
  What a sequence of PER completion commands means: \<open>cmd_bytes\<close> is the input of a command, \<open>cmd_bits\<close>
  the bits it appends (alignment depends on the bits before). \<open>per_complete_cmds\<close> shows that the
  interpreter refines this meaning for the commands that do not ask for padding: every
  well-formed input is processed inside the allocated output and gives exactly these bits.
\<close>

section \<open>Commands\<close>

datatype per_cmd =
    PBit bool
  | PAlign
  | PLow nat byte
  | POctets bool "byte list"
  | PExcept bool nat "byte list"
  | PExact bool bool nat "bool list"
  | PHigh bool bool nat "byte list"

definition num_bytes :: "bool \<Rightarrow> nat \<Rightarrow> byte list" where
  "num_bytes wide n = (if wide then [word_of_nat (n div 256), word_of_nat (n mod 256)] else [word_of_nat n])"

definition num_ok :: "bool \<Rightarrow> nat \<Rightarrow> bool" where
  "num_ok wide n \<longleftrightarrow> n < (if wide then 65536 else 256)"

fun cmd_bytes :: "per_cmd \<Rightarrow> byte list" where
  "cmd_bytes (PBit v) = [bit_octet v]"
| "cmd_bytes PAlign = [2]"
| "cmd_bytes (PLow n v) = [10, word_of_nat n, v]"
| "cmd_bytes (POctets w xs) = (if w then 21 else 20) # num_bytes w (length xs) @ xs"
| "cmd_bytes (PExcept w k xs) = (if w then 31 else 30) # word_of_nat k # num_bytes w (length xs) @ xs"
| "cmd_bytes (PExact wl wn d vs) =
     (if wl then if wn then 43 else 42 else if wn then 41 else 40) #
     num_bytes wl d @ num_bytes wn (length vs) @ map bit_octet vs"
| "cmd_bytes (PHigh wl wn d xs) =
     (if wl then if wn then 47 else 46 else 45) # num_bytes wl d @ num_bytes wn (length xs) @ xs"

text \<open>
  Well-formed commands: numbers fit into their bytes, bits that are not used are zero, no padding is
  asked for, and the commands 45 to 47 (\<open>PHigh\<close>) carry exactly the octets that their bits need. With
  more octets than that the code inserts other bits than the wanted ones (theorem \<open>per_bits_leak\<close> of
  \<open>Asn1_Props\<close>), and padding may leave the output (\<open>per_padding_overflows\<close>).
\<close>

fun cmd_ok :: "per_cmd \<Rightarrow> bool" where
  "cmd_ok (PBit v) = True"
| "cmd_ok PAlign = True"
| "cmd_ok (PLow n v) = (n \<le> 8 \<and> list_all Not (take (8 - n) (byte_bits v)))"
| "cmd_ok (POctets w xs) = num_ok w (length xs)"
| "cmd_ok (PExcept w k xs) = (num_ok w (length xs) \<and> k < 8 \<and>
     (k = 0 \<or> xs \<noteq> [] \<and> list_all Not (drop (8 - k) (byte_bits (last xs)))))"
| "cmd_ok (PExact wl wn d vs) = (num_ok wl d \<and> num_ok wn (length vs) \<and> d \<le> length vs)"
| "cmd_ok (PHigh wl wn d xs) = (num_ok wl d \<and> num_ok wn (length xs) \<and> (wn \<longrightarrow> wl) \<and>
     d \<le> 8 * length xs \<and> 8 * length xs < d + 8 \<and>
     (d = 8 * length xs \<or> list_all Not (drop (d mod 8) (byte_bits (last xs)))))"

definition pad_bits :: "bool list \<Rightarrow> bool list" where
  "pad_bits bs = replicate ((8 - length bs mod 8) mod 8) False"

fun cmd_bits :: "bool list \<Rightarrow> per_cmd \<Rightarrow> bool list" where
  "cmd_bits bs (PBit v) = [v]"
| "cmd_bits bs PAlign = pad_bits bs"
| "cmd_bits bs (PLow n v) = drop (8 - n) (byte_bits v)"
| "cmd_bits bs (POctets w xs) = pad_bits bs @ octets_bits xs"
| "cmd_bits bs (PExcept w k xs) = take (8 * length xs - k) (octets_bits xs)"
| "cmd_bits bs (PExact wl wn d vs) = take d vs"
| "cmd_bits bs (PHigh wl wn d xs) = take d (octets_bits xs)"

fun cmds_bits :: "bool list \<Rightarrow> per_cmd list \<Rightarrow> bool list" where
  "cmds_bits bs [] = bs"
| "cmds_bits bs (c # cs) = cmds_bits (bs @ cmd_bits bs c) cs"

lemma length_num_bytes: "length (num_bytes w n) = (if w then 2 else 1)"
  by (simp add: num_bytes_def)

lemma length_cmd_bits: "cmd_ok c \<Longrightarrow> length (cmd_bits bs c) < 8 * length (cmd_bytes c)"
proof (cases c)
  case (POctets w xs)
  have "(8 - length bs mod 8) mod 8 < 8" by simp
  with POctets show ?thesis by (simp add: pad_bits_def length_concat_bits length_num_bytes)
next
  case (PExact wl wn d vs)
  then show "cmd_ok c \<Longrightarrow> ?thesis" by (simp add: length_num_bytes)
qed (auto simp: length_num_bytes length_concat_bits pad_bits_def)

section \<open>One command\<close>

lemma uint_byte_of_nat [simp]: "n < 256 \<Longrightarrow> uint (word_of_nat n :: byte) = int n"
  by (simp add: unsigned_of_nat take_bit_nat_eq_self)

lemma per_num_at:
  assumes "at_off in_buf (p + 1) (num_bytes w n)" "num_ok w n"
  shows "per_num w in_buf p = Ok (int n, p + int (length (num_bytes w n)))"
proof (cases w)
  case True
  have "n div 256 < 256" using assms(2) True by (simp add: num_ok_def)
  moreover have "int (n div 256) * 256 + int (n mod 256) = int n" by (simp add: zdiv_int zmod_int)
  ultimately show ?thesis
    using True assms by (simp add: per_num_def num_bytes_def rd_def add.commute [of 2 p])
next
  case False
  with assms show ?thesis by (simp add: per_num_def num_bytes_def rd_def num_ok_def)
qed

text \<open>
  The state of the interpreter in front of a command (with its counter decremented) and behind
  it: \<open>n\<close> is the size of the input and of the output, \<open>bs\<close> the bits written so far.
\<close>

definition per_pre :: "int \<Rightarrow> bool list \<Rightarrow> per_state \<Rightarrow> bool" where
  "per_pre n bs s \<longleftrightarrow> counter s = n - in_ptr s - 1 \<and> counter s < buf_space s \<and>
     int (length (po_data (outp s))) = n \<and> holds (outp s) bs"

definition per_post :: "int \<Rightarrow> int \<Rightarrow> bool list \<Rightarrow> per_state \<Rightarrow> bool" where
  "per_post n p bs s \<longleftrightarrow> in_ptr s = p \<and> counter s = n - p - 1 \<and> counter s \<le> buf_space s \<and>
     int (length (po_data (outp s))) = n \<and> holds (outp s) bs"

lemma new_bytes:
  "per_zero_bit b = Ok (r, b') \<Longrightarrow> 0 \<le> r \<and> r \<le> 1"
  "per_one_bit b = Ok (r, b') \<Longrightarrow> 0 \<le> r \<and> r \<le> 1"
  "per_align b = Ok (r, b') \<Longrightarrow> 0 \<le> r \<and> r \<le> 1"
  "per_insert_least_sign_bits m v b = Ok (r, b') \<Longrightarrow> 0 \<le> r \<and> r \<le> 1"
  by (auto simp: per_zero_bit_def per_one_bit_def per_align_def per_insert_least_sign_bits_def Let_def
      bindr_eq_Ok split: if_splits)

text \<open>The last step of every case of the interpreter.\<close>

lemma per_post_update:
  assumes "per_pre n bs s" "extends (outp s) bs e b" "c = n - p - 1" "r \<le> counter s + 1 - c" 
  shows "per_post n p (bs @ e) (s\<lparr>counter := c, buf_space := buf_space s - r, in_ptr := p, outp := b\<rparr>)"
  using assms by (simp add: per_pre_def per_post_def extends_def)

lemma per_pre_room:
  "per_pre n bs s \<Longrightarrow> int (length bs + m) < 8 * n \<Longrightarrow> holds (outp s) bs \<and> has_room (outp s) bs m"
  by (auto simp: per_pre_def has_room_def)

lemma per_case_bit_post:
  assumes "per_pre n bs s" "int (length bs + 1) < 8 * n"
  shows "succeeds (per_case_bit v s) (per_post n (in_ptr s) (bs @ [v]))"
proof -
  have h: "holds (outp s) bs" "has_room (outp s) bs 1" using per_pre_room [OF assms] by simp_all
  have "succeeds (if v then per_one_bit (outp s) else per_zero_bit (outp s)) (\<lambda>(_, b'). extends (outp s) bs [v] b')"
    using per_one_bit_extends [OF h] per_zero_bit_extends [OF h] by simp
  then obtain r b where m: "(if v then per_one_bit (outp s) else per_zero_bit (outp s)) = Ok (r, b)" "extends (outp s) bs [v] b"
    by (auto simp: succeeds_def)
  have "0 \<le> r \<and> r \<le> 1" using m(1) new_bytes(1,2) by (metis (full_types))
  then show ?thesis
    using assms(1) m by (auto simp: per_case_bit_def per_pre_def per_post_def extends_def)
qed

lemma per_case_align_post:
  assumes "per_pre n bs s" "int (length bs + length (pad_bits bs)) < 8 * n"
  shows "succeeds (per_case_align s) (per_post n (in_ptr s) (bs @ pad_bits bs))"
proof -
  have h: "holds (outp s) bs" "has_room (outp s) bs ((8 - length bs mod 8) mod 8)"
    using per_pre_room [OF assms] by (simp_all add: pad_bits_def)
  obtain r b where m: "per_align (outp s) = Ok (r, b)" "extends (outp s) bs (pad_bits bs) b"
    using per_align_extends [OF h] by (auto simp: succeeds_def pad_bits_def)
  have "0 \<le> r \<and> r \<le> 1" using m(1) by (rule new_bytes)
  then show ?thesis
    using assms(1) m by (auto simp: per_case_align_def per_pre_def per_post_def extends_def)
qed

lemma list_all_Not: "list_all Not xs \<Longrightarrow> xs = replicate (length xs) False"
  by (induction xs) auto

lemma zero_prefix: "list_all Not (take m xs) \<Longrightarrow> m \<le> length xs \<Longrightarrow> xs = replicate m False @ drop m xs"
  using list_all_Not [of "take m xs"] append_take_drop_id [of m xs] by (simp add: min_absorb2)

lemma zero_suffix: "list_all Not (drop m xs) \<Longrightarrow> xs = take m xs @ replicate (length xs - m) False"
  using list_all_Not [of "drop m xs"] append_take_drop_id [of m xs] by simp

lemma per_case_lsb_post:
  assumes "per_pre n bs s" "cmd_ok (PLow k v)" "at_off in_buf (in_ptr s) (cmd_bytes (PLow k v))" "int (length bs + k) < 8 * n"
  shows "succeeds (per_case_lsb in_buf s) (per_post n (in_ptr s + 2) (bs @ cmd_bits bs (PLow k v)))"
proof -
  have k: "k \<le> 8" and v: "byte_bits v = replicate (8 - k) False @ drop (8 - k) (byte_bits v)"
    using assms(2) zero_prefix [of "8 - k" "byte_bits v"] by simp_all
  have h: "holds (outp s) bs" "has_room (outp s) bs k" using per_pre_room [OF assms(1,4)] by simp_all
  obtain r b where m: "per_insert_least_sign_bits (int k) v (outp s) = Ok (r, b)"
      "extends (outp s) bs (drop (8 - k) (byte_bits v)) b"
    using per_insert_least_sign_bits_extends [OF h(1) v _ k h(2)] k by (auto simp: succeeds_def)
  have "0 \<le> r \<and> r \<le> 1" using m(1) by (rule new_bytes)
  moreover have "rd in_buf (in_ptr s + 1) = (Ok (word_of_nat k) :: byte pres)" "rd in_buf (in_ptr s + 2) = (Ok v :: byte pres)"
    using assms(3) by (simp_all add: rd_def add.commute [of 2])
  ultimately show ?thesis
    using per_post_update [OF assms(1) m(2), of "counter s - 2" "in_ptr s + 2" r] assms(1) m(1) k
    by (simp add: per_case_lsb_def per_pre_def)
qed

lemma per_case_octets_post:
  assumes "per_pre n bs s" "cmd_ok (POctets w xs)" "at_off in_buf (in_ptr s) (cmd_bytes (POctets w xs))"
    and "int (length bs + length (cmd_bits bs (POctets w xs))) < 8 * n" "in_ptr s + int (length (cmd_bytes (POctets w xs))) \<le> n"
  shows "succeeds (per_case_octets w in_buf s)
    (per_post n (in_ptr s + int (length (cmd_bytes (POctets w xs))) - 1) (bs @ cmd_bits bs (POctets w xs)))"
proof -
  define p where "p = in_ptr s + int (length (num_bytes w (length xs)))"
  have num: "per_num w in_buf (in_ptr s) = Ok (int (length xs), p)"
    unfolding p_def using assms(2,3) by (intro per_num_at) (auto simp: at_off_append)
  have h: "holds (outp s) bs" "has_room (outp s) bs (length (pad_bits bs) + 8 * length xs)"
    using per_pre_room [OF assms(1), of "length (pad_bits bs) + 8 * length xs"] assms(4)
    by (simp_all add: length_concat_bits add.assoc)
  have "has_room (outp s) bs ((8 - length bs mod 8) mod 8)" using h(2) by (simp add: has_room_def pad_bits_def)
  from per_align_extends [OF h(1) this] obtain r b where m: "per_align (outp s) = Ok (r, b)" "po_unused b = 8"
      "extends (outp s) bs (pad_bits bs) b"
    by (auto simp: succeeds_def pad_bits_def)
  have "has_room b (bs @ pad_bits bs) (8 * length xs)" using h(2) by (rule has_room_extends [OF m(3)])
  moreover have "holds b (bs @ pad_bits bs)" using m(3) by (simp add: extends_def)
  moreover have "at_off in_buf (p + 1) xs"
    using assms(3) by (simp add: at_off_append p_def algebra_simps)
  ultimately obtain b' where m': "per_copy_octets (length xs) in_buf p b = Ok (p + int (length xs), b')"
      "extends b (bs @ pad_bits bs) (octets_bits xs) b'"
    using per_copy_octets_extends [of b "bs @ pad_bits bs" xs in_buf p] m(2) by (auto simp: succeeds_def)
  have r: "0 \<le> r \<and> r \<le> 1" using m(1) by (rule new_bytes)
  define c where "c = counter s - ((if w then 2 else 1) + int (length xs))"
  have c: "c = n - (p + int (length xs)) - 1" "0 \<le> c"
    using assms(1,5) by (auto simp: c_def p_def per_pre_def length_num_bytes)
  have "per_post n (p + int (length xs)) (bs @ cmd_bits bs (POctets w xs))
      (s\<lparr>counter := c, buf_space := buf_space s - r, in_ptr := p + int (length xs), outp := b'\<rparr>)"
    using per_post_update [OF assms(1) extends_trans [OF m(3) m'(2)] c(1), of r] r by (simp add: c_def split: if_splits)
  moreover have "in_ptr s + int (length (cmd_bytes (POctets w xs))) - 1 = p + int (length xs)" by (simp add: p_def)
  moreover have "per_checked (per_insert_octets (int (length xs)) in_buf p (outp s)) = Ok (r, p + int (length xs), b')"
    using m(1) m'(1) r by (simp add: per_checked_def per_insert_octets_def)
  ultimately show ?thesis
    using c(2) by (simp only: per_case_octets_def num bindr.simps prod.case Let_def c_def [symmetric] if_False not_less) simp
qed

text \<open>The last byte of \<open>per_insert_octets_except_unused\<close> is treated as in \<open>per_insert_most_sign_bits\<close>.\<close>

lemma except_last_byte:
  assumes "po_unused b = u"
  shows "bindr (shr val (8 - u)) (\<lambda>x. bindr (po_or x b) (\<lambda>b.
           if no_bits < u then Ok (ret, q, b\<lparr>po_unused := u - no_bits\<rparr>)
           else if no_bits = u then bindr (po_next (b\<lparr>po_unused := 8\<rparr>)) (\<lambda>b. Ok (ret + 1, q, b))
           else bindr (po_next b) (\<lambda>b. bindr (shl val u) (\<lambda>x. bindr (po_or x b) (\<lambda>b.
                Ok (ret + 1, q, b\<lparr>po_unused := 8 - (no_bits - u)\<rparr>)))))) =
         bindr (per_insert_most_sign_bits no_bits val b) (\<lambda>b. Ok (ret + (if no_bits < u then 0 else 1 :: int), q, b))"
proof -
  consider "no_bits < u" | "no_bits = u" | "no_bits > u" by linarith
  then show ?thesis
    by cases (simp_all add: per_insert_most_sign_bits_def assms bindr_assoc)
qed

text \<open>Octets of which the last one may be used in part.\<close>

lemma partial_octets:
  assumes "holds b bs" "has_room b bs (8 * length xs + m)" "m \<le> 8" "at_off in_buf (p + 1) (xs @ [v])"
    and "list_all Not (drop m (byte_bits v))"
  obtains b' b'' where "per_copy_unaligned (length xs) in_buf p (po_unused b) b = Ok (p + int (length xs), b')"
    and "po_unused b' = po_unused b" "rd in_buf (p + int (length xs) + 1) = (Ok v :: byte pres)"
    and "per_insert_most_sign_bits (int m) v b' = Ok b''"
    and "extends b bs (take (8 * length xs + m) (octets_bits (xs @ [v]))) b''"
proof -
  have "at_off in_buf (p + 1) xs" using assms(4) by (simp add: at_off_append)
  moreover have "has_room b bs (8 * length xs)" using assms(2) by (simp add: has_room_def)
  ultimately obtain b' where b': "per_copy_unaligned (length xs) in_buf p (po_unused b) b = Ok (p + int (length xs), b')"
      "po_unused b' = po_unused b" "extends b bs (octets_bits xs) b'"
    using per_copy_unaligned_extends [OF assms(1) refl, of xs in_buf p] by (auto simp: succeeds_def)
  have "has_room b' (bs @ octets_bits xs) m"
    using has_room_extends [OF b'(3)] assms(2) by (simp add: length_concat_bits)
  moreover have "holds b' (bs @ octets_bits xs)" using b'(3) by (simp add: extends_def)
  moreover have v: "byte_bits v = take m (byte_bits v) @ replicate (8 - m) False"
    using zero_suffix [OF assms(5)] by simp
  ultimately obtain b'' where b'': "per_insert_most_sign_bits (int m) v b' = Ok b''"
      "extends b' (bs @ octets_bits xs) (take m (byte_bits v)) b''"
    using per_insert_most_sign_bits_extends [of b' "bs @ octets_bits xs" v "take m (byte_bits v)" m] assms(3)
    by (auto simp: succeeds_def)
  moreover have "rd in_buf (p + int (length xs) + 1) = (Ok v :: byte pres)"
    using assms(4) by (simp add: at_off_append rd_def algebra_simps)
  ultimately show ?thesis
    using that b' extends_trans [OF b'(3) b''(2)] by (simp add: length_concat_bits)
qed

lemma whole_octets:
  assumes "holds b bs" "has_room b bs (8 * length xs)" "at_off in_buf (p + 1) xs"
  obtains b' where "per_copy_unaligned (length xs) in_buf p (po_unused b) b = Ok (p + int (length xs), b')"
    and "extends b bs (octets_bits xs) b'"
  using per_copy_unaligned_extends [OF assms(1) refl assms(2,3)] by (auto simp: succeeds_def)

lemma except_unused_extends:
  assumes "holds b bs" "cmd_ok (PExcept w k xs)" "at_off in_buf (p + 1) xs" "has_room b bs (8 * length xs - k)"
  obtains r b' where "per_insert_octets_except_unused (int (length xs)) in_buf p b (int k) = Ok (r, p + int (length xs), b')"
    and "0 \<le> r" "r \<le> int (length xs)" "extends b bs (take (8 * length xs - k) (octets_bits xs)) b'"
proof (cases "k = 0")
  case True
  then obtain b' where "per_copy_unaligned (length xs) in_buf p (po_unused b) b = Ok (p + int (length xs), b')"
      "extends b bs (octets_bits xs) b'"
    using whole_octets [OF assms(1) _ assms(3)] assms(4) by auto
  with True that [of "int (length xs)" b'] show ?thesis
    by (simp add: per_insert_octets_except_unused_def per_insert_octets_unaligned_def per_checked_def length_concat_bits)
next
  case False
  with assms(2) obtain ys v where xs: "xs = ys @ [v]" and k: "k < 8" and v: "list_all Not (drop (8 - k) (byte_bits v))"
    by (cases xs rule: rev_cases) auto
  have e: "8 * length xs - k = 8 * length ys + (8 - k)" using k by (simp add: xs)
  from assms(1) assms(4) [unfolded e] diff_le_self assms(3) [unfolded xs] v
  obtain b' b'' where b: "per_copy_unaligned (length ys) in_buf p (po_unused b) b = Ok (p + int (length ys), b')"
      "po_unused b' = po_unused b" "rd in_buf (p + int (length ys) + 1) = (Ok v :: byte pres)"
      "per_insert_most_sign_bits (int (8 - k)) v b' = Ok b''"
      "extends b bs (take (8 * length ys + (8 - k)) (octets_bits (ys @ [v]))) b''"
    by (rule partial_octets)
  define r where "r = int (length ys) + (if 8 - int k < po_unused b then 0 else 1)"
  have "per_insert_octets_except_unused (int (length xs)) in_buf p b (int k) = Ok (r, p + int (length xs), b'')"
    using False b(1,3,4) k
    by (simp add: per_insert_octets_except_unused_def per_insert_octets_unaligned_def per_checked_def xs
        except_last_byte [OF b(2)] r_def add.assoc Let_def of_nat_diff)
  with that [of r b''] b(5) show ?thesis by (simp add: r_def xs e [unfolded xs, simplified])
qed

lemma per_case_except_unused_post:
  fixes w k xs
  defines "c \<equiv> PExcept w k xs"
  assumes "per_pre n bs s" "cmd_ok c" "at_off in_buf (in_ptr s) (cmd_bytes c)"
    and "int (length bs + length (cmd_bits bs c)) < 8 * n" "in_ptr s + int (length (cmd_bytes c)) \<le> n"
  shows "succeeds (per_case_except_unused w in_buf s) (per_post n (in_ptr s + int (length (cmd_bytes c)) - 1) (bs @ cmd_bits bs c))"
proof -
  define p where "p = in_ptr s + 1 + int (length (num_bytes w (length xs)))"
  have k: "k < 8" and num: "num_ok w (length xs)" using assms(3) by (auto simp: c_def)
  have rd: "rd in_buf (in_ptr s + 1) = (Ok (word_of_nat k) :: byte pres)" using assms(4) by (simp add: c_def rd_def)
  have num: "per_num w in_buf (in_ptr s + 1) = Ok (int (length xs), p)"
    unfolding p_def using assms(4) num by (intro per_num_at) (auto simp: c_def at_off_append)
  have at: "at_off in_buf (p + 1) xs"
    using assms(4) by (simp add: c_def at_off_append p_def algebra_simps)
  have room: "has_room (outp s) bs (8 * length xs - k)" "holds (outp s) bs"
    using per_pre_room [OF assms(2,5)] by (simp_all add: c_def length_concat_bits)
  obtain r b where m: "per_insert_octets_except_unused (int (length xs)) in_buf p (outp s) (int k) = Ok (r, p + int (length xs), b)"
      "0 \<le> r" "r \<le> int (length xs)" "extends (outp s) bs (take (8 * length xs - k) (octets_bits xs)) b"
    by (rule except_unused_extends [OF room(2) assms(3) [unfolded c_def] at room(1)])
  define d where "d = counter s - ((if w then 3 else 2) + int (length xs))"
  have d: "d = n - (p + int (length xs)) - 1" "0 \<le> d"
    using assms(2,6) by (auto simp: d_def p_def c_def per_pre_def length_num_bytes)
  have "per_post n (p + int (length xs)) (bs @ cmd_bits bs c)
      (s\<lparr>counter := d, buf_space := buf_space s - r, in_ptr := p + int (length xs), outp := b\<rparr>)"
    using per_post_update [OF assms(2) m(4) d(1), of r] m(3) by (simp add: d_def c_def split: if_splits)
  moreover have "in_ptr s + int (length (cmd_bytes c)) - 1 = p + int (length xs)" by (simp add: p_def c_def)
  moreover have "per_checked (per_insert_octets_except_unused (int (length xs)) in_buf p (outp s) (int k)) =
      Ok (r, p + int (length xs), b)"
    using m by (simp add: per_checked_def)
  moreover have "uint (word_of_nat k :: byte) = int k" using k by simp
  ultimately show ?thesis
    using d(2) by (simp only: per_case_except_unused_def rd num bindr.simps prod.case Let_def d_def [symmetric]) simp
qed

text \<open>Without padding no memory is asked for.\<close>

lemma needed_le_1:
  assumes "d \<le> 8 * m" "1 \<le> u" "0 \<le> m"
  shows "CEIL (d - u) 8 - m \<le> 1"
proof -
  have "(d - u - 1) div 8 \<le> (8 * m) div 8" using assms by (intro zdiv_mono1) auto
  then show ?thesis using assms by (auto simp: CEIL_def cdiv_def intro: order_trans [of _ 0])
qed

lemma per_grow_none: "per_pre n bs s \<Longrightarrow> needed \<le> 1 \<Longrightarrow> per_grow E needed s = Ok s"
  by (simp add: per_grow_def per_pre_def)

text \<open>The two numbers in front of the commands 40 to 47.\<close>

lemma two_nums:
  assumes "at_off in_buf i (x # num_bytes wl d @ num_bytes wn m @ ys)" "num_ok wl d" "num_ok wn m"
  defines "p \<equiv> i + int (length (num_bytes wl d))"
  shows "per_num wl in_buf i = Ok (int d, p)" "per_num wn in_buf p = Ok (int m, p + int (length (num_bytes wn m)))"
    and "at_off in_buf (p + int (length (num_bytes wn m)) + 1) ys"
proof -
  have at: "at_off in_buf (i + 1) (num_bytes wl d)" "at_off in_buf (p + 1) (num_bytes wn m)"
      "at_off in_buf (p + int (length (num_bytes wn m)) + 1) ys"
    using assms(1) by (simp_all add: at_off_append p_def algebra_simps)
  then show "per_num wl in_buf i = Ok (int d, p)" "per_num wn in_buf p = Ok (int m, p + int (length (num_bytes wn m)))"
      "at_off in_buf (p + int (length (num_bytes wn m)) + 1) ys"
    using assms(2,3) by (simp_all add: per_num_at p_def)
qed

lemma exact_len_extends:
  assumes "holds b bs" "d \<le> length vs" "at_off in_buf (p + 1) (map bit_octet vs)" "has_room b bs d"
  obtains b' where "per_insert_octets_as_bits_exact_len (int d) (int (length vs)) in_buf p b = Ok (0, p + int (length vs), b')"
    and "extends b bs (take d vs) b'"
proof -
  have "at_off in_buf (p + 1) (map bit_octet (take d vs))"
    using assms(3) by (metis append_take_drop_id at_off_append map_append)
  then obtain b' where b': "per_bit_octets d in_buf p b = Ok (p + int d, b')" "extends b bs (take d vs) b'"
    using per_bit_octets_extends [OF assms(1), of "take d vs" in_buf p] assms(2,4) by (auto simp: succeeds_def)
  have "cdiv (8 - po_unused b) 8 = 0" using assms(1) by (auto simp: cdiv_def holds_def)
  then have "per_checked (per_insert_octets_as_bits (int d) in_buf p b) = Ok (0, p + int d, b')"
    using b'(1) by (simp add: per_checked_def per_insert_octets_as_bits_def)
  with that [of b'] b'(2) assms(2) show ?thesis
    by (cases "d = length vs") (simp_all add: per_insert_octets_as_bits_exact_len_def)
qed

lemma bits_as_bits_extends:
  assumes "holds b bs" "cmd_ok (PHigh wl wn d xs)" "at_off in_buf (p + 1) xs" "has_room b bs d"
  obtains r b' where "per_insert_bits_as_bits (int d) (int (length xs)) in_buf p b = Ok (r, p + int (length xs), b')"
    and "0 \<le> r" "r \<le> int (length xs)" "extends b bs (take d (octets_bits xs)) b'"
proof (cases "d = 8 * length xs")
  case True
  then obtain b' where "per_copy_unaligned (length xs) in_buf p (po_unused b) b = Ok (p + int (length xs), b')"
      "extends b bs (octets_bits xs) b'"
    using whole_octets [OF assms(1) _ assms(3)] assms(4) by auto
  with True that [of "int (length xs)" b'] show ?thesis
    by (simp add: per_insert_bits_as_bits_def per_insert_octets_unaligned_def length_concat_bits)
next
  case False
  with assms(2) obtain ys v where xs: "xs = ys @ [v]" and v: "list_all Not (drop (d mod 8) (byte_bits v))"
    by (cases xs rule: rev_cases) auto
  have d: "d < 8 * length ys + 8" "8 * length ys < d" using assms(2) False by (auto simp: xs)
  define m where "m = d mod 8"
  have m: "d div 8 = length ys" "m < 8" using d by (auto simp: m_def)
  then have "d = 8 * length ys + m" unfolding m_def by (metis mult_div_mod_eq)
  with m have m: "d div 8 = length ys" "d = 8 * length ys + m" "m < 8" by simp_all
  from assms(1) assms(4) [unfolded m(2)] less_imp_le [OF m(3)] assms(3) [unfolded xs] v [folded m_def]
  obtain b' b'' where b: "per_copy_unaligned (length ys) in_buf p (po_unused b) b = Ok (p + int (length ys), b')"
      "po_unused b' = po_unused b" "rd in_buf (p + int (length ys) + 1) = (Ok v :: byte pres)"
      "per_insert_most_sign_bits (int m) v b' = Ok b''"
      "extends b bs (take (8 * length ys + m) (octets_bits (ys @ [v]))) b''"
    by (rule partial_octets)
  have i: "int d div 8 = int (length ys)" "int d mod 8 = int m"
    unfolding m(1) [symmetric] m_def by (simp_all add: zdiv_int zmod_int)
  have c: "CEIL (int d) 8 = int (length ys) + 1"
    using d by (auto simp: CEIL_def cdiv_def)
  have "per_insert_bits_as_bits (int d) (int (length xs)) in_buf p b = Ok (int (length ys) + 1, p + int (length xs), b'')"
    using d b(1,3,4) by (simp add: per_insert_bits_as_bits_def per_insert_octets_unaligned_def xs i c add.assoc)
  with that [of "int (length ys) + 1" b''] b(5) show ?thesis by (simp add: xs m(2))
qed

lemma per_case_exact_len_post:
  fixes wl wn d vs
  defines "c \<equiv> PExact wl wn d vs"
  assumes "per_pre n bs s" "cmd_ok c" "at_off in_buf (in_ptr s) (cmd_bytes c)"
    and "int (length bs + length (cmd_bits bs c)) < 8 * n" "in_ptr s + int (length (cmd_bytes c)) \<le> n"
  shows "succeeds (per_case_exact_len wl wn E in_buf s) (per_post n (in_ptr s + int (length (cmd_bytes c)) - 1) (bs @ cmd_bits bs c))"
proof -
  have ok: "num_ok wl d" "num_ok wn (length vs)" "d \<le> length vs" using assms(3) by (auto simp: c_def)
  note nums = two_nums [OF assms(4) [unfolded c_def cmd_bytes.simps] ok(1,2)]
  define q where "q = in_ptr s + int (length (num_bytes wl d)) + int (length (num_bytes wn (length vs)))"
  have room: "holds (outp s) bs" "has_room (outp s) bs d"
    using per_pre_room [OF assms(2,5)] ok(3) by (simp_all add: c_def)
  obtain b where b: "per_insert_octets_as_bits_exact_len (int d) (int (length vs)) in_buf q (outp s) = Ok (0, q + int (length vs), b)"
      "extends (outp s) bs (take d vs) b"
    by (rule exact_len_extends [OF room(1) ok(3) nums(3) room(2)]) (simp add: q_def)
  define e where "e = counter s - ((if wl then 2 else 1) + (if wn then 2 else 1) + int (length vs))"
  have e: "e = n - (q + int (length vs)) - 1" "0 \<le> e"
    using assms(2,6) by (auto simp: e_def q_def c_def per_pre_def length_num_bytes)
  have "CEIL (int d - po_unused (outp s)) 8 - int (length vs) \<le> 1"
    using ok(3) room(1) by (intro needed_le_1) (auto simp: holds_def)
  then have g: "per_grow E (if wl \<or> wn then CEIL (int d - po_unused (outp s)) 8 - int (length vs)
      else if int d - int (length vs) - po_unused (outp s) > 0 then CEIL (int d - int (length vs) - po_unused (outp s)) 8 else 0) s = Ok s"
    using ok(3) room(1) by (intro per_grow_none [OF assms(2)]) (auto simp: holds_def)
  have "per_post n (q + int (length vs)) (bs @ cmd_bits bs c)
      (s\<lparr>counter := e, buf_space := buf_space s - 0, in_ptr := q + int (length vs), outp := b\<rparr>)"
    using per_post_update [OF assms(2) b(2) e(1), of 0] by (simp add: e_def c_def split: if_splits)
  moreover have "in_ptr s + int (length (cmd_bytes c)) - 1 = q + int (length vs)" by (simp add: q_def c_def)
  moreover have "per_checked (per_insert_octets_as_bits_exact_len (int d) (int (length vs)) in_buf q (outp s)) =
      Ok (0, q + int (length vs), b)"
    using b by (simp add: per_checked_def)
  ultimately show ?thesis
    using e(2) unfolding per_case_exact_len_def nums bindr.simps prod.case Let_def g
    by (simp only: q_def [symmetric] bindr.simps e_def [symmetric] prod.case) simp
qed

lemma per_case_bits_as_bits_post:
  fixes wl wn d xs
  defines "c \<equiv> PHigh wl wn d xs"
  assumes "per_pre n bs s" "cmd_ok c" "at_off in_buf (in_ptr s) (cmd_bytes c)"
    and "int (length bs + length (cmd_bits bs c)) < 8 * n" "in_ptr s + int (length (cmd_bytes c)) \<le> n"
  shows "succeeds (per_case_bits_as_bits wl wn E in_buf s) (per_post n (in_ptr s + int (length (cmd_bytes c)) - 1) (bs @ cmd_bits bs c))"
proof -
  have ok: "num_ok wl d" "num_ok wn (length xs)" "d \<le> 8 * length xs" using assms(3) by (auto simp: c_def)
  note nums = two_nums [OF assms(4) [unfolded c_def cmd_bytes.simps] ok(1,2)]
  define q where "q = in_ptr s + int (length (num_bytes wl d)) + int (length (num_bytes wn (length xs)))"
  have room: "holds (outp s) bs" "has_room (outp s) bs d"
    using per_pre_room [OF assms(2,5)] ok(3) by (simp_all add: c_def length_concat_bits)
  obtain r b where b: "per_insert_bits_as_bits (int d) (int (length xs)) in_buf q (outp s) = Ok (r, q + int (length xs), b)"
      "0 \<le> r" "r \<le> int (length xs)" "extends (outp s) bs (take d (octets_bits xs)) b"
    by (rule bits_as_bits_extends [OF room(1) assms(3) [unfolded c_def] nums(3) room(2)]) (simp add: q_def)
  define e where "e = counter s - ((if wl then 2 else 1) + (if wn then 2 else 1) + int (length xs))"
  have e: "e = n - (q + int (length xs)) - 1" "0 \<le> e"
    using assms(2,6) by (auto simp: e_def q_def c_def per_pre_def length_num_bytes)
  have "CEIL (int d - po_unused (outp s)) 8 - int (length xs) \<le> 1"
    using ok(3) room(1) by (intro needed_le_1) (auto simp: holds_def)
  then have g: "per_grow E (CEIL (int d - po_unused (outp s)) 8 - int (length xs)) s = Ok s"
    by (rule per_grow_none [OF assms(2)])
  have "per_post n (q + int (length xs)) (bs @ cmd_bits bs c)
      (s\<lparr>counter := e, buf_space := buf_space s - r, in_ptr := q + int (length xs), outp := b\<rparr>)"
    using per_post_update [OF assms(2) b(4) e(1), of r] b(3) by (simp add: e_def c_def split: if_splits)
  moreover have "in_ptr s + int (length (cmd_bytes c)) - 1 = q + int (length xs)" by (simp add: q_def c_def)
  moreover have "per_checked (per_insert_bits_as_bits (int d) (int (length xs)) in_buf q (outp s)) =
      Ok (r, q + int (length xs), b)"
    using b by (simp add: per_checked_def)
  ultimately show ?thesis
    using e(2) unfolding per_case_bits_as_bits_def nums bindr.simps prod.case Let_def g
    by (simp only: q_def [symmetric] bindr.simps e_def [symmetric] prod.case) simp
qed

section \<open>All commands\<close>

lemma per_step_cmd:
  assumes pre: "per_pre n bs s" and ok: "cmd_ok c" and at: "at_off in_buf (in_ptr s) (cmd_bytes c)"
    and room: "int (length bs + length (cmd_bits bs c)) < 8 * n" and fit: "in_ptr s + int (length (cmd_bytes c)) \<le> n"
  shows "succeeds (per_step E in_buf s) (\<lambda>s'. in_ptr s' = in_ptr s + int (length (cmd_bytes c)) \<and>
    counter s' = n - in_ptr s' \<and> counter s' \<le> buf_space s' \<and>
    int (length (po_data (outp s'))) = n \<and> holds (outp s') (bs @ cmd_bits bs c))"
proof -
  have rd: "rd in_buf (in_ptr s) = (Ok (hd (cmd_bytes c)) :: byte pres)"
    using at by (cases c) (auto simp: rd_def)
  define m where "m = (case c of
      PBit v \<Rightarrow> per_case_bit v s
    | PAlign \<Rightarrow> per_case_align s
    | PLow k v \<Rightarrow> per_case_lsb in_buf s
    | POctets w xs \<Rightarrow> per_case_octets w in_buf s
    | PExcept w k xs \<Rightarrow> per_case_except_unused w in_buf s
    | PExact wl wn d vs \<Rightarrow> per_case_exact_len wl wn E in_buf s
    | PHigh wl wn d xs \<Rightarrow> per_case_bits_as_bits wl wn E in_buf s)"
  have step: "per_step E in_buf s = bindr m (\<lambda>s. Ok (s\<lparr>in_ptr := in_ptr s + 1\<rparr>))"
    using ok by (cases c) (auto simp: per_step_def rd m_def bit_octet_def)
  have "succeeds m (per_post n (in_ptr s + int (length (cmd_bytes c)) - 1) (bs @ cmd_bits bs c))"
  proof (cases c)
    case (PBit v)
    then show ?thesis using per_case_bit_post [OF pre, of v] room by (simp add: m_def)
  next
    case PAlign
    then show ?thesis using per_case_align_post [OF pre] room by (simp add: m_def)
  next
    case (PLow k v)
    have "k \<le> 8" using ok PLow by simp
    then show ?thesis
      using per_case_lsb_post [OF pre ok [unfolded PLow] at [unfolded PLow]] room by (simp add: m_def PLow add.commute [of 2])
  next
    case (POctets w xs)
    then show ?thesis
      using per_case_octets_post [OF pre ok [unfolded POctets] at [unfolded POctets] room [unfolded POctets] fit [unfolded POctets]]
      by (simp only: m_def per_cmd.case)
  next
    case (PExcept w k xs)
    then show ?thesis
      using per_case_except_unused_post [OF pre ok [unfolded PExcept] at [unfolded PExcept] room [unfolded PExcept] fit [unfolded PExcept]]
      by (simp only: m_def per_cmd.case)
  next
    case (PExact wl wn d vs)
    then show ?thesis
      using per_case_exact_len_post [OF pre ok [unfolded PExact] at [unfolded PExact] room [unfolded PExact] fit [unfolded PExact]]
      by (simp only: m_def per_cmd.case)
  next
    case (PHigh wl wn d xs)
    then show ?thesis
      using per_case_bits_as_bits_post [OF pre ok [unfolded PHigh] at [unfolded PHigh] room [unfolded PHigh] fit [unfolded PHigh]]
      by (simp only: m_def per_cmd.case)
  qed
  then show ?thesis
    unfolding step by (intro succeeds_bind, elim succeeds_weaken) (auto simp: per_post_def)
qed


declare per_loop.simps [simp del]

lemma cmd_bytes_nonempty: "1 \<le> length (cmd_bytes c)"
  by (cases c) auto

lemma per_loop_cmds:
  assumes "list_all cmd_ok cs" "at_off in_buf (in_ptr s) (concat (map cmd_bytes cs))"
    and "in_ptr s + int (length (concat (map cmd_bytes cs))) = n" "counter s = n - in_ptr s" "counter s \<le> buf_space s"
    and "int (length (po_data (outp s))) = n" "holds (outp s) bs" "int (length bs) \<le> 8 * in_ptr s" "0 \<le> in_ptr s"
  shows "succeeds (per_loop E in_buf s) (\<lambda>s'. int (length (po_data (outp s'))) = n \<and> holds (outp s') (cmds_bits bs cs))"
  using assms
proof (induction cs arbitrary: s bs)
  case Nil
  then show ?case by (simp add: per_loop.simps)
next
  case (Cons c cs)
  let ?s = "s\<lparr>counter := counter s - 1\<rparr>"
  have c: "cmd_ok c" and at: "at_off in_buf (in_ptr ?s) (cmd_bytes c)" using Cons.prems by (simp_all add: at_off_append)
  have l: "length (cmd_bits bs c) < 8 * length (cmd_bytes c)" by (rule length_cmd_bits [OF c])
  have fit: "in_ptr ?s + int (length (cmd_bytes c)) \<le> n" using Cons.prems(3) by simp
  have room: "int (length bs + length (cmd_bits bs c)) < 8 * n"
    using l fit Cons.prems(8) by simp
  have pre: "per_pre n bs ?s" using Cons.prems by (simp add: per_pre_def)
  have pos: "counter s > 0" using Cons.prems(3,4) cmd_bytes_nonempty [of c] by simp
  show ?case
    unfolding per_loop.simps [of E in_buf s] if_P [OF pos]
  proof (rule succeeds_bind, rule succeeds_weaken [OF per_step_cmd [OF pre c at room fit]], elim conjE)
    fix s' :: per_state assume s': "in_ptr s' = in_ptr ?s + int (length (cmd_bytes c))" "counter s' = n - in_ptr s'"
      "counter s' \<le> buf_space s'" "int (length (po_data (outp s'))) = n" "holds (outp s') (bs @ cmd_bits bs c)"
    show "succeeds (per_loop E in_buf s') (\<lambda>s'. int (length (po_data (outp s'))) = n \<and> holds (outp s') (cmds_bits bs (c # cs)))"
      unfolding cmds_bits.simps
      using Cons.prems s' l by (intro Cons.IH) (auto simp: at_off_append)
  qed
qed

text \<open>The returned length and what the bytes up to it hold.\<close>

lemma holds_result:
  assumes "holds b bs" "k = nat (if po_unused b = 8 \<and> po_ptr b \<noteq> 0 then po_ptr b else po_ptr b + 1)"
  shows "k = max 1 ((length bs + 7) div 8)" "k \<le> length (po_data b)"
    and "octets_bits (take k (po_data b)) = bs @ replicate (8 * k - length bs) False"
proof -
  define p where "p = nat (po_ptr b)"
  define u where "u = nat (po_unused b)"
  have r: "reaches b (bs @ replicate u False)" and u: "po_unused b = int u" "1 \<le> u" "u \<le> 8"
    using assms(1) by (auto simp: holds_def u_def)
  have p: "po_ptr b = int p" "p < length (po_data b)" using r by (auto simp: reaches_def p_def)
  have l: "8 * Suc p = length bs + u" using reaches_length [OF r] by (simp add: p_def)
  have bits: "octets_bits (take p (po_data b)) @ byte_bits (po_data b ! p) = bs @ replicate u False"
    using r p(2) by (simp add: reaches_def p_def take_Suc_conv_app_nth)
  have k: "k = (if u = 8 \<and> p \<noteq> 0 then p else Suc p)" using assms(2) p(1) u(1) by auto
  show "k \<le> length (po_data b)" using k p(2) by auto
  have "(length bs + 7) div 8 = (if u = 8 then p else Suc p)"
    using l u(2,3) by (cases "u = 8") (auto intro: div_nat_eqI)
  then show "k = max 1 ((length bs + 7) div 8)" using k by auto
  show "octets_bits (take k (po_data b)) = bs @ replicate (8 * k - length bs) False"
  proof (cases "u = 8 \<and> p \<noteq> 0")
    case True
    have "octets_bits (take p (po_data b)) = bs"
      using bits l True p(2) by (subst (asm) append_eq_append_conv) (auto simp: length_concat_bits min_def)
    then show ?thesis using k True l by simp
  next
    case False
    have "8 * Suc p - length bs = u" using l by simp
    moreover have "octets_bits (take (Suc p) (po_data b)) = bs @ replicate u False"
      using r by (simp add: reaches_def p_def)
    moreover have "k = Suc p" using k False by auto
    ultimately show ?thesis by simp
  qed
qed

lemma per_complete_cmds:
  assumes "list_all cmd_ok cs" "cs \<noteq> []" "in_buf = concat (map cmd_bytes cs)" "length out = length in_buf"
    and "bs = cmds_bits [] cs"
  obtains k d where "per_complete E out in_buf (int (length in_buf)) = Ok (int k, d)"
    and "k = max 1 ((length bs + 7) div 8)" "k \<le> length d" "length d = length out"
    and "octets_bits (take k d) = bs @ replicate (8 * k - length bs) False"
proof -
  let ?n = "int (length in_buf)"
  have "1 \<le> length in_buf"
    using assms(2,3) cmd_bytes_nonempty [of "hd cs"] by (cases cs) auto
  then obtain x xs where out: "out = x # xs" using assms(4) by (cases out) auto
  define b where "b = \<lparr>po_data = 0 # xs, po_ptr = 0, po_unused = 8\<rparr>"
  have set: "po_set 0 \<lparr>po_data = out, po_ptr = 0, po_unused = 8\<rparr> = Ok b"
    by (simp add: po_set_def wr_def in_range_def out b_def)
  have "holds b []" by (simp add: holds_def reaches_def b_def)
  let ?s = "\<lparr>counter = ?n, buf_space = ?n, buf_size = ?n, in_ptr = 0, outp = b\<rparr>"
  have "succeeds (per_loop E in_buf ?s) (\<lambda>s'. int (length (po_data (outp s'))) = ?n \<and> holds (outp s') (cmds_bits [] cs))"
    using assms \<open>holds b []\<close> at_off_start [of "concat (map cmd_bytes cs)" "[]"]
    by (intro per_loop_cmds) (auto simp: b_def out)
  then obtain s where s: "per_loop E in_buf ?s = Ok s" "length (po_data (outp s)) = length in_buf" "holds (outp s) bs"
    using assms(5) by (auto simp: succeeds_def)
  define k where "k = nat (if po_unused (outp s) = 8 \<and> po_ptr (outp s) \<noteq> 0 then po_ptr (outp s) else po_ptr (outp s) + 1)"
  have "0 \<le> po_ptr (outp s)" using holds_length [OF s(3)] by simp
  then have "per_complete E out in_buf ?n = Ok (int k, po_data (outp s))"
    by (simp add: per_complete_def set s(1) k_def Let_def)
  with that [of k "po_data (outp s)"] holds_result [OF s(3) k_def] s(2) assms(4) show ?thesis by simp
qed

end
