(* ===== verification/Asn1_Props.thy ===== *)
theory Asn1_Props
  imports Asn1_Ber Asn1_PerCmds
begin

text \<open>
  The properties of the ASN.1 library, each with a witness on a concrete input. The runtime is
  the parameter \<open>E\<close>; \<open>nif_terms E\<close> and \<open>nif_env E\<close> are the documented behaviour of its functions
  (theory \<open>Asn1_Nif\<close>), and \<open>erl_env\<close> is a runtime that has it.
\<close>

section \<open>BER\<close>

text \<open>C2: A tagged value that is encoded with \<open>encode_ber_tlv\<close> is decoded by \<open>decode_ber_tlv_raw\<close> to the
  same value, with the octets behind it as the rest: whenever the tag numbers are below 16384,
  the encoding has at most \<open>ber_limit\<close> octets (16 less than 512 MB; the length of a chunk is an \<open>int\<close>
  that is doubled), it and the rest are shorter than 2 GB, and memory does not run out.\<close>

theorem ber_roundtrip:
  assumes "nif_env E" "\<And>n. 0 < n \<Longrightarrow> enif_alloc E n \<noteq> None" "\<And>n. 0 < n \<Longrightarrow> enif_alloc_binary E n \<noteq> None"
    and "tlv_ok t" "size t < k" "int (length (tlv_bytes t @ rest)) < 2 ^ 31" "length (tlv_bytes t @ rest) < k"
    and "length (tlv_bytes t) \<le> ber_limit"
  shows "\<exists>b. encode_ber_tlv k E (tlv_term E t) = Some (Ok (enif_make_binary E b)) \<and>
    decode_ber_tlv_raw k E (enif_make_binary E (b @ rest)) =
      Some (Ok (enif_make_tuple2 E (tlv_term E t) (enif_make_binary E rest)))"
proof (intro exI conjI)
  show "encode_ber_tlv k E (tlv_term E t) = Some (Ok (enif_make_binary E (tlv_bytes t)))"
    using assms(2-5,8) by (intro nif_env.encode_ber_tlv_bytes [OF assms(1)])
  show "decode_ber_tlv_raw k E (enif_make_binary E (tlv_bytes t @ rest)) =
      Some (Ok (enif_make_tuple2 E (tlv_term E t) (enif_make_binary E rest)))"
    using assms(4,6,7) by (intro nif_terms.decode_ber_tlv_raw_bytes [OF nif_env.axioms(1) [OF assms(1)]])
qed

theorem ber_roundtrip_witness:
  "\<exists>b. encode_ber_tlv 30 (erl_env (\<lambda>_. True)) (ETuple [EInt 0x10080, ECons (ETuple [EInt 2, EBinary [7]]) ENil]) =
      Some (Ok (EBinary b)) \<and>
    decode_ber_tlv_raw 30 (erl_env (\<lambda>_. True)) (EBinary (b @ [9])) =
      Some (Ok (ETuple [ETuple [EInt 0x10080, ECons (ETuple [EInt 2, EBinary [7]]) ENil], EBinary [9]]))"
proof -
  let ?E = "erl_env (\<lambda>_. True)" and ?t = "Constr 0x10080 [Prim 2 [7]]"
  have "tlv_bytes ?t = [0x7F, 0x81, 0, 3, 2, 1, 7]" "tlv_ok ?t" by code_simp+
  moreover have "tlv_term ?E ?t = ETuple [EInt 0x10080, ECons (ETuple [EInt 2, EBinary [7]]) ENil]"
    by (simp add: erl_env_def)
  moreover have "enif_alloc ?E n \<noteq> None \<and> enif_alloc_binary ?E n \<noteq> None" if "0 < n" for n
    using that by (simp add: erl_env_def erl_block_def)
  ultimately show ?thesis
    using ber_roundtrip [of ?E ?t 30 "[9]"] erl.nif_env_axioms [of "\<lambda>_. True"]
    by (simp add: erl_env_make del: tlv_bytes.simps tlv_term.simps)
qed

text \<open>C7: \<open>decode_ber_tlv_raw\<close> returns on every input of less than 2 GB without an access outside of it:
  with a well-formed value and the rest of the input, or with an error term whose position lies
  in the input. The recursion is never deeper than the input is long.\<close>

theorem ber_decoder_total:
  assumes "nif_terms E" "enif_inspect_iolist_as_binary E d = Some b" "int (length b) < 2 ^ 31"
  shows "(\<exists>t rest. tlv_ok t \<and> length rest + 2 \<le> length b \<and> rest = drop (length b - length rest) b \<and>
        decode_ber_tlv_raw (length b + 1) E d = Some (Ok (enif_make_tuple2 E (tlv_term E t) (enif_make_binary E rest)))) \<or>
    (\<exists>c i. c \<in> {ASN1_VALUE_ERROR..ASN1_TAG_ERROR} \<and> 0 \<le> i \<and> i \<le> int (length b) \<and>
        decode_ber_tlv_raw (length b + 1) E d = Some (Ok (make_ber_error_term E c i)))"
  using nif_terms.decode_ber_tlv_raw_returns [OF assms(1,3) _ assms(2)] by simp

theorem ber_decoder_total_witness:
  "\<exists>c i. c \<in> {ASN1_VALUE_ERROR..ASN1_TAG_ERROR} \<and> 0 \<le> i \<and> i \<le> 3 \<and>
     decode_ber_tlv_raw 4 (erl_env (\<lambda>_. True)) (EBinary [4, 5, 1]) =
       Some (Ok (make_ber_error_term (erl_env (\<lambda>_. True)) c i))"
proof -
  let ?E = "erl_env (\<lambda>_. True)" and ?b = "[4, 5, 1] :: byte list"
  have d: "decode_ber_tlv_raw 4 ?E (EBinary ?b) =
      Some (Ok (ETuple [EAtom ''error'', ETuple [EAtom ''invalid_value'', EInt 1]]))"
    by code_simp
  have i: "enif_inspect_iolist_as_binary ?E (EBinary ?b) = Some ?b" by (simp add: erl_env_def)
  have "decode_ber_tlv_raw 4 ?E (EBinary ?b) \<noteq> Some (Ok (enif_make_tuple2 ?E (tlv_term ?E t) (enif_make_binary ?E rest)))" for t rest
    by (cases t) (simp_all add: d erl_env_make)
  moreover have four: "length ?b + 1 = 4" by simp
  ultimately show ?thesis
    using ber_decoder_total [OF erl.nif_terms_axioms i, unfolded four] by simp
qed

text \<open>C38: Encoding a value whose tag numbers are below 16384 and whose encoding has at most \<open>ber_limit\<close>
  octets stays inside the memory chunks whatever later allocations do, and no size or count leaves
  the range of its C type: the result is the definite-length encoding with the shortest tags and
  lengths, or an error term.\<close>

theorem ber_encoder_safe:
  assumes "nif_env E" "tlv_ok t" "size t < k" "length (tlv_bytes t) \<le> ber_limit" "ber_new_chunk E 40 \<noteq> None"
  shows "encode_ber_tlv k E (tlv_term E t) \<in> {
    Some (Ok (enif_make_binary E (tlv_bytes t))),
    Some (Ok (enif_make_tuple2 E (enif_make_atom E ''error'') (enif_make_int E ASN1_ERROR))),
    Some (Ok (enif_make_tuple2 E (enif_make_atom E ''error'') (enif_make_atom E ''oom'')))}"
  using assms by (intro nif_env.encode_ber_tlv_cases)

theorem ber_encoder_safe_witness:
  "encode_ber_tlv 60 (erl_env (\<lambda>n. n \<le> 40)) (ETuple [EInt 4, EBinary (replicate 50 1)]) \<in> {
    Some (Ok (EBinary (4 # 50 # replicate 50 1))),
    Some (Ok (ETuple [EAtom ''error'', EInt (-1)])),
    Some (Ok (ETuple [EAtom ''error'', EAtom ''oom'']))}"
proof -
  let ?E = "erl_env (\<lambda>n. n \<le> 40)" and ?t = "Prim 4 (replicate 50 1)"
  have "ber_new_chunk ?E 40 \<noteq> None" by (simp add: ber_new_chunk_def erl_env_def erl_block_def)
  moreover have "tlv_bytes ?t = 4 # 50 # replicate 50 1" "tlv_ok ?t"
    by (simp_all add: tag_bytes_def length_bytes_def tag_ok_def Let_def)
  moreover have "size ?t < 60" by (simp add: size_list_conv_sum_list)
  ultimately show ?thesis
    using ber_encoder_safe [OF erl.nif_env_axioms [of "\<lambda>n. n \<le> 40"], of ?t 60]
    by (simp add: erl_env_make del: tlv_bytes.simps)
qed

text \<open>A tag number from 16384 on is encoded with three octets, and the decoder refuses them as an
  invalid tag.\<close>

theorem ber_large_tag_not_decodable:
  "\<exists>b. encode_ber_tlv 5 (erl_env (\<lambda>_. True)) (ETuple [EInt 16384, EBinary [7]]) = Some (Ok (EBinary b)) \<and>
     decode_ber_tlv_raw 10 (erl_env (\<lambda>_. True)) (EBinary b) =
       Some (Ok (ETuple [EAtom ''error'', ETuple [EAtom ''invalid_tag'', EInt 2]]))"
proof (intro exI conjI)
  show "encode_ber_tlv 5 (erl_env (\<lambda>_. True)) (ETuple [EInt 16384, EBinary [7]]) =
      Some (Ok (EBinary [0x1F, 0x81, 0x80, 0, 1, 7]))"
    by code_simp
  show "decode_ber_tlv_raw 10 (erl_env (\<lambda>_. True)) (EBinary [0x1F, 0x81, 0x80, 0, 1, 7]) =
      Some (Ok (ETuple [EAtom ''error'', ETuple [EAtom ''invalid_tag'', EInt 2]]))"
    by code_simp
qed

text \<open>With such a tag the encoder can leave its memory: after an element with a four-octet tag has
  filled the chunk, an empty list in front of it is written below the start of the chunk.\<close>

lemma ber_encoder_underflows:
  "encode_ber_tlv 9 (erl_env (\<lambda>_. True))
     (ETuple [EInt 16, ECons (ETuple [EInt 16, ENil]) (ECons (ETuple [EInt 16384, EBinary (replicate 35 0)]) ENil)]) =
   Some Fault"
  by code_simp

text \<open>A definite length does not bound the elements inside: the element here needs one octet more
  than the length of the enclosing value, and is accepted.\<close>

theorem ber_element_past_end_accepted:
  "decode_ber_tlv_raw 9 (erl_env (\<lambda>_. True)) (EBinary [0x30, 2, 4, 1, 0x41]) =
     Some (Ok (ETuple [ETuple [EInt 16, ECons (ETuple [EInt 4, EBinary [0x41]]) ENil], EBinary []]))"
  by code_simp

section \<open>PER\<close>

text \<open>C4: \<open>encode_per_complete\<close> implements the meaning of the commands: for every sequence of
  well-formed commands the result holds exactly their bits, filled up with zero bits to at
  least one whole octet. Well-formed (\<open>cmd_ok\<close>) means that numbers fit their bytes, that bits which are not
  used are zero, that no command asks for padding, and that the commands 45 to 47 carry no more octets
  than their bits need; for commands outside of this the code does something else, see below.\<close>

theorem per_complete_refines:
  assumes "nif_memory E" "list_all cmd_ok cs" "cs \<noteq> []"
    and "enif_inspect_iolist_as_binary E d = Some (concat (map cmd_bytes cs))"
    and "enif_alloc_binary E (int (length (concat (map cmd_bytes cs)))) \<noteq> None"
    and "\<And>b n. n < length b \<Longrightarrow> enif_realloc_binary E b (int n) \<noteq> None"
  shows "\<exists>b. encode_per_complete E d = Ok (enif_make_binary E b) \<and>
    length b = max 1 ((length (cmds_bits [] cs) + 7) div 8) \<and>
    octets_bits b = cmds_bits [] cs @ replicate (8 * length b - length (cmds_bits [] cs)) False"
proof -
  let ?in = "concat (map cmd_bytes cs)"
  obtain out where out: "enif_alloc_binary E (int (length ?in)) = Some out" using assms(5) by blast
  have "length out = length ?in" using nif_memory.alloc_binary_length [OF assms(1) out] by simp
  with assms(2,3) obtain k b where b: "per_complete E out ?in (int (length ?in)) = Ok (int k, b)"
      "k = max 1 ((length (cmds_bits [] cs) + 7) div 8)" "k \<le> length b"
      "octets_bits (take k b) = cmds_bits [] cs @ replicate (8 * k - length (cmds_bits [] cs)) False"
    by (rule per_complete_cmds [OF _ _ refl _ refl])
  define c where "c = (if int k < int (length b) then case enif_realloc_binary E b (int k) of None \<Rightarrow> b | Some c \<Rightarrow> c else b)"
  have "c = take k b"
  proof (cases "k < length b")
    case True
    then obtain c' where c': "enif_realloc_binary E b (int k) = Some c'" using assms(6) by blast
    have "length c' = k" using nif_memory.realloc_binary_length [OF assms(1) c'] by simp
    moreover have "c' ! i = b ! i" if "i < k" for i
      using nif_memory.realloc_binary_keeps [OF assms(1) c', of i] that True \<open>length c' = k\<close> by simp
    ultimately have "c' = take k b" using True by (intro nth_equalityI) auto
    then show ?thesis using True c' by (simp add: c_def)
  qed (use b(3) in \<open>simp add: c_def\<close>)
  moreover have ne: "?in \<noteq> []" using assms(3) cmd_bytes_nonempty [of "hd cs"] by (cases cs) auto
  have "encode_per_complete E d = Ok (enif_make_binary E c)"
    unfolding encode_per_complete_def assms(4) option.case out if_not_P [OF ne] b(1) res.case prod.case c_def ..
  ultimately have "encode_per_complete E d = Ok (enif_make_binary E (take k b))" by simp
  with b show ?thesis by (intro exI [of _ "take k b"]) simp
qed

theorem per_complete_refines_witness:
  "\<exists>b. encode_per_complete (erl_env (\<lambda>_. True)) (EBinary [20, 1, 255, 1, 10, 3, 5, 2, 30, 3, 2, 0xAB, 0xE8]) = Ok (EBinary b) \<and>
     length b = 4 \<and> octets_bits b = byte_bits 255 @ byte_bits 0xD0 @ byte_bits 0xAB @ byte_bits 0xE8"
proof -
  let ?E = "erl_env (\<lambda>_. True)"
  let ?cs = "[POctets False [255], PBit True, PLow 3 5, PAlign, PExcept False 3 [0xAB, 0xE8]]"
  define bs where "bs = cmds_bits [] ?cs"
  have f: "concat (map cmd_bytes ?cs) = [20, 1, 255, 1, 10, 3, 5, 2, 30, 3, 2, 0xAB, 0xE8]" "list_all cmd_ok ?cs"
    and bs: "bs @ replicate 3 False = byte_bits 255 @ byte_bits 0xD0 @ byte_bits 0xAB @ byte_bits 0xE8" "length bs = 29"
    unfolding bs_def by code_simp+
  have i: "enif_inspect_iolist_as_binary ?E (EBinary [20, 1, 255, 1, 10, 3, 5, 2, 30, 3, 2, 0xAB, 0xE8]) =
      Some (concat (map cmd_bytes ?cs))"
    unfolding f(1) by (simp add: erl_env_def)
  have al: "enif_alloc_binary ?E (int (length (concat (map cmd_bytes ?cs)))) \<noteq> None"
    and re: "enif_realloc_binary ?E b (int n) \<noteq> None" for b n
    by (simp_all add: erl_env_def erl_block_def)
  obtain b where b: "encode_per_complete ?E (EBinary [20, 1, 255, 1, 10, 3, 5, 2, 30, 3, 2, 0xAB, 0xE8]) = Ok (enif_make_binary ?E b)"
      "length b = max 1 ((length bs + 7) div 8)" "octets_bits b = bs @ replicate (8 * length b - length bs) False"
    using per_complete_refines [OF erl.nif_memory_axioms [of "\<lambda>_. True"] f(2) _ i al re, folded bs_def] by blast
  then have "length b = 4" using bs(2) by simp
  with b bs show ?thesis by (simp add: erl_env_make)
qed

text \<open>Padding can leave the output: octets that have been inserted are not counted as used space,
  so the memory that a later padding needs is not allocated.\<close>

lemma per_padding_overflows:
  "encode_per_complete (erl_env (\<lambda>_. True)) (EBinary ([20, 10] @ replicate 10 7 @ [40, 90, 1, 0])) = Fault"
  by code_simp

text \<open>Command 45 with fewer bits than octets inserts bits of the octet behind the last wanted bit:
  a one bit, eight bits of the first of two octets and two zero bits give other bits.\<close>

theorem per_bits_leak:
  "encode_per_complete (erl_env (\<lambda>_. True)) (EBinary [1, 45, 8, 2, 0xF0, 0x0F, 0, 0]) = Ok (EBinary [0xF8, 0x07])"
  by code_simp

end
