(* ===== verification/Ei_Prime.thy ===== *)
theory Ei_Prime
  imports Prelude
begin

text \<open>
  The size of a hash table: \<^verbatim>\<open>registry/hash_isprime.c\<close> and the loop that \<open>ei_hash_newtab\<close> and
  \<open>ei_hash_resize\<close> share, which looks for the next odd number that \<open>ei_isprime\<close> accepts.

  \<open>factor\<close> keeps its number and its trial divisor in two static variables; they are an argument
  and a result of the model. Both loops may run forever in principle, so they are partial
  functions into \<open>option\<close>; a product that does not fit into a C \<open>int\<close> is a fault.
\<close>

section \<open>The code\<close>

definition INT32_MAX :: int where
  "INT32_MAX = 2147483647"

text \<open>The static array \<open>a\<close>: what is added to a divisor, by its remainder modulo 6.\<close>

definition factor_a :: "int list" where
  "factor_a = [0, 4, 1, 2, 0, 2]"

partial_function (option) factor_loop :: "int \<Rightarrow> int \<Rightarrow> (unit, int \<times> int \<times> int) res option" where
  "factor_loop m d =
     (if INT32_MAX < d * d then Some Fault
      else if d * d \<le> m then
        (if d = 0 then Some Fault
         else if m mod d = 0 then Some (Ok (d, m div d, d))
         else factor_loop m (d + factor_a ! nat (d mod 6)))
      else Some (Ok (m, 0, d)))"

definition factor :: "int \<Rightarrow> int \<times> int \<Rightarrow> (unit, int \<times> int \<times> int) res option" where
  "factor n st = (let (m, d) = (if n \<noteq> 0 then (n, 2) else st) in factor_loop m d)"

definition ei_isprime :: "int \<Rightarrow> int \<times> int \<Rightarrow> (unit, bool \<times> int \<times> int) res option" where
  "ei_isprime n st = bindf (factor n st) (\<lambda>(r, st). Some (Ok (n = r, st)))"

text \<open>\<open>while (!ei_isprime(tabsize)) tabsize +=2;\<close>\<close>

partial_function (option) next_size :: "int \<Rightarrow> int \<times> int \<Rightarrow> (unit, int) res option" where
  "next_size n st =
     (case ei_isprime n st of
        None \<Rightarrow> None
      | Some Fault \<Rightarrow> Some Fault
      | Some (Err e) \<Rightarrow> Some (Err e)
      | Some (Ok (p, st)) \<Rightarrow>
          if p then Some (Ok n)
          else if INT32_MAX < n + 2 then Some Fault
          else next_size (n + 2) st)"

definition table_size :: "int \<Rightarrow> (unit, int) res option" where
  "table_size tabsize = next_size (tabsize OR 1) (0, 0)"

declare factor_loop.simps [code] next_size.simps [code]

section \<open>What it computes\<close>

definition prime_int :: "int \<Rightarrow> bool" where
  "prime_int n \<longleftrightarrow> 1 < n \<and> (\<forall>d. 1 < d \<and> d dvd n \<longrightarrow> d = n)"

text \<open>The divisors that are tried: 2, 3 and the numbers that neither divides.\<close>

definition trial :: "int \<Rightarrow> bool" where
  "trial d \<longleftrightarrow> d = 2 \<or> d = 3 \<or> 5 \<le> d \<and> (d mod 6 = 1 \<or> d mod 6 = 5)"

definition no_divisor :: "int \<Rightarrow> int \<Rightarrow> bool" where
  "no_divisor m d \<longleftrightarrow> (\<forall>e. 1 < e \<and> e < d \<longrightarrow> \<not> e dvd m)"

lemma trial_ge: "trial d \<Longrightarrow> 2 \<le> d"
  by (auto simp: trial_def)

lemma trial_next [consumes 1, case_names two three six_minus six_plus]:
  assumes "trial d"
  obtains "d = 2" "d + factor_a ! nat (d mod 6) = 3"
    | "d = 3" "d + factor_a ! nat (d mod 6) = 5"
    | k where "1 \<le> k" "d = 6 * k - 1" "d + factor_a ! nat (d mod 6) = 6 * k + 1"
    | k where "1 \<le> k" "d = 6 * k + 1" "d + factor_a ! nat (d mod 6) = 6 * k + 5"
proof -
  consider "d = 2" | "d = 3" | "5 \<le> d" "d mod 6 = 5" | "5 \<le> d" "d mod 6 = 1"
    using assms by (auto simp: trial_def)
  then show thesis
  proof cases
    case 3
    then have "\<exists>k\<ge>1. d = 6 * k - 1" by presburger
    then obtain k where "d = 6 * k - 1" "1 \<le> k" by blast
    with 3 that(3) show thesis by (simp add: factor_a_def)
  next
    case 4
    then have "\<exists>k\<ge>1. d = 6 * k + 1" by presburger
    then obtain k where "d = 6 * k + 1" "1 \<le> k" by blast
    with 4 that(4) show thesis by (simp add: factor_a_def)
  qed (use that(1,2) in \<open>simp_all add: factor_a_def\<close>)
qed

lemma trial_six:
  assumes "1 \<le> k"
  shows "trial (6 * k + 1)" "trial (6 * k + 5)"
proof -
  have m: "(6 * k + 1) mod 6 = 1" "(6 * k + 5) mod 6 = 5" by presburger+
  have g: "5 \<le> 6 * k + 1" "5 \<le> 6 * k + 5" using assms by linarith+
  show "trial (6 * k + 1)" "trial (6 * k + 5)" unfolding trial_def using m g by blast+
qed

lemma trial_step:
  assumes "trial d"
  shows "trial (d + factor_a ! nat (d mod 6))" "d < d + factor_a ! nat (d mod 6)"
  using assms by (cases d rule: trial_next; simp add: trial_six; simp add: trial_def)+

lemma between_trials:
  assumes "trial d" "d < e" "e < d + factor_a ! nat (d mod 6)"
  shows "2 < d \<and> 2 dvd e \<or> 3 < d \<and> 3 dvd e"
  using assms(1)
proof (cases d rule: trial_next)
  case (six_minus k)
  then have "e = 2 * (3 * k)" using assms(2,3) by simp
  then show ?thesis using six_minus by (intro disjI1) simp
next
  case (six_plus k)
  then consider "e = 2 * (3 * k + 1)" | "e = 3 * (2 * k + 1)" | "e = 2 * (3 * k + 2)"
    using assms(2,3) by fastforce
  then show ?thesis
    using six_plus(1,2) by cases (simp, (simp only: dvd_triv_left, simp), simp)
next
  case three
  then have "e = 4" using assms(2,3) by simp
  then show ?thesis using three by simp
qed (use assms in simp)

lemma no_divisor_step:
  assumes "trial d" "no_divisor m d" "\<not> d dvd m"
  shows "no_divisor m (d + factor_a ! nat (d mod 6))"
  unfolding no_divisor_def
proof (intro allI impI)
  fix e
  assume e: "1 < e \<and> e < d + factor_a ! nat (d mod 6)"
  show "\<not> e dvd m"
  proof (cases "e \<le> d")
    case True
    then show ?thesis using assms e by (cases "e = d") (auto simp: no_divisor_def)
  next
    case False
    then have "2 < d \<and> 2 dvd e \<or> 3 < d \<and> 3 dvd e"
      using between_trials [OF assms(1), of e] e by auto
    then show ?thesis
      using assms(2) dvd_trans [of 2 e m] dvd_trans [of 3 e m] by (auto simp: no_divisor_def)
  qed
qed

lemma no_divisor_prime:
  assumes "0 < m" "no_divisor m d" "m < d * d" "2 \<le> d"
  shows "m = 1 \<or> prime_int m"
proof (rule disjCI)
  assume "\<not> prime_int m"
  show "m = 1"
  proof (rule ccontr)
    assume "m \<noteq> 1"
    with \<open>\<not> prime_int m\<close> assms(1) obtain e where e: "1 < e" "e dvd m" "e \<noteq> m"
      by (auto simp: prime_int_def)
    then obtain k where k: "m = e * k" by auto
    have "0 < k" using k e assms(1) by (simp add: zero_less_mult_iff)
    then have "1 < k" using k e by (cases "k = 1") auto
    have "d \<le> e" "d \<le> k"
      using assms(2) e \<open>1 < k\<close> k by (auto simp: no_divisor_def not_less [symmetric])
    then have "d * d \<le> e * k" using assms(4) by (intro mult_mono) auto
    then show False using k assms(3) by simp
  qed
qed

text \<open>Below this bound the square of every divisor that is tried fits into an \<open>int\<close>.\<close>

definition factor_bound :: int where
  "factor_bound = 46339 * 46339"

lemma trial_in_range:
  assumes "trial d" "d * d \<le> m" "m < factor_bound"
  shows "d + factor_a ! nat (d mod 6) \<le> 46339"
proof -
  have "d < 46339"
  proof (rule ccontr)
    assume "\<not> d < 46339"
    then have "46339 * 46339 \<le> d * d" by (intro mult_mono) auto
    then show False using assms(2,3) by (simp add: factor_bound_def)
  qed
  from assms(1) show ?thesis
    by (cases d rule: trial_next) (use \<open>d < 46339\<close> in presburger)+
qed

lemma factor_loop_result:
  assumes "trial d" "no_divisor m d" "0 < m" "m < factor_bound" "d \<le> 46339"
  shows "\<exists>r st. factor_loop m d = Some (Ok (r, st)) \<and> (r = m \<longleftrightarrow> m = 1 \<or> prime_int m)"
  using assms
proof (induction "nat (46339 - d)" arbitrary: d rule: less_induct)
  case less
  have two: "2 \<le> d" using less.prems(1) by (rule trial_ge)
  have "d * d \<le> 46339 * 46339" using two less.prems(5) by (intro mult_mono) auto
  then have fits: "\<not> INT32_MAX < d * d" by (simp add: INT32_MAX_def)
  let ?d = "d + factor_a ! nat (d mod 6)"
  show ?case
  proof (cases "d * d \<le> m")
    case sq: True
    have "2 * d \<le> d * d" using two by (intro mult_mono) auto
    then have "d < m" using sq two by linarith
    show ?thesis
    proof (cases "d dvd m")
      case True
      then have "factor_loop m d = Some (Ok (d, m div d, d))"
        using fits sq two by (subst factor_loop.simps) (simp add: dvd_eq_mod_eq_0)
      moreover have "\<not> prime_int m" "m \<noteq> 1"
        using True \<open>d < m\<close> two by (auto simp: prime_int_def intro!: exI [of _ d])
      ultimately show ?thesis using \<open>d < m\<close> by auto
    next
      case False
      have "factor_loop m d = factor_loop m ?d"
        using fits sq two False by (subst factor_loop.simps) (simp add: dvd_eq_mod_eq_0)
      moreover have "?d \<le> 46339" by (rule trial_in_range [OF less.prems(1) sq less.prems(4)])
      ultimately show ?thesis
        using less.hyps [of ?d] trial_step [OF less.prems(1)] less.prems False
          no_divisor_step [OF less.prems(1,2)]
        by auto
    qed
  next
    case False
    then have "factor_loop m d = Some (Ok (m, 0, d))"
      using fits by (subst factor_loop.simps) simp
    then show ?thesis using no_divisor_prime [OF less.prems(3,2) _ two] False by auto
  qed
qed

text \<open>\<open>ei_isprime\<close> returns, does not depend on the static variables, and accepts the primes and 1.\<close>

lemma isprime_result:
  assumes "0 < n" "n < factor_bound"
  shows "\<exists>st'. ei_isprime n st = Some (Ok (n = 1 \<or> prime_int n, st'))"
proof -
  have "trial 2" "no_divisor n 2" by (auto simp: trial_def no_divisor_def)
  then obtain r st' where "factor_loop n 2 = Some (Ok (r, st'))" "r = n \<longleftrightarrow> n = 1 \<or> prime_int n"
    using factor_loop_result [of 2 n] assms by auto
  then show ?thesis using assms by (auto simp: ei_isprime_def factor_def)
qed

lemma even_gap:
  fixes n p :: int
  assumes "n \<noteq> p" "n \<le> p" "even (p - n)"
  shows "n + 2 \<le> p" "even (p - (n + 2))"
  using assms by presburger+

text \<open>The first odd-step successor of \<open>n\<close> that is accepted.\<close>

definition next_prime :: "int \<Rightarrow> int \<Rightarrow> bool" where
  "next_prime n q \<longleftrightarrow> n \<le> q \<and> even (q - n) \<and> (q = 1 \<or> prime_int q)
     \<and> (\<forall>k. n \<le> k \<and> k < q \<and> even (k - n) \<longrightarrow> k \<noteq> 1 \<and> \<not> prime_int k)"

lemma next_prime_self: "n = 1 \<or> prime_int n \<Longrightarrow> next_prime n n"
  by (auto simp: next_prime_def)

lemma next_prime_le: "next_prime n q \<Longrightarrow> n \<le> q"
  by (simp add: next_prime_def)

lemma next_prime_fixed: "n = 1 \<or> prime_int n \<Longrightarrow> next_prime n q \<Longrightarrow> q = n"
  unfolding next_prime_def by (metis even_zero diff_self le_less order_refl)

lemma next_prime_step:
  assumes "next_prime (n + 2) q" "\<not> (n = 1 \<or> prime_int n)"
  shows "next_prime n q"
proof -
  have "k \<noteq> 1 \<and> \<not> prime_int k" if "n \<le> k" "k < q" "even (k - n)" for k
    using even_gap [of n k] that assms by (cases "k = n") (auto simp: next_prime_def)
  then show ?thesis using assms(1) by (auto simp: next_prime_def)
qed

lemma next_size_result:
  assumes "0 < n" "n \<le> p" "even (p - n)" "prime_int p" "p < factor_bound"
  shows "\<exists>q. next_size n st = Some (Ok q) \<and> next_prime n q \<and> q \<le> p"
  using assms(1-3)
proof (induction "nat (p - n)" arbitrary: n st rule: less_induct)
  case less
  obtain st' where s: "ei_isprime n st = Some (Ok (n = 1 \<or> prime_int n, st'))"
    using isprime_result [of n st] less.prems assms(5) by auto
  show ?case
  proof (cases "n = 1 \<or> prime_int n")
    case True
    then have "next_size n st = Some (Ok n)" using s by (subst next_size.simps) simp
    then show ?thesis using next_prime_self [OF True] less.prems by blast
  next
    case False
    then have "n \<noteq> p" using assms(4) by auto
    note le = even_gap [OF this less.prems(2,3)]
    have "\<not> INT32_MAX < n + 2" using le assms(5) by (simp add: INT32_MAX_def factor_bound_def)
    then have "next_size n st = next_size (n + 2) st'"
      using s False by (subst next_size.simps) simp
    moreover have "nat (p - (n + 2)) < nat (p - n)" "0 < n + 2" using le less.prems(1) by auto
    ultimately show ?thesis using less.hyps [OF _ _ le] next_prime_step [OF _ False] by metis
  qed
qed

text \<open>A prime that the size of every table of at most \<open>2 ^ 20\<close> positions stays below.\<close>

lemma isprime_1048583: "ei_isprime 1048583 (0, 0) = Some (Ok (True, 0, 1025))"
  by code_simp

lemma prime_1048583: "prime_int 1048583"
  using isprime_result [of 1048583 "(0, 0)"] isprime_1048583 by (simp add: factor_bound_def)

lemma table_size_result:
  assumes "0 < n" "n \<le> 1048583"
  shows "\<exists>q. table_size n = Some (Ok q) \<and> next_prime (n OR 1) q \<and> q \<le> 1048583"
proof -
  have "0 < n OR 1" "n OR 1 \<le> 1048583" "even (1048583 - (n OR 1))"
    using assms by (auto simp: or_one_eq)
  then show ?thesis
    using next_size_result [of "n OR 1" 1048583 "(0, 0)"] prime_1048583
    by (simp add: table_size_def factor_bound_def)
qed

lemma table_size_pos: "table_size n = Some (Ok q) \<Longrightarrow> 0 < n \<Longrightarrow> n \<le> 1048583 \<Longrightarrow> 0 < q"
  using table_size_result [of n] next_prime_le [of "n OR 1" q]
  by (cases "even n") (auto simp: or_one_eq)

end
