(* ===== verification/Heap.thy ===== *)
theory Heap
  imports Prelude "HOL-Library.Multiset"
begin

text \<open>
  The C heap as the registry uses it: which blocks are allocated. \<open>malloc\<close> hands out a new
  address or refuses (\<open>grants\<close> says which requests of which size are granted, so every
  pattern of failures is covered); \<open>free\<close> of an address that is not allocated is a fault, so a
  double release is one.
\<close>

type_synonym addr = nat
type_synonym ptr = "addr option"

record heap =
  brk :: nat
  grants :: "nat \<Rightarrow> int \<Rightarrow> bool"
  live :: "addr set"

definition malloc :: "int \<Rightarrow> heap \<Rightarrow> ptr \<times> heap" where
  "malloc n h =
     (let h' = h\<lparr>brk := Suc (brk h)\<rparr>
      in if grants h (brk h) n then (Some (brk h), h'\<lparr>live := insert (brk h) (live h)\<rparr>)
         else (None, h'))"

fun free_ptr :: "ptr \<Rightarrow> heap \<Rightarrow> (unit, heap) res" where
  "free_ptr None h = Ok h"
| "free_ptr (Some a) h = (if a \<in> live h then Ok (h\<lparr>live := live h - {a}\<rparr>) else Fault)"

fun free_all :: "addr list \<Rightarrow> heap \<Rightarrow> (unit, heap) res" where
  "free_all [] h = Ok h"
| "free_all (a # as) h = bindr (free_ptr (Some a) h) (free_all as)"

text \<open>Addresses are handed out in increasing order, so the next one is not in use.\<close>

definition heap_ok :: "heap \<Rightarrow> bool" where
  "heap_ok h \<longleftrightarrow> (\<forall>a\<in>live h. a < brk h)"

text \<open>A component owns the blocks of a list: they are allocated and all different.\<close>

definition owns :: "heap \<Rightarrow> addr list \<Rightarrow> bool" where
  "owns h as \<longleftrightarrow> heap_ok h \<and> distinct as \<and> set as \<subseteq> live h"

lemma malloc_cases [consumes 1, case_names fails new]:
  assumes "malloc n h = (p, h')"
  obtains "p = None" "h' = h\<lparr>brk := Suc (brk h)\<rparr>"
    | "p = Some (brk h)" "h' = h\<lparr>brk := Suc (brk h), live := insert (brk h) (live h)\<rparr>"
  using assms that by (auto simp: malloc_def Let_def split: if_splits)

lemma owns_mset: "owns h as \<Longrightarrow> mset as = mset bs \<Longrightarrow> owns h bs"
  by (metis mset_eq_imp_distinct_iff mset_eq_setD owns_def)

lemma owns_tick: "owns h as \<Longrightarrow> owns (h\<lparr>brk := Suc (brk h)\<rparr>) as"
  by (auto simp: owns_def heap_ok_def)

lemma owns_new:
  "owns h as \<Longrightarrow> owns (h\<lparr>brk := Suc (brk h), live := insert (brk h) (live h)\<rparr>) (brk h # as)"
  by (auto simp: owns_def heap_ok_def)

lemma owns_ConsD: "owns h (a # as) \<Longrightarrow> owns h as"
  by (auto simp: owns_def)

lemma owns_free:
  "owns h (a # as) \<Longrightarrow> a \<in> live h" "owns h (a # as) \<Longrightarrow> owns (h\<lparr>live := live h - {a}\<rparr>) as"
  by (auto simp: owns_def heap_ok_def)

lemma free_all_owned:
  "owns h (as @ bs) \<Longrightarrow>
     free_all as h = Ok (h\<lparr>live := live h - set as\<rparr>) \<and> owns (h\<lparr>live := live h - set as\<rparr>) bs"
proof (induction as arbitrary: h)
  case (Cons a as)
  let ?h = "h\<lparr>live := live h - {a}\<rparr>"
  have "a \<in> live h" "owns ?h (as @ bs)"
    using Cons.prems owns_free [of h a "as @ bs"] by auto
  then show ?case using Cons.IH [of ?h] by (simp add: Diff_insert2 [symmetric])
qed simp

end
