(* ===== verification/Ei_Hash.thy ===== *)
theory Ei_Hash
  imports Ei_Prime Heap
begin

text \<open>
  The hash table of the registry: \<^verbatim>\<open>registry/hash_*.c\<close>.

  The array of a table is a list of chains, so \<open>size\<close> is its length; a chain is the list of its
  buckets in link order, every bucket with the address of its block. A table stores pointers.
  The field \<open>hash\<close> is not kept: \<open>ei_hash_newtab\<close> sets it to \<open>ei_dohash\<close>, \<open>ei_hash_resize\<close> copies
  it, and nothing else writes it. Sizes of blocks are those of an LP64 platform.
\<close>

section \<open>Hash function\<close>

text \<open>One character: \<open>*s\<close> is a signed \<open>char\<close>, \<open>h\<close> an \<open>unsigned\<close>.\<close>

definition hash_char :: "32 word \<Rightarrow> byte \<Rightarrow> 32 word" where
  "hash_char h c =
     (let h = push_bit 4 h + scast c;
          g = h AND 0xf0000000
      in if g \<noteq> 0 then (h XOR drop_bit 24 g) XOR g else h)"

fun hash_chars :: "32 word \<Rightarrow> byte list \<Rightarrow> 32 word" where
  "hash_chars h [] = h"
| "hash_chars h (c # cs) = (if c = 0 then h else hash_chars (hash_char h c) cs)"

definition ei_dohash :: "byte list \<Rightarrow> 32 word" where
  "ei_dohash key = hash_chars 0 key"

section \<open>Tables\<close>

definition cstr :: "byte list \<Rightarrow> byte list" where
  "cstr s = takeWhile (\<lambda>c. c \<noteq> 0) s"

record ei_bucket =
  baddr :: addr
  rawhash :: "32 word"
  bkey :: "byte list"
  in_keybuf :: bool
  bvalue :: ptr

record ei_hash =
  taddr :: addr
  tab :: "ei_bucket list list"
  nelem :: int
  npos :: int
  hfreelist :: "addr list"

abbreviation EI_SMALLKEY :: nat where "EI_SMALLKEY \<equiv> 32"

text \<open>\<open>ei_align\<close> and the sizes of the two structs.\<close>

definition ei_align :: "int \<Rightarrow> int" where
  "ei_align n = n + (- n) mod 8"

abbreviation sizeof_bucket :: int where "sizeof_bucket \<equiv> 64"

abbreviation sizeof_hash :: int where "sizeof_hash \<equiv> 40"

text \<open>\<open>h = rh % tab->size\<close> and the access \<open>tab->tab[h]\<close>: C's remainder has the sign of \<open>rh\<close>.\<close>

definition slot :: "ei_bucket list list \<Rightarrow> 32 word \<Rightarrow> (unit, nat) res" where
  "slot ts rh =
     (if ts = [] \<or> sint rh < 0 \<and> sint rh mod int (length ts) \<noteq> 0 then Fault
      else Ok (nat (sint rh mod int (length ts))))"

text \<open>The test on a bucket and the walks along a chain.\<close>

definition hits :: "32 word \<Rightarrow> byte list \<Rightarrow> ei_bucket \<Rightarrow> bool" where
  "hits rh key b \<longleftrightarrow> rh = rawhash b \<and> cstr key = bkey b"

fun chain_lookup :: "32 word \<Rightarrow> byte list \<Rightarrow> ei_bucket list \<Rightarrow> ei_bucket option" where
  "chain_lookup rh key [] = None"
| "chain_lookup rh key (b # bs) = (if hits rh key b then Some b else chain_lookup rh key bs)"

fun chain_replace :: "32 word \<Rightarrow> byte list \<Rightarrow> ptr \<Rightarrow> ei_bucket list \<Rightarrow> ei_bucket list" where
  "chain_replace rh key v [] = []"
| "chain_replace rh key v (b # bs) =
     (if hits rh key b then b\<lparr>bvalue := v\<rparr> # bs else b # chain_replace rh key v bs)"

fun chain_unlink :: "32 word \<Rightarrow> byte list \<Rightarrow> ei_bucket list \<Rightarrow> ei_bucket list" where
  "chain_unlink rh key [] = []"
| "chain_unlink rh key (b # bs) = (if hits rh key b then bs else b # chain_unlink rh key bs)"

definition ei_hash_newtab :: "int \<Rightarrow> heap \<Rightarrow> (unit, ei_hash option \<times> heap) res option" where
  "ei_hash_newtab tabsize h =
     bindf (table_size tabsize) (\<lambda>tabsize.
       case malloc (ei_align sizeof_hash + tabsize * 8) h of
         (None, h) \<Rightarrow> Some (Ok (None, h))
       | (Some a, h) \<Rightarrow>
           if tabsize < 0 then Some Fault
           else Some (Ok (Some \<lparr>taddr = a, tab = replicate (nat tabsize) [], nelem = 0, npos = 0,
                                hfreelist = []\<rparr>, h)))"

definition ei_hash_lookup :: "ei_hash \<Rightarrow> byte list \<Rightarrow> (unit, ptr) res" where
  "ei_hash_lookup t key =
     (let rh = ei_dohash key
      in bindr (slot (tab t) rh) (\<lambda>h.
           case chain_lookup rh key (tab t ! h) of
             Some b \<Rightarrow> Ok (bvalue b)
           | None \<Rightarrow> Ok None))"

definition ei_hash_bmalloc :: "ei_hash \<Rightarrow> heap \<Rightarrow> ptr \<times> ei_hash \<times> heap" where
  "ei_hash_bmalloc t h =
     (case hfreelist t of
        a # as \<Rightarrow> (Some a, t\<lparr>hfreelist := as\<rparr>, h)
      | [] \<Rightarrow> (let (p, h) = malloc sizeof_bucket h in (p, t, h)))"

text \<open>Where a new bucket comes from: \<open>ei_hash_bmalloc\<close> for a short key, its own block otherwise.\<close>

definition new_bucket :: "ei_hash \<Rightarrow> byte list \<Rightarrow> heap \<Rightarrow> ptr \<times> ei_hash \<times> heap" where
  "new_bucket t key h =
     (if strlen key < EI_SMALLKEY then ei_hash_bmalloc t h
      else (let (p, h) = malloc (ei_align sizeof_bucket + int (strlen key) + 1) h in (p, t, h)))"

definition ei_hash_insert ::
  "ei_hash \<Rightarrow> byte list \<Rightarrow> ptr \<Rightarrow> heap \<Rightarrow> (unit, ptr \<times> ei_hash \<times> heap) res" where
  "ei_hash_insert t key v h =
     (let rh = ei_dohash key
      in bindr (slot (tab t) rh) (\<lambda>i.
           case chain_lookup rh key (tab t ! i) of
             Some b \<Rightarrow> Ok (bvalue b, t\<lparr>tab := (tab t)[i := chain_replace rh key v (tab t ! i)]\<rparr>, h)
           | None \<Rightarrow>
               (case new_bucket t key h of
                  (None, t, h) \<Rightarrow> Ok (None, t, h)
                | (Some a, t, h) \<Rightarrow>
                    (let b = \<lparr>baddr = a, rawhash = rh, bkey = cstr key,
                              in_keybuf = (strlen key < EI_SMALLKEY), bvalue = v\<rparr>
                     in Ok (None,
                            t\<lparr>npos := (if tab t ! i = [] then npos t + 1 else npos t),
                              nelem := nelem t + 1,
                              tab := (tab t)[i := b # tab t ! i]\<rparr>, h)))))"

definition ei_hash_bfree :: "ei_hash \<Rightarrow> ei_bucket \<Rightarrow> heap \<Rightarrow> (unit, ei_hash \<times> heap) res" where
  "ei_hash_bfree t b h =
     (if \<not> in_keybuf b then bindr (free_ptr (Some (baddr b)) h) (\<lambda>h. Ok (t, h))
      else Ok (t\<lparr>hfreelist := baddr b # hfreelist t\<rparr>, h))"

text \<open>The first bucket of the chain is a case of its own; only there can a position become empty.\<close>

definition ei_hash_remove ::
  "ei_hash \<Rightarrow> byte list \<Rightarrow> heap \<Rightarrow> (unit, ptr \<times> ei_hash \<times> heap) res" where
  "ei_hash_remove t key h =
     (let rh = ei_dohash key
      in bindr (slot (tab t) rh) (\<lambda>i.
           case tab t ! i of
             [] \<Rightarrow> Ok (None, t, h)
           | b # bs \<Rightarrow>
               if hits rh key b then
                 bindr (ei_hash_bfree (t\<lparr>tab := (tab t)[i := bs]\<rparr>) b h) (\<lambda>(t, h).
                   Ok (bvalue b,
                       t\<lparr>nelem := nelem t - 1,
                         npos := (if tab t ! i = [] then npos t - 1 else npos t)\<rparr>, h))
               else
                 (case chain_lookup rh key bs of
                    None \<Rightarrow> Ok (None, t, h)
                  | Some c \<Rightarrow>
                      bindr (ei_hash_bfree
                              (t\<lparr>tab := (tab t)[i := b # chain_unlink rh key bs]\<rparr>) c h)
                        (\<lambda>(t, h). Ok (bvalue c, t\<lparr>nelem := nelem t - 1\<rparr>, h)))))"

text \<open>The inner loop of \<open>ei_hash_resize\<close>: the buckets of a chain move to the front of theirs.\<close>

fun move_chain :: "ei_bucket list \<Rightarrow> ei_hash \<Rightarrow> (unit, ei_hash) res" where
  "move_chain [] t = Ok t"
| "move_chain (b # bs) t =
     bindr (slot (tab t) (rawhash b)) (\<lambda>i.
       move_chain bs (t\<lparr>npos := (if tab t ! i = [] then npos t + 1 else npos t),
                        tab := (tab t)[i := b # tab t ! i]\<rparr>))"

fun move_chains :: "ei_bucket list list \<Rightarrow> ei_hash \<Rightarrow> (unit, ei_hash) res" where
  "move_chains [] t = Ok t"
| "move_chains (c # cs) t = bindr (move_chain c t) (move_chains cs)"

definition ei_hash_resize ::
  "ei_hash \<Rightarrow> int \<Rightarrow> heap \<Rightarrow> (unit, ei_hash \<times> heap) res option" where
  "ei_hash_resize oldtab newsize h =
     bindf (table_size newsize) (\<lambda>newsize.
       if newsize = int (length (tab oldtab)) then Some (Ok (oldtab, h))
       else bindf (ei_hash_newtab newsize h) (\<lambda>(newtab, h).
         case newtab of
           None \<Rightarrow> Some (Ok (oldtab, h))
         | Some newtab \<Rightarrow>
             Some (bindr (move_chains (tab oldtab) newtab) (\<lambda>newtab.
               let newtab = newtab\<lparr>nelem := nelem oldtab, hfreelist := hfreelist oldtab\<rparr>
               in bindr (free_ptr (Some (taddr oldtab)) h) (\<lambda>h. Ok (newtab, h))))))"

text \<open>Reverse lookup and traversal; a callback that returns a non-zero value ends it.\<close>

fun chain_rlookup :: "ptr \<Rightarrow> ei_bucket list \<Rightarrow> byte list option" where
  "chain_rlookup v [] = None"
| "chain_rlookup v (b # bs) = (if bvalue b = v then Some (bkey b) else chain_rlookup v bs)"

fun tab_rlookup :: "ptr \<Rightarrow> ei_bucket list list \<Rightarrow> byte list option" where
  "tab_rlookup v [] = None"
| "tab_rlookup v (c # cs) =
     (case chain_rlookup v c of Some k \<Rightarrow> Some k | None \<Rightarrow> tab_rlookup v cs)"

definition ei_hash_rlookup :: "ei_hash \<Rightarrow> ptr \<Rightarrow> byte list option" where
  "ei_hash_rlookup t v = tab_rlookup v (tab t)"

type_synonym 's callback = "byte list \<Rightarrow> ptr \<Rightarrow> 's \<Rightarrow> int \<times> 's"

fun chain_foreach :: "'s callback \<Rightarrow> ei_bucket list \<Rightarrow> 's \<Rightarrow> int \<times> 's" where
  "chain_foreach f [] s = (0, s)"
| "chain_foreach f (b # bs) s =
     (let (r, s) = f (bkey b) (bvalue b) s
      in if r \<noteq> 0 then (r, s) else chain_foreach f bs s)"

fun tab_foreach :: "'s callback \<Rightarrow> ei_bucket list list \<Rightarrow> 's \<Rightarrow> int \<times> 's" where
  "tab_foreach f [] s = (0, s)"
| "tab_foreach f (c # cs) s =
     (let (r, s) = chain_foreach f c s
      in if r \<noteq> 0 then (r, s) else tab_foreach f cs s)"

definition ei_hash_foreach :: "ei_hash \<Rightarrow> 's callback option \<Rightarrow> 's \<Rightarrow> int \<times> 's" where
  "ei_hash_foreach t f s = (case f of None \<Rightarrow> (0, s) | Some f \<Rightarrow> tab_foreach f (tab t) s)"

text \<open>\<open>ei_hash_freetab\<close>: \<open>f\<close> releases a value and works on the heap.\<close>

fun chain_free ::
  "(ptr \<Rightarrow> heap \<Rightarrow> (unit, heap) res) option \<Rightarrow> ei_bucket list \<Rightarrow> heap \<Rightarrow> (unit, heap) res" where
  "chain_free f [] h = Ok h"
| "chain_free f (b # bs) h =
     bindr (case f of None \<Rightarrow> Ok h | Some f \<Rightarrow> f (bvalue b) h) (\<lambda>h.
       bindr (free_ptr (Some (baddr b)) h) (chain_free f bs))"

fun chains_free ::
  "(ptr \<Rightarrow> heap \<Rightarrow> (unit, heap) res) option \<Rightarrow> ei_bucket list list \<Rightarrow> heap \<Rightarrow> (unit, heap) res" where
  "chains_free f [] h = Ok h"
| "chains_free f (c # cs) h = bindr (chain_free f c h) (chains_free f cs)"

definition ei_hash_freetab ::
  "ei_hash \<Rightarrow> (ptr \<Rightarrow> heap \<Rightarrow> (unit, heap) res) option \<Rightarrow> heap \<Rightarrow> (unit, int \<times> heap) res" where
  "ei_hash_freetab t f h =
     bindr (chains_free f (tab t) h) (\<lambda>h.
     bindr (free_all (hfreelist t) h) (\<lambda>h.
     bindr (free_ptr (Some (taddr t)) h) (\<lambda>h. Ok (0, h))))"

end
