(* ===== verification/Ei_Reg.thy ===== *)
theory Ei_Reg
  imports Ei_Hash
begin

text \<open>
  The registry: \<^verbatim>\<open>registry/reg_*.c\<close>, a hash table of typed values.

  The objects live in the heap and the table holds pointers to them, as in the code: \<open>objs\<close> gives
  the contents of the object at an address, and the set functions change an object in place.
  A NULL registry or key is \<open>None\<close>. A function that returns an \<open>int\<close> and changes the registry
  gives both; reading a member of the union \<open>val\<close> that is not the one stored last is a fault.
\<close>

abbreviation EI_DIRTY :: "32 word" where "EI_DIRTY \<equiv> 0x01"
abbreviation EI_DELET :: "32 word" where "EI_DELET \<equiv> 0x02"
abbreviation EI_INT :: "32 word" where "EI_INT \<equiv> 0x10"
abbreviation EI_FLT :: "32 word" where "EI_FLT \<equiv> 0x20"
abbreviation EI_STR :: "32 word" where "EI_STR \<equiv> 0x40"
abbreviation EI_BIN :: "32 word" where "EI_BIN \<equiv> 0x80"
abbreviation EI_REG_TYPEMASK :: "32 word" where "EI_REG_TYPEMASK \<equiv> 0xf8"

text \<open>The union \<open>val\<close>: a \<open>long\<close>, a \<open>double\<close> (its bits), a \<open>char *\<close>, a \<open>void *\<close>.\<close>

datatype reg_val = Val_i "64 word" | Val_f "64 word" | Val_s ptr | Val_p ptr

record ei_reg_obj =
  attr :: "32 word"
  osize :: int
  val :: reg_val

record ei_reg =
  raddr :: addr
  rfreelist :: "addr list"
  rtab :: ei_hash
  objs :: "addr \<Rightarrow> ei_reg_obj"
  mem :: heap

abbreviation sizeof_obj :: int where "sizeof_obj \<equiv> 24"

abbreviation sizeof_reg :: int where "sizeof_reg \<equiv> 16"

definition ei_reg_typeof :: "ei_reg_obj \<Rightarrow> 32 word" where
  "ei_reg_typeof obj = attr obj AND EI_REG_TYPEMASK"

definition deleted :: "ei_reg_obj \<Rightarrow> bool" where
  "deleted obj \<longleftrightarrow> attr obj AND EI_DELET \<noteq> 0"

text \<open>The members of the union.\<close>

fun val_i :: "reg_val \<Rightarrow> (unit, 64 word) res" where
  "val_i (Val_i i) = Ok i"
| "val_i _ = Fault"

fun val_f :: "reg_val \<Rightarrow> (unit, 64 word) res" where
  "val_f (Val_f f) = Ok f"
| "val_f _ = Fault"

fun val_s :: "reg_val \<Rightarrow> (unit, ptr) res" where
  "val_s (Val_s s) = Ok s"
| "val_s _ = Fault"

fun val_p :: "reg_val \<Rightarrow> (unit, ptr) res" where
  "val_p (Val_p p) = Ok p"
| "val_p _ = Fault"

section \<open>Open, resize, objects\<close>

definition ei_reg_open ::
  "int \<Rightarrow> (addr \<Rightarrow> ei_reg_obj) \<Rightarrow> heap \<Rightarrow> (unit, ei_reg option \<times> heap) res option" where
  "ei_reg_open tabsize store h =
     (if tabsize \<le> 0 then Some (Ok (None, h))
      else (case malloc sizeof_reg h of
              (None, h) \<Rightarrow> Some (Ok (None, h))
            | (Some new, h) \<Rightarrow>
                bindf (ei_hash_newtab tabsize h) (\<lambda>(t, h).
                  case t of
                    None \<Rightarrow> Some (bindr (free_ptr (Some new) h) (\<lambda>h. Ok (None, h)))
                  | Some t \<Rightarrow>
                      Some (Ok (Some \<lparr>raddr = new, rfreelist = [], rtab = t, objs = store, mem = h\<rparr>, h)))))"

definition ei_reg_resize ::
  "ei_reg option \<Rightarrow> int \<Rightarrow> (unit, int \<times> ei_reg option) res option" where
  "ei_reg_resize reg newsize =
     (case reg of
        None \<Rightarrow> Some (Ok (-1, None))
      | Some r \<Rightarrow>
          if newsize \<le> 0 then Some (Ok (-1, reg))
          else bindf (ei_hash_resize (rtab r) newsize (mem r)) (\<lambda>(t, h).
            Some (Ok (int (length (tab t)), Some (r\<lparr>rtab := t, mem := h\<rparr>)))))"

definition ei_reg_make :: "ei_reg \<Rightarrow> 32 word \<Rightarrow> ptr \<times> ei_reg" where
  "ei_reg_make r flags =
     (let (new, r) =
        (case rfreelist r of
           a # as \<Rightarrow> (Some a, r\<lparr>rfreelist := as\<rparr>)
         | [] \<Rightarrow> (let (p, h) = malloc sizeof_obj (mem r) in (p, r\<lparr>mem := h\<rparr>)))
      in case new of
           None \<Rightarrow> (None, r)
         | Some a \<Rightarrow>
             (Some a, r\<lparr>objs := (objs r)(a := (objs r a)\<lparr>attr := flags OR EI_DIRTY, osize := 0\<rparr>)\<rparr>))"

text \<open>The switch of \<open>ei_reg_free\<close> and \<open>obj_free\<close>: the block that goes with the object.\<close>

definition free_val :: "ei_reg_obj \<Rightarrow> heap \<Rightarrow> (unit, heap) res" where
  "free_val obj h =
     (if ei_reg_typeof obj = EI_STR then bindr (val_s (val obj)) (\<lambda>s. free_ptr s h)
      else if ei_reg_typeof obj = EI_BIN then bindr (val_p (val obj)) (\<lambda>p. free_ptr p h)
      else Ok h)"

definition ei_reg_free :: "ei_reg \<Rightarrow> addr \<Rightarrow> (unit, ei_reg) res" where
  "ei_reg_free r a =
     bindr (free_val (objs r a) (mem r)) (\<lambda>h. Ok (r\<lparr>rfreelist := a # rfreelist r, mem := h\<rparr>))"

section \<open>Setting values\<close>

text \<open>The switch on an existing object: its old value is released; \<open>None\<close> is the return of -1.\<close>

definition drop_value :: "ei_reg_obj \<Rightarrow> heap \<Rightarrow> (unit, heap option) res" where
  "drop_value obj h =
     (let ty = ei_reg_typeof obj
      in if ty = EI_INT \<or> ty = EI_FLT then Ok (Some h)
         else if ty = EI_STR then
           (if osize obj > 0
            then bindr (val_s (val obj)) (\<lambda>s. bindr (free_ptr s h) (\<lambda>h. Ok (Some h)))
            else Ok (Some h))
         else if ty = EI_BIN then
           (if osize obj > 0
            then bindr (val_p (val obj)) (\<lambda>p. bindr (free_ptr p h) (\<lambda>h. Ok (Some h)))
            else Ok (Some h))
         else Ok None)"

text \<open>The part that the four set functions share: the object to be filled in, an existing one whose
  old value is released, or a new one that is put into the table. \<open>None\<close> is the early return of -1.\<close>

definition set_object :: "ei_reg \<Rightarrow> byte list \<Rightarrow> 32 word \<Rightarrow> (unit, ptr \<times> ei_reg) res" where
  "set_object r key flags =
     bindr (ei_hash_lookup (rtab r) key) (\<lambda>p.
       case p of
         Some a \<Rightarrow>
           bindr (drop_value (objs r a) (mem r)) (\<lambda>h.
             case h of
               None \<Rightarrow> Ok (None, r)
             | Some h \<Rightarrow> Ok (Some a, r\<lparr>mem := h\<rparr>))
       | None \<Rightarrow>
           (case ei_reg_make r flags of
              (None, r) \<Rightarrow> Ok (None, r)
            | (Some a, r) \<Rightarrow>
                bindr (ei_hash_insert (rtab r) key (Some a) (mem r)) (\<lambda>(old, t, h).
                  Ok (Some a, r\<lparr>rtab := t, mem := h\<rparr>))))"

text \<open>The stores at the end of a set function.\<close>

definition fill_object :: "ptr \<times> ei_reg \<Rightarrow> 32 word \<Rightarrow> reg_val \<Rightarrow> int \<Rightarrow> (unit, int \<times> ei_reg option) res" where
  "fill_object pr flags v n =
     (case pr of
        (None, r) \<Rightarrow> Ok (-1, Some r)
      | (Some a, r) \<Rightarrow>
          Ok (0, Some (r\<lparr>objs := (objs r)(a := \<lparr>attr = flags OR EI_DIRTY, osize = n, val = v\<rparr>)\<rparr>)))"

definition ei_reg_setival ::
  "ei_reg option \<Rightarrow> byte list option \<Rightarrow> 64 word \<Rightarrow> (unit, int \<times> ei_reg option) res" where
  "ei_reg_setival reg key i =
     (case (key, reg) of
        (Some key, Some r) \<Rightarrow> bindr (set_object r key EI_INT) (\<lambda>pr. fill_object pr EI_INT (Val_i i) 0)
      | _ \<Rightarrow> Ok (-1, reg))"

definition ei_reg_setfval ::
  "ei_reg option \<Rightarrow> byte list option \<Rightarrow> 64 word \<Rightarrow> (unit, int \<times> ei_reg option) res" where
  "ei_reg_setfval reg key f =
     (case (key, reg) of
        (Some key, Some r) \<Rightarrow> bindr (set_object r key EI_FLT) (\<lambda>pr. fill_object pr EI_FLT (Val_f f) 0)
      | _ \<Rightarrow> Ok (-1, reg))"

text \<open>A string argument is a pointer together with the characters it points at.\<close>

definition ei_reg_setsval ::
  "ei_reg option \<Rightarrow> byte list option \<Rightarrow> (addr \<times> byte list) option \<Rightarrow> (unit, int \<times> ei_reg option) res" where
  "ei_reg_setsval reg key s =
     (case (key, reg) of
        (Some key, Some r) \<Rightarrow>
          (let len = (case s of None \<Rightarrow> 0 | Some (a, cs) \<Rightarrow> int (strlen cs) + 1)
           in bindr (set_object r key EI_STR) (\<lambda>pr. fill_object pr EI_STR (Val_s (map_option fst s)) len))
      | _ \<Rightarrow> Ok (-1, reg))"

definition ei_reg_setpval ::
  "ei_reg option \<Rightarrow> byte list option \<Rightarrow> ptr \<Rightarrow> int \<Rightarrow> (unit, int \<times> ei_reg option) res" where
  "ei_reg_setpval reg key p n =
     (if n < 0 then Ok (-1, reg)
      else (case (key, reg) of
              (Some key, Some r) \<Rightarrow> bindr (set_object r key EI_BIN) (\<lambda>pr. fill_object pr EI_BIN (Val_p p) n)
            | _ \<Rightarrow> Ok (-1, reg)))"

text \<open>The variable arguments of \<open>ei_reg_setval\<close>; fetching one of another type is a fault.\<close>

datatype reg_arg = Arg_i "64 word" | Arg_f "64 word" | Arg_s "(addr \<times> byte list) option" | Arg_p ptr int

definition ei_reg_setval ::
  "ei_reg option \<Rightarrow> byte list option \<Rightarrow> 32 word \<Rightarrow> reg_arg \<Rightarrow> (unit, int \<times> ei_reg option) res" where
  "ei_reg_setval reg key flags ap =
     (if key = None \<or> reg = None then Ok (-1, reg)
      else if flags AND EI_REG_TYPEMASK = EI_INT then
        (case ap of Arg_i i \<Rightarrow> ei_reg_setival reg key i | _ \<Rightarrow> Fault)
      else if flags AND EI_REG_TYPEMASK = EI_FLT then
        (case ap of Arg_f f \<Rightarrow> ei_reg_setfval reg key f | _ \<Rightarrow> Fault)
      else if flags AND EI_REG_TYPEMASK = EI_STR then
        (case ap of Arg_s s \<Rightarrow> ei_reg_setsval reg key s | _ \<Rightarrow> Fault)
      else if flags AND EI_REG_TYPEMASK = EI_BIN then
        (case ap of Arg_p p n \<Rightarrow> ei_reg_setpval reg key p n | _ \<Rightarrow> Fault)
      else Ok (-1, reg))"

section \<open>Reading values\<close>

text \<open>The object of a key, if both arguments are given and the key is in the table.\<close>

definition find_object :: "ei_reg option \<Rightarrow> byte list option \<Rightarrow> (unit, ei_reg_obj option) res" where
  "find_object reg key =
     (case (key, reg) of
        (Some key, Some r) \<Rightarrow> bindr (ei_hash_lookup (rtab r) key) (\<lambda>p. Ok (map_option (objs r) p))
      | _ \<Rightarrow> Ok None)"

definition ei_reg_getival :: "ei_reg option \<Rightarrow> byte list option \<Rightarrow> (unit, 64 word) res" where
  "ei_reg_getival reg key =
     bindr (find_object reg key) (\<lambda>obj.
       case obj of
         None \<Rightarrow> Ok (-1)
       | Some obj \<Rightarrow>
           if deleted obj then Ok (-1)
           else if ei_reg_typeof obj \<noteq> EI_INT then Ok (-1)
           else val_i (val obj))"

text \<open>The result is a \<open>double\<close>: this is the bit pattern of -1.\<close>

abbreviation minus_one_double :: "64 word" where "minus_one_double \<equiv> 0xBFF0000000000000"

definition ei_reg_getfval :: "ei_reg option \<Rightarrow> byte list option \<Rightarrow> (unit, 64 word) res" where
  "ei_reg_getfval reg key =
     bindr (find_object reg key) (\<lambda>obj.
       case obj of
         None \<Rightarrow> Ok minus_one_double
       | Some obj \<Rightarrow>
           if deleted obj then Ok minus_one_double
           else if ei_reg_typeof obj \<noteq> EI_FLT then Ok minus_one_double
           else val_f (val obj))"

definition ei_reg_getsval :: "ei_reg option \<Rightarrow> byte list option \<Rightarrow> (unit, ptr) res" where
  "ei_reg_getsval reg key =
     bindr (find_object reg key) (\<lambda>obj.
       case obj of
         None \<Rightarrow> Ok None
       | Some obj \<Rightarrow>
           if deleted obj \<or> ei_reg_typeof obj \<noteq> EI_STR then Ok None else val_s (val obj))"

text \<open>The second result is what is stored in \<open>*size\<close>, if anything.\<close>

definition ei_reg_getpval ::
  "ei_reg option \<Rightarrow> byte list option \<Rightarrow> bool \<Rightarrow> (unit, ptr \<times> int option) res" where
  "ei_reg_getpval reg key want_size =
     bindr (find_object reg key) (\<lambda>obj.
       case obj of
         None \<Rightarrow> Ok (None, None)
       | Some obj \<Rightarrow>
           if deleted obj \<or> ei_reg_typeof obj \<noteq> EI_BIN then Ok (None, None)
           else bindr (val_p (val obj)) (\<lambda>p.
             Ok (p, if want_size then Some (osize obj) else None)))"

text \<open>\<open>ei_reg_getval\<close>: \<open>want\<close> and \<open>want_size\<close> say which of the destinations are not NULL.\<close>

definition ei_reg_getval ::
  "ei_reg option \<Rightarrow> byte list option \<Rightarrow> 32 word \<Rightarrow> bool \<Rightarrow> bool
     \<Rightarrow> (unit, 32 word \<times> reg_val option \<times> int option) res" where
  "ei_reg_getval reg key flags want want_size =
     bindr (find_object reg key) (\<lambda>obj.
       case obj of
         None \<Rightarrow> Ok (-1, None, None)
       | Some obj \<Rightarrow>
           (let objtype = ei_reg_typeof obj
            in if deleted obj then Ok (-1, None, None)
               else if flags \<noteq> 0 \<and> flags \<noteq> objtype then Ok (-1, None, None)
               else if objtype = EI_INT then
                 (if \<not> want then Ok (-1, None, None)
                  else bindr (val_i (val obj)) (\<lambda>i. Ok (objtype, Some (Val_i i), None)))
               else if objtype = EI_FLT then
                 (if \<not> want then Ok (-1, None, None)
                  else bindr (val_f (val obj)) (\<lambda>f. Ok (objtype, Some (Val_f f), None)))
               else if objtype = EI_STR then
                 (if \<not> want then Ok (-1, None, None)
                  else bindr (val_s (val obj)) (\<lambda>s. Ok (objtype, Some (Val_s s), None)))
               else if objtype = EI_BIN then
                 (let n = (if want_size then Some (osize obj) else None)
                  in if \<not> want then Ok (-1, None, n)
                     else bindr (val_p (val obj)) (\<lambda>p. Ok (objtype, Some (Val_p p), n)))
               else Ok (-1, None, None)))"

record reg_stat = stat_attr :: "32 word" stat_size :: int

definition ei_reg_stat ::
  "ei_reg option \<Rightarrow> byte list option \<Rightarrow> bool \<Rightarrow> (unit, int \<times> reg_stat option) res" where
  "ei_reg_stat reg key obuf =
     (if \<not> obuf then Ok (-1, None)
      else bindr (find_object reg key) (\<lambda>obj.
        case obj of
          None \<Rightarrow> Ok (-1, None)
        | Some obj \<Rightarrow> Ok (0, Some \<lparr>stat_attr = attr obj, stat_size = osize obj\<rparr>)))"

record reg_tabstat = st_size :: int st_nelem :: int st_npos :: int st_collisions :: int

definition ei_reg_tabstat :: "ei_reg option \<Rightarrow> bool \<Rightarrow> int \<times> reg_tabstat option" where
  "ei_reg_tabstat reg obuf =
     (case reg of
        Some r \<Rightarrow>
          if obuf then
            (0, Some \<lparr>st_size = int (length (tab (rtab r))), st_nelem = nelem (rtab r),
                      st_npos = npos (rtab r), st_collisions = nelem (rtab r) - npos (rtab r)\<rparr>)
          else (-1, None)
      | None \<Rightarrow> (-1, None))"

section \<open>Marks, purging, closing\<close>

definition ei_reg_delete ::
  "ei_reg option \<Rightarrow> byte list option \<Rightarrow> (unit, int \<times> ei_reg option) res" where
  "ei_reg_delete reg key =
     (case (key, reg) of
        (Some key, Some r) \<Rightarrow>
          bindr (ei_hash_lookup (rtab r) key) (\<lambda>p.
            case p of
              None \<Rightarrow> Ok (-1, reg)
            | Some a \<Rightarrow>
                Ok (0, Some (r\<lparr>objs := (objs r)(a := (objs r a)\<lparr>attr := attr (objs r a) OR (EI_DELET OR EI_DIRTY)\<rparr>)\<rparr>)))
      | _ \<Rightarrow> Ok (-1, reg))"

definition ei_reg_markdirty ::
  "ei_reg option \<Rightarrow> byte list option \<Rightarrow> (unit, int \<times> ei_reg option) res" where
  "ei_reg_markdirty reg key =
     (case (key, reg) of
        (Some key, Some r) \<Rightarrow>
          bindr (ei_hash_lookup (rtab r) key) (\<lambda>p.
            case p of
              None \<Rightarrow> Ok (-1, reg)
            | Some a \<Rightarrow>
                Ok (0, Some (r\<lparr>objs := (objs r)(a := (objs r a)\<lparr>attr := attr (objs r a) OR EI_DIRTY\<rparr>)\<rparr>)))
      | _ \<Rightarrow> Ok (-1, reg))"

text \<open>One bucket that is thrown away: its object, then itself.\<close>

definition purge_bucket :: "ei_bucket \<Rightarrow> addr \<Rightarrow> ei_reg \<Rightarrow> (unit, ei_reg) res" where
  "purge_bucket b a r =
     bindr (ei_reg_free r a) (\<lambda>r.
     bindr (ei_hash_bfree (rtab r) b (mem r)) (\<lambda>(t, h).
       Ok (r\<lparr>rtab := t\<lparr>nelem := nelem t - 1\<rparr>, mem := h\<rparr>)))"

text \<open>The two loops of \<open>do_purge\<close>: at the head of the chain, then behind a bucket that stays.\<close>

fun purge_head :: "ei_bucket list \<Rightarrow> ei_reg \<Rightarrow> (unit, ei_bucket list \<times> ei_reg) res" where
  "purge_head [] r = Ok ([], r)"
| "purge_head (b # bs) r =
     (case bvalue b of
        None \<Rightarrow> Fault
      | Some a \<Rightarrow>
          if deleted (objs r a) then bindr (purge_bucket b a r) (purge_head bs)
          else Ok (b # bs, r))"

fun purge_rest :: "ei_bucket list \<Rightarrow> ei_reg \<Rightarrow> (unit, ei_bucket list \<times> ei_reg) res" where
  "purge_rest [] r = Ok ([], r)"
| "purge_rest (b # bs) r =
     (case bvalue b of
        None \<Rightarrow> Fault
      | Some a \<Rightarrow>
          if deleted (objs r a) then bindr (purge_bucket b a r) (purge_rest bs)
          else bindr (purge_rest bs r) (\<lambda>(bs, r). Ok (b # bs, r)))"

definition do_purge :: "ei_reg \<Rightarrow> nat \<Rightarrow> (unit, ei_bucket list \<times> ei_reg) res" where
  "do_purge r i =
     bindr (purge_head (tab (rtab r) ! i) r) (\<lambda>(c, r).
       case c of
         [] \<Rightarrow> Ok ([], r)
       | b # bs \<Rightarrow> bindr (purge_rest bs r) (\<lambda>(bs, r). Ok (b # bs, r)))"

text \<open>The body and the loop of \<open>ei_reg_purge\<close> over the positions of the table.\<close>

definition purge_slot :: "nat \<Rightarrow> ei_reg \<Rightarrow> (unit, ei_reg) res" where
  "purge_slot i r =
     (if tab (rtab r) ! i = [] then Ok r
      else bindr (do_purge r i) (\<lambda>(c, r).
        Ok (r\<lparr>rtab := (rtab r)\<lparr>tab := (tab (rtab r))[i := c],
                               npos := (if c = [] then npos (rtab r) - 1 else npos (rtab r))\<rparr>\<rparr>)))"

fun purge_slots :: "nat list \<Rightarrow> ei_reg \<Rightarrow> (unit, ei_reg) res" where
  "purge_slots [] r = Ok r"
| "purge_slots (i # is) r = bindr (purge_slot i r) (purge_slots is)"

definition ei_reg_purge :: "ei_reg option \<Rightarrow> (unit, int \<times> ei_reg option) res" where
  "ei_reg_purge reg =
     (case reg of
        None \<Rightarrow> Ok (-1, None)
      | Some r \<Rightarrow> bindr (purge_slots [0..<length (tab (rtab r))] r) (\<lambda>r. Ok (0, Some r)))"

text \<open>Closing: \<open>obj_free\<close> is the callback for the values of the table.\<close>

definition obj_free :: "(addr \<Rightarrow> ei_reg_obj) \<Rightarrow> ptr \<Rightarrow> heap \<Rightarrow> (unit, heap) res" where
  "obj_free store p h =
     (case p of
        None \<Rightarrow> Ok h
      | Some a \<Rightarrow> bindr (free_val (store a) h) (free_ptr (Some a)))"

definition ei_reg_close :: "ei_reg option \<Rightarrow> (unit, int \<times> heap option) res" where
  "ei_reg_close reg =
     (case reg of
        None \<Rightarrow> Ok (-1, None)
      | Some r \<Rightarrow>
          bindr (ei_hash_freetab (rtab r) (Some (obj_free (objs r))) (mem r)) (\<lambda>(n, h).
          bindr (free_all (rfreelist r) h) (\<lambda>h.
          bindr (free_ptr (Some (raddr r)) h) (\<lambda>h. Ok (0, Some h)))))"

end
