(* ===== verification/Machine.thy ===== *)
theory Machine
  imports Prelude
begin

text \<open>
  Sequences of calls on a component with state. The locale states the contract of one call:
  under its precondition it returns, keeps the invariant, and its result and the change of the
  abstract state are those of a specification. The lemma in it lifts the contract to every
  sequence of calls.
\<close>

fun run_calls :: "('o \<Rightarrow> 's \<Rightarrow> (unit, 'r \<times> 's) res option) \<Rightarrow> 'o list \<Rightarrow> 's
    \<Rightarrow> (unit, 'r list \<times> 's) res option" where
  "run_calls step [] s = Some (Ok ([], s))"
| "run_calls step (op # ops) s =
     bindf (step op s) (\<lambda>(r, s).
       bindf (run_calls step ops s) (\<lambda>(rs, s). Some (Ok (r # rs, s))))"

text \<open>The precondition holds at every call of a run.\<close>

fun admissible :: "('o \<Rightarrow> 's \<Rightarrow> (unit, 'r \<times> 's) res option) \<Rightarrow> ('o \<Rightarrow> 's \<Rightarrow> bool) \<Rightarrow> 'o list \<Rightarrow> 's \<Rightarrow> bool" where
  "admissible step pre [] s = True"
| "admissible step pre (op # ops) s \<longleftrightarrow>
     pre op s \<and> (case step op s of Some (Ok (r, s')) \<Rightarrow> admissible step pre ops s' | _ \<Rightarrow> True)"

lemma admissible_always: "(\<And>op s. op \<in> set ops \<Longrightarrow> pre op s) \<Longrightarrow> admissible step pre ops s"
  by (induction ops arbitrary: s) (auto split: option.splits res.splits)

lemma admissible_first:
  "pre op s \<Longrightarrow> (\<And>op s. op \<in> set ops \<Longrightarrow> pre op s) \<Longrightarrow> admissible step pre (op # ops) s"
  using admissible_always [of ops pre step] by (simp split: option.splits res.splits)

text \<open>A sequence of specified calls from one abstract state to another, with their results.\<close>

inductive specified :: "('o \<Rightarrow> 'a \<Rightarrow> 'r \<Rightarrow> 'a \<Rightarrow> bool) \<Rightarrow> 'o list \<Rightarrow> 'a \<Rightarrow> 'r list \<Rightarrow> 'a \<Rightarrow> bool"
  for effect where
  stop: "specified effect [] m [] m"
| call: "effect op m r m' \<Longrightarrow> specified effect ops m' rs m'' \<Longrightarrow>
    specified effect (op # ops) m (r # rs) m''"

inductive_cases specified_Nil [elim!]: "specified effect [] m rs m'"
inductive_cases specified_Cons [elim!]: "specified effect (op # ops) m rs m'"

locale component =
  fixes inv :: "'s \<Rightarrow> bool" and view :: "'s \<Rightarrow> 'a"
    and step :: "'o \<Rightarrow> 's \<Rightarrow> (unit, 'r \<times> 's) res option"
    and pre :: "'o \<Rightarrow> 's \<Rightarrow> bool" and effect :: "'o \<Rightarrow> 'a \<Rightarrow> 'r \<Rightarrow> 'a \<Rightarrow> bool"
  assumes call_law:
    "inv s \<Longrightarrow> pre op s \<Longrightarrow> \<exists>r s'. step op s = Some (Ok (r, s')) \<and> inv s' \<and> effect op (view s) r (view s')"
begin

lemma runs:
  "inv s \<Longrightarrow> admissible step pre ops s \<Longrightarrow>
     \<exists>rs s'. run_calls step ops s = Some (Ok (rs, s')) \<and> inv s' \<and> specified effect ops (view s) rs (view s')"
proof (induction ops arbitrary: s)
  case Nil
  then show ?case by (auto intro: specified.stop)
next
  case (Cons op ops)
  obtain r s1 where 1: "step op s = Some (Ok (r, s1))" "inv s1" "effect op (view s) r (view s1)"
    using call_law [of s op] Cons.prems by auto
  then obtain rs s' where "run_calls step ops s1 = Some (Ok (rs, s'))" "inv s'"
    "specified effect ops (view s1) rs (view s')"
    using Cons.IH [of s1] Cons.prems(2) by auto
  then show ?case using 1 by (auto intro: specified.call)
qed

end

end
