(* ===== verification/Ei_HashMap.thy ===== *)
theory Ei_HashMap
  imports Ei_Hash Machine
begin

text \<open>
  The hash table as a finite map: the invariant of a table, the map it stands for, the blocks it
  owns, and what every operation does to the three.
\<close>

section \<open>Keys and positions\<close>

lemma cstr_idem [simp]: "cstr (cstr s) = cstr s"
  by (simp add: cstr_def takeWhile_idem)

lemma length_cstr [simp]: "length (cstr s) = strlen s"
  by (simp add: cstr_def strlen_def)

lemma cstr_no_nul: "0 \<notin> set s \<Longrightarrow> cstr s = s"
  by (auto simp: cstr_def takeWhile_eq_all_conv)

lemma hash_chars_cstr: "hash_chars h (cstr s) = hash_chars h s"
  by (induction s arbitrary: h) (auto simp: cstr_def)

lemma dohash_cstr [simp]: "ei_dohash (cstr s) = ei_dohash s"
  by (simp add: ei_dohash_def hash_chars_cstr)

text \<open>The hash value always has its four highest bits clear, for any characters.\<close>

lemma word_below_exp:
  fixes w :: "32 word"
  assumes "\<And>k. bit w k \<Longrightarrow> k < 28"
  shows "uint w < 0x10000000"
proof -
  have "take_bit 28 w = w" using assms by (auto simp: bit_eq_iff bit_take_bit_iff)
  then have "uint w = take_bit 28 (uint w)" by (metis unsigned_take_bit_eq)
  also have "\<dots> < 2 ^ 28" by (rule take_bit_int_less_exp)
  finally show ?thesis by simp
qed

lemma hash_char_bound: "uint (hash_char h c) < 0x10000000"
proof (rule word_below_exp)
  fix k
  define x where "x = push_bit 4 h + (scast c :: 32 word)"
  have m: "(0xf0000000 :: 32 word) = push_bit 28 (mask 4)" by (simp add: mask_eq_exp_minus_1)
  assume b: "bit (hash_char h c) k"
  show "k < 28"
  proof (cases "x AND 0xf0000000 = 0")
    case True
    then have "\<not> bit (x AND push_bit 28 (mask 4)) k" by (simp add: m)
    then show ?thesis using b True bit_imp_le_length [of x k]
      by (auto simp: hash_char_def Let_def x_def [symmetric] bit_and_iff bit_push_bit_iff bit_mask_iff)
  next
    case False
    then have "bit ((x XOR drop_bit 24 (x AND push_bit 28 (mask 4))) XOR (x AND push_bit 28 (mask 4))) k"
      using b by (simp add: hash_char_def Let_def x_def [symmetric] m)
    then show ?thesis using bit_imp_le_length [of x k] bit_imp_le_length [of x "24 + k"]
      by (auto simp: bit_xor_iff bit_and_iff bit_push_bit_iff bit_mask_iff bit_drop_bit_eq)
  qed
qed

lemma hash_chars_bound: "uint h < 0x10000000 \<Longrightarrow> uint (hash_chars h s) < 0x10000000"
  by (induction h s rule: hash_chars.induct) (simp_all add: hash_char_bound)

lemma dohash_bound: "uint (ei_dohash s) < 0x10000000"
  by (simp add: ei_dohash_def hash_chars_bound)

lemma sint_dohash: "sint (ei_dohash s) = int (unat (ei_dohash s))"
proof -
  have "signed_take_bit 31 (uint (ei_dohash s)) = uint (ei_dohash s)"
  proof (rule signed_take_bit_int_eq_self)
    show "- (2 ^ 31) \<le> uint (ei_dohash s)" by (rule order_trans [of _ 0]) simp_all
    show "uint (ei_dohash s) < 2 ^ 31" using dohash_bound [of s] by simp
  qed
  then show ?thesis by (simp add: sint_uint)
qed

definition home :: "ei_bucket list list \<Rightarrow> byte list \<Rightarrow> nat" where
  "home ts key = unat (ei_dohash key) mod length ts"

lemma home_cstr [simp]: "home ts (cstr s) = home ts s"
  by (simp add: home_def)

lemma home_update [simp]: "home (ts[i := c]) key = home ts key"
  by (simp add: home_def)

lemma home_less [simp]: "ts \<noteq> [] \<Longrightarrow> home ts key < length ts"
  by (simp add: home_def)

lemma slot_dohash: "ts \<noteq> [] \<Longrightarrow> slot ts (ei_dohash key) = Ok (home ts key)"
  by (simp add: slot_def sint_dohash home_def zmod_int [symmetric] del: of_nat_unat)

section \<open>Chains\<close>

text \<open>Abbreviations of this theory: the entries and the addresses of a list of buckets.\<close>

definition entries :: "ei_bucket list \<Rightarrow> (byte list \<times> ptr) list" where
  "entries bs = map (\<lambda>b. (bkey b, bvalue b)) bs"

definition bucket_ok :: "ei_bucket \<Rightarrow> bool" where
  "bucket_ok b \<longleftrightarrow> rawhash b = ei_dohash (bkey b) \<and> cstr (bkey b) = bkey b
     \<and> in_keybuf b = (length (bkey b) < EI_SMALLKEY)"

lemma entries_simps [simp]:
  "entries [] = []" "entries (b # bs) = (bkey b, bvalue b) # entries bs"
  "entries (as @ bs) = entries as @ entries bs" "map fst (entries bs) = map bkey bs"
  "set (entries bs) = (\<lambda>b. (bkey b, bvalue b)) ` set bs"
  by (auto simp: entries_def image_iff)

lemma map_of_entries_None: "map_of (entries bs) k = None \<longleftrightarrow> k \<notin> bkey ` set bs"
  by (simp add: map_of_eq_None_iff image_image)

lemma hits_iff: "bucket_ok b \<Longrightarrow> hits (ei_dohash key) key b \<longleftrightarrow> bkey b = cstr key"
  by (auto simp: hits_def bucket_ok_def)

lemma chain_lookup_None: "chain_lookup rh key bs = None \<longleftrightarrow> (\<forall>b\<in>set bs. \<not> hits rh key b)"
  by (induction bs) auto

lemma chain_lookup_split:
  assumes "chain_lookup rh key bs = Some b"
  obtains xs ys where "bs = xs @ b # ys" "hits rh key b" "\<forall>x\<in>set xs. \<not> hits rh key x"
    "\<And>v. chain_replace rh key v bs = xs @ b\<lparr>bvalue := v\<rparr> # ys" "chain_unlink rh key bs = xs @ ys"
  using assms
proof (induction bs arbitrary: thesis)
  case (Cons c cs)
  show ?case
  proof (cases "hits rh key c")
    case True
    then show ?thesis using Cons.prems(1) [of "[]" cs] Cons.prems(2) by simp
  next
    case False
    obtain xs ys where "cs = xs @ b # ys" "hits rh key b" "\<forall>x\<in>set xs. \<not> hits rh key x"
      "\<And>v. chain_replace rh key v cs = xs @ b\<lparr>bvalue := v\<rparr> # ys" "chain_unlink rh key cs = xs @ ys"
      using Cons.IH Cons.prems(2) False by (auto split: if_splits)
    then show ?thesis using Cons.prems(1) [of "c # xs" ys] False by simp
  qed
qed simp

lemma map_of_chain:
  assumes "\<forall>b\<in>set bs. bucket_ok b"
  shows "map_option bvalue (chain_lookup (ei_dohash key) key bs) = map_of (entries bs) (cstr key)"
  using assms by (induction bs) (auto simp: hits_iff)

section \<open>The invariant of a table\<close>

definition placed :: "ei_bucket list list \<Rightarrow> bool" where
  "placed ts \<longleftrightarrow> (\<forall>i<length ts. \<forall>b\<in>set (ts ! i). bucket_ok b \<and> home ts (bkey b) = i)"

definition occupied :: "ei_bucket list list \<Rightarrow> int" where
  "occupied ts = int (length (filter (\<lambda>c. c \<noteq> []) ts))"

definition hash_inv :: "ei_hash \<Rightarrow> bool" where
  "hash_inv t \<longleftrightarrow> tab t \<noteq> [] \<and> placed (tab t) \<and> distinct (map bkey (concat (tab t)))
     \<and> nelem t = int (length (concat (tab t))) \<and> npos t = occupied (tab t)"

text \<open>The map a table stands for, and its blocks.\<close>

definition tab_map :: "ei_hash \<Rightarrow> byte list \<Rightarrow> ptr option" where
  "tab_map t = map_of (entries (concat (tab t)))"

definition blocks :: "ei_hash \<Rightarrow> addr list" where
  "blocks t = taddr t # map baddr (concat (tab t)) @ hfreelist t"

text \<open>One position of the array and what surrounds it.\<close>

lemma concat_split:
  assumes "i < length ts"
  obtains xs ys where "\<And>c. concat (ts[i := c]) = xs @ c @ ys" "concat ts = xs @ ts ! i @ ys"
    "\<And>b. b \<in> set xs \<union> set ys \<Longrightarrow> \<exists>j<length ts. j \<noteq> i \<and> b \<in> set (ts ! j)"
proof
  show eq: "concat (ts[i := c]) = concat (take i ts) @ c @ concat (drop (Suc i) ts)" for c
    using assms by (simp add: upd_conv_take_nth_drop)
  show "concat ts = concat (take i ts) @ ts ! i @ concat (drop (Suc i) ts)"
    using eq [of "ts ! i"] by simp
  fix b
  assume "b \<in> set (concat (take i ts)) \<union> set (concat (drop (Suc i) ts))"
  then consider c where "c \<in> set (take i ts)" "b \<in> set c"
    | c where "c \<in> set (drop (Suc i) ts)" "b \<in> set c" by auto
  then show "\<exists>j<length ts. j \<noteq> i \<and> b \<in> set (ts ! j)"
  proof cases
    case 1
    then obtain j where "j < i" "j < length ts" "c = ts ! j" by (auto simp: in_set_conv_nth)
    then show ?thesis using 1 by blast
  next
    case 2
    then obtain j where "j < length ts - Suc i" "c = ts ! (Suc i + j)"
      by (auto simp: in_set_conv_nth)
    then show ?thesis using 2 by (intro exI [of _ "Suc i + j"]) auto
  qed
qed

lemma length_concat_update:
  assumes "i < length ts"
  shows "int (length (concat (ts[i := c]))) = int (length (concat ts)) - int (length (ts ! i)) + int (length c)"
proof -
  obtain xs ys where "\<And>c. concat (ts[i := c]) = xs @ c @ ys" "concat ts = xs @ ts ! i @ ys"
    using concat_split [OF assms] by metis
  then show ?thesis by simp
qed

lemma occupied_update:
  "i < length ts \<Longrightarrow> occupied (ts[i := c]) = occupied ts - of_bool (ts ! i \<noteq> []) + of_bool (c \<noteq> [])"
proof -
  assume i: "i < length ts"
  have "occupied (ts[i := c]) = occupied (take i ts) + of_bool (c \<noteq> []) + occupied (drop (Suc i) ts)" for c
    using i by (simp add: occupied_def upd_conv_take_nth_drop)
  from this [of c] this [of "ts ! i"] show ?thesis by simp
qed

text \<open>Outside the home position of a key there is no bucket with it.\<close>

lemma tab_map_home:
  assumes "hash_inv t"
  shows "tab_map t key = map_of (entries (tab t ! home (tab t) key)) key"
proof -
  have "home (tab t) key < length (tab t)" using assms by (simp add: hash_inv_def)
  from concat_split [OF this] obtain xs ys
    where c: "concat (tab t) = xs @ tab t ! home (tab t) key @ ys"
      "\<And>b. b \<in> set xs \<union> set ys \<Longrightarrow> \<exists>j<length (tab t). j \<noteq> home (tab t) key \<and> b \<in> set (tab t ! j)"
    by metis
  have "bkey b \<noteq> key" if "b \<in> set xs \<union> set ys" for b
    using c(2) [OF that] assms by (auto simp: hash_inv_def placed_def)
  then have "key \<notin> bkey ` set xs" "key \<notin> bkey ` set ys" by blast+
  then have "map_of (entries xs) key = None" "map_of (entries ys) key = None"
    by (simp_all add: map_of_entries_None)
  then show ?thesis by (simp add: tab_map_def c(1) map_add_def split: option.splits)
qed

lemma placed_ok: "placed ts \<Longrightarrow> c \<in> set ts \<Longrightarrow> b \<in> set c \<Longrightarrow> bucket_ok b"
  by (metis in_set_conv_nth placed_def)

text \<open>A new chain at position \<open>i\<close>.\<close>

lemma occupied_positions:
  assumes "placed ts"
  shows "occupied ts = int (card (home ts ` bkey ` set (concat ts)))"
proof -
  have "{i. i < length ts \<and> ts ! i \<noteq> []} = home ts ` bkey ` set (concat ts)"
  proof (intro equalityI subsetI)
    fix i assume i: "i \<in> {i. i < length ts \<and> ts ! i \<noteq> []}"
    then obtain b where b: "b \<in> set (ts ! i)" by (cases "ts ! i") auto
    then have "home ts (bkey b) = i" using assms i by (simp add: placed_def)
    moreover have "b \<in> set (concat ts)" using b i by (auto intro: nth_mem)
    ultimately show "i \<in> home ts ` bkey ` set (concat ts)" by blast
  next
    fix i assume "i \<in> home ts ` bkey ` set (concat ts)"
    then obtain b c where b: "i = home ts (bkey b)" "c \<in> set ts" "b \<in> set c" by auto
    then obtain j where "j < length ts" "c = ts ! j" by (auto simp: in_set_conv_nth)
    then show "i \<in> {i. i < length ts \<and> ts ! i \<noteq> []}" using assms b by (auto simp: placed_def)
  qed
  then show ?thesis by (simp add: occupied_def length_filter_conv_card)
qed

lemma placed_update:
  assumes "placed ts" "i < length ts" "\<forall>b\<in>set c. bucket_ok b \<and> home ts (bkey b) = i"
  shows "placed (ts[i := c])"
  using assms by (auto simp: placed_def nth_list_update)

lemma distinct_update:
  assumes "placed ts" "i < length ts" "\<forall>b\<in>set c. home ts (bkey b) = i"
    "distinct (map bkey (concat ts))" "distinct (map bkey c)"
  shows "distinct (map bkey (concat (ts[i := c])))"
proof -
  obtain xs ys where e: "\<And>c. concat (ts[i := c]) = xs @ c @ ys" "concat ts = xs @ ts ! i @ ys"
    "\<And>b. b \<in> set xs \<union> set ys \<Longrightarrow> \<exists>j<length ts. j \<noteq> i \<and> b \<in> set (ts ! j)"
    using concat_split [OF assms(2)] by metis
  have "home ts (bkey b) \<noteq> i" if "b \<in> set xs \<union> set ys" for b
    using e(3) [OF that] assms(1) by (auto simp: placed_def)
  then have "bkey ` set c \<inter> bkey ` (set xs \<union> set ys) = {}" using assms(3) by fastforce
  then show ?thesis using assms(4,5) by (auto simp: e(1,2))
qed

lemma hash_inv_update:
  assumes "hash_inv t" "i < length (tab t)" "\<forall>b\<in>set c. bucket_ok b \<and> home (tab t) (bkey b) = i"
    "distinct (map bkey c)" "tab t' = (tab t)[i := c]"
    "nelem t' = nelem t - int (length (tab t ! i)) + int (length c)"
    "npos t' = npos t - of_bool (tab t ! i \<noteq> []) + of_bool (c \<noteq> [])"
  shows "hash_inv t'"
    "tab_map t' key = (if home (tab t) key = i then map_of (entries c) key else tab_map t key)"
proof -
  have d: "distinct (map bkey (concat (tab t')))"
    using assms distinct_update [of "tab t" i c] by (auto simp: hash_inv_def)
  have l: "int (length (concat (tab t'))) = nelem t'"
    using length_concat_update [OF assms(2), of c] assms(1,5,6) by (simp add: hash_inv_def)
  show inv: "hash_inv t'"
    using assms placed_update [of "tab t" i c] occupied_update [of i "tab t" c] d l
    by (auto simp: hash_inv_def)
  show "tab_map t' key = (if home (tab t) key = i then map_of (entries c) key else tab_map t key)"
    using tab_map_home [OF inv, of key] tab_map_home [OF assms(1), of key] assms(2,5) by simp
qed

section \<open>Lookup and insertion\<close>

text \<open>What a lookup returns: NULL for a missing key, and for one that NULL is stored under.\<close>

definition stored :: "(byte list \<Rightarrow> ptr option) \<Rightarrow> byte list \<Rightarrow> ptr" where
  "stored m key = (case m key of None \<Rightarrow> None | Some v \<Rightarrow> v)"

lemma chain_at_home:
  assumes "hash_inv t"
  shows "map_option bvalue (chain_lookup (ei_dohash key) key (tab t ! home (tab t) key))
    = tab_map t (cstr key)"
    "b \<in> set (tab t ! home (tab t) key) \<Longrightarrow> bucket_ok b \<and> home (tab t) (bkey b) = home (tab t) key"
    "slot (tab t) (ei_dohash key) = Ok (home (tab t) key)"
    "distinct (map bkey (tab t ! home (tab t) key))"
proof -
  have i: "home (tab t) key < length (tab t)" and p: "placed (tab t)"
    using assms by (auto simp: hash_inv_def)
  show "b \<in> set (tab t ! home (tab t) key) \<Longrightarrow> bucket_ok b \<and> home (tab t) (bkey b) = home (tab t) key" for b
    using p i by (auto simp: placed_def)
  then show "map_option bvalue (chain_lookup (ei_dohash key) key (tab t ! home (tab t) key))
    = tab_map t (cstr key)"
    using tab_map_home [OF assms, of "cstr key"] by (simp add: map_of_chain)
  show "slot (tab t) (ei_dohash key) = Ok (home (tab t) key)"
    using assms by (auto simp: hash_inv_def slot_dohash)
  obtain xs ys where "concat (tab t) = xs @ tab t ! home (tab t) key @ ys"
    using concat_split [OF i] by metis
  then show "distinct (map bkey (tab t ! home (tab t) key))"
    using assms by (auto simp: hash_inv_def)
qed

lemma lookup_result:
  assumes "hash_inv t"
  shows "ei_hash_lookup t key = Ok (stored (tab_map t) (cstr key))"
  using chain_at_home(1) [OF assms, of key]
  by (auto simp: ei_hash_lookup_def stored_def Let_def chain_at_home(3) [OF assms] split: option.splits)

lemma new_bucket_owned:
  assumes "owns h (blocks t @ rest)" "new_bucket t key h = (p, t', h')"
  shows "\<exists>fl. t' = t\<lparr>hfreelist := fl\<rparr>"
    "case p of None \<Rightarrow> owns h' (blocks t' @ rest) | Some a \<Rightarrow> owns h' (a # blocks t' @ rest)"
    "grants h' = grants h" "(\<forall>n sz. grants h n sz) \<Longrightarrow> p \<noteq> None"
proof -
  have malloc: "(case q of None \<Rightarrow> owns k as | Some a \<Rightarrow> owns k (a # as)) \<and> grants k = grants h
      \<and> ((\<forall>n sz. grants h n sz) \<longrightarrow> q \<noteq> None)"
    if "malloc sz h = (q, k)" "owns h as" for sz q k as
    using that owns_tick [OF that(2)] owns_new [OF that(2)]
    by (auto simp: malloc_def Let_def split: if_splits)
  show "\<exists>fl. t' = t\<lparr>hfreelist := fl\<rparr>"
    using assms(2)
    by (auto simp: new_bucket_def ei_hash_bmalloc_def split: if_splits list.splits prod.splits
        intro: exI [of _ "hfreelist t'"])
  have "(case p of None \<Rightarrow> owns h' (blocks t' @ rest) | Some a \<Rightarrow> owns h' (a # blocks t' @ rest))
    \<and> grants h' = grants h \<and> ((\<forall>n sz. grants h n sz) \<longrightarrow> p \<noteq> None)"
  proof (cases "strlen key < EI_SMALLKEY \<and> hfreelist t \<noteq> []")
    case True
    then obtain a as where "hfreelist t = a # as" by (cases "hfreelist t") auto
    then show ?thesis using True assms by (auto simp: new_bucket_def ei_hash_bmalloc_def owns_def blocks_def)
  next
    case False
    then obtain sz where "malloc sz h = (p, h')" "t' = t"
      using assms(2)
      by (auto simp: new_bucket_def ei_hash_bmalloc_def split: if_splits list.splits prod.splits)
    then show ?thesis using malloc [OF _ assms(1)] by blast
  qed
  then show "case p of None \<Rightarrow> owns h' (blocks t' @ rest) | Some a \<Rightarrow> owns h' (a # blocks t' @ rest)"
    "grants h' = grants h" "(\<forall>n sz. grants h n sz) \<Longrightarrow> p \<noteq> None" by blast+
qed

lemma blocks_update:
  assumes "i < length (tab t)" "mset (map baddr c @ fl @ xs) = mset (map baddr (tab t ! i) @ hfreelist t @ ys)"
    "tab t' = (tab t)[i := c]" "hfreelist t' = fl" "taddr t' = taddr t"
  shows "mset (xs @ blocks t' @ rest) = mset (ys @ blocks t @ rest)"
proof -
  obtain as bs where "\<And>c. concat ((tab t)[i := c]) = as @ c @ bs" "concat (tab t) = as @ tab t ! i @ bs"
    using concat_split [OF assms(1)] by metis
  then show ?thesis using assms(2-5) by (simp add: blocks_def ac_simps)
qed

lemma map_of_replace:
  assumes "distinct (map bkey (xs @ b # ys))"
  shows "map_of (entries (xs @ b\<lparr>bvalue := v\<rparr> # ys)) = (map_of (entries (xs @ b # ys)))(bkey b \<mapsto> v)"
proof
  fix k
  have "map_of (entries xs) (bkey b) = None" using assms by (auto simp: map_of_entries_None)
  then show "map_of (entries (xs @ b\<lparr>bvalue := v\<rparr> # ys)) k = ((map_of (entries (xs @ b # ys)))(bkey b \<mapsto> v)) k"
    by (auto simp: map_add_def split: option.splits)
qed

lemma map_of_unlink:
  assumes "distinct (map bkey (xs @ b # ys))"
  shows "map_of (entries (xs @ ys)) = (map_of (entries (xs @ b # ys)))(bkey b := None)"
proof
  fix k
  have "map_of (entries xs) (bkey b) = None" "map_of (entries ys) (bkey b) = None"
    using assms by (auto simp: map_of_entries_None)
  then show "map_of (entries (xs @ ys)) k = ((map_of (entries (xs @ b # ys)))(bkey b := None)) k"
    by (auto simp: map_add_def split: option.splits)
qed

text \<open>The effect on the map when only the entry of one key changes at its home position.\<close>

lemma tab_map_change:
  assumes "hash_inv t" "\<And>k. tab_map t' k = (if home (tab t) k = home (tab t) key then map_of (entries c) k else tab_map t k)"
    "map_of (entries c) = (map_of (entries (tab t ! home (tab t) key)))(cstr key := v)"
  shows "tab_map t' = (tab_map t)(cstr key := v)"
proof
  fix k
  show "tab_map t' k = ((tab_map t)(cstr key := v)) k"
    using assms(2) [of k] tab_map_home [OF assms(1), of k]
    by (auto simp: assms(3))
qed

lemma insert_existing:
  assumes "hash_inv t" "tab_map t (cstr key) = Some w"
  obtains t' where "ei_hash_insert t key v h = Ok (w, t', h)" "hash_inv t'"
    "tab_map t' = (tab_map t)(cstr key \<mapsto> v)" "blocks t' = blocks t"
proof -
  let ?i = "home (tab t) key" and ?rh = "ei_dohash key"
  note home = chain_at_home [OF assms(1), where key = key]
  obtain b where b: "chain_lookup ?rh key (tab t ! ?i) = Some b" "bvalue b = w"
    using home(1) assms(2) by auto
  obtain xs ys where c: "tab t ! ?i = xs @ b # ys" "hits ?rh key b"
    "chain_replace ?rh key v (tab t ! ?i) = xs @ b\<lparr>bvalue := v\<rparr> # ys"
    by (rule chain_lookup_split [OF b(1)]) blast
  define t' where "t' = t\<lparr>tab := (tab t)[?i := xs @ b\<lparr>bvalue := v\<rparr> # ys]\<rparr>"
  have i: "?i < length (tab t)" using assms(1) by (simp add: hash_inv_def)
  have b': "bucket_ok (b\<lparr>bvalue := v\<rparr>)" "bkey b = cstr key"
    using home(2) [of b] c(1,2) hits_iff [of b key] by (auto simp: bucket_ok_def)
  note upd = hash_inv_update [OF assms(1) i, of "xs @ b\<lparr>bvalue := v\<rparr> # ys" t']
  have d: "distinct (map bkey (xs @ b # ys))" using home(4) by (simp add: c(1))
  have side: "\<forall>x\<in>set (xs @ b\<lparr>bvalue := v\<rparr> # ys). bucket_ok x \<and> home (tab t) (bkey x) = ?i"
    using home(2) b' c(1) by auto
  have inv: "hash_inv t'" and map: "tab_map t' k = (if home (tab t) k = ?i then map_of (entries (xs @ b\<lparr>bvalue := v\<rparr> # ys)) k else tab_map t k)" for k
    using upd [OF side] d by (auto simp: t'_def c(1))
  have "tab_map t' = (tab_map t)(cstr key := Some v)"
    by (rule tab_map_change [OF assms(1) map]) (use map_of_replace [OF d, of v] c(1) b'(2) in simp)
  moreover have "blocks t' = blocks t"
  proof -
    obtain as bs where "\<And>c. concat ((tab t)[?i := c]) = as @ c @ bs" "concat (tab t) = as @ tab t ! ?i @ bs"
      using concat_split [OF i] by metis
    then show ?thesis by (simp add: blocks_def t'_def c(1))
  qed
  ultimately show thesis
    using that inv b by (simp add: ei_hash_insert_def Let_def chain_at_home(3) [OF assms(1)] c(3) t'_def)
qed

lemma insert_new:
  assumes "hash_inv t" "tab_map t (cstr key) = None" "owns h (blocks t @ rest)"
  obtains t' h' where "ei_hash_insert t key v h = Ok (None, t', h')" "hash_inv t'"
    "owns h' (blocks t' @ rest)" "grants h' = grants h"
    "tab_map t' = (tab_map t)(cstr key \<mapsto> v) \<or> tab_map t' = tab_map t \<and> \<not> (\<forall>n sz. grants h n sz)"
proof -
  let ?i = "home (tab t) key" and ?rh = "ei_dohash key"
  note home = chain_at_home [OF assms(1), where key = key]
  have i: "?i < length (tab t)" using assms(1) by (simp add: hash_inv_def)
  have none: "chain_lookup ?rh key (tab t ! ?i) = None" using home(1) assms(2) by simp
  obtain p t1 h' where nb: "new_bucket t key h = (p, t1, h')" by (cases "new_bucket t key h") auto
  note own = new_bucket_owned [OF assms(3) nb]
  obtain fl where t1: "t1 = t\<lparr>hfreelist := fl\<rparr>" using own(1) by blast
  show thesis
  proof (cases p)
    case None
    moreover have "hash_inv t1" "tab_map t1 = tab_map t"
      using assms(1) by (auto simp: t1 hash_inv_def tab_map_def)
    ultimately show thesis
      using that [of t1 h'] none nb own
      by (auto simp: ei_hash_insert_def Let_def chain_at_home(3) [OF assms(1)])
  next
    case (Some a)
    define b where "b = \<lparr>baddr = a, rawhash = ?rh, bkey = cstr key,
      in_keybuf = (strlen key < EI_SMALLKEY), bvalue = v\<rparr>"
    define t' where "t' = t1\<lparr>npos := (if tab t1 ! ?i = [] then npos t1 + 1 else npos t1),
      nelem := nelem t1 + 1, tab := (tab t1)[?i := b # tab t1 ! ?i]\<rparr>"
    have b: "bucket_ok b" "bkey b = cstr key" by (simp_all add: b_def bucket_ok_def)
    have "cstr key \<notin> bkey ` set (tab t ! ?i)"
      using assms(2) tab_map_home [OF assms(1), of "cstr key"] by (simp add: map_of_entries_None)
    then have d: "distinct (map bkey (b # tab t ! ?i))" using home(4) b(2) by auto
    have side: "\<forall>x\<in>set (b # tab t ! ?i). bucket_ok x \<and> home (tab t) (bkey x) = ?i"
      using home(2) b by auto
    have inv: "hash_inv t'" and map: "tab_map t' k = (if home (tab t) k = ?i then map_of (entries (b # tab t ! ?i)) k else tab_map t k)" for k
      using hash_inv_update [OF assms(1) i side d, of t'] by (auto simp: t'_def t1)
    have m: "tab_map t' = (tab_map t)(cstr key := Some v)"
      by (rule tab_map_change [OF assms(1) map]) (simp add: b_def)
    have "mset ([] @ blocks t' @ rest) = mset ([a] @ blocks t1 @ rest)"
      by (rule blocks_update [of ?i t1 "b # tab t1 ! ?i" "hfreelist t1"])
        (use i in \<open>simp_all add: t1 t'_def b_def\<close>)
    then have "owns h' (blocks t' @ rest)"
      using own(2) Some owns_mset [of h' "a # blocks t1 @ rest" "blocks t' @ rest"] by simp
    then show thesis
      using that [of t' h'] none nb own(3) Some inv m
      by (simp add: ei_hash_insert_def Let_def chain_at_home(3) [OF assms(1)] t'_def b_def)
  qed
qed

section \<open>Removal\<close>

lemma bfree_owned:
  assumes "owns h (baddr b # blocks t @ rest)"
  obtains fl h' where "ei_hash_bfree t b h = Ok (t\<lparr>hfreelist := fl\<rparr>, h')"
    "owns h' (blocks (t\<lparr>hfreelist := fl\<rparr>) @ rest)" "grants h' = grants h"
proof (cases "in_keybuf b")
  case True
  have "owns h (blocks (t\<lparr>hfreelist := baddr b # hfreelist t\<rparr>) @ rest)"
    by (rule owns_mset [OF assms]) (simp add: blocks_def)
  then show thesis using that [of "baddr b # hfreelist t" h] True by (simp add: ei_hash_bfree_def)
next
  case False
  then show thesis
    using that [of "hfreelist t" "h\<lparr>live := live h - {baddr b}\<rparr>"] owns_free [OF assms]
    by (simp add: ei_hash_bfree_def)
qed

text \<open>Both cases of the code in one: the first bucket that matches is unlinked.\<close>

lemma remove_eq:
  assumes "hash_inv t" and i: "i = home (tab t) key"
  shows "ei_hash_remove t key h =
    (case chain_lookup (ei_dohash key) key (tab t ! i) of
       None \<Rightarrow> Ok (None, t, h)
     | Some b \<Rightarrow>
         bindr (ei_hash_bfree (t\<lparr>tab := (tab t)[i := chain_unlink (ei_dohash key) key (tab t ! i)]\<rparr>) b h)
           (\<lambda>(t', h). Ok (bvalue b, t'\<lparr>nelem := nelem t' - 1,
              npos := (if chain_unlink (ei_dohash key) key (tab t ! i) = [] then npos t' - 1 else npos t')\<rparr>, h)))"
proof (cases "tab t ! home (tab t) key")
  case Nil
  then show ?thesis by (simp add: ei_hash_remove_def Let_def chain_at_home(3) [OF assms(1)] i)
next
  case (Cons b bs)
  have e: "ei_hash_bfree (t\<lparr>tab := ts\<rparr>) c h
      = bindr (if in_keybuf c then Ok (baddr c # hfreelist t, h)
               else bindr (free_ptr (Some (baddr c)) h) (\<lambda>h. Ok (hfreelist t, h)))
          (\<lambda>(fl, h). Ok (t\<lparr>tab := ts, hfreelist := fl\<rparr>, h))" for c ts
    by (simp add: ei_hash_bfree_def bindr_assoc)
  show ?thesis
    using assms(1)
    by (simp add: ei_hash_remove_def Let_def chain_at_home(3) [OF assms(1)] i Cons e bindr_assoc
        hash_inv_def case_prod_unfold split: option.splits)
qed

lemma remove_result:
  assumes "hash_inv t" "owns h (blocks t @ rest)"
  obtains t' h' where "ei_hash_remove t key h = Ok (stored (tab_map t) (cstr key), t', h')"
    "hash_inv t'" "owns h' (blocks t' @ rest)" "grants h' = grants h"
    "tab_map t' = (tab_map t)(cstr key := None)"
proof -
  let ?i = "home (tab t) key" and ?rh = "ei_dohash key"
  note home = chain_at_home [OF assms(1), where key = key]
  have i: "?i < length (tab t)" using assms(1) by (simp add: hash_inv_def)
  note eq = remove_eq [OF assms(1) refl, of key]
  show thesis
  proof (cases "chain_lookup ?rh key (tab t ! ?i)")
    case None
    then have "tab_map t (cstr key) = None" using home(1) by simp
    then show thesis using that [of t h] None assms eq [of h] by (simp add: stored_def fun_upd_idem)
  next
    case (Some b)
    obtain xs ys where c: "tab t ! ?i = xs @ b # ys" "hits ?rh key b"
      "chain_unlink ?rh key (tab t ! ?i) = xs @ ys"
      by (rule chain_lookup_split [OF Some]) blast
    have b: "bkey b = cstr key" "stored (tab_map t) (cstr key) = bvalue b"
      using home(1) home(2) [of b] c(1,2) hits_iff [of b key] Some
      by (auto simp: stored_def split: option.splits)
    define t1 where "t1 = t\<lparr>tab := (tab t)[?i := xs @ ys]\<rparr>"
    have "mset ([baddr b] @ blocks t1 @ rest) = mset ([] @ blocks t @ rest)"
      by (rule blocks_update [of ?i t "xs @ ys" "hfreelist t1"]) (use i in \<open>simp_all add: t1_def c(1)\<close>)
    then have "owns h (baddr b # blocks t1 @ rest)" using owns_mset [OF assms(2)] by simp
    then obtain fl h' where f: "ei_hash_bfree t1 b h = Ok (t1\<lparr>hfreelist := fl\<rparr>, h')"
      "owns h' (blocks (t1\<lparr>hfreelist := fl\<rparr>) @ rest)" "grants h' = grants h"
      by (rule bfree_owned)
    define t' where "t' = t1\<lparr>hfreelist := fl, nelem := nelem t - 1,
      npos := (if xs @ ys = [] then npos t - 1 else npos t)\<rparr>"
    have d: "distinct (map bkey (xs @ b # ys))" using home(4) by (simp add: c(1))
    then have d': "distinct (map bkey (xs @ ys))" by auto
    have side: "\<forall>x\<in>set (xs @ ys). bucket_ok x \<and> home (tab t) (bkey x) = ?i"
      using home(2) c(1) by auto
    have inv: "hash_inv t'" and map: "tab_map t' k = (if home (tab t) k = ?i then map_of (entries (xs @ ys)) k else tab_map t k)" for k
      using hash_inv_update [OF assms(1) i side d', of t'] by (auto simp: t'_def t1_def c(1))
    have "tab_map t' = (tab_map t)(cstr key := None)"
      by (rule tab_map_change [OF assms(1) map]) (use map_of_unlink [OF d] c(1) b(1) in simp)
    moreover have "blocks t' = blocks (t1\<lparr>hfreelist := fl\<rparr>)" by (simp add: blocks_def t'_def)
    ultimately show thesis
      using that [of t' h'] Some inv eq [of h] c(3) f b(2) by (simp add: t'_def t1_def)
  qed
qed

section \<open>New tables and resizing\<close>

lemma placed_empty: "placed (replicate n [])" "occupied (replicate n []) = 0" "concat (replicate n []) = []"
  by (auto simp: placed_def occupied_def)

lemma newtab_result:
  assumes "0 < n" "n \<le> 1048583" "owns h rest"
  obtains h' where "ei_hash_newtab n h = Some (Ok (None, h'))" "owns h' rest" "grants h' = grants h"
      "\<not> (\<forall>n sz. grants h n sz)"
    | t h' where "ei_hash_newtab n h = Some (Ok (Some t, h'))" "owns h' (blocks t @ rest)"
      "grants h' = grants h" "hash_inv t" "tab_map t = Map.empty" "concat (tab t) = []" "hfreelist t = []"
      "next_prime (n OR 1) (int (length (tab t)))"
proof -
  obtain q where q: "table_size n = Some (Ok q)" "next_prime (n OR 1) q"
    using table_size_result [OF assms(1,2)] by auto
  have "0 < q" using table_size_pos [OF q(1) assms(1,2)] .
  obtain p h' where m: "malloc (ei_align sizeof_hash + q * 8) h = (p, h')"
    by (cases "malloc (ei_align sizeof_hash + q * 8) h") auto
  show thesis
  proof (cases p)
    case None
    then have "h' = h\<lparr>brk := Suc (brk h)\<rparr>" "\<not> grants h (brk h) (ei_align sizeof_hash + q * 8)"
      using m by (auto simp: malloc_def Let_def split: if_splits)
    then show thesis
      using that(1) [of h'] q(1) m None owns_tick [OF assms(3)] by (auto simp: ei_hash_newtab_def)
  next
    case (Some a)
    then have h': "a = brk h" "h' = h\<lparr>brk := Suc (brk h), live := insert (brk h) (live h)\<rparr>"
      using m by (auto simp: malloc_def Let_def split: if_splits)
    let ?t = "\<lparr>taddr = a, tab = replicate (nat q) [], nelem = 0, npos = 0, hfreelist = []\<rparr>"
    have "ei_hash_newtab n h = Some (Ok (Some ?t, h'))"
      using q(1) m Some \<open>0 < q\<close> by (simp add: ei_hash_newtab_def)
    moreover have "owns h' (blocks ?t @ rest)"
      using owns_new [OF assms(3)] by (simp add: blocks_def placed_empty h')
    moreover have "hash_inv ?t" "tab_map ?t = Map.empty"
      using \<open>0 < q\<close> by (simp_all add: hash_inv_def tab_map_def placed_empty)
    ultimately show thesis using that(2) [of ?t h'] q(2) \<open>0 < q\<close> by (simp add: placed_empty h')
  qed
qed

lemma move_chain_result:
  assumes "tab t \<noteq> []" "placed (tab t)" "npos t = occupied (tab t)" "\<forall>b\<in>set bs. bucket_ok b"
  obtains t' where "move_chain bs t = Ok t'" "length (tab t') = length (tab t)" "placed (tab t')"
    "npos t' = occupied (tab t')" "mset (concat (tab t')) = mset bs + mset (concat (tab t))"
    "taddr t' = taddr t"
  using assms
proof (induction bs arbitrary: t thesis)
  case Nil
  then show ?case by simp
next
  case (Cons b bs)
  let ?i = "home (tab t) (bkey b)"
  let ?t = "t\<lparr>npos := (if tab t ! ?i = [] then npos t + 1 else npos t), tab := (tab t)[?i := b # tab t ! ?i]\<rparr>"
  have b: "bucket_ok b" "rawhash b = ei_dohash (bkey b)"
    using Cons.prems(5) by (auto simp: bucket_ok_def)
  have i: "?i < length (tab t)" using Cons.prems(2) by simp
  have "\<forall>x\<in>set (b # tab t ! ?i). bucket_ok x \<and> home (tab t) (bkey x) = ?i"
    using Cons.prems(3) i b(1) unfolding placed_def by simp
  from placed_update [OF Cons.prems(3) i this] have pl: "placed (tab ?t)" by simp
  have np: "npos ?t = occupied (tab ?t)"
    using occupied_update [OF i, of "b # tab t ! ?i"] Cons.prems(4) by simp
  have ne: "tab ?t \<noteq> []" "\<forall>b\<in>set bs. bucket_ok b" using Cons.prems(2,5) by simp_all
  obtain t' where t': "move_chain bs ?t = Ok t'" "length (tab t') = length (tab ?t)"
    "placed (tab t')" "npos t' = occupied (tab t')"
    "mset (concat (tab t')) = mset bs + mset (concat (tab ?t))" "taddr t' = taddr ?t"
    by (rule Cons.IH [OF _ ne(1) pl np ne(2)])
  obtain xs ys where "\<And>c. concat ((tab t)[?i := c]) = xs @ c @ ys" "concat (tab t) = xs @ tab t ! ?i @ ys"
    using concat_split [OF i] by metis
  then show ?case
    using Cons.prems(1) [of t'] Cons.prems(2) t' b(2) by (simp add: slot_dohash)
qed

lemma move_chains_result:
  assumes "tab t \<noteq> []" "placed (tab t)" "npos t = occupied (tab t)" "\<forall>c\<in>set cs. \<forall>b\<in>set c. bucket_ok b"
  obtains t' where "move_chains cs t = Ok t'" "length (tab t') = length (tab t)" "placed (tab t')"
    "npos t' = occupied (tab t')" "mset (concat (tab t')) = mset (concat cs) + mset (concat (tab t))"
    "taddr t' = taddr t"
  using assms
proof (induction cs arbitrary: t thesis)
  case (Cons c cs)
  obtain t1 where t1: "move_chain c t = Ok t1" "length (tab t1) = length (tab t)" "placed (tab t1)"
    "npos t1 = occupied (tab t1)" "mset (concat (tab t1)) = mset c + mset (concat (tab t))"
    "taddr t1 = taddr t"
    using move_chain_result [OF Cons.prems(2-4), of c] Cons.prems(5) by auto
  then have ne: "tab t1 \<noteq> []" "\<forall>c\<in>set cs. \<forall>b\<in>set c. bucket_ok b" using Cons.prems(2,5) by auto
  obtain t' where t': "move_chains cs t1 = Ok t'" "length (tab t') = length (tab t1)" "placed (tab t')"
    "npos t' = occupied (tab t')" "mset (concat (tab t')) = mset (concat cs) + mset (concat (tab t1))"
    "taddr t' = taddr t1"
    by (rule Cons.IH [OF _ ne(1) t1(3,4) ne(2)])
  then show ?case using Cons.prems(1) [of t'] t1 by simp
qed simp

lemma resize_result:
  assumes "hash_inv t" "owns h (blocks t @ rest)" "0 < n" "n \<le> 1048583"
  obtains t' h' where "ei_hash_resize t n h = Some (Ok (t', h'))" "hash_inv t'"
    "owns h' (blocks t' @ rest)" "grants h' = grants h" "tab_map t' = tab_map t"
    "next_prime (n OR 1) (int (length (tab t'))) \<or> t' = t \<and> \<not> (\<forall>n sz. grants h n sz)"
proof -
  obtain q where q: "table_size n = Some (Ok q)" "next_prime (n OR 1) q" "q \<le> 1048583"
    using table_size_result [OF assms(3,4)] by auto
  have pos: "0 < q" using table_size_pos [OF q(1) assms(3,4)] .
  have odd: "q OR 1 = q" using q(2) by (auto simp: next_prime_def or_one_eq)
  show thesis
  proof (cases "q = int (length (tab t))")
    case True
    then show thesis using that [of t h] q assms by (simp add: ei_hash_resize_def)
  next
    case False
    from pos q(3) assms(2) show thesis
    proof (cases rule: newtab_result)
      case (1 h')
      then show thesis using that [of t h'] q(1) False assms(1) by (simp add: ei_hash_resize_def)
    next
      case (2 nt h')
      have "q = 1 \<or> prime_int q" using q(2) by (simp add: next_prime_def)
      then have len: "int (length (tab nt)) = q" using 2(8) odd next_prime_fixed [of q] by simp
      have ok: "\<forall>c\<in>set (tab t). \<forall>b\<in>set c. bucket_ok b"
        using assms(1) by (auto simp: hash_inv_def intro: placed_ok)
      have "tab nt \<noteq> []" "placed (tab nt)" "npos nt = occupied (tab nt)"
        using 2(4) by (auto simp: hash_inv_def)
      then obtain t1 where t1: "move_chains (tab t) nt = Ok t1" "length (tab t1) = length (tab nt)"
        "placed (tab t1)" "npos t1 = occupied (tab t1)" "mset (concat (tab t1)) = mset (concat (tab t))"
        "taddr t1 = taddr nt"
        using move_chains_result [OF _ _ _ ok] 2(6) by (metis add.right_neutral mset.simps(1))
      define t' where "t' = t1\<lparr>nelem := nelem t, hfreelist := hfreelist t\<rparr>"
      have "mset (blocks nt @ blocks t @ rest) = mset (taddr t # blocks t' @ rest)"
        using t1(5,6) 2(6,7) by (simp add: blocks_def t'_def mset_map)
      then have "owns h' (taddr t # blocks t' @ rest)" using owns_mset [OF 2(2)] by blast
      note own = owns_free [OF this]
      have "mset (map bkey (concat (tab t'))) = mset (map bkey (concat (tab t)))"
        using t1(5) by (simp add: mset_map t'_def del: mset_concat)
      then have "distinct (map bkey (concat (tab t'))) = distinct (map bkey (concat (tab t)))"
        by (rule mset_eq_imp_distinct_iff)
      then have inv: "hash_inv t'"
        using t1 assms(1) mset_eq_length [OF t1(5)] pos len by (auto simp: hash_inv_def t'_def)
      have "tab_map t' = tab_map t"
        using inv assms(1) mset_eq_setD [OF t1(5)]
        by (simp add: tab_map_def hash_inv_def t'_def map_of_inject_set)
      then show thesis
        using that [of t' "h'\<lparr>live := live h' - {taddr t}\<rparr>"] q False 2(1,3) t1(1,2) own inv len
        by (simp add: ei_hash_resize_def t'_def)
    qed
  qed
qed

section \<open>The table as a machine\<close>

datatype table_call = Lookup "byte list" | Insert "byte list" ptr | Remove "byte list" | Resize int

fun table_step :: "table_call \<Rightarrow> ei_hash \<times> heap \<Rightarrow> (unit, ptr \<times> ei_hash \<times> heap) res option" where
  "table_step (Lookup key) (t, h) = Some (bindr (ei_hash_lookup t key) (\<lambda>p. Ok (p, t, h)))"
| "table_step (Insert key v) (t, h) = Some (ei_hash_insert t key v h)"
| "table_step (Remove key) (t, h) = Some (ei_hash_remove t key h)"
| "table_step (Resize n) (t, h) = bindf (ei_hash_resize t n h) (\<lambda>(t, h). Some (Ok (None, t, h)))"

fun table_pre :: "table_call \<Rightarrow> ei_hash \<times> heap \<Rightarrow> bool" where
  "table_pre (Resize n) s \<longleftrightarrow> 0 < n \<and> n \<le> 1048583"
| "table_pre _ s \<longleftrightarrow> True"

text \<open>The specification: a finite map. Only an insertion of a new key can be lost, and only when
  the allocator is not reliable.\<close>

fun map_effect :: "bool \<Rightarrow> table_call \<Rightarrow> (byte list \<Rightarrow> ptr option) \<Rightarrow> ptr \<Rightarrow> (byte list \<Rightarrow> ptr option) \<Rightarrow> bool" where
  "map_effect reliable (Lookup key) m r m' \<longleftrightarrow> r = stored m (cstr key) \<and> m' = m"
| "map_effect reliable (Insert key v) m r m' \<longleftrightarrow> r = stored m (cstr key)
     \<and> (m' = m(cstr key \<mapsto> v) \<or> \<not> reliable \<and> m (cstr key) = None \<and> m' = m)"
| "map_effect reliable (Remove key) m r m' \<longleftrightarrow> r = stored m (cstr key) \<and> m' = m(cstr key := None)"
| "map_effect reliable (Resize n) m r m' \<longleftrightarrow> r = None \<and> m' = m"

text \<open>A table beside the other blocks \<open>rest\<close> of its user.\<close>

definition table_inv :: "bool \<Rightarrow> addr list \<Rightarrow> ei_hash \<times> heap \<Rightarrow> bool" where
  "table_inv reliable rest s \<longleftrightarrow> hash_inv (fst s) \<and> owns (snd s) (blocks (fst s) @ rest)
     \<and> (reliable \<longrightarrow> (\<forall>n sz. grants (snd s) n sz))"

lemma table_inv_insert:
  assumes "table_inv reliable rest (t, h)"
  shows "\<exists>r t' h'. ei_hash_insert t key v h = Ok (r, t', h') \<and> table_inv reliable rest (t', h')
    \<and> map_effect reliable (Insert key v) (tab_map t) r (tab_map t')"
proof -
  have a: "hash_inv t" "owns h (blocks t @ rest)" "reliable \<longrightarrow> (\<forall>n sz. grants h n sz)"
    using assms by (auto simp: table_inv_def)
  show ?thesis
  proof (cases "tab_map t (cstr key)")
    case None
    from a(1) None a(2) obtain t' h' where
      "ei_hash_insert t key v h = Ok (None, t', h')" "hash_inv t'" "owns h' (blocks t' @ rest)"
      "grants h' = grants h"
      "tab_map t' = (tab_map t)(cstr key \<mapsto> v) \<or> tab_map t' = tab_map t \<and> \<not> (\<forall>n sz. grants h n sz)"
      by (rule insert_new)
    then show ?thesis using a(3) None by (auto simp: table_inv_def stored_def)
  next
    case (Some w)
    obtain t' where "ei_hash_insert t key v h = Ok (w, t', h)" "hash_inv t'"
      "tab_map t' = (tab_map t)(cstr key \<mapsto> v)" "blocks t' = blocks t"
      using insert_existing [OF a(1) Some] by metis
    then show ?thesis using a Some by (auto simp: table_inv_def stored_def)
  qed
qed

lemma table_inv_remove:
  assumes "table_inv reliable rest (t, h)"
  shows "\<exists>r t' h'. ei_hash_remove t key h = Ok (r, t', h') \<and> table_inv reliable rest (t', h')
    \<and> map_effect reliable (Remove key) (tab_map t) r (tab_map t')"
proof -
  have a: "hash_inv t" "owns h (blocks t @ rest)" "reliable \<longrightarrow> (\<forall>n sz. grants h n sz)"
    using assms by (auto simp: table_inv_def)
  from a(1,2) obtain t' h' where "ei_hash_remove t key h = Ok (stored (tab_map t) (cstr key), t', h')"
    "hash_inv t'" "owns h' (blocks t' @ rest)" "grants h' = grants h"
    "tab_map t' = (tab_map t)(cstr key := None)"
    by (rule remove_result)
  then show ?thesis using a(3) by (auto simp: table_inv_def)
qed

lemma table_inv_resize:
  assumes "table_inv reliable rest (t, h)" "0 < n" "n \<le> 1048583"
  shows "\<exists>t' h'. ei_hash_resize t n h = Some (Ok (t', h')) \<and> table_inv reliable rest (t', h')
    \<and> tab_map t' = tab_map t"
proof -
  have a: "hash_inv t" "owns h (blocks t @ rest)" "reliable \<longrightarrow> (\<forall>n sz. grants h n sz)"
    using assms by (auto simp: table_inv_def)
  from a(1,2) assms(2,3) obtain t' h' where "ei_hash_resize t n h = Some (Ok (t', h'))" "hash_inv t'"
    "owns h' (blocks t' @ rest)" "grants h' = grants h" "tab_map t' = tab_map t"
    by (rule resize_result)
  then show ?thesis using a(3) by (auto simp: table_inv_def)
qed

lemma table_step_law:
  assumes "table_inv reliable rest s" "table_pre op s"
  shows "\<exists>r s'. table_step op s = Some (Ok (r, s')) \<and> table_inv reliable rest s'
    \<and> map_effect reliable op (tab_map (fst s)) r (tab_map (fst s'))"
proof (cases s)
  case (Pair t h)
  note inv = assms(1) [unfolded Pair]
  show ?thesis
  proof (cases op)
    case (Lookup key)
    then show ?thesis using inv Pair by (auto simp: table_inv_def lookup_result)
  next
    case (Insert key v)
    then show ?thesis using table_inv_insert [OF inv, of key v] Pair by fastforce
  next
    case (Remove key)
    then show ?thesis using table_inv_remove [OF inv, of key] Pair by fastforce
  next
    case (Resize n)
    then show ?thesis using table_inv_resize [OF inv, of n] assms(2) Pair by auto
  qed
qed

interpretation table: component "table_inv reliable rest" "\<lambda>s. tab_map (fst s)" table_step table_pre
  "map_effect reliable" for reliable rest
  by unfold_locales (rule table_step_law)

section \<open>Traversal and release\<close>

lemma chain_rlookup_eq: "chain_rlookup v bs = map_option fst (find (\<lambda>(k, w). w = v) (entries bs))"
  by (induction bs) auto

lemma tab_rlookup_concat: "tab_rlookup v ts = chain_rlookup v (concat ts)"
proof (induction ts)
  case (Cons c cs)
  have "chain_rlookup v (xs @ ys) = (case chain_rlookup v xs of Some k \<Rightarrow> Some k | None \<Rightarrow> chain_rlookup v ys)" for xs ys
    by (induction xs) auto
  then show ?case using Cons by (simp split: option.splits)
qed simp

text \<open>Reverse lookup returns a key under which the value is stored, if there is one.\<close>

lemma rlookup_result:
  assumes "hash_inv t"
  shows "case ei_hash_rlookup t v of Some k \<Rightarrow> tab_map t k = Some v | None \<Rightarrow> v \<notin> ran (tab_map t)"
proof -
  let ?es = "entries (concat (tab t))"
  have d: "distinct (map fst ?es)" using assms by (simp add: hash_inv_def)
  show ?thesis
  proof (cases "ei_hash_rlookup t v")
    case None
    then have "find (\<lambda>(k, w). w = v) ?es = None" by (simp add: ei_hash_rlookup_def tab_rlookup_concat chain_rlookup_eq)
    then have "v \<notin> snd ` set ?es" by (fastforce simp: find_None_iff)
    then show ?thesis using d None by (simp add: tab_map_def ran_distinct)
  next
    case (Some k)
    then obtain w where "find (\<lambda>(k, w). w = v) ?es = Some (k, w)"
      by (auto simp: ei_hash_rlookup_def tab_rlookup_concat chain_rlookup_eq)
    then obtain i where "i < length ?es" "?es ! i = (k, v)" by (auto simp: find_Some_iff)
    then have "(k, v) \<in> set ?es" by (metis nth_mem)
    then show ?thesis using d Some by (simp add: tab_map_def)
  qed
qed

lemma foreach_concat: "tab_foreach f ts s = chain_foreach f (concat ts) s"
proof (induction ts arbitrary: s)
  case (Cons c cs)
  have "chain_foreach f (xs @ ys) s = (let (r, s) = chain_foreach f xs s in if r \<noteq> 0 then (r, s) else chain_foreach f ys s)" for xs ys s
    by (induction xs arbitrary: s) (auto simp: Let_def split: prod.splits)
  then show ?case using Cons by (simp split: prod.splits)
qed simp

text \<open>When the callback always returns 0, it is called once for every stored pair.\<close>

lemma foreach_all:
  assumes "\<And>k v s. fst (f k v s) = 0"
  shows "ei_hash_foreach t (Some f) s = (0, fold (\<lambda>(k, v) s. snd (f k v s)) (entries (concat (tab t))) s)"
proof -
  have "chain_foreach f bs s = (0, fold (\<lambda>(k, v) s. snd (f k v s)) (entries bs) s)" for bs
    using assms by (induction bs arbitrary: s) (auto simp: Let_def split: prod.splits, metis fst_conv)
  then show ?thesis by (simp add: ei_hash_foreach_def foreach_concat)
qed

text \<open>Releasing a table whose values \<open>v\<close> are released by freeing the blocks \<open>rel v\<close>.\<close>

lemma free_all_append: "free_all (as @ bs) h = bindr (free_all as h) (free_all bs)"
  by (induction as arbitrary: h) (auto simp: bindr_assoc)

lemma chain_free_eq:
  "chain_free (Some (\<lambda>v. free_all (rel v))) bs h = free_all (concat (map (\<lambda>b. rel (bvalue b) @ [baddr b]) bs)) h"
  by (induction bs arbitrary: h) (auto simp: free_all_append bindr_assoc intro!: bindr_cong)

lemma chains_free_eq:
  "chains_free (Some (\<lambda>v. free_all (rel v))) cs h = free_all (concat (map (\<lambda>b. rel (bvalue b) @ [baddr b]) (concat cs))) h"
  by (induction cs arbitrary: h) (auto simp: chain_free_eq free_all_append intro!: bindr_cong)

lemma chains_free_cong:
  assumes "\<And>b h. b \<in> set (concat cs) \<Longrightarrow> f (bvalue b) h = g (bvalue b) h"
  shows "chains_free (Some f) cs h = chains_free (Some g) cs h"
proof -
  have chain: "chain_free (Some f) bs h = chain_free (Some g) bs h"
    if "\<And>b h. b \<in> set bs \<Longrightarrow> f (bvalue b) h = g (bvalue b) h" for bs h
    using that by (induction bs arbitrary: h) (auto intro!: bindr_cong)
  show ?thesis using assms by (induction cs arbitrary: h) (auto intro!: bindr_cong chain)
qed

lemma freetab_result:
  assumes "\<And>b h. b \<in> set (concat (tab t)) \<Longrightarrow> f (bvalue b) h = free_all (rel (bvalue b)) h"
    and own: "owns h (blocks t @ concat (map (\<lambda>b. rel (bvalue b)) (concat (tab t))) @ rest)"
  shows "ei_hash_freetab t (Some f) h = Ok (0, h\<lparr>live := live h - (set (blocks t) \<union> (\<Union>b\<in>set (concat (tab t)). set (rel (bvalue b))))\<rparr>)"
    "owns (h\<lparr>live := live h - (set (blocks t) \<union> (\<Union>b\<in>set (concat (tab t)). set (rel (bvalue b))))\<rparr>) rest"
proof -
  let ?as = "concat (map (\<lambda>b. rel (bvalue b) @ [baddr b]) (concat (tab t))) @ hfreelist t @ [taddr t]"
  have "mset (concat (map (\<lambda>b. rel (bvalue b) @ [baddr b]) bs))
      = mset (concat (map (\<lambda>b. rel (bvalue b)) bs)) + mset (map baddr bs)" for bs
    by (induction bs) auto
  from this [of "concat (tab t)"] have "mset (blocks t @ concat (map (\<lambda>b. rel (bvalue b)) (concat (tab t))) @ rest) = mset (?as @ rest)"
    by (simp add: blocks_def add.commute del: mset_concat)
  then have "owns h (?as @ rest)" using owns_mset [OF own] by blast
  note own = free_all_owned [OF this]
  have f: "chains_free (Some f) (tab t) h = chains_free (Some (\<lambda>v. free_all (rel v))) (tab t) h"
    by (rule chains_free_cong) (rule assms(1))
  have set: "set ?as = set (blocks t) \<union> (\<Union>b\<in>set (concat (tab t)). set (rel (bvalue b)))"
    by (auto simp: blocks_def)
  have "ei_hash_freetab t (Some f) h = bindr (free_all ?as h) (\<lambda>h. Ok (0, h))"
    by (simp add: ei_hash_freetab_def f chains_free_eq free_all_append bindr_assoc)
  then show "ei_hash_freetab t (Some f) h = Ok (0, h\<lparr>live := live h - (set (blocks t) \<union> (\<Union>b\<in>set (concat (tab t)). set (rel (bvalue b))))\<rparr>)"
    "owns (h\<lparr>live := live h - (set (blocks t) \<union> (\<Union>b\<in>set (concat (tab t)). set (rel (bvalue b))))\<rparr>) rest"
    using own unfolding set by simp_all
qed

end
