(* ===== verification/Ei_RegInv.thy ===== *)
theory Ei_RegInv
  imports Ei_Reg Ei_HashMap
begin

text \<open>
  The invariant of a registry, the map from keys to objects it stands for and the blocks it owns,
  and the effect of every operation on them.
\<close>

section \<open>Ownership as a multiset\<close>

definition ownm :: "heap \<Rightarrow> addr multiset \<Rightarrow> bool" where
  "ownm h M \<longleftrightarrow> (\<exists>as. mset as = M \<and> owns h as)"

lemma ownm_mset [simp]: "ownm h (mset as) \<longleftrightarrow> owns h as"
  by (auto simp: ownm_def intro: owns_mset)

lemma ownm_owns: "ownm h (mset as + M) \<Longrightarrow> mset bs = M \<Longrightarrow> owns h (as @ bs)"
  using ownm_mset [of h "as @ bs"] by simp

lemma ownmE:
  assumes "ownm h M"
  obtains as where "mset as = M" "owns h as"
  using assms by (auto simp: ownm_def)

lemma ownm_free:
  assumes "ownm h (add_mset a M)"
  shows "a \<in> live h" "ownm (h\<lparr>live := live h - {a}\<rparr>) M" "a \<notin># M"
proof -
  obtain as where as: "mset as = M" by (metis ex_mset)
  then have "ownm h (mset (a # as))" using assms by simp
  then have "owns h (a # as)" by (simp only: ownm_mset)
  then have "a \<in> live h" "owns (h\<lparr>live := live h - {a}\<rparr>) as" "a \<notin> set as"
    using owns_free [of h a as] by (auto simp: owns_def)
  then show "a \<in> live h" "ownm (h\<lparr>live := live h - {a}\<rparr>) M" "a \<notin># M"
    unfolding as [symmetric] by simp_all
qed

lemma ownm_add:
  assumes "ownm h M" "a \<in> live h" "a \<notin># M"
  shows "ownm h (add_mset a M)"
proof -
  obtain as where "mset as = M" "owns h as" by (rule ownmE [OF assms(1)])
  then have "owns h (a # as)" using assms(2,3) by (auto simp: owns_def)
  then have "ownm h (mset (a # as))" by (simp only: ownm_mset)
  then show ?thesis using \<open>mset as = M\<close> by simp
qed

lemma ownm_mono: "ownm h (M + N) \<Longrightarrow> ownm h N"
proof (induction M)
  case (add a M)
  then have "ownm h (add_mset a (M + N))" by simp
  then obtain as where "mset as = add_mset a (M + N)" "owns h as" by (rule ownmE)
  then obtain bs where "mset bs = M + N" by (metis ex_mset)
  then have "owns h (a # bs)" using \<open>owns h as\<close> \<open>mset as = _\<close> owns_mset [of h as "a # bs"] by simp
  then have "ownm h (M + N)" using owns_ConsD [of h a bs] \<open>mset bs = M + N\<close> ownm_mset by metis
  then show ?case by (rule add.IH)
qed simp

lemma ownm_malloc:
  assumes "ownm h M" "malloc n h = (p, h')"
  shows "case p of None \<Rightarrow> ownm h' M | Some a \<Rightarrow> ownm h' (add_mset a M)"
    "grants h' = grants h" "(\<forall>n sz. grants h n sz) \<Longrightarrow> p \<noteq> None" "live h \<subseteq> live h'"
    "p = Some a \<Longrightarrow> a \<notin> live h"
proof -
  obtain as where as: "mset as = M" "owns h as" by (rule ownmE [OF assms(1)])
  have n: "brk h \<notin> live h" using as(2) by (auto simp: owns_def heap_ok_def)
  show "case p of None \<Rightarrow> ownm h' M | Some a \<Rightarrow> ownm h' (add_mset a M)"
    using assms(2)
  proof (cases rule: malloc_cases)
    case fails
    then show ?thesis using owns_tick [OF as(2)] unfolding as(1) [symmetric] by simp
  next
    case new
    then have "ownm h' (mset (brk h # as))" using owns_new [OF as(2)] by (simp only: ownm_mset)
    then show ?thesis using new(1) as(1) by simp
  qed
  show "grants h' = grants h" "(\<forall>n sz. grants h n sz) \<Longrightarrow> p \<noteq> None" "live h \<subseteq> live h'"
    "p = Some a \<Longrightarrow> a \<notin> live h"
    using assms(2) n by (auto simp: malloc_def Let_def split: if_splits)
qed

section \<open>The invariant\<close>

definition payload :: "ei_reg_obj \<Rightarrow> addr multiset" where
  "payload obj =
     (case val obj of Val_s (Some s) \<Rightarrow> {#s#} | Val_p (Some p) \<Rightarrow> {#p#} | _ \<Rightarrow> {#})"

text \<open>The type in the attributes is that of the member stored in the union.\<close>

definition obj_ok :: "ei_reg_obj \<Rightarrow> bool" where
  "obj_ok obj \<longleftrightarrow>
     (case val obj of
        Val_i _ \<Rightarrow> ei_reg_typeof obj = EI_INT
      | Val_f _ \<Rightarrow> ei_reg_typeof obj = EI_FLT
      | Val_s s \<Rightarrow> ei_reg_typeof obj = EI_STR \<and> (0 < osize obj \<longleftrightarrow> s \<noteq> None)
      | Val_p p \<Rightarrow> ei_reg_typeof obj = EI_BIN \<and> 0 \<le> osize obj)"

definition objm :: "(addr \<Rightarrow> ei_reg_obj) \<Rightarrow> ptr \<Rightarrow> addr multiset" where
  "objm store p = (case p of None \<Rightarrow> {#} | Some a \<Rightarrow> add_mset a (payload (store a)))"

definition objsm :: "(addr \<Rightarrow> ei_reg_obj) \<Rightarrow> (byte list \<Rightarrow> ptr option) \<Rightarrow> addr multiset" where
  "objsm store m = (\<Sum>k\<in>dom m. objm store (the (m k)))"

definition objs_ok :: "(addr \<Rightarrow> ei_reg_obj) \<Rightarrow> (byte list \<Rightarrow> ptr option) \<Rightarrow> bool" where
  "objs_ok store m \<longleftrightarrow> (\<forall>k v. m k = Some v \<longrightarrow> (\<exists>a. v = Some a \<and> obj_ok (store a)))"

definition own :: "ei_reg \<Rightarrow> addr multiset" where
  "own r = add_mset (raddr r) (mset (rfreelist r) + mset (blocks (rtab r)) + objsm (objs r) (tab_map (rtab r)))"

definition reg_inv :: "addr multiset \<Rightarrow> ei_reg \<Rightarrow> bool" where
  "reg_inv rest r \<longleftrightarrow> hash_inv (rtab r) \<and> ownm (mem r) (own r + rest)
     \<and> objs_ok (objs r) (tab_map (rtab r))"

definition reg_view :: "ei_reg \<Rightarrow> byte list \<Rightarrow> ei_reg_obj option" where
  "reg_view r k = (case tab_map (rtab r) k of Some (Some a) \<Rightarrow> Some (objs r a) | _ \<Rightarrow> None)"

lemma reg_view_mem [simp]: "reg_view (r\<lparr>mem := h\<rparr>) = reg_view r"
  by (rule ext) (simp add: reg_view_def split: option.splits)

lemma finite_dom_tab_map [simp]: "finite (dom (tab_map t))"
  by (simp add: tab_map_def finite_dom_map_of)

lemma objsm_split:
  assumes "finite (dom m)" "m k = Some v"
  shows "objsm store m = objm store v + objsm store (m(k := None))"
proof -
  have "objsm store m = objm store (the (m k)) + (\<Sum>k\<in>dom m - {k}. objm store (the (m k)))"
    unfolding objsm_def using assms by (intro sum.remove) auto
  moreover have "(\<Sum>j\<in>dom m - {k}. objm store (the (m j))) = objsm store (m(k := None))"
    unfolding objsm_def by (intro sum.cong) auto
  ultimately show ?thesis using assms(2) by simp
qed

lemma objsm_upd:
  assumes "finite (dom m)"
  shows "objsm store (m(k \<mapsto> v)) = objm store v + objsm store (m(k := None))"
  using objsm_split [of "m(k \<mapsto> v)" k v store] assms by (simp add: fun_upd_idem)

lemma in_objsm:
  assumes "finite (dom m)" "m k = Some (Some a)"
  shows "a \<in># objsm store m"
  using objsm_split [OF assms, of store] by (simp add: objm_def)

text \<open>A change of an object that no key of the map leads to.\<close>

lemma unreached:
  assumes "finite (dom m)" "a \<notin># objsm store m" "\<And>b. b \<noteq> a \<Longrightarrow> store' b = store b"
  shows "m k = Some (Some b) \<Longrightarrow> store' b = store b" "objsm store' m = objsm store m"
    "objs_ok store' m = objs_ok store m"
proof -
  show eq: "store' b = store b" if "m k = Some (Some b)" for k b
    using in_objsm [OF assms(1), of k b store] that assms(2,3) by metis
  show "objsm store' m = objsm store m"
    unfolding objsm_def
  proof (intro sum.cong refl)
    fix k
    assume "k \<in> dom m"
    then show "objm store' (the (m k)) = objm store (the (m k))"
      using eq [of k] by (auto simp: objm_def split: option.splits)
  qed
  show "objs_ok store' m = objs_ok store m" unfolding objs_ok_def using eq by metis
qed

section \<open>Setting values\<close>

lemma insert_ownm:
  assumes "hash_inv t" "tab_map t (cstr key) = None" "ownm h (mset (blocks t) + M)"
  obtains t' h' where "ei_hash_insert t key v h = Ok (None, t', h')" "hash_inv t'"
    "ownm h' (mset (blocks t') + M)" "grants h' = grants h"
    "tab_map t' = (tab_map t)(cstr key \<mapsto> v) \<or> tab_map t' = tab_map t \<and> \<not> (\<forall>n sz. grants h n sz)"
proof -
  obtain rest where rest: "mset rest = M" by (metis ex_mset)
  from assms(1,2) ownm_owns [OF assms(3) rest] obtain t' h' where
    "ei_hash_insert t key v h = Ok (None, t', h')" "hash_inv t'" "owns h' (blocks t' @ rest)" "grants h' = grants h"
    "tab_map t' = (tab_map t)(cstr key \<mapsto> v) \<or> tab_map t' = tab_map t \<and> \<not> (\<forall>n sz. grants h n sz)"
    by (rule insert_new)
  then show thesis using that [of t' h'] rest ownm_mset [of h' "blocks t' @ rest"] by simp
qed

lemma make_result:
  assumes "ownm (mem r) (mset (rfreelist r) + M)"
  obtains h' where "ei_reg_make r flags = (None, r\<lparr>mem := h'\<rparr>)" "ownm h' (mset (rfreelist r) + M)"
      "grants h' = grants (mem r)" "\<not> (\<forall>n sz. grants (mem r) n sz)"
    | a fl h' obj where
      "ei_reg_make r flags = (Some a, r\<lparr>rfreelist := fl, mem := h', objs := (objs r)(a := obj)\<rparr>)"
      "ownm h' (add_mset a (mset fl + M))" "grants h' = grants (mem r)"
proof (cases "rfreelist r")
  case Nil
  obtain p h' where m: "malloc sizeof_obj (mem r) = (p, h')" by (cases "malloc sizeof_obj (mem r)") auto
  note own = ownm_malloc [OF assms m]
  show thesis
  proof (cases p)
    case None
    then show thesis using that(1) [of h'] own m Nil by (auto simp: ei_reg_make_def)
  next
    case (Some a)
    then show thesis
      using that(2) [where a = a and fl = "[]" and h' = h' and obj = "(objs r a)\<lparr>attr := flags OR EI_DIRTY, osize := 0\<rparr>"] own m Nil
      by (simp add: ei_reg_make_def)
  qed
next
  case (Cons a as)
  then show thesis
    using that(2) [where a = a and fl = as and h' = "mem r" and obj = "(objs r a)\<lparr>attr := flags OR EI_DIRTY, osize := 0\<rparr>"] assms
    by (simp add: ei_reg_make_def)
qed

text \<open>The blocks of a registry that are not objects, and what it owns while the object at \<open>a\<close> is
  taken out to be filled in.\<close>

definition base :: "ei_reg \<Rightarrow> addr multiset" where
  "base r = add_mset (raddr r) (mset (rfreelist r) + mset (blocks (rtab r)))"

lemma own_base: "own r = base r + objsm (objs r) (tab_map (rtab r))"
  by (simp add: own_def base_def)

lemma reg_inv_eq:
  "reg_inv rest r \<longleftrightarrow> hash_inv (rtab r) \<and> ownm (mem r) (base r + objsm (objs r) (tab_map (rtab r)) + rest)
     \<and> objs_ok (objs r) (tab_map (rtab r))"
  by (simp add: reg_inv_def own_base)

text \<open>The old value of an existing object is released.\<close>

lemma drop_value_result:
  assumes "obj_ok obj" "ownm h (payload obj + M)"
  obtains h' where "drop_value obj h = Ok (Some h')" "ownm h' M" "grants h' = grants h"
proof -
  have keep: "ownm h M" using ownm_mono [OF assms(2)] .
  have free: thesis if "payload obj = {#a#}" "drop_value obj h = bindr (free_ptr (Some a) h) (\<lambda>h. Ok (Some h))" for a
    using that ownm_free [of h a M] assms(2) \<open>\<And>h'. drop_value obj h = Ok (Some h') \<Longrightarrow> ownm h' M \<Longrightarrow> grants h' = grants h \<Longrightarrow> thesis\<close>
    by simp
  show thesis
  proof (cases "val obj")
    case (Val_s s)
    then show thesis
      using that [of h] keep free assms(1)
      by (cases s) (auto simp: drop_value_def obj_ok_def payload_def)
  next
    case (Val_p p)
    then show thesis
      using that [of h] keep free assms(1)
      by (cases p; cases "osize obj > 0") (auto simp: drop_value_def obj_ok_def payload_def)
  qed (use that [of h] keep assms(1) in \<open>auto simp: drop_value_def obj_ok_def\<close>)
qed

text \<open>After the shared part: an object that nothing else uses, and the table that leads to it,
  unless the insertion failed.\<close>

lemma set_object_result:
  assumes "reg_inv rest r"
  obtains r' where "set_object r key flags = Ok (None, r')" "reg_inv rest r'" "reg_view r' = reg_view r"
      "grants (mem r') = grants (mem r)" "reg_view r (cstr key) = None" "\<not> (\<forall>n sz. grants (mem r) n sz)"
    | a r' where "set_object r key flags = Ok (Some a, r')" "hash_inv (rtab r')"
      "ownm (mem r') (add_mset a (base r' + objsm (objs r) ((tab_map (rtab r))(cstr key := None)) + rest))"
      "grants (mem r') = grants (mem r)" "\<And>b. b \<noteq> a \<Longrightarrow> objs r' b = objs r b"
      "tab_map (rtab r') = (tab_map (rtab r))(cstr key \<mapsto> Some a)
       \<or> reg_view r (cstr key) = None \<and> tab_map (rtab r') = (tab_map (rtab r))(cstr key := None)
         \<and> \<not> (\<forall>n sz. grants (mem r) n sz)"
proof -
  let ?m = "tab_map (rtab r)"
  have inv: "hash_inv (rtab r)" "ownm (mem r) (base r + objsm (objs r) ?m + rest)" "objs_ok (objs r) ?m"
    using assms by (auto simp: reg_inv_eq)
  show thesis
  proof (cases "?m (cstr key)")
    case None
    then have nv: "reg_view r (cstr key) = None" and same: "?m(cstr key := None) = ?m"
      by (auto simp: reg_view_def)
    define M where "M = add_mset (raddr r) (mset (blocks (rtab r)) + objsm (objs r) ?m + rest)"
    have "ownm (mem r) (mset (rfreelist r) + M)" using inv(2) by (simp add: base_def M_def ac_simps)
    then show thesis
    proof (cases rule: make_result [of r M flags])
      case (1 h')
      then show thesis
        using that(1) [of "r\<lparr>mem := h'\<rparr>"] inv nv None
        by (simp add: set_object_def lookup_result stored_def reg_inv_eq base_def M_def ac_simps)
    next
      case (2 a fl h' obj)
      define N where "N = add_mset a (add_mset (raddr r) (mset fl + objsm (objs r) ?m + rest))"
      have "ownm h' (mset (blocks (rtab r)) + N)" using 2(2) by (simp add: M_def N_def ac_simps)
      with inv(1) None obtain t' h'' where t': "ei_hash_insert (rtab r) key (Some a) h' = Ok (None, t', h'')"
        "hash_inv t'" "ownm h'' (mset (blocks t') + N)" "grants h'' = grants h'"
        "tab_map t' = ?m(cstr key \<mapsto> Some a) \<or> tab_map t' = ?m \<and> \<not> (\<forall>n sz. grants h' n sz)"
        by (rule insert_ownm)
      then show thesis
        using that(2) [of a "r\<lparr>rfreelist := fl, mem := h'', objs := (objs r)(a := obj), rtab := t'\<rparr>"]
          inv(1) nv same None 2(1,3)
        by (simp add: set_object_def lookup_result stored_def base_def N_def ac_simps)
    qed
  next
    case (Some v)
    then obtain a where v: "v = Some a" "obj_ok (objs r a)" using inv(3) by (auto simp: objs_ok_def)
    have "ownm (mem r) (payload (objs r a) + add_mset a (base r + objsm (objs r) (?m(cstr key := None)) + rest))"
      using inv(2) objsm_split [of ?m "cstr key" v "objs r"] Some by (simp add: v(1) objm_def ac_simps)
    with v(2) obtain h' where "drop_value (objs r a) (mem r) = Ok (Some h')"
      "ownm h' (add_mset a (base r + objsm (objs r) (?m(cstr key := None)) + rest))" "grants h' = grants (mem r)"
      by (rule drop_value_result)
    then show thesis
      using that(2) [of a "r\<lparr>mem := h'\<rparr>"] inv(1) Some v(1)
      by (simp add: set_object_def lookup_result stored_def base_def fun_upd_idem)
  qed
qed

lemma ownm_add_mset_notin: "ownm h (add_mset a (M + N)) \<Longrightarrow> a \<notin># M"
  using ownm_free(3) [of h a "M + N"] by simp

lemma reg_inv_weaken: "reg_inv (M + rest) r \<Longrightarrow> reg_inv rest r"
  using ownm_mono [of "mem r" M "base r + objsm (objs r) (tab_map (rtab r)) + rest"]
  by (auto simp: reg_inv_eq ac_simps)

text \<open>An object that is stored in place of the one at \<open>a\<close>, which no other key leads to.\<close>

lemma store_object:
  assumes "hash_inv (rtab r')" "ownm (mem r') (add_mset a (base r' + objsm store (m(k := None)) + (payload obj + rest)))"
    "\<And>b. b \<noteq> a \<Longrightarrow> objs r' b = store b" "objs_ok store m" "obj_ok obj" "finite (dom m)"
    "tab_map (rtab r') = m(k \<mapsto> Some a)" and r'': "r'' = r'\<lparr>objs := (objs r')(a := obj)\<rparr>"
  shows "reg_inv rest r''"
    "reg_view r'' k' = (if k' = k then Some obj else case m k' of Some (Some b) \<Rightarrow> Some (store b) | _ \<Rightarrow> None)"
proof -
  let ?m = "m(k := None)" and ?store = "(objs r')(a := obj)"
  have fin: "finite (dom ?m)" using assms(6) by simp
  have a: "a \<notin># objsm store ?m"
    using ownm_add_mset_notin [of "mem r'" a "base r' + objsm store ?m" "payload obj + rest"] assms(2)
    by (simp add: add.assoc)
  have new: "\<And>b. b \<noteq> a \<Longrightarrow> ?store b = store b" using assms(3) by simp
  note un = unreached [OF fin a new]
  have "objsm ?store (tab_map (rtab r')) = add_mset a (payload obj) + objsm store ?m"
    using objsm_upd [OF assms(6), of ?store k "Some a"] un(2) by (simp add: assms(7) objm_def)
  then have o: "ownm (mem r') (base r' + objsm ?store (tab_map (rtab r')) + rest)"
    using assms(2) by (simp add: ac_simps)
  have "objs_ok store ?m" using assms(4) by (simp add: objs_ok_def)
  then have "objs_ok ?store ?m" using un(3) by blast
  then have ok: "objs_ok ?store (tab_map (rtab r'))"
    unfolding objs_ok_def using assms(5,7) by (auto simp: objs_ok_def split: if_splits)
  show "reg_inv rest r''" using assms(1) o ok by (simp add: reg_inv_eq base_def r'')
  show "reg_view r'' k' = (if k' = k then Some obj else case m k' of Some (Some b) \<Rightarrow> Some (store b) | _ \<Rightarrow> None)"
    using un(1) [of k'] assms(7) by (auto simp: reg_view_def r'' split: option.splits)
qed

text \<open>An object that is filled in but was never put into the table.\<close>

lemma lose_object:
  assumes "hash_inv (rtab r')" "ownm (mem r') (add_mset a (base r' + objsm store m + (payload obj + rest)))"
    "\<And>b. b \<noteq> a \<Longrightarrow> objs r' b = store b" "objs_ok store m" "finite (dom m)"
    "tab_map (rtab r') = m" and r'': "r'' = r'\<lparr>objs := (objs r')(a := obj)\<rparr>"
  shows "reg_inv rest r''"
    "reg_view r'' k' = (case m k' of Some (Some b) \<Rightarrow> Some (store b) | _ \<Rightarrow> None)"
proof -
  define store' where s': "store' = (objs r')(a := obj)"
  have a: "a \<notin># objsm store m"
    using ownm_add_mset_notin [of "mem r'" a "base r' + objsm store m" "payload obj + rest"] assms(2)
    by (simp add: add.assoc)
  have new: "\<And>b. b \<noteq> a \<Longrightarrow> store' b = store b" using assms(3) by (simp add: s')
  note un = unreached [OF assms(5) a new]
  have "ownm (mem r') (base r' + objsm store m + rest)"
    by (rule ownm_mono [of _ "add_mset a (payload obj)"]) (use assms(2) in \<open>simp add: ac_simps\<close>)
  then show "reg_inv rest r''"
    using assms(1,4,6) un(2,3) by (simp add: reg_inv_eq base_def r'' s' [symmetric])
  show "reg_view r'' k' = (case m k' of Some (Some b) \<Rightarrow> Some (store b) | _ \<Rightarrow> None)"
    using un(1) [of k'] assms(6) by (auto simp: reg_view_def r'' s' [symmetric] split: option.splits)
qed

text \<open>The whole of a set function.\<close>

lemma set_value_result:
  assumes "reg_inv (payload obj + rest) r" "obj_ok obj" "obj = \<lparr>attr = flags OR EI_DIRTY, osize = n, val = v\<rparr>"
  obtains c r' where "bindr (set_object r key flags) (\<lambda>pr. fill_object pr flags v n) = Ok (c, Some r')"
    "reg_inv rest r'" "grants (mem r') = grants (mem r)"
    "c = 0 \<and> reg_view r' = (reg_view r)(cstr key \<mapsto> obj)
     \<or> (c = 0 \<or> c = -1) \<and> reg_view r (cstr key) = None \<and> reg_view r' = reg_view r \<and> \<not> (\<forall>n sz. grants (mem r) n sz)"
  using assms(1)
proof (cases rule: set_object_result [of "payload obj + rest" r key flags])
  case (1 r')
  then show thesis using that [of "-1" r'] reg_inv_weaken [OF 1(2)] by (simp add: fill_object_def)
next
  case (2 a r')
  let ?m = "tab_map (rtab r)" and ?r = "r'\<lparr>objs := (objs r')(a := obj)\<rparr>"
  have inv: "objs_ok (objs r) ?m" "objs_ok (objs r) (?m(cstr key := None))"
    using assms(1) by (auto simp: reg_inv_eq objs_ok_def)
  have run: "bindr (set_object r key flags) (\<lambda>pr. fill_object pr flags v n) = Ok (0, Some ?r)"
    using 2(1) by (simp add: fill_object_def assms(3))
  from 2(6) show thesis
  proof
    assume t: "tab_map (rtab r') = ?m(cstr key \<mapsto> Some a)"
    note st = store_object [OF 2(2,3,5) inv(1) assms(2) _ t refl]
    have "reg_view ?r = (reg_view r)(cstr key \<mapsto> obj)"
      using st(2) by (auto simp: fun_eq_iff reg_view_def)
    then show thesis using that [OF run] st(1) 2(4) by simp
  next
    assume t: "reg_view r (cstr key) = None \<and> tab_map (rtab r') = ?m(cstr key := None)
      \<and> \<not> (\<forall>n sz. grants (mem r) n sz)"
    then have "tab_map (rtab r') = ?m(cstr key := None)" by blast
    note st = lose_object [OF 2(2,3,5) inv(2) _ this refl]
    have "reg_view ?r = reg_view r"
      using st(2) t by (auto simp: fun_eq_iff reg_view_def split: option.splits)
    then show thesis using that [OF run] st(1) 2(4) t by simp
  qed
qed

text \<open>Without a bucket for a new key the object is filled in, reported as stored, and lost.\<close>

lemma set_value_lost:
  assumes "reg_inv (payload obj + rest) r" "obj = \<lparr>attr = flags OR EI_DIRTY, osize = n, val = v\<rparr>"
    and "reg_view r (cstr key) = None"
    and "ei_reg_make r flags = (Some a, r1)" "new_bucket (rtab r1) key (mem r1) = (None, t, h)"
  obtains r' where "bindr (set_object r key flags) (\<lambda>pr. fill_object pr flags v n) = Ok (0, Some r')"
    "reg_inv rest r'" "reg_view r' = reg_view r" "a \<in> live (mem r')" "a \<notin># own r' + rest"
proof -
  let ?m = "tab_map (rtab r)"
  have inv: "hash_inv (rtab r)" "objs_ok (objs r) ?m" using assms(1) by (auto simp: reg_inv_eq)
  then have n: "?m (cstr key) = None" using assms(3) by (auto simp: reg_view_def objs_ok_def split: option.splits)
  then have same: "?m(cstr key := None) = ?m" by auto
  have r1: "rtab r1 = rtab r" using assms(4) by (auto simp: ei_reg_make_def Let_def split: list.splits prod.splits option.splits)
  obtain fl where t: "t = (rtab r)\<lparr>hfreelist := fl\<rparr>"
    using assms(5) r1 by (auto simp: new_bucket_def ei_hash_bmalloc_def split: if_splits list.splits prod.splits
        intro: that [of "hfreelist t"])
  have "ei_hash_insert (rtab r) key (Some a) (mem r1) = Ok (None, t, h)"
    using chain_at_home(1) [OF inv(1), of key] chain_at_home(3) [OF inv(1), of key] n assms(5) r1
    by (auto simp: ei_hash_insert_def Let_def split: option.splits)
  then have run: "set_object r key flags = Ok (Some a, r1\<lparr>rtab := t, mem := h\<rparr>)"
    using assms(4) r1 n by (simp add: set_object_def lookup_result [OF inv(1)] stored_def)
  define r2 where "r2 = r1\<lparr>rtab := t, mem := h\<rparr>"
  have m: "tab_map (rtab r2) = ?m" by (simp add: r2_def t tab_map_def)
  from assms(1) show thesis
  proof (cases rule: set_object_result [of "payload obj + rest" r key flags])
    case (2 a' r'')
    then have e: "a' = a" "r'' = r2" using run by (simp_all add: r2_def)
    let ?r = "r2\<lparr>objs := (objs r2)(a := obj)\<rparr>"
    have o: "ownm (mem r2) (add_mset a (base r2 + objsm (objs r) ?m + (payload obj + rest)))"
      using 2(3) unfolding e same .
    have ob: "\<And>b. b \<noteq> a \<Longrightarrow> objs r2 b = objs r b" using 2(5) unfolding e .
    have hi: "hash_inv (rtab r2)" using 2(2) unfolding e .
    note st = lose_object [OF hi o ob inv(2) _ m refl]
    have v: "reg_view ?r = reg_view r" using st(2) by (auto simp: fun_eq_iff reg_view_def)
    have na: "a \<notin># objsm (objs r) ?m"
      using ownm_add_mset_notin [of "mem r2" a "base r2 + objsm (objs r) ?m" "payload obj + rest"] o by (simp add: add.assoc)
    have "objsm (objs ?r) ?m = objsm (objs r) ?m" by (rule unreached(2) [OF _ na]) (use ob in auto)
    then have ow: "own ?r = base r2 + objsm (objs r) ?m" using m by (simp add: own_base base_def)
    have "a \<notin># own ?r + rest"
    proof -
      have "ownm (mem r2) (add_mset a ((base r2 + objsm (objs r) ?m + rest) + payload obj))"
        using o by (simp add: ac_simps)
      then show ?thesis unfolding ow using ownm_add_mset_notin by blast
    qed
    moreover have "a \<in> live (mem ?r)" using ownm_free [OF o] by simp
    moreover have "bindr (set_object r key flags) (\<lambda>pr. fill_object pr flags v n) = Ok (0, Some ?r)"
      using run by (simp add: fill_object_def assms(2) r2_def)
    ultimately show thesis using that [of ?r] st(1) v by simp
  qed (use run in simp)
qed
section \<open>Reading and marking\<close>

lemma find_object_result:
  assumes "reg_inv rest r"
  shows "find_object (Some r) (Some key) = Ok (reg_view r (cstr key))"
  using assms by (auto simp: find_object_def reg_inv_eq lookup_result stored_def reg_view_def split: option.splits)

lemma view_object_ok: "reg_inv rest r \<Longrightarrow> reg_view r k = Some obj \<Longrightarrow> obj_ok obj"
  by (auto simp: reg_inv_eq reg_view_def objs_ok_def split: option.splits)

text \<open>New attributes for an object, of the same type.\<close>

lemma typeof_or: "c AND EI_REG_TYPEMASK = 0 \<Longrightarrow> ei_reg_typeof (obj\<lparr>attr := attr obj OR c\<rparr>) = ei_reg_typeof obj"
  by (simp add: ei_reg_typeof_def bit.conj_disj_distrib2)

lemma mark_object:
  assumes "reg_inv rest r" "tab_map (rtab r) k = Some (Some a)" "c AND EI_REG_TYPEMASK = 0"
    and r': "r' = r\<lparr>objs := (objs r)(a := (objs r a)\<lparr>attr := attr (objs r a) OR c\<rparr>)\<rparr>"
  shows "reg_inv rest r'" "reg_view r' = (reg_view r)(k \<mapsto> (objs r a)\<lparr>attr := attr (objs r a) OR c\<rparr>)"
proof -
  let ?m = "tab_map (rtab r)" and ?obj = "(objs r a)\<lparr>attr := attr (objs r a) OR c\<rparr>"
  have inv: "hash_inv (rtab r)" "ownm (mem r) (base r + objsm (objs r) ?m + rest)" "objs_ok (objs r) ?m"
    using assms(1) by (auto simp: reg_inv_eq)
  have p: "payload ?obj = payload (objs r a)" by (simp add: payload_def)
  have "obj_ok (objs r a)" using inv(3) assms(2) by (auto simp: objs_ok_def)
  then have o: "obj_ok ?obj"
    using typeof_or [OF assms(3), of "objs r a"] by (cases "val (objs r a)") (auto simp: obj_ok_def)
  have t: "?m = ?m(k \<mapsto> Some a)" using assms(2) by auto
  have own: "ownm (mem r) (add_mset a (base r + objsm (objs r) (?m(k := None)) + (payload ?obj + rest)))"
    unfolding p using inv(2) objsm_split [of ?m k "Some a" "objs r"] assms(2) by (simp add: objm_def ac_simps)
  note st = store_object [OF inv(1) own refl inv(3) o _ t r']
  show "reg_inv rest r'" using st(1) by simp
  show "reg_view r' = (reg_view r)(k \<mapsto> ?obj)" using st(2) by (auto simp: fun_eq_iff reg_view_def)
qed

lemma view_Some: "reg_view r k = Some obj \<longleftrightarrow> (\<exists>a. tab_map (rtab r) k = Some (Some a) \<and> objs r a = obj)"
  by (auto simp: reg_view_def split: option.splits)

lemma view_None:
  "reg_inv rest r \<Longrightarrow> reg_view r k = None \<longleftrightarrow> tab_map (rtab r) k = None"
  by (auto simp: reg_view_def reg_inv_eq objs_ok_def split: option.splits)

lemma mark_result:
  assumes "reg_inv rest r" "c AND EI_REG_TYPEMASK = 0"
  obtains n r' where "bindr (ei_hash_lookup (rtab r) key) (\<lambda>p. case p of None \<Rightarrow> Ok (-1, Some r)
      | Some a \<Rightarrow> Ok (0, Some (r\<lparr>objs := (objs r)(a := (objs r a)\<lparr>attr := attr (objs r a) OR c\<rparr>)\<rparr>)))
      = Ok (n :: int, Some r')"
    "reg_inv rest r'" "grants (mem r') = grants (mem r)"
    "case reg_view r (cstr key) of
       None \<Rightarrow> n = -1 \<and> reg_view r' = reg_view r
     | Some obj \<Rightarrow> n = 0 \<and> reg_view r' = (reg_view r)(cstr key \<mapsto> obj\<lparr>attr := attr obj OR c\<rparr>)"
proof (cases "reg_view r (cstr key)")
  case None
  then have "ei_hash_lookup (rtab r) key = Ok None"
    using assms(1) view_None [OF assms(1)] by (simp add: reg_inv_eq lookup_result stored_def)
  then show thesis using that [of "-1" r] None assms(1) by simp
next
  case (Some obj)
  then obtain a where a: "tab_map (rtab r) (cstr key) = Some (Some a)" "objs r a = obj" by (auto simp: view_Some)
  then have "ei_hash_lookup (rtab r) key = Ok (Some a)"
    using assms(1) by (simp add: reg_inv_eq lookup_result stored_def)
  then show thesis using that(1) [OF _ mark_object(1) [OF assms(1) a(1) assms(2) refl]]
      mark_object(2) [OF assms(1) a(1) assms(2) refl] Some a(2) by simp
qed

section \<open>Purging\<close>

definition keeps :: "(addr \<Rightarrow> ei_reg_obj) \<Rightarrow> ei_bucket \<Rightarrow> bool" where
  "keeps store b \<longleftrightarrow> (case bvalue b of None \<Rightarrow> True | Some a \<Rightarrow> \<not> deleted (store a))"

definition bucketm :: "(addr \<Rightarrow> ei_reg_obj) \<Rightarrow> ei_bucket \<Rightarrow> addr multiset" where
  "bucketm store b = add_mset (baddr b) (objm store (bvalue b))"

definition bucket_obj_ok :: "(addr \<Rightarrow> ei_reg_obj) \<Rightarrow> ei_bucket \<Rightarrow> bool" where
  "bucket_obj_ok store b \<longleftrightarrow> (case bvalue b of None \<Rightarrow> False | Some a \<Rightarrow> obj_ok (store a))"

lemma do_purge_eq: "do_purge r i = purge_rest (tab (rtab r) ! i) r"
proof -
  have "bindr (purge_head bs r) (\<lambda>(c, r). case c of [] \<Rightarrow> Ok ([], r)
      | b # bs \<Rightarrow> bindr (purge_rest bs r) (\<lambda>(bs, r). Ok (b # bs, r))) = purge_rest bs r" for bs
    by (induction bs arbitrary: r) (auto simp: bindr_assoc split: option.splits intro!: bindr_cong)
  then show ?thesis by (simp add: do_purge_def)
qed

lemma bfree_ownm:
  assumes "ownm h (add_mset (baddr b) (mset (hfreelist t) + M))"
  obtains hf h' where "ei_hash_bfree t b h = Ok (t\<lparr>hfreelist := hf\<rparr>, h')" "ownm h' (mset hf + M)"
    "grants h' = grants h"
proof (cases "in_keybuf b")
  case True
  then show thesis using that [of "baddr b # hfreelist t" h] assms by (simp add: ei_hash_bfree_def)
next
  case False
  then show thesis using that [of "hfreelist t" "h\<lparr>live := live h - {baddr b}\<rparr>"] ownm_free [OF assms]
    by (simp add: ei_hash_bfree_def)
qed

lemma free_val_result:
  assumes "obj_ok obj" "ownm h (payload obj + M)"
  obtains h' where "free_val obj h = Ok h'" "ownm h' M" "grants h' = grants h"
proof -
  have free: thesis if "payload obj = {#a#}" "free_val obj h = free_ptr (Some a) h" for a
    using that ownm_free [of h a M] assms(2) \<open>\<And>h'. free_val obj h = Ok h' \<Longrightarrow> ownm h' M \<Longrightarrow> grants h' = grants h \<Longrightarrow> thesis\<close>
    by simp
  show thesis
  proof (cases "val obj")
    case (Val_s s)
    then show thesis
      using that [of h] free assms by (cases s) (auto simp: free_val_def obj_ok_def payload_def)
  next
    case (Val_p p)
    then show thesis
      using that [of h] free assms by (cases p) (auto simp: free_val_def obj_ok_def payload_def)
  qed (use that [of h] assms in \<open>auto simp: free_val_def obj_ok_def payload_def\<close>)
qed

lemma purge_bucket_result:
  assumes "bvalue b = Some a" "obj_ok (objs r a)"
    "ownm (mem r) (mset (rfreelist r) + mset (hfreelist (rtab r)) + (bucketm (objs r) b + M))"
  obtains fl hf h' where "purge_bucket b a r = Ok (r\<lparr>rfreelist := fl,
      rtab := (rtab r)\<lparr>hfreelist := hf, nelem := nelem (rtab r) - 1\<rparr>, mem := h'\<rparr>)"
    "ownm h' (mset fl + mset hf + M)" "grants h' = grants (mem r)"
proof -
  have "ownm (mem r) (payload (objs r a) + add_mset a (add_mset (baddr b) (mset (rfreelist r) + mset (hfreelist (rtab r)) + M)))"
    using assms(3) by (simp add: bucketm_def objm_def assms(1) add_mset_commute ac_simps)
  with assms(2) obtain h1 where h1: "free_val (objs r a) (mem r) = Ok h1"
    "ownm h1 (add_mset a (add_mset (baddr b) (mset (rfreelist r) + mset (hfreelist (rtab r)) + M)))"
    "grants h1 = grants (mem r)"
    by (rule free_val_result)
  then have "ownm h1 (add_mset (baddr b) (mset (hfreelist (rtab r)) + (add_mset a (mset (rfreelist r)) + M)))"
    by (simp add: add_mset_commute ac_simps)
  then obtain hf h' where h': "ei_hash_bfree (rtab r) b h1 = Ok ((rtab r)\<lparr>hfreelist := hf\<rparr>, h')"
    "ownm h' (mset hf + (add_mset a (mset (rfreelist r)) + M))" "grants h' = grants h1"
    by (rule bfree_ownm)
  show thesis
    using that [where fl = "a # rfreelist r" and hf = hf and h' = h'] h1(1,3) h'
    by (simp add: purge_bucket_def ei_reg_free_def add_mset_commute ac_simps)
qed

lemma purge_rest_result:
  assumes "\<forall>b\<in>set bs. bucket_obj_ok (objs r) b"
    "ownm (mem r) (mset (rfreelist r) + mset (hfreelist (rtab r)) + ((\<Sum>b\<leftarrow>bs. bucketm (objs r) b) + M))"
  obtains fl hf h' where "purge_rest bs r = Ok (filter (keeps (objs r)) bs, r\<lparr>rfreelist := fl,
      rtab := (rtab r)\<lparr>hfreelist := hf, nelem := nelem (rtab r) - (int (length bs) - int (length (filter (keeps (objs r)) bs)))\<rparr>,
      mem := h'\<rparr>)"
    "ownm h' (mset fl + mset hf + ((\<Sum>b\<leftarrow>filter (keeps (objs r)) bs. bucketm (objs r) b) + M))"
    "grants h' = grants (mem r)"
  using assms
proof (induction bs arbitrary: r M thesis)
  case Nil
  then show ?case using Nil.prems(1) [where fl = "rfreelist r" and hf = "hfreelist (rtab r)" and h' = "mem r"] by simp
next
  case (Cons b bs)
  obtain a where a: "bvalue b = Some a" "obj_ok (objs r a)"
    using Cons.prems(2) by (auto simp: bucket_obj_ok_def split: option.splits)
  have ok: "\<forall>b\<in>set bs. bucket_obj_ok (objs r) b" using Cons.prems(2) by simp
  show ?case
  proof (cases "deleted (objs r a)")
    case True
    have "ownm (mem r) (mset (rfreelist r) + mset (hfreelist (rtab r)) + (bucketm (objs r) b + ((\<Sum>b\<leftarrow>bs. bucketm (objs r) b) + M)))"
      using Cons.prems(3) by (simp add: add.assoc)
    with a obtain fl hf h1 where 1: "purge_bucket b a r = Ok (r\<lparr>rfreelist := fl,
        rtab := (rtab r)\<lparr>hfreelist := hf, nelem := nelem (rtab r) - 1\<rparr>, mem := h1\<rparr>)"
      "ownm h1 (mset fl + mset hf + ((\<Sum>b\<leftarrow>bs. bucketm (objs r) b) + M))" "grants h1 = grants (mem r)"
      by (rule purge_bucket_result)
    define r1 where "r1 = r\<lparr>rfreelist := fl, rtab := (rtab r)\<lparr>hfreelist := hf, nelem := nelem (rtab r) - 1\<rparr>, mem := h1\<rparr>"
    obtain fl' hf' h' where 2: "purge_rest bs r1 = Ok (filter (keeps (objs r1)) bs, r1\<lparr>rfreelist := fl',
        rtab := (rtab r1)\<lparr>hfreelist := hf', nelem := nelem (rtab r1) - (int (length bs) - int (length (filter (keeps (objs r1)) bs)))\<rparr>,
        mem := h'\<rparr>)"
      "ownm h' (mset fl' + mset hf' + ((\<Sum>b\<leftarrow>filter (keeps (objs r1)) bs. bucketm (objs r1) b) + M))"
      "grants h' = grants (mem r1)"
      by (rule Cons.IH [of r1 M]) (use ok 1(2) in \<open>simp_all add: r1_def\<close>)
    have "\<not> keeps (objs r) b" using True a by (simp add: keeps_def)
    then show ?thesis
      using Cons.prems(1) [where fl = fl' and hf = hf' and h' = h'] True a 1 2
      by (simp add: r1_def algebra_simps)
  next
    case False
    have own: "ownm (mem r) (mset (rfreelist r) + mset (hfreelist (rtab r)) + ((\<Sum>b\<leftarrow>bs. bucketm (objs r) b) + (bucketm (objs r) b + M)))"
      using Cons.prems(3) by (simp add: ac_simps)
    obtain fl' hf' h' where 2: "purge_rest bs r = Ok (filter (keeps (objs r)) bs, r\<lparr>rfreelist := fl',
        rtab := (rtab r)\<lparr>hfreelist := hf', nelem := nelem (rtab r) - (int (length bs) - int (length (filter (keeps (objs r)) bs)))\<rparr>,
        mem := h'\<rparr>)"
      "ownm h' (mset fl' + mset hf' + ((\<Sum>b\<leftarrow>filter (keeps (objs r)) bs. bucketm (objs r) b) + (bucketm (objs r) b + M)))"
      "grants h' = grants (mem r)"
      by (rule Cons.IH [OF _ ok own])
    moreover have "keeps (objs r) b" using False a by (simp add: keeps_def)
    ultimately show ?thesis
      using Cons.prems(1) [where fl = fl' and hf = hf' and h' = h'] False a by (simp add: ac_simps)
  qed
qed

text \<open>The blocks of a registry bucket by bucket.\<close>

lemma objsm_entries:
  "distinct (map bkey bs) \<Longrightarrow> objsm store (map_of (entries bs)) = (\<Sum>b\<leftarrow>bs. objm store (bvalue b))"
proof (induction bs)
  case Nil
  then show ?case by (simp add: objsm_def)
next
  case (Cons b bs)
  have "map_of (entries bs) (bkey b) = None" using Cons.prems by (auto simp: map_of_entries_None)
  then have "(map_of (entries bs))(bkey b := None) = map_of (entries bs)" by (simp add: fun_upd_idem)
  then show ?case
    using objsm_upd [of "map_of (entries bs)" store "bkey b" "bvalue b"] Cons by (simp add: finite_dom_map_of fun_upd_def)
qed

lemma sum_bucketm:
  "(\<Sum>b\<leftarrow>bs. bucketm store b) = mset (map baddr bs) + (\<Sum>b\<leftarrow>bs. objm store (bvalue b))"
  by (induction bs) (auto simp: bucketm_def ac_simps)

lemma own_buckets:
  assumes "hash_inv (rtab r)"
  shows "base r + objsm (objs r) (tab_map (rtab r)) =
    add_mset (raddr r) (add_mset (taddr (rtab r)) (mset (rfreelist r) + mset (hfreelist (rtab r))
      + (\<Sum>b\<leftarrow>concat (tab (rtab r)). bucketm (objs r) b)))"
  using assms objsm_entries [of "concat (tab (rtab r))" "objs r"]
  by (simp add: base_def blocks_def tab_map_def hash_inv_def sum_bucketm add_mset_commute ac_simps)

lemma objs_ok_buckets:
  assumes "hash_inv t"
  shows "objs_ok store (tab_map t) \<longleftrightarrow> (\<forall>b\<in>set (concat (tab t)). bucket_obj_ok store b)"
proof -
  have d: "distinct (map fst (entries (concat (tab t))))" using assms by (simp add: hash_inv_def)
  have "(tab_map t k = Some v) = ((k, v) \<in> set (entries (concat (tab t))))" for k v
    using map_of_eq_Some_iff [OF d] by (simp add: tab_map_def)
  then show ?thesis
    by (force simp: objs_ok_def bucket_obj_ok_def image_iff split: option.splits)
qed

lemma sum_bucketm_concat:
  assumes "i < length ts"
  obtains N where "\<And>c. (\<Sum>b\<leftarrow>concat (ts[i := c]). bucketm store b) = (\<Sum>b\<leftarrow>c. bucketm store b) + N"
    "(\<Sum>b\<leftarrow>concat ts. bucketm store b) = (\<Sum>b\<leftarrow>ts ! i. bucketm store b) + N"
proof -
  obtain xs ys where "\<And>c. concat (ts[i := c]) = xs @ c @ ys" "concat ts = xs @ ts ! i @ ys"
    using concat_split [OF assms] by metis
  then show thesis
    using that [of "(\<Sum>b\<leftarrow>xs. bucketm store b) + (\<Sum>b\<leftarrow>ys. bucketm store b)"] by (simp add: ac_simps)
qed

lemma purge_slot_result:
  assumes "reg_inv rest r" "i < length (tab (rtab r))"
  obtains r' where "purge_slot i r = Ok r'" "reg_inv rest r'" "objs r' = objs r" "grants (mem r') = grants (mem r)"
    "tab (rtab r') = (tab (rtab r))[i := filter (keeps (objs r)) (tab (rtab r) ! i)]"
proof (cases "tab (rtab r) ! i = []")
  case True
  then show thesis using that [of r] assms list_update_id [of "tab (rtab r)" i] by (simp add: purge_slot_def)
next
  case False
  let ?t = "rtab r" and ?c = "tab (rtab r) ! i" and ?k = "filter (keeps (objs r)) (tab (rtab r) ! i)"
  have inv: "hash_inv ?t" "ownm (mem r) (base r + objsm (objs r) (tab_map ?t) + rest)"
    "\<forall>b\<in>set (concat (tab ?t)). bucket_obj_ok (objs r) b"
    using assms(1) objs_ok_buckets by (auto simp: reg_inv_eq)
  obtain N where N: "\<And>c. (\<Sum>b\<leftarrow>concat ((tab ?t)[i := c]). bucketm (objs r) b) = (\<Sum>b\<leftarrow>c. bucketm (objs r) b) + N"
    "(\<Sum>b\<leftarrow>concat (tab ?t). bucketm (objs r) b) = (\<Sum>b\<leftarrow>?c. bucketm (objs r) b) + N"
    using sum_bucketm_concat [OF assms(2)] by metis
  define M where "M = N + add_mset (raddr r) (add_mset (taddr ?t) rest)"
  have ok: "\<forall>b\<in>set ?c. bucket_obj_ok (objs r) b" using inv(3) assms(2) by auto
  have own: "ownm (mem r) (mset (rfreelist r) + mset (hfreelist ?t) + ((\<Sum>b\<leftarrow>?c. bucketm (objs r) b) + M))"
    using inv(2) unfolding own_buckets [OF inv(1)] N(2) M_def by (simp add: add_mset_commute ac_simps)
  obtain fl hf h' where p: "purge_rest ?c r = Ok (?k, r\<lparr>rfreelist := fl,
      rtab := ?t\<lparr>hfreelist := hf, nelem := nelem ?t - (int (length ?c) - int (length ?k))\<rparr>, mem := h'\<rparr>)"
    "ownm h' (mset fl + mset hf + ((\<Sum>b\<leftarrow>?k. bucketm (objs r) b) + M))" "grants h' = grants (mem r)"
    by (rule purge_rest_result [OF ok own])
  define t' where "t' = ?t\<lparr>hfreelist := hf, nelem := nelem ?t - (int (length ?c) - int (length ?k)),
    tab := (tab ?t)[i := ?k], npos := (if ?k = [] then npos ?t - 1 else npos ?t)\<rparr>"
  define r' where "r' = r\<lparr>rfreelist := fl, mem := h', rtab := t'\<rparr>"
  have side: "\<forall>b\<in>set ?k. bucket_ok b \<and> home (tab ?t) (bkey b) = i"
    using inv(1) assms(2) by (auto simp: hash_inv_def placed_def)
  obtain xs ys where cs: "\<And>c. concat ((tab ?t)[i := c]) = xs @ c @ ys" "concat (tab ?t) = xs @ ?c @ ys"
    using concat_split [OF assms(2)] by metis
  have "distinct (map bkey ?c)" using inv(1) unfolding hash_inv_def cs(2) by simp
  then have d: "distinct (map bkey ?k)" by (simp add: distinct_map_filter)
  have inv': "hash_inv t'"
    by (rule hash_inv_update(1) [OF inv(1) assms(2) side d]) (use False in \<open>auto simp: t'_def\<close>)
  have "set (concat (tab t')) \<subseteq> set (concat (tab ?t))"
    unfolding cs(2) by (auto simp: t'_def cs(1) simp del: set_concat)
  then have "objs_ok (objs r) (tab_map t')" using inv(3) objs_ok_buckets [OF inv'] by blast
  moreover have "ownm h' (base r' + objsm (objs r') (tab_map (rtab r')) + rest)"
    using p(2) inv' own_buckets [of r'] N(1) [of ?k]
    by (simp add: r'_def t'_def M_def add_mset_commute ac_simps)
  ultimately have "reg_inv rest r'" using inv' by (simp add: reg_inv_eq r'_def)
  moreover have "purge_slot i r = Ok r'"
    using False p(1) by (simp add: purge_slot_def do_purge_eq r'_def t'_def)
  ultimately show thesis using that [of r'] p(3) by (simp add: r'_def t'_def)
qed

lemma purge_slots_result:
  assumes "reg_inv rest r" "\<forall>i\<in>set is. i < length (tab (rtab r))"
  obtains r' where "purge_slots is r = Ok r'" "reg_inv rest r'" "objs r' = objs r" "grants (mem r') = grants (mem r)"
    "length (tab (rtab r')) = length (tab (rtab r))"
    "\<And>j. j < length (tab (rtab r)) \<Longrightarrow> tab (rtab r') ! j =
       (if j \<in> set is then filter (keeps (objs r)) (tab (rtab r) ! j) else tab (rtab r) ! j)"
  using assms
proof (induction "is" arbitrary: r thesis)
  case Nil
  then show ?case by simp
next
  case (Cons i "is")
  have i: "i < length (tab (rtab r))" using Cons.prems(3) by simp
  obtain r1 where r1: "purge_slot i r = Ok r1" "reg_inv rest r1" "objs r1 = objs r" "grants (mem r1) = grants (mem r)"
    "tab (rtab r1) = (tab (rtab r))[i := filter (keeps (objs r)) (tab (rtab r) ! i)]"
    by (rule purge_slot_result [OF Cons.prems(2) i])
  have "\<forall>i\<in>set is. i < length (tab (rtab r1))" using Cons.prems(3) r1(5) by simp
  then obtain r' where r': "purge_slots is r1 = Ok r'" "reg_inv rest r'" "objs r' = objs r1"
    "grants (mem r') = grants (mem r1)" "length (tab (rtab r')) = length (tab (rtab r1))"
    "\<And>j. j < length (tab (rtab r1)) \<Longrightarrow> tab (rtab r') ! j =
       (if j \<in> set is then filter (keeps (objs r1)) (tab (rtab r1) ! j) else tab (rtab r1) ! j)"
    using Cons.IH [OF _ r1(2)] by blast
  have "tab (rtab r') ! j = (if j \<in> set (i # is) then filter (keeps (objs r)) (tab (rtab r) ! j) else tab (rtab r) ! j)"
    if "j < length (tab (rtab r))" for j
    using r'(6) [of j] that r1(3,5) i by (auto simp: nth_list_update)
  then show ?case using Cons.prems(1) [of r'] r' r1 by simp
qed

lemma map_of_filter_entries:
  "distinct (map bkey bs) \<Longrightarrow> map_of (entries (filter P bs)) k =
     (case find (\<lambda>b. bkey b = k) bs of Some b \<Rightarrow> if P b then Some (bvalue b) else None | None \<Rightarrow> None)"
proof (induction bs)
  case (Cons b bs)
  have "map_of (entries (filter P bs)) (bkey b) = None"
    using Cons.prems by (auto simp: map_of_entries_None)
  then show ?case using Cons by (cases "bkey b = k") auto
qed simp

text \<open>A purge removes exactly the keys whose object is marked as deleted.\<close>

lemma purge_result:
  assumes "reg_inv rest r"
  obtains r' where "ei_reg_purge (Some r) = Ok (0, Some r')" "reg_inv rest r'" "grants (mem r') = grants (mem r)"
    "reg_view r' = (\<lambda>k. case reg_view r k of Some obj \<Rightarrow> if deleted obj then None else Some obj | None \<Rightarrow> None)"
proof -
  let ?ts = "tab (rtab r)"
  obtain r' where r': "purge_slots [0..<length ?ts] r = Ok r'" "reg_inv rest r'" "objs r' = objs r"
    "grants (mem r') = grants (mem r)" "length (tab (rtab r')) = length ?ts"
    "\<And>j. j < length ?ts \<Longrightarrow> tab (rtab r') ! j =
       (if j \<in> set [0..<length ?ts] then filter (keeps (objs r)) (?ts ! j) else ?ts ! j)"
    by (rule purge_slots_result [OF assms, of "[0..<length ?ts]"]) auto
  have "tab (rtab r') = map (filter (keeps (objs r))) ?ts"
    by (rule nth_equalityI) (use r'(5,6) in auto)
  then have tm: "tab_map (rtab r') = map_of (entries (filter (keeps (objs r)) (concat ?ts)))"
    by (simp add: tab_map_def filter_concat)
  have d: "distinct (map bkey (concat ?ts))" using assms by (auto simp: reg_inv_eq hash_inv_def)
  have "tab_map (rtab r) k = (case find (\<lambda>b. bkey b = k) (concat ?ts) of Some b \<Rightarrow> Some (bvalue b) | None \<Rightarrow> None)" for k
    using map_of_filter_entries [OF d, of "\<lambda>_. True" k] by (simp add: tab_map_def split: option.splits)
  then have "reg_view r' k = (case reg_view r k of Some obj \<Rightarrow> if deleted obj then None else Some obj | None \<Rightarrow> None)" for k
    using map_of_filter_entries [OF d, of "keeps (objs r)" k] r'(3)
    by (auto simp: reg_view_def tm keeps_def split: option.splits)
  then show thesis using that [of r'] r' by (auto simp: ei_reg_purge_def)
qed

section \<open>Opening, resizing, closing\<close>

lemma resize_ownm:
  assumes "hash_inv t" "ownm h (mset (blocks t) + M)" "0 < n" "n \<le> 1048583"
  obtains t' h' where "ei_hash_resize t n h = Some (Ok (t', h'))" "hash_inv t'"
    "ownm h' (mset (blocks t') + M)" "grants h' = grants h" "tab_map t' = tab_map t"
proof -
  obtain rest where rest: "mset rest = M" by (metis ex_mset)
  from assms(1) ownm_owns [OF assms(2) rest] assms(3,4) obtain t' h' where
    "ei_hash_resize t n h = Some (Ok (t', h'))" "hash_inv t'" "owns h' (blocks t' @ rest)"
    "grants h' = grants h" "tab_map t' = tab_map t"
    by (rule resize_result)
  then show thesis using that [of t' h'] rest ownm_mset [of h' "blocks t' @ rest"] by simp
qed

lemma reg_resize_result:
  assumes "reg_inv rest r" "0 < n" "n \<le> 1048583"
  obtains c r' where "ei_reg_resize (Some r) n = Some (Ok (c, Some r'))" "reg_inv rest r'" "0 < c"
    "grants (mem r') = grants (mem r)" "reg_view r' = reg_view r"
proof -
  let ?M = "add_mset (raddr r) (mset (rfreelist r) + objsm (objs r) (tab_map (rtab r)) + rest)"
  have inv: "hash_inv (rtab r)" "ownm (mem r) (mset (blocks (rtab r)) + ?M)" "objs_ok (objs r) (tab_map (rtab r))"
    using assms(1) by (auto simp: reg_inv_eq base_def ac_simps)
  from inv(1,2) assms(2,3) obtain t' h' where t': "ei_hash_resize (rtab r) n (mem r) = Some (Ok (t', h'))"
    "hash_inv t'" "ownm h' (mset (blocks t') + ?M)" "grants h' = grants (mem r)" "tab_map t' = tab_map (rtab r)"
    by (rule resize_ownm)
  have "reg_inv rest (r\<lparr>rtab := t', mem := h'\<rparr>)"
    using t' inv(3) by (simp add: reg_inv_eq base_def ac_simps)
  moreover have "reg_view (r\<lparr>rtab := t', mem := h'\<rparr>) = reg_view r"
    by (rule ext) (simp add: reg_view_def t'(5) split: option.splits)
  ultimately show thesis
    using that [of "int (length (tab t'))" "r\<lparr>rtab := t', mem := h'\<rparr>"] t' assms(2)
    by (simp add: ei_reg_resize_def hash_inv_def)
qed

lemma newtab_ownm:
  assumes "ownm h M" "0 < n" "n \<le> 1048583"
  obtains h' where "ei_hash_newtab n h = Some (Ok (None, h'))" "ownm h' M"
    | t h' where "ei_hash_newtab n h = Some (Ok (Some t, h'))" "ownm h' (mset (blocks t) + M)"
      "grants h' = grants h" "hash_inv t" "tab_map t = Map.empty"
proof -
  obtain rest where rest: "mset rest = M" "owns h rest" by (rule ownmE [OF assms(1)])
  from assms(2,3) rest(2) show thesis
  proof (cases rule: newtab_result)
    case (1 h')
    then show thesis using that(1) [of h'] unfolding rest(1) [symmetric] by simp
  next
    case (2 t h')
    then show thesis using that(2) [of t h'] ownm_mset [of h' "blocks t @ rest"] rest(1) by simp
  qed
qed

text \<open>A new registry is empty; when an allocation fails nothing is kept.\<close>

lemma reg_open_result:
  assumes "ownm h rest" "n \<le> 1048583"
  obtains h' where "ei_reg_open n store h = Some (Ok (None, h'))" "ownm h' rest"
    | r where "ei_reg_open n store h = Some (Ok (Some r, mem r))" "reg_inv rest r"
      "grants (mem r) = grants h" "reg_view r = Map.empty"
proof (cases "0 < n")
  case False
  then show thesis using that(1) [of h] assms(1) by (simp add: ei_reg_open_def)
next
  case True
  obtain p h1 where m: "malloc sizeof_reg h = (p, h1)" by (cases "malloc sizeof_reg h") auto
  note own = ownm_malloc [OF assms(1) m]
  show thesis
  proof (cases p)
    case None
    then show thesis using that(1) [of h1] own(1) m True by (simp add: ei_reg_open_def)
  next
    case (Some new)
    then have "ownm h1 (add_mset new rest)" using own(1) by simp
    from this True assms(2) show thesis
    proof (cases rule: newtab_ownm)
      case (1 h2)
      then show thesis
        using that(1) [of "h2\<lparr>live := live h2 - {new}\<rparr>"] ownm_free [OF 1(2)] m Some True
        by (simp add: ei_reg_open_def)
    next
      case (2 t h2)
      let ?r = "\<lparr>raddr = new, rfreelist = [], rtab = t, objs = store, mem = h2\<rparr>"
      have "reg_inv rest ?r" using 2 by (simp add: reg_inv_eq base_def objs_ok_def objsm_def)
      moreover have "reg_view ?r = Map.empty" by (rule ext) (simp add: reg_view_def 2(5))
      ultimately show thesis
        using that(2) [of ?r] m Some True 2(1,3) own(2) by (simp add: ei_reg_open_def)
    qed
  qed
qed

text \<open>Closing releases every block of the registry and no other.\<close>

definition obj_blocks :: "(addr \<Rightarrow> ei_reg_obj) \<Rightarrow> ptr \<Rightarrow> addr list" where
  "obj_blocks store p =
     (case p of
        None \<Rightarrow> []
      | Some a \<Rightarrow> (case val (store a) of Val_s (Some s) \<Rightarrow> [s] | Val_p (Some q) \<Rightarrow> [q] | _ \<Rightarrow> []) @ [a])"

lemma mset_obj_blocks: "mset (obj_blocks store p) = objm store p"
  by (auto simp: obj_blocks_def objm_def payload_def split: option.splits reg_val.splits)

lemma obj_free_eq:
  assumes "bucket_obj_ok store b"
  shows "obj_free store (bvalue b) h = free_all (obj_blocks store (bvalue b)) h"
proof -
  obtain a where a: "bvalue b = Some a" "obj_ok (store a)"
    using assms by (auto simp: bucket_obj_ok_def split: option.splits)
  show ?thesis
    using a(2)
    by (cases "val (store a)")
      (auto simp: a(1) obj_free_def obj_blocks_def free_val_def obj_ok_def free_all_append bindr_Ok_right
        split: option.splits)
qed

lemma close_result:
  assumes "reg_inv rest r"
  obtains h' where "ei_reg_close (Some r) = Ok (0, Some h')" "live h' = live (mem r) - set_mset (own r)" "ownm h' rest"
proof -
  let ?t = "rtab r" and ?bs = "concat (tab (rtab r))" and ?rel = "obj_blocks (objs r)"
  have inv: "hash_inv ?t" "ownm (mem r) (own r + rest)" "\<forall>b\<in>set ?bs. bucket_obj_ok (objs r) b"
    using assms objs_ok_buckets by (auto simp: reg_inv_def)
  obtain rs where rs: "mset rs = rest" by (metis ex_mset)
  have vals: "mset (concat (map (\<lambda>b. ?rel (bvalue b)) bs)) = (\<Sum>b\<leftarrow>bs. objm (objs r) (bvalue b))" for bs
    by (induction bs) (auto simp: mset_obj_blocks)
  have o: "own r = add_mset (raddr r) (mset (rfreelist r) + mset (blocks ?t) + mset (concat (map (\<lambda>b. ?rel (bvalue b)) ?bs)))"
    using inv(1) objsm_entries [of ?bs "objs r"] unfolding own_def vals tab_map_def by (simp add: hash_inv_def)
  have "ownm (mem r) (mset (blocks ?t @ concat (map (\<lambda>b. ?rel (bvalue b)) ?bs) @ rfreelist r @ raddr r # rs))"
    using inv(2) unfolding o by (simp add: rs ac_simps del: mset_concat)
  then have "owns (mem r) (blocks ?t @ concat (map (\<lambda>b. ?rel (bvalue b)) ?bs) @ rfreelist r @ raddr r # rs)"
    by (simp only: ownm_mset)
  then have "owns (mem r) (blocks ?t @ concat (map (\<lambda>b. ?rel (bvalue b)) ?bs) @ (rfreelist r @ raddr r # rs))"
    by simp
  note ft = freetab_result [where f = "obj_free (objs r)", OF _ this]
  define X where "X = set (blocks ?t) \<union> (\<Union>b\<in>set ?bs. set (?rel (bvalue b)))"
  have 1: "ei_hash_freetab ?t (Some (obj_free (objs r))) (mem r) = Ok (0, (mem r)\<lparr>live := live (mem r) - X\<rparr>)"
    "owns ((mem r)\<lparr>live := live (mem r) - X\<rparr>) (rfreelist r @ raddr r # rs)"
    unfolding X_def using ft inv(3) obj_free_eq by blast+
  note 2 = free_all_owned [OF 1(2)]
  note 3 = owns_free [OF conjunct2 [OF 2]]
  have own: "set_mset (own r) = insert (raddr r) (set (rfreelist r) \<union> X)"
    unfolding o X_def by auto
  show thesis
  proof (rule that)
    show "ei_reg_close (Some r) = Ok (0, Some ((mem r)\<lparr>live := live (mem r) - X - set (rfreelist r) - {raddr r}\<rparr>))"
      using 1(1) 2 3(1) by (simp add: ei_reg_close_def)
    show "live ((mem r)\<lparr>live := live (mem r) - X - set (rfreelist r) - {raddr r}\<rparr>) = live (mem r) - set_mset (own r)"
      unfolding own by auto
    show "ownm ((mem r)\<lparr>live := live (mem r) - X - set (rfreelist r) - {raddr r}\<rparr>) rest"
      using 3(2) unfolding rs [symmetric] by simp
  qed
qed

end
