(* ===== verification/Ei_RegSpec.thy ===== *)
theory Ei_RegSpec
  imports Ei_RegInv
begin

text \<open>
  What the registry promises: it is a finite map from keys to typed objects. The calls of the
  interface, their specification on such a map, and the proof that every call follows it.
\<close>

section \<open>Calls\<close>

datatype reg_call =
    Set_i "byte list option" "64 word"
  | Set_f "byte list option" "64 word"
  | Set_s "byte list option" "(addr \<times> byte list) option"
  | Set_p "byte list option" ptr int
  | Get_i "byte list option"
  | Get_f "byte list option"
  | Get_s "byte list option"
  | Get_p "byte list option"
  | Delete "byte list option"
  | Mark_dirty "byte list option"
  | Purge
  | Resize_to int

datatype reg_result = R_int int | R_word "64 word" | R_ptr ptr "int option"

definition as_step :: "(unit, int \<times> ei_reg option) res \<Rightarrow> (unit, reg_result \<times> ei_reg) res" where
  "as_step m = bindr m (\<lambda>(c, r). case r of Some r \<Rightarrow> Ok (R_int c, r) | None \<Rightarrow> Fault)"

fun reg_step :: "reg_call \<Rightarrow> ei_reg \<Rightarrow> (unit, reg_result \<times> ei_reg) res option" where
  "reg_step (Set_i key i) r = Some (as_step (ei_reg_setival (Some r) key i))"
| "reg_step (Set_f key f) r = Some (as_step (ei_reg_setfval (Some r) key f))"
| "reg_step (Set_s key s) r = Some (as_step (ei_reg_setsval (Some r) key s))"
| "reg_step (Set_p key p n) r = Some (as_step (ei_reg_setpval (Some r) key p n))"
| "reg_step (Get_i key) r = Some (bindr (ei_reg_getival (Some r) key) (\<lambda>i. Ok (R_word i, r)))"
| "reg_step (Get_f key) r = Some (bindr (ei_reg_getfval (Some r) key) (\<lambda>f. Ok (R_word f, r)))"
| "reg_step (Get_s key) r = Some (bindr (ei_reg_getsval (Some r) key) (\<lambda>s. Ok (R_ptr s None, r)))"
| "reg_step (Get_p key) r = Some (bindr (ei_reg_getpval (Some r) key True) (\<lambda>(p, n). Ok (R_ptr p n, r)))"
| "reg_step (Delete key) r = Some (as_step (ei_reg_delete (Some r) key))"
| "reg_step (Mark_dirty key) r = Some (as_step (ei_reg_markdirty (Some r) key))"
| "reg_step Purge r = Some (as_step (ei_reg_purge (Some r)))"
| "reg_step (Resize_to n) r =
     bindf (ei_reg_resize (Some r) n) (\<lambda>p. Some (as_step (Ok p)))"

text \<open>A pointer that is handed over must be a block of its own: allocated, and neither the
  registry's already nor one of the blocks \<open>rest\<close> that the caller keeps.\<close>

fun reg_pre :: "addr multiset \<Rightarrow> reg_call \<Rightarrow> ei_reg \<Rightarrow> bool" where
  "reg_pre rest (Set_s key (Some (p, cs))) r \<longleftrightarrow> p \<in> live (mem r) \<and> p \<notin># own r + rest"
| "reg_pre rest (Set_p key (Some p) n) r \<longleftrightarrow> p \<in> live (mem r) \<and> p \<notin># own r + rest"
| "reg_pre rest (Resize_to n) r \<longleftrightarrow> n \<le> 1048583"
| "reg_pre rest _ r \<longleftrightarrow> True"

section \<open>The specification\<close>

type_synonym reg_map = "byte list \<Rightarrow> ei_reg_obj option"

definition entry :: "32 word \<Rightarrow> reg_val \<Rightarrow> int \<Rightarrow> ei_reg_obj" where
  "entry flags v n = \<lparr>attr = flags OR EI_DIRTY, osize = n, val = v\<rparr>"

text \<open>The object of a key that a reader sees: not one that is marked as deleted.\<close>

definition live_entries :: "reg_map \<Rightarrow> reg_map" where
  "live_entries m = (\<lambda>k. case m k of None \<Rightarrow> None | Some obj \<Rightarrow> if deleted obj then None else Some obj)"

definition visible :: "reg_map \<Rightarrow> byte list option \<Rightarrow> ei_reg_obj option" where
  "visible m key =
     (case key of None \<Rightarrow> None | Some key \<Rightarrow> live_entries m (cstr key))"

definition set_effect :: "bool \<Rightarrow> byte list option \<Rightarrow> ei_reg_obj \<Rightarrow> reg_map \<Rightarrow> reg_result \<Rightarrow> reg_map \<Rightarrow> bool" where
  "set_effect reliable key obj m c m' \<longleftrightarrow>
     (case key of
        None \<Rightarrow> c = R_int (-1) \<and> m' = m
      | Some key \<Rightarrow>
          c = R_int 0 \<and> m' = m(cstr key \<mapsto> obj)
          \<or> \<not> reliable \<and> (c = R_int 0 \<or> c = R_int (-1)) \<and> m (cstr key) = None \<and> m' = m)"

definition mark_effect :: "byte list option \<Rightarrow> 32 word \<Rightarrow> reg_map \<Rightarrow> reg_result \<Rightarrow> reg_map \<Rightarrow> bool" where
  "mark_effect key bits m c m' \<longleftrightarrow>
     (case Option.bind key (\<lambda>key. m (cstr key)) of
        None \<Rightarrow> c = R_int (-1) \<and> m' = m
      | Some obj \<Rightarrow> c = R_int 0 \<and> m' = m(cstr (the key) \<mapsto> obj\<lparr>attr := attr obj OR bits\<rparr>))"

fun reg_effect :: "bool \<Rightarrow> reg_call \<Rightarrow> reg_map \<Rightarrow> reg_result \<Rightarrow> reg_map \<Rightarrow> bool" where
  "reg_effect reliable (Set_i key i) m c m' \<longleftrightarrow> set_effect reliable key (entry EI_INT (Val_i i) 0) m c m'"
| "reg_effect reliable (Set_f key f) m c m' \<longleftrightarrow> set_effect reliable key (entry EI_FLT (Val_f f) 0) m c m'"
| "reg_effect reliable (Set_s key s) m c m' \<longleftrightarrow>
     set_effect reliable key (entry EI_STR (Val_s (map_option fst s)) (case s of None \<Rightarrow> 0 | Some (p, cs) \<Rightarrow> int (strlen cs) + 1)) m c m'"
| "reg_effect reliable (Set_p key p n) m c m' \<longleftrightarrow>
     (if n < 0 then c = R_int (-1) \<and> m' = m else set_effect reliable key (entry EI_BIN (Val_p p) n) m c m')"
| "reg_effect reliable (Get_i key) m c m' \<longleftrightarrow> m' = m \<and>
     c = R_word (case visible m key of Some obj \<Rightarrow> (case val obj of Val_i i \<Rightarrow> i | _ \<Rightarrow> -1) | None \<Rightarrow> -1)"
| "reg_effect reliable (Get_f key) m c m' \<longleftrightarrow> m' = m \<and>
     c = R_word (case visible m key of Some obj \<Rightarrow> (case val obj of Val_f f \<Rightarrow> f | _ \<Rightarrow> minus_one_double) | None \<Rightarrow> minus_one_double)"
| "reg_effect reliable (Get_s key) m c m' \<longleftrightarrow> m' = m \<and>
     c = R_ptr (case visible m key of Some obj \<Rightarrow> (case val obj of Val_s s \<Rightarrow> s | _ \<Rightarrow> None) | None \<Rightarrow> None) None"
| "reg_effect reliable (Get_p key) m c m' \<longleftrightarrow> m' = m \<and>
     c = (case visible m key of Some obj \<Rightarrow> (case val obj of Val_p p \<Rightarrow> R_ptr p (Some (osize obj)) | _ \<Rightarrow> R_ptr None None)
          | None \<Rightarrow> R_ptr None None)"
| "reg_effect reliable (Delete key) m c m' \<longleftrightarrow> mark_effect key (EI_DELET OR EI_DIRTY) m c m'"
| "reg_effect reliable (Mark_dirty key) m c m' \<longleftrightarrow> mark_effect key EI_DIRTY m c m'"
| "reg_effect reliable Purge m c m' \<longleftrightarrow> c = R_int 0 \<and> m' = live_entries m"
| "reg_effect reliable (Resize_to n) m c m' \<longleftrightarrow> m' = m \<and>
     (if n \<le> 0 then c = R_int (-1) else \<exists>k>0. c = R_int k)"

definition reg_state_inv :: "bool \<Rightarrow> addr multiset \<Rightarrow> ei_reg \<Rightarrow> bool" where
  "reg_state_inv reliable rest r \<longleftrightarrow> reg_inv rest r \<and> (reliable \<longrightarrow> (\<forall>n sz. grants (mem r) n sz))"

section \<open>Every call follows the specification\<close>

lemma grant_payload:
  assumes "reg_inv rest r" "p \<in> live (mem r)" "p \<notin># own r + rest"
  shows "reg_inv ({#p#} + rest) r"
  using assms ownm_add [of "mem r" "own r + rest" p] by (simp add: reg_inv_def)

lemma set_law:
  assumes "reg_state_inv reliable rest r" "reg_inv (payload (entry flags v n) + rest) r" "obj_ok (entry flags v n)"
  shows "\<exists>c r'. as_step (case (key, Some r) of
        (Some key, Some r) \<Rightarrow> bindr (set_object r key flags) (\<lambda>pr. fill_object pr flags v n)
      | _ \<Rightarrow> Ok (-1, Some r)) = Ok (c, r') \<and> reg_state_inv reliable rest r'
    \<and> set_effect reliable key (entry flags v n) (reg_view r) c (reg_view r')"
proof (cases key)
  case None
  then show ?thesis using assms(1) by (simp add: as_step_def set_effect_def)
next
  case (Some k)
  from assms(2,3) entry_def obtain c r' where
    "bindr (set_object r k flags) (\<lambda>pr. fill_object pr flags v n) = Ok (c, Some r')" "reg_inv rest r'"
    "grants (mem r') = grants (mem r)"
    "c = 0 \<and> reg_view r' = (reg_view r)(cstr k \<mapsto> entry flags v n)
     \<or> (c = 0 \<or> c = -1) \<and> reg_view r (cstr k) = None \<and> reg_view r' = reg_view r \<and> \<not> (\<forall>n sz. grants (mem r) n sz)"
    by (rule set_value_result)
  then show ?thesis
    using assms(1) Some by (auto simp: as_step_def set_effect_def reg_state_inv_def)
qed

lemma mark_law:
  assumes "reg_state_inv reliable rest r" "bits AND EI_REG_TYPEMASK = 0"
  shows "\<exists>c r'. as_step (case (key, Some r) of
        (Some key, Some r) \<Rightarrow> bindr (ei_hash_lookup (rtab r) key) (\<lambda>p. case p of None \<Rightarrow> Ok (-1, Some r)
          | Some a \<Rightarrow> Ok (0, Some (r\<lparr>objs := (objs r)(a := (objs r a)\<lparr>attr := attr (objs r a) OR bits\<rparr>)\<rparr>)))
      | _ \<Rightarrow> Ok (-1, Some r)) = Ok (c, r') \<and> reg_state_inv reliable rest r'
    \<and> mark_effect key bits (reg_view r) c (reg_view r')"
proof (cases key)
  case None
  then show ?thesis using assms(1) by (simp add: as_step_def mark_effect_def)
next
  case (Some k)
  have inv: "reg_inv rest r" using assms(1) by (simp add: reg_state_inv_def)
  obtain n r' where "bindr (ei_hash_lookup (rtab r) k) (\<lambda>p. case p of None \<Rightarrow> Ok (-1, Some r)
      | Some a \<Rightarrow> Ok (0, Some (r\<lparr>objs := (objs r)(a := (objs r a)\<lparr>attr := attr (objs r a) OR bits\<rparr>)\<rparr>)))
      = Ok (n :: int, Some r')"
    "reg_inv rest r'" "grants (mem r') = grants (mem r)"
    "case reg_view r (cstr k) of
       None \<Rightarrow> n = -1 \<and> reg_view r' = reg_view r
     | Some obj \<Rightarrow> n = 0 \<and> reg_view r' = (reg_view r)(cstr k \<mapsto> obj\<lparr>attr := attr obj OR bits\<rparr>)"
    by (rule mark_result [OF inv assms(2)])
  then show ?thesis
    using assms(1) Some
    by (auto simp: as_step_def mark_effect_def reg_state_inv_def split: option.splits)
qed

text \<open>The readers: the type in the attributes and the member of the union agree.\<close>

lemma find_visible:
  assumes "reg_inv rest r"
  shows "find_object (Some r) key = Ok (Option.bind key (\<lambda>key. reg_view r (cstr key)))"
  using find_object_result [OF assms] by (cases key) (auto simp: find_object_def)

lemma visible_eq:
  "visible m key = (case Option.bind key (\<lambda>key. m (cstr key)) of None \<Rightarrow> None | Some obj \<Rightarrow> if deleted obj then None else Some obj)"
  by (cases key) (auto simp: visible_def live_entries_def)

lemma found_ok: "reg_inv rest r \<Longrightarrow> Option.bind key (\<lambda>key. reg_view r (cstr key)) = Some obj \<Longrightarrow> obj_ok obj"
  by (cases key) (auto dest: view_object_ok)

lemma reader_laws:
  assumes "reg_inv rest r"
  shows "ei_reg_getival (Some r) key =
      Ok (case visible (reg_view r) key of Some obj \<Rightarrow> (case val obj of Val_i i \<Rightarrow> i | _ \<Rightarrow> -1) | None \<Rightarrow> -1)" (is ?i)
    "ei_reg_getfval (Some r) key =
      Ok (case visible (reg_view r) key of Some obj \<Rightarrow> (case val obj of Val_f f \<Rightarrow> f | _ \<Rightarrow> minus_one_double) | None \<Rightarrow> minus_one_double)" (is ?f)
    "ei_reg_getsval (Some r) key =
      Ok (case visible (reg_view r) key of Some obj \<Rightarrow> (case val obj of Val_s s \<Rightarrow> s | _ \<Rightarrow> None) | None \<Rightarrow> None)" (is ?s)
    "ei_reg_getpval (Some r) key True =
      Ok (case visible (reg_view r) key of Some obj \<Rightarrow> (case val obj of Val_p p \<Rightarrow> (p, Some (osize obj)) | _ \<Rightarrow> (None, None)) | None \<Rightarrow> (None, None))" (is ?p)
proof -
  let ?o = "Option.bind key (\<lambda>key. reg_view r (cstr key))"
  have "?i \<and> ?f \<and> ?s \<and> ?p"
  proof (cases ?o)
    case None
    then show ?thesis
      by (simp add: ei_reg_getival_def ei_reg_getfval_def ei_reg_getsval_def ei_reg_getpval_def
          find_visible [OF assms] visible_eq)
  next
    case (Some obj)
    then have "obj_ok obj" using found_ok [OF assms] by blast
    then show ?thesis
      using Some
      by (cases "val obj")
        (auto simp: ei_reg_getival_def ei_reg_getfval_def ei_reg_getsval_def ei_reg_getpval_def
          find_visible [OF assms] visible_eq obj_ok_def)
  qed
  then show ?i ?f ?s ?p by blast+
qed

lemma set_s_law:
  assumes "reg_state_inv reliable rest r" "reg_pre rest (Set_s key s) r"
  shows "\<exists>c r'. as_step (ei_reg_setsval (Some r) key s) = Ok (c, r') \<and> reg_state_inv reliable rest r'
    \<and> reg_effect reliable (Set_s key s) (reg_view r) c (reg_view r')"
proof -
  let ?n = "case s of None \<Rightarrow> 0 | Some (p, cs) \<Rightarrow> int (strlen cs) + 1" and ?v = "Val_s (map_option fst s)"
  have inv: "reg_inv rest r" using assms(1) by (simp add: reg_state_inv_def)
  have "obj_ok (entry EI_STR ?v ?n)"
    by (cases s) (auto simp: obj_ok_def entry_def ei_reg_typeof_def)
  moreover have "reg_inv (payload (entry EI_STR ?v ?n) + rest) r"
    using inv assms(2) grant_payload [OF inv]
    by (cases s) (auto simp: payload_def entry_def)
  ultimately show ?thesis
    using set_law [OF assms(1), of EI_STR ?v ?n key]
    by (cases key) (simp_all add: ei_reg_setsval_def)
qed

lemma set_p_law:
  assumes "reg_state_inv reliable rest r" "reg_pre rest (Set_p key p n) r"
  shows "\<exists>c r'. as_step (ei_reg_setpval (Some r) key p n) = Ok (c, r') \<and> reg_state_inv reliable rest r'
    \<and> reg_effect reliable (Set_p key p n) (reg_view r) c (reg_view r')"
proof (cases "n < 0")
  case True
  then show ?thesis using assms(1) by (simp add: ei_reg_setpval_def as_step_def)
next
  case False
  have inv: "reg_inv rest r" using assms(1) by (simp add: reg_state_inv_def)
  have "obj_ok (entry EI_BIN (Val_p p) n)"
    using False by (simp add: obj_ok_def entry_def ei_reg_typeof_def)
  moreover have "reg_inv (payload (entry EI_BIN (Val_p p) n) + rest) r"
    using inv assms(2) grant_payload [OF inv] by (cases p) (auto simp: payload_def entry_def)
  ultimately show ?thesis
    using set_law [OF assms(1), of EI_BIN "Val_p p" n key] False by (simp add: ei_reg_setpval_def)
qed

lemma set_number_law:
  assumes "reg_state_inv reliable rest r"
  shows "\<exists>c r'. as_step (ei_reg_setival (Some r) key i) = Ok (c, r') \<and> reg_state_inv reliable rest r'
      \<and> reg_effect reliable (Set_i key i) (reg_view r) c (reg_view r')"
    "\<exists>c r'. as_step (ei_reg_setfval (Some r) key i) = Ok (c, r') \<and> reg_state_inv reliable rest r'
      \<and> reg_effect reliable (Set_f key i) (reg_view r) c (reg_view r')"
proof -
  have ok: "obj_ok (entry EI_INT (Val_i i) 0)" "obj_ok (entry EI_FLT (Val_f i) 0)"
    by (simp_all add: obj_ok_def entry_def ei_reg_typeof_def)
  have p: "reg_inv (payload (entry EI_INT (Val_i i) 0) + rest) r" "reg_inv (payload (entry EI_FLT (Val_f i) 0) + rest) r"
    using assms by (simp_all add: reg_state_inv_def payload_def entry_def)
  show "\<exists>c r'. as_step (ei_reg_setival (Some r) key i) = Ok (c, r') \<and> reg_state_inv reliable rest r'
      \<and> reg_effect reliable (Set_i key i) (reg_view r) c (reg_view r')"
    using set_law [OF assms p(1) ok(1), of key] by (simp add: ei_reg_setival_def)
  show "\<exists>c r'. as_step (ei_reg_setfval (Some r) key i) = Ok (c, r') \<and> reg_state_inv reliable rest r'
      \<and> reg_effect reliable (Set_f key i) (reg_view r) c (reg_view r')"
    using set_law [OF assms p(2) ok(2), of key] by (simp add: ei_reg_setfval_def)
qed

lemma purge_law:
  assumes "reg_state_inv reliable rest r"
  shows "\<exists>c r'. as_step (ei_reg_purge (Some r)) = Ok (c, r') \<and> reg_state_inv reliable rest r'
    \<and> reg_effect reliable Purge (reg_view r) c (reg_view r')"
proof -
  have "reg_inv rest r" using assms by (simp add: reg_state_inv_def)
  then obtain r' where "ei_reg_purge (Some r) = Ok (0, Some r')" "reg_inv rest r'" "grants (mem r') = grants (mem r)"
    "reg_view r' = (\<lambda>k. case reg_view r k of Some obj \<Rightarrow> if deleted obj then None else Some obj | None \<Rightarrow> None)"
    by (rule purge_result)
  then show ?thesis using assms by (auto simp: as_step_def reg_state_inv_def live_entries_def)
qed

lemma resize_law:
  assumes "reg_state_inv reliable rest r" "n \<le> 1048583"
  shows "\<exists>c r'. reg_step (Resize_to n) r = Some (Ok (c, r')) \<and> reg_state_inv reliable rest r'
    \<and> reg_effect reliable (Resize_to n) (reg_view r) c (reg_view r')"
proof (cases "n \<le> 0")
  case True
  then show ?thesis using assms(1) by (simp add: ei_reg_resize_def as_step_def)
next
  case False
  have "reg_inv rest r" "0 < n" using assms False by (simp_all add: reg_state_inv_def)
  then obtain c r' where "ei_reg_resize (Some r) n = Some (Ok (c, Some r'))" "reg_inv rest r'" "0 < c"
    "grants (mem r') = grants (mem r)" "reg_view r' = reg_view r"
    using assms(2) by (rule reg_resize_result)
  then show ?thesis using assms(1) False by (auto simp: as_step_def reg_state_inv_def)
qed

lemma reg_step_law:
  assumes "reg_state_inv reliable rest r" "reg_pre rest op r"
  shows "\<exists>c r'. reg_step op r = Some (Ok (c, r')) \<and> reg_state_inv reliable rest r'
    \<and> reg_effect reliable op (reg_view r) c (reg_view r')"
proof -
  have inv: "reg_inv rest r" using assms(1) by (simp add: reg_state_inv_def)
  show ?thesis
  proof (cases op)
    case (Set_i key i) then show ?thesis using set_number_law(1) [OF assms(1), of key i] by simp
  next
    case (Set_f key f) then show ?thesis using set_number_law(2) [OF assms(1), of key f] by simp
  next
    case (Set_s key s) then show ?thesis using set_s_law [OF assms(1), of key s] assms(2) by simp
  next
    case (Set_p key p n) then show ?thesis using set_p_law [OF assms(1), of key p n] assms(2) by simp
  next
    case (Get_i key) then show ?thesis using assms(1) by (simp add: reader_laws(1) [OF inv])
  next
    case (Get_f key) then show ?thesis using assms(1) by (simp add: reader_laws(2) [OF inv])
  next
    case (Get_s key) then show ?thesis using assms(1) by (simp add: reader_laws(3) [OF inv])
  next
    case (Get_p key) then show ?thesis using assms(1)
      by (simp add: reader_laws(4) [OF inv] split: option.splits reg_val.splits)
  next
    case (Delete key)
    then show ?thesis using mark_law [OF assms(1), of "EI_DELET OR EI_DIRTY" key] by (cases key) (simp_all add: ei_reg_delete_def)
  next
    case (Mark_dirty key)
    then show ?thesis using mark_law [OF assms(1), of EI_DIRTY key] by (cases key) (simp_all add: ei_reg_markdirty_def)
  next
    case Purge then show ?thesis using purge_law [OF assms(1)] by simp
  next
    case (Resize_to n) then show ?thesis using resize_law [OF assms(1), of n] assms(2) by simp
  qed
qed

interpretation registry: component "reg_state_inv reliable rest" reg_view reg_step "reg_pre rest"
  "reg_effect reliable" for reliable rest
  by unfold_locales (rule reg_step_law)

end
