(* ===== verification/Reg_Props.thy ===== *)
theory Reg_Props
  imports Ei_RegSpec
begin

text \<open>
  The properties of the hash table and of the registry, with witnesses at concrete inputs.
\<close>

section \<open>The table\<close>

text \<open>C22: \<open>ei_isprime\<close> returns for every positive number below 46339 squared, whatever the static
  variables hold, and says yes exactly for the primes and for 1.\<close>

theorem isprime_accepts_primes:
  assumes "0 < n" "n < 46339 * 46339"
  shows "\<exists>st'. ei_isprime n st = Some (Ok (n = 1 \<or> prime_int n, st'))"
  by (rule isprime_result) (use assms in \<open>simp_all add: factor_bound_def\<close>)

theorem isprime_accepts_primes_witness:
  "(\<exists>st'. ei_isprime 91 (5, 7) = Some (Ok ((91::int) = 1 \<or> prime_int 91, st')))
   \<and> ei_isprime 91 (5, 7) = Some (Ok (False, 13, 7)) \<and> ei_isprime 97 (5, 7) = Some (Ok (True, 0, 11))"
proof (intro conjI)
  show "\<exists>st'. ei_isprime 91 (5, 7) = Some (Ok ((91::int) = 1 \<or> prime_int 91, st'))"
    by (rule isprime_accepts_primes) simp_all
  show "ei_isprime 91 (5, 7) = Some (Ok (False, 13, 7))" by code_simp
  show "ei_isprime 97 (5, 7) = Some (Ok (True, 0, 11))" by code_simp
qed

text \<open>C21: For a requested size of at most 1048583 the size loop of \<open>ei_hash_newtab\<close> and
  \<open>ei_hash_resize\<close> ends at the first odd number from there that is a prime (or 1).\<close>

theorem table_size_is_next_prime:
  assumes "0 < n" "n \<le> 1048583"
  shows "\<exists>q. table_size n = Some (Ok q) \<and> n \<le> q \<and> odd q \<and> (q = 1 \<or> prime_int q)
    \<and> (\<forall>k. n \<le> k \<and> k < q \<and> odd k \<longrightarrow> k \<noteq> 1 \<and> \<not> prime_int k)"
proof -
  obtain q where q: "table_size n = Some (Ok q)" "next_prime (n OR 1) q"
    using table_size_result [OF assms] by auto
  have "odd q" "n \<le> q" using q(2) by (auto simp: next_prime_def or_one_eq split: if_splits)
  moreover have "k \<noteq> 1 \<and> \<not> prime_int k" if "n \<le> k" "k < q" "odd k" for k
  proof -
    have "n OR 1 \<le> k" "even (k - (n OR 1))" using that(1,3) by (auto simp: or_one_eq, presburger)
    then show ?thesis using q(2) that(2) by (auto simp: next_prime_def)
  qed
  ultimately show ?thesis using q by (auto simp: next_prime_def)
qed

theorem table_size_is_next_prime_witness:
  "(\<exists>q. table_size 24 = Some (Ok q) \<and> 24 \<le> q \<and> odd q \<and> (q = 1 \<or> prime_int q)
    \<and> (\<forall>k. 24 \<le> k \<and> k < q \<and> odd k \<longrightarrow> k \<noteq> 1 \<and> \<not> prime_int k)) \<and> table_size 24 = Some (Ok 29)"
proof (rule conjI)
  show "\<exists>q. table_size 24 = Some (Ok q) \<and> 24 \<le> q \<and> odd q \<and> (q = 1 \<or> prime_int q)
    \<and> (\<forall>k. 24 \<le> k \<and> k < q \<and> odd k \<longrightarrow> k \<noteq> 1 \<and> \<not> prime_int k)"
    by (rule table_size_is_next_prime) simp_all
  show "table_size 24 = Some (Ok 29)" by code_simp
qed

text \<open>The hash value of any string stays below 2 to the 28, also with characters that are
  negative as \<open>char\<close>, so as an \<open>int\<close> it is not negative and the position computed from it is in
  the table.\<close>

theorem hash_position_in_table:
  assumes "ts \<noteq> []"
  shows "0 \<le> sint (ei_dohash key) \<and> sint (ei_dohash key) < 0x10000000
    \<and> (\<exists>i<length ts. slot ts (ei_dohash key) = Ok i)"
proof -
  have "sint (ei_dohash key) < 0x10000000" using dohash_bound [of key] sint_dohash [of key] by simp
  then show ?thesis using slot_dohash [OF assms, of key] home_less [OF assms, of key] sint_dohash [of key] by auto
qed

theorem hash_position_in_table_witness:
  "0 \<le> sint (ei_dohash [0xFF, 0xE5, 0x41]) \<and> sint (ei_dohash [0xFF, 0xE5, 0x41]) < 0x10000000
    \<and> (\<exists>i<length [[], [], [] :: ei_bucket list]. slot [[], [], []] (ei_dohash [0xFF, 0xE5, 0x41]) = Ok i)"
  by (rule hash_position_in_table) simp

text \<open>C6: From a new table every sequence of lookups, insertions, removals and resizings returns,
  without an access outside the table or a wrong release of memory, with the results of a finite
  map; an insertion can be lost only when an allocation fails. The invariant of the table holds
  afterwards and the blocks of the caller stay allocated.\<close>

theorem hash_table_refines:
  assumes "owns h kept" "0 < n" "n \<le> 1048583" "reliable \<longrightarrow> (\<forall>k sz. grants h k sz)"
    "ei_hash_newtab n h = Some (Ok (Some t, h1))" "admissible table_step table_pre ops (t, h1)"
  shows "\<exists>rs t' h'. run_calls table_step ops (t, h1) = Some (Ok (rs, t', h'))
    \<and> specified (map_effect reliable) ops Map.empty rs (tab_map t') \<and> hash_inv t' \<and> owns h' (blocks t' @ kept)"
proof -
  have "table_inv reliable kept (t, h1)" "tab_map t = Map.empty"
    using assms(2,3,1) by (cases rule: newtab_result; use assms(4,5) in \<open>auto simp: table_inv_def\<close>)+
  then show ?thesis
    using table.runs [of reliable kept "(t, h1)" ops] assms(6) by (auto simp: table_inv_def)
qed

definition small_heap :: "(nat \<Rightarrow> bool) \<Rightarrow> heap" where
  "small_heap g = \<lparr>brk = 3, grants = (\<lambda>n sz. g n), live = {0, 1, 2}\<rparr>"

definition table_calls :: "table_call list" where
  "table_calls = [Insert [65] (Some 0), Insert [66] (Some 1), Lookup [65], Resize 7, Remove [66], Lookup [66]]"

lemma small_heap_owns: "owns (small_heap g) []" "owns (small_heap g) [2]" "owns (small_heap g) [0, 2]"
  by (auto simp: owns_def heap_ok_def small_heap_def)

theorem hash_table_refines_witness:
  "\<exists>t h1. ei_hash_newtab 3 (small_heap (\<lambda>_. True)) = Some (Ok (Some t, h1))
    \<and> (\<exists>rs t' h'. run_calls table_step table_calls (t, h1) = Some (Ok (rs, t', h'))
        \<and> specified (map_effect True) table_calls Map.empty rs (tab_map t') \<and> hash_inv t' \<and> owns h' (blocks t' @ [2]))"
proof -
  let ?h = "small_heap (\<lambda>_. True)"
  let ?t = "\<lparr>taddr = 3, tab = [[], [], []], nelem = 0, npos = 0, hfreelist = []\<rparr>"
  let ?h1 = "?h\<lparr>brk := 4, live := insert 3 (live ?h)\<rparr>"
  have s: "table_size 3 = Some (Ok 3)" by code_simp
  have t: "ei_hash_newtab 3 ?h = Some (Ok (Some ?t, ?h1))"
    by (simp add: ei_hash_newtab_def s malloc_def small_heap_def eval_nat_numeral)
  have "admissible table_step table_pre table_calls (?t, ?h1)"
    by (rule admissible_always) (auto simp: table_calls_def)
  then show ?thesis
    using hash_table_refines [OF small_heap_owns(2), of 3 True "\<lambda>_. True" ?t ?h1 table_calls] t
    by (auto simp: small_heap_def)
qed

text \<open>C23: Reverse lookup returns a key under which the value is stored whenever there is one, and a
  traversal whose callback returns 0 calls it once for every stored pair.\<close>

theorem traversal_reaches_all:
  assumes "hash_inv t" "\<And>k v s. fst (f k v s) = 0"
  shows "(case ei_hash_rlookup t w of Some k \<Rightarrow> tab_map t k = Some w | None \<Rightarrow> w \<notin> ran (tab_map t))
    \<and> (\<exists>es. distinct (map fst es) \<and> map_of es = tab_map t
          \<and> ei_hash_foreach t (Some f) s = (0, fold (\<lambda>(k, v) s. snd (f k v s)) es s))"
proof -
  have "distinct (map fst (entries (concat (tab t))))" "map_of (entries (concat (tab t))) = tab_map t"
    using assms(1) by (auto simp: hash_inv_def tab_map_def)
  then show ?thesis using rlookup_result [OF assms(1), of w] foreach_all [of f t s, OF assms(2)] by blast
qed

definition two_keys :: ei_hash where
  "two_keys = \<lparr>taddr = 3,
     tab = [[\<lparr>baddr = 4, rawhash = 66, bkey = [66], in_keybuf = True, bvalue = Some 1\<rparr>], [],
            [\<lparr>baddr = 5, rawhash = 65, bkey = [65], in_keybuf = True, bvalue = Some 0\<rparr>]],
     nelem = 2, npos = 2, hfreelist = []\<rparr>"

lemma two_keys_inv: "hash_inv two_keys"
proof -
  have h: "ei_dohash [66] = 66" "ei_dohash [65] = 65" by code_simp+
  have u: "unat (66 :: 32 word) = 66" "unat (65 :: 32 word) = 65" by simp_all
  have "\<forall>i<3. \<forall>b\<in>set (tab two_keys ! i). bucket_ok b \<and> home (tab two_keys) (bkey b) = i"
    unfolding numeral_3_eq_3 All_less_Suc
    by (simp add: two_keys_def bucket_ok_def cstr_def home_def h u)
  moreover have len: "length (tab two_keys) = 3" by (simp add: two_keys_def)
  ultimately have "placed (tab two_keys)" unfolding placed_def len by blast
  then show ?thesis by (simp add: hash_inv_def two_keys_def occupied_def)
qed

theorem traversal_reaches_all_witness:
  "(case ei_hash_rlookup two_keys (Some 1) of Some k \<Rightarrow> tab_map two_keys k = Some (Some 1)
      | None \<Rightarrow> Some 1 \<notin> ran (tab_map two_keys))
    \<and> (\<exists>es. distinct (map fst es) \<and> map_of es = tab_map two_keys
          \<and> ei_hash_foreach two_keys (Some (\<lambda>k v n. (0, Suc n))) 0 = (0, fold (\<lambda>(k, v) n. snd (0 :: int, Suc n)) es 0))"
  by (rule traversal_reaches_all [OF two_keys_inv]) simp

section \<open>The registry\<close>

lemma opened:
  assumes "owns h kept" "n \<le> 1048583" "ei_reg_open n store h = Some (Ok (Some r, h1))"
  shows "reg_inv (mset kept) r" "reg_view r = Map.empty" "mem r = h1" "grants (mem r) = grants h"
proof -
  have "ownm h (mset kept)" using assms(1) by simp
  from this assms(2) show "reg_inv (mset kept) r" "reg_view r = Map.empty" "mem r = h1" "grants (mem r) = grants h"
    by (cases rule: reg_open_result [where store = store]; use assms(3) in auto)+
qed

lemma registry_runs:
  assumes "owns h kept" "n \<le> 1048583" "reliable \<longrightarrow> (\<forall>k sz. grants h k sz)"
    "ei_reg_open n store h = Some (Ok (Some r, h1))" "admissible reg_step (reg_pre (mset kept)) ops r"
  obtains rs r' where "run_calls reg_step ops r = Some (Ok (rs, r'))" "reg_inv (mset kept) r'"
    "specified (reg_effect reliable) ops Map.empty rs (reg_view r')"
proof -
  note o = opened [OF assms(1,2,4)]
  have "reg_state_inv reliable (mset kept) r" using o assms(3) by (simp add: reg_state_inv_def)
  from registry.runs [OF this assms(5)] show thesis using that o(2) by (auto simp: reg_state_inv_def)
qed

text \<open>C5: A registry that is opened, used by any sequence of calls and closed: every call returns
  without a double release, a read of the wrong union member or an access outside the table;
  closing releases exactly the blocks the registry owns, and the caller's blocks stay allocated.\<close>

theorem registry_lifecycle:
  assumes "owns h kept" "n \<le> 1048583" "ei_reg_open n store h = Some (Ok (Some r, h1))"
    "admissible reg_step (reg_pre (mset kept)) ops r"
  shows "\<exists>rs r' h'. run_calls reg_step ops r = Some (Ok (rs, r')) \<and> ei_reg_close (Some r') = Ok (0, Some h')
    \<and> live h' = live (mem r') - set_mset (own r') \<and> owns h' kept"
proof -
  obtain rs r' where run: "run_calls reg_step ops r = Some (Ok (rs, r'))" "reg_inv (mset kept) r'"
    using registry_runs [OF assms(1,2) _ assms(3,4), of False] by blast
  obtain h' where "ei_reg_close (Some r') = Ok (0, Some h')" "live h' = live (mem r') - set_mset (own r')" "ownm h' (mset kept)"
    by (rule close_result [OF run(2)])
  then show ?thesis using run(1) by auto
qed

text \<open>C3: The results of every sequence of calls and the contents afterwards are those of a map
  from keys to typed objects; a set call is without effect only when an allocation fails.\<close>

theorem registry_refines_map:
  assumes "owns h kept" "n \<le> 1048583" "reliable \<longrightarrow> (\<forall>k sz. grants h k sz)"
    "ei_reg_open n store h = Some (Ok (Some r, h1))" "admissible reg_step (reg_pre (mset kept)) ops r"
  shows "\<exists>rs r'. run_calls reg_step ops r = Some (Ok (rs, r'))
    \<and> specified (reg_effect reliable) ops Map.empty rs (reg_view r')"
  by (rule registry_runs [OF assms]) blast

lemma occupied_bounds:
  "0 \<le> occupied ts" "occupied ts \<le> int (length ts)"
  "occupied ts \<le> int (length (concat ts)) \<and> (occupied ts = 0 \<longleftrightarrow> concat ts = [])"
proof -
  show "0 \<le> occupied ts" "occupied ts \<le> int (length ts)" by (simp_all add: occupied_def)
  show "occupied ts \<le> int (length (concat ts)) \<and> (occupied ts = 0 \<longleftrightarrow> concat ts = [])"
  proof (induction ts)
    case (Cons c ts)
    then show ?case by (cases c) (auto simp: occupied_def)
  qed (simp add: occupied_def)
qed

text \<open>C18: After every sequence of calls the statistics are exact: the number of elements is the
  number of keys, the number of occupied positions is the number of different remainders of the hash
  values of the keys by the size of the table, and the number of collisions is the difference.\<close>

theorem registry_statistics:
  assumes "owns h kept" "n \<le> 1048583" "ei_reg_open n store h = Some (Ok (Some r, h1))"
    "admissible reg_step (reg_pre (mset kept)) ops r"
  shows "\<exists>rs r' st. run_calls reg_step ops r = Some (Ok (rs, r')) \<and> ei_reg_tabstat (Some r') True = (0, Some st)
    \<and> st_size st = int (length (tab (rtab r'))) \<and> 0 < st_size st
    \<and> st_nelem st = int (card (dom (reg_view r')))
    \<and> st_npos st = int (card ((\<lambda>k. unat (ei_dohash k) mod nat (st_size st)) ` dom (reg_view r')))
    \<and> st_collisions st = st_nelem st - st_npos st \<and> 0 \<le> st_collisions st"
proof -
  obtain rs r' where run: "run_calls reg_step ops r = Some (Ok (rs, r'))" and inv: "reg_inv (mset kept) r'"
    using registry_runs [OF assms(1,2) _ assms(3,4), of False] by blast
  then have t: "hash_inv (rtab r')" by (simp add: reg_inv_def)
  have d: "dom (reg_view r') = dom (tab_map (rtab r'))" using view_None [OF inv] unfolding dom_def by simp
  have k: "dom (tab_map (rtab r')) = bkey ` set (concat (tab (rtab r')))"
    by (simp add: tab_map_def dom_map_of_conv_image_fst image_image)
  have "card (dom (tab_map (rtab r'))) = length (concat (tab (rtab r')))"
    using t distinct_card [of "map bkey (concat (tab (rtab r')))"] by (simp add: k hash_inv_def)
  moreover have "occupied (tab (rtab r')) = int (card ((\<lambda>k. unat (ei_dohash k) mod length (tab (rtab r'))) ` dom (reg_view r')))"
    using occupied_positions [of "tab (rtab r')"] t by (simp add: hash_inv_def d k home_def)
  ultimately show ?thesis
    using run t occupied_bounds(3) [of "tab (rtab r')"] d
    by (auto simp: ei_reg_tabstat_def hash_inv_def simp del: length_concat)
qed

definition has_type :: "reg_val \<Rightarrow> 32 word \<Rightarrow> bool" where
  "has_type v c = (case v of Val_i _ \<Rightarrow> c = EI_INT | Val_f _ \<Rightarrow> c = EI_FLT | Val_s _ \<Rightarrow> c = EI_STR | Val_p _ \<Rightarrow> c = EI_BIN)"

text \<open>C19: After every sequence of calls the general reader \<open>ei_reg_getval\<close> never reads a wrong member
  of the union: what it stores has the type that it returns, which is the requested one if one was
  requested.\<close>

theorem registry_well_typed:
  assumes "owns h kept" "n \<le> 1048583" "ei_reg_open n store h = Some (Ok (Some r, h1))"
    "admissible reg_step (reg_pre (mset kept)) ops r"
  shows "\<exists>rs r'. run_calls reg_step ops r = Some (Ok (rs, r'))
    \<and> (\<forall>key flags want want_size. \<exists>c v k. ei_reg_getval (Some r') key flags want want_size = Ok (c, v, k)
          \<and> (case v of None \<Rightarrow> True | Some w \<Rightarrow> has_type w c \<and> (flags = 0 \<or> flags = c)))"
proof -
  obtain rs r' where run: "run_calls reg_step ops r = Some (Ok (rs, r'))" and inv: "reg_inv (mset kept) r'"
    using registry_runs [OF assms(1,2) _ assms(3,4), of False] by blast
  have "\<exists>c v k. ei_reg_getval (Some r') key flags want want_size = Ok (c, v, k)
      \<and> (case v of None \<Rightarrow> True | Some w \<Rightarrow> has_type w c \<and> (flags = 0 \<or> flags = c))" for key flags want want_size
  proof (cases "Option.bind key (\<lambda>key. reg_view r' (cstr key))")
    case None
    then show ?thesis by (simp add: ei_reg_getval_def find_visible [OF inv])
  next
    case (Some obj)
    then have "obj_ok obj" using found_ok [OF inv] by blast
    then show ?thesis
      using Some
      by (cases "val obj") (auto simp: ei_reg_getval_def find_visible [OF inv] obj_ok_def has_type_def)
  qed
  then show ?thesis using run by blast
qed

text \<open>The call, the type, the value and the size that belong to the arguments of \<open>ei_reg_setval\<close>.\<close>

primrec arg_call :: "byte list option \<Rightarrow> reg_arg \<Rightarrow> reg_call" where
  "arg_call key (Arg_i i) = Set_i key i"
| "arg_call key (Arg_f f) = Set_f key f"
| "arg_call key (Arg_s s) = Set_s key s"
| "arg_call key (Arg_p p n) = Set_p key p n"

primrec arg_type :: "reg_arg \<Rightarrow> 32 word" where
  "arg_type (Arg_i i) = EI_INT"
| "arg_type (Arg_f f) = EI_FLT"
| "arg_type (Arg_s s) = EI_STR"
| "arg_type (Arg_p p n) = EI_BIN"

primrec arg_value :: "reg_arg \<Rightarrow> reg_val" where
  "arg_value (Arg_i i) = Val_i i"
| "arg_value (Arg_f f) = Val_f f"
| "arg_value (Arg_s s) = Val_s (map_option fst s)"
| "arg_value (Arg_p p n) = Val_p p"

primrec arg_size :: "reg_arg \<Rightarrow> int" where
  "arg_size (Arg_i i) = 0"
| "arg_size (Arg_f f) = 0"
| "arg_size (Arg_s s) = (case s of None \<Rightarrow> 0 | Some (p, cs) \<Rightarrow> int (strlen cs) + 1)"
| "arg_size (Arg_p p n) = n"

lemma setval_step:
  assumes "reg_state_inv True rest r" "reg_pre rest (arg_call (Some key) ap) r" "0 \<le> arg_size ap"
  obtains r' where "ei_reg_setval (Some r) (Some key) (arg_type ap) ap = Ok (0, Some r')" "reg_inv rest r'"
    "reg_view r' = (reg_view r)(cstr key \<mapsto> entry (arg_type ap) (arg_value ap) (arg_size ap))"
proof -
  obtain c r' where r': "reg_step (arg_call (Some key) ap) r = Some (Ok (c, r'))" "reg_state_inv True rest r'"
    "reg_effect True (arg_call (Some key) ap) (reg_view r) c (reg_view r')"
    using reg_step_law [OF assms(1,2)] by blast
  show thesis
    by (rule that [of r']; cases ap)
      (use r' assms(3) in \<open>auto simp: ei_reg_setval_def as_step_def bindr_eq_Ok set_effect_def reg_state_inv_def
        split: option.splits\<close>)
qed

lemma getval_entry:
  assumes "reg_inv rest r" "reg_view r (cstr key) = Some (entry (arg_type ap) (arg_value ap) n)" "flags = 0 \<or> flags = arg_type ap"
  shows "ei_reg_getval (Some r) (Some key) flags True w =
    Ok (arg_type ap, Some (arg_value ap), case ap of Arg_p _ _ \<Rightarrow> if w then Some n else None | _ \<Rightarrow> None)"
  using assms(2,3)
  by (cases ap) (auto simp: ei_reg_getval_def find_visible [OF assms(1)] deleted_def entry_def ei_reg_typeof_def)

text \<open>C20: In every state of a registry, with an allocator that does not fail, a value of any of the four
  types that is set with the general \<open>ei_reg_setval\<close> is returned by \<open>ei_reg_getval\<close> with its type, and
  with its size if it is a binary object, whether that type or any type is asked for.\<close>

theorem setval_getval:
  assumes "owns h kept" "n \<le> 1048583" "\<forall>k sz. grants h k sz" "ei_reg_open n store h = Some (Ok (Some r, h1))"
    "admissible reg_step (reg_pre (mset kept)) ops r"
  shows "\<exists>rs r'. run_calls reg_step ops r = Some (Ok (rs, r'))
    \<and> (\<forall>key ap. reg_pre (mset kept) (arg_call (Some key) ap) r' \<and> 0 \<le> arg_size ap \<longrightarrow>
         (\<exists>r''. ei_reg_setval (Some r') (Some key) (arg_type ap) ap = Ok (0, Some r'')
           \<and> (\<forall>flags \<in> {0, arg_type ap}. \<forall>w. ei_reg_getval (Some r'') (Some key) flags True w =
                Ok (arg_type ap, Some (arg_value ap), case ap of Arg_p _ k \<Rightarrow> if w then Some k else None | _ \<Rightarrow> None))))"
proof -
  have "reg_state_inv True (mset kept) r"
    using opened [OF assms(1,2,4)] assms(3) by (simp add: reg_state_inv_def)
  from registry.runs [OF this assms(5)] obtain rs r' where
    run: "run_calls reg_step ops r = Some (Ok (rs, r'))" and inv: "reg_state_inv True (mset kept) r'" by blast
  have "\<exists>r''. ei_reg_setval (Some r') (Some key) (arg_type ap) ap = Ok (0, Some r'')
      \<and> (\<forall>flags \<in> {0, arg_type ap}. \<forall>w. ei_reg_getval (Some r'') (Some key) flags True w =
           Ok (arg_type ap, Some (arg_value ap), case ap of Arg_p _ k \<Rightarrow> if w then Some k else None | _ \<Rightarrow> None))"
    if set: "reg_pre (mset kept) (arg_call (Some key) ap) r'" "0 \<le> arg_size ap" for key ap
  proof -
    obtain r'' where r'': "ei_reg_setval (Some r') (Some key) (arg_type ap) ap = Ok (0, Some r'')" "reg_inv (mset kept) r''"
      "reg_view r'' = (reg_view r')(cstr key \<mapsto> entry (arg_type ap) (arg_value ap) (arg_size ap))"
      by (rule setval_step [OF inv set])
    have "ei_reg_getval (Some r'') (Some key) flags True w =
        Ok (arg_type ap, Some (arg_value ap), case ap of Arg_p _ k \<Rightarrow> if w then Some k else None | _ \<Rightarrow> None)"
      if "flags \<in> {0, arg_type ap}" for flags w
      using getval_entry [OF r''(2), of key ap "arg_size ap" flags w] r''(3) that
      by (auto split: reg_arg.split)
    then show ?thesis using r''(1) by blast
  qed
  then show ?thesis using run by blast
qed

text \<open>A registry with three positions on a heap where the caller has the blocks 0, 1 and 2, and a
  sequence of calls that hands over block 0.\<close>

definition small_registry :: "(nat \<Rightarrow> bool) \<Rightarrow> ei_reg" where
  "small_registry g =
     \<lparr>raddr = 3, rfreelist = [],
      rtab = \<lparr>taddr = 4, tab = [[], [], []], nelem = 0, npos = 0, hfreelist = []\<rparr>,
      objs = (\<lambda>_. entry EI_INT (Val_i 0) 0),
      mem = (small_heap g)\<lparr>brk := 5, live := {4, 3, 0, 1, 2}\<rparr>\<rparr>"

definition some_calls :: "reg_call list" where
  "some_calls = [Set_s (Some [65]) (Some (0, [72, 105])), Set_i (Some [66]) 7, Get_i (Some [66]),
     Delete (Some [65]), Get_s (Some [65]), Purge, Resize_to 7, Get_i (Some [66])]"

lemma small_registry_opens:
  assumes "g 3" "g 4"
  shows "ei_reg_open 3 (\<lambda>_. entry EI_INT (Val_i 0) 0) (small_heap g) = Some (Ok (Some (small_registry g), mem (small_registry g)))"
proof -
  have "table_size 3 = Some (Ok 3)" by code_simp
  then show ?thesis
    using assms
    by (simp add: ei_reg_open_def ei_hash_newtab_def malloc_def small_heap_def small_registry_def eval_nat_numeral)
qed

lemma some_calls_admissible: "admissible reg_step (reg_pre (mset [2])) some_calls (small_registry g)"
  unfolding some_calls_def
proof (rule admissible_first)
  have "tab_map (rtab (small_registry g)) = Map.empty" by (simp add: tab_map_def small_registry_def)
  then have "own (small_registry g) = {#3, 4#}"
    by (simp add: own_def objsm_def) (simp add: small_registry_def blocks_def)
  then show "reg_pre (mset [2]) (Set_s (Some [65]) (Some (0, [72, 105]))) (small_registry g)"
    by simp (simp add: small_registry_def)
qed auto

theorem registry_lifecycle_witness:
  "\<exists>rs r' h'. run_calls reg_step some_calls (small_registry (\<lambda>n. n < 6)) = Some (Ok (rs, r'))
    \<and> ei_reg_close (Some r') = Ok (0, Some h')
    \<and> live h' = live (mem r') - set_mset (own r') \<and> owns h' [2]"
  by (rule registry_lifecycle [OF small_heap_owns(2) _ small_registry_opens some_calls_admissible]) simp_all

theorem registry_refines_map_witness:
  "\<exists>rs r'. run_calls reg_step some_calls (small_registry (\<lambda>_. True)) = Some (Ok (rs, r'))
    \<and> specified (reg_effect True) some_calls Map.empty rs (reg_view r')"
  by (rule registry_refines_map [OF small_heap_owns(2) _ _ small_registry_opens some_calls_admissible])
    (simp_all add: small_heap_def)

theorem registry_statistics_witness:
  "\<exists>rs r' st. run_calls reg_step some_calls (small_registry (\<lambda>n. n < 6)) = Some (Ok (rs, r'))
    \<and> ei_reg_tabstat (Some r') True = (0, Some st)
    \<and> st_size st = int (length (tab (rtab r'))) \<and> 0 < st_size st
    \<and> st_nelem st = int (card (dom (reg_view r')))
    \<and> st_npos st = int (card ((\<lambda>k. unat (ei_dohash k) mod nat (st_size st)) ` dom (reg_view r')))
    \<and> st_collisions st = st_nelem st - st_npos st \<and> 0 \<le> st_collisions st"
  by (rule registry_statistics [OF small_heap_owns(2) _ small_registry_opens some_calls_admissible]) simp_all

theorem registry_well_typed_witness:
  "\<exists>rs r'. run_calls reg_step some_calls (small_registry (\<lambda>n. n < 6)) = Some (Ok (rs, r'))
    \<and> (\<forall>key flags want want_size. \<exists>c v k. ei_reg_getval (Some r') key flags want want_size = Ok (c, v, k)
          \<and> (case v of None \<Rightarrow> True | Some w \<Rightarrow> has_type w c \<and> (flags = 0 \<or> flags = c)))"
  by (rule registry_well_typed [OF small_heap_owns(2) _ small_registry_opens some_calls_admissible]) simp_all

theorem setval_getval_witness:
  "\<exists>rs r'. run_calls reg_step some_calls (small_registry (\<lambda>_. True)) = Some (Ok (rs, r'))
    \<and> (\<exists>r''. ei_reg_setval (Some r') (Some [67]) EI_FLT (Arg_f 5) = Ok (0, Some r'')
          \<and> ei_reg_getval (Some r'') (Some [67]) 0 True True = Ok (EI_FLT, Some (Val_f 5), None))
    \<and> (\<exists>r''. ei_reg_setval (Some r') (Some [67]) EI_BIN (Arg_p None 3) = Ok (0, Some r'')
          \<and> ei_reg_getval (Some r'') (Some [67]) EI_BIN True True = Ok (EI_BIN, Some (Val_p None), Some 3))"
proof -
  let ?r = "small_registry (\<lambda>_. True)"
  from setval_getval [OF small_heap_owns(2) _ _ small_registry_opens some_calls_admissible, of "\<lambda>_. True"] obtain rs r'
    where run: "run_calls reg_step some_calls ?r = Some (Ok (rs, r'))"
      and get: "\<forall>key ap. reg_pre (mset [2]) (arg_call (Some key) ap) r' \<and> 0 \<le> arg_size ap \<longrightarrow>
         (\<exists>r''. ei_reg_setval (Some r') (Some key) (arg_type ap) ap = Ok (0, Some r'')
           \<and> (\<forall>flags \<in> {0, arg_type ap}. \<forall>w. ei_reg_getval (Some r'') (Some key) flags True w =
                Ok (arg_type ap, Some (arg_value ap), case ap of Arg_p _ k \<Rightarrow> if w then Some k else None | _ \<Rightarrow> None)))"
    by (auto simp: small_heap_def)
  from get [THEN spec, THEN spec, of "[67]" "Arg_f 5"] get [THEN spec, THEN spec, of "[67]" "Arg_p None 3"] run
  show ?thesis by (intro exI [of _ rs] exI [of _ r']) fastforce
qed

section \<open>Two defects\<close>

lemma returns_some:
  "(case m of Ok (c, Some r) \<Rightarrow> P c r | _ \<Rightarrow> False) \<longleftrightarrow> (\<exists>c r. m = Ok (c, Some r) \<and> P c r)"
  by (auto split: res.splits option.splits)

text \<open>C24: In every state of a registry, when there is memory for the object of a new key but not for its
  bucket, the set function reports success, the registry is as before, and the object is not
  released when the registry is closed.\<close>

theorem set_reports_lost_value:
  assumes "owns h kept" "n \<le> 1048583" "ei_reg_open n store h = Some (Ok (Some r, h1))"
    "admissible reg_step (reg_pre (mset kept)) ops r"
  shows "\<exists>rs r'. run_calls reg_step ops r = Some (Ok (rs, r'))
    \<and> (\<forall>key i a r1 t k. reg_view r' (cstr key) = None \<and> ei_reg_make r' EI_INT = (Some a, r1)
          \<and> new_bucket (rtab r1) key (mem r1) = (None, t, k) \<longrightarrow>
        (\<exists>r'' h'. ei_reg_setival (Some r') (Some key) i = Ok (0, Some r'') \<and> reg_view r'' = reg_view r'
          \<and> ei_reg_getival (Some r'') (Some key) = Ok (-1)
          \<and> ei_reg_close (Some r'') = Ok (0, Some h') \<and> a \<in> live h' \<and> a \<notin> set kept))"
proof -
  obtain rs r' where run: "run_calls reg_step ops r = Some (Ok (rs, r'))" and inv: "reg_inv (mset kept) r'"
    using registry_runs [OF assms(1,2) _ assms(3,4), of False] by blast
  have "\<exists>r'' h'. ei_reg_setival (Some r') (Some key) i = Ok (0, Some r'') \<and> reg_view r'' = reg_view r'
      \<and> ei_reg_getival (Some r'') (Some key) = Ok (-1)
      \<and> ei_reg_close (Some r'') = Ok (0, Some h') \<and> a \<in> live h' \<and> a \<notin> set kept"
    if l: "reg_view r' (cstr key) = None" "ei_reg_make r' EI_INT = (Some a, r1)"
      "new_bucket (rtab r1) key (mem r1) = (None, t, k)" for key i a r1 t k
  proof -
    let ?obj = "\<lparr>attr = EI_INT OR EI_DIRTY, osize = 0, val = Val_i i\<rparr>"
    have "reg_inv (payload ?obj + mset kept) r'" using inv by (simp add: payload_def)
    from set_value_lost [OF this refl l] obtain r'' where
      r'': "ei_reg_setival (Some r') (Some key) i = Ok (0, Some r'')" "reg_inv (mset kept) r''" "reg_view r'' = reg_view r'"
        "a \<in> live (mem r'')" "a \<notin># own r'' + mset kept"
      by (auto simp: ei_reg_setival_def)
    obtain h' where h': "ei_reg_close (Some r'') = Ok (0, Some h')" "live h' = live (mem r'') - set_mset (own r'')"
      by (rule close_result [OF r''(2)])
    have "ei_reg_getival (Some r'') (Some key) = Ok (-1)"
      using l(1) r''(3) by (simp add: reader_laws(1) [OF r''(2)] visible_eq)
    then show ?thesis using r'' h' by auto
  qed
  then show ?thesis using run by blast
qed

theorem set_reports_lost_value_witness:
  "\<exists>r'' h'. ei_reg_setival (Some (small_registry (\<lambda>n. n < 6))) (Some [65]) 7 = Ok (0, Some r'')
    \<and> ei_reg_getival (Some r'') (Some [65]) = Ok (-1)
    \<and> ei_reg_close (Some r'') = Ok (0, Some h') \<and> 5 \<in> live h'"
proof -
  let ?r = "small_registry (\<lambda>n. n < 6)"
  have "admissible reg_step (reg_pre (mset [2])) [] ?r" by simp
  from set_reports_lost_value [OF small_heap_owns(2) _ small_registry_opens this]
  have lost: "\<forall>key i a r1 t k. reg_view ?r (cstr key) = None \<and> ei_reg_make ?r EI_INT = (Some a, r1)
          \<and> new_bucket (rtab r1) key (mem r1) = (None, t, k) \<longrightarrow>
        (\<exists>r'' h'. ei_reg_setival (Some ?r) (Some key) i = Ok (0, Some r'') \<and> reg_view r'' = reg_view ?r
          \<and> ei_reg_getival (Some r'') (Some key) = Ok (-1)
          \<and> ei_reg_close (Some r'') = Ok (0, Some h') \<and> a \<in> live h' \<and> a \<notin> set [2])"
    by simp
  have v: "reg_view ?r (cstr [65]) = None" by (simp add: reg_view_def tab_map_def small_registry_def)
  obtain r1 where m: "ei_reg_make ?r EI_INT = (Some 5, r1)" "rtab r1 = rtab ?r" "brk (mem r1) = 6" "grants (mem r1) = (\<lambda>n sz. n < 6)"
    by (simp add: ei_reg_make_def malloc_def small_registry_def small_heap_def)
  obtain t k where "new_bucket (rtab r1) [65] (mem r1) = (None, t, k)"
    using m(2-4) by (simp add: new_bucket_def ei_hash_bmalloc_def malloc_def small_registry_def strlen_def Let_def)
  with lost [rule_format, of "[65]" 5 r1 t k 7] v m(1) show ?thesis by blast
qed

text \<open>A block that is stored with size 0 is not released when the key is set to another value, nor
  when the registry is closed.\<close>

theorem empty_block_leaks:
  "\<exists>r1 r2. ei_reg_setpval (Some (small_registry (\<lambda>_. True))) (Some [65]) (Some 0) 0 = Ok (0, Some r1)
    \<and> ei_reg_setival (Some r1) (Some [65]) 7 = Ok (0, Some r2)
    \<and> (\<exists>h'. ei_reg_close (Some r2) = Ok (0, Some h') \<and> live h' = {0, 1, 2})"
proof -
  have "(case ei_reg_setpval (Some (small_registry (\<lambda>_. True))) (Some [65]) (Some 0) 0 of
      Ok (c, Some r1) \<Rightarrow> c = 0 \<and>
        (case ei_reg_setival (Some r1) (Some [65]) 7 of
          Ok (c, Some r2) \<Rightarrow> c = 0 \<and>
            (case ei_reg_close (Some r2) of Ok (c, Some h') \<Rightarrow> c = 0 \<and> live h' = {0, 1, 2} | _ \<Rightarrow> False)
        | _ \<Rightarrow> False)
    | _ \<Rightarrow> False)"
    by code_simp
  then show ?thesis unfolding returns_some by blast
qed

end
