(* ===== verification/Ei_Md5.thy ===== *)
theory Ei_Md5
  imports Prelude
begin

text \<open>
  The message digest of the connection handshake: \<^verbatim>\<open>misc/eimd5.c\<close>, an implementation of MD5 that is
  fed piece by piece.

  \<open>MD5Transform\<close> reads its block at an offset of the input. The
  counters are \<open>unsigned int\<close>, so the loop of \<open>ei_MD5Update\<close> can wrap around and is a partial function.
\<close>

section \<open>Transformation of one block\<close>

type_synonym md5_state = "32 word \<times> 32 word \<times> 32 word \<times> 32 word"

abbreviation S11 :: nat where "S11 \<equiv> 7"
abbreviation S12 :: nat where "S12 \<equiv> 12"
abbreviation S13 :: nat where "S13 \<equiv> 17"
abbreviation S14 :: nat where "S14 \<equiv> 22"
abbreviation S21 :: nat where "S21 \<equiv> 5"
abbreviation S22 :: nat where "S22 \<equiv> 9"
abbreviation S23 :: nat where "S23 \<equiv> 14"
abbreviation S24 :: nat where "S24 \<equiv> 20"
abbreviation S31 :: nat where "S31 \<equiv> 4"
abbreviation S32 :: nat where "S32 \<equiv> 11"
abbreviation S33 :: nat where "S33 \<equiv> 16"
abbreviation S34 :: nat where "S34 \<equiv> 23"
abbreviation S41 :: nat where "S41 \<equiv> 6"
abbreviation S42 :: nat where "S42 \<equiv> 10"
abbreviation S43 :: nat where "S43 \<equiv> 15"
abbreviation S44 :: nat where "S44 \<equiv> 21"

definition md5_F :: "32 word \<Rightarrow> 32 word \<Rightarrow> 32 word \<Rightarrow> 32 word" where
  "md5_F x y z = (x AND y) OR (NOT x AND z)"

definition md5_G :: "32 word \<Rightarrow> 32 word \<Rightarrow> 32 word \<Rightarrow> 32 word" where
  "md5_G x y z = (x AND z) OR (y AND NOT z)"

definition md5_H :: "32 word \<Rightarrow> 32 word \<Rightarrow> 32 word \<Rightarrow> 32 word" where
  "md5_H x y z = x XOR y XOR z"

definition md5_I :: "32 word \<Rightarrow> 32 word \<Rightarrow> 32 word \<Rightarrow> 32 word" where
  "md5_I x y z = y XOR (x OR NOT z)"

definition ROTATE_LEFT :: "32 word \<Rightarrow> nat \<Rightarrow> 32 word" where
  "ROTATE_LEFT x n = push_bit n x OR drop_bit (32 - n) x"

definition FF :: "32 word \<Rightarrow> 32 word \<Rightarrow> 32 word \<Rightarrow> 32 word \<Rightarrow> 32 word \<Rightarrow> nat \<Rightarrow> 32 word \<Rightarrow> 32 word" where
  "FF a b c d x s ac = ROTATE_LEFT (a + (md5_F b c d + x + ac)) s + b"

definition GG :: "32 word \<Rightarrow> 32 word \<Rightarrow> 32 word \<Rightarrow> 32 word \<Rightarrow> 32 word \<Rightarrow> nat \<Rightarrow> 32 word \<Rightarrow> 32 word" where
  "GG a b c d x s ac = ROTATE_LEFT (a + (md5_G b c d + x + ac)) s + b"

definition HH :: "32 word \<Rightarrow> 32 word \<Rightarrow> 32 word \<Rightarrow> 32 word \<Rightarrow> 32 word \<Rightarrow> nat \<Rightarrow> 32 word \<Rightarrow> 32 word" where
  "HH a b c d x s ac = ROTATE_LEFT (a + (md5_H b c d + x + ac)) s + b"

definition II :: "32 word \<Rightarrow> 32 word \<Rightarrow> 32 word \<Rightarrow> 32 word \<Rightarrow> 32 word \<Rightarrow> nat \<Rightarrow> 32 word \<Rightarrow> 32 word" where
  "II a b c d x s ac = ROTATE_LEFT (a + (md5_I b c d + x + ac)) s + b"

text \<open>\<open>Encode\<close> and \<open>Decode\<close>: words as four octets, the lowest first.\<close>

fun Encode :: "32 word list \<Rightarrow> byte list" where
  "Encode [] = []"
| "Encode (w # ws) =
     ucast (w AND 0xff) # ucast (drop_bit 8 w AND 0xff) # ucast (drop_bit 16 w AND 0xff)
       # ucast (drop_bit 24 w AND 0xff) # Encode ws"

fun Decode :: "byte list \<Rightarrow> 32 word list" where
  "Decode (a # b # c # d # bs) =
     (ucast a OR push_bit 8 (ucast b) OR push_bit 16 (ucast c) OR push_bit 24 (ucast d)) # Decode bs"
| "Decode _ = []"

definition md5_round1 :: "32 word list \<Rightarrow> md5_state \<Rightarrow> md5_state" where
  "md5_round1 x st =
     (let (a, b, c, d) = st;
          a = FF a b c d (x ! 0) S11 0xd76aa478;
          d = FF d a b c (x ! 1) S12 0xe8c7b756;
          c = FF c d a b (x ! 2) S13 0x242070db;
          b = FF b c d a (x ! 3) S14 0xc1bdceee;
          a = FF a b c d (x ! 4) S11 0xf57c0faf;
          d = FF d a b c (x ! 5) S12 0x4787c62a;
          c = FF c d a b (x ! 6) S13 0xa8304613;
          b = FF b c d a (x ! 7) S14 0xfd469501;
          a = FF a b c d (x ! 8) S11 0x698098d8;
          d = FF d a b c (x ! 9) S12 0x8b44f7af;
          c = FF c d a b (x ! 10) S13 0xffff5bb1;
          b = FF b c d a (x ! 11) S14 0x895cd7be;
          a = FF a b c d (x ! 12) S11 0x6b901122;
          d = FF d a b c (x ! 13) S12 0xfd987193;
          c = FF c d a b (x ! 14) S13 0xa679438e;
          b = FF b c d a (x ! 15) S14 0x49b40821
      in (a, b, c, d))"

definition md5_round2 :: "32 word list \<Rightarrow> md5_state \<Rightarrow> md5_state" where
  "md5_round2 x st =
     (let (a, b, c, d) = st;
          a = GG a b c d (x ! 1) S21 0xf61e2562;
          d = GG d a b c (x ! 6) S22 0xc040b340;
          c = GG c d a b (x ! 11) S23 0x265e5a51;
          b = GG b c d a (x ! 0) S24 0xe9b6c7aa;
          a = GG a b c d (x ! 5) S21 0xd62f105d;
          d = GG d a b c (x ! 10) S22 0x2441453;
          c = GG c d a b (x ! 15) S23 0xd8a1e681;
          b = GG b c d a (x ! 4) S24 0xe7d3fbc8;
          a = GG a b c d (x ! 9) S21 0x21e1cde6;
          d = GG d a b c (x ! 14) S22 0xc33707d6;
          c = GG c d a b (x ! 3) S23 0xf4d50d87;
          b = GG b c d a (x ! 8) S24 0x455a14ed;
          a = GG a b c d (x ! 13) S21 0xa9e3e905;
          d = GG d a b c (x ! 2) S22 0xfcefa3f8;
          c = GG c d a b (x ! 7) S23 0x676f02d9;
          b = GG b c d a (x ! 12) S24 0x8d2a4c8a
      in (a, b, c, d))"

definition md5_round3 :: "32 word list \<Rightarrow> md5_state \<Rightarrow> md5_state" where
  "md5_round3 x st =
     (let (a, b, c, d) = st;
          a = HH a b c d (x ! 5) S31 0xfffa3942;
          d = HH d a b c (x ! 8) S32 0x8771f681;
          c = HH c d a b (x ! 11) S33 0x6d9d6122;
          b = HH b c d a (x ! 14) S34 0xfde5380c;
          a = HH a b c d (x ! 1) S31 0xa4beea44;
          d = HH d a b c (x ! 4) S32 0x4bdecfa9;
          c = HH c d a b (x ! 7) S33 0xf6bb4b60;
          b = HH b c d a (x ! 10) S34 0xbebfbc70;
          a = HH a b c d (x ! 13) S31 0x289b7ec6;
          d = HH d a b c (x ! 0) S32 0xeaa127fa;
          c = HH c d a b (x ! 3) S33 0xd4ef3085;
          b = HH b c d a (x ! 6) S34 0x4881d05;
          a = HH a b c d (x ! 9) S31 0xd9d4d039;
          d = HH d a b c (x ! 12) S32 0xe6db99e5;
          c = HH c d a b (x ! 15) S33 0x1fa27cf8;
          b = HH b c d a (x ! 2) S34 0xc4ac5665
      in (a, b, c, d))"

definition md5_round4 :: "32 word list \<Rightarrow> md5_state \<Rightarrow> md5_state" where
  "md5_round4 x st =
     (let (a, b, c, d) = st;
          a = II a b c d (x ! 0) S41 0xf4292244;
          d = II d a b c (x ! 7) S42 0x432aff97;
          c = II c d a b (x ! 14) S43 0xab9423a7;
          b = II b c d a (x ! 5) S44 0xfc93a039;
          a = II a b c d (x ! 12) S41 0x655b59c3;
          d = II d a b c (x ! 3) S42 0x8f0ccc92;
          c = II c d a b (x ! 10) S43 0xffeff47d;
          b = II b c d a (x ! 1) S44 0x85845dd1;
          a = II a b c d (x ! 8) S41 0x6fa87e4f;
          d = II d a b c (x ! 15) S42 0xfe2ce6e0;
          c = II c d a b (x ! 6) S43 0xa3014314;
          b = II b c d a (x ! 13) S44 0x4e0811a1;
          a = II a b c d (x ! 4) S41 0xf7537e82;
          d = II d a b c (x ! 11) S42 0xbd3af235;
          c = II c d a b (x ! 2) S43 0x2ad7d2bb;
          b = II b c d a (x ! 9) S44 0xeb86d391
      in (a, b, c, d))"

definition MD5Transform :: "md5_state \<Rightarrow> byte list \<Rightarrow> int \<Rightarrow> (unit, md5_state) res" where
  "MD5Transform st block off =
     bindr (rds block off 64) (\<lambda>bs.
       let x = Decode bs;
           (a, b, c, d) = md5_round4 x (md5_round3 x (md5_round2 x (md5_round1 x st)));
           (s0, s1, s2, s3) = st
       in Ok (s0 + a, s1 + b, s2 + c, s3 + d))"

section \<open>The digest of a stream\<close>

record md5_ctx =
  md5_st :: md5_state
  count0 :: "32 word"
  count1 :: "32 word"
  md5_buffer :: "byte list"

definition PADDING :: "byte list" where
  "PADDING = 0x80 # replicate 63 0"

text \<open>The buffer of a new context is not initialised: it is an argument.\<close>

definition ei_MD5Init :: "byte list \<Rightarrow> md5_ctx" where
  "ei_MD5Init buf =
     \<lparr>md5_st = (0x67452301, 0xefcdab89, 0x98badcfe, 0x10325476), count0 = 0, count1 = 0, md5_buffer = buf\<rparr>"

text \<open>\<open>for (i = partLen; i + 63 < inputLen; i += 64)\<close>\<close>

partial_function (option) md5_blocks ::
  "md5_state \<Rightarrow> byte list \<Rightarrow> 32 word \<Rightarrow> 32 word \<Rightarrow> (unit, md5_state \<times> 32 word) res option" where
  "md5_blocks st input i inputLen =
     (if i + 63 < inputLen
      then (case MD5Transform st input (uint i) of
              Fault \<Rightarrow> Some Fault
            | Err e \<Rightarrow> Some (Err e)
            | Ok st \<Rightarrow> md5_blocks st input (i + 64) inputLen)
      else Some (Ok (st, i)))"

declare md5_blocks.simps [code]

definition md5_count :: "32 word \<Rightarrow> 32 word \<Rightarrow> 32 word \<Rightarrow> 32 word \<times> 32 word" where
  "md5_count c0 c1 inputLen =
     (let c0 = c0 + push_bit 3 inputLen;
          c1 = (if c0 < push_bit 3 inputLen then c1 + 1 else c1)
      in (c0, c1 + drop_bit 29 inputLen))"

definition md5_index :: "32 word \<Rightarrow> 32 word" where
  "md5_index c0 = drop_bit 3 c0 AND 0x3f"

definition ei_MD5Update :: "md5_ctx \<Rightarrow> byte list \<Rightarrow> 32 word \<Rightarrow> (unit, md5_ctx) res option" where
  "ei_MD5Update ctx input inputLen =
     (let index = md5_index (count0 ctx);
          (c0, c1) = md5_count (count0 ctx) (count1 ctx) inputLen;
          ctx = ctx\<lparr>count0 := c0, count1 := c1\<rparr>;
          partLen = 64 - index
      in bindf
           (if partLen \<le> inputLen then
              bindf (Some (bindr (rds input 0 (unat partLen)) (wrs (md5_buffer ctx) (uint index)))) (\<lambda>buf.
              bindf (Some (MD5Transform (md5_st ctx) buf 0)) (\<lambda>st.
              bindf (md5_blocks st input partLen inputLen) (\<lambda>(st, i).
                Some (Ok (ctx\<lparr>md5_st := st, md5_buffer := buf\<rparr>, i, 0)))))
            else Some (Ok (ctx, 0, index)))
           (\<lambda>(ctx, i, index).
             bindf (Some (bindr (rds input (uint i) (unat (inputLen - i))) (wrs (md5_buffer ctx) (uint index)))) (\<lambda>buf.
               Some (Ok (ctx\<lparr>md5_buffer := buf\<rparr>)))))"

definition ei_MD5Final :: "md5_ctx \<Rightarrow> (unit, byte list \<times> md5_ctx) res option" where
  "ei_MD5Final ctx =
     (let bits = Encode [count0 ctx, count1 ctx];
          index = md5_index (count0 ctx);
          padLen = (if index < 56 then 56 - index else 120 - index)
      in bindf (ei_MD5Update ctx PADDING padLen) (\<lambda>ctx.
         bindf (ei_MD5Update ctx bits 8) (\<lambda>ctx.
           let (s0, s1, s2, s3) = md5_st ctx
           in Some (Ok (Encode [s0, s1, s2, s3],
                \<lparr>md5_st = (0, 0, 0, 0), count0 = 0, count1 = 0, md5_buffer = replicate 64 0\<rparr>)))))"

end
