(* ===== verification/Ei_Md5Spec.thy ===== *)
theory Ei_Md5Spec
  imports Ei_Md5
begin

text \<open>
  MD5 as RFC 1321 defines it, on a whole message, and the proof that the stream implementation
  computes it, however the message is cut into pieces.
\<close>

section \<open>The reference\<close>

definition md5_T :: "32 word list" where
  "md5_T =
     [0xd76aa478, 0xe8c7b756, 0x242070db, 0xc1bdceee,
      0xf57c0faf, 0x4787c62a, 0xa8304613, 0xfd469501,
      0x698098d8, 0x8b44f7af, 0xffff5bb1, 0x895cd7be,
      0x6b901122, 0xfd987193, 0xa679438e, 0x49b40821,
      0xf61e2562, 0xc040b340, 0x265e5a51, 0xe9b6c7aa,
      0xd62f105d, 0x2441453, 0xd8a1e681, 0xe7d3fbc8,
      0x21e1cde6, 0xc33707d6, 0xf4d50d87, 0x455a14ed,
      0xa9e3e905, 0xfcefa3f8, 0x676f02d9, 0x8d2a4c8a,
      0xfffa3942, 0x8771f681, 0x6d9d6122, 0xfde5380c,
      0xa4beea44, 0x4bdecfa9, 0xf6bb4b60, 0xbebfbc70,
      0x289b7ec6, 0xeaa127fa, 0xd4ef3085, 0x4881d05,
      0xd9d4d039, 0xe6db99e5, 0x1fa27cf8, 0xc4ac5665,
      0xf4292244, 0x432aff97, 0xab9423a7, 0xfc93a039,
      0x655b59c3, 0x8f0ccc92, 0xffeff47d, 0x85845dd1,
      0x6fa87e4f, 0xfe2ce6e0, 0xa3014314, 0x4e0811a1,
      0xf7537e82, 0xbd3af235, 0x2ad7d2bb, 0xeb86d391]"

definition md5_shift :: "nat list" where
  "md5_shift = [7, 12, 17, 22, 5, 9, 14, 20, 4, 11, 16, 23, 6, 10, 15, 21]"

text \<open>Step \<open>i\<close>: the function of the round, the word of the block, and a rotation.\<close>

definition md5_step :: "32 word list \<Rightarrow> nat \<Rightarrow> md5_state \<Rightarrow> md5_state" where
  "md5_step x i st =
     (let (a, b, c, d) = st;
          (f, g) = (if i < 16 then ((b AND c) OR (NOT b AND d), i)
                    else if i < 32 then ((d AND b) OR (NOT d AND c), (5 * i + 1) mod 16)
                    else if i < 48 then (b XOR c XOR d, (3 * i + 5) mod 16)
                    else (c XOR (b OR NOT d), (7 * i) mod 16))
      in (d, b + word_rotl (md5_shift ! (4 * (i div 16) + i mod 4)) (a + f + md5_T ! i + x ! g), b, c))"

definition md5_block :: "md5_state \<Rightarrow> byte list \<Rightarrow> md5_state" where
  "md5_block st bs =
     (let (s0, s1, s2, s3) = st; (a, b, c, d) = fold (md5_step (Decode bs)) [0..<64] st
      in (s0 + a, s1 + b, s2 + c, s3 + d))"

function md5_stream :: "md5_state \<Rightarrow> byte list \<Rightarrow> md5_state" where
  "md5_stream st bs = (if length bs < 64 then st else md5_stream (md5_block st (take 64 bs)) (drop 64 bs))"
  by pat_completeness auto
termination by (relation "measure (\<lambda>(st, bs). length bs)") auto

declare md5_stream.simps [simp del]

definition md5_init :: md5_state where
  "md5_init = (0x67452301, 0xefcdab89, 0x98badcfe, 0x10325476)"

text \<open>The padding: a bit 1, zeros up to 56 octets modulo 64, the length in bits as 64-bit number.\<close>

definition md5_pad :: "nat \<Rightarrow> byte list" where
  "md5_pad n =
     [0x80] @ replicate ((119 - n mod 64) mod 64) 0 @ Encode [word_of_int (8 * int n), word_of_int (8 * int n div 2 ^ 32)]"

lemma md5_pad_nat:
  "md5_pad n =
     [0x80] @ replicate ((119 - n mod 64) mod 64) 0 @ Encode [word_of_nat (8 * n), word_of_nat (8 * n div 2 ^ 32)]"
proof -
  have "8 * int n = int (8 * n)" "int (8 * n) div 2 ^ 32 = int (8 * n div 2 ^ 32)" by (simp_all add: zdiv_int)
  then show ?thesis by (simp only: md5_pad_def of_int_of_nat_eq)
qed

definition md5 :: "byte list \<Rightarrow> byte list" where
  "md5 msg = (case md5_stream md5_init (msg @ md5_pad (length msg)) of (a, b, c, d) \<Rightarrow> Encode [a, b, c, d])"

section \<open>One block\<close>

lemma ROTATE_LEFT_rotl:
  assumes "0 < n" "n < 32"
  shows "ROTATE_LEFT x n = word_rotl n x"
proof (rule bit_word_eqI)
  fix k
  assume "k < LENGTH(32)"
  then have k: "k < 32" by simp
  show "bit (ROTATE_LEFT x n) k = bit (word_rotl n x) k"
  proof (cases "n \<le> k")
    case True
    then have "(k + (32 - n)) mod 32 = k - n" using assms k by (simp add: mod_if)
    moreover have "\<not> bit x (32 - n + k)" using True bit_imp_le_length [of x "32 - n + k"] by auto
    ultimately show ?thesis
      using True k assms
      by (simp add: ROTATE_LEFT_def bit_or_iff bit_push_bit_iff bit_drop_bit_eq bit_word_rotl_iff)
  next
    case False
    then have "(k + (32 - n)) mod 32 = 32 - n + k" using assms k by simp
    then show ?thesis
      using False k assms
      by (simp add: ROTATE_LEFT_def bit_or_iff bit_push_bit_iff bit_drop_bit_eq bit_word_rotl_iff)
  qed
qed

text \<open>Each line of the code is one step with the roles of the four words rotated.\<close>

lemma steps1:
  "md5_step x 0 (a, b, c, d) = (d, FF a b c d (x ! 0) S11 0xd76aa478, b, c)"
  "md5_step x 1 (a, b, c, d) = (d, FF a b c d (x ! 1) S12 0xe8c7b756, b, c)"
  "md5_step x 2 (a, b, c, d) = (d, FF a b c d (x ! 2) S13 0x242070db, b, c)"
  "md5_step x 3 (a, b, c, d) = (d, FF a b c d (x ! 3) S14 0xc1bdceee, b, c)"
  "md5_step x 4 (a, b, c, d) = (d, FF a b c d (x ! 4) S11 0xf57c0faf, b, c)"
  "md5_step x 5 (a, b, c, d) = (d, FF a b c d (x ! 5) S12 0x4787c62a, b, c)"
  "md5_step x 6 (a, b, c, d) = (d, FF a b c d (x ! 6) S13 0xa8304613, b, c)"
  "md5_step x 7 (a, b, c, d) = (d, FF a b c d (x ! 7) S14 0xfd469501, b, c)"
  "md5_step x 8 (a, b, c, d) = (d, FF a b c d (x ! 8) S11 0x698098d8, b, c)"
  "md5_step x 9 (a, b, c, d) = (d, FF a b c d (x ! 9) S12 0x8b44f7af, b, c)"
  "md5_step x 10 (a, b, c, d) = (d, FF a b c d (x ! 10) S13 0xffff5bb1, b, c)"
  "md5_step x 11 (a, b, c, d) = (d, FF a b c d (x ! 11) S14 0x895cd7be, b, c)"
  "md5_step x 12 (a, b, c, d) = (d, FF a b c d (x ! 12) S11 0x6b901122, b, c)"
  "md5_step x 13 (a, b, c, d) = (d, FF a b c d (x ! 13) S12 0xfd987193, b, c)"
  "md5_step x 14 (a, b, c, d) = (d, FF a b c d (x ! 14) S13 0xa679438e, b, c)"
  "md5_step x 15 (a, b, c, d) = (d, FF a b c d (x ! 15) S14 0x49b40821, b, c)"
  by (simp_all add: md5_step_def FF_def md5_F_def ROTATE_LEFT_rotl md5_shift_def md5_T_def ac_simps del: One_nat_def)

lemma steps2:
  "md5_step x 16 (a, b, c, d) = (d, GG a b c d (x ! 1) S21 0xf61e2562, b, c)"
  "md5_step x 17 (a, b, c, d) = (d, GG a b c d (x ! 6) S22 0xc040b340, b, c)"
  "md5_step x 18 (a, b, c, d) = (d, GG a b c d (x ! 11) S23 0x265e5a51, b, c)"
  "md5_step x 19 (a, b, c, d) = (d, GG a b c d (x ! 0) S24 0xe9b6c7aa, b, c)"
  "md5_step x 20 (a, b, c, d) = (d, GG a b c d (x ! 5) S21 0xd62f105d, b, c)"
  "md5_step x 21 (a, b, c, d) = (d, GG a b c d (x ! 10) S22 0x2441453, b, c)"
  "md5_step x 22 (a, b, c, d) = (d, GG a b c d (x ! 15) S23 0xd8a1e681, b, c)"
  "md5_step x 23 (a, b, c, d) = (d, GG a b c d (x ! 4) S24 0xe7d3fbc8, b, c)"
  "md5_step x 24 (a, b, c, d) = (d, GG a b c d (x ! 9) S21 0x21e1cde6, b, c)"
  "md5_step x 25 (a, b, c, d) = (d, GG a b c d (x ! 14) S22 0xc33707d6, b, c)"
  "md5_step x 26 (a, b, c, d) = (d, GG a b c d (x ! 3) S23 0xf4d50d87, b, c)"
  "md5_step x 27 (a, b, c, d) = (d, GG a b c d (x ! 8) S24 0x455a14ed, b, c)"
  "md5_step x 28 (a, b, c, d) = (d, GG a b c d (x ! 13) S21 0xa9e3e905, b, c)"
  "md5_step x 29 (a, b, c, d) = (d, GG a b c d (x ! 2) S22 0xfcefa3f8, b, c)"
  "md5_step x 30 (a, b, c, d) = (d, GG a b c d (x ! 7) S23 0x676f02d9, b, c)"
  "md5_step x 31 (a, b, c, d) = (d, GG a b c d (x ! 12) S24 0x8d2a4c8a, b, c)"
  by (simp_all add: md5_step_def GG_def md5_G_def ROTATE_LEFT_rotl md5_shift_def md5_T_def ac_simps del: One_nat_def)

lemma steps3:
  "md5_step x 32 (a, b, c, d) = (d, HH a b c d (x ! 5) S31 0xfffa3942, b, c)"
  "md5_step x 33 (a, b, c, d) = (d, HH a b c d (x ! 8) S32 0x8771f681, b, c)"
  "md5_step x 34 (a, b, c, d) = (d, HH a b c d (x ! 11) S33 0x6d9d6122, b, c)"
  "md5_step x 35 (a, b, c, d) = (d, HH a b c d (x ! 14) S34 0xfde5380c, b, c)"
  "md5_step x 36 (a, b, c, d) = (d, HH a b c d (x ! 1) S31 0xa4beea44, b, c)"
  "md5_step x 37 (a, b, c, d) = (d, HH a b c d (x ! 4) S32 0x4bdecfa9, b, c)"
  "md5_step x 38 (a, b, c, d) = (d, HH a b c d (x ! 7) S33 0xf6bb4b60, b, c)"
  "md5_step x 39 (a, b, c, d) = (d, HH a b c d (x ! 10) S34 0xbebfbc70, b, c)"
  "md5_step x 40 (a, b, c, d) = (d, HH a b c d (x ! 13) S31 0x289b7ec6, b, c)"
  "md5_step x 41 (a, b, c, d) = (d, HH a b c d (x ! 0) S32 0xeaa127fa, b, c)"
  "md5_step x 42 (a, b, c, d) = (d, HH a b c d (x ! 3) S33 0xd4ef3085, b, c)"
  "md5_step x 43 (a, b, c, d) = (d, HH a b c d (x ! 6) S34 0x4881d05, b, c)"
  "md5_step x 44 (a, b, c, d) = (d, HH a b c d (x ! 9) S31 0xd9d4d039, b, c)"
  "md5_step x 45 (a, b, c, d) = (d, HH a b c d (x ! 12) S32 0xe6db99e5, b, c)"
  "md5_step x 46 (a, b, c, d) = (d, HH a b c d (x ! 15) S33 0x1fa27cf8, b, c)"
  "md5_step x 47 (a, b, c, d) = (d, HH a b c d (x ! 2) S34 0xc4ac5665, b, c)"
  by (simp_all add: md5_step_def HH_def md5_H_def ROTATE_LEFT_rotl md5_shift_def md5_T_def ac_simps del: One_nat_def)

lemma steps4:
  "md5_step x 48 (a, b, c, d) = (d, II a b c d (x ! 0) S41 0xf4292244, b, c)"
  "md5_step x 49 (a, b, c, d) = (d, II a b c d (x ! 7) S42 0x432aff97, b, c)"
  "md5_step x 50 (a, b, c, d) = (d, II a b c d (x ! 14) S43 0xab9423a7, b, c)"
  "md5_step x 51 (a, b, c, d) = (d, II a b c d (x ! 5) S44 0xfc93a039, b, c)"
  "md5_step x 52 (a, b, c, d) = (d, II a b c d (x ! 12) S41 0x655b59c3, b, c)"
  "md5_step x 53 (a, b, c, d) = (d, II a b c d (x ! 3) S42 0x8f0ccc92, b, c)"
  "md5_step x 54 (a, b, c, d) = (d, II a b c d (x ! 10) S43 0xffeff47d, b, c)"
  "md5_step x 55 (a, b, c, d) = (d, II a b c d (x ! 1) S44 0x85845dd1, b, c)"
  "md5_step x 56 (a, b, c, d) = (d, II a b c d (x ! 8) S41 0x6fa87e4f, b, c)"
  "md5_step x 57 (a, b, c, d) = (d, II a b c d (x ! 15) S42 0xfe2ce6e0, b, c)"
  "md5_step x 58 (a, b, c, d) = (d, II a b c d (x ! 6) S43 0xa3014314, b, c)"
  "md5_step x 59 (a, b, c, d) = (d, II a b c d (x ! 13) S44 0x4e0811a1, b, c)"
  "md5_step x 60 (a, b, c, d) = (d, II a b c d (x ! 4) S41 0xf7537e82, b, c)"
  "md5_step x 61 (a, b, c, d) = (d, II a b c d (x ! 11) S42 0xbd3af235, b, c)"
  "md5_step x 62 (a, b, c, d) = (d, II a b c d (x ! 2) S43 0x2ad7d2bb, b, c)"
  "md5_step x 63 (a, b, c, d) = (d, II a b c d (x ! 9) S44 0xeb86d391, b, c)"
  by (simp_all add: md5_step_def II_def md5_I_def ROTATE_LEFT_rotl md5_shift_def md5_T_def ac_simps del: One_nat_def)

lemma fold_step:
  "fold (md5_step x) (i # is) (a, b, c, d) =
     (let t = fst (snd (md5_step x i (a, b, c, d))) in fold (md5_step x) is (d, t, b, c))"
  by (simp add: md5_step_def Let_def split: prod.splits)

lemma round1_fold: "fold (md5_step x) [0, 1, 2, 3, 4, 5, 6, 7, 8, 9, 10, 11, 12, 13, 14, 15] (a, b, c, d) = md5_round1 x (a, b, c, d)"
  by (simp only: md5_round1_def Let_def [where s = "(a, b, c, d)"] prod.case fold_step steps1 fst_conv snd_conv fold_simps(1))

lemma round2_fold: "fold (md5_step x) [16, 17, 18, 19, 20, 21, 22, 23, 24, 25, 26, 27, 28, 29, 30, 31] (a, b, c, d) = md5_round2 x (a, b, c, d)"
  by (simp only: md5_round2_def Let_def [where s = "(a, b, c, d)"] prod.case fold_step steps2 fst_conv snd_conv fold_simps(1))

lemma round3_fold: "fold (md5_step x) [32, 33, 34, 35, 36, 37, 38, 39, 40, 41, 42, 43, 44, 45, 46, 47] (a, b, c, d) = md5_round3 x (a, b, c, d)"
  by (simp only: md5_round3_def Let_def [where s = "(a, b, c, d)"] prod.case fold_step steps3 fst_conv snd_conv fold_simps(1))

lemma round4_fold: "fold (md5_step x) [48, 49, 50, 51, 52, 53, 54, 55, 56, 57, 58, 59, 60, 61, 62, 63] (a, b, c, d) = md5_round4 x (a, b, c, d)"
  by (simp only: md5_round4_def Let_def [where s = "(a, b, c, d)"] prod.case fold_step steps4 fst_conv snd_conv fold_simps(1))

lemma upt_64: "[0..<64] = [0, 1, 2, 3, 4, 5, 6, 7, 8, 9, 10, 11, 12, 13, 14, 15] @ [16, 17, 18, 19, 20, 21, 22, 23, 24, 25, 26, 27, 28, 29, 30, 31] @ [32, 33, 34, 35, 36, 37, 38, 39, 40, 41, 42, 43, 44, 45, 46, 47] @ [48, 49, 50, 51, 52, 53, 54, 55, 56, 57, 58, 59, 60, 61, 62, 63]"
  by code_simp

lemma transform_result:
  assumes "0 \<le> off" "off + 64 \<le> int (length block)"
  shows "MD5Transform st block off = Ok (md5_block st (take 64 (drop (nat off) block)))"
proof -
  have len: "length (take 64 (drop (nat off) block)) = 64" using assms by simp
  have r: "rds block off 64 = (Ok (take 64 (drop (nat off) block)) :: (unit, byte list) res)"
  proof -
    have "at_off block off (take 64 (drop (nat off) block))" using assms by (simp add: at_off_iff)
    from at_off_rds [OF this] show ?thesis using len by simp
  qed
  have f: "fold (md5_step x) [0..<64] st = md5_round4 x (md5_round3 x (md5_round2 x (md5_round1 x st)))" for x
  proof -
    have e: "md5_round1 x st = fold (md5_step x) [0, 1, 2, 3, 4, 5, 6, 7, 8, 9, 10, 11, 12, 13, 14, 15] st"
      "md5_round2 x st = fold (md5_step x) [16, 17, 18, 19, 20, 21, 22, 23, 24, 25, 26, 27, 28, 29, 30, 31] st"
      "md5_round3 x st = fold (md5_step x) [32, 33, 34, 35, 36, 37, 38, 39, 40, 41, 42, 43, 44, 45, 46, 47] st"
      "md5_round4 x st = fold (md5_step x) [48, 49, 50, 51, 52, 53, 54, 55, 56, 57, 58, 59, 60, 61, 62, 63] st" for st
      by (cases st; simp only: round1_fold round2_fold round3_fold round4_fold)+
    show ?thesis unfolding upt_64 fold_append comp_apply by (simp only: e)
  qed
  show ?thesis
    by (simp add: MD5Transform_def r md5_block_def f Let_def split: prod.splits)
qed

section \<open>The stream\<close>

lemma md5_stream_short: "length bs < 64 \<Longrightarrow> md5_stream st bs = st"
  by (simp add: md5_stream.simps)

lemma md5_stream_block: "length bs = 64 \<Longrightarrow> md5_stream st (bs @ cs) = md5_stream (md5_block st bs) cs"
  by (simp add: md5_stream.simps [of st])

lemma md5_stream_append:
  "64 dvd length as \<Longrightarrow> md5_stream st (as @ bs) = md5_stream (md5_stream st as) bs"
proof (induction st as rule: md5_stream.induct)
  case (1 st as)
  show ?case
  proof (cases "length as < 64")
    case True
    then have "as = []" using 1(2) by (auto dest: dvd_imp_le)
    then show ?thesis by (simp add: md5_stream_short)
  next
    case False
    have d: "64 dvd length (drop 64 as)" using 1(2) False by (simp add: dvd_diff_nat)
    have "md5_stream st (as @ bs) = md5_stream (md5_block st (take 64 as)) (drop 64 as @ bs)"
      using False md5_stream_block [of "take 64 as" st "drop 64 as @ bs"]
        append_take_drop_id [of 64 as] by (simp flip: append_assoc)
    also have "\<dots> = md5_stream (md5_stream (md5_block st (take 64 as)) (drop 64 as)) bs"
      using 1(1) [OF False d] .
    also have "md5_stream (md5_block st (take 64 as)) (drop 64 as) = md5_stream st as"
      using False by (simp add: md5_stream.simps [of st as])
    finally show ?thesis .
  qed
qed

text \<open>The bytes behind the last full block do not matter.\<close>

lemma md5_stream_tail: "64 dvd length as \<Longrightarrow> length bs < 64 \<Longrightarrow> md5_stream st (as @ bs) = md5_stream st as"
  by (simp add: md5_stream_append md5_stream_short)

lemma md5_blocks_result:
  assumes "unat inputLen \<le> length input" "unat inputLen + 63 < 2 ^ 32" "unat i \<le> unat inputLen"
  shows "\<exists>i'. md5_blocks st input i inputLen
      = Some (Ok (md5_stream st (drop (unat i) (take (unat inputLen) input)), i'))
    \<and> unat i' = unat i + 64 * ((unat inputLen - unat i) div 64)"
  using assms(3)
proof (induction "unat inputLen - unat i" arbitrary: i st rule: less_induct)
  case less
  have i63: "unat (i + 63) = unat i + 63" using less.prems assms(2) by (simp add: unat_word_ariths)
  show ?case
  proof (cases "i + 63 < inputLen")
    case False
    then have "unat inputLen - unat i < 64" using i63 by (simp add: word_less_nat_alt)
    then show ?thesis using False by (subst md5_blocks.simps) (simp add: md5_stream_short)
  next
    case True
    then have lt: "unat i + 64 \<le> unat inputLen" using i63 by (simp add: word_less_nat_alt)
    have i64: "unat (i + 64) = unat i + 64" using lt assms(2) by (simp add: unat_word_ariths)
    let ?rest = "drop (unat i) (take (unat inputLen) input)" and ?b = "take 64 (drop (unat i) input)"
    have b: "?b = take 64 ?rest" using lt by (simp add: drop_take min_def)
    have t: "MD5Transform st input (uint i) = Ok (md5_block st ?b)"
    proof -
      have "unat i + 64 \<le> length input" using lt assms(1) by simp
      then have "int (unat i + 64) \<le> int (length input)" by (simp only: of_nat_le_iff)
      then show ?thesis using transform_result [of "uint i" input st] by simp
    qed
    obtain i' where i': "md5_blocks (md5_block st ?b) input (i + 64) inputLen
        = Some (Ok (md5_stream (md5_block st ?b) (drop (unat (i + 64)) (take (unat inputLen) input)), i'))"
      "unat i' = unat (i + 64) + 64 * ((unat inputLen - unat (i + 64)) div 64)"
    proof -
      have "unat inputLen - unat (i + 64) < unat inputLen - unat i" "unat (i + 64) \<le> unat inputLen"
        using lt i64 by simp_all
      then show thesis using less.hyps [of "i + 64" "md5_block st ?b"] that by blast
    qed
    have "md5_stream st ?rest = md5_stream (md5_block st ?b) (drop (unat (i + 64)) (take (unat inputLen) input))"
    proof -
      have "\<not> length ?rest < 64" using lt assms(1) by simp
      then show ?thesis unfolding b i64 by (subst md5_stream.simps) (simp add: add.commute)
    qed
    moreover have "(unat inputLen - unat i) div 64 = Suc ((unat inputLen - unat (i + 64)) div 64)"
      using lt i64 by (simp add: le_div_geq)
    ultimately show ?thesis
      using True t i' i64 by (subst md5_blocks.simps) simp
  qed
qed

section \<open>Counting bits\<close>

lemma drop_bit_unat: "unat (drop_bit k w) = unat w div 2 ^ k"
  by (simp only: unat_drop_bit_eq) (simp add: drop_bit_eq_div)

lemma small_sum_carry:
  fixes x y m :: nat
  assumes "x < m" "y < m"
  shows "(x + y) mod m = (if m \<le> x + y then x + y - m else x + y)"
    "(x + y) div m = of_bool (m \<le> x + y)"
  using assms by (cases "m \<le> x + y", simp_all add: le_mod_geq le_div_geq)+

lemma add_mod_carry:
  fixes a b m :: nat
  assumes "0 < m"
  shows "(a + b) mod m = (if m \<le> a mod m + b mod m then a mod m + b mod m - m else a mod m + b mod m)"
    "(a + b) div m = a div m + b div m + of_bool (m \<le> a mod m + b mod m)"
proof -
  have lt: "a mod m < m" "b mod m < m" using assms by simp_all
  have "(a + b) mod m = (a mod m + b mod m) mod m" by (rule mod_add_eq [symmetric])
  then show "(a + b) mod m = (if m \<le> a mod m + b mod m then a mod m + b mod m - m else a mod m + b mod m)"
    by (simp only: small_sum_carry(1) [OF lt])
  show "(a + b) div m = a div m + b div m + of_bool (m \<le> a mod m + b mod m)"
    by (subst div_add1_eq) (simp only: small_sum_carry(2) [OF lt])
qed

lemma carry_less:
  fixes x y m :: nat
  shows "x < m \<Longrightarrow> y < m \<Longrightarrow> (if m \<le> x + y then x + y - m else x + y) < y \<longleftrightarrow> m \<le> x + y"
  by auto

lemma unat_word_of_nat_32: "unat (word_of_nat a :: 32 word) = a mod 2 ^ 32"
  by (simp add: unat_of_nat)

lemma md5_count_result:
  "md5_count (word_of_nat l) (word_of_nat (l div 2 ^ 32)) n =
     (word_of_nat (l + 8 * unat n), word_of_nat ((l + 8 * unat n) div 2 ^ 32))"
proof -
  let ?m = "2 ^ 32 :: nat"
  have p: "push_bit 3 n = (word_of_nat (8 * unat n) :: 32 word)" by (simp add: push_bit_eq_mult)
  have d: "drop_bit 29 n = (word_of_nat (8 * unat n div ?m) :: 32 word)"
  proof -
    have "8 * unat n div ?m = unat n div 2 ^ 29" by simp
    also have "\<dots> = unat (drop_bit 29 n)" by (simp add: drop_bit_unat)
    finally show ?thesis by simp
  qed
  have less: "(word_of_nat (l + 8 * unat n) :: 32 word) < word_of_nat (8 * unat n)
      \<longleftrightarrow> ?m \<le> l mod ?m + 8 * unat n mod ?m"
    unfolding word_less_nat_alt unat_word_of_nat_32
    by (subst add_mod_carry(1), simp) (rule carry_less; simp)
  have "(l + 8 * unat n) div ?m = l div ?m + 8 * unat n div ?m + of_bool (?m \<le> l mod ?m + 8 * unat n mod ?m)"
    by (rule add_mod_carry(2)) simp
  then have hi: "word_of_nat ((l + 8 * unat n) div ?m) = (word_of_nat (l div ?m) + word_of_nat (8 * unat n div ?m)
      + (if (word_of_nat (l + 8 * unat n) :: 32 word) < word_of_nat (8 * unat n) then 1 else 0) :: 32 word)"
    unfolding less by (simp only: of_nat_add of_bool_def of_nat_1 semiring_1_class.of_nat_0 if_distrib [of word_of_nat])
  have lo: "word_of_nat l + word_of_nat (8 * unat n) = (word_of_nat (l + 8 * unat n) :: 32 word)"
    by (simp only: of_nat_add)
  have split_add: "(if P then a + 1 else a) + b = a + b + (if P then 1 else 0)" for P and a b :: "32 word"
    by (simp add: add.commute)
  show ?thesis
    unfolding md5_count_def Let_def p d lo hi split_add ..
qed

lemma md5_index_result:
  "unat (md5_index (word_of_nat (8 * l))) = l mod 64"
proof -
  have m: "(0x3f :: 32 word) = mask 6" by (simp add: mask_eq_exp_minus_1)
  have "unat (md5_index w) = unat w div 8 mod 64" for w
    unfolding md5_index_def m take_bit_eq_mask [symmetric]
    by (simp only: unsigned_take_bit_eq drop_bit_unat) (simp add: take_bit_eq_mod)
  then have "unat (md5_index (word_of_nat (8 * l))) = (8 * l mod 2 ^ 32) div 8 mod 64"
    by (simp only: unat_word_of_nat_32)
  also have "8 * l mod 2 ^ 32 = 8 * (l mod 2 ^ 29)"
    using mult_mod_right [of 8 l "2 ^ 29"] by simp
  also have "8 * (l mod 2 ^ 29) div 8 mod 64 = (l mod 2 ^ 29) mod 64" by simp
  also have "\<dots> = l mod 64" by (simp add: mod_mod_cancel)
  finally show ?thesis .
qed

section \<open>The context represents the message read so far\<close>

definition md5_repr :: "md5_ctx \<Rightarrow> byte list \<Rightarrow> bool" where
  "md5_repr ctx msg \<longleftrightarrow>
     md5_st ctx = md5_stream md5_init msg
     \<and> count0 ctx = word_of_nat (8 * length msg) \<and> count1 ctx = word_of_nat (8 * length msg div 2 ^ 32)
     \<and> length (md5_buffer ctx) = 64
     \<and> take (length msg mod 64) (md5_buffer ctx) = drop (64 * (length msg div 64)) msg"

lemma md5_reprI:
  assumes "msg = full @ rest" "64 dvd length full" "length rest < 64"
    "md5_st ctx = md5_stream md5_init full" "count0 ctx = word_of_nat (8 * length msg)"
    "count1 ctx = word_of_nat (8 * length msg div 2 ^ 32)"
    "md5_buffer ctx = rest @ free" "length (md5_buffer ctx) = 64"
  shows "md5_repr ctx msg"
proof -
  obtain k where k: "length full = 64 * k" using assms(2) by blast
  have "length msg mod 64 = length rest" "length msg div 64 = k" using assms(1,3) k by simp_all
  then show ?thesis using assms k by (simp add: md5_repr_def md5_stream_tail)
qed

lemma md5_reprE:
  assumes "md5_repr ctx msg"
  obtains full rest free where "msg = full @ rest" "64 dvd length full" "length rest < 64"
    "length rest = length msg mod 64" "md5_st ctx = md5_stream md5_init full"
    "count0 ctx = word_of_nat (8 * length msg)" "count1 ctx = word_of_nat (8 * length msg div 2 ^ 32)"
    "md5_buffer ctx = rest @ free" "length rest + length free = 64"
proof -
  define q where "q = 64 * (length msg div 64)"
  let ?full = "take q msg" and ?rest = "drop q msg" and ?free = "drop (length msg mod 64) (md5_buffer ctx)"
  have "length msg = q + length msg mod 64" by (simp add: q_def)
  moreover have "64 dvd q" by (simp add: q_def)
  ultimately have len: "length ?full = q" "64 dvd length ?full" "length ?rest = length msg mod 64" by simp_all
  have b: "md5_buffer ctx = ?rest @ ?free" and l: "length (md5_buffer ctx) = 64"
    using assms append_take_drop_id [of "length msg mod 64" "md5_buffer ctx"]
    by (simp_all add: md5_repr_def q_def)
  have st: "md5_st ctx = md5_stream md5_init ?full"
    using assms len md5_stream_tail [of ?full ?rest md5_init] by (simp add: md5_repr_def)
  have lt: "length ?rest < 64" "length ?rest + length ?free = 64" using len(3) l by (simp_all del: length_drop add: length_drop [of _ "md5_buffer ctx"] less_imp_le)
  show thesis
    using that [OF _ len(2) lt(1) len(3) st _ _ b lt(2)] assms by (simp add: md5_repr_def)
qed

lemma init_represents: "length buf = 64 \<Longrightarrow> md5_repr (ei_MD5Init buf) []"
  by (rule md5_reprI [where full = "[]" and rest = "[]" and free = buf])
    (simp_all add: ei_MD5Init_def md5_init_def md5_stream_short)

section \<open>One update\<close>

text \<open>\<open>memcpy\<close> of a part of the input into the buffer.\<close>

lemma copy_result:
  assumes "i \<le> length input" "n = length src" "take n (drop i input) = src" "k + n \<le> length buf"
  shows "bindr (rds input (int i) n) (wrs buf (int k)) = (Ok (take k buf @ src @ drop (k + n) buf) :: (unit, byte list) res)"
proof -
  have "at_off input (int i) src" using assms by (auto simp: at_off_iff)
  then have "rds input (int i) n = (Ok src :: (unit, byte list) res)"
    using at_off_rds [of input "int i" src] assms(2) by simp
  moreover have "wrs buf (int k) src = (Ok (take k buf @ src @ drop (k + n) buf) :: (unit, byte list) res)"
    using assms(2,4) by (auto simp: wrs_eq)
  ultimately show ?thesis by simp
qed

lemma update_short:
  assumes "md5_repr ctx msg" "length msg mod 64 + unat n < 64" "unat n \<le> length input"
  shows "\<exists>ctx'. ei_MD5Update ctx input n = Some (Ok ctx') \<and> md5_repr ctx' (msg @ take (unat n) input)"
proof -
  obtain full rest free where m: "msg = full @ rest" "64 dvd length full" "length rest < 64"
      "length rest = length msg mod 64" "md5_st ctx = md5_stream md5_init full"
      "count0 ctx = word_of_nat (8 * length msg)" "count1 ctx = word_of_nat (8 * length msg div 2 ^ 32)"
      "md5_buffer ctx = rest @ free" "length rest + length free = 64"
    using assms(1) by (rule md5_reprE)
  define index where "index = md5_index (count0 ctx)"
  have idx: "unat index = length rest" unfolding index_def m(4,6) by (rule md5_index_result)
  have "unat (64 - index) = 64 - length rest"
    using m(3) idx by (subst unat_sub) (simp_all add: word_le_nat_alt)
  then have short: "\<not> 64 - index \<le> n" using assms(2) m(4) by (simp add: word_le_nat_alt)
  have uidx: "uint index = int (length rest)" using idx by (simp add: uint_nat)
  define src where "src = take (unat n) input"
  have src: "length src = unat n" using assms(3) by (simp add: src_def)
  define c0 c1 :: "32 word" where "c0 = word_of_nat (8 * length msg + 8 * unat n)"
      and "c1 = word_of_nat ((8 * length msg + 8 * unat n) div 2 ^ 32)"
  have cnt: "md5_count (count0 ctx) (count1 ctx) n = (c0, c1)"
    unfolding m(6,7) c0_def c1_def by (rule md5_count_result)
  define ctx' where "ctx' = ctx\<lparr>count0 := c0, count1 := c1,
      md5_buffer := rest @ src @ drop (unat n) free\<rparr>"
  have copy: "bindr (rds input 0 (unat n)) (wrs (md5_buffer ctx) (int (length rest)))
      = (Ok (rest @ src @ drop (unat n) free) :: (unit, byte list) res)"
    using copy_result [of 0 input "unat n" src "length rest" "md5_buffer ctx"] assms(2) m(4,8,9) src
    by (simp add: src_def)
  have "ei_MD5Update ctx input n = Some (Ok ctx')"
    unfolding ei_MD5Update_def Let_def index_def [symmetric]
    using short copy uidx cnt by (simp add: ctx'_def)
  moreover have "md5_repr ctx' (msg @ src)"
  proof (rule md5_reprI [where full = full and rest = "rest @ src"])
    show "length (rest @ src) < 64" using assms(2) m(4) src by simp
    show "count0 ctx' = word_of_nat (8 * length (msg @ src))"
      and "count1 ctx' = word_of_nat (8 * length (msg @ src) div 2 ^ 32)"
      by (simp_all only: ctx'_def c0_def c1_def src length_append add_mult_distrib2, simp_all)
    show "length (md5_buffer ctx') = 64" using assms(2) m(4,9) src by (simp add: ctx'_def)
  qed (simp_all add: ctx'_def m(1,2,5))
  ultimately show ?thesis by (auto simp: src_def)
qed

lemma update_long:
  assumes "md5_repr ctx msg" "64 \<le> length msg mod 64 + unat n" "unat n \<le> length input" "unat n + 63 < 2 ^ 32"
  shows "\<exists>ctx'. ei_MD5Update ctx input n = Some (Ok ctx') \<and> md5_repr ctx' (msg @ take (unat n) input)"
proof -
  obtain full rest free where m: "msg = full @ rest" "64 dvd length full" "length rest < 64"
      "length rest = length msg mod 64" "md5_st ctx = md5_stream md5_init full"
      "count0 ctx = word_of_nat (8 * length msg)" "count1 ctx = word_of_nat (8 * length msg div 2 ^ 32)"
      "md5_buffer ctx = rest @ free" "length rest + length free = 64"
    using assms(1) by (rule md5_reprE)
  define index where "index = md5_index (count0 ctx)"
  have idx: "unat index = length rest" unfolding index_def m(4,6) by (rule md5_index_result)
  have uidx: "uint index = int (length rest)" by (simp only: uint_nat idx)
  define p where "p = 64 - length rest"
  have part: "unat (64 - index) = p"
    using m(3) idx by (subst unat_sub) (simp_all add: word_le_nat_alt p_def)
  have long: "64 - index \<le> n" using assms(2) m(4) part by (simp add: word_le_nat_alt p_def)
  have pn: "p \<le> unat n" using long part by (simp add: word_le_nat_alt)
  define c0 c1 :: "32 word" where "c0 = word_of_nat (8 * length msg + 8 * unat n)"
      and "c1 = word_of_nat ((8 * length msg + 8 * unat n) div 2 ^ 32)"
  have cnt: "md5_count (count0 ctx) (count1 ctx) n = (c0, c1)"
    unfolding m(6,7) c0_def c1_def by (rule md5_count_result)
  \<comment> \<open>the first block: what the buffer holds and the head of the input\<close>
  define blk where "blk = rest @ take p input"
  have blk: "length blk = 64" using pn assms(3) m(3) by (simp add: blk_def p_def)
  have copy: "bindr (rds input 0 p) (wrs (md5_buffer ctx) (int (length rest))) = (Ok blk :: (unit, byte list) res)"
    using copy_result [of 0 input p "take p input" "length rest" "md5_buffer ctx"] pn assms(3) m(8,9)
    by (simp add: blk_def p_def)
  have trans: "MD5Transform (md5_st ctx) blk 0 = Ok (md5_block (md5_st ctx) blk)"
    using transform_result [of 0 blk "md5_st ctx"] blk by simp
  \<comment> \<open>the blocks of the input\<close>
  define body where "body = drop p (take (unat n) input)"
  define q where "q = 64 * ((unat n - p) div 64)"
  obtain i' where loop: "md5_blocks (md5_block (md5_st ctx) blk) input (64 - index) n
      = Some (Ok (md5_stream (md5_block (md5_st ctx) blk) body, i'))" and i': "unat i' = p + q"
    using md5_blocks_result [OF assms(3,4), of "64 - index" "md5_block (md5_st ctx) blk"] pn part
    by (auto simp: body_def q_def)
  have q: "q \<le> unat n - p" "unat n - p - q < 64" "64 dvd q" by (simp_all add: q_def minus_mult_div_eq_mod)
  have body: "length body = unat n - p" using assms(3) by (simp add: body_def)
  \<comment> \<open>what is left goes to the buffer\<close>
  define left where "left = drop q body"
  have left: "length left = unat n - p - q" by (simp add: left_def body)
  have ui': "uint i' = int (p + q)" by (simp only: uint_nat i')
  have sub: "unat (n - i') = length left" using i' q pn left by (subst unat_sub) (simp_all add: word_le_nat_alt)
  have copy': "bindr (rds input (int (p + q)) (length left)) (wrs blk 0)
      = (Ok (left @ drop (length left) blk) :: (unit, byte list) res)"
    using copy_result [of "p + q" input "length left" left 0 blk] q left assms(3) pn blk
    by (simp add: left_def body_def drop_take add.commute)
  define ctx' where "ctx' = ctx\<lparr>count0 := c0, count1 := c1, md5_st := md5_stream (md5_block (md5_st ctx) blk) body,
      md5_buffer := left @ drop (length left) blk\<rparr>"
  have "ei_MD5Update ctx input n = Some (Ok ctx')"
    unfolding ei_MD5Update_def Let_def index_def [symmetric]
    using long part copy uidx cnt trans loop copy' ui' sub by (simp add: ctx'_def)
  moreover have "md5_repr ctx' (msg @ take (unat n) input)"
  proof (rule md5_reprI [where full = "full @ blk @ take q body" and rest = left])
    have "take p input @ body = take (unat n) input"
      using pn append_take_drop_id [of p "take (unat n) input"] by (simp add: body_def min_def)
    then show "msg @ take (unat n) input = (full @ blk @ take q body) @ left"
      by (simp add: m(1) blk_def left_def)
    have tq: "length (take q body) = q" using q body by simp
    show "64 dvd length (full @ blk @ take q body)" using m(2) blk tq q(3) by (simp del: length_take)
    have "md5_stream (md5_block (md5_st ctx) blk) body = md5_stream (md5_block (md5_st ctx) blk) (take q body)"
      using md5_stream_tail [of "take q body" left] tq q left by (simp add: left_def del: length_take)
    then show "md5_st ctx' = md5_stream md5_init (full @ blk @ take q body)"
      by (simp add: ctx'_def md5_stream_append [OF m(2)] md5_stream_block [OF blk] m(5))
    show "length left < 64" using left q by simp
    show "length (md5_buffer ctx') = 64" using left q blk by (simp add: ctx'_def)
    have "length (msg @ take (unat n) input) = length msg + unat n" using assms(3) by simp
    then show "count0 ctx' = word_of_nat (8 * length (msg @ take (unat n) input))"
      and "count1 ctx' = word_of_nat (8 * length (msg @ take (unat n) input) div 2 ^ 32)"
      by (simp_all only: ctx'_def c0_def c1_def add_mult_distrib2, simp_all)
  qed (simp add: ctx'_def)
  ultimately show ?thesis by blast
qed

lemma update_represents:
  assumes "md5_repr ctx msg" "unat n \<le> length input" "unat n + 63 < 2 ^ 32"
  shows "\<exists>ctx'. ei_MD5Update ctx input n = Some (Ok ctx') \<and> md5_repr ctx' (msg @ take (unat n) input)"
  using assms update_short update_long by (cases "length msg mod 64 + unat n < 64") auto

end
