(* ===== verification/Md5_Props.thy ===== *)
theory Md5_Props
  imports Ei_Md5Spec
begin

text \<open>The properties of the message digest.\<close>

section \<open>The end of the digest\<close>

lemma pad_length:
  fixes r :: nat
  assumes "r < 64"
  shows "(if r < 56 then 56 - r else 120 - r) = Suc ((119 - r) mod 64)"
proof (cases "r < 56")
  case True
  then have "119 - r = 55 - r + 64" by simp
  then have "(119 - r) mod 64 = (55 - r) mod 64" by (simp only: mod_add_self2)
  then show ?thesis using True by simp
qed (use assms in simp)

lemma padding_result:
  assumes "index = md5_index (word_of_nat (8 * l))" "padLen = (if index < 56 then 56 - index else 120 - index)"
  shows "take (unat padLen) PADDING @ Encode [word_of_nat (8 * l), word_of_nat (8 * l div 2 ^ 32)] = md5_pad l"
    "unat padLen \<le> 64"
proof -
  have idx: "unat index = l mod 64" unfolding assms(1) by (rule md5_index_result)
  have lt: "unat index < 64" unfolding idx by simp
  have "unat padLen = (if l mod 64 < 56 then 56 - l mod 64 else 120 - l mod 64)"
  proof (cases "index < 56")
    case True
    then have "l mod 64 < 56" using idx by (simp add: word_less_nat_alt)
    moreover have "unat (56 - index) = 56 - unat index" using True by (subst unat_sub) (simp_all add: word_le_nat_alt word_less_nat_alt)
    ultimately show ?thesis using True idx by (simp add: assms(2))
  next
    case False
    then have "\<not> l mod 64 < 56" using idx by (simp add: word_less_nat_alt)
    moreover have "unat (120 - index) = 120 - unat index" using lt by (subst unat_sub) (simp_all add: word_le_nat_alt)
    ultimately show ?thesis using False idx by (simp add: assms(2))
  qed
  then have pad: "unat padLen = Suc ((119 - l mod 64) mod 64)"
    using pad_length [of "l mod 64"] by simp
  then show "unat padLen \<le> 64" by (simp add: Suc_le_eq)
  then have "min 63 ((119 - l mod 64) mod 64) = (119 - l mod 64) mod 64" using pad by simp
  then show "take (unat padLen) PADDING @ Encode [word_of_nat (8 * l), word_of_nat (8 * l div 2 ^ 32)] = md5_pad l"
    by (simp add: pad PADDING_def md5_pad_nat take_replicate min.commute)
qed

lemma final_result:
  assumes "md5_repr ctx msg"
  shows "ei_MD5Final ctx = Some (Ok (md5 msg,
      \<lparr>md5_st = (0, 0, 0, 0), count0 = 0, count1 = 0, md5_buffer = replicate 64 0\<rparr>))"
proof -
  define index where "index = md5_index (count0 ctx)"
  define padLen where "padLen = (if index < 56 then 56 - index else 120 - index)"
  have c: "count0 ctx = word_of_nat (8 * length msg)" "count1 ctx = word_of_nat (8 * length msg div 2 ^ 32)"
    using assms by (simp_all only: md5_repr_def)
  define bits where "bits = Encode [count0 ctx, count1 ctx]"
  have pad: "take (unat padLen) PADDING @ bits = md5_pad (length msg)" "unat padLen \<le> 64"
    using padding_result [OF index_def [unfolded c] padLen_def] unfolding bits_def c .
  obtain ctx1 where u1: "ei_MD5Update ctx PADDING padLen = Some (Ok ctx1)"
      "md5_repr ctx1 (msg @ take (unat padLen) PADDING)"
    using update_represents [OF assms, of padLen PADDING] pad(2) by (auto simp: PADDING_def)
  obtain ctx2 where u2: "ei_MD5Update ctx1 bits 8 = Some (Ok ctx2)"
      "md5_repr ctx2 ((msg @ take (unat padLen) PADDING) @ bits)"
    using update_represents [OF u1(2), of 8 bits] by (auto simp: bits_def)
  have "md5_st ctx2 = md5_stream md5_init (msg @ md5_pad (length msg))"
    using u2(2) by (simp add: md5_repr_def pad(1))
  then show ?thesis
    using u1(1) u2(1) unfolding ei_MD5Final_def Let_def index_def [symmetric] padLen_def [symmetric] bits_def [symmetric]
    by (simp add: md5_def split: prod.splits)
qed

section \<open>A message in pieces\<close>

fun md5_feed :: "md5_ctx \<Rightarrow> byte list list \<Rightarrow> (unit, md5_ctx) res option" where
  "md5_feed ctx [] = Some (Ok ctx)"
| "md5_feed ctx (p # ps) = bindf (ei_MD5Update ctx p (word_of_nat (length p))) (\<lambda>ctx. md5_feed ctx ps)"

definition md5_pieces :: "byte list \<Rightarrow> byte list list \<Rightarrow> (unit, byte list) res option" where
  "md5_pieces buf ps =
     bindf (md5_feed (ei_MD5Init buf) ps) (\<lambda>ctx. bindf (ei_MD5Final ctx) (\<lambda>(digest, _). Some (Ok digest)))"

lemma feed_represents:
  assumes "md5_repr ctx msg" "\<forall>p\<in>set ps. length p + 63 < 2 ^ 32"
  shows "\<exists>ctx'. md5_feed ctx ps = Some (Ok ctx') \<and> md5_repr ctx' (msg @ concat ps)"
  using assms
proof (induction ps arbitrary: ctx msg)
  case Nil
  then show ?case by simp
next
  case (Cons p ps)
  have n: "unat (word_of_nat (length p) :: 32 word) = length p"
    using Cons.prems(2) by (simp add: unat_word_of_nat_32)
  obtain ctx1 where u: "ei_MD5Update ctx p (word_of_nat (length p)) = Some (Ok ctx1)" "md5_repr ctx1 (msg @ p)"
    using update_represents [OF Cons.prems(1), of "word_of_nat (length p)" p] Cons.prems(2) n by auto
  show ?case using Cons.IH [OF u(2)] Cons.prems(2) u(1) by simp
qed

text \<open>C9: \<open>ei_MD5Init\<close>, one \<open>ei_MD5Update\<close> for every piece of a message and \<open>ei_MD5Final\<close> return the MD5
  digest of the whole message as RFC 1321 defines it, wherever the message is cut (each piece up to
  \<open>2 ^ 32 - 64\<close> octets), without touching memory outside the buffer of the context.\<close>

theorem md5_of_pieces:
  assumes "length buf = 64" "\<forall>p\<in>set ps. length p + 63 < 2 ^ 32"
  shows "md5_pieces buf ps = Some (Ok (md5 (concat ps)))"
  using feed_represents [OF init_represents [OF assms(1)] assms(2)] final_result
  by (auto simp: md5_pieces_def)

theorem md5_of_pieces_witness:
  "md5_pieces (replicate 64 1) [[97], [98, 99]]
     = Some (Ok [0x90, 0x01, 0x50, 0x98, 0x3c, 0xd2, 0x4f, 0xb0, 0xd6, 0x96, 0x3f, 0x7d, 0x28, 0xe1, 0x7f, 0x72])"
proof -
  have "md5 [97, 98, 99]
      = [0x90, 0x01, 0x50, 0x98, 0x3c, 0xd2, 0x4f, 0xb0, 0xd6, 0x96, 0x3f, 0x7d, 0x28, 0xe1, 0x7f, 0x72]"
    by code_simp
  then show ?thesis using md5_of_pieces [of "replicate 64 1" "[[97], [98, 99]]"] by simp
qed

section \<open>Very long pieces\<close>

text \<open>
  \<open>i + 63 < inputLen\<close> is computed in 32 bits. When the buffer is not empty and the piece is \<open>2 ^ 32 - 1\<close>
  octets long, the sum wraps around on the last incomplete block.
\<close>

lemma rds_past_end: "0 \<le> i \<Longrightarrow> int (length b) < i + int n \<Longrightarrow> i < int (length b) + 1 \<Longrightarrow> rds b i n = (Fault :: (unit, byte list) res)"
proof (induction n arbitrary: i)
  case 0
  then show ?case by simp
next
  case (Suc n)
  show ?case
  proof (cases "i < int (length b)")
    case True
    then have "rds b (i + 1) n = (Fault :: (unit, byte list) res)" using Suc by simp
    then show ?thesis using True Suc.prems(1) by (simp add: rd_def)
  next
    case False
    then show ?thesis by (simp add: rd_def in_range_def)
  qed
qed

lemma md5_blocks_wrap:
  assumes "length input = 2 ^ 32 - 1" "unat i mod 64 \<noteq> 0"
  shows "md5_blocks st input i (- 1) = Some Fault"
  using assms(2)
proof (induction "2 ^ 32 - unat i" arbitrary: i st rule: less_induct)
  case less
  have n: "unat (- 1 :: 32 word) = 2 ^ 32 - 1" by (simp add: unsigned_minus_1_eq_mask mask_eq_exp_minus_1)
  have i: "unat i < 2 ^ 32" using unsigned_less [of i] by simp
  show ?case
  proof (cases "unat i + 64 < 2 ^ 32")
    case True
    then have i64: "unat (i + 64) = unat i + 64" and i63: "unat (i + 63) = unat i + 63"
      by (simp_all add: unat_word_ariths)
    then have lt: "i + 63 < - 1" using True n by (simp add: word_less_nat_alt)
    have "unat i + 64 \<le> length input" using True assms(1) by simp
    then have "int (unat i + 64) \<le> int (length input)" by (simp only: of_nat_le_iff)
    then obtain st' where t: "MD5Transform st input (uint i) = Ok st'"
      using transform_result [of "uint i" input st] by simp
    have "md5_blocks st' input (i + 64) (- 1) = Some Fault"
      using less.hyps [of "i + 64" st'] less.prems i i64 by simp
    then show ?thesis using lt t by (subst md5_blocks.simps) simp
  next
    case False
    moreover have "unat i + 64 \<noteq> 2 ^ 32"
    proof
      assume "unat i + 64 = 2 ^ 32"
      then have "unat i = 67108863 * 64" by simp
      then have "unat i mod 64 = 0" by (simp only: mod_mult_self2_is_0)
      then show False using less.prems by simp
    qed
    ultimately have big: "2 ^ 32 \<le> unat i + 63" by simp
    then have "unat (i + 63) = unat i + 63 - 2 ^ 32" using i by (simp add: unat_word_ariths le_mod_geq)
    then have lt: "i + 63 < - 1" using i n by (simp add: word_less_nat_alt)
    have "int (2 ^ 32) \<le> int (unat i + 63)" "int (unat i) < int (2 ^ 32)" using big i by (simp_all only: of_nat_le_iff of_nat_less_iff)
    then have "rds input (uint i) 64 = (Fault :: (unit, byte list) res)"
      using assms(1) by (intro rds_past_end) simp_all
    then show ?thesis using lt by (subst md5_blocks.simps) (simp add: MD5Transform_def)
  qed
qed

text \<open>C39: the loop condition of \<open>ei_MD5Update\<close> can wrap around: for a context with an incomplete block and an
  input of \<open>2 ^ 32 - 1\<close> octets it goes on behind the last block and reads past the end of the input.\<close>

theorem md5_update_wraps:
  assumes "md5_repr ctx msg" "length msg mod 64 \<noteq> 0" "length input = 2 ^ 32 - 1"
  shows "ei_MD5Update ctx input (- 1) = Some Fault"
proof -
  obtain full rest free where m: "length rest < 64" "length rest = length msg mod 64"
      "count0 ctx = word_of_nat (8 * length msg)" "md5_buffer ctx = rest @ free" "length rest + length free = 64"
    using assms(1) by (rule md5_reprE)
  define index where "index = md5_index (count0 ctx)"
  have idx: "unat index = length rest" unfolding index_def m(2,3) by (rule md5_index_result)
  have uidx: "uint index = int (length rest)" by (simp only: uint_nat idx)
  define p where "p = 64 - length rest"
  have part: "unat (64 - index) = p" using m(1) idx by (subst unat_sub) (simp_all add: word_le_nat_alt p_def)
  have p: "p < 64" "0 < p" using m(1,2) assms(2) by (simp_all add: p_def)
  obtain c0 c1 where cnt: "md5_count (count0 ctx) (count1 ctx) (- 1) = (c0, c1)" by (cases "md5_count (count0 ctx) (count1 ctx) (- 1)")
  define blk where "blk = rest @ take p input"
  have blk: "length blk = 64" using p assms(3) m(1) by (simp add: blk_def p_def)
  have copy: "bindr (rds input 0 p) (wrs (md5_buffer ctx) (int (length rest))) = (Ok blk :: (unit, byte list) res)"
    using copy_result [of 0 input p "take p input" "length rest" "md5_buffer ctx"] p assms(3) m(4,5)
    by (simp add: blk_def p_def)
  have trans: "MD5Transform (md5_st ctx) blk 0 = Ok (md5_block (md5_st ctx) blk)"
    using transform_result [of 0 blk "md5_st ctx"] blk by simp
  have loop: "md5_blocks (md5_block (md5_st ctx) blk) input (64 - index) (- 1) = Some Fault"
    by (rule md5_blocks_wrap [OF assms(3)]) (use part p in simp)
  show ?thesis
    unfolding ei_MD5Update_def Let_def index_def [symmetric]
    using part copy uidx cnt trans loop by simp
qed

theorem md5_update_wraps_witness:
  "\<exists>ctx. ei_MD5Update ctx (replicate (2 ^ 32 - 1) 0) (- 1) = Some Fault"
proof -
  have "\<exists>ctx'. ei_MD5Update (ei_MD5Init (replicate 64 0)) [97] 1 = Some (Ok ctx') \<and> md5_repr ctx' ([] @ take (unat (1 :: 32 word)) [97])"
    by (rule update_represents [OF init_represents]) simp_all
  then obtain ctx where "md5_repr ctx [97]" by auto
  then have "ei_MD5Update ctx (replicate (2 ^ 32 - 1) 0) (- 1) = Some Fault"
    by (rule md5_update_wraps) (simp_all only: length_replicate, simp)
  then show ?thesis ..
qed

end
