(* ===== verification/Ei_Text.thy ===== *)
theory Ei_Text
  imports Prelude
begin

text \<open>
  Characters and numbers in text: the functions of the C library that \<^verbatim>\<open>ei_format.c\<close> and
  \<^verbatim>\<open>ei_printterm.c\<close> use, in the C locale. A \<open>char\<close> is signed; the classification functions are
  false for characters that are not ASCII.
\<close>

section \<open>Characters\<close>

abbreviation (input) c_quote :: byte where "c_quote \<equiv> 34"
abbreviation (input) c_apos :: byte where "c_apos \<equiv> 39"
abbreviation (input) c_plus :: byte where "c_plus \<equiv> 43"
abbreviation (input) c_comma :: byte where "c_comma \<equiv> 44"
abbreviation (input) c_minus :: byte where "c_minus \<equiv> 45"
abbreviation (input) c_dot :: byte where "c_dot \<equiv> 46"
abbreviation (input) c_less :: byte where "c_less \<equiv> 60"
abbreviation (input) c_greater :: byte where "c_greater \<equiv> 62"
abbreviation (input) c_at :: byte where "c_at \<equiv> 64"
abbreviation (input) c_lbrack :: byte where "c_lbrack \<equiv> 91"
abbreviation (input) c_backslash :: byte where "c_backslash \<equiv> 92"
abbreviation (input) c_rbrack :: byte where "c_rbrack \<equiv> 93"
abbreviation (input) c_underscore :: byte where "c_underscore \<equiv> 95"
abbreviation (input) c_lbrace :: byte where "c_lbrace \<equiv> 123"
abbreviation (input) c_bar :: byte where "c_bar \<equiv> 124"
abbreviation (input) c_rbrace :: byte where "c_rbrace \<equiv> 125"
abbreviation (input) c_tilde :: byte where "c_tilde \<equiv> 126"

definition isspace :: "byte \<Rightarrow> bool" where
  "isspace c \<longleftrightarrow> c = 32 \<or> 9 \<le> c \<and> c \<le> 13"

definition isdigit :: "byte \<Rightarrow> bool" where
  "isdigit c \<longleftrightarrow> 48 \<le> c \<and> c \<le> 57"

definition islower :: "byte \<Rightarrow> bool" where
  "islower c \<longleftrightarrow> 97 \<le> c \<and> c \<le> 122"

definition isupper :: "byte \<Rightarrow> bool" where
  "isupper c \<longleftrightarrow> 65 \<le> c \<and> c \<le> 90"

definition isalnum :: "byte \<Rightarrow> bool" where
  "isalnum c \<longleftrightarrow> islower c \<or> isupper c \<or> isdigit c"

section \<open>Numbers\<close>

text \<open>\<open>sscanf\<close> with the conversion \<open>%lf\<close> is a parameter; nothing is stored when it is \<open>None\<close>.\<close>

type_synonym scanner = "byte list \<Rightarrow> 64 word option"

text \<open>\<open>%d\<close> and \<open>%ld\<close> of \<open>printf\<close>.\<close>

fun show_nat :: "nat \<Rightarrow> byte list" where
  "show_nat n = (if n < 10 then [word_of_nat (48 + n)] else show_nat (n div 10) @ [word_of_nat (48 + n mod 10)])"

declare show_nat.simps [simp del]

definition show_int :: "int \<Rightarrow> byte list" where
  "show_int n = (if n < 0 then c_minus # show_nat (nat (- n)) else show_nat (nat n))"

text \<open>\<open>%x\<close> takes an \<open>unsigned int\<close>.\<close>

definition hex_digit :: "nat \<Rightarrow> byte" where
  "hex_digit n = (if n < 10 then word_of_nat (48 + n) else word_of_nat (87 + n))"

fun show_hex :: "nat \<Rightarrow> byte list" where
  "show_hex n = (if n < 16 then [hex_digit n] else show_hex (n div 16) @ [hex_digit (n mod 16)])"

declare show_hex.simps [simp del]

text \<open>
  \<open>%f\<close>: six decimals, rounded to nearest with ties to even. A finite \<open>double\<close> is \<open>m * 2 ^ k\<close>;
  the quotient is rounded exactly.
\<close>

definition round_half_even :: "int \<Rightarrow> int \<Rightarrow> int" where
  "round_half_even a b =
     (let q = a div b; r = a mod b
      in if 2 * r > b \<or> 2 * r = b \<and> odd q then q + 1 else q)"

definition pad_left :: "nat \<Rightarrow> byte list \<Rightarrow> byte list" where
  "pad_left n cs = replicate (n - length cs) 48 @ cs"

definition show_f :: "64 word \<Rightarrow> byte list" where
  "show_f d =
     (let e = uint (drop_bit 52 d AND 0x7FF); m = uint (take_bit 52 d);
          sign = (if bit d 63 then [c_minus] else [])
      in sign @
        (if e = 2047 then if m = 0 then [105, 110, 102] else [110, 97, 110]
         else
           let m = (if e = 0 then m else m + 2 ^ 52); e = max e 1;
               n = (if 1075 \<le> e then m * 10 ^ 6 * 2 ^ nat (e - 1075)
                    else round_half_even (m * 10 ^ 6) (2 ^ nat (1075 - e)))
           in show_int (n div 10 ^ 6) @ [c_dot] @ pad_left 6 (show_int (n mod 10 ^ 6))))"

text \<open>
  \<open>%ld\<close> of \<open>sscanf\<close>: white space, a sign, digits. Without a digit nothing is stored, and a number
  that does not fit is undefined.
\<close>

definition digits_value :: "byte list \<Rightarrow> int" where
  "digits_value ds = foldl (\<lambda>n c. 10 * n + (uint c - 48)) 0 ds"

definition scan_ld :: "byte list \<Rightarrow> ('e, 64 word) res" where
  "scan_ld s =
     (let s = dropWhile isspace s;
          signed = s \<noteq> [] \<and> (hd s = c_minus \<or> hd s = c_plus);
          ds = takeWhile isdigit (if signed then tl s else s);
          n = (if signed \<and> hd s = c_minus then - digits_value ds else digits_value ds)
      in if ds \<noteq> [] \<and> - (2 ^ 63) \<le> n \<and> n < 2 ^ 63 then Ok (word_of_int n) else Fault)"

section \<open>Reading back a number\<close>

lemma uint_small_byte: "m < 256 \<Longrightarrow> uint (word_of_nat m :: byte) = int m"
  by (simp add: unsigned_of_nat take_bit_eq_mod)

lemma uint_digit: "n < 10 \<Longrightarrow> uint (word_of_nat (48 + n) :: byte) = 48 + int n"
  by (subst uint_small_byte) simp_all

lemma isdigit_digit: "n < 10 \<Longrightarrow> isdigit (word_of_nat (48 + n))"
  unfolding isdigit_def word_le_def by (simp only: uint_digit) simp

lemma digits_value_snoc: "digits_value (ds @ [c]) = 10 * digits_value ds + (uint c - 48)"
  by (simp add: digits_value_def)

lemma show_nat_digits: "list_all isdigit (show_nat n) \<and> show_nat n \<noteq> [] \<and> digits_value (show_nat n) = int n"
proof (induction n rule: show_nat.induct)
  case (1 n)
  show ?case
  proof (cases "n < 10")
    case True
    then show ?thesis
      using isdigit_digit [OF True] uint_digit [OF True]
      by (subst (1 2 3) show_nat.simps) (simp add: digits_value_def)
  next
    case False
    have d: "n mod 10 < 10" by simp
    have "int n = 10 * int (n div 10) + int (n mod 10)" by presburger
    then show ?thesis
      using 1(1) [OF False] False isdigit_digit [OF d] uint_digit [OF d]
      by (subst (1 2 3) show_nat.simps) (simp add: digits_value_snoc)
  qed
qed

lemma isdigit_simps [simp]: "isdigit c_minus = False" "isdigit c_plus = False" "isdigit c_dot = False"
    "isspace c_minus = False" "isspace c_plus = False"
  by (simp_all add: isdigit_def isspace_def)

lemma isdigit_not_space: "isdigit c \<Longrightarrow> \<not> isspace c"
  by (auto simp: isdigit_def isspace_def word_le_nat_alt)

lemma isdigit_not_sign: "isdigit c \<Longrightarrow> c \<noteq> c_minus \<and> c \<noteq> c_plus"
  by auto

lemma takeWhile_stops: "list_all P xs \<Longrightarrow> ys = [] \<or> \<not> P (hd ys) \<Longrightarrow> takeWhile P (xs @ ys) = xs"
  by (induction xs) (cases ys, auto)+

lemma scan_ld_show:
  assumes "- (2 ^ 63) \<le> n" "n < 2 ^ 63" "rest = [] \<or> \<not> isdigit (hd rest)"
  shows "scan_ld (show_int n @ rest) = Ok (word_of_int n)"
proof (cases "n < 0")
  case True
  note d = show_nat_digits [of "nat (- n)"]
  have "takeWhile isdigit (show_nat (nat (- n)) @ rest) = show_nat (nat (- n))"
    using d assms(3) by (intro takeWhile_stops) auto
  then show ?thesis using True d assms(1,2) by (simp add: scan_ld_def show_int_def Let_def)
next
  case False
  note d = show_nat_digits [of "nat n"]
  then obtain c cs where c: "show_nat (nat n) = c # cs" "isdigit c" by (cases "show_nat (nat n)") auto
  have "takeWhile isdigit (show_nat (nat n) @ rest) = show_nat (nat n)"
    using d assms(3) by (intro takeWhile_stops) auto
  moreover have "dropWhile isspace (show_nat (nat n) @ rest) = show_nat (nat n) @ rest"
    "hd (show_nat (nat n) @ rest) \<noteq> c_minus" "hd (show_nat (nat n) @ rest) \<noteq> c_plus"
    using c isdigit_not_space isdigit_not_sign by auto
  ultimately show ?thesis using False d assms(1,2) by (simp add: scan_ld_def show_int_def Let_def)
qed

end
