(* ===== verification/Ei_Print.thy ===== *)
theory Ei_Print
  imports Ei_XBuff Ei_Skip Ei_Text
begin

text \<open>
  Terms as text: \<^verbatim>\<open>ei_printterm.c\<close>. The text goes to a stream or to a buffer; a stream is the list
  of the characters written to it. \<open>print_term\<close> calls itself; the recursion depth is fuel. \<open>Err\<close>
  carries the destination as the failing call leaves it. Local structs and arrays are zero where
  the code leaves them uninitialised; the code reads only what it has stored.
\<close>

section \<open>Output\<close>

text \<open>\<open>fp\<close> and \<open>x\<close>: the code looks at \<open>x\<close> only when \<open>fp\<close> is NULL.\<close>

datatype dest = ToFile "byte list" | ToBuff ei_x_buff | ToNone

type_synonym 'a pres = "(dest, 'a) res"

text \<open>The result of \<open>ei_x_append_buf\<close> is ignored.\<close>

definition xputs :: "allocator \<Rightarrow> byte list \<Rightarrow> dest \<Rightarrow> dest pres" where
  "xputs alloc s out =
     (case out of
        ToFile t \<Rightarrow> Ok (ToFile (t @ s))
      | ToBuff x \<Rightarrow> (case ei_x_append_buf alloc x s (int (length s)) of
          Fault \<Rightarrow> Fault | Err x \<Rightarrow> Ok (ToBuff x) | Ok x \<Rightarrow> Ok (ToBuff x))
      | ToNone \<Rightarrow> Fault)"

definition xputc :: "allocator \<Rightarrow> byte \<Rightarrow> dest \<Rightarrow> dest pres" where
  "xputc alloc c out = xputs alloc [c] out"

text \<open>
  \<open>s\<close> is the formatted text. In front of a buffer it passes through an array of 2000 characters,
  terminating NUL included.
\<close>

definition xprintf :: "allocator \<Rightarrow> byte list \<Rightarrow> dest \<Rightarrow> (int \<times> dest) pres" where
  "xprintf alloc s out =
     (if (case out of ToFile _ \<Rightarrow> False | _ \<Rightarrow> 2000 \<le> length s) then Fault
      else bindr (xputs alloc s out) (\<lambda>out. Ok (int (length s), out)))"

section \<open>Strings and big integers\<close>

definition string_escape :: "int \<Rightarrow> byte option" where
  "string_escape c =
     (if c = 10 then Some 110 else if c = 13 then Some 114 else if c = 9 then Some 116
      else if c = 11 then Some 118 else if c = 8 then Some 98 else if c = 12 then Some 102 else None)"

text \<open>One character of the loop, a signed \<open>char\<close>; the value counts the characters written.\<close>

definition print_char :: "allocator \<Rightarrow> int \<Rightarrow> dest \<Rightarrow> (int \<times> dest) pres" where
  "print_char alloc c out =
     (if c \<ge> 32 then bindr (xputc alloc (word_of_int c) out) (\<lambda>out. Ok (1, out))
      else case string_escape c of
        Some e \<Rightarrow> bindr (xputs alloc [c_backslash, e] out) (\<lambda>out. Ok (2, out))
      | None \<Rightarrow> xprintf alloc ([c_backslash, 120] @ show_hex (unat (word_of_int c :: 32 word))) out)"

fun print_chars :: "allocator \<Rightarrow> byte list \<Rightarrow> int \<Rightarrow> nat \<Rightarrow> int \<Rightarrow> dest \<Rightarrow> (int \<times> dest) pres" where
  "print_chars alloc s i 0 ch out = Ok (ch, out)"
| "print_chars alloc s i (Suc n) ch out =
     bindr (rd s i) (\<lambda>c.
     bindr (print_char alloc (sint c) out) (\<lambda>(k, out). print_chars alloc s (i + 1) n (ch + k) out))"

definition print_string :: "allocator \<Rightarrow> byte list \<Rightarrow> int \<Rightarrow> dest \<Rightarrow> (int \<times> dest) pres" where
  "print_string alloc s len out =
     bindr (xputc alloc c_quote out) (\<lambda>out.
     bindr (print_chars alloc s 0 (nat len) 1 out) (\<lambda>(ch, out).
     bindr (xputc alloc c_quote out) (\<lambda>out. Ok (ch + 1, out))))"

text \<open>
  The loop over the digits runs up to \<open>b->arity\<close>, which counts bytes (theory \<open>Ei_Ids\<close> calls it
  \<open>big_digit_bytes\<close>). The text has to fit into \<open>buf\<close>.
\<close>

fun digits_text :: "16 word list \<Rightarrow> nat \<Rightarrow> nat \<Rightarrow> (dest, byte list) res" where
  "digits_text sp i 0 = Ok []"
| "digits_text sp i (Suc n) =
     (if i < length sp
      then bindr (digits_text sp (i + 1) n) (\<lambda>t.
           Ok (show_int (uint (sp ! i)) @ (if n \<noteq> 0 then [c_comma] else []) @ t))
      else Fault)"

definition ei_big_to_str :: "allocator \<Rightarrow> erlang_big \<Rightarrow> (dest, byte list option) res" where
  "ei_big_to_str alloc b =
     (let buf_len = 64 + big_is_neg b + 10 * uint (big_digit_bytes b)
      in if ei_malloc alloc buf_len = None then Ok None
         else bindr (digits_text (big_digits b) 0 (unat (big_digit_bytes b))) (\<lambda>ds.
              let t = (if big_is_neg b \<noteq> 0 then [c_minus] else [])
                   @ [35, 105, 110, 116, 101, 103, 101, 114, 40] \<comment> \<open>#integer(\<close>
                   @ show_int (sint (big_digit_bytes b)) @ [41, 32, 61, 32, c_lbrace] @ ds @ [c_rbrace]
              in if int (length t) < buf_len then Ok (Some t) else Fault))"

section \<open>Terms\<close>

type_synonym printer = "int \<Rightarrow> dest \<Rightarrow> (int \<times> int \<times> dest) pres option"

text \<open>
  The loop over the elements of a list or tuple, \<open>ch\<close> counts the characters. A separator follows
  unless the element is the last one.
\<close>

primrec print_elems :: "allocator \<Rightarrow> printer \<Rightarrow> nat \<Rightarrow> int \<Rightarrow> int \<Rightarrow> dest \<Rightarrow> (int \<times> int \<times> dest) pres option" where
  "print_elems alloc print 0 ch tindex out = Some (Ok (ch, tindex, out))"
| "print_elems alloc print (Suc n) ch tindex out =
     bindf (print tindex out) (\<lambda>(r, tindex, out).
       if n \<noteq> 0
       then bindf (Some (xputs alloc [c_comma, 32] out)) (\<lambda>out.
            print_elems alloc print n (ch + r + 2) tindex out)
       else print_elems alloc print n (ch + r) tindex out)"

definition print_atom :: "allocator \<Rightarrow> byte list \<Rightarrow> int \<Rightarrow> dest \<Rightarrow> (int \<times> int \<times> dest) pres" where
  "print_atom alloc buf index out =
     bindr (lift_err out (ei_decode_atom buf index (Some (replicate (nat MAXATOMLEN) 0)))) (\<lambda>(a, index).
       let name = name_of (the a);
           doquote = (name = [] \<or> \<not> islower (hd name)
             \<or> \<not> list_all (\<lambda>c. isalnum c \<or> c = c_underscore \<or> c = c_at) name);
           text = (if doquote then [c_apos] @ name @ [c_apos] else name)
       in bindr (if doquote then xputc alloc c_apos out else Ok out) (\<lambda>out.
          bindr (xputs alloc name out) (\<lambda>out.
          bindr (if doquote then xputc alloc c_apos out else Ok out) (\<lambda>out.
            Ok (int (length text), index, out)))))"

definition print_pid :: "allocator \<Rightarrow> byte list \<Rightarrow> int \<Rightarrow> dest \<Rightarrow> (int \<times> int \<times> dest) pres" where
  "print_pid alloc buf index out =
     bindr (lift_err out (ei_decode_pid buf index
       (Some \<lparr>pid_node = replicate (nat MAXATOMLEN_UTF8) 0, pid_num = 0, pid_serial = 0, pid_creation = 0\<rparr>)))
       (\<lambda>(pid, index). let pid = the pid in
     bindr (xprintf alloc ([c_less] @ name_of (pid_node pid) @ [c_dot] @ show_int (sint (pid_num pid))
         @ [c_dot] @ show_int (sint (pid_serial pid)) @ [c_greater]) out) (\<lambda>(ch, out).
       Ok (ch, index, out)))"

definition print_port :: "allocator \<Rightarrow> byte list \<Rightarrow> int \<Rightarrow> dest \<Rightarrow> (int \<times> int \<times> dest) pres" where
  "print_port alloc buf index out =
     bindr (lift_err out (ei_decode_port buf index
       (Some \<lparr>port_node = replicate (nat MAXATOMLEN_UTF8) 0, port_id = 0, port_creation = 0\<rparr>)))
       (\<lambda>(port, index). let port = the port in
     bindr (xprintf alloc ([35, 80, 111, 114, 116, c_less] @ show_int (sint (port_id port))
         @ [c_dot] @ show_int (sint (port_creation port)) @ [c_greater]) out) (\<lambda>(ch, out).
       Ok (ch, index, out)))"

text \<open>The loop runs up to \<open>ref.len\<close>; the array has three elements.\<close>

fun print_ref_ints :: "allocator \<Rightarrow> 32 word list \<Rightarrow> nat \<Rightarrow> nat \<Rightarrow> int \<Rightarrow> dest \<Rightarrow> (int \<times> dest) pres" where
  "print_ref_ints alloc n i 0 ch out = Ok (ch, out)"
| "print_ref_ints alloc n i (Suc k) ch out =
     (if i < length n
      then bindr (xprintf alloc (show_int (sint (n ! i))) out) (\<lambda>(r, out).
        if k \<noteq> 0
        then bindr (xputc alloc c_dot out) (\<lambda>out. print_ref_ints alloc n (i + 1) k (ch + r + 1) out)
        else print_ref_ints alloc n (i + 1) k (ch + r) out)
      else Fault)"

definition print_ref :: "allocator \<Rightarrow> byte list \<Rightarrow> int \<Rightarrow> dest \<Rightarrow> (int \<times> int \<times> dest) pres" where
  "print_ref alloc buf index out =
     bindr (lift_err out (ei_decode_ref buf index
       (Some \<lparr>ref_node = replicate (nat MAXATOMLEN_UTF8) 0, ref_len = 0, ref_n = [0, 0, 0], ref_creation = 0\<rparr>)))
       (\<lambda>(ref, index). let ref = the ref in
     bindr (xprintf alloc [35, 82, 101, 102, c_less] out) (\<lambda>(ch, out).
     bindr (print_ref_ints alloc (ref_n ref) 0 (nat (ref_len ref)) ch out) (\<lambda>(ch, out).
     bindr (xputc alloc c_greater out) (\<lambda>out. Ok (ch + 1, index, out)))))"

definition print_str :: "allocator \<Rightarrow> byte list \<Rightarrow> int \<Rightarrow> int \<Rightarrow> dest \<Rightarrow> (int \<times> int \<times> dest) pres" where
  "print_str alloc buf index n out =
     (case ei_malloc alloc (n + 1) of
        None \<Rightarrow> Err out
      | Some p \<Rightarrow>
          bindr (lift_err out (ei_decode_string buf index (Some p))) (\<lambda>(p, index).
          bindr (print_string alloc (the p) n out) (\<lambda>(ch, out). Ok (ch, index, out))))"

text \<open>\<open>m\<close> numbers with a comma behind each, then one more.\<close>

fun print_bytes :: "allocator \<Rightarrow> byte list \<Rightarrow> int \<Rightarrow> nat \<Rightarrow> int \<Rightarrow> dest \<Rightarrow> (int \<times> dest) pres" where
  "print_bytes alloc p i 0 ch out =
     bindr (rd p i) (\<lambda>c.
     bindr (xprintf alloc (show_int (sint c)) out) (\<lambda>(r, out). Ok (ch + r, out)))"
| "print_bytes alloc p i (Suc m) ch out =
     bindr (rd p i) (\<lambda>c.
     bindr (xprintf alloc (show_int (sint c) @ [c_comma]) out) (\<lambda>(r, out).
     print_bytes alloc p (i + 1) m (ch + r) out))"

definition BINPRINTSIZE :: int where "BINPRINTSIZE = 30"

definition print_binary :: "allocator \<Rightarrow> byte list \<Rightarrow> int \<Rightarrow> int \<Rightarrow> dest \<Rightarrow> (int \<times> int \<times> dest) pres" where
  "print_binary alloc buf index n out =
     (case ei_malloc alloc n of
        None \<Rightarrow> Err out
      | Some p \<Rightarrow>
          bindr (lift_err out (ei_decode_binary buf index (Some p))) (\<lambda>((p, l), index).
          bindr (xprintf alloc [35, 66, 105, 110, c_less] out) (\<lambda>(ch, out).
            let m = (if l > BINPRINTSIZE then BINPRINTSIZE else l)
            in bindr (print_bytes alloc (the p) 0 (nat (m - 1)) ch out) (\<lambda>(ch, out).
               bindr (if l > BINPRINTSIZE then xprintf alloc [c_comma, c_dot, c_dot, c_dot] out else Ok (0, out)) (\<lambda>(r, out).
               bindr (xputc alloc c_greater out) (\<lambda>out. Ok (ch + r + 1, index, out)))))))"

definition print_big :: "allocator \<Rightarrow> byte list \<Rightarrow> int \<Rightarrow> int \<Rightarrow> dest \<Rightarrow> (int \<times> int \<times> dest) pres" where
  "print_big alloc buf index n out =
     (let bytes = word_of_int n :: 32 word
      in case ei_alloc_big (alloc 16 \<noteq> None, alloc (uint (2 * ((bytes + 1) div 2))) \<noteq> None) bytes of
        None \<Rightarrow> Err out
      | Some b \<Rightarrow>
          bindr (lift_err out (ei_decode_big buf index (Some b))) (\<lambda>(b, index).
          bindr (ei_big_to_str alloc (the b)) (\<lambda>ds. case ds of
              None \<Rightarrow> Err out
            | Some ds \<Rightarrow> bindr (xprintf alloc ds out) (\<lambda>(ch, out). Ok (ch, index, out)))))"

text \<open>
  The result of the first \<open>ei_get_type_internal\<close> is ignored; it never is an error. \<open>n\<close> is used
  only for the types that have a length.
\<close>

definition print_step :: "allocator \<Rightarrow> scanner \<Rightarrow> byte list \<Rightarrow> printer \<Rightarrow> printer" where
  "print_step alloc scan buf print index out =
     (if out = ToNone then Some (Err out)
      else bindf (Some (lift_err out (ei_get_type_internal buf index))) (\<lambda>(ty, len).
        let n = (case len of Some n \<Rightarrow> n | None \<Rightarrow> 0)
        in if ty = ERL_ATOM_EXT then Some (print_atom alloc buf index out)
        else if ty = ERL_PID_EXT \<or> ty = ERL_NEW_PID_EXT then Some (print_pid alloc buf index out)
        else if ty = ERL_PORT_EXT \<or> ty = ERL_NEW_PORT_EXT then Some (print_port alloc buf index out)
        else if ty = ERL_NEW_REFERENCE_EXT \<or> ty = ERL_NEWER_REFERENCE_EXT \<or> ty = ERL_REFERENCE_EXT
        then Some (print_ref alloc buf index out)
        else if ty = ERL_NIL_EXT
        then bindf (Some (lift_err out (ei_decode_list_header buf index True))) (\<lambda>(_, index).
             bindf (Some (xprintf alloc [c_lbrack, c_rbrack] out)) (\<lambda>(ch, out). Some (Ok (ch, index, out))))
        else if ty = ERL_LIST_EXT
        then bindf (Some (lift_err out (ei_decode_list_header buf index True))) (\<lambda>(n, tindex).
             bindf (Some (xputc alloc c_lbrack out)) (\<lambda>out.
             bindf (print_elems alloc print (nat (the n)) 1 tindex out) (\<lambda>(ch, tindex, out).
             bindf (Some (lift_err out (ei_get_type_internal buf tindex))) (\<lambda>(ty, _).
             bindf (if ty \<noteq> ERL_NIL_EXT
                    then bindf (Some (xputs alloc [32, c_bar, 32] out)) (\<lambda>out.
                         bindf (print tindex out) (\<lambda>(r, tindex, out). Some (Ok (ch + 3 + r, tindex, out))))
                    else bindf (Some (lift_err out (ei_decode_list_header buf tindex True))) (\<lambda>(_, tindex).
                         Some (Ok (ch, tindex, out)))) (\<lambda>(ch, tindex, out).
             bindf (Some (xputc alloc c_rbrack out)) (\<lambda>out. Some (Ok (ch + 1, tindex, out))))))))
        else if ty = ERL_STRING_EXT then Some (print_str alloc buf index n out)
        else if ty = ERL_SMALL_TUPLE_EXT \<or> ty = ERL_LARGE_TUPLE_EXT
        then bindf (Some (lift_err out (ei_decode_tuple_header buf index True))) (\<lambda>(n, tindex).
             bindf (Some (xputc alloc c_lbrace out)) (\<lambda>out.
             bindf (print_elems alloc print (nat (the n)) 1 tindex out) (\<lambda>(ch, tindex, out).
             bindf (Some (xputc alloc c_rbrace out)) (\<lambda>out. Some (Ok (ch + 1, tindex, out))))))
        else if ty = ERL_BINARY_EXT then Some (print_binary alloc buf index n out)
        else if ty = ERL_SMALL_INTEGER_EXT \<or> ty = ERL_INTEGER_EXT
        then bindf (Some (lift_err out (ei_decode_long buf index))) (\<lambda>(l, index).
             bindf (Some (xprintf alloc (show_int (sint l)) out)) (\<lambda>(ch, out). Some (Ok (ch, index, out))))
        else if ty = ERL_SMALL_BIG_EXT \<or> ty = ERL_LARGE_BIG_EXT then Some (print_big alloc buf index n out)
        else if ty = ERL_FLOAT_EXT \<or> ty = NEW_FLOAT_EXT
        then bindf (Some (lift_err out (ei_decode_double (\<lambda>b i. scan (drop (nat i) b)) buf index))) (\<lambda>(d, index).
             bindf (Some (xprintf alloc (show_f d) out)) (\<lambda>(ch, out). Some (Ok (ch, index, out))))
        else Some (Err out)))"

primrec print_term :: "nat \<Rightarrow> allocator \<Rightarrow> scanner \<Rightarrow> byte list \<Rightarrow> printer" where
  "print_term 0 alloc scan buf index out = None"
| "print_term (Suc d) alloc scan buf index out = print_step alloc scan buf (print_term d alloc scan buf) index out"

definition ei_print_term :: "nat \<Rightarrow> allocator \<Rightarrow> scanner \<Rightarrow> dest \<Rightarrow> byte list \<Rightarrow> int \<Rightarrow> (int \<times> int \<times> dest) pres option" where
  "ei_print_term d alloc scan fp buf index = print_term d alloc scan buf index fp"

text \<open>
  The caller may give a buffer, which is taken to have \<open>BUFSIZ\<close> bytes. The value is the return
  value of the printer, -1 for an error, and \<open>*s\<close>.
\<close>

definition BUFSIZ :: int where "BUFSIZ = 8192"

definition ei_s_print_term ::
  "nat \<Rightarrow> allocator \<Rightarrow> scanner \<Rightarrow> ebuf \<Rightarrow> byte list \<Rightarrow> int \<Rightarrow> (unit, int \<times> ebuf) res option" where
  "ei_s_print_term d alloc scan s buf index =
     (let x = (case s of
          Some b \<Rightarrow> \<lparr>x_buff = Some b, x_buffsz = BUFSIZ, x_index = 0\<rparr>
        | None \<Rightarrow> (case ei_x_new alloc of Err x \<Rightarrow> x | Ok x \<Rightarrow> x | Fault \<Rightarrow> \<lparr>x_buff = None, x_buffsz = 0, x_index = 0\<rparr>))
      in case print_term d alloc scan buf index (ToBuff x) of
           None \<Rightarrow> None
         | Some Fault \<Rightarrow> Some Fault
         | Some r \<Rightarrow>
             (let (n, out) = (case r of Ok (ch, _, out) \<Rightarrow> (ch, out) | Err out \<Rightarrow> (- 1, out))
              in bindf (Some (lift_err () (xputs alloc [0] out))) (\<lambda>out.
                 Some (Ok (n, case out of ToBuff x \<Rightarrow> x_buff x | _ \<Rightarrow> None)))))"

end
