(* ===== verification/Ei_Format.thy ===== *)
theory Ei_Format
  imports Ei_XBuff Ei_Text
begin

text \<open>
  Terms from text: \<^verbatim>\<open>ei_format.c\<close>. The format is the array with its terminating NUL, and a
  pointer into it an offset, so that reading behind the NUL is a fault. The functions that parse
  call each other recursively. Their fuel is not the number of nested C calls: \<open>eiformat\<close> with fuel
  \<open>d + 1\<close> hands \<open>d\<close> to its loop, which uses it up element by element, and \<open>d\<close> again to every call for an
  element. In C the loop is recursive too, so a level of nesting with \<open>n\<close> elements takes \<open>n\<close> calls there.
  \<open>Err\<close> carries the output buffer
  that the failing call leaves behind.
\<close>

section \<open>Arguments\<close>

text \<open>
  What the caller passes: \<open>va_arg\<close> with another type is undefined. \<open>long\<close> and \<open>unsigned long\<close> have
  the same bits.
\<close>

datatype va =
    VaInt "32 word"
  | VaLong "64 word"
  | VaStr "byte list"
  | VaDouble "64 word"
  | VaPid erlang_pid

text \<open>The \<open>union arg\<close>; reading another member than the stored one is undefined.\<close>

datatype arg =
    ArgC byte
  | ArgS "byte list"
  | ArgL "64 word"
  | ArgD "64 word"
  | ArgPid erlang_pid

text \<open>\<open>while (*p) if (*p++ == '~') arg_count++\<close>\<close>

function count_args :: "byte list \<Rightarrow> int \<Rightarrow> int \<Rightarrow> (ei_x_buff, int) res" where
  "count_args fmt p n =
     bindr (rd fmt p) (\<lambda>c.
       if c = 0 then Ok n else count_args fmt (p + 1) (if c = c_tilde then n + 1 else n))"
  by pat_completeness auto
termination
  by (relation "measure (\<lambda>(fmt, p, _). nat (int (length fmt) - p))") (auto simp: rd_def in_range_def split: if_splits)

text \<open>One conversion; \<open>None\<close> for an invalid letter.\<close>

definition va_member :: "byte \<Rightarrow> va list \<Rightarrow> (ei_x_buff, (arg \<times> va list) option) res" where
  "va_member c ap =
     (if c = 99 \<comment> \<open>c\<close>
      then case ap of VaInt n # ap \<Rightarrow> Ok (Some (ArgC (ucast n), ap)) | _ \<Rightarrow> Fault
      else if c = 97 \<or> c = 115 \<comment> \<open>a, s\<close>
      then case ap of VaStr s # ap \<Rightarrow> Ok (Some (ArgS s, ap)) | _ \<Rightarrow> Fault
      else if c = 105 \<comment> \<open>i\<close>
      then case ap of VaInt n # ap \<Rightarrow> Ok (Some (ArgL (scast n), ap)) | _ \<Rightarrow> Fault
      else if c = 108 \<or> c = 117 \<comment> \<open>l, u\<close>
      then case ap of VaLong n # ap \<Rightarrow> Ok (Some (ArgL n, ap)) | _ \<Rightarrow> Fault
      else if c = 102 \<or> c = 100 \<comment> \<open>f, d\<close>
      then case ap of VaDouble d # ap \<Rightarrow> Ok (Some (ArgD d, ap)) | _ \<Rightarrow> Fault
      else if c = 112 \<comment> \<open>p\<close>
      then case ap of VaPid pid # ap \<Rightarrow> Ok (Some (ArgPid pid, ap)) | _ \<Rightarrow> Fault
      else Ok None)"

text \<open>The second loop fills the array of \<open>n\<close> members.\<close>

function fill_args :: "byte list \<Rightarrow> int \<Rightarrow> int \<Rightarrow> va list \<Rightarrow> arg list \<Rightarrow> (ei_x_buff, arg list option) res" where
  "fill_args fmt p n ap args =
     bindr (rd fmt p) (\<lambda>c.
       if c = 0 then Ok (Some args)
       else if c = c_tilde
       then bindr (rd fmt (p + 1)) (\<lambda>c.
            if c = 0 then Ok None
            else bindr (va_member c ap) (\<lambda>r. case r of
              None \<Rightarrow> Ok None
            | Some (a, ap) \<Rightarrow>
                if int (length args) < n then fill_args fmt (p + 2) n ap (args @ [a]) else Fault))
       else fill_args fmt (p + 1) n ap args)"
  by pat_completeness auto
termination
  by (relation "measure (\<lambda>(fmt, p, _). nat (int (length fmt) - p))") (auto simp: rd_def in_range_def split: if_splits)

declare count_args.simps [simp del] fill_args.simps [simp del]

text \<open>The result is \<open>None\<close> for -1. A union has eight bytes.\<close>

definition read_args :: "allocator \<Rightarrow> byte list \<Rightarrow> va list \<Rightarrow> (ei_x_buff, arg list option) res" where
  "read_args alloc fmt ap =
     bindr (count_args fmt 0 0) (\<lambda>n.
       if n = 0 then Ok (Some [])
       else if ei_malloc alloc (n * 8) = None then Ok None
       else fill_args fmt 0 n ap [])"

section \<open>Tokens\<close>


type_synonym parsed = "int \<times> arg list \<times> ei_x_buff"

function skip_space :: "byte list \<Rightarrow> int \<Rightarrow> ('e, int) res" where
  "skip_space fmt p = bindr (rd fmt p) (\<lambda>c. if isspace c then skip_space fmt (p + 1) else Ok p)"
  by pat_completeness auto
termination
  by (relation "measure (\<lambda>(fmt, p). nat (int (length fmt) - p))") (auto simp: rd_def in_range_def split: if_splits)

function ident_end :: "byte list \<Rightarrow> int \<Rightarrow> ('e, int) res" where
  "ident_end fmt p =
     bindr (rd fmt p) (\<lambda>c.
       if isalnum c \<or> c = c_underscore \<or> c = c_at then ident_end fmt (p + 1) else Ok p)"
  by pat_completeness auto
termination
  by (relation "measure (\<lambda>(fmt, p). nat (int (length fmt) - p))") (auto simp: rd_def in_range_def split: if_splits)

function number_end :: "byte list \<Rightarrow> int \<Rightarrow> bool \<Rightarrow> ('e, int \<times> bool) res" where
  "number_end fmt p dotp =
     bindr (rd fmt p) (\<lambda>c.
       if isdigit c then number_end fmt (p + 1) dotp
       else if \<not> dotp \<and> c = c_dot then number_end fmt (p + 1) True
       else Ok (p, dotp))"
  by pat_completeness auto
termination
  by (relation "measure (\<lambda>(fmt, p, _). nat (int (length fmt) - p))") (auto simp: rd_def in_range_def split: if_splits)

text \<open>
  The loop of \<open>pstring\<close> and, with the other quote, of \<open>pquotedatom\<close>; \<open>None\<close> at the end of the
  format. The character it compares with a backslash is the one just read.
\<close>

function quoted_end :: "byte \<Rightarrow> byte list \<Rightarrow> int \<Rightarrow> ('e, int option) res" where
  "quoted_end quote fmt p =
     bindr (rd fmt p) (\<lambda>c.
       let p' = p + 1
       in if c = 0 then Ok None
          else if c = quote
          then bindr (rd fmt (p' - 1)) (\<lambda>b.
               if b = c_backslash then quoted_end quote fmt (p + 1) else Ok (Some p'))
          else quoted_end quote fmt (p + 1))"
  by pat_completeness auto
termination
  by (relation "measure (\<lambda>(_, fmt, p). nat (int (length fmt) - p))") (auto simp: rd_def in_range_def split: if_splits)

declare skip_space.simps [simp del] ident_end.simps [simp del] number_end.simps [simp del] quoted_end.simps [simp del]

definition patom :: "allocator \<Rightarrow> byte list \<Rightarrow> int \<Rightarrow> ei_x_buff \<Rightarrow> (ei_x_buff, int \<times> ei_x_buff) res" where
  "patom alloc fmt start x =
     bindr (ident_end fmt start) (\<lambda>p.
       let len = p - start; len = (if len \<ge> MAXATOMLEN then MAXATOMLEN - 1 else len)
       in bindr (ei_x_encode_atom_len alloc x (drop (nat start) fmt) len) (\<lambda>x. Ok (p, x)))"

definition pdigit :: "allocator \<Rightarrow> scanner \<Rightarrow> byte list \<Rightarrow> int \<Rightarrow> ei_x_buff \<Rightarrow> (ei_x_buff, int \<times> ei_x_buff) res" where
  "pdigit alloc scan fmt start x =
     bindr (rd fmt start) (\<lambda>c.
     bindr (number_end fmt (if c = c_minus \<or> c = c_plus then start + 1 else start) False) (\<lambda>(p, dotp).
       if dotp
       then case scan (drop (nat start) fmt) of
              None \<Rightarrow> Fault
            | Some d \<Rightarrow> bindr (ei_x_encode_double alloc x d) (\<lambda>x. Ok (p, x))
       else bindr (scan_ld (drop (nat start) fmt)) (\<lambda>l.
            bindr (ei_x_encode_long alloc x l) (\<lambda>x. Ok (p, x)))))"

definition pstring :: "allocator \<Rightarrow> byte list \<Rightarrow> int \<Rightarrow> ei_x_buff \<Rightarrow> (ei_x_buff, int \<times> ei_x_buff) res" where
  "pstring alloc fmt p x =
     (let start = p + 1
      in bindr (quoted_end c_quote fmt start) (\<lambda>r. case r of
           None \<Rightarrow> Err x
         | Some p \<Rightarrow>
             bindr (ei_x_encode_string_len alloc x (drop (nat start) fmt) (p - start - 1)) (\<lambda>x. Ok (p, x))))"

definition pquotedatom :: "allocator \<Rightarrow> byte list \<Rightarrow> int \<Rightarrow> ei_x_buff \<Rightarrow> (ei_x_buff, int \<times> ei_x_buff) res" where
  "pquotedatom alloc fmt p x =
     (let start = p + 1
      in bindr (quoted_end c_apos fmt start) (\<lambda>r. case r of
           None \<Rightarrow> Err x
         | Some p \<Rightarrow>
             bindr (ei_x_encode_atom_len alloc x (drop (nat start) fmt) (p - start - 1)) (\<lambda>x. Ok (p, x))))"

definition encode_arg :: "allocator \<Rightarrow> byte \<Rightarrow> arg list \<Rightarrow> ei_x_buff \<Rightarrow> xres" where
  "encode_arg alloc c args x =
     (if c = 97 \<comment> \<open>a\<close>
      then case args of ArgS s # _ \<Rightarrow> ei_x_encode_atom alloc x s | _ \<Rightarrow> Fault
      else if c = 99 \<comment> \<open>c\<close>
      then case args of ArgC n # _ \<Rightarrow> ei_x_encode_char alloc x n | _ \<Rightarrow> Fault
      else if c = 115 \<comment> \<open>s\<close>
      then case args of ArgS s # _ \<Rightarrow> ei_x_encode_string alloc x s | _ \<Rightarrow> Fault
      else if c = 105 \<comment> \<open>i\<close>
      then case args of ArgL n # _ \<Rightarrow> ei_x_encode_long alloc x n | _ \<Rightarrow> Fault
      else if c = 108 \<comment> \<open>l\<close>
      then case args of ArgL n # _ \<Rightarrow> ei_x_encode_long alloc x n | _ \<Rightarrow> Fault
      else if c = 117 \<comment> \<open>u\<close>
      then case args of ArgL n # _ \<Rightarrow> ei_x_encode_ulong alloc x n | _ \<Rightarrow> Fault
      else if c = 102 \<or> c = 100 \<comment> \<open>f, d\<close>
      then case args of ArgD d # _ \<Rightarrow> ei_x_encode_double alloc x d | _ \<Rightarrow> Fault
      else if c = 112 \<comment> \<open>p\<close>
      then case args of ArgPid pid # _ \<Rightarrow> ei_x_encode_pid alloc x pid | _ \<Rightarrow> Fault
      else Err x)"

definition pformat :: "allocator \<Rightarrow> byte list \<Rightarrow> int \<Rightarrow> arg list \<Rightarrow> ei_x_buff \<Rightarrow> (ei_x_buff, parsed) res" where
  "pformat alloc fmt p args x =
     bindr (rd fmt (p + 1)) (\<lambda>c.
     bindr (encode_arg alloc c args x) (\<lambda>x. Ok (p + 2, tl args, x)))"

section \<open>Terms\<close>

text \<open>\<open>ei_x_encode_empty_list\<close> is called without a look at its result.\<close>

definition result_ignored :: "xres \<Rightarrow> xres" where
  "result_ignored r = (case r of Err x \<Rightarrow> Ok x | _ \<Rightarrow> r)"

text \<open>
  The bodies of the three functions, with the calls of the others as parameters. \<open>plist\<close> and
  \<open>ptuple\<close> also return \<open>res\<close>, the number of elements. After the tail of an improper list \<open>res\<close> is
  what \<open>eiformat\<close> returned, 0.
\<close>

type_synonym format_fun = "int \<Rightarrow> arg list \<Rightarrow> ei_x_buff \<Rightarrow> (ei_x_buff, parsed) res option"
type_synonym elems_fun = "int \<Rightarrow> arg list \<Rightarrow> ei_x_buff \<Rightarrow> int \<Rightarrow> (ei_x_buff, int \<times> parsed) res option"

definition eiformat_step ::
  "allocator \<Rightarrow> scanner \<Rightarrow> byte list \<Rightarrow> elems_fun \<Rightarrow> elems_fun \<Rightarrow> format_fun" where
  "eiformat_step alloc scan fmt plist ptuple p args x =
     bindf (Some (skip_space fmt p)) (\<lambda>p.
     bindf (Some (rd fmt p)) (\<lambda>c.
       if c = c_tilde then Some (pformat alloc fmt p args x)
       else if c = c_lbrack
       then bindf (Some (lift_err x (ei_x_new alloc))) (\<lambda>x2.
            bindf (map_option (lift_err x) (plist p args x2 0)) (\<lambda>(res, p, args, x2).
            bindf (Some (if res > 0 then ei_x_encode_list_header alloc x (word_of_int res) else Ok x)) (\<lambda>x.
            bindf (Some (ei_x_append alloc x x2)) (\<lambda>x. Some (Ok (p, args, x))))))
       else if c = c_lbrace
       then bindf (Some (lift_err x (ei_x_new alloc))) (\<lambda>x2.
            bindf (map_option (lift_err x) (ptuple p args x2 0)) (\<lambda>(res, p, args, x2).
            bindf (Some (ei_x_encode_tuple_header alloc x (word_of_int res))) (\<lambda>x.
            bindf (Some (ei_x_append alloc x x2)) (\<lambda>x. Some (Ok (p, args, x))))))
       else if c = c_quote then bindf (Some (pstring alloc fmt p x)) (\<lambda>(p, x). Some (Ok (p, args, x)))
       else if c = c_apos then bindf (Some (pquotedatom alloc fmt p x)) (\<lambda>(p, x). Some (Ok (p, args, x)))
       else if isdigit c then bindf (Some (pdigit alloc scan fmt p x)) (\<lambda>(p, x). Some (Ok (p, args, x)))
       else bindf (if c = c_minus \<or> c = c_plus then Some (rd fmt (p + 1)) else Some (Ok 0)) (\<lambda>c'.
         if (c = c_minus \<or> c = c_plus) \<and> isdigit c'
         then bindf (Some (pdigit alloc scan fmt p x)) (\<lambda>(p, x). Some (Ok (p, args, x)))
         else if islower c then bindf (Some (patom alloc fmt p x)) (\<lambda>(p, x). Some (Ok (p, args, x)))
         else Some (Err x))))"

definition ptuple_step :: "byte list \<Rightarrow> format_fun \<Rightarrow> elems_fun \<Rightarrow> elems_fun" where
  "ptuple_step fmt eiformat ptuple p args x sz =
     bindf (Some (rd fmt p)) (\<lambda>after.
       if after = c_rbrace then Some (Ok (sz, p + 1, args, x))
       else
         bindf (Some (skip_space fmt (p + 1))) (\<lambda>p.
         bindf (Some (rd fmt p)) (\<lambda>c.
           if c = c_rbrace
           then if after = c_comma then Some (Err x) else Some (Ok (sz, p + 1, args, x))
           else if c = c_comma
           then if after = c_comma \<or> after = c_lbrace then Some (Err x) else ptuple (p + 1) args x sz
           else bindf (eiformat p args x) (\<lambda>(p, args, x). ptuple p args x (sz + 1)))))"

definition plist_step :: "allocator \<Rightarrow> byte list \<Rightarrow> format_fun \<Rightarrow> elems_fun \<Rightarrow> elems_fun" where
  "plist_step alloc fmt eiformat plist p args x sz =
     bindf (Some (rd fmt p)) (\<lambda>after.
     bindf (Some (skip_space fmt (if after = c_rbrack then p else p + 1))) (\<lambda>p.
     bindf (Some (rd fmt p)) (\<lambda>c.
       if c = c_rbrack
       then if after = c_comma then Some (Err x)
            else bindf (Some (if after \<noteq> c_bar then result_ignored (ei_x_encode_empty_list alloc x) else Ok x)) (\<lambda>x.
                 Some (Ok (sz, p + 1, args, x)))
       else if c = c_bar
       then if after = c_bar \<or> after = c_comma then Some (Err x) else plist (p + 1) args x sz
       else if c = c_comma
       then if after = c_bar \<or> after = c_comma then Some (Err x) else plist (p + 1) args x sz
       else bindf (eiformat p args x) (\<lambda>(p, args, x).
            if after = c_bar
            then bindf (Some (skip_space fmt p)) (\<lambda>p.
                 bindf (Some (rd fmt p)) (\<lambda>c.
                   if c \<noteq> c_rbrack then Some (Err x) else Some (Ok (0, p, args, x))))
            else plist p args x (sz + 1)))))"

text \<open>The two loops over elements, for a given \<open>eiformat\<close>; then \<open>eiformat\<close> itself.\<close>

primrec ptuple :: "nat \<Rightarrow> byte list \<Rightarrow> format_fun \<Rightarrow> elems_fun" where
  "ptuple 0 fmt eiformat p args x sz = None"
| "ptuple (Suc d) fmt eiformat p args x sz = ptuple_step fmt eiformat (ptuple d fmt eiformat) p args x sz"

primrec plist :: "nat \<Rightarrow> allocator \<Rightarrow> byte list \<Rightarrow> format_fun \<Rightarrow> elems_fun" where
  "plist 0 alloc fmt eiformat p args x sz = None"
| "plist (Suc d) alloc fmt eiformat p args x sz =
     plist_step alloc fmt eiformat (plist d alloc fmt eiformat) p args x sz"

primrec eiformat :: "nat \<Rightarrow> allocator \<Rightarrow> scanner \<Rightarrow> byte list \<Rightarrow> format_fun" where
  "eiformat 0 alloc scan fmt p args x = None"
| "eiformat (Suc d) alloc scan fmt p args x =
     eiformat_step alloc scan fmt (plist d alloc fmt (eiformat d alloc scan fmt))
       (ptuple d fmt (eiformat d alloc scan fmt)) p args x"

definition ei_x_format_wo_ver ::
  "nat \<Rightarrow> allocator \<Rightarrow> scanner \<Rightarrow> ei_x_buff \<Rightarrow> byte list \<Rightarrow> va list \<Rightarrow> (ei_x_buff, ei_x_buff) res option" where
  "ei_x_format_wo_ver d alloc scan x fmt ap =
     bindf (Some (read_args alloc fmt ap)) (\<lambda>r. case r of
       None \<Rightarrow> Some (Err x)
     | Some args \<Rightarrow> bindf (eiformat d alloc scan fmt 0 args x) (\<lambda>(_, _, x). Some (Ok x)))"

definition ei_x_format ::
  "nat \<Rightarrow> allocator \<Rightarrow> scanner \<Rightarrow> ei_x_buff \<Rightarrow> byte list \<Rightarrow> va list \<Rightarrow> (ei_x_buff, ei_x_buff) res option" where
  "ei_x_format d alloc scan x fmt ap =
     bindf (Some (ei_x_encode_version alloc x)) (\<lambda>x.
     bindf (Some (read_args alloc fmt ap)) (\<lambda>r. case r of
       None \<Rightarrow> Some (Err x)
     | Some args \<Rightarrow> bindf (eiformat d alloc scan fmt 0 args x) (\<lambda>(_, _, x). Some (Ok x))))"

end
