(* ===== verification/Ei_FormatSpec.thy ===== *)
theory Ei_FormatSpec
  imports Ei_Format Ei_Build
begin

text \<open>
  The language of formats: its terms (\<open>fterm\<close>), their text, the arguments they take and the bytes
  they stand for, and the proof that \<open>ei_x_format\<close> turns the first into the last. The proofs follow
  the text: \<open>suf fmt p cs\<close> says that \<open>cs\<close> is what is left of the format at \<open>p\<close>.
\<close>

section \<open>The language\<close>

datatype fterm =
    FInt int
  | FAtom "byte list"
  | FQuoted "byte list"
  | FString "byte list"
  | FArg byte va
  | FList "fterm list"
  | FTuple "fterm list"

text \<open>White space \<open>ws\<close> may stand behind a comma.\<close>

definition join :: "byte list \<Rightarrow> byte list list \<Rightarrow> byte list" where
  "join ws ts = (case ts of [] \<Rightarrow> [] | t # ts \<Rightarrow> t @ concat (map (\<lambda>t. c_comma # ws @ t) ts))"

primrec ftext :: "byte list \<Rightarrow> fterm \<Rightarrow> byte list" where
  "ftext ws (FInt n) = show_int n"
| "ftext ws (FAtom a) = a"
| "ftext ws (FQuoted a) = c_apos # a @ [c_apos]"
| "ftext ws (FString s) = c_quote # s @ [c_quote]"
| "ftext ws (FArg c v) = [c_tilde, c]"
| "ftext ws (FList ts) = c_lbrack # join ws (map (ftext ws) ts) @ [c_rbrack]"
| "ftext ws (FTuple ts) = c_lbrace # join ws (map (ftext ws) ts) @ [c_rbrace]"

fun arg_of :: "byte \<Rightarrow> va \<Rightarrow> arg" where
  "arg_of c (VaInt n) = (if c = 99 then ArgC (ucast n) else ArgL (scast n))"
| "arg_of c (VaLong n) = ArgL n"
| "arg_of c (VaStr s) = ArgS s"
| "arg_of c (VaDouble d) = ArgD d"
| "arg_of c (VaPid p) = ArgPid p"

primrec fargs :: "fterm \<Rightarrow> arg list" where
  "fargs (FInt n) = []"
| "fargs (FAtom a) = []"
| "fargs (FQuoted a) = []"
| "fargs (FString s) = []"
| "fargs (FArg c v) = [arg_of c v]"
| "fargs (FList ts) = concat (map fargs ts)"
| "fargs (FTuple ts) = concat (map fargs ts)"

primrec vargs :: "fterm \<Rightarrow> va list" where
  "vargs (FInt n) = []"
| "vargs (FAtom a) = []"
| "vargs (FQuoted a) = []"
| "vargs (FString s) = []"
| "vargs (FArg c v) = [v]"
| "vargs (FList ts) = concat (map vargs ts)"
| "vargs (FTuple ts) = concat (map vargs ts)"

text \<open>The bytes of an argument; \<open>None\<close> where letter and argument do not fit or the value is refused.\<close>

fun arg_bytes :: "byte \<Rightarrow> va \<Rightarrow> byte list option" where
  "arg_bytes c (VaInt n) =
     (if c = 99 then Some [byte_of ERL_SMALL_INTEGER_EXT, ucast n]
      else if c = 105 then Some (etf_int (sint n)) else None)"
| "arg_bytes c (VaLong n) =
     (if c = 108 then Some (etf_int (sint n)) else if c = 117 then Some (etf_int (uint n)) else None)"
| "arg_bytes c (VaStr s) =
     (if c = 97 \<and> strlen s < 256 then Some (etf_atom_latin1 (name_of s))
      else if c = 115 then Some (etf_string (name_of s)) else None)"
| "arg_bytes c (VaDouble d) = (if (c = 102 \<or> c = 100) \<and> isfinite d then Some (etf_double d) else None)"
| "arg_bytes c (VaPid p) = (if c = 112 \<and> good_name (name_of (pid_node p)) then Some (etf_pid p) else None)"

primrec fbytes :: "fterm \<Rightarrow> byte list" where
  "fbytes (FInt n) = etf_int n"
| "fbytes (FAtom a) = etf_atom_latin1 (take 255 a)"
| "fbytes (FQuoted a) = etf_atom_latin1 a"
| "fbytes (FString s) = etf_string s"
| "fbytes (FArg c v) = the (arg_bytes c v)"
| "fbytes (FList ts) =
     (if ts = [] then [] else etf_list_header (int (length ts))) @ concat (map fbytes ts) @ etf_list_header 0"
| "fbytes (FTuple ts) = etf_tuple_header (int (length ts)) @ concat (map fbytes ts)"

definition identchar :: "byte \<Rightarrow> bool" where
  "identchar c \<longleftrightarrow> isalnum c \<or> c = c_underscore \<or> c = c_at"

primrec fok :: "fterm \<Rightarrow> bool" where
  "fok (FInt n) = (- (2 ^ 63) \<le> n \<and> n < 2 ^ 63)"
| "fok (FAtom a) = (a \<noteq> [] \<and> islower (hd a) \<and> list_all identchar a)"
| "fok (FQuoted a) = (set a \<inter> {0, c_apos, c_tilde} = {} \<and> length a < 256)"
| "fok (FString s) = (set s \<inter> {0, c_quote, c_tilde} = {})"
| "fok (FArg c v) = (arg_bytes c v \<noteq> None)"
| "fok (FList ts) = (int (length ts) < 2 ^ 31 \<and> list_all fok ts)"
| "fok (FTuple ts) = (int (length ts) < 2 ^ 31 \<and> list_all fok ts)"

section \<open>What is left of the format\<close>

definition suf :: "byte list \<Rightarrow> int \<Rightarrow> byte list \<Rightarrow> bool" where
  "suf fmt p cs \<longleftrightarrow> 0 \<le> p \<and> drop (nat p) fmt = cs"

lemma suf_start: "suf fmt 0 fmt"
  by (simp add: suf_def)

lemma suf_Cons:
  assumes "suf fmt p (c # cs)"
  shows "rd fmt p = Ok c" "suf fmt (p + 1) cs"
proof -
  have d: "drop (nat p) fmt = c # cs" and p: "0 \<le> p" using assms by (auto simp: suf_def)
  then have len: "nat p < length fmt" by (metis drop_all leI list.distinct(1))
  then have "fmt ! nat p = c" using d by (metis Cons_nth_drop_Suc list.inject)
  then show "rd fmt p = Ok c" using p len by (simp add: rd_def in_range_def)
  have "nat (p + 1) = Suc (nat p)" using p by simp
  then show "suf fmt (p + 1) cs" using p len d by (simp add: suf_def Cons_nth_drop_Suc [symmetric])
qed

lemma suf_append: "suf fmt p (as @ bs) \<Longrightarrow> suf fmt (p + int (length as)) bs"
  by (auto simp: suf_def nat_add_distrib) (metis append_eq_conv_conj drop_drop add.commute)

lemma suf_drop: "suf fmt p cs \<Longrightarrow> drop (nat p) fmt = cs"
  by (simp add: suf_def)

text \<open>A character behind which no name or number goes on.\<close>

definition delim :: "byte list \<Rightarrow> bool" where
  "delim cs \<longleftrightarrow> cs \<noteq> [] \<and> \<not> identchar (hd cs) \<and> hd cs \<noteq> c_dot"

lemma delim_simps [simp]: "delim (c_comma # cs)" "delim (c_rbrack # cs)" "delim (c_rbrace # cs)" "delim (0 # cs)"
  by (simp_all add: delim_def identchar_def isalnum_def islower_def isupper_def isdigit_def)

lemma skip_space_at:
  "suf fmt p (ws @ c # cs) \<Longrightarrow> list_all isspace ws \<Longrightarrow> \<not> isspace c \<Longrightarrow>
   skip_space fmt p = Ok (p + int (length ws)) \<and> suf fmt (p + int (length ws)) (c # cs)"
proof (induction ws arbitrary: p)
  case Nil
  then show ?case by (subst skip_space.simps) (simp add: suf_Cons(1) [of fmt p c cs])
next
  case (Cons w ws)
  note s = suf_Cons [OF Cons.prems(1) [simplified]]
  then show ?case using Cons.IH [OF s(2)] Cons.prems by (subst skip_space.simps) (simp add: s(1) add.assoc)
qed

lemma ident_end_at:
  "suf fmt p (a @ rest) \<Longrightarrow> list_all identchar a \<Longrightarrow> delim rest \<Longrightarrow> ident_end fmt p = Ok (p + int (length a))"
proof (induction a arbitrary: p)
  case Nil
  then obtain c cs where r: "rest = c # cs" "\<not> identchar c" by (cases rest) (auto simp: delim_def)
  then show ?case using Nil by (subst ident_end.simps) (simp add: identchar_def suf_Cons(1) [of fmt p c cs])
next
  case (Cons c a)
  note s = suf_Cons [OF Cons.prems(1) [simplified]]
  then show ?case
    using Cons.IH [OF s(2)] Cons.prems by (subst ident_end.simps) (simp add: s(1) identchar_def add.assoc)
qed

lemma number_end_at:
  "suf fmt p (ds @ rest) \<Longrightarrow> list_all isdigit ds \<Longrightarrow> delim rest \<Longrightarrow>
   number_end fmt p False = Ok (p + int (length ds), False)"
proof (induction ds arbitrary: p)
  case Nil
  then obtain c cs where r: "rest = c # cs" "\<not> isdigit c" "c \<noteq> c_dot"
    by (cases rest) (auto simp: delim_def identchar_def isalnum_def)
  then show ?case using Nil by (subst number_end.simps) (simp add: suf_Cons(1) [of fmt p c cs])
next
  case (Cons c ds)
  note s = suf_Cons [OF Cons.prems(1) [simplified]]
  then show ?case using Cons.IH [OF s(2)] Cons.prems by (subst number_end.simps) (simp add: s(1) add.assoc)
qed

lemma quoted_end_at:
  "suf fmt p (s @ q # rest) \<Longrightarrow> set s \<inter> {0, q} = {} \<Longrightarrow> q \<noteq> 0 \<Longrightarrow> q \<noteq> c_backslash \<Longrightarrow>
   quoted_end q fmt p = Ok (Some (p + int (length s) + 1))"
proof (induction s arbitrary: p)
  case Nil
  then show ?case by (subst quoted_end.simps) (simp add: Let_def suf_Cons(1) [of fmt p q rest])
next
  case (Cons c s)
  note s = suf_Cons [OF Cons.prems(1) [simplified]]
  then show ?case
    using Cons.IH [OF s(2)] Cons.prems by (subst quoted_end.simps) (auto simp add: s(1) Let_def add.assoc add.commute)
qed

section \<open>Encoding with enough memory\<close>

definition plenty :: "allocator \<Rightarrow> bool" where
  "plenty alloc \<longleftrightarrow> alloc_ok alloc \<and> (\<forall>n \<ge> 0. alloc n \<noteq> None)"

lemma plenty_plain: "plenty plain_alloc"
  by (simp add: plenty_def alloc_ok_plain plain_alloc_Some)

lemma adds_plenty:
  assumes "adds alloc f bs" "plenty alloc" "fits x bs"
  obtains x' where "f x = Ok x'" "x_ok x'" "x_data x' = x_data x @ bs"
proof -
  have "case f x of Fault \<Rightarrow> \<not> fits x bs | Err _ \<Rightarrow> \<exists>n \<ge> 0. alloc n = None
      | Ok x' \<Rightarrow> x_ok x' \<and> x_data x' = x_data x @ bs"
    using assms(1,3) by (simp add: adds_def)
  then show thesis using that assms(2,3) by (cases "f x") (auto simp: plenty_def)
qed

lemma sized_encoder_atom_latin1:
  "0 \<le> n \<Longrightarrow> n < 256 \<Longrightarrow> nat n \<le> length p \<Longrightarrow>
   sized_encoder (\<lambda>b i. ei_encode_atom_len_as b i p n ERLANG_LATIN1 t) (Some (etf_atom_latin1 (take (nat n) p))) 0"
  by unfold_locales (simp_all add: ei_encode_atom_latin1_emit)

lemma sized_encoder_string_len:
  "0 \<le> n \<Longrightarrow> nat n \<le> length p \<Longrightarrow>
   sized_encoder (\<lambda>b i. ei_encode_string_len b i p n) (Some (etf_string (take (nat n) p))) 0"
  by unfold_locales (auto simp: ei_encode_string_len_emit)

lemma atom_len_adds:
  "alloc_ok alloc \<Longrightarrow> n < 256 \<Longrightarrow> n \<le> length p \<Longrightarrow>
   adds alloc (\<lambda>x. ei_x_encode_atom_len alloc x p (int n)) (etf_atom_latin1 (take n p))"
  using adds_encoder [OF sized_encoder_atom_latin1 [of "int n" p]]
  by (simp add: ei_x_encode_atom_len_def ei_x_encode_atom_len_as_def)

lemma string_len_adds:
  "alloc_ok alloc \<Longrightarrow> n \<le> length p \<Longrightarrow>
   adds alloc (\<lambda>x. ei_x_encode_string_len alloc x p (int n)) (etf_string (take n p))"
  using adds_encoder [OF sized_encoder_string_len [of "int n" p]] by (simp add: ei_x_encode_string_len_def)

lemma long_adds: "alloc_ok alloc \<Longrightarrow> adds alloc (\<lambda>x. ei_x_encode_long alloc x n) (etf_int (sint n))"
  using adds_encoder [OF x_long.sized_encoder_axioms] by (simp add: ei_x_encode_long_def)

lemma version_adds: "alloc_ok alloc \<Longrightarrow> adds alloc (ei_x_encode_version alloc) [byte_of ERL_VERSION_MAGIC]"
  using adds_encoder [OF x_version.sized_encoder_axioms] by (simp add: ei_x_encode_version_def [abs_def])

lemma empty_list_adds: "alloc_ok alloc \<Longrightarrow> adds alloc (ei_x_encode_empty_list alloc) (etf_list_header 0)"
  using adds_encoder [OF x_empty_list.sized_encoder_axioms] by (simp add: ei_x_encode_empty_list_def [abs_def])

lemma list_header_adds:
  "alloc_ok alloc \<Longrightarrow> int n < 2 ^ 31 \<Longrightarrow>
   adds alloc (\<lambda>x. ei_x_encode_list_header alloc x (word_of_nat n)) (etf_list_header (int n))"
  using adds_unless [OF x_list_header.sized_encoder_axioms _, of "int n"]
  by (simp add: ei_x_encode_list_header_def as_int_nat)

lemma tuple_header_adds:
  "alloc_ok alloc \<Longrightarrow> int n < 2 ^ 31 \<Longrightarrow>
   adds alloc (\<lambda>x. ei_x_encode_tuple_header alloc x (word_of_nat n)) (etf_tuple_header (int n))"
  using adds_unless [OF x_tuple_header.sized_encoder_axioms _, of "int n"]
  by (simp add: ei_x_encode_tuple_header_def as_int_nat)

text \<open>An argument and its letter.\<close>

lemma scast_sint: "sint (scast (n :: 32 word) :: 64 word) = sint n"
  by (simp add: sint_up_scast is_up)

lemma encode_arg_adds:
  assumes "alloc_ok alloc" "arg_bytes c v = Some bs"
  shows "adds alloc (encode_arg alloc c (arg_of c v # args)) bs"
proof (cases v)
  case (VaInt n)
  then show ?thesis
    using assms adds_encoder [OF x_char.sized_encoder_axioms assms(1), of "ucast n"]
      long_adds [OF assms(1), of "scast n"]
    by (auto simp: encode_arg_def [abs_def] ei_x_encode_char_def scast_sint split: if_splits)
next
  case (VaLong n)
  then show ?thesis
    using assms adds_encoder [OF x_ulong.sized_encoder_axioms assms(1), of n] long_adds [OF assms(1), of n]
    by (auto simp: encode_arg_def [abs_def] ei_x_encode_ulong_def split: if_splits)
next
  case (VaStr s)
  have s: "strlen s \<le> length s" by (rule strlen_le)
  show ?thesis
    using VaStr assms atom_len_adds [OF assms(1) _ s] string_len_adds [OF assms(1) s]
    by (auto simp: encode_arg_def [abs_def] ei_x_encode_atom_def ei_x_encode_atom_len_def ei_x_encode_string_def
        name_of_def split: if_splits)
next
  case (VaDouble d)
  then show ?thesis
    using assms adds_if [OF x_double.sized_encoder_axioms _ assms(1), of d]
    by (auto simp: encode_arg_def [abs_def] ei_x_encode_double_def split: if_splits)
next
  case (VaPid p)
  then show ?thesis
    using assms adds_if [OF x_pid.sized_encoder_axioms _ assms(1), of p]
    by (auto simp: encode_arg_def [abs_def] ei_x_encode_pid_def split: if_splits)
qed

text \<open>Inner buffers.\<close>

lemma x_new_plenty:
  assumes "plenty alloc"
  obtains x where "ei_x_new alloc = Ok x" "x_ok x" "x_data x = []"
proof -
  obtain x where "ei_x_new alloc = Ok x"
    using assms by (auto simp: plenty_def ei_x_new_def ei_malloc_def Let_def)
  with ei_x_new_ok [OF _ this] that assms show thesis by (simp add: plenty_def)
qed

lemma x_append_plenty:
  assumes "plenty alloc" "fits x (x_data x2)" "x_ok x2"
  obtains x' where "ei_x_append alloc x x2 = Ok x'" "x_ok x'" "x_data x' = x_data x @ x_data x2"
proof -
  obtain b where b: "x_buff x2 = Some b" "int (length b) = x_buffsz x2" "0 \<le> x_index x2" "x_index x2 \<le> x_buffsz x2"
    using assms(3) by (rule x_okE)
  have l: "nat (x_index x2) \<le> length b" using b by linarith
  have x: "x_ok x" "0 \<le> x_index x" using assms(2) by (auto elim: x_okE dest: fits_ok)
  have d: "x_data x2 = take (nat (x_index x2)) b" by (simp add: x_data_def b(1))
  have a: "alloc_ok alloc" using assms(1) by (simp add: plenty_def)
  have "alloc (x_index x + x_index x2 + 2 * ei_x_extra) \<noteq> None"
    using assms(1) x(2) b(3) unfolding plenty_def by simp
  then show thesis
    using that assms(2) ei_x_append_buf_cases [OF x(1) a b(3) l] b(1)
    by (auto simp: ei_x_append_def d split: res.splits)
qed

section \<open>Parsing single tokens\<close>

text \<open>
  \<open>reads alloc fmt f txt as bs\<close>: at the text \<open>txt\<close> the parser \<open>f\<close> consumes it and the arguments \<open>as\<close>
  and appends \<open>bs\<close> to the output.
\<close>

definition reads :: "allocator \<Rightarrow> byte list \<Rightarrow> format_fun \<Rightarrow> byte list \<Rightarrow> arg list \<Rightarrow> byte list \<Rightarrow> bool" where
  "reads alloc fmt f txt as bs \<longleftrightarrow>
     (\<forall>p rest args x. suf fmt p (txt @ rest) \<longrightarrow> delim rest \<longrightarrow> fits x bs \<longrightarrow>
        (\<exists>x'. f p (as @ args) x = Some (Ok (p + int (length txt), args, x'))
          \<and> x_ok x' \<and> x_data x' = x_data x @ bs))"

lemma readsI:
  assumes "\<And>p rest args x. suf fmt p (txt @ rest) \<Longrightarrow> delim rest \<Longrightarrow> fits x bs \<Longrightarrow>
    \<exists>x'. f p (as @ args) x = Some (Ok (p + int (length txt), args, x')) \<and> x_ok x' \<and> x_data x' = x_data x @ bs"
  shows "reads alloc fmt f txt as bs"
  using assms by (simp add: reads_def)

lemma readsE:
  assumes "reads alloc fmt f txt as bs" "suf fmt p (txt @ rest)" "delim rest" "fits x bs"
  obtains x' where "f p (as @ args) x = Some (Ok (p + int (length txt), args, x'))" "x_ok x'" "x_data x' = x_data x @ bs"
  using assms unfolding reads_def by blast

text \<open>The first character decides; it is no white space.\<close>

lemma eiformat_first:
  assumes "suf fmt p (c # cs)" "\<not> isspace c"
  shows "skip_space fmt p = Ok p" "rd fmt p = Ok c"
  using skip_space_at [of fmt p "[]" c cs] assms suf_Cons(1) [OF assms(1)] by simp_all

lemma chars [simp]: "\<not> isspace c_tilde" "\<not> isspace c_lbrack" "\<not> isspace c_rbrack" "\<not> isspace c_lbrace"
    "\<not> isspace c_rbrace" "\<not> isspace c_quote" "\<not> isspace c_apos" "\<not> isspace c_comma"
    "\<not> isspace c_minus" "\<not> isspace 0"
  by (simp_all add: isspace_def)

lemma islower_other: "islower c \<Longrightarrow> c \<notin> {c_tilde, c_lbrack, c_lbrace, c_quote, c_apos, c_minus, c_plus, c_comma, c_bar, c_rbrack, c_rbrace, 0}
    \<and> \<not> isdigit c \<and> \<not> isspace c"
  by (auto simp: islower_def isdigit_def isspace_def word_le_nat_alt)

lemma isdigit_other: "isdigit c \<Longrightarrow> c \<notin> {c_tilde, c_lbrack, c_lbrace, c_quote, c_apos, c_minus, c_plus, c_comma, c_bar, c_rbrack, c_rbrace, 0}
    \<and> \<not> isspace c"
  by (auto simp: isdigit_def isspace_def word_le_nat_alt)

lemma reads_atom:
  assumes "plenty alloc" "a \<noteq> []" "islower (hd a)" "list_all identchar a"
  shows "reads alloc fmt (eiformat (Suc d) alloc scan fmt) a [] (etf_atom_latin1 (take 255 a))"
proof (rule readsI)
  fix p rest args x
  assume p: "suf fmt p (a @ rest)" "delim rest" "fits x (etf_atom_latin1 (take 255 a))"
  obtain c cs where c: "a = c # cs" "islower c" using assms(2,3) by (cases a) auto
  have "\<not> isspace c" using islower_other [OF c(2)] by blast
  note first = eiformat_first [OF p(1) [unfolded c append_Cons] this]
  define len where "len = (if int (length a) \<ge> MAXATOMLEN then MAXATOMLEN - 1 else int (length a))"
  have len: "len = int (min (length a) 255)" by (auto simp: len_def min_def)
  have t: "take (min (length a) 255) (a @ rest) = take 255 a" by (simp add: min_def)
  have "adds alloc (\<lambda>x. ei_x_encode_atom_len alloc x (a @ rest) (int (min (length a) 255)))
      (etf_atom_latin1 (take (min (length a) 255) (a @ rest)))"
    using assms(1) by (intro atom_len_adds) (auto simp: plenty_def)
  then obtain x' where x': "ei_x_encode_atom_len alloc x (a @ rest) len = Ok x'" "x_ok x'"
    "x_data x' = x_data x @ etf_atom_latin1 (take 255 a)"
    using adds_plenty [OF _ assms(1) p(3)] unfolding len t by blast
  have "patom alloc fmt p x = Ok (p + int (length a), x')"
    using x'(1) by (simp add: patom_def ident_end_at [OF p(1) assms(4) p(2)] suf_drop [OF p(1)] Let_def len_def
        split: if_splits)
  then show "\<exists>x'. eiformat (Suc d) alloc scan fmt p ([] @ args) x = Some (Ok (p + int (length a), args, x'))
      \<and> x_ok x' \<and> x_data x' = x_data x @ etf_atom_latin1 (take 255 a)"
    using x' c islower_other [OF c(2)] by (simp add: first eiformat_step_def)
qed

lemma reads_int:
  assumes "plenty alloc" "- (2 ^ 63) \<le> n" "n < 2 ^ 63"
  shows "reads alloc fmt (eiformat (Suc d) alloc scan fmt) (show_int n) [] (etf_int n)"
proof (rule readsI)
  fix p rest args x
  assume p: "suf fmt p (show_int n @ rest)" "delim rest" "fits x (etf_int n)"
  have "sint (word_of_int n :: 64 word) = n" using assms by (simp add: signed_of_int signed_take_bit_int_eq_self)
  then have "adds alloc (\<lambda>x. ei_x_encode_long alloc x (word_of_int n)) (etf_int n)"
    using long_adds [of alloc "word_of_int n"] assms(1) by (simp add: plenty_def)
  then obtain x' where x': "ei_x_encode_long alloc x (word_of_int n) = Ok x'" "x_ok x'" "x_data x' = x_data x @ etf_int n"
    using adds_plenty [OF _ assms(1) p(3)] by blast
  have nd: "rest = [] \<or> \<not> isdigit (hd rest)" using p(2) by (simp add: delim_def identchar_def isalnum_def)
  have scan: "scan_ld (drop (nat p) fmt) = (Ok (word_of_int n) :: (ei_x_buff, 64 word) res)"
    unfolding suf_drop [OF p(1)] by (rule scan_ld_show [OF assms(2,3) nd])
  show "\<exists>x'. eiformat (Suc d) alloc scan fmt p ([] @ args) x = Some (Ok (p + int (length (show_int n)), args, x'))
      \<and> x_ok x' \<and> x_data x' = x_data x @ etf_int n"
  proof (cases "n < 0")
    case True
    note ds = show_nat_digits [of "nat (- n)"]
    have q: "suf fmt p (c_minus # show_nat (nat (- n)) @ rest)" using p(1) True by (simp add: show_int_def)
    obtain c cs where c: "show_nat (nat (- n)) = c # cs" "isdigit c" using ds by (cases "show_nat (nat (- n))") auto
    have "number_end fmt (p + 1) False = (Ok (p + 1 + int (length (show_nat (nat (- n)))), False) :: (ei_x_buff, _) res)"
      using number_end_at [OF suf_Cons(2) [OF q] _ p(2)] ds by blast
    moreover have "rd fmt (p + 1) = (Ok c :: (ei_x_buff, byte) res)"
      using suf_Cons(1) [of fmt "p + 1" c] suf_Cons(2) [OF q] c(1) by simp
    ultimately show ?thesis
      using c(2) x' scan True
      by (simp add: eiformat_first [OF q] eiformat_step_def pdigit_def show_int_def)
  next
    case False
    note ds = show_nat_digits [of "nat n"]
    have q: "suf fmt p (show_nat (nat n) @ rest)" using p(1) False by (simp add: show_int_def)
    obtain c cs where c: "show_nat (nat n) = c # cs" "isdigit c" using ds by (cases "show_nat (nat n)") auto
    have "number_end fmt p False = (Ok (p + int (length (show_nat (nat n))), False) :: (ei_x_buff, _) res)"
      using number_end_at [OF q _ p(2)] ds by blast
    then show ?thesis
      using isdigit_other [OF c(2)] c(2) x' scan False
      by (simp add: eiformat_first [OF q [unfolded c append_Cons]] eiformat_step_def pdigit_def show_int_def)
  qed
qed

lemma reads_quoted:
  assumes "plenty alloc" "set a \<inter> {0, c_apos} = {}" "length a < 256"
  shows "reads alloc fmt (eiformat (Suc d) alloc scan fmt) (c_apos # a @ [c_apos]) [] (etf_atom_latin1 a)"
proof (rule readsI)
  fix p rest args x
  assume p: "suf fmt p ((c_apos # a @ [c_apos]) @ rest)" "delim rest" "fits x (etf_atom_latin1 a)"
  then have q: "suf fmt p (c_apos # a @ c_apos # rest)" by simp
  note q' = suf_Cons(2) [OF q]
  have "adds alloc (\<lambda>x. ei_x_encode_atom_len alloc x (a @ c_apos # rest) (int (length a)))
      (etf_atom_latin1 (take (length a) (a @ c_apos # rest)))"
    using assms(1,3) by (intro atom_len_adds) (auto simp: plenty_def)
  then obtain x' where x': "ei_x_encode_atom_len alloc x (a @ c_apos # rest) (int (length a)) = Ok x'" "x_ok x'"
    "x_data x' = x_data x @ etf_atom_latin1 a"
    using adds_plenty [OF _ assms(1) p(3)] by auto
  have "pquotedatom alloc fmt p x = Ok (p + int (length (c_apos # a @ [c_apos])), x')"
    using x'(1) by (simp add: pquotedatom_def Let_def quoted_end_at [OF q' assms(2)] suf_drop [OF q'] add.assoc)
  then show "\<exists>x'. eiformat (Suc d) alloc scan fmt p ([] @ args) x
        = Some (Ok (p + int (length (c_apos # a @ [c_apos])), args, x'))
      \<and> x_ok x' \<and> x_data x' = x_data x @ etf_atom_latin1 a"
    using x' by (simp add: eiformat_first [OF q] eiformat_step_def)
qed

lemma reads_string:
  assumes "plenty alloc" "set a \<inter> {0, c_quote} = {}"
  shows "reads alloc fmt (eiformat (Suc d) alloc scan fmt) (c_quote # a @ [c_quote]) [] (etf_string a)"
proof (rule readsI)
  fix p rest args x
  assume p: "suf fmt p ((c_quote # a @ [c_quote]) @ rest)" "delim rest" "fits x (etf_string a)"
  then have q: "suf fmt p (c_quote # a @ c_quote # rest)" by simp
  note q' = suf_Cons(2) [OF q]
  have "adds alloc (\<lambda>x. ei_x_encode_string_len alloc x (a @ c_quote # rest) (int (length a)))
      (etf_string (take (length a) (a @ c_quote # rest)))"
    using assms(1) by (intro string_len_adds) (auto simp: plenty_def)
  then obtain x' where x': "ei_x_encode_string_len alloc x (a @ c_quote # rest) (int (length a)) = Ok x'" "x_ok x'"
    "x_data x' = x_data x @ etf_string a"
    using adds_plenty [OF _ assms(1) p(3)] by auto
  have "pstring alloc fmt p x = Ok (p + int (length (c_quote # a @ [c_quote])), x')"
    using x'(1) by (simp add: pstring_def Let_def quoted_end_at [OF q' assms(2)] suf_drop [OF q'] add.assoc)
  then show "\<exists>x'. eiformat (Suc d) alloc scan fmt p ([] @ args) x
        = Some (Ok (p + int (length (c_quote # a @ [c_quote])), args, x'))
      \<and> x_ok x' \<and> x_data x' = x_data x @ etf_string a"
    using x' by (simp add: eiformat_first [OF q] eiformat_step_def)
qed

lemma reads_arg:
  assumes "plenty alloc" "arg_bytes c v = Some bs"
  shows "reads alloc fmt (eiformat (Suc d) alloc scan fmt) [c_tilde, c] [arg_of c v] bs"
proof (rule readsI)
  fix p rest args x
  assume p: "suf fmt p ([c_tilde, c] @ rest)" "delim rest" "fits x bs"
  then have q: "suf fmt p (c_tilde # c # rest)" by simp
  obtain x' where x': "encode_arg alloc c (arg_of c v # args) x = Ok x'" "x_ok x'" "x_data x' = x_data x @ bs"
    using adds_plenty [OF encode_arg_adds [OF _ assms(2)] assms(1) p(3)] assms(1) by (auto simp: plenty_def)
  have "pformat alloc fmt p (arg_of c v # args) x = Ok (p + 2, args, x')"
    using x'(1) by (simp add: pformat_def suf_Cons(1) [OF suf_Cons(2) [OF q]])
  then show "\<exists>x'. eiformat (Suc d) alloc scan fmt p ([arg_of c v] @ args) x
        = Some (Ok (p + int (length [c_tilde, c]), args, x')) \<and> x_ok x' \<and> x_data x' = x_data x @ bs"
    using x' by (simp add: eiformat_first [OF q] eiformat_step_def)
qed

section \<open>Parsing elements\<close>

text \<open>An element starts with a character that the loops do not treat themselves.\<close>

definition starts :: "byte list \<Rightarrow> bool" where
  "starts cs \<longleftrightarrow> (\<exists>c cs'. cs = c # cs' \<and> \<not> isspace c \<and> c \<notin> {c_comma, c_bar, c_rbrack, c_rbrace})"

text \<open>
  The contract of the two loops: what they do behind an opening bracket or a comma, and at the
  closing bracket. \<open>fin\<close> is what the end adds to the output.
\<close>

locale element_loop =
  fixes loop :: "nat \<Rightarrow> elems_fun" and alloc :: allocator and fmt :: "byte list" and f :: format_fun
    and openc :: byte and closec :: byte and fin :: "byte list"
  assumes step: "suf fmt p (after # ws @ txt @ rest) \<Longrightarrow> after \<in> {c_comma, openc} \<Longrightarrow> list_all isspace ws \<Longrightarrow>
      starts txt \<Longrightarrow> reads alloc fmt f txt as bs \<Longrightarrow> delim rest \<Longrightarrow> fits x bs \<Longrightarrow>
      \<exists>x'. loop (Suc d) p (as @ args) x sz = loop d (p + 1 + int (length ws) + int (length txt)) args x' (sz + 1)
        \<and> x_ok x' \<and> x_data x' = x_data x @ bs"
    and finish: "suf fmt p (closec # rest) \<Longrightarrow> fits x fin \<Longrightarrow>
      \<exists>x'. loop (Suc d) p args x sz = Some (Ok (sz, p + 1, args, x')) \<and> x_ok x' \<and> x_data x' = x_data x @ fin"
    and empty: "suf fmt p (openc # closec # rest) \<Longrightarrow> fits x fin \<Longrightarrow>
      \<exists>x'. loop (Suc d) p args x sz = Some (Ok (sz, p + 2, args, x')) \<and> x_ok x' \<and> x_data x' = x_data x @ fin"
    and closec: "delim (closec # cs)"
begin

definition element :: "byte list \<times> arg list \<times> byte list \<Rightarrow> bool" where
  "element e = (case e of (txt, as, bs) \<Rightarrow> starts txt \<and> reads alloc fmt f txt as bs)"

abbreviation "rest_of ws es \<equiv> concat (map (\<lambda>e. c_comma # ws @ fst e) es)"

lemma more:
  "suf fmt p (rest_of ws es @ closec # rest) \<Longrightarrow> list_all element es \<Longrightarrow> list_all isspace ws \<Longrightarrow>
   fits x (concat (map (\<lambda>e. snd (snd e)) es) @ fin) \<Longrightarrow> length es < d \<Longrightarrow>
   \<exists>x'. loop d p (concat (map (\<lambda>e. fst (snd e)) es) @ args) x sz =
       Some (Ok (sz + int (length es), p + int (length (rest_of ws es)) + 1, args, x'))
     \<and> x_ok x' \<and> x_data x' = x_data x @ concat (map (\<lambda>e. snd (snd e)) es) @ fin"
proof (induction es arbitrary: p x sz d)
  case Nil
  then obtain d' where "d = Suc d'" by (cases d) auto
  then show ?case using finish [of p rest x d' args sz] Nil by simp
next
  case (Cons e es)
  obtain tx ag bs where e: "e = (tx, ag, bs)" by (cases e)
  obtain d' where d: "d = Suc d'" "length es < d'" using Cons.prems(5) by (cases d) auto
  define rest' where "rest' = rest_of ws es @ closec # rest"
  have delim: "delim rest'" unfolding rest'_def using closec by (cases es) (auto simp: delim_simps(1))
  have f: "fits x bs" "fits x (bs @ concat (map (\<lambda>e. snd (snd e)) es) @ fin)"
    using Cons.prems(4) by (auto simp: e)
  have p: "suf fmt p (c_comma # ws @ tx @ rest')" using Cons.prems(1) by (simp add: e rest'_def)
  obtain x1 where x1: "loop (Suc d') p (ag @ concat (map (\<lambda>e. fst (snd e)) es) @ args) x sz
      = loop d' (p + 1 + int (length ws) + int (length tx)) (concat (map (\<lambda>e. fst (snd e)) es) @ args) x1 (sz + 1)"
      "x_ok x1" "x_data x1 = x_data x @ bs"
    using step [OF p _ Cons.prems(3) _ _ delim f(1), of ag d'] Cons.prems(2)
    by (auto simp: e element_def)
  note f2 = fits_after [OF f(2) x1(2,3)]
  have q: "suf fmt (p + 1 + int (length ws) + int (length tx)) (rest_of ws es @ closec # rest)"
    using suf_append [of fmt p "c_comma # ws @ tx" rest'] p by (simp add: rest'_def add.assoc)
  obtain x2 where "loop d' (p + 1 + int (length ws) + int (length tx)) (concat (map (\<lambda>e. fst (snd e)) es) @ args) x1 (sz + 1)
      = Some (Ok (sz + 1 + int (length es), p + 1 + int (length ws) + int (length tx) + int (length (rest_of ws es)) + 1, args, x2))"
      "x_ok x2" "x_data x2 = x_data x1 @ concat (map (\<lambda>e. snd (snd e)) es) @ fin"
    using Cons.IH [OF q _ Cons.prems(3) f2 d(2), where sz = "sz + 1"] Cons.prems(2) by auto
  then show ?case using x1 by (simp add: d e add.assoc)
qed

lemma elements:
  assumes "suf fmt p (openc # join ws (map fst es) @ closec # rest)" "list_all element es" "list_all isspace ws"
    "list_all isspace ws" "fits x (concat (map (\<lambda>e. snd (snd e)) es) @ fin)" "length es < d"
  shows "\<exists>x'. loop d p (concat (map (\<lambda>e. fst (snd e)) es) @ args) x sz =
       Some (Ok (sz + int (length es), p + int (length (join ws (map fst es))) + 2, args, x'))
     \<and> x_ok x' \<and> x_data x' = x_data x @ concat (map (\<lambda>e. snd (snd e)) es) @ fin"
proof (cases es)
  case Nil
  obtain d' where "d = Suc d'" using assms(6) by (cases d) auto
  then show ?thesis using Nil empty [of p rest x d' args sz] assms(1,5) by (simp add: join_def)
next
  case (Cons e es')
  obtain tx ag bs where e: "e = (tx, ag, bs)" by (cases e)
  obtain d' where d: "d = Suc d'" "length es' < d'" using assms(6) Cons by (cases d) auto
  define rest' where "rest' = rest_of ws es' @ closec # rest"
  have delim: "delim rest'" unfolding rest'_def using closec by (cases es') (auto simp: delim_simps(1))
  have j: "join ws (map fst es) = tx @ rest_of ws es'" by (simp add: Cons e join_def comp_def)
  have f: "fits x bs" "fits x (bs @ concat (map (\<lambda>e. snd (snd e)) es') @ fin)"
    using assms(5) by (auto simp: Cons e)
  have p: "suf fmt p (openc # [] @ tx @ rest')" using assms(1) by (simp add: j rest'_def)
  obtain x1 where x1: "loop (Suc d') p (ag @ concat (map (\<lambda>e. fst (snd e)) es') @ args) x sz
      = loop d' (p + 1 + int (length []) + int (length tx)) (concat (map (\<lambda>e. fst (snd e)) es') @ args) x1 (sz + 1)"
      "x_ok x1" "x_data x1 = x_data x @ bs"
    using step [OF p _ _ _ _ delim f(1), of ag d'] assms(2)
    by (auto simp: Cons e element_def)
  note f2 = fits_after [OF f(2) x1(2,3)]
  have q: "suf fmt (p + 1 + int (length tx)) (rest_of ws es' @ closec # rest)"
    using suf_append [of fmt p "openc # tx" rest'] p by (simp add: rest'_def add.assoc)
  obtain x2 where "loop d' (p + 1 + int (length tx)) (concat (map (\<lambda>e. fst (snd e)) es') @ args) x1 (sz + 1)
      = Some (Ok (sz + 1 + int (length es'), p + 1 + int (length tx) + int (length (rest_of ws es')) + 1, args, x2))"
      "x_ok x2" "x_data x2 = x_data x1 @ concat (map (\<lambda>e. snd (snd e)) es') @ fin"
    using more [OF q _ assms(3) f2 d(2), where sz = "sz + 1" and args = args] assms(2) Cons by auto
  then show ?thesis using x1 j by (simp add: d Cons e add.assoc)
qed

end

text \<open>Both loops meet the contract.\<close>

lemma element_at:
  assumes "suf fmt p (after # ws @ txt @ rest)" "list_all isspace ws" "starts txt"
    "reads alloc fmt f txt as bs" "delim rest" "fits x bs"
  obtains q c x' where "skip_space fmt (p + 1) = (Ok q :: (ei_x_buff, int) res)" "rd fmt q = (Ok c :: (ei_x_buff, byte) res)"
    "c \<notin> {c_comma, c_bar, c_rbrack, c_rbrace}"
    "f q (as @ args) x = Some (Ok (p + 1 + int (length ws) + int (length txt), args, x'))"
    "x_ok x'" "x_data x' = x_data x @ bs"
proof -
  obtain c cs where c: "txt = c # cs" "\<not> isspace c" "c \<notin> {c_comma, c_bar, c_rbrack, c_rbrace}"
    using assms(3) by (auto simp: starts_def)
  have s: "suf fmt (p + 1) (ws @ c # cs @ rest)" using suf_Cons(2) [OF assms(1)] by (simp add: c(1))
  define q where "q = p + 1 + int (length ws)"
  have q: "suf fmt q (txt @ rest)" using suf_append [of fmt "p + 1" ws] s by (simp add: c(1) q_def)
  obtain x' where x': "f q (as @ args) x = Some (Ok (q + int (length txt), args, x'))" "x_ok x'" "x_data x' = x_data x @ bs"
    using readsE [OF assms(4) q assms(5,6)] by blast
  have "skip_space fmt (p + 1) = (Ok q :: (ei_x_buff, int) res)" "rd fmt q = (Ok c :: (ei_x_buff, byte) res)"
    using skip_space_at [OF s assms(2) c(2)] suf_Cons(1) [of fmt q c "cs @ rest"] q by (simp_all add: q_def c(1))
  then show thesis using that [of q c x'] c(3) x' by (simp add: q_def)
qed

lemma bracket_chars [simp]: "c_rbrace \<noteq> c_comma" "c_rbrack \<noteq> c_comma" "c_rbrack \<noteq> c_bar"
  by simp_all

lemma ptuple_step_at:
  assumes "suf fmt p (after # ws @ txt @ rest)" "after \<in> {c_comma, c_lbrace}" "list_all isspace ws" "starts txt"
    "reads alloc fmt f txt as bs" "delim rest" "fits x bs"
  shows "\<exists>x'. ptuple (Suc d) fmt f p (as @ args) x sz
      = ptuple d fmt f (p + 1 + int (length ws) + int (length txt)) args x' (sz + 1)
    \<and> x_ok x' \<and> x_data x' = x_data x @ bs"
  using assms(2) by (rule_tac element_at [OF assms(1,3-7), of args])
    (auto simp: ptuple_step_def suf_Cons(1) [OF assms(1)])

lemma plist_step_at:
  assumes "suf fmt p (after # ws @ txt @ rest)" "after \<in> {c_comma, c_lbrack}" "list_all isspace ws" "starts txt"
    "reads alloc fmt f txt as bs" "delim rest" "fits x bs"
  shows "\<exists>x'. plist (Suc d) alloc fmt f p (as @ args) x sz
      = plist d alloc fmt f (p + 1 + int (length ws) + int (length txt)) args x' (sz + 1)
    \<and> x_ok x' \<and> x_data x' = x_data x @ bs"
  using assms(2) by (rule_tac element_at [OF assms(1,3-7), of args])
    (auto simp: plist_step_def suf_Cons(1) [OF assms(1)])

interpretation tuple_elems: element_loop "\<lambda>d. ptuple d fmt f" alloc fmt f c_lbrace c_rbrace "[]" for alloc fmt f
proof
  show "\<exists>x'. ptuple (Suc d) fmt f p (ag @ args) x sz = ptuple d fmt f (p + 1 + int (length ws) + int (length tx)) args x' (sz + 1)
      \<and> x_ok x' \<and> x_data x' = x_data x @ bs"
    if "suf fmt p (after # ws @ tx @ rest)" "after \<in> {c_comma, c_lbrace}" "list_all isspace ws" "starts tx"
      "reads alloc fmt f tx ag bs" "delim rest" "fits x bs" for p after ws tx rest ag bs x d args sz
    using that by (rule ptuple_step_at)
  show "\<exists>x'. ptuple (Suc d) fmt f p args x sz = Some (Ok (sz, p + 1, args, x')) \<and> x_ok x' \<and> x_data x' = x_data x @ []"
    if "suf fmt p (c_rbrace # rest)" "fits x []" for p rest x d args sz
    using that by (simp add: ptuple_step_def suf_Cons(1) [OF that(1)])
  show "\<exists>x'. ptuple (Suc d) fmt f p args x sz = Some (Ok (sz, p + 2, args, x')) \<and> x_ok x' \<and> x_data x' = x_data x @ []"
    if "suf fmt p (c_lbrace # c_rbrace # rest)" "fits x []" for p rest x d args sz
    using that eiformat_first [OF suf_Cons(2) [OF that(1)]]
    by (simp add: ptuple_step_def suf_Cons(1) [OF that(1)] eiformat_first [OF suf_Cons(2) [OF that(1)]])
qed simp

lemma list_elems:
  assumes "plenty alloc"
  shows "element_loop (\<lambda>d. plist d alloc fmt f) alloc fmt f c_lbrack c_rbrack (etf_list_header 0)"
proof
  have nil: "adds alloc (ei_x_encode_empty_list alloc) (etf_list_header 0)"
    using assms by (intro empty_list_adds) (simp add: plenty_def)
  show "\<exists>x'. plist (Suc d) alloc fmt f p (ag @ args) x sz
        = plist d alloc fmt f (p + 1 + int (length ws) + int (length tx)) args x' (sz + 1)
      \<and> x_ok x' \<and> x_data x' = x_data x @ bs"
    if "suf fmt p (after # ws @ tx @ rest)" "after \<in> {c_comma, c_lbrack}" "list_all isspace ws" "starts tx"
      "reads alloc fmt f tx ag bs" "delim rest" "fits x bs" for p after ws tx rest ag bs x d args sz
    using that by (rule plist_step_at)
  show "\<exists>x'. plist (Suc d) alloc fmt f p args x sz = Some (Ok (sz, p + 1, args, x')) \<and> x_ok x'
      \<and> x_data x' = x_data x @ etf_list_header 0"
    if "suf fmt p (c_rbrack # rest)" "fits x (etf_list_header 0)" for p rest x d args sz
    by (rule adds_plenty [OF nil assms that(2)])
      (auto simp: plist_step_def suf_Cons(1) [OF that(1)] eiformat_first [OF that(1)] result_ignored_def)
  show "\<exists>x'. plist (Suc d) alloc fmt f p args x sz = Some (Ok (sz, p + 2, args, x')) \<and> x_ok x'
      \<and> x_data x' = x_data x @ etf_list_header 0"
    if "suf fmt p (c_lbrack # c_rbrack # rest)" "fits x (etf_list_header 0)" for p rest x d args sz
    by (rule adds_plenty [OF nil assms that(2)])
      (auto simp: plist_step_def suf_Cons(1) [OF that(1)] eiformat_first [OF suf_Cons(2) [OF that(1)]] result_ignored_def)
qed simp

section \<open>Parsing a term\<close>

primrec fsize :: "fterm \<Rightarrow> nat" where
  "fsize (FInt n) = 1"
| "fsize (FAtom a) = 1"
| "fsize (FQuoted a) = 1"
| "fsize (FString s) = 1"
| "fsize (FArg c v) = 1"
| "fsize (FList ts) = 2 + sum_list (map fsize ts)"
| "fsize (FTuple ts) = 2 + sum_list (map fsize ts)"

lemma fsize_pos: "0 < fsize t"
  by (cases t) simp_all

lemma length_le_fsizes: "length ts \<le> sum_list (map fsize ts)"
  using fsize_pos by (induction ts) (auto simp: Suc_le_eq add_strict_increasing)

lemma fsize_le_fsizes: "t \<in> set ts \<Longrightarrow> fsize t \<le> sum_list (map fsize ts)"
  by (rule member_le_sum_list) simp_all

lemma starts_text: "fok t \<Longrightarrow> starts (ftext ws t)"
proof (cases t)
  case (FInt n)
  note d = show_nat_digits [of "nat n"]
  obtain c cs where "show_nat (nat n) = c # cs" "isdigit c" using d by (cases "show_nat (nat n)") auto
  then show ?thesis using isdigit_other [of c] by (auto simp: FInt show_int_def starts_def)
next
  case (FAtom a)
  assume "fok t"
  then show ?thesis using islower_other [of "hd a"] by (cases a) (auto simp: FAtom starts_def)
qed (simp_all add: starts_def)

text \<open>The inner buffer of a list or tuple, with its header in front.\<close>

lemma reads_term:
  assumes "plenty alloc" "list_all isspace ws"
  shows "fok t \<Longrightarrow> fsize t \<le> d \<Longrightarrow> reads alloc fmt (eiformat d alloc scan fmt) (ftext ws t) (fargs t) (fbytes t)"
proof (induction t arbitrary: d)
  case (FInt n)
  then show ?case using reads_int [OF assms(1)] by (cases d) (auto simp del: eiformat.simps)
next
  case (FAtom a)
  then show ?case using reads_atom [OF assms(1)] by (cases d) (auto simp del: eiformat.simps)
next
  case (FQuoted a)
  then show ?case using reads_quoted [OF assms(1), of a] by (cases d) (auto simp del: eiformat.simps)
next
  case (FString s)
  then show ?case using reads_string [OF assms(1), of s] by (cases d) (auto simp del: eiformat.simps)
next
  case (FArg c v)
  then show ?case using reads_arg [OF assms(1), of c v] by (cases d) (auto simp del: eiformat.simps)
next
  case (FList ts)
  obtain d' where d: "d = Suc d'" "sum_list (map fsize ts) < d'" using FList.prems(2) by (cases d) auto
  define es where "es = map (\<lambda>t. (ftext ws t, fargs t, fbytes t)) ts"
  let ?f = "eiformat d' alloc scan fmt"
  have m: "map fst es = map (ftext ws) ts" "concat (map (\<lambda>e. fst (snd e)) es) = concat (map fargs ts)"
    "concat (map (\<lambda>e. snd (snd e)) es) = concat (map fbytes ts)" "length es = length ts"
    by (simp_all add: es_def comp_def)
  have el: "list_all (element_loop.element alloc fmt ?f) es"
  proof -
    have "reads alloc fmt ?f (ftext ws t) (fargs t) (fbytes t)" if "t \<in> set ts" for t
      using FList.IH [OF that] FList.prems(1) that fsize_le_fsizes [OF that] d(2) by (simp add: list_all_iff)
    then show ?thesis
      using FList.prems(1) starts_text
      by (auto simp: es_def list_all_iff element_loop.element_def [OF list_elems [OF assms(1)]])
  qed
  show ?case
  proof (rule readsI)
    fix p rest args x
    assume p: "suf fmt p (ftext ws (FList ts) @ rest)" "delim rest" "fits x (fbytes (FList ts))"
    then have q: "suf fmt p (c_lbrack # join ws (map fst es) @ c_rbrack # rest)" by (simp add: m)
    obtain x2 where x2: "ei_x_new alloc = Ok x2" "x_ok x2" "x_data x2 = []" using x_new_plenty [OF assms(1)] .
    have f2: "fits x2 (concat (map (\<lambda>e. snd (snd e)) es) @ etf_list_header 0)"
      using p(3) by (rule fits_inner) (simp_all add: m x2)
    obtain x2' where x2': "plist d' alloc fmt ?f p (concat (map fargs ts) @ args) x2 0
        = Some (Ok (int (length ts), p + int (length (join ws (map (ftext ws) ts))) + 2, args, x2'))"
        "x_ok x2'" "x_data x2' = concat (map fbytes ts) @ etf_list_header 0"
      using element_loop.elements [OF list_elems [OF assms(1)] q el assms(2,2) f2, where d = d' and args = args and sz = 0]
        length_le_fsizes [of ts] d(2) x2(3) by (auto simp: m)
    obtain x1 where x1: "(if 0 < int (length ts) then ei_x_encode_list_header alloc x (word_of_int (int (length ts))) else Ok x) = Ok x1"
        "x_ok x1" "x_data x1 = x_data x @ (if ts = [] then [] else etf_list_header (int (length ts)))"
    proof (cases "ts = []")
      case True
      then show thesis using that p(3) by simp
    next
      case False
      then show thesis
        using that adds_plenty [OF list_header_adds [of alloc "length ts"] assms(1) fits_prefix] assms(1) FList.prems(1) p(3)
        by (auto simp: plenty_def)
    qed
    obtain x3 where x3: "ei_x_append alloc x1 x2' = Ok x3" "x_ok x3" "x_data x3 = x_data x1 @ x_data x2'"
      using x_append_plenty [OF assms(1) fits_after [OF _ x1(2,3)] x2'(2)] p(3) by (auto simp: x2'(3))
    show "\<exists>x'. eiformat d alloc scan fmt p (fargs (FList ts) @ args) x
        = Some (Ok (p + int (length (ftext ws (FList ts))), args, x')) \<and> x_ok x' \<and> x_data x' = x_data x @ fbytes (FList ts)"
      using x2 x2' x1 x3 by (simp add: d(1) eiformat_step_def eiformat_first [OF q] lift_err_def add.assoc)
  qed
next
  case (FTuple ts)
  obtain d' where d: "d = Suc d'" "sum_list (map fsize ts) < d'" using FTuple.prems(2) by (cases d) auto
  define es where "es = map (\<lambda>t. (ftext ws t, fargs t, fbytes t)) ts"
  let ?f = "eiformat d' alloc scan fmt"
  have m: "map fst es = map (ftext ws) ts" "concat (map (\<lambda>e. fst (snd e)) es) = concat (map fargs ts)"
    "concat (map (\<lambda>e. snd (snd e)) es) = concat (map fbytes ts)" "length es = length ts"
    by (simp_all add: es_def comp_def)
  have el: "list_all (element_loop.element alloc fmt ?f) es"
  proof -
    have "reads alloc fmt ?f (ftext ws t) (fargs t) (fbytes t)" if "t \<in> set ts" for t
      using FTuple.IH [OF that] FTuple.prems(1) that fsize_le_fsizes [OF that] d(2) by (simp add: list_all_iff)
    then show ?thesis
      using FTuple.prems(1) starts_text by (auto simp: es_def list_all_iff tuple_elems.element_def)
  qed
  show ?case
  proof (rule readsI)
    fix p rest args x
    assume p: "suf fmt p (ftext ws (FTuple ts) @ rest)" "delim rest" "fits x (fbytes (FTuple ts))"
    then have q: "suf fmt p (c_lbrace # join ws (map fst es) @ c_rbrace # rest)" by (simp add: m)
    obtain x2 where x2: "ei_x_new alloc = Ok x2" "x_ok x2" "x_data x2 = []" using x_new_plenty [OF assms(1)] .
    have f2: "fits x2 (concat (map (\<lambda>e. snd (snd e)) es) @ [])"
      using p(3) by (rule fits_inner) (simp_all add: m x2)
    obtain x2' where x2': "ptuple d' fmt ?f p (concat (map fargs ts) @ args) x2 0
        = Some (Ok (int (length ts), p + int (length (join ws (map (ftext ws) ts))) + 2, args, x2'))"
        "x_ok x2'" "x_data x2' = concat (map fbytes ts)"
      using tuple_elems.elements [OF q el assms(2,2) f2, where d = d' and args = args and sz = 0]
        length_le_fsizes [of ts] d(2) x2(3) by (auto simp: m)
    obtain x1 where x1: "ei_x_encode_tuple_header alloc x (word_of_nat (length ts)) = Ok x1"
        "x_ok x1" "x_data x1 = x_data x @ etf_tuple_header (int (length ts))"
      using adds_plenty [OF tuple_header_adds [of alloc "length ts"] assms(1) fits_prefix] assms(1) FTuple.prems(1) p(3)
      by (auto simp: plenty_def)
    obtain x3 where x3: "ei_x_append alloc x1 x2' = Ok x3" "x_ok x3" "x_data x3 = x_data x1 @ x_data x2'"
      using x_append_plenty [OF assms(1) fits_after [OF _ x1(2,3)] x2'(2)] p(3) by (auto simp: x2'(3))
    show "\<exists>x'. eiformat d alloc scan fmt p (fargs (FTuple ts) @ args) x
        = Some (Ok (p + int (length (ftext ws (FTuple ts))), args, x')) \<and> x_ok x' \<and> x_data x' = x_data x @ fbytes (FTuple ts)"
      using x2 x2' x1 x3 by (simp add: d(1) eiformat_step_def eiformat_first [OF q] lift_err_def add.assoc)
  qed
qed

section \<open>Reading the arguments\<close>

text \<open>Both loops of \<open>read_args\<close> over a piece of the format with the arguments \<open>vs\<close>.\<close>

definition scans :: "byte list \<Rightarrow> va list \<Rightarrow> arg list \<Rightarrow> bool" where
  "scans txt vs as \<longleftrightarrow>
     (\<forall>fmt p rest n ap acc. suf fmt p (txt @ rest) \<longrightarrow>
        count_args fmt p n = count_args fmt (p + int (length txt)) (n + int (length as))
        \<and> (int (length acc) + int (length as) \<le> n \<longrightarrow>
            fill_args fmt p n (vs @ ap) acc = fill_args fmt (p + int (length txt)) n ap (acc @ as)))"

lemma scansD:
  assumes "scans txt vs as" "suf fmt p (txt @ rest)"
  shows "count_args fmt p n = count_args fmt (p + int (length txt)) (n + int (length as))"
    "int (length acc) + int (length as) \<le> n \<Longrightarrow>
     fill_args fmt p n (vs @ ap) acc = fill_args fmt (p + int (length txt)) n ap (acc @ as)"
  using assms unfolding scans_def by blast+

lemma scans_Nil: "scans [] [] []"
  by (simp add: scans_def)

lemma scans_append:
  assumes "scans t1 v1 a1" "scans t2 v2 a2"
  shows "scans (t1 @ t2) (v1 @ v2) (a1 @ a2)"
  unfolding scans_def
proof (intro allI impI conjI)
  fix fmt p rest n ap acc
  assume "suf fmt p ((t1 @ t2) @ rest)"
  then have s1: "suf fmt p (t1 @ (t2 @ rest))" by simp
  note s2 = suf_append [OF s1]
  show "count_args fmt p n = count_args fmt (p + int (length (t1 @ t2))) (n + int (length (a1 @ a2)))"
    using scansD(1) [OF assms(1) s1, of n] scansD(1) [OF assms(2) s2, of "n + int (length a1)"]
    by (simp add: add.assoc)
  show "fill_args fmt p n ((v1 @ v2) @ ap) acc = fill_args fmt (p + int (length (t1 @ t2))) n ap (acc @ a1 @ a2)"
    if "int (length acc) + int (length (a1 @ a2)) \<le> n"
    using scansD(2) [OF assms(1) s1, of acc n "v2 @ ap"] scansD(2) [OF assms(2) s2, of "acc @ a1" n ap] that
    by (simp add: add.assoc)
qed

lemma scans_char: "c \<noteq> 0 \<Longrightarrow> c \<noteq> c_tilde \<Longrightarrow> scans [c] [] []"
  unfolding scans_def
proof (intro allI impI conjI)
  fix fmt p rest n ap acc
  assume c: "c \<noteq> 0" "c \<noteq> c_tilde" and "suf fmt p ([c] @ rest)"
  then have s: "suf fmt p (c # rest)" by simp
  show "count_args fmt p n = count_args fmt (p + int (length [c])) (n + int (length []))"
    using c by (subst count_args.simps) (simp add: suf_Cons(1) [OF s])
  show "fill_args fmt p n ([] @ ap) acc = fill_args fmt (p + int (length [c])) n ap (acc @ [])"
    using c by (subst fill_args.simps) (simp add: suf_Cons(1) [OF s])
qed

lemma scans_plain: "set t \<inter> {0, c_tilde} = {} \<Longrightarrow> scans t [] []"
proof (induction t)
  case (Cons c t)
  then show ?case using scans_append [OF scans_char [of c] Cons.IH] by auto
qed (rule scans_Nil)

lemma va_member_ok: "arg_bytes c v \<noteq> None \<Longrightarrow> va_member c (v # ap) = Ok (Some (arg_of c v, ap)) \<and> c \<noteq> 0 \<and> c \<noteq> c_tilde"
  by (cases v) (auto simp: va_member_def split: if_splits)

lemma scans_arg:
  assumes "arg_bytes c v \<noteq> None"
  shows "scans [c_tilde, c] [v] [arg_of c v]"
  unfolding scans_def
proof (intro allI impI conjI)
  fix fmt p rest n ap acc
  note v = va_member_ok [OF assms]
  assume "suf fmt p ([c_tilde, c] @ rest)"
  then have s: "suf fmt p (c_tilde # c # rest)" by simp
  note s' = suf_Cons(1) [OF suf_Cons(2) [OF s]]
  have "count_args fmt (p + 1) (n + 1) = count_args fmt (p + 1 + 1) (n + 1)"
    using v by (subst count_args.simps) (simp add: s')
  then show "count_args fmt p n = count_args fmt (p + int (length [c_tilde, c])) (n + int (length [arg_of c v]))"
    by (subst count_args.simps) (simp add: suf_Cons(1) [OF s] add.assoc)
  show "fill_args fmt p n ([v] @ ap) acc = fill_args fmt (p + int (length [c_tilde, c])) n ap (acc @ [arg_of c v])"
    if "int (length acc) + int (length [arg_of c v]) \<le> n"
    using v that by (subst fill_args.simps) (simp add: suf_Cons(1) [OF s] s')
qed

lemma scans_concat:
  assumes "\<And>t. t \<in> set ts \<Longrightarrow> scans (pre @ txt t) (vs t) (as t)"
  shows "scans (concat (map (\<lambda>t. pre @ txt t) ts)) (concat (map vs ts)) (concat (map as ts))"
  using assms
proof (induction ts)
  case (Cons t ts)
  then show ?case using scans_append [OF Cons.prems [of t] Cons.IH] by simp
qed (simp add: scans_Nil)

lemma scans_join:
  assumes "set ws \<inter> {0, c_tilde} = {}" "\<And>t. t \<in> set ts \<Longrightarrow> scans (txt t) (vs t) (as t)"
  shows "scans (join ws (map txt ts)) (concat (map vs ts)) (concat (map as ts))"
proof (cases ts)
  case (Cons t ts')
  have pre: "scans (c_comma # ws) [] []" using assms(1) by (intro scans_plain) auto
  have "scans ((c_comma # ws) @ txt t) (vs t) (as t)" if "t \<in> set ts" for t
    using scans_append [OF pre assms(2) [OF that]] by simp
  then have "scans (concat (map (\<lambda>t. (c_comma # ws) @ txt t) ts')) (concat (map vs ts')) (concat (map as ts'))"
    by (intro scans_concat) (simp add: Cons)
  from scans_append [OF assms(2) [of t] this] show ?thesis by (simp add: Cons join_def comp_def)
qed (simp add: join_def scans_Nil)

lemma no_tilde: "isdigit c \<Longrightarrow> c \<noteq> 0 \<and> c \<noteq> c_tilde" "identchar c \<Longrightarrow> c \<noteq> 0 \<and> c \<noteq> c_tilde" "isspace c \<Longrightarrow> c \<noteq> 0 \<and> c \<noteq> c_tilde"
  by (auto simp: identchar_def isalnum_def isdigit_def islower_def isupper_def isspace_def)

lemma show_int_chars: "set (show_int n) \<inter> {0, c_tilde} = {}"
  using show_nat_digits [of "nat n"] show_nat_digits [of "nat (- n)"] no_tilde(1)
  by (auto simp: show_int_def list_all_iff)

lemma scans_text:
  assumes "list_all isspace ws"
  shows "fok t \<Longrightarrow> scans (ftext ws t) (vargs t) (fargs t)"
proof (induction t)
  case (FInt n)
  show ?case using scans_plain [OF show_int_chars] by simp
next
  case (FAtom a)
  then have "set a \<inter> {0, c_tilde} = {}" using no_tilde(2) by (auto simp: list_all_iff)
  then show ?case using scans_plain by simp
next
  case (FQuoted a)
  then show ?case using scans_plain [of "c_apos # a @ [c_apos]"] by auto
next
  case (FString s)
  then show ?case using scans_plain [of "c_quote # s @ [c_quote]"] by auto
next
  case (FArg c v)
  then show ?case using scans_arg by simp
next
  case (FList ts)
  have w: "set ws \<inter> {0, c_tilde} = {}" using assms no_tilde(3) by (auto simp: list_all_iff)
  have "scans (join ws (map (ftext ws) ts)) (concat (map vargs ts)) (concat (map fargs ts))"
    using FList by (intro scans_join [OF w]) (auto simp: list_all_iff)
  from scans_append [OF scans_append [OF scans_char [of c_lbrack] this] scans_char [of c_rbrack]] show ?case by simp
next
  case (FTuple ts)
  have w: "set ws \<inter> {0, c_tilde} = {}" using assms no_tilde(3) by (auto simp: list_all_iff)
  have "scans (join ws (map (ftext ws) ts)) (concat (map vargs ts)) (concat (map fargs ts))"
    using FTuple by (intro scans_join [OF w]) (auto simp: list_all_iff)
  from scans_append [OF scans_append [OF scans_char [of c_lbrace] this] scans_char [of c_rbrace]] show ?case by simp
qed

lemma read_args_text:
  assumes "plenty alloc" "list_all isspace ws" "fok t"
  shows "read_args alloc (ftext ws t @ [0]) (vargs t) = Ok (Some (fargs t))"
proof -
  let ?fmt = "ftext ws t @ [0]"
  have s: "suf ?fmt 0 (ftext ws t @ [0])" by (rule suf_start)
  have e: "suf ?fmt (int (length (ftext ws t))) [0]" using suf_append [OF s] by simp
  have c: "count_args ?fmt 0 0 = Ok (int (length (fargs t)))"
    using scansD(1) [OF scans_text [OF assms(2,3)] s, of 0]
    by (subst (asm) (2) count_args.simps) (simp add: suf_Cons(1) [OF e])
  have "fill_args ?fmt 0 (int (length (fargs t))) (vargs t @ []) []
      = fill_args ?fmt (int (length (ftext ws t))) (int (length (fargs t))) [] ([] @ fargs t)"
    using scansD(2) [OF scans_text [OF assms(2,3)] s, of "[]" "int (length (fargs t))" "[]"] by simp
  also have "\<dots> = Ok (Some (fargs t))" by (subst fill_args.simps) (simp add: suf_Cons(1) [OF e])
  finally have f: "fill_args ?fmt 0 (int (length (fargs t))) (vargs t) [] = Ok (Some (fargs t))" by simp
  have "ei_malloc alloc (int (length (fargs t)) * 8) \<noteq> None" using assms(1) by (simp add: ei_malloc_def plenty_def)
  then show ?thesis using c f by (auto simp: read_args_def)
qed

section \<open>The whole call\<close>

lemma length_concat_ge: "(\<And>t. t \<in> set ts \<Longrightarrow> g t \<le> length (h t)) \<Longrightarrow> sum_list (map g ts) \<le> length (concat (map (\<lambda>t. c_comma # ws @ h t) ts))"
  by (induction ts) (auto simp: le_SucI add_mono trans_le_add2)

lemma length_join_ge:
  assumes "\<And>t. t \<in> set ts \<Longrightarrow> g t \<le> length (h t)"
  shows "sum_list (map g ts) \<le> length (join ws (map h ts))"
proof (cases ts)
  case (Cons t ts')
  have "sum_list (map g ts') \<le> length (concat (map (\<lambda>t. c_comma # ws @ h t) ts'))"
    using assms by (intro length_concat_ge) (simp add: Cons)
  moreover have "g t \<le> length (h t)" using assms by (simp add: Cons)
  ultimately show ?thesis by (simp add: Cons join_def comp_def)
qed simp

lemma fsize_le_text: "fok t \<Longrightarrow> fsize t \<le> length (ftext ws t)"
proof (induction t)
  case (FInt n)
  then show ?case using show_nat_digits [of "nat n"] by (cases "show_nat (nat n)") (auto simp: show_int_def)
next
  case (FAtom a)
  then show ?case by (cases a) auto
next
  case (FList ts)
  then have "sum_list (map fsize ts) \<le> length (join ws (map (ftext ws) ts))"
    by (intro length_join_ge) (simp add: list_all_iff)
  then show ?case by simp
next
  case (FTuple ts)
  then have "sum_list (map fsize ts) \<le> length (join ws (map (ftext ws) ts))"
    by (intro length_join_ge) (simp add: list_all_iff)
  then show ?case by simp
qed simp_all

lemma format_result:
  assumes "plenty alloc" "list_all isspace ws" "fok t" "fits x (fbytes t)" "length (ftext ws t) \<le> d"
  shows "\<exists>x'. ei_x_format_wo_ver d alloc scan x (ftext ws t @ [0]) (vargs t) = Some (Ok x')
    \<and> x_ok x' \<and> x_data x' = x_data x @ fbytes t"
proof -
  have "fsize t \<le> d" using fsize_le_text [OF assms(3), of ws] assms(5) by simp
  then have "reads alloc (ftext ws t @ [0]) (eiformat d alloc scan (ftext ws t @ [0])) (ftext ws t) (fargs t) (fbytes t)"
    by (intro reads_term assms)
  from readsE [OF this suf_start _ assms(4), of "[]"] obtain x' where
    "eiformat d alloc scan (ftext ws t @ [0]) 0 (fargs t @ []) x = Some (Ok (0 + int (length (ftext ws t)), [], x'))"
    "x_ok x'" "x_data x' = x_data x @ fbytes t" by auto
  then show ?thesis by (simp add: ei_x_format_wo_ver_def read_args_text [OF assms(1-3)])
qed

end
