(* ===== verification/Ei_PrintSpec.thy ===== *)
theory Ei_PrintSpec
  imports Ei_Print Ei_FormatSpec
begin

text \<open>
  What \<open>print_term\<close> writes for a term in the bytes of \<open>ei_x_format\<close>: the format it came from, with a
  space behind each comma (\<open>ftext [32]\<close>). \<open>prints\<close> is the contract of a printer at an offset.
\<close>

section \<open>Destinations\<close>

text \<open>A destination that text can be added to: the buffer when \<open>bf\<close> is set, the file otherwise.\<close>

definition dest_ok :: "bool \<Rightarrow> dest \<Rightarrow> bool" where
  "dest_ok bf out \<longleftrightarrow> (case out of ToFile t \<Rightarrow> \<not> bf | ToBuff x \<Rightarrow> bf \<and> x_ok x | ToNone \<Rightarrow> False)"

definition dtext :: "dest \<Rightarrow> byte list" where
  "dtext out = (case out of ToFile t \<Rightarrow> t | ToBuff x \<Rightarrow> x_data x | ToNone \<Rightarrow> [])"

text \<open>There is room for \<open>s\<close>: in a buffer the sizes stay numbers of type \<open>int\<close>.\<close>

definition takes :: "bool \<Rightarrow> dest \<Rightarrow> byte list \<Rightarrow> bool" where
  "takes bf out s \<longleftrightarrow> dest_ok bf out \<and> (\<forall>x. out = ToBuff x \<longrightarrow> fits x s)"

lemma takes_ok [simp]: "takes bf out s \<Longrightarrow> dest_ok bf out"
  by (simp add: takes_def)

lemma takes_prefix: "takes bf out (s @ t) \<Longrightarrow> takes bf out s"
  by (auto simp: takes_def)

lemma takes_after: "takes bf out (s @ t) \<Longrightarrow> dest_ok bf out' \<Longrightarrow> dtext out' = dtext out @ s \<Longrightarrow> takes bf out' t"
  by (cases out; cases out') (auto simp: takes_def dest_ok_def dtext_def intro: fits_after)

text \<open>\<open>writes f s\<close>: from a good destination \<open>f\<close> appends \<open>s\<close> to its text.\<close>

definition writes :: "bool \<Rightarrow> (dest \<Rightarrow> dest pres) \<Rightarrow> byte list \<Rightarrow> bool" where
  "writes bf f s \<longleftrightarrow> (\<forall>out. takes bf out s \<longrightarrow> (\<exists>out'. f out = Ok out' \<and> dest_ok bf out' \<and> dtext out' = dtext out @ s))"

lemma writesE:
  assumes "writes bf f s" "takes bf out s"
  obtains out' where "f out = Ok out'" "dest_ok bf out'" "dtext out' = dtext out @ s"
  using assms by (auto simp: writes_def)

lemma append_buf_plenty:
  assumes "plenty alloc" "fits x s"
  obtains x' where "ei_x_append_buf alloc x s (int (length s)) = Ok x'" "x_ok x'" "x_data x' = x_data x @ s"
proof -
  let ?x2 = "\<lparr>x_buff = Some s, x_buffsz = int (length s), x_index = int (length s)\<rparr>"
  have "fits x (x_data ?x2)" using assms(2) by (simp add: x_data_def)
  moreover have "x_ok ?x2" by (simp add: x_ok_def)
  ultimately obtain x' where "ei_x_append alloc x ?x2 = Ok x'" "x_ok x'" "x_data x' = x_data x @ x_data ?x2"
    using x_append_plenty [OF assms(1)] by blast
  then show thesis using that by (simp add: ei_x_append_def x_data_def [of ?x2])
qed

lemma writes_xputs:
  assumes "plenty alloc"
  shows "writes bf (xputs alloc s) s"
  unfolding writes_def
proof (intro allI impI)
  fix out
  assume ok: "takes bf out s"
  show "\<exists>out'. xputs alloc s out = Ok out' \<and> dest_ok bf out' \<and> dtext out' = dtext out @ s"
  proof (cases out)
    case (ToBuff x)
    then have "fits x s" using ok by (simp add: takes_def)
    then obtain x' where "ei_x_append_buf alloc x s (int (length s)) = Ok x'" "x_ok x'" "x_data x' = x_data x @ s"
      using append_buf_plenty [OF assms] by blast
    with ToBuff ok show ?thesis by (simp add: xputs_def takes_def dest_ok_def dtext_def)
  qed (use ok in \<open>simp_all add: xputs_def takes_def dest_ok_def dtext_def\<close>)
qed

lemma writes_xputc: "plenty alloc \<Longrightarrow> writes bf (xputc alloc c) [c]"
  using writes_xputs [where s = "[c]"] by (simp add: writes_def xputc_def)

text \<open>\<open>counts f s\<close>: the same for functions that return the number of characters.\<close>

definition counts :: "bool \<Rightarrow> (dest \<Rightarrow> (int \<times> dest) pres) \<Rightarrow> byte list \<Rightarrow> int \<Rightarrow> bool" where
  "counts bf f s n \<longleftrightarrow> (\<forall>out. takes bf out s \<longrightarrow>
     (\<exists>out'. f out = Ok (n, out') \<and> dest_ok bf out' \<and> dtext out' = dtext out @ s))"

lemma countsE:
  assumes "counts bf f s n" "takes bf out s"
  obtains out' where "f out = Ok (n, out')" "dest_ok bf out'" "dtext out' = dtext out @ s"
  using assms by (auto simp: counts_def)

lemma counts_xprintf:
  assumes "plenty alloc" "length s < 2000"
  shows "counts bf (xprintf alloc s) s (int (length s))"
  unfolding counts_def
proof (intro allI impI)
  fix out
  assume "takes bf out s"
  then obtain out' where "xputs alloc s out = Ok out'" "dest_ok bf out'" "dtext out' = dtext out @ s"
    using writesE [OF writes_xputs [OF assms(1)]] by blast
  then show "\<exists>out'. xprintf alloc s out = Ok (int (length s), out') \<and> dest_ok bf out' \<and> dtext out' = dtext out @ s"
    using assms(2) by (auto simp: xprintf_def split: dest.splits)
qed

lemma length_show_nat: "n < 10 ^ k \<Longrightarrow> 0 < k \<Longrightarrow> length (show_nat n) \<le> k"
proof (induction k arbitrary: n)
  case (Suc k)
  show ?case
  proof (cases "n < 10")
    case False
    then have "n div 10 < 10 ^ k" "0 < k" using Suc.prems by (cases k; simp)+
    then show ?thesis using Suc.IH [of "n div 10"] False by (subst show_nat.simps) simp
  qed (subst show_nat.simps, simp)
qed simp

lemma length_show_int: "\<bar>n\<bar> < 10 ^ 10 \<Longrightarrow> length (show_int n) < 2000"
  using length_show_nat [of "nat n" 10] length_show_nat [of "nat (- n)" 10]
  by (auto simp: show_int_def nat_less_iff)

section \<open>Strings\<close>

definition printable :: "byte \<Rightarrow> bool" where
  "printable c \<longleftrightarrow> 32 \<le> sint c"

lemma counts_chars:
  assumes "plenty alloc"
  shows "list_all printable s \<Longrightarrow> at_off p i s \<Longrightarrow>
    counts bf (print_chars alloc p i (length s) ch) s (ch + int (length s))"
proof (induction s arbitrary: i ch)
  case (Cons c s)
  have c: "printable c" "list_all printable s" using Cons.prems(1) by simp_all
  note rest = Cons.IH [OF c(2) at_off.simps(2) [THEN iffD1, OF Cons.prems(2), THEN conjunct2, THEN conjunct2]]
  show ?case
    unfolding counts_def
  proof (intro allI impI)
    fix out
    assume "takes bf out (c # s)"
    then have fit: "takes bf out ([c] @ s)" by simp
    then obtain out1 where 1: "xputc alloc c out = Ok out1" "dest_ok bf out1" "dtext out1 = dtext out @ [c]"
      using writesE [OF writes_xputc [OF assms] takes_prefix] by blast
    obtain out2 where "print_chars alloc p (i + 1) (length s) (ch + 1) out1 = Ok (ch + 1 + int (length s), out2)"
        "dest_ok bf out2" "dtext out2 = dtext out1 @ s"
      using countsE [OF rest takes_after [OF fit 1(2,3)]] .
    then show "\<exists>out'. print_chars alloc p i (length (c # s)) ch out = Ok (ch + int (length (c # s)), out')
        \<and> dest_ok bf out' \<and> dtext out' = dtext out @ c # s"
      using 1 c(1) [unfolded printable_def] by (simp add: at_off_rd [OF Cons.prems(2)] print_char_def)
  qed
qed (simp add: counts_def)

lemma counts_string:
  assumes "plenty alloc" "list_all printable s" "at_off p 0 s"
  shows "counts bf (print_string alloc p (int (length s))) (c_quote # s @ [c_quote]) (int (length s) + 2)"
  unfolding counts_def
proof (intro allI impI)
  fix out
  assume "takes bf out (c_quote # s @ [c_quote])"
  then have fit: "takes bf out ([c_quote] @ s @ [c_quote])" by simp
  then obtain out1 where 1: "xputc alloc c_quote out = Ok out1" "dest_ok bf out1" "dtext out1 = dtext out @ [c_quote]"
    using writesE [OF writes_xputc [OF assms(1)] takes_prefix] by blast
  note fit1 = takes_after [OF fit 1(2,3)]
  obtain out2 where 2: "print_chars alloc p 0 (length s) 1 out1 = Ok (1 + int (length s), out2)" "dest_ok bf out2"
      "dtext out2 = dtext out1 @ s"
    using countsE [OF counts_chars [OF assms] takes_prefix [OF fit1]] .
  obtain out3 where 3: "xputc alloc c_quote out2 = Ok out3" "dest_ok bf out3" "dtext out3 = dtext out2 @ [c_quote]"
    using writesE [OF writes_xputc [OF assms(1)] takes_after [OF fit1 2(2,3)]] .
  show "\<exists>out'. print_string alloc p (int (length s)) out = Ok (int (length s) + 2, out') \<and> dest_ok bf out'
      \<and> dtext out' = dtext out @ c_quote # s @ [c_quote]"
    using 1 2 3 by (simp add: print_string_def)
qed

section \<open>Terms\<close>

definition prints :: "bool \<Rightarrow> printer \<Rightarrow> int \<Rightarrow> byte list \<Rightarrow> int \<Rightarrow> bool" where
  "prints bf f i s j \<longleftrightarrow> (\<forall>out. takes bf out s \<longrightarrow>
     (\<exists>out'. f i out = Some (Ok (int (length s), j, out')) \<and> dest_ok bf out' \<and> dtext out' = dtext out @ s))"

lemma printsI:
  assumes "\<And>out. takes bf out s \<Longrightarrow>
    \<exists>out'. f i out = Some (Ok (int (length s), j, out')) \<and> dest_ok bf out' \<and> dtext out' = dtext out @ s"
  shows "prints bf f i s j"
  using assms by (simp add: prints_def)

lemma printsE:
  assumes "prints bf f i s j" "takes bf out s"
  obtains out' where "f i out = Some (Ok (int (length s), j, out'))" "dest_ok bf out'" "dtext out' = dtext out @ s"
  using assms by (auto simp: prints_def)

text \<open>The terms whose text has all of their value.\<close>

primrec plain :: "fterm \<Rightarrow> bool" where
  "plain (FInt n) = (ERL_MIN \<le> n \<and> n \<le> ERL_MAX)"
| "plain (FAtom a) = (length a < 256)"
| "plain (FQuoted a) = (\<not> (a \<noteq> [] \<and> islower (hd a) \<and> list_all identchar a))"
| "plain (FString s) = (s \<noteq> [] \<and> length s \<le> 65535 \<and> list_all printable s)"
| "plain (FArg c v) = False"
| "plain (FList ts) = list_all plain ts"
| "plain (FTuple ts) = list_all plain ts"

lemma dest_ok_ToNone: "takes bf out s \<Longrightarrow> out \<noteq> ToNone"
  by (auto simp: takes_def dest_ok_def)

lemma prints_int:
  assumes "plenty alloc" "at_off buf i (etf_int n)" "ERL_MIN \<le> n" "n \<le> ERL_MAX"
  shows "prints bf (print_term (Suc d) alloc scan buf) i (show_int n) (i + int (length (etf_int n)))"
proof (rule printsI)
  fix out
  assume ok: "takes bf out (show_int n)"
  have ty: "\<exists>ty len. ei_get_type_internal buf i = (Ok (ty, len) :: (unit, _) res) \<and> ty \<in> {ERL_SMALL_INTEGER_EXT, ERL_INTEGER_EXT}"
  proof -
    have "nat \<bar>n\<bar> < 256 ^ 4" using assms(3,4) by auto
    then have "length (le_digits (nat \<bar>n\<bar>)) < 256" using length_le_digits [of "nat \<bar>n\<bar>" 4] by simp
    then show ?thesis using get_type_etf [of buf i "EInt n"] assms(2-4) by auto
  qed
  have s: "sint (word_of_int n :: 64 word) = n" using assms(3,4) by (simp add: signed_of_int signed_take_bit_int_eq_self)
  have dec: "ei_decode_long buf i = Ok (word_of_int n, i + int (length (etf_int n)))"
    using ei_decode_long_sint [of buf i "word_of_int n"] assms(2) by (simp add: s)
  have "length (show_int n) < 2000" using assms(3,4) by (intro length_show_int) auto
  then obtain out' where "xprintf alloc (show_int n) out = Ok (int (length (show_int n)), out')" "dest_ok bf out'"
      "dtext out' = dtext out @ show_int n"
    using countsE [OF counts_xprintf [OF assms(1)] ok] by blast
  then show "\<exists>out'. print_term (Suc d) alloc scan buf i out = Some (Ok (int (length (show_int n)), i + int (length (etf_int n)), out'))
      \<and> dest_ok bf out' \<and> dtext out' = dtext out @ show_int n"
    using ty dest_ok_ToNone [OF ok] by (auto simp: print_step_def dec s)
qed

text \<open>\<open>doquote\<close> as the code computes it.\<close>

definition bare :: "byte list \<Rightarrow> bool" where
  "bare a \<longleftrightarrow> a \<noteq> [] \<and> islower (hd a) \<and> list_all identchar a"

lemma prints_name:
  assumes "plenty alloc" "at_off buf i (etf_atom_latin1 a)" "length a < 256" "0 \<notin> set a"
  shows "prints bf (print_term (Suc d) alloc scan buf) i (if bare a then a else c_apos # a @ [c_apos])
    (i + int (length (etf_atom_latin1 a)))"
proof (rule printsI)
  fix out
  assume ok: "takes bf out (if bare a then a else c_apos # a @ [c_apos])"
  let ?j = "i + int (length (etf_atom_latin1 a))"
  have ty: "\<exists>len. ei_get_type_internal buf i = (Ok (ERL_ATOM_EXT, len) :: (unit, _) res)"
    using assms(2,3) length_latin1_utf8 [of a]
    by (auto simp: ei_get_type_internal_def etf_atom_latin1_def Let_def get8_def rd_def at_off_append get16be_at split: if_splits)
  define arr where "arr = a @ 0 # drop (Suc (length a)) (replicate 256 0)"
  have dec: "ei_decode_atom buf i (Some (replicate 256 0)) = Ok (Some arr, ?j)"
    using ei_decode_atom_latin1 [OF assms(2,3), of "Some (replicate 256 0)"] assms(3)
    by (simp add: room_def stored_name_def arr_def)
  have tw: "takeWhile (\<lambda>c. c \<noteq> 0) arr = a"
    unfolding arr_def by (subst takeWhile_append2) (use assms(4) in auto)
  have name: "name_of arr = a" unfolding name_of_def strlen_def tw by (simp add: arr_def)
  show "\<exists>out'. print_term (Suc d) alloc scan buf i out
      = Some (Ok (int (length (if bare a then a else c_apos # a @ [c_apos])), ?j, out'))
      \<and> dest_ok bf out' \<and> dtext out' = dtext out @ (if bare a then a else c_apos # a @ [c_apos])"
  proof (cases "bare a")
    case True
    obtain out1 where "xputs alloc a out = Ok out1" "dest_ok bf out1" "dtext out1 = dtext out @ a"
      using writesE [OF writes_xputs [OF assms(1)], of bf out a] ok True by auto
    then show ?thesis
      using ty dest_ok_ToNone [OF ok] True True [unfolded bare_def identchar_def [abs_def]]
      by (auto simp: print_step_def print_atom_def dec name Let_def)
  next
    case False
    have fit: "takes bf out ([c_apos] @ a @ [c_apos])" using ok False by simp
    obtain out1 where 1: "xputc alloc c_apos out = Ok out1" "dest_ok bf out1" "dtext out1 = dtext out @ [c_apos]"
      using writesE [OF writes_xputc [OF assms(1)] takes_prefix [OF fit]] by blast
    note fit1 = takes_after [OF fit 1(2,3)]
    obtain out2 where 2: "xputs alloc a out1 = Ok out2" "dest_ok bf out2" "dtext out2 = dtext out1 @ a"
      using writesE [OF writes_xputs [OF assms(1)] takes_prefix [OF fit1]] by blast
    obtain out3 where 3: "xputc alloc c_apos out2 = Ok out3" "dest_ok bf out3" "dtext out3 = dtext out2 @ [c_apos]"
      using writesE [OF writes_xputc [OF assms(1)] takes_after [OF fit1 2(2,3)]] by blast
    have q: "(a = [] \<or> \<not> islower (hd a) \<or> \<not> list_all (\<lambda>c. isalnum c \<or> c = c_underscore \<or> c = c_at) a)"
      using False by (simp add: bare_def identchar_def [abs_def])
    show ?thesis
      using ty dest_ok_ToNone [OF ok] False q 1 2 3
      by (auto simp: print_step_def print_atom_def dec name Let_def)
  qed
qed

lemma prints_str:
  assumes "plenty alloc" "at_off buf i (etf_string s)" "s \<noteq> []" "length s \<le> 65535" "list_all printable s"
  shows "prints bf (print_term (Suc d) alloc scan buf) i (c_quote # s @ [c_quote]) (i + int (length (etf_string s)))"
proof (rule printsI)
  fix out
  assume ok: "takes bf out (c_quote # s @ [c_quote])"
  let ?j = "i + int (length (etf_string s))"
  have ty: "ei_get_type_internal buf i = (Ok (ERL_STRING_EXT, Some (int (length s))) :: (unit, _) res)"
    using assms(2-4)
    by (auto simp: ei_get_type_internal_def etf_string_def get8_def rd_def at_off_append get16be_at)
  obtain p where p: "alloc (int (length s) + 1) = Some p" "int (length p) = int (length s) + 1"
    using assms(1) unfolding plenty_def alloc_ok_def by (metis add_nonneg_nonneg not_None_eq of_nat_0_le_iff zero_le_one)
  have dec: "ei_decode_string buf i (Some p) = Ok (Some (s @ 0 # drop (Suc (length s)) p), ?j)"
    using ei_decode_string_at [OF assms(2), of "Some p"] assms(4) p(2) by (simp add: room_def stored_name_def)
  obtain out' where out': "print_string alloc (s @ 0 # drop (Suc (length s)) p) (int (length s)) out = Ok (int (length s) + 2, out')"
      "dest_ok bf out'" "dtext out' = dtext out @ c_quote # s @ [c_quote]"
    using countsE [OF counts_string [OF assms(1,5) at_off_start] ok] by blast
  show "\<exists>out'. print_term (Suc d) alloc scan buf i out = Some (Ok (int (length (c_quote # s @ [c_quote])), ?j, out'))
      \<and> dest_ok bf out' \<and> dtext out' = dtext out @ c_quote # s @ [c_quote]"
    using dest_ok_ToNone [OF ok] out' by (simp add: print_step_def ty print_str_def ei_malloc_def p(1) dec)
qed

lemma join_Cons: "join ws (t # ts) = t @ (if ts = [] then [] else c_comma # ws @ join ws ts)"
  by (cases ts) (simp_all add: join_def)

lemma prints_elems:
  assumes "plenty alloc"
  shows "(\<And>t i. t \<in> set ts \<Longrightarrow> at_off buf i (fbytes t) \<Longrightarrow> prints bf f i (ftext [32] t) (i + int (length (fbytes t)))) \<Longrightarrow>
    at_off buf i (concat (map fbytes ts)) \<Longrightarrow> takes bf out (join [32] (map (ftext [32]) ts)) \<Longrightarrow>
    \<exists>out'. print_elems alloc f (length ts) ch i out
        = Some (Ok (ch + int (length (join [32] (map (ftext [32]) ts))), i + int (length (concat (map fbytes ts))), out'))
      \<and> dest_ok bf out' \<and> dtext out' = dtext out @ join [32] (map (ftext [32]) ts)"
proof (induction ts arbitrary: i ch out)
  case (Cons t ts)
  have a: "at_off buf i (fbytes t)" "at_off buf (i + int (length (fbytes t))) (concat (map fbytes ts))"
    using Cons.prems(2) by (simp_all add: at_off_append)
  have "prints bf f i (ftext [32] t) (i + int (length (fbytes t)))" using Cons.prems(1) a(1) by simp
  moreover have fit: "takes bf out (ftext [32] t @ (if ts = [] then [] else [c_comma, 32] @ join [32] (map (ftext [32]) ts)))"
    using Cons.prems(3) by (simp add: join_Cons split: if_splits)
  ultimately obtain out1 where 1: "f i out = Some (Ok (int (length (ftext [32] t)), i + int (length (fbytes t)), out1))"
      "dest_ok bf out1" "dtext out1 = dtext out @ ftext [32] t"
    using printsE [OF _ takes_prefix] by blast
  show ?case
  proof (cases "ts = []")
    case True
    then show ?thesis using 1 by (simp add: join_Cons)
  next
    case False
    have fit1: "takes bf out1 ([c_comma, 32] @ join [32] (map (ftext [32]) ts))"
      using takes_after [OF fit 1(2,3)] False by simp
    obtain out2 where 2: "xputs alloc [c_comma, 32] out1 = Ok out2" "dest_ok bf out2" "dtext out2 = dtext out1 @ [c_comma, 32]"
      using writesE [OF writes_xputs [OF assms] takes_prefix [OF fit1]] by blast
    obtain out3 where 3: "print_elems alloc f (length ts) (ch + int (length (ftext [32] t)) + 2) (i + int (length (fbytes t))) out2
        = Some (Ok (ch + int (length (ftext [32] t)) + 2 + int (length (join [32] (map (ftext [32]) ts))),
            i + int (length (fbytes t)) + int (length (concat (map fbytes ts))), out3))"
        "dest_ok bf out3" "dtext out3 = dtext out2 @ join [32] (map (ftext [32]) ts)"
      using Cons.IH [OF Cons.prems(1) a(2) takes_after [OF fit1 2(2,3)], where ch = "ch + int (length (ftext [32] t)) + 2"] by auto
    show ?thesis using 1 2 3 False by (simp add: join_Cons add.assoc)
  qed
qed (simp add: join_def)

lemma prints_tuple:
  assumes "plenty alloc" "int (length ts) < 2 ^ 31"
    "\<And>t i. t \<in> set ts \<Longrightarrow> at_off buf i (fbytes t) \<Longrightarrow>
      prints bf (print_term d alloc scan buf) i (ftext [32] t) (i + int (length (fbytes t)))"
    "at_off buf i (fbytes (FTuple ts))"
  shows "prints bf (print_term (Suc d) alloc scan buf) i (ftext [32] (FTuple ts)) (i + int (length (fbytes (FTuple ts))))"
proof (rule printsI)
  fix out
  assume ok: "takes bf out (ftext [32] (FTuple ts))"
  then have fit: "takes bf out ([c_lbrace] @ join [32] (map (ftext [32]) ts) @ [c_rbrace])" by simp
  define h where "h = etf_tuple_header (int (length ts))"
  define j where "j = i + int (length h)"
  have a: "at_off buf i h" "at_off buf j (concat (map fbytes ts))"
    using assms(4) by (simp_all add: at_off_append h_def j_def)
  have ty: "\<exists>ty len. ei_get_type_internal buf i = (Ok (ty, len) :: (unit, _) res) \<and> ty \<in> {ERL_SMALL_TUPLE_EXT, ERL_LARGE_TUPLE_EXT}"
    using a(1) assms(2)
    by (auto simp: h_def ei_get_type_internal_def etf_tuple_header_def get8_def rd_def at_off_append get32be_at split: if_splits)
  have dec: "ei_decode_tuple_header buf i True = Ok (Some (int (length ts)), j)"
    using ei_decode_tuple_header_at [of buf i "int (length ts)" True] a(1) assms(2) by (simp add: h_def j_def)
  obtain out1 where 1: "xputc alloc c_lbrace out = Ok out1" "dest_ok bf out1" "dtext out1 = dtext out @ [c_lbrace]"
    using writesE [OF writes_xputc [OF assms(1)] takes_prefix [OF fit]] by blast
  note fit1 = takes_after [OF fit 1(2,3)]
  obtain out2 where 2: "print_elems alloc (print_term d alloc scan buf) (length ts) 1 j out1
      = Some (Ok (1 + int (length (join [32] (map (ftext [32]) ts))), j + int (length (concat (map fbytes ts))), out2))"
      "dest_ok bf out2" "dtext out2 = dtext out1 @ join [32] (map (ftext [32]) ts)"
    using prints_elems [OF assms(1,3) a(2) takes_prefix [OF fit1]] by blast
  obtain out3 where 3: "xputc alloc c_rbrace out2 = Ok out3" "dest_ok bf out3" "dtext out3 = dtext out2 @ [c_rbrace]"
    using writesE [OF writes_xputc [OF assms(1)] takes_after [OF fit1 2(2,3)]] by blast
  obtain ty len where t: "ei_get_type_internal buf i = (Ok (ty, len) :: (unit, _) res)" "ty = ERL_SMALL_TUPLE_EXT \<or> ty = ERL_LARGE_TUPLE_EXT"
    using ty by auto
  have "print_step alloc scan buf (print_term d alloc scan buf) i out
      = Some (Ok (2 + int (length (join [32] (map (ftext [32]) ts))), j + int (length (concat (map fbytes ts))), out3))"
    using t(2) dest_ok_ToNone [OF ok] 1(1) 2(1) 3(1) by (auto simp: print_step_def t(1) dec)
  then show "\<exists>out'. print_term (Suc d) alloc scan buf i out
      = Some (Ok (int (length (ftext [32] (FTuple ts))), i + int (length (fbytes (FTuple ts))), out'))
      \<and> dest_ok bf out' \<and> dtext out' = dtext out @ ftext [32] (FTuple ts)"
    using 1 2 3 by (simp add: h_def j_def add.assoc)
qed

lemma get_type_nil: "at_off buf i (etf_list_header 0) \<Longrightarrow> ei_get_type_internal buf i = Ok (ERL_NIL_EXT, Some 0)"
  by (simp add: ei_get_type_internal_def etf_list_header_def get8_def rd_def)

lemma prints_nil:
  assumes "plenty alloc" "at_off buf i (etf_list_header 0)"
  shows "prints bf (print_term (Suc d) alloc scan buf) i [c_lbrack, c_rbrack] (i + int (length (etf_list_header 0)))"
proof (rule printsI)
  fix out
  assume ok: "takes bf out [c_lbrack, c_rbrack]"
  have dec: "ei_decode_list_header buf i True = Ok (Some 0, i + int (length (etf_list_header 0)))"
    using ei_decode_list_header_at [OF assms(2)] by simp
  have "length [c_lbrack, c_rbrack] < 2000" by simp
  then obtain out' where "xprintf alloc [c_lbrack, c_rbrack] out = Ok (int (length [c_lbrack, c_rbrack]), out')" "dest_ok bf out'"
      "dtext out' = dtext out @ [c_lbrack, c_rbrack]"
    using countsE [OF counts_xprintf [OF assms(1)] ok] by blast
  then show "\<exists>out'. print_term (Suc d) alloc scan buf i out
      = Some (Ok (int (length [c_lbrack, c_rbrack]), i + int (length (etf_list_header 0)), out'))
      \<and> dest_ok bf out' \<and> dtext out' = dtext out @ [c_lbrack, c_rbrack]"
    using dest_ok_ToNone [OF ok] by (simp add: print_step_def get_type_nil [OF assms(2)] dec)
qed

lemma prints_list:
  assumes "plenty alloc" "int (length ts) < 2 ^ 31" "ts \<noteq> []"
    "\<And>t i. t \<in> set ts \<Longrightarrow> at_off buf i (fbytes t) \<Longrightarrow>
      prints bf (print_term d alloc scan buf) i (ftext [32] t) (i + int (length (fbytes t)))"
    "at_off buf i (fbytes (FList ts))"
  shows "prints bf (print_term (Suc d) alloc scan buf) i (ftext [32] (FList ts)) (i + int (length (fbytes (FList ts))))"
proof (rule printsI)
  fix out
  assume ok: "takes bf out (ftext [32] (FList ts))"
  then have fit: "takes bf out ([c_lbrack] @ join [32] (map (ftext [32]) ts) @ [c_rbrack])" by simp
  define h where "h = etf_list_header (int (length ts))"
  define j where "j = i + int (length h)"
  define k where "k = j + int (length (concat (map fbytes ts)))"
  have a: "at_off buf i h" "at_off buf j (concat (map fbytes ts))" "at_off buf k (etf_list_header 0)"
    using assms(3,5) by (simp_all add: at_off_append h_def j_def k_def)
  have ty: "\<exists>len. ei_get_type_internal buf i = (Ok (ERL_LIST_EXT, len) :: (unit, _) res)"
    using a(1) assms(2,3)
    by (auto simp: h_def ei_get_type_internal_def etf_list_header_def get8_def rd_def at_off_append get32be_at split: if_splits)
  have dec: "ei_decode_list_header buf i True = Ok (Some (int (length ts)), j)"
    using ei_decode_list_header_at [of buf i "int (length ts)" True] a(1) assms(2) by (simp add: h_def j_def)
  have nil: "ei_decode_list_header buf k True = Ok (Some 0, k + int (length (etf_list_header 0)))"
    using ei_decode_list_header_at [OF a(3)] by simp
  obtain out1 where 1: "xputc alloc c_lbrack out = Ok out1" "dest_ok bf out1" "dtext out1 = dtext out @ [c_lbrack]"
    using writesE [OF writes_xputc [OF assms(1)] takes_prefix [OF fit]] by blast
  note fit1 = takes_after [OF fit 1(2,3)]
  obtain out2 where 2: "print_elems alloc (print_term d alloc scan buf) (length ts) 1 j out1
      = Some (Ok (1 + int (length (join [32] (map (ftext [32]) ts))), k, out2))"
      "dest_ok bf out2" "dtext out2 = dtext out1 @ join [32] (map (ftext [32]) ts)"
    using prints_elems [OF assms(1,4) a(2) takes_prefix [OF fit1]] unfolding k_def by blast
  obtain out3 where 3: "xputc alloc c_rbrack out2 = Ok out3" "dest_ok bf out3" "dtext out3 = dtext out2 @ [c_rbrack]"
    using writesE [OF writes_xputc [OF assms(1)] takes_after [OF fit1 2(2,3)]] by blast
  have "print_step alloc scan buf (print_term d alloc scan buf) i out
      = Some (Ok (2 + int (length (join [32] (map (ftext [32]) ts))), k + int (length (etf_list_header 0)), out3))"
    using ty dest_ok_ToNone [OF ok] 1(1) 2(1) 3(1) get_type_nil [OF a(3)] nil
    by (auto simp: print_step_def dec)
  then show "\<exists>out'. print_term (Suc d) alloc scan buf i out
      = Some (Ok (int (length (ftext [32] (FList ts))), i + int (length (fbytes (FList ts))), out'))
      \<and> dest_ok bf out' \<and> dtext out' = dtext out @ ftext [32] (FList ts)"
    using 1 2 3 assms(3) by (simp add: h_def j_def k_def add.assoc)
qed

lemma prints_term:
  assumes "plenty alloc"
  shows "fok t \<Longrightarrow> plain t \<Longrightarrow> fsize t \<le> d \<Longrightarrow> at_off buf i (fbytes t) \<Longrightarrow>
    prints bf (print_term d alloc scan buf) i (ftext [32] t) (i + int (length (fbytes t)))"
proof (induction t arbitrary: d i)
  case (FInt n)
  then show ?case using prints_int [OF assms] by (cases d) (auto simp del: print_term.simps)
next
  case (FAtom a)
  then have a: "take 255 a = a" "bare a" "length a < 256" "0 \<notin> set a"
    using no_tilde(2) by (auto simp: bare_def list_all_iff)
  obtain d' where "d = Suc d'" using FAtom.prems(3) by (cases d) auto
  then show ?case using prints_name [OF assms _ a(3,4), where buf = buf and i = i and d = d' and scan = scan] FAtom.prems(4) a(1,2) by (simp del: print_term.simps)
next
  case (FQuoted a)
  then have a: "\<not> bare a" "length a < 256" "0 \<notin> set a" by (auto simp: bare_def)
  obtain d' where "d = Suc d'" using FQuoted.prems(3) by (cases d) auto
  then show ?case using prints_name [OF assms _ a(2,3), where buf = buf and i = i and d = d' and scan = scan] FQuoted.prems(4) a(1) by (simp del: print_term.simps)
next
  case (FString s)
  obtain d' where "d = Suc d'" using FString.prems(3) by (cases d) auto
  then show ?case using prints_str [OF assms, where buf = buf and i = i and s = s and d = d' and scan = scan] FString.prems by (simp del: print_term.simps)
next
  case (FArg c v)
  then show ?case by simp
next
  case (FList ts)
  obtain d' where d: "d = Suc d'" "sum_list (map fsize ts) \<le> d'" using FList.prems(3) by (cases d) auto
  have el: "prints bf (print_term d' alloc scan buf) i (ftext [32] t) (i + int (length (fbytes t)))"
    if "t \<in> set ts" "at_off buf i (fbytes t)" for t i
    using FList.IH [OF that(1) _ _ _ that(2)] FList.prems(1,2) that(1) fsize_le_fsizes [OF that(1)] d(2)
    by (simp add: list_all_iff)
  show ?case
  proof (cases "ts = []")
    case True
    then show ?thesis using prints_nil [OF assms, where buf = buf and i = i and d = d' and scan = scan] FList.prems(4) d(1) by (simp add: join_def del: print_term.simps)
  next
    case False
    then show ?thesis using prints_list [OF assms _ False el FList.prems(4)] FList.prems(1) d(1) by (simp del: print_term.simps)
  qed
next
  case (FTuple ts)
  obtain d' where d: "d = Suc d'" "sum_list (map fsize ts) \<le> d'" using FTuple.prems(3) by (cases d) auto
  have el: "prints bf (print_term d' alloc scan buf) i (ftext [32] t) (i + int (length (fbytes t)))"
    if "t \<in> set ts" "at_off buf i (fbytes t)" for t i
    using FTuple.IH [OF that(1) _ _ _ that(2)] FTuple.prems(1,2) that(1) fsize_le_fsizes [OF that(1)] d(2)
    by (simp add: list_all_iff)
  show ?case using prints_tuple [OF assms _ el FTuple.prems(4)] FTuple.prems(1) d(1) by (simp del: print_term.simps ftext.simps fbytes.simps)
qed

end
