(* ===== verification/Ei_FormatTotal.thy ===== *)
theory Ei_FormatTotal
  imports Ei_Format
begin

text \<open>
  The parser of formats ends on every format: each call advances in the format or stops, so that
  fuel of the length of the format and two is enough, whatever the arguments and the allocator. The
  stack of the C program can be deeper than that: an opening bracket takes a call of \<open>eiformat\<close> and one
  of \<open>plist\<close> or \<open>ptuple\<close>, and so does every element on the way to it.
\<close>

section \<open>Calls that return\<close>

definition yields :: "('a \<Rightarrow> bool) \<Rightarrow> ('e, 'a) res option \<Rightarrow> bool" where
  "yields P r = (case r of None \<Rightarrow> False | Some (Ok a) \<Rightarrow> P a | _ \<Rightarrow> True)"

lemma yields_simps [simp]:
  "yields P (Some (Ok a)) = P a" "yields P (Some (Err e))" "yields P (Some Fault)" "\<not> yields P None"
  by (simp_all add: yields_def)

lemma yields_bindf: "yields Q m \<Longrightarrow> (\<And>a. Q a \<Longrightarrow> yields P (f a)) \<Longrightarrow> yields P (bindf m f)"
  by (cases "(m, f)" rule: bindf.cases) auto

lemma yields_Some: "(\<And>a. r = Ok a \<Longrightarrow> P a) \<Longrightarrow> yields P (Some r)"
  by (cases r) auto

lemma yields_if: "(b \<Longrightarrow> yields P s) \<Longrightarrow> (\<not> b \<Longrightarrow> yields P t) \<Longrightarrow> yields P (if b then s else t)"
  by simp

lemma yields_True: "yields (\<lambda>_. True) (Some r)"
  by (simp add: yields_Some)

lemma yields_lift: "yields P m \<Longrightarrow> yields P (map_option (lift_err x) m)"
  by (cases m; cases "the m") (auto simp: lift_err_def)

lemma yields_Some_lift: "yields P (Some r) \<Longrightarrow> yields P (Some (lift_err x r))"
  using yields_lift [of P "Some r"] by simp

section \<open>Tokens advance\<close>

lemma rd_inside: "rd fmt p = Ok c \<Longrightarrow> 0 \<le> p \<and> p < int (length fmt)"
  by (auto simp: rd_def in_range_def split: if_splits)

lemma forward_induct:
  assumes "\<And>p. (0 \<le> p \<Longrightarrow> p < int (length fmt) \<Longrightarrow> P (p + 1)) \<Longrightarrow> P p"
  shows "P p"
proof (induction "nat (int (length fmt) - p)" arbitrary: p rule: less_induct)
  case less
  show ?case by (rule assms) (rule less, simp)
qed

lemma skip_space_inside: "skip_space fmt p = (Ok q :: ('e, int) res) \<Longrightarrow> p \<le> q \<and> q < int (length fmt)"
proof (induction p rule: forward_induct [of fmt])
  case (1 p)
  from 1(2) obtain c where c: "rd fmt p = (Ok c :: ('e, byte) res)" "(if isspace c then skip_space fmt (p + 1) else Ok p) = (Ok q :: ('e, int) res)"
    unfolding skip_space.simps [of fmt p] by (auto simp: bindr_eq_Ok)
  show ?case using 1(1) c rd_inside [OF c(1)] by (auto split: if_splits)
qed

lemma ident_end_inside: "ident_end fmt p = (Ok q :: ('e, int) res) \<Longrightarrow> p \<le> q \<and> q < int (length fmt)"
proof (induction p rule: forward_induct [of fmt])
  case (1 p)
  from 1(2) obtain c where c: "rd fmt p = (Ok c :: ('e, byte) res)"
      "(if isalnum c \<or> c = c_underscore \<or> c = c_at then ident_end fmt (p + 1) else Ok p) = (Ok q :: ('e, int) res)"
    unfolding ident_end.simps [of fmt p] by (auto simp: bindr_eq_Ok)
  show ?case using 1(1) c rd_inside [OF c(1)] by (auto split: if_splits)
qed

lemma number_end_inside: "number_end fmt p dotp = (Ok (q, b) :: ('e, int \<times> bool) res) \<Longrightarrow> p \<le> q \<and> q < int (length fmt)"
proof (induction p arbitrary: dotp rule: forward_induct [of fmt])
  case (1 p)
  from 1(2) obtain c where c: "rd fmt p = (Ok c :: ('e, byte) res)"
      "(if isdigit c then number_end fmt (p + 1) dotp
        else if \<not> dotp \<and> c = c_dot then number_end fmt (p + 1) True else Ok (p, dotp)) = (Ok (q, b) :: ('e, int \<times> bool) res)"
    unfolding number_end.simps [of fmt p dotp] by (auto simp: bindr_eq_Ok)
  show ?case using 1(1) [of dotp] 1(1) [of True] c rd_inside [OF c(1)] by (auto split: if_splits)
qed

lemma quoted_end_inside: "quoted_end quote fmt p = (Ok (Some q) :: ('e, int option) res) \<Longrightarrow> p \<le> q \<and> q \<le> int (length fmt)"
proof (induction p rule: forward_induct [of fmt])
  case (1 p)
  from 1(2) obtain c where c: "rd fmt p = (Ok c :: ('e, byte) res)"
      "(if c = 0 then Ok None else if c = quote then
          bindr (rd fmt (p + 1 - 1)) (\<lambda>b. if b = c_backslash then quoted_end quote fmt (p + 1) else Ok (Some (p + 1)))
        else quoted_end quote fmt (p + 1)) = (Ok (Some q) :: ('e, int option) res)"
    unfolding quoted_end.simps [of quote fmt p] by (auto simp: bindr_eq_Ok Let_def)
  show ?case using 1(1) c rd_inside [OF c(1)] by (auto simp: bindr_eq_Ok Let_def split: if_splits)
qed

lemma yields_rd:
  fixes f :: "byte \<Rightarrow> ('e, 'a) res option"
  assumes "\<And>c. rd fmt p = (Ok c :: ('e, byte) res) \<Longrightarrow> 0 \<le> p \<Longrightarrow> p < int (length fmt) \<Longrightarrow> yields P (f c)"
  shows "yields P (bindf (Some (rd fmt p)) f)"
  using assms by (cases "rd fmt p :: ('e, byte) res") (auto dest: rd_inside)

lemma yields_space:
  fixes f :: "int \<Rightarrow> ('e, 'a) res option"
  assumes "\<And>q. p \<le> q \<Longrightarrow> q < int (length fmt) \<Longrightarrow> yields P (f q)"
  shows "yields P (bindf (Some (skip_space fmt p)) f)"
  using assms by (cases "skip_space fmt p :: ('e, int) res") (auto dest: skip_space_inside)

text \<open>\<open>goes fmt p q\<close>: from \<open>p\<close> to \<open>q\<close> inside the format.\<close>

definition goes :: "byte list \<Rightarrow> int \<Rightarrow> int \<Rightarrow> bool" where
  "goes fmt p q \<longleftrightarrow> p \<le> q \<and> q \<le> int (length fmt)"

lemma token_goes:
  "patom alloc fmt p x = Ok (q, x') \<Longrightarrow> goes fmt p q"
  "pdigit alloc scan fmt p x = Ok (q, x') \<Longrightarrow> goes fmt p q"
  "pstring alloc fmt p x = Ok (q, x') \<Longrightarrow> goes fmt p q"
  "pquotedatom alloc fmt p x = Ok (q, x') \<Longrightarrow> goes fmt p q"
  "pformat alloc fmt p args x = Ok (q, args', x') \<Longrightarrow> goes fmt p q"
proof -
  show "patom alloc fmt p x = Ok (q, x') \<Longrightarrow> goes fmt p q"
    using ident_end_inside by (fastforce simp: patom_def bindr_eq_Ok Let_def goes_def)
  show "pdigit alloc scan fmt p x = Ok (q, x') \<Longrightarrow> goes fmt p q"
    using number_end_inside by (fastforce simp: pdigit_def bindr_eq_Ok goes_def split: if_splits option.splits)
  show "pstring alloc fmt p x = Ok (q, x') \<Longrightarrow> goes fmt p q"
    using quoted_end_inside by (fastforce simp: pstring_def bindr_eq_Ok goes_def Let_def split: option.splits)
  show "pquotedatom alloc fmt p x = Ok (q, x') \<Longrightarrow> goes fmt p q"
    using quoted_end_inside by (fastforce simp: pquotedatom_def bindr_eq_Ok goes_def Let_def split: option.splits)
  show "pformat alloc fmt p args x = Ok (q, args', x') \<Longrightarrow> goes fmt p q"
    by (auto simp: pformat_def bindr_eq_Ok goes_def dest: rd_inside)
qed

lemma goesD: "goes fmt p q \<Longrightarrow> p \<le> q \<and> q \<le> int (length fmt)"
  by (simp add: goes_def)

section \<open>The recursion ends\<close>

text \<open>\<open>f\<close> returns at every position behind \<open>p\<close>.\<close>

definition ready :: "byte list \<Rightarrow> int \<Rightarrow> format_fun \<Rightarrow> bool" where
  "ready fmt p f \<longleftrightarrow> (\<forall>q args x. p < q \<longrightarrow> q \<le> int (length fmt) \<longrightarrow> yields (\<lambda>(q', _). goes fmt q q') (f q args x))"

lemma readyD:
  "ready fmt p f \<Longrightarrow> p < q \<Longrightarrow> q \<le> int (length fmt) \<Longrightarrow> yields (\<lambda>(q', _). goes fmt q q') (f q args x)"
  by (simp add: ready_def)

lemma ready_later: "ready fmt p f \<Longrightarrow> p \<le> q \<Longrightarrow> ready fmt q f"
  by (simp add: ready_def)

lemma ptuple_total:
  "ready fmt p f \<Longrightarrow> p \<le> int (length fmt) \<Longrightarrow> int (length fmt) - p < int k \<Longrightarrow>
   yields (\<lambda>(_, q, _). goes fmt p q) (ptuple k fmt f p args x sz)"
proof (induction k arbitrary: p args x sz)
  case (Suc k)
  have rec: "yields (\<lambda>(_, q, _). goes fmt p q) (ptuple k fmt f r args x sz)"
    if "p < r" "r \<le> int (length fmt)" for r args x sz
  proof -
    have "yields (\<lambda>(_, q, _). goes fmt r q) (ptuple k fmt f r args x sz)"
      using that Suc.prems by (intro Suc.IH ready_later [OF Suc.prems(1)]) auto
    then show ?thesis using that(1) by (auto simp: yields_def goes_def split: option.splits res.splits)
  qed
  have elem: "yields (\<lambda>(_, q, _). goes fmt p q)
      (bindf (f r args x) (\<lambda>(p, args, x). ptuple k fmt f p args x (sz + 1)))"
    if "p < r" "r \<le> int (length fmt)" for r args x
    using that by (intro yields_bindf [OF readyD [OF Suc.prems(1) that]]) (auto dest: goesD intro!: rec)
  show ?case
    unfolding ptuple.simps ptuple_step_def
  proof (rule yields_rd)
    fix after
    assume p: "0 \<le> p" "p < int (length fmt)"
    then have g: "goes fmt p (p + 1)" by (simp add: goes_def)
    show "yields (\<lambda>(_, q, _). goes fmt p q)
      (if after = c_rbrace then Some (Ok (sz, p + 1, args, x))
       else bindf (Some (skip_space fmt (p + 1))) (\<lambda>p. bindf (Some (rd fmt p)) (\<lambda>c.
           if c = c_rbrace then if after = c_comma then Some (Err x) else Some (Ok (sz, p + 1, args, x))
           else if c = c_comma then if after = c_comma \<or> after = c_lbrace then Some (Err x)
                else ptuple k fmt f (p + 1) args x sz
           else bindf (f p args x) (\<lambda>(p, args, x). ptuple k fmt f p args x (sz + 1)))))"
    proof (cases "after = c_rbrace")
      case False
      then show ?thesis
      proof (simp only: if_False, intro yields_space yields_rd)
        fix r c
        assume r: "p + 1 \<le> r" "r < int (length fmt)"
        then have "goes fmt p (r + 1)" by (simp add: goes_def)
        then show "yields (\<lambda>(_, q, _). goes fmt p q)
          (if c = c_rbrace then if after = c_comma then Some (Err x) else Some (Ok (sz, r + 1, args, x))
           else if c = c_comma then if after = c_comma \<or> after = c_lbrace then Some (Err x)
                else ptuple k fmt f (r + 1) args x sz
           else bindf (f r args x) (\<lambda>(p, args, x). ptuple k fmt f p args x (sz + 1)))"
          using rec [of "r + 1" args x sz] elem [of r args x] r by simp
      qed
    qed (simp add: g)
  qed
qed simp

lemma plist_total:
  "ready fmt p f \<Longrightarrow> p \<le> int (length fmt) \<Longrightarrow> int (length fmt) - p < int k \<Longrightarrow>
   yields (\<lambda>(_, q, _). goes fmt p q) (plist k alloc fmt f p args x sz)"
proof (induction k arbitrary: p args x sz)
  case (Suc k)
  have rec: "yields (\<lambda>(_, q, _). goes fmt p q) (plist k alloc fmt f r args x sz)"
    if "p < r" "r \<le> int (length fmt)" for r args x sz
  proof -
    have "yields (\<lambda>(_, q, _). goes fmt r q) (plist k alloc fmt f r args x sz)"
      using that Suc.prems by (intro Suc.IH ready_later [OF Suc.prems(1)]) auto
    then show ?thesis using that(1) by (auto simp: yields_def goes_def split: option.splits res.splits)
  qed
  have elem: "yields (\<lambda>(_, q, _). goes fmt p q)
      (bindf (f r args x) (\<lambda>(p, args, x).
        if after = c_bar
        then bindf (Some (skip_space fmt p)) (\<lambda>p. bindf (Some (rd fmt p)) (\<lambda>c.
               if c \<noteq> c_rbrack then Some (Err x) else Some (Ok (0, p, args, x))))
        else plist k alloc fmt f p args x (sz + 1)))"
    if "p < r" "r \<le> int (length fmt)" for r args x after
  proof (rule yields_bindf [OF readyD [OF Suc.prems(1) that]], clarify)
    fix q args x
    assume "goes fmt r q"
    then have q: "p < q" "q \<le> int (length fmt)" using that(1) by (auto dest: goesD)
    show "yields (\<lambda>(_, q, _). goes fmt p q)
       (if after = c_bar
        then bindf (Some (skip_space fmt q)) (\<lambda>p. bindf (Some (rd fmt p)) (\<lambda>c.
               if c \<noteq> c_rbrack then Some (Err x) else Some (Ok (0, p, args, x))))
        else plist k alloc fmt f q args x (sz + 1))"
    proof (cases "after = c_bar")
      case True
      then show ?thesis
      proof (simp only: simp_thms if_True, intro yields_space yields_rd)
        fix r' c
        assume "q \<le> r'" "r' < int (length fmt)"
        then have "goes fmt p r'" using q by (simp add: goes_def)
        then show "yields (\<lambda>(_, q, _). goes fmt p q) (if c \<noteq> c_rbrack then Some (Err x) else Some (Ok (0, r', args, x)))"
          by simp
      qed
    qed (use rec [OF q] in simp)
  qed
  show ?case
    unfolding plist.simps plist_step_def
  proof (rule yields_rd)
    fix after
    assume p: "rd fmt p = (Ok after :: (ei_x_buff, byte) res)" "0 \<le> p" "p < int (length fmt)"
    let ?closed = "\<lambda>r. bindf (Some (if after \<noteq> c_bar then result_ignored (ei_x_encode_empty_list alloc x) else Ok x)) (\<lambda>x.
           Some (Ok (sz, r + 1, args, x)))"
    have fin: "yields (\<lambda>(_, q, _). goes fmt p q) (?closed r)" if "p \<le> r" "r < int (length fmt)" for r
      by (rule yields_bindf [OF yields_True]) (use that in \<open>simp add: goes_def\<close>)
    let ?rest = "\<lambda>r c. if c = c_rbrack then if after = c_comma then Some (Err x) else ?closed r
       else if c = c_bar
       then if after = c_bar \<or> after = c_comma then Some (Err x) else plist k alloc fmt f (r + 1) args x sz
       else if c = c_comma
       then if after = c_bar \<or> after = c_comma then Some (Err x) else plist k alloc fmt f (r + 1) args x sz
       else bindf (f r args x) (\<lambda>(p, args, x).
            if after = c_bar
            then bindf (Some (skip_space fmt p)) (\<lambda>p.
                 bindf (Some (rd fmt p)) (\<lambda>c.
                   if c \<noteq> c_rbrack then Some (Err x) else Some (Ok (0, p, args, x))))
            else plist k alloc fmt f p args x (sz + 1))"
    have rest: "yields (\<lambda>(_, q, _). goes fmt p q) (?rest r c)" if r: "p + 1 \<le> r" "r < int (length fmt)" for r c
    proof -
      have r': "p < r + 1" "r + 1 \<le> int (length fmt)" "p < r" "r \<le> int (length fmt)" "p \<le> r" using r by simp_all
      show ?thesis
        by (intro yields_if yields_simps(2) fin [OF r'(5) r(2)] rec [OF r'(1,2)] elem [OF r'(3,4)])
    qed
    show "yields (\<lambda>(_, q, _). goes fmt p q)
       (bindf (Some (skip_space fmt (if after = c_rbrack then p else p + 1))) (\<lambda>p. bindf (Some (rd fmt p)) (?rest p)))"
    proof (cases "after = c_rbrack")
      case True
      then have "skip_space fmt p = (Ok p :: (ei_x_buff, int) res)"
        using p by (subst skip_space.simps) (simp add: isspace_def)
      then show ?thesis using True p fin [of p] by simp
    next
      case False
      then show ?thesis by (simp only: if_False) (intro yields_space yields_rd rest; simp)
    qed
  qed
qed simp

lemma eiformat_total:
  "0 \<le> p \<Longrightarrow> p \<le> int (length fmt) \<Longrightarrow> int (length fmt) - p + 1 < int d \<Longrightarrow>
   yields (\<lambda>(q, _). goes fmt p q) (eiformat d alloc scan fmt p args x)"
proof (induction d arbitrary: p args x)
  case (Suc d)
  let ?f = "eiformat d alloc scan fmt"
  have tok: "yields (\<lambda>(q, _). goes fmt p q) (bindf (Some r) (\<lambda>(p, x). Some (Ok (p, args, x))))"
    if "\<And>q x. r = Ok (q, x) \<Longrightarrow> goes fmt r' q" "p \<le> r'" for r r' and args :: "arg list"
    using that by (cases r) (auto simp: goes_def)
  have loops: "yields (\<lambda>(_, q, _). goes fmt p q) (plist d alloc fmt ?f r args x2 0)"
      "yields (\<lambda>(_, q, _). goes fmt p q) (ptuple d fmt ?f r args x2 0)"
    if "p \<le> r" "r < int (length fmt)" for r args x2
  proof -
    have ready: "ready fmt r ?f"
      unfolding ready_def using Suc.prems that by (intro allI impI Suc.IH) auto
    have "yields (\<lambda>(_, q, _). goes fmt r q) (plist d alloc fmt ?f r args x2 0)"
      "yields (\<lambda>(_, q, _). goes fmt r q) (ptuple d fmt ?f r args x2 0)"
      using Suc.prems that by (intro plist_total ptuple_total ready; simp)+
    then show "yields (\<lambda>(_, q, _). goes fmt p q) (plist d alloc fmt ?f r args x2 0)"
      "yields (\<lambda>(_, q, _). goes fmt p q) (ptuple d fmt ?f r args x2 0)"
      using that(1) by (auto simp: yields_def goes_def split: option.splits res.splits)
  qed
  show ?case
    unfolding eiformat.simps eiformat_step_def
  proof (intro yields_space yields_rd)
    fix r c
    assume r: "p \<le> r" "r < int (length fmt)"
    let ?P = "\<lambda>(q, _ :: arg list \<times> ei_x_buff). goes fmt p q"
    have list: "yields ?P (bindf (Some (lift_err x (ei_x_new alloc))) (\<lambda>x2.
            bindf (map_option (lift_err x) (plist d alloc fmt ?f r args x2 0)) (\<lambda>(res, p, args, x2).
            bindf (Some (if res > 0 then ei_x_encode_list_header alloc x (word_of_int res) else Ok x)) (\<lambda>x.
            bindf (Some (ei_x_append alloc x x2)) (\<lambda>x. Some (Ok (p, args, x)))))))"
      by (rule yields_bindf [OF yields_True], rule yields_bindf [OF yields_lift [OF loops(1) [OF r]]], clarify)
        (rule yields_bindf [OF yields_True], rule yields_bindf [OF yields_True], simp)
    have tuple: "yields ?P (bindf (Some (lift_err x (ei_x_new alloc))) (\<lambda>x2.
            bindf (map_option (lift_err x) (ptuple d fmt ?f r args x2 0)) (\<lambda>(res, p, args, x2).
            bindf (Some (ei_x_encode_tuple_header alloc x (word_of_int res))) (\<lambda>x.
            bindf (Some (ei_x_append alloc x x2)) (\<lambda>x. Some (Ok (p, args, x)))))))"
      by (rule yields_bindf [OF yields_True], rule yields_bindf [OF yields_lift [OF loops(2) [OF r]]], clarify)
        (rule yields_bindf [OF yields_True], rule yields_bindf [OF yields_True], simp)
    have arg: "yields ?P (Some (pformat alloc fmt r args x))"
      using r(1) by (intro yields_Some) (auto dest!: token_goes(5) simp: goes_def)
    note toks = tok [OF token_goes(1) r(1)] tok [OF token_goes(2) r(1)] tok [OF token_goes(3) r(1)] tok [OF token_goes(4) r(1)]
    have sign: "yields ?P (bindf (if c = c_minus \<or> c = c_plus then Some (rd fmt (r + 1)) else Some (Ok 0)) (\<lambda>c'.
         if (c = c_minus \<or> c = c_plus) \<and> isdigit c'
         then bindf (Some (pdigit alloc scan fmt r x)) (\<lambda>(p, x). Some (Ok (p, args, x)))
         else if islower c then bindf (Some (patom alloc fmt r x)) (\<lambda>(p, x). Some (Ok (p, args, x)))
         else Some (Err x)))"
      by (rule yields_bindf [of "\<lambda>_. True"]) (simp_all add: yields_True toks)
    show "yields ?P
       (if c = c_tilde then Some (pformat alloc fmt r args x)
       else if c = c_lbrack
       then bindf (Some (lift_err x (ei_x_new alloc))) (\<lambda>x2.
            bindf (map_option (lift_err x) (plist d alloc fmt ?f r args x2 0)) (\<lambda>(res, p, args, x2).
            bindf (Some (if res > 0 then ei_x_encode_list_header alloc x (word_of_int res) else Ok x)) (\<lambda>x.
            bindf (Some (ei_x_append alloc x x2)) (\<lambda>x. Some (Ok (p, args, x))))))
       else if c = c_lbrace
       then bindf (Some (lift_err x (ei_x_new alloc))) (\<lambda>x2.
            bindf (map_option (lift_err x) (ptuple d fmt ?f r args x2 0)) (\<lambda>(res, p, args, x2).
            bindf (Some (ei_x_encode_tuple_header alloc x (word_of_int res))) (\<lambda>x.
            bindf (Some (ei_x_append alloc x x2)) (\<lambda>x. Some (Ok (p, args, x))))))
       else if c = c_quote then bindf (Some (pstring alloc fmt r x)) (\<lambda>(p, x). Some (Ok (p, args, x)))
       else if c = c_apos then bindf (Some (pquotedatom alloc fmt r x)) (\<lambda>(p, x). Some (Ok (p, args, x)))
       else if isdigit c then bindf (Some (pdigit alloc scan fmt r x)) (\<lambda>(p, x). Some (Ok (p, args, x)))
       else bindf (if c = c_minus \<or> c = c_plus then Some (rd fmt (r + 1)) else Some (Ok 0)) (\<lambda>c'.
         if (c = c_minus \<or> c = c_plus) \<and> isdigit c'
         then bindf (Some (pdigit alloc scan fmt r x)) (\<lambda>(p, x). Some (Ok (p, args, x)))
         else if islower c then bindf (Some (patom alloc fmt r x)) (\<lambda>(p, x). Some (Ok (p, args, x)))
         else Some (Err x)))"
      by (intro yields_if arg list tuple toks sign)
  qed
qed simp

lemma format_total:
  assumes "length fmt + 2 \<le> d"
  shows "ei_x_format_wo_ver d alloc scan x fmt ap \<noteq> None" "ei_x_format d alloc scan x fmt ap \<noteq> None"
proof -
  have e: "yields (\<lambda>_. True) (eiformat d alloc scan fmt 0 args x)" for args x
    using eiformat_total [of 0 fmt d alloc scan args x] assms by (auto simp: yields_def split: option.splits res.splits)
  have "yields (\<lambda>_. True) (bindf (Some (read_args alloc fmt ap)) (\<lambda>r. case r of
       None \<Rightarrow> Some (Err x) | Some args \<Rightarrow> bindf (eiformat d alloc scan fmt 0 args x) (\<lambda>(_, _, x). Some (Ok x))))" for x
    by (rule yields_bindf [OF yields_True]) (auto split: option.splits intro: yields_bindf [OF e])
  note b = this
  then show "ei_x_format_wo_ver d alloc scan x fmt ap \<noteq> None"
    unfolding ei_x_format_wo_ver_def by (metis yields_simps(4))
  have "yields (\<lambda>_. True) (ei_x_format d alloc scan x fmt ap)"
    unfolding ei_x_format_def by (rule yields_bindf [OF yields_True]) (rule b)
  then show "ei_x_format d alloc scan x fmt ap \<noteq> None" by (metis yields_simps(4))
qed

end
