(* ===== verification/Fmt_Props.thy ===== *)
theory Fmt_Props
  imports Ei_PrintSpec Ei_FormatTotal
begin

text \<open>
  The properties of the text functions, \<^verbatim>\<open>ei_format.c\<close> and \<^verbatim>\<open>ei_printterm.c\<close>, with their
  witnesses. The fuel of the parser and of the printer is not a number of C calls: it bounds the
  nesting of terms and, again, the elements on each level; the length of the text is enough.
\<close>

section \<open>Formatting\<close>

text \<open>C11: For a format that is the text of a term, with any white space behind the commas and with
  \<open>~\<close> conversions whose arguments have the types the letters ask for, \<open>ei_x_format\<close> succeeds and
  adds to the buffer the version byte and exactly the bytes of that term, and \<open>ei_x_format_wo_ver\<close>
  the bytes alone, as long as memory can be had and the sizes of the buffer stay numbers of type \<open>int\<close>.\<close>

theorem format_writes_term:
  fixes x :: ei_x_buff
  assumes "plenty alloc" "list_all isspace ws" "fok t" "x_ok x" "length (ftext ws t) \<le> d"
    "x_index x + int (length (131 # fbytes t)) + 2 * ei_x_extra \<le> INT_MAX"
  shows "(\<exists>x'. ei_x_format d alloc scan x (ftext ws t @ [0]) (vargs t) = Some (Ok x')
      \<and> x_ok x' \<and> x_data x' = x_data x @ 131 # fbytes t)
    \<and> (\<exists>x'. ei_x_format_wo_ver d alloc scan x (ftext ws t @ [0]) (vargs t) = Some (Ok x')
      \<and> x_ok x' \<and> x_data x' = x_data x @ fbytes t)"
proof -
  let ?v = "[byte_of ERL_VERSION_MAGIC]"
  have f: "fits x (?v @ fbytes t)" "fits x (fbytes t)" using assms(4,6) by (simp_all add: fits_def)
  have "alloc_ok alloc" using assms(1) by (simp add: plenty_def)
  then obtain x1 where 1: "ei_x_encode_version alloc x = Ok x1" "x_ok x1" "x_data x1 = x_data x @ ?v"
    using adds_plenty [OF version_adds assms(1) fits_prefix [OF f(1)]] by blast
  obtain x2 where 2: "ei_x_format_wo_ver d alloc scan x1 (ftext ws t @ [0]) (vargs t) = Some (Ok x2)" "x_ok x2"
      "x_data x2 = x_data x1 @ fbytes t"
    using format_result [OF assms(1-3) fits_after [OF f(1) 1(2,3)] assms(5)] by blast
  then have "ei_x_format d alloc scan x (ftext ws t @ [0]) (vargs t) = Some (Ok x2)"
    by (simp add: ei_x_format_def ei_x_format_wo_ver_def 1(1))
  moreover have "x_data x2 = x_data x @ 131 # fbytes t" using 1(3) 2(3) by (simp add: byte_of_def)
  ultimately show ?thesis using format_result [OF assms(1-3) f(2) assms(5)] 2(2) by blast
qed

theorem format_writes_term_witness:
  "\<exists>x'. ei_x_format 17 plain_alloc (\<lambda>_. None) \<lparr>x_buff = Some [], x_buffsz = 0, x_index = 0\<rparr>
      [123, 102, 111, 111, 44, 32, 91, 126, 105, 44, 32, 34, 97, 98, 34, 93, 125, 0] [VaInt 7] = Some (Ok x')
    \<and> x_data x' = [131, 104, 2, 119, 3, 102, 111, 111, 108, 0, 0, 0, 2, 97, 7, 107, 0, 2, 97, 98, 106]"
proof -
  let ?t = "FTuple [FAtom [102, 111, 111], FList [FArg 105 (VaInt 7), FString [97, 98]]]"
  let ?x = "\<lparr>x_buff = Some [], x_buffsz = 0, x_index = 0\<rparr>"
  have t: "ftext [32] ?t = [123, 102, 111, 111, 44, 32, 91, 126, 105, 44, 32, 34, 97, 98, 34, 93, 125]"
    by (simp add: join_def)
  have ok: "fok ?t" by code_simp
  have b: "fbytes ?t = [104, 2, 119, 3, 102, 111, 111, 108, 0, 0, 0, 2, 97, 7, 107, 0, 2, 97, 98, 106]"
    by (simp add: etf_int_def etf_atom_latin1_def etf_list_header_def etf_tuple_header_def etf_string_def
        byte_of_def be32_def be16_def)
  have ws: "list_all isspace [32]" by code_simp
  have x: "x_ok ?x" "x_data ?x = []" by (simp_all add: x_ok_def x_data_def)
  have len: "length (ftext [32] ?t) \<le> 17" unfolding t by simp
  have sz: "x_index ?x + int (length (131 # fbytes ?t)) + 2 * ei_x_extra \<le> INT_MAX" unfolding b by simp
  note r = format_writes_term [OF plenty_plain ws ok x(1) len sz, where scan = "\<lambda>_. None", THEN conjunct1]
  show ?thesis using r unfolding t b x(2) by auto
qed

text \<open>The fuel of the parser is a device of the model: with two units more than the format has
  characters it is never used up, whatever the format, the arguments, the memory and the answers of
  \<open>sscanf\<close> are. What formatting then comes to is a buffer, an error or an undefined operation.\<close>

lemma format_always_returns:
  "ei_x_format (length fmt + 2) alloc scan x fmt ap \<noteq> None
    \<and> ei_x_format_wo_ver (length fmt + 2) alloc scan x fmt ap \<noteq> None"
  by (simp add: format_total)

section \<open>Printing what was formatted\<close>

lemma in_set_join: "c \<in> set (join ws ts) \<Longrightarrow> c = c_comma \<or> c \<in> set ws \<or> (\<exists>t \<in> set ts. c \<in> set t)"
  by (cases ts) (auto simp: join_def split: if_splits)

lemma text_no_nul:
  assumes "0 \<notin> set ws"
  shows "fok t \<Longrightarrow> plain t \<Longrightarrow> 0 \<notin> set (ftext ws t)"
proof (induction t)
  case (FInt n)
  then show ?case using show_int_chars [of n] by (auto dest: no_tilde simp: list_all_iff)
next
  case (FAtom a)
  then show ?case using no_tilde(2) by (auto simp: list_all_iff)
next
  case (FList ts)
  then show ?case using assms by (auto simp: list_all_iff dest!: in_set_join)
next
  case (FTuple ts)
  then show ?case using assms by (auto simp: list_all_iff dest!: in_set_join)
qed auto

lemma plain_no_args: "plain t \<Longrightarrow> vargs t = []"
  by (induction t) (auto simp: list_all_iff)

lemma name_of_take:
  assumes "take n b = s @ [0]" "0 \<notin> set s"
  shows "name_of b = s"
proof -
  have "b = s @ 0 # drop n b" using append_take_drop_id [of n b] assms(1) by simp
  moreover have "takeWhile (\<lambda>c. c \<noteq> 0) (s @ 0 # r) = s" for r :: "byte list"
    by (subst takeWhile_append2) (use assms(2) in auto)
  ultimately have "strlen b = length s" unfolding strlen_def by metis
  with \<open>b = s @ 0 # drop n b\<close> show ?thesis unfolding name_of_def by (metis append_eq_conv_conj)
qed

text \<open>C10: Printing is the inverse of formatting: when a term's text, with any white space behind the
  commas, is formatted into an empty buffer, \<open>ei_s_print_term\<close> on the bytes allocates a string with
  the text of the same term with one space behind each comma, NUL-terminated, and returns its length.
  The terms are the integers, atoms, strings of printable characters, lists and tuples whose text
  shows all of the value, and whose bytes and text have sizes of type \<open>int\<close>.\<close>

theorem format_print_roundtrip:
  fixes x :: ei_x_buff
  assumes "plenty alloc" "list_all isspace ws" "fok t" "plain t" "x_ok x" "x_data x = []" "length (ftext ws t) \<le> d"
    "int (length (fbytes t)) + 2 * ei_x_extra \<le> INT_MAX" "int (length (ftext [32] t)) + 1 + 2 * ei_x_extra \<le> INT_MAX"
  shows "\<exists>x' b. ei_x_format_wo_ver d alloc scan x (ftext ws t @ [0]) [] = Some (Ok x')
    \<and> ei_s_print_term d alloc scan None (x_data x') 0 = Some (Ok (int (length (ftext [32] t)), Some b))
    \<and> name_of b = ftext [32] t"
proof -
  have f: "fits x (fbytes t)" using assms(5,6,8) length_x_data [of x] by (simp add: fits_def)
  obtain x' where x': "ei_x_format_wo_ver d alloc scan x (ftext ws t @ [0]) [] = Some (Ok x')" "x_data x' = fbytes t"
    using format_result [OF assms(1-3) f assms(7)] plain_no_args [OF assms(4)] assms(6) by auto
  obtain x0 where x0: "ei_x_new alloc = Ok x0" "x_ok x0" "x_data x0 = []"
    using x_new_plenty [OF assms(1)] .
  have out: "takes True (ToBuff x0) (ftext [32] t @ [0])"
    using x0(2,3) assms(9) length_x_data [of x0] by (simp add: takes_def dest_ok_def fits_def)
  have "fsize t \<le> d" using fsize_le_text [OF assms(3), of ws] assms(7) by simp
  then have "prints True (print_term d alloc scan (x_data x')) 0 (ftext [32] t) (0 + int (length (fbytes t)))"
    by (intro prints_term assms) (simp_all add: x'(2) at_off_iff)
  then obtain out1 where 1: "print_term d alloc scan (x_data x') 0 (ToBuff x0) = Some (Ok (int (length (ftext [32] t)), 0 + int (length (fbytes t)), out1))"
      "dest_ok True out1" "dtext out1 = dtext (ToBuff x0) @ ftext [32] t"
    using printsE [OF _ takes_prefix [OF out]] by blast
  obtain out2 where 2: "xputs alloc [0] out1 = Ok out2" "dest_ok True out2" "dtext out2 = dtext out1 @ [0]"
    using writesE [OF writes_xputs [OF assms(1)] takes_after [OF out 1(2,3)]] by blast
  obtain x2 where x2: "out2 = ToBuff x2" "x_ok x2" using 2(2) by (cases out2) (simp_all add: dest_ok_def)
  then obtain b where b: "x_buff x2 = Some b" by (auto simp: x_ok_def split: option.splits)
  have "take (nat (x_index x2)) b = ftext [32] t @ [0]"
    using 1(3) 2(3) x0(3) x2(1) b by (simp add: dtext_def x_data_def)
  then have "name_of b = ftext [32] t" using text_no_nul [of "[32]" t] assms(3,4) by (intro name_of_take) simp_all
  moreover have "ei_s_print_term d alloc scan None (x_data x') 0 = Some (Ok (int (length (ftext [32] t)), Some b))"
    using x0(1) 1(1) 2(1) by (simp add: ei_s_print_term_def x2(1) b Let_def)
  ultimately show ?thesis using x'(1) by blast
qed

theorem format_print_roundtrip_witness:
  "\<exists>x' b. ei_x_format_wo_ver 21 plain_alloc (\<lambda>_. None) \<lparr>x_buff = Some [], x_buffsz = 0, x_index = 0\<rparr>
      [123, 102, 111, 111, 44, 45, 49, 50, 44, 91, 34, 97, 32, 98, 34, 44, 39, 88, 39, 93, 125, 0] [] = Some (Ok x')
    \<and> ei_s_print_term 21 plain_alloc (\<lambda>_. None) None (x_data x') 0 = Some (Ok (24, Some b))
    \<and> name_of b = [123, 102, 111, 111, 44, 32, 45, 49, 50, 44, 32, 91, 34, 97, 32, 98, 34, 44, 32, 39, 88, 39, 93, 125]"
proof -
  let ?t = "FTuple [FAtom [102, 111, 111], FInt (- 12), FList [FString [97, 32, 98], FQuoted [88]]]"
  let ?x = "\<lparr>x_buff = Some [], x_buffsz = 0, x_index = 0\<rparr>"
  have "show_int (- 12) = [45, 49, 50]" by code_simp
  then have t: "ftext [] ?t = [123, 102, 111, 111, 44, 45, 49, 50, 44, 91, 34, 97, 32, 98, 34, 44, 39, 88, 39, 93, 125]"
    "ftext [32] ?t = [123, 102, 111, 111, 44, 32, 45, 49, 50, 44, 32, 91, 34, 97, 32, 98, 34, 44, 32, 39, 88, 39, 93, 125]"
    by (simp_all add: join_def)
  have ok: "fok ?t" "plain ?t"
    by (simp_all add: identchar_def isalnum_def islower_def isupper_def isdigit_def printable_def)
  have x: "x_ok ?x" "x_data ?x = []" by (simp_all add: x_ok_def x_data_def)
  have ws: "list_all isspace []" by simp
  have len: "length (ftext [] ?t) \<le> 21" unfolding t by simp
  have sz: "int (length (fbytes ?t)) + 2 * ei_x_extra \<le> INT_MAX" by code_simp
  have sz': "int (length (ftext [32] ?t)) + 1 + 2 * ei_x_extra \<le> INT_MAX" unfolding t by simp
  note r = format_print_roundtrip [OF plenty_plain ws ok x len sz sz', where scan = "\<lambda>_. None"]
  show ?thesis using r unfolding t by simp
qed

section \<open>Where the text functions go wrong\<close>

text \<open>What formatting without the version byte adds to an empty buffer.\<close>

definition format_of :: "byte list \<Rightarrow> (unit, byte list) res option" where
  "format_of fmt = map_option (\<lambda>r. case r of Ok x \<Rightarrow> Ok (x_data x) | Err _ \<Rightarrow> Err () | Fault \<Rightarrow> Fault)
     (ei_x_format_wo_ver (length fmt + 2) plain_alloc (\<lambda>_. None) \<lparr>x_buff = Some [], x_buffsz = 0, x_index = 0\<rparr> fmt [])"

text \<open>The format \<open>{1 ,2}\<close>: white space before the comma ends the tuple, the rest is lost and no error is
  reported.\<close>

lemma space_before_comma_ends_tuple: "format_of [123, 49, 32, 44, 50, 125, 0] = Some (Ok [104, 1, 97, 1])"
  by code_simp

text \<open>The format \<open>[1|2]\<close> gives the elements without a list header.\<close>

lemma improper_list_has_no_header: "format_of [91, 49, 124, 50, 93, 0] = Some (Ok [97, 1, 97, 2])"
  by code_simp

text \<open>The format \<open>{1\<close>: the parser reads behind the terminating NUL.\<close>

lemma unclosed_tuple_read_past_end: "format_of [123, 49, 0] = Some Fault"
  by code_simp

text \<open>Printing an empty binary reads its first byte; printing a big number reads behind its digits.\<close>

lemma empty_binary_over_read: "print_term 1 plain_alloc (\<lambda>_. None) [109, 0, 0, 0, 0] 0 (ToFile []) = Some Fault"
  by code_simp

lemma big_over_read: "print_term 1 plain_alloc (\<lambda>_. None) [110, 4, 0, 1, 2, 3, 4] 0 (ToFile []) = Some Fault"
  by code_simp

end
