(* ===== verification/Erl_Eterm.thy ===== *)
theory Erl_Eterm
  imports Ei_Ids Ei_Text
begin

text \<open>
  The terms of the older \<open>erl_\<close> interface: \<open>ETERM\<close> of \<^verbatim>\<open>erl_interface.h\<close> and the functions on it that
  \<^verbatim>\<open>erl_marshal.c\<close> uses, from \<^verbatim>\<open>erl_eterm.c\<close>. A term is a value: its cells are not changed by the
  modelled functions, so sharing and reference counts play no role. Memory for terms is always
  granted (\<open>erl_malloc\<close> ends the program otherwise).
\<close>

section \<open>Terms\<close>

text \<open>
  The name of an atom is kept in two encodings, each with its length, of which one may be missing
  (a NULL pointer). \<open>erl_atom_ptr_latin1\<close> and \<open>erl_atom_ptr_utf8\<close> compute the missing one.
\<close>

record Erl_Atom_data =
  a_utf8 :: "byte list option"
  a_lenU :: int
  a_latin1 :: "byte list option"
  a_lenL :: int

text \<open>
  A member of a fun may be NULL, because the decoder does not check for errors there. The variables
  of patterns and the unused \<open>Erl_Big\<close> have no external form.
\<close>

datatype ETERM =
    Erl_Integer "32 word"
  | Erl_Uinteger "32 word"
  | Erl_LLInteger "64 word"
  | Erl_ULLInteger "64 word"
  | Erl_Float "64 word"
  | Erl_Atom Erl_Atom_data
  | Erl_Pid Erl_Atom_data (e_number: "32 word") (e_serial: "32 word") (e_creation: "32 word")
  | Erl_Port Erl_Atom_data "32 word" "32 word"
  | Erl_Ref Erl_Atom_data (e_len: int) (e_n: "32 word list") "32 word"
  | Erl_List (e_head: ETERM) (e_tail: ETERM)
  | Erl_EmptyList
  | Erl_Tuple (e_elems: "ETERM list")
  | Erl_Binary "byte list"
  | Erl_Variable (v_name: "byte list") (v_val: "ETERM option")
  | Erl_Big erlang_big
  | Erl_Function (e_arity: "32 word") (e_md5: "byte list") (e_new_index: "32 word")
      (e_creator: "ETERM option") (e_module: "ETERM option") (e_index: "ETERM option") (e_uniq: "ETERM option")
      (e_closure: "ETERM option list")

text \<open>The walk along the tails of a list: its elements, and what is there in place of a further cell.\<close>

fun list_heads :: "ETERM \<Rightarrow> ETERM list" where
  "list_heads (Erl_List h t) = h # list_heads t"
| "list_heads t = []"

fun list_last :: "ETERM \<Rightarrow> ETERM" where
  "list_last (Erl_List h t) = list_last t"
| "list_last t = t"

lemma size_list_heads: "e \<in> set (list_heads t) \<Longrightarrow> size e < size t"
  by (induction t) auto

lemma size_list_last: "size (list_last t) \<le> size t"
  by (induction t) auto

lemma list_last_neq [simp]: "list_last t \<noteq> Erl_List h r"
  by (induction t) auto

definition erl_length_x :: "ETERM \<Rightarrow> int" where
  "erl_length_x ep = int (length (list_heads ep))"

text \<open>The length of a list of bytes that ends with the empty list, 0 for anything else.\<close>

fun is_string_loop :: "ETERM \<Rightarrow> int \<Rightarrow> int" where
  "is_string_loop (Erl_List h t) len =
     (case h of Erl_Integer i \<Rightarrow> if i > 255 then 0 else is_string_loop t (len + 1) | _ \<Rightarrow> 0)"
| "is_string_loop Erl_EmptyList len = len"
| "is_string_loop t len = 0"

definition is_string :: "ETERM \<Rightarrow> int" where
  "is_string term = is_string_loop term 0"

section \<open>Atoms\<close>

text \<open>\<open>erl_atom_init_latin1\<close>: the name is a copy of a C string.\<close>

definition erl_atom_init_latin1 :: "byte list \<Rightarrow> Erl_Atom_data" where
  "erl_atom_init_latin1 s =
     \<lparr>a_utf8 = None, a_lenU = 0, a_latin1 = Some (take (strlen s) s @ [0]), a_lenL = int (strlen s)\<rparr>"

text \<open>
  Both functions store what they computed in the atom; the value is the pointer and the atom. A
  name that is not Latin-1 has no Latin-1 pointer.
\<close>

definition erl_atom_ptr_latin1 :: "Erl_Atom_data \<Rightarrow> (unit, byte list option \<times> Erl_Atom_data) res" where
  "erl_atom_ptr_latin1 a =
     (case a_latin1 a of
        Some s \<Rightarrow> Ok (Some s, a)
      | None \<Rightarrow>
          bindr (case a_utf8 a of None \<Rightarrow> Fault | Some u \<Rightarrow> Ok u) (\<lambda>u.
          bindr (utf8_to_latin1 None 0 u 0 (a_lenU a) (a_lenU a)) (\<lambda>(_, r). case r of
              None \<Rightarrow> Ok (None, a\<lparr>a_lenL := 0\<rparr>)
            | Some (l, enc) \<Rightarrow>
                if enc = ERLANG_ASCII then Ok (Some u, a\<lparr>a_lenL := l, a_latin1 := Some u\<rparr>)
                else bindr (utf8_to_latin1 (Some (replicate (nat l + 1) 0)) 0 u 0 (a_lenU a) l) (\<lambda>(s, _).
                     bindr (put_nul s l) (\<lambda>s. Ok (s, a\<lparr>a_lenL := l, a_latin1 := s\<rparr>))))))"

definition erl_atom_ptr_utf8 :: "Erl_Atom_data \<Rightarrow> (unit, byte list option \<times> Erl_Atom_data) res" where
  "erl_atom_ptr_utf8 a =
     (case a_utf8 a of
        Some u \<Rightarrow> Ok (Some u, a)
      | None \<Rightarrow>
          bindr (case a_latin1 a of None \<Rightarrow> Fault | Some s \<Rightarrow> Ok s) (\<lambda>s.
          bindr (latin1_to_utf8 None 0 s 0 (a_lenL a) (a_lenL a * 2)) (\<lambda>(_, r). case r of
              None \<Rightarrow> Fault
            | Some (l, enc) \<Rightarrow>
                if enc = ERLANG_ASCII then Ok (Some s, a\<lparr>a_lenU := l, a_utf8 := Some s\<rparr>)
                else bindr (latin1_to_utf8 (Some (replicate (nat l + 1) 0)) 0 s 0 (a_lenL a) l) (\<lambda>(u, _).
                     bindr (put_nul u l) (\<lambda>u. Ok (u, a\<lparr>a_lenU := l, a_utf8 := u\<rparr>))))))"

definition erl_atom_size_latin1 :: "Erl_Atom_data \<Rightarrow> (unit, int \<times> Erl_Atom_data) res" where
  "erl_atom_size_latin1 a = bindr (erl_atom_ptr_latin1 a) (\<lambda>(_, a). Ok (a_lenL a, a))"

definition erl_atom_size_utf8 :: "Erl_Atom_data \<Rightarrow> (unit, int \<times> Erl_Atom_data) res" where
  "erl_atom_size_utf8 a = bindr (erl_atom_ptr_utf8 a) (\<lambda>(_, a). Ok (a_lenU a, a))"

end
