(* ===== verification/Erl_Marshal.thy ===== *)
theory Erl_Marshal
  imports Erl_Eterm
begin

text \<open>
  Writing terms of the older interface: \<open>erl_encode_it\<close> and its callers, and the computation of the
  room they need, \<open>erl_term_len\<close>, of \<^verbatim>\<open>erl_marshal.c\<close>. \<open>*ext\<close> is the buffer with an offset, so that
  writing behind the buffer is a fault. \<open>Err\<close> is the return value 1, with what was written by then.
\<close>

section \<open>Numbers in text\<close>

text \<open>
  \<open>%.20e\<close>: one digit, twenty decimals, rounded to nearest with ties to even, and an exponent of at
  least two digits. \<open>scaled m k e\<close> is \<open>m * 2 ^ k\<close> times \<open>10 ^ (20 - e)\<close>, rounded.
\<close>

definition scaled :: "int \<Rightarrow> int \<Rightarrow> int \<Rightarrow> int" where
  "scaled m k e =
     (let num = m * 2 ^ nat k * 10 ^ nat (20 - e); den = 2 ^ nat (- k) * 10 ^ nat (e - 20)
      in round_half_even num den)"

text \<open>The largest \<open>e\<close> with \<open>10 ^ e \<le> m * 2 ^ k\<close>, found downwards from \<open>n - 400\<close>.\<close>

primrec decimal_exponent :: "int \<Rightarrow> int \<Rightarrow> nat \<Rightarrow> int" where
  "decimal_exponent m k 0 = - 400"
| "decimal_exponent m k (Suc n) =
     (let e = int n - 400
      in if 10 ^ nat e * 2 ^ nat (- k) \<le> m * 2 ^ nat k * 10 ^ nat (- e) then e else decimal_exponent m k n)"

primrec digits_of :: "nat \<Rightarrow> int \<Rightarrow> byte list" where
  "digits_of 0 n = []"
| "digits_of (Suc k) n = digits_of k (n div 10) @ [word_of_int (48 + n mod 10)]"

definition show_exponent :: "int \<Rightarrow> byte list" where
  "show_exponent e = 101 # (if e < 0 then c_minus else c_plus) # pad_left 2 (show_int \<bar>e\<bar>)"

definition show_scaled :: "int \<Rightarrow> int \<Rightarrow> byte list" where
  "show_scaled n e = digits_of 1 (n div 10 ^ 20) @ [c_dot] @ digits_of 20 (n mod 10 ^ 20) @ show_exponent e"

definition show_finite :: "int \<Rightarrow> int \<Rightarrow> byte list" where
  "show_finite m k =
     (let e = (if m = 0 then 0 else decimal_exponent m k 800); n = scaled m k e
      in if n \<ge> 10 ^ 21 then show_scaled (n div 10) (e + 1) else show_scaled n e)"

definition show_e :: "64 word \<Rightarrow> byte list" where
  "show_e d =
     (let ex = uint (drop_bit 52 d AND 0x7FF); m = uint (take_bit 52 d);
          sign = (if bit d 63 then [c_minus] else [])
      in sign @
        (if ex = 2047 then if m = 0 then [105, 110, 102] else [110, 97, 110]
         else show_finite (if ex = 0 then m else m + 2 ^ 52) (max ex 1 - 1075)))"

section \<open>Writing through \<open>*ext\<close>\<close>

type_synonym enc = "(byte list \<times> int, byte list \<times> int) res"

definition put_bytes :: "byte list \<Rightarrow> byte list \<Rightarrow> int \<Rightarrow> enc" where
  "put_bytes bs buf p = bindr (wrs buf p bs) (\<lambda>buf. Ok (buf, p + int (length bs)))"

text \<open>Where the return value is not looked at.\<close>

definition disregard :: "enc \<Rightarrow> enc" where
  "disregard r = (case r of Err s \<Rightarrow> Ok s | _ \<Rightarrow> r)"

fun encode_all :: "(ETERM \<Rightarrow> byte list \<Rightarrow> int \<Rightarrow> enc) \<Rightarrow> ETERM list \<Rightarrow> byte list \<Rightarrow> int \<Rightarrow> enc" where
  "encode_all f [] buf p = Ok (buf, p)"
| "encode_all f (e # es) buf p = bindr (f e buf p) (\<lambda>(buf, p). encode_all f es buf p)"

text \<open>The members of a fun: a NULL pointer is followed, and errors are passed over.\<close>

fun encode_ptrs :: "(ETERM \<Rightarrow> byte list \<Rightarrow> int \<Rightarrow> enc) \<Rightarrow> ETERM option list \<Rightarrow> byte list \<Rightarrow> int \<Rightarrow> enc" where
  "encode_ptrs f [] buf p = Ok (buf, p)"
| "encode_ptrs f (e # es) buf p =
     (case e of None \<Rightarrow> Fault | Some e \<Rightarrow> bindr (disregard (f e buf p)) (\<lambda>(buf, p). encode_ptrs f es buf p))"

lemma encode_all_cong [fundef_cong]:
  assumes "es = es'" "\<And>e b q. e \<in> set es' \<Longrightarrow> f e b q = g e b q" "buf = buf'" "p = p'"
  shows "encode_all f es buf p = encode_all g es' buf' p'"
  unfolding assms(1,3,4) using assms(2)
  by (induction es' arbitrary: buf' p') (auto intro!: bindr_cong)

lemma encode_ptrs_cong [fundef_cong]:
  assumes "es = es'" "\<And>e b q. Some e \<in> set es' \<Longrightarrow> f e b q = g e b q" "buf = buf'" "p = p'"
  shows "encode_ptrs f es buf p = encode_ptrs g es' buf' p'"
  unfolding assms(1,3,4) using assms(2)
  by (induction es' arbitrary: buf' p') (auto intro!: bindr_cong split: option.splits)

section \<open>The parts of a term\<close>

text \<open>An error of \<open>ei_encode_atom_len_as\<close> leaves \<open>ix\<close> at 0, and the pointer where it was.\<close>

definition encode_atom :: "Erl_Atom_data \<Rightarrow> byte list \<Rightarrow> int \<Rightarrow> enc" where
  "encode_atom a buf p =
     (case a_latin1 a of
        Some s \<Rightarrow> (case ei_encode_atom_len_as (Some buf) p s (a_lenL a) ERLANG_LATIN1 ERLANG_UTF8 of
            Fault \<Rightarrow> Fault | Err (b, _) \<Rightarrow> Ok (the b, p) | Ok (b, q) \<Rightarrow> Ok (the b, q))
      | None \<Rightarrow> (case a_utf8 a of
          None \<Rightarrow> Fault
        | Some u \<Rightarrow> (case ei_encode_atom_len_as (Some buf) p u (a_lenU a) ERLANG_UTF8 ERLANG_UTF8 of
            Fault \<Rightarrow> Fault | Err (b, _) \<Rightarrow> Ok (the b, p) | Ok (b, q) \<Rightarrow> Ok (the b, q))))"

definition encode_integer :: "32 word \<Rightarrow> byte list \<Rightarrow> int \<Rightarrow> enc" where
  "encode_integer i buf p =
     (if sint i < 256 \<and> sint i \<ge> 0
      then put_bytes [byte_of ERL_SMALL_INTEGER_EXT, ucast i] buf p
      else put_bytes (byte_of ERL_INTEGER_EXT # be32 (sint i)) buf p)"

definition encode_uinteger :: "32 word \<Rightarrow> byte list \<Rightarrow> int \<Rightarrow> enc" where
  "encode_uinteger u buf p =
     (if sint u < 0
      then put_bytes ([byte_of ERL_SMALL_BIG_EXT, 4, 0] @
             [ucast u, ucast (drop_bit 8 u), ucast (drop_bit 16 u), ucast (drop_bit 24 u)]) buf p
      else if u < 256 then put_bytes [byte_of ERL_SMALL_INTEGER_EXT, ucast u] buf p
      else put_bytes (byte_of ERL_INTEGER_EXT # be32 (uint u)) buf p)"

definition eight_bytes :: "64 word \<Rightarrow> byte list" where
  "eight_bytes l = map (\<lambda>i. ucast (drop_bit (8 * i) l)) [0, 1, 2, 3, 4, 5, 6, 7]"

text \<open>\<open>- l\<close> wraps around for the smallest number, whose bits are those of its magnitude.\<close>

definition encode_longlong :: "64 word \<Rightarrow> byte list \<Rightarrow> int \<Rightarrow> enc" where
  "encode_longlong l buf p =
     (if sint l > 2147483647 \<or> sint l < - 2147483648
      then put_bytes ([byte_of ERL_SMALL_BIG_EXT, 8] @
             (if sint l < 0 then 1 # eight_bytes (- l) else 0 # eight_bytes l)) buf p
      else if sint l < 256 \<and> sint l \<ge> 0 then put_bytes [byte_of ERL_SMALL_INTEGER_EXT, ucast l] buf p
      else put_bytes (byte_of ERL_INTEGER_EXT # be32 (sint l)) buf p)"

definition encode_ulonglong :: "64 word \<Rightarrow> byte list \<Rightarrow> int \<Rightarrow> enc" where
  "encode_ulonglong ul buf p =
     (if ul > 2147483647
      then put_bytes ([byte_of ERL_SMALL_BIG_EXT, 8, 0] @ eight_bytes ul) buf p
      else if ul < 256 then put_bytes [byte_of ERL_SMALL_INTEGER_EXT, ucast ul] buf p
      else put_bytes (byte_of ERL_INTEGER_EXT # be32 (uint ul)) buf p)"

text \<open>The creation decides the tag, which is stored last, at \<open>tagp\<close>.\<close>

definition encode_creation :: "32 word \<Rightarrow> int \<Rightarrow> int \<Rightarrow> int \<Rightarrow> byte list \<Rightarrow> int \<Rightarrow> enc" where
  "encode_creation i short long tagp buf p =
     (if i \<le> 3
      then bindr (wr buf tagp (byte_of short)) (\<lambda>buf. put_bytes [ucast i] buf p)
      else bindr (wr buf tagp (byte_of long)) (\<lambda>buf. put_bytes (be32 (uint i)) buf p))"

definition encode_pid :: "Erl_Atom_data \<Rightarrow> 32 word \<Rightarrow> 32 word \<Rightarrow> 32 word \<Rightarrow> byte list \<Rightarrow> int \<Rightarrow> enc" where
  "encode_pid node number serial creation buf tagp =
     bindr (encode_atom node buf (tagp + 1)) (\<lambda>(buf, p).
     bindr (put_bytes (be32 (uint number)) buf p) (\<lambda>(buf, p).
     bindr (put_bytes (be32 (uint serial)) buf p) (\<lambda>(buf, p).
       encode_creation creation ERL_PID_EXT ERL_NEW_PID_EXT tagp buf p)))"

definition encode_port :: "Erl_Atom_data \<Rightarrow> 32 word \<Rightarrow> 32 word \<Rightarrow> byte list \<Rightarrow> int \<Rightarrow> enc" where
  "encode_port node number creation buf tagp =
     bindr (encode_atom node buf (tagp + 1)) (\<lambda>(buf, p).
     bindr (put_bytes (be32 (uint number)) buf p) (\<lambda>(buf, p).
       encode_creation creation ERL_PORT_EXT ERL_NEW_PORT_EXT tagp buf p))"

text \<open>\<open>n\<close> is an array of three; \<open>len\<close> numbers are read.\<close>

fun encode_ref_numbers :: "32 word list \<Rightarrow> nat \<Rightarrow> nat \<Rightarrow> byte list \<Rightarrow> int \<Rightarrow> enc" where
  "encode_ref_numbers n j 0 buf p = Ok (buf, p)"
| "encode_ref_numbers n j (Suc m) buf p =
     (if j < length n
      then bindr (put_bytes (be32 (uint (n ! j))) buf p) (\<lambda>(buf, p). encode_ref_numbers n (j + 1) m buf p)
      else Fault)"

text \<open>
  The node name is asked for as Latin-1 and its length computed, for nothing: a name without a
  Latin-1 form is a NULL pointer here.
\<close>

definition encode_ref :: "Erl_Atom_data \<Rightarrow> int \<Rightarrow> 32 word list \<Rightarrow> 32 word \<Rightarrow> byte list \<Rightarrow> int \<Rightarrow> enc" where
  "encode_ref node len n creation buf tagp =
     (case erl_atom_ptr_latin1 node of
        Ok (Some s, node) \<Rightarrow>
          bindr (put_bytes (be16 len) buf (tagp + 1)) (\<lambda>(buf, p).
          bindr (encode_atom node buf p) (\<lambda>(buf, p).
          bindr (encode_creation creation ERL_NEW_REFERENCE_EXT ERL_NEWER_REFERENCE_EXT tagp buf p) (\<lambda>(buf, p).
            encode_ref_numbers n 0 (nat len) buf p)))
      | _ \<Rightarrow> Fault)"

definition tuple_header :: "int \<Rightarrow> byte list" where
  "tuple_header i =
     (if i \<le> 255 then [byte_of ERL_SMALL_TUPLE_EXT, byte_of i] else byte_of ERL_LARGE_TUPLE_EXT # be32 i)"

definition encode_float :: "64 word \<Rightarrow> byte list \<Rightarrow> int \<Rightarrow> enc" where
  "encode_float d buf p =
     bindr (put_bytes (byte_of ERL_FLOAT_EXT # replicate 31 0) buf p) (\<lambda>(buf, q).
     bindr (wrs buf (p + 1) (show_e d @ [0])) (\<lambda>buf. Ok (buf, q)))"

definition encode_binary :: "byte list \<Rightarrow> byte list \<Rightarrow> int \<Rightarrow> enc" where
  "encode_binary b buf p = put_bytes (byte_of ERL_BINARY_EXT # be32 (int (length b)) @ b) buf p"

fun low_byte :: "ETERM \<Rightarrow> byte" where
  "low_byte (Erl_Integer i) = ucast i"
| "low_byte _ = 0"

section \<open>Terms\<close>

lemma size_member: "e \<in> set es \<Longrightarrow> size e \<le> size_list size es"
  by (induction es) auto

lemma size_member_option: "Some e \<in> set es \<Longrightarrow> size e \<le> size_list (size_option size) es"
  by (induction es) auto

function erl_encode_it :: "ETERM \<Rightarrow> byte list \<Rightarrow> int \<Rightarrow> enc" where
  "erl_encode_it (Erl_Atom a) buf p = encode_atom a buf p"
| "erl_encode_it (Erl_Integer i) buf p = encode_integer i buf p"
| "erl_encode_it (Erl_Uinteger u) buf p = encode_uinteger u buf p"
| "erl_encode_it (Erl_LLInteger l) buf p = encode_longlong l buf p"
| "erl_encode_it (Erl_ULLInteger ul) buf p = encode_ulonglong ul buf p"
| "erl_encode_it (Erl_Pid node number serial creation) buf p = encode_pid node number serial creation buf p"
| "erl_encode_it (Erl_Ref node len n creation) buf p = encode_ref node len n creation buf p"
| "erl_encode_it (Erl_Port node number creation) buf p = encode_port node number creation buf p"
| "erl_encode_it Erl_EmptyList buf p = put_bytes [byte_of ERL_NIL_EXT] buf p"
| "erl_encode_it (Erl_List h t) buf p =
     (let i = is_string (Erl_List h t)
      in if 0 < i \<and> i < 0x10000
         then put_bytes (byte_of ERL_STRING_EXT # be16 i @ map low_byte (list_heads (Erl_List h t))) buf p
         else
           bindr (put_bytes (byte_of ERL_LIST_EXT # be32 (erl_length_x (Erl_List h t))) buf p) (\<lambda>(buf, p).
           bindr (encode_all (\<lambda>e b q. erl_encode_it e b q) (list_heads (Erl_List h t)) buf p) (\<lambda>(buf, p).
             erl_encode_it (list_last t) buf p)))"
| "erl_encode_it (Erl_Tuple es) buf p =
     bindr (put_bytes (tuple_header (int (length es))) buf p) (\<lambda>(buf, p).
       encode_all (\<lambda>e b q. erl_encode_it e b q) es buf p)"
| "erl_encode_it (Erl_Float d) buf p = encode_float d buf p"
| "erl_encode_it (Erl_Binary b) buf p = encode_binary b buf p"
| "erl_encode_it (Erl_Function arity md5 new_index creator module index uniq closure) buf p =
     (if arity \<noteq> - 1
      then
        bindr (wr buf p (byte_of ERL_NEW_FUN_EXT)) (\<lambda>buf.
        bindr (put_bytes (ucast arity # md5 @ be32 (uint new_index) @ be32 (int (length closure))) buf (p + 5)) (\<lambda>(buf, q).
        bindr (encode_ptrs (\<lambda>e b q. erl_encode_it e b q) [module, index, uniq, creator] buf q) (\<lambda>(buf, q).
        bindr (encode_ptrs (\<lambda>e b q. erl_encode_it e b q) closure buf q) (\<lambda>(buf, q).
        bindr (wrs buf (p + 1) (be32 (q - (p + 1)))) (\<lambda>buf. Ok (buf, q))))))
      else
        bindr (put_bytes (byte_of ERL_FUN_EXT # be32 (int (length closure))) buf p) (\<lambda>(buf, q).
        bindr (encode_ptrs (\<lambda>e b q. erl_encode_it e b q) [creator, module, index, uniq] buf q) (\<lambda>(buf, q).
          encode_ptrs (\<lambda>e b q. erl_encode_it e b q) closure buf q)))"
| "erl_encode_it (Erl_Variable s v) buf p = Err (buf, p)"
| "erl_encode_it (Erl_Big b) buf p = Err (buf, p)"
  by pat_completeness auto
termination
  by (relation "measure (\<lambda>(ep, _). size ep)")
    (auto simp: less_Suc_eq_le intro: size_list_last trans_le_add2 size_member size_member_option dest: size_list_heads)

section \<open>Whole buffers\<close>

text \<open>
  \<open>erl_encode\<close> and \<open>erl_encode_buf\<close>: the version, then the term. The value is the number of bytes, 0 for
  an error, with the buffer; \<open>erl_encode_buf\<close> also moves the pointer of the caller, here the third part.
\<close>

definition erl_encode3 :: "ETERM \<Rightarrow> byte list \<Rightarrow> int \<Rightarrow> (unit, int \<times> byte list \<times> int) res" where
  "erl_encode3 ep buf t =
     (case bindr (put_bytes [byte_of ERL_VERSION_MAGIC] buf t) (\<lambda>(buf, x). erl_encode_it ep buf x) of
        Fault \<Rightarrow> Fault
      | Err (buf, x) \<Rightarrow> Ok (0, buf, x)
      | Ok (buf, x) \<Rightarrow> Ok (x - t, buf, x))"

definition erl_encode :: "ETERM \<Rightarrow> byte list \<Rightarrow> (unit, int \<times> byte list) res" where
  "erl_encode ep t = bindr (erl_encode3 ep t 0) (\<lambda>(n, t, _). Ok (n, t))"

definition erl_encode_buf :: "ETERM \<Rightarrow> byte list \<Rightarrow> int \<Rightarrow> (unit, int \<times> byte list \<times> int) res" where
  "erl_encode_buf ep buf ext = erl_encode3 ep buf ext"

section \<open>The room for a term\<close>

definition atom_len_helper :: "Erl_Atom_data \<Rightarrow> (unit, int) res" where
  "atom_len_helper a =
     bindr (erl_atom_ptr_utf8 a) (\<lambda>(_, a). Ok (1 + 1 + (if a_lenU a > 255 then 1 else 0) + a_lenU a))"

fun len_all :: "(ETERM \<Rightarrow> (unit, int) res) \<Rightarrow> ETERM list \<Rightarrow> int \<Rightarrow> (unit, int) res" where
  "len_all f [] len = Ok len"
| "len_all f (e # es) len = bindr (f e) (\<lambda>n. len_all f es (len + n))"

text \<open>A NULL pointer has length 0.\<close>

fun len_ptrs :: "(ETERM \<Rightarrow> (unit, int) res) \<Rightarrow> ETERM option list \<Rightarrow> int \<Rightarrow> (unit, int) res" where
  "len_ptrs f [] len = Ok len"
| "len_ptrs f (e # es) len =
     (case e of None \<Rightarrow> len_ptrs f es len | Some e \<Rightarrow> bindr (f e) (\<lambda>n. len_ptrs f es (len + n)))"

lemma len_all_cong [fundef_cong]:
  assumes "es = es'" "\<And>e. e \<in> set es' \<Longrightarrow> f e = g e" "len = len'"
  shows "len_all f es len = len_all g es' len'"
  unfolding assms(1,3) using assms(2) by (induction es' arbitrary: len') (auto intro!: bindr_cong)

lemma len_ptrs_cong [fundef_cong]:
  assumes "es = es'" "\<And>e. Some e \<in> set es' \<Longrightarrow> f e = g e" "len = len'"
  shows "len_ptrs f es len = len_ptrs g es' len'"
  unfolding assms(1,3) using assms(2) by (induction es' arbitrary: len') (auto intro!: bindr_cong split: option.splits)

text \<open>
  The terms without an external form end the program: no value. In the code \<open>len\<close> is an \<open>int\<close>; here it is
  unbounded, so that terms of 2 GB and more are outside the model.
\<close>

function erl_term_len_helper :: "ETERM \<Rightarrow> (unit, int) res" where
  "erl_term_len_helper (Erl_Atom a) = atom_len_helper a"
| "erl_term_len_helper (Erl_Integer i) = Ok (if sint i < 256 \<and> sint i \<ge> 0 then 2 else 5)"
| "erl_term_len_helper (Erl_Uinteger u) = Ok (if sint u < 0 then 7 else if u < 256 then 2 else 5)"
| "erl_term_len_helper (Erl_LLInteger l) =
     Ok (if sint l > 2147483647 \<or> sint l < - 2147483648 then 11 else if sint l < 256 \<and> sint l \<ge> 0 then 2 else 5)"
| "erl_term_len_helper (Erl_ULLInteger ul) = Ok (if ul > 2147483647 then 11 else if ul < 256 then 2 else 5)"
| "erl_term_len_helper (Erl_Pid node _ _ _) = bindr (atom_len_helper node) (\<lambda>n. Ok (1 + n + 4 + 4 + 1))"
| "erl_term_len_helper (Erl_Ref node len _ _) = bindr (atom_len_helper node) (\<lambda>n. Ok (1 + 2 + n + 1 + len * 4))"
| "erl_term_len_helper (Erl_Port node _ _) = bindr (atom_len_helper node) (\<lambda>n. Ok (1 + n + 4 + 1))"
| "erl_term_len_helper Erl_EmptyList = Ok 1"
| "erl_term_len_helper (Erl_List h t) =
     (let i = is_string (Erl_List h t)
      in if i > 0 \<and> i < 0x10000 then Ok (3 + int (length (list_heads (Erl_List h t))))
         else bindr (len_all (\<lambda>e. erl_term_len_helper e) (list_heads (Erl_List h t)) 5) (\<lambda>len.
              bindr (erl_term_len_helper (list_last t)) (\<lambda>n. Ok (len + n))))"
| "erl_term_len_helper (Erl_Tuple es) =
     len_all (\<lambda>e. erl_term_len_helper e) es (if int (length es) \<le> 255 then 2 else 5)"
| "erl_term_len_helper (Erl_Float d) = Ok 32"
| "erl_term_len_helper (Erl_Binary b) = Ok (5 + int (length b))"
| "erl_term_len_helper (Erl_Function arity md5 new_index creator module index uniq closure) =
     (if arity = - 1
      then len_ptrs (\<lambda>e. erl_term_len_helper e) ([creator, module, index, uniq] @ closure) (1 + 4)
      else len_ptrs (\<lambda>e. erl_term_len_helper e) ([module, index, uniq, creator] @ closure) (1 + 4 + 16 + 4 + 4))"
| "erl_term_len_helper (Erl_Variable s v) = Fault"
| "erl_term_len_helper (Erl_Big b) = Fault"
  by pat_completeness auto
termination
  by (relation "measure size")
    (auto simp: less_Suc_eq_le intro: size_list_last trans_le_add2 size_member size_member_option dest: size_list_heads)

definition erl_term_len :: "ETERM \<Rightarrow> (unit, int) res" where
  "erl_term_len ep = bindr (erl_term_len_helper ep) (\<lambda>n. Ok (1 + n))"

end
