(* ===== verification/Erl_Term.thy ===== *)
theory Erl_Term
  imports Erl_Marshal
begin

text \<open>
  Building, taking apart, copying and printing terms of the older interface: \<^verbatim>\<open>erl_eterm.c\<close>. A NULL
  argument is \<open>None\<close>, a NULL result is \<open>Err ()\<close>. Memory is always granted.
\<close>

section \<open>Building\<close>

definition strsave :: "byte list \<Rightarrow> byte list" where
  "strsave src = take (strlen src) src @ [0]"

definition erl_mk_int :: "32 word \<Rightarrow> ETERM" where "erl_mk_int i = Erl_Integer i"
definition erl_mk_uint :: "32 word \<Rightarrow> ETERM" where "erl_mk_uint u = Erl_Uinteger u"
definition erl_mk_longlong :: "64 word \<Rightarrow> ETERM" where "erl_mk_longlong i = Erl_LLInteger i"
definition erl_mk_ulonglong :: "64 word \<Rightarrow> ETERM" where "erl_mk_ulonglong i = Erl_ULLInteger i"

text \<open>Infinities and NaN are refused (\<open>HAVE_ISFINITE\<close>).\<close>

definition erl_mk_float :: "64 word \<Rightarrow> (unit, ETERM) res" where
  "erl_mk_float d = (if drop_bit 52 d AND 0x7FF = 0x7FF then Err () else Ok (Erl_Float d))"

definition erl_mk_atom :: "byte list option \<Rightarrow> (unit, ETERM) res" where
  "erl_mk_atom s = (case s of None \<Rightarrow> Err () | Some s \<Rightarrow> Ok (Erl_Atom (erl_atom_init_latin1 s)))"

definition erl_mk_estring :: "byte list option \<Rightarrow> int \<Rightarrow> (unit, ETERM) res" where
  "erl_mk_estring s len =
     (case s of
        None \<Rightarrow> Err ()
      | Some s \<Rightarrow>
          if len < 0 then Err ()
          else bindr (rds s 0 (nat len)) (\<lambda>bs. Ok (foldr (\<lambda>b t. Erl_List (Erl_Integer (ucast b)) t) bs Erl_EmptyList)))"

definition erl_mk_string :: "byte list option \<Rightarrow> (unit, ETERM) res" where
  "erl_mk_string s = (case s of None \<Rightarrow> Err () | Some c \<Rightarrow> erl_mk_estring s (int (strlen c)))"

text \<open>
  The helper functions also serve the decoder. Their masks are those of the default, without
  compatibility with release 9. The \<open>creation\<close> of the constructors is an \<open>unsigned char\<close>.
\<close>

definition erl_mk_pid_helper :: "Erl_Atom_data \<Rightarrow> 32 word \<Rightarrow> 32 word \<Rightarrow> 32 word \<Rightarrow> ETERM" where
  "erl_mk_pid_helper node number serial creation = Erl_Pid node (number AND 0x7fff) (serial AND 0x1fff) creation"

definition erl_mk_port_helper :: "Erl_Atom_data \<Rightarrow> 32 word \<Rightarrow> 32 word \<Rightarrow> ETERM" where
  "erl_mk_port_helper node number creation = Erl_Port node (number AND 0x0fffffff) creation"

definition erl_mk_reference :: "Erl_Atom_data \<Rightarrow> int \<Rightarrow> 32 word list \<Rightarrow> 32 word \<Rightarrow> ETERM" where
  "erl_mk_reference node len n creation = Erl_Ref node len [n ! 0 AND 0x3ffff, n ! 1, n ! 2] creation"

definition erl_mk_pid :: "byte list option \<Rightarrow> 32 word \<Rightarrow> 32 word \<Rightarrow> byte \<Rightarrow> (unit, ETERM) res" where
  "erl_mk_pid node number serial creation =
     (case node of None \<Rightarrow> Err ()
      | Some s \<Rightarrow> Ok (erl_mk_pid_helper (erl_atom_init_latin1 s) number serial (ucast creation AND 0x03)))"

definition erl_mk_port :: "byte list option \<Rightarrow> 32 word \<Rightarrow> byte \<Rightarrow> (unit, ETERM) res" where
  "erl_mk_port node number creation =
     (case node of None \<Rightarrow> Err () | Some s \<Rightarrow> Ok (erl_mk_port_helper (erl_atom_init_latin1 s) number (ucast creation)))"

definition erl_mk_ref :: "byte list option \<Rightarrow> 32 word \<Rightarrow> byte \<Rightarrow> (unit, ETERM) res" where
  "erl_mk_ref node number creation =
     (case node of None \<Rightarrow> Err ()
      | Some s \<Rightarrow> Ok (erl_mk_reference (erl_atom_init_latin1 s) 1 [number, 0, 0] (ucast creation)))"

definition erl_mk_long_ref :: "byte list option \<Rightarrow> 32 word \<Rightarrow> 32 word \<Rightarrow> 32 word \<Rightarrow> byte \<Rightarrow> (unit, ETERM) res" where
  "erl_mk_long_ref node n1 n2 n3 creation =
     (case node of None \<Rightarrow> Err ()
      | Some s \<Rightarrow> Ok (erl_mk_reference (erl_atom_init_latin1 s) 3 [n3, n2, n1] (ucast creation)))"

definition erl_mk_binary :: "byte list option \<Rightarrow> int \<Rightarrow> (unit, ETERM) res" where
  "erl_mk_binary b sz =
     (case b of None \<Rightarrow> Err ()
      | Some b \<Rightarrow> if sz < 0 then Err () else bindr (rds b 0 (nat sz)) (\<lambda>bs. Ok (Erl_Binary bs)))"

text \<open>The first \<open>n\<close> pointers of an array; it is an error when one of them is NULL.\<close>

fun members :: "ETERM option list \<Rightarrow> nat \<Rightarrow> (unit, ETERM list) res" where
  "members arr 0 = Ok []"
| "members [] (Suc n) = Fault"
| "members (None # arr) (Suc n) = Err ()"
| "members (Some e # arr) (Suc n) = bindr (members arr n) (\<lambda>es. Ok (e # es))"

definition erl_mk_tuple :: "ETERM option list option \<Rightarrow> int \<Rightarrow> (unit, ETERM) res" where
  "erl_mk_tuple arr sz =
     (case arr of None \<Rightarrow> Err ()
      | Some arr \<Rightarrow> if sz < 0 then Err () else bindr (members arr (nat sz)) (\<lambda>es. Ok (Erl_Tuple es)))"

definition erl_mk_empty_list :: ETERM where "erl_mk_empty_list = Erl_EmptyList"

definition erl_cons :: "ETERM option \<Rightarrow> ETERM option \<Rightarrow> (unit, ETERM) res" where
  "erl_cons h t = (case (h, t) of (Some h, Some t) \<Rightarrow> Ok (Erl_List h t) | _ \<Rightarrow> Err ())"

definition erl_mk_list :: "ETERM option list option \<Rightarrow> int \<Rightarrow> (unit, ETERM) res" where
  "erl_mk_list arr sz =
     (case arr of None \<Rightarrow> Err ()
      | Some arr \<Rightarrow> if sz < 0 then Err () else bindr (members arr (nat sz)) (\<lambda>es. Ok (foldr Erl_List es erl_mk_empty_list)))"

definition erl_mk_var :: "byte list option \<Rightarrow> (unit, ETERM) res" where
  "erl_mk_var s = (case s of None \<Rightarrow> Err () | Some s \<Rightarrow> Ok (Erl_Variable (strsave s) None))"

section \<open>Taking apart\<close>

text \<open>Elements are numbered from 1; number 0 is not refused.\<close>

definition erl_element :: "int \<Rightarrow> ETERM option \<Rightarrow> (unit, ETERM) res" where
  "erl_element ix ep =
     (if ep = None \<or> ix < 0 then Err ()
      else case the ep of
          Erl_Tuple es \<Rightarrow> if ix \<le> int (length es) then if ix = 0 then Fault else Ok (es ! nat (ix - 1)) else Err ()
        | _ \<Rightarrow> Err ())"

definition erl_hd :: "ETERM option \<Rightarrow> (unit, ETERM) res" where
  "erl_hd ep = (case ep of Some (Erl_List h t) \<Rightarrow> Ok h | _ \<Rightarrow> Err ())"

definition erl_tl :: "ETERM option \<Rightarrow> (unit, ETERM) res" where
  "erl_tl ep = (case ep of Some (Erl_List h t) \<Rightarrow> Ok t | _ \<Rightarrow> Err ())"

definition erl_size :: "ETERM option \<Rightarrow> int" where
  "erl_size ep =
     (case ep of Some (Erl_Tuple es) \<Rightarrow> int (length es) | Some (Erl_Binary b) \<Rightarrow> int (length b) | _ \<Rightarrow> - 1)"

definition erl_length :: "ETERM option \<Rightarrow> int" where
  "erl_length ep =
     (case ep of None \<Rightarrow> - 1
      | Some t \<Rightarrow> if list_last t = Erl_EmptyList then int (length (list_heads t)) else - 1)"

text \<open>
  The value of a variable by its name. In a list the loop goes on until the empty list, so a tail
  that is no cell is taken for one.
\<close>

fun first_content :: "(ETERM \<Rightarrow> (unit, ETERM option) res) \<Rightarrow> ETERM list \<Rightarrow> (unit, ETERM option) res" where
  "first_content f [] = Ok None"
| "first_content f (e # es) =
     bindr (f e) (\<lambda>v. case v of Some v \<Rightarrow> Ok (Some v) | None \<Rightarrow> first_content f es)"

lemma first_content_cong [fundef_cong]:
  assumes "es = es'" "\<And>e. e \<in> set es' \<Longrightarrow> f e = g e"
  shows "first_content f es = first_content g es'"
  unfolding assms(1) using assms(2) by (induction es') (auto intro!: bindr_cong split: option.split)

function var_content :: "byte list \<Rightarrow> ETERM \<Rightarrow> (unit, ETERM option) res" where
  "var_content name (Erl_Variable s v) =
     Ok (if take (strlen s) s = take (strlen name) name then v else None)"
| "var_content name (Erl_List h t) =
     bindr (var_content name h) (\<lambda>v. case v of
         Some v \<Rightarrow> Ok (Some v)
       | None \<Rightarrow> (case t of Erl_EmptyList \<Rightarrow> Ok None | Erl_List _ _ \<Rightarrow> var_content name t | _ \<Rightarrow> Fault))"
| "var_content name (Erl_Tuple es) = first_content (\<lambda>e. var_content name e) es"
| "var_content name (Erl_Integer i) = Ok None"
| "var_content name (Erl_Uinteger u) = Ok None"
| "var_content name (Erl_LLInteger l) = Ok None"
| "var_content name (Erl_ULLInteger l) = Ok None"
| "var_content name (Erl_Float d) = Ok None"
| "var_content name (Erl_Atom a) = Ok None"
| "var_content name (Erl_Pid a n s c) = Ok None"
| "var_content name (Erl_Port a n c) = Ok None"
| "var_content name (Erl_Ref a l n c) = Ok None"
| "var_content name Erl_EmptyList = Ok None"
| "var_content name (Erl_Binary b) = Ok None"
| "var_content name (Erl_Big b) = Ok None"
| "var_content name (Erl_Function x1 x2 x3 x4 x5 x6 x7 x8) = Ok None"
  by pat_completeness auto
termination
  by (relation "measure (\<lambda>(_, t). size t)") (auto simp: less_Suc_eq_le size_member)

definition erl_var_content :: "ETERM option \<Rightarrow> byte list option \<Rightarrow> (unit, ETERM) res" where
  "erl_var_content ep name =
     (if ep = None \<or> name = None then Err ()
      else bindr (var_content (the name) (the ep)) (\<lambda>v. case v of None \<Rightarrow> Err () | Some v \<Rightarrow> Ok v))"

section \<open>I/O lists\<close>

definition ERL_IS_BYTE :: "ETERM \<Rightarrow> bool" where
  "ERL_IS_BYTE x = (case x of Erl_Integer i \<Rightarrow> i AND NOT 0xFF = 0 | _ \<Rightarrow> False)"

text \<open>
  In the code \<open>len\<close> is an \<open>int\<close>; here it is unbounded, so that I/O lists of 2 GB and more are outside the
  model. They are possible in less memory than that when a list or binary is shared.
\<close>

fun iolist_length :: "ETERM \<Rightarrow> int \<Rightarrow> int" where
  "iolist_length (Erl_List obj t) len =
     (if ERL_IS_BYTE obj then iolist_length t (len + 1)
      else case obj of
          Erl_List _ _ \<Rightarrow> (let i = iolist_length obj 0 in if i < 0 then i else iolist_length t (len + i))
        | Erl_Binary b \<Rightarrow> iolist_length t (len + int (length b))
        | Erl_EmptyList \<Rightarrow> iolist_length t len
        | _ \<Rightarrow> - 1)"
| "iolist_length Erl_EmptyList len = len"
| "iolist_length (Erl_Binary b) len = len + int (length b)"
| "iolist_length _ len = - 1"

definition erl_iolist_length :: "ETERM \<Rightarrow> int" where
  "erl_iolist_length t = iolist_length t 0"

text \<open>
  \<open>dest\<close> is the place for the next byte; \<open>*bufp\<close>, here \<open>bufp\<close>, is only set to it at the end, not when
  the function gives up.
\<close>

fun iolist_to_buf :: "ETERM \<Rightarrow> int \<Rightarrow> byte list \<Rightarrow> int \<Rightarrow> (unit, byte list \<times> int) res" where
  "iolist_to_buf (Erl_List obj t) bufp buf dest =
     (if ERL_IS_BYTE obj then bindr (wr buf dest (low_byte obj)) (\<lambda>buf. iolist_to_buf t bufp buf (dest + 1))
      else case obj of
          Erl_List _ _ \<Rightarrow> bindr (iolist_to_buf obj dest buf dest) (\<lambda>(buf, dest). iolist_to_buf t bufp buf dest)
        | Erl_Binary b \<Rightarrow> bindr (wrs buf dest b) (\<lambda>buf. iolist_to_buf t bufp buf (dest + int (length b)))
        | Erl_EmptyList \<Rightarrow> iolist_to_buf t bufp buf dest
        | _ \<Rightarrow> Ok (buf, bufp))"
| "iolist_to_buf Erl_EmptyList bufp buf dest = Ok (buf, dest)"
| "iolist_to_buf (Erl_Binary b) bufp buf dest = bindr (wrs buf dest b) (\<lambda>buf. Ok (buf, dest + int (length b)))"
| "iolist_to_buf _ bufp buf dest = Ok (buf, bufp)"

definition erl_iolist_to_binary :: "ETERM option \<Rightarrow> (unit, ETERM) res" where
  "erl_iolist_to_binary term =
     (case term of None \<Rightarrow> Err ()
      | Some t \<Rightarrow>
          let sz = erl_iolist_length t
          in if sz = - 1 then Err ()
             else if sz < 0 then Fault
             else bindr (iolist_to_buf t 0 (replicate (nat sz) 0) 0) (\<lambda>(buf, p).
                  if p \<noteq> sz then Err () else Ok (Erl_Binary buf)))"

text \<open>The string with its NUL.\<close>

definition erl_iolist_to_string :: "ETERM option \<Rightarrow> (unit, byte list) res" where
  "erl_iolist_to_string term =
     bindr (erl_iolist_to_binary term) (\<lambda>bin. case bin of
         Erl_Binary b \<Rightarrow> if 0 \<in> set b then Err () else Ok (b @ [0])
       | _ \<Rightarrow> Fault)"

section \<open>Copying\<close>

text \<open>
  The two names of an atom are the same array exactly when they are equal: where they are not shared
  they differ, because only ASCII names are the same in both encodings. The second component is the
  return value.
\<close>

definition erl_atom_copy :: "Erl_Atom_data \<Rightarrow> (unit, Erl_Atom_data \<times> bool) res" where
  "erl_atom_copy src =
     (if a_latin1 src = a_utf8 src
      then (case a_latin1 src of None \<Rightarrow> Fault
            | Some s \<Rightarrow> Ok (\<lparr>a_utf8 = Some (strsave s), a_lenU = int (strlen s),
                             a_latin1 = Some (strsave s), a_lenL = int (strlen s)\<rparr>, True))
      else case a_latin1 src of
          Some s \<Rightarrow> Ok (\<lparr>a_utf8 = None, a_lenU = 0, a_latin1 = Some (strsave s), a_lenL = int (strlen s)\<rparr>, True)
        | None \<Rightarrow> (case a_utf8 src of None \<Rightarrow> Fault
            | Some u \<Rightarrow> Ok (\<lparr>a_utf8 = Some (strsave u), a_lenU = int (strlen u), a_latin1 = None, a_lenL = 0\<rparr>, False)))"

text \<open>
  The elements of a list or tuple are all copied. When a copy is NULL, the new term has a NULL pointer
  inside; there is no value for such a term, it is \<open>Err\<close>, too.
\<close>

fun copy_all :: "(ETERM \<Rightarrow> (unit, ETERM) res) \<Rightarrow> ETERM list \<Rightarrow> (unit, ETERM list) res" where
  "copy_all f [] = Ok []"
| "copy_all f (e # es) =
     (case f e of
        Fault \<Rightarrow> Fault
      | Err _ \<Rightarrow> bindr (copy_all f es) (\<lambda>_. Err ())
      | Ok e \<Rightarrow> bindr (copy_all f es) (\<lambda>es. Ok (e # es)))"

fun copy_ptrs :: "(ETERM \<Rightarrow> (unit, ETERM) res) \<Rightarrow> ETERM option list \<Rightarrow> (unit, ETERM option list) res" where
  "copy_ptrs f [] = Ok []"
| "copy_ptrs f (p # ps) =
     bindr (case p of None \<Rightarrow> Ok None
            | Some e \<Rightarrow> (case f e of Fault \<Rightarrow> Fault | Err _ \<Rightarrow> Ok None | Ok e \<Rightarrow> Ok (Some e))) (\<lambda>p.
     bindr (copy_ptrs f ps) (\<lambda>ps. Ok (p # ps)))"

lemma copy_all_cong [fundef_cong]:
  assumes "es = es'" "\<And>e. e \<in> set es' \<Longrightarrow> f e = g e"
  shows "copy_all f es = copy_all g es'"
  unfolding assms(1) using assms(2) by (induction es') (auto split: res.split)

lemma copy_ptrs_cong [fundef_cong]:
  assumes "ps = ps'" "\<And>e. Some e \<in> set ps' \<Longrightarrow> f e = g e"
  shows "copy_ptrs f ps = copy_ptrs g ps'"
  unfolding assms(1) using assms(2)
  by (induction ps') (auto intro!: bindr_cong split: option.split)

function copy_term :: "ETERM \<Rightarrow> (unit, ETERM) res" where
  "copy_term (Erl_Integer i) = Ok (Erl_Integer i)"
| "copy_term (Erl_Uinteger u) = Ok (Erl_Uinteger u)"
| "copy_term (Erl_LLInteger l) = Ok (Erl_LLInteger l)"
| "copy_term (Erl_ULLInteger l) = Ok (Erl_ULLInteger l)"
| "copy_term (Erl_Float d) = Ok (Erl_Float d)"
| "copy_term (Erl_Atom a) = bindr (erl_atom_copy a) (\<lambda>(a, ok). if ok then Ok (Erl_Atom a) else Err ())"
| "copy_term (Erl_Pid node number serial c) = bindr (erl_atom_copy node) (\<lambda>(node, _). Ok (Erl_Pid node number serial c))"
| "copy_term (Erl_Port node number c) = bindr (erl_atom_copy node) (\<lambda>(node, _). Ok (Erl_Port node number c))"
| "copy_term (Erl_Ref node len n c) = bindr (erl_atom_copy node) (\<lambda>(node, _). Ok (Erl_Ref node len n c))"
| "copy_term (Erl_List h t) = bindr (copy_all (\<lambda>e. copy_term e) [h, t]) (\<lambda>es. Ok (Erl_List (es ! 0) (es ! 1)))"
| "copy_term Erl_EmptyList = Ok Erl_EmptyList"
| "copy_term (Erl_Tuple es) = bindr (copy_all (\<lambda>e. copy_term e) es) (\<lambda>es. Ok (Erl_Tuple es))"
| "copy_term (Erl_Binary b) = Ok (Erl_Binary b)"
| "copy_term (Erl_Function arity md5 new_index creator module index uniq closure) =
     bindr (copy_ptrs (\<lambda>e. copy_term e) [index, uniq, creator, module]) (\<lambda>ms.
     bindr (copy_ptrs (\<lambda>e. copy_term e) closure) (\<lambda>closure.
       Ok (Erl_Function arity md5 new_index (ms ! 2) (ms ! 3) (ms ! 0) (ms ! 1) closure)))"
| "copy_term (Erl_Variable s v) = Err ()"
| "copy_term (Erl_Big b) = Err ()"
  by pat_completeness auto
termination
  by (relation "measure size") (auto simp: less_Suc_eq_le size_member intro: trans_le_add2 size_member_option)

definition erl_copy_term :: "ETERM option \<Rightarrow> (unit, ETERM) res" where
  "erl_copy_term ep = (case ep of None \<Rightarrow> Err () | Some t \<Rightarrow> copy_term t)"

end
