(* ===== verification/Erl_Unmarshal.thy ===== *)
theory Erl_Unmarshal
  imports Erl_Term
begin

text \<open>
  Reading terms of the older interface: \<open>erl_decode_it\<close> and its callers of \<^verbatim>\<open>erl_marshal.c\<close>. A NULL result
  is \<open>Err\<close> with the place where reading stopped, because the members of a fun are read without a look
  at the result. The recursion depth is fuel. The function does not know the size of its buffer;
  reading behind it is a fault. A negative size for \<open>erl_malloc\<close> is a fault, too.
\<close>

type_synonym 'a udec = "(int, 'a \<times> int) res"

section \<open>Atoms\<close>

text \<open>The name is read into an array of \<open>MAXATOMLEN_UTF8\<close> and copied up to its first NUL.\<close>

definition read_atom :: "byte list \<Rightarrow> int \<Rightarrow> Erl_Atom_data udec" where
  "read_atom buf ext =
     bindr (lift_err ext (ei_decode_atom_as buf ext (Some (replicate 1021 0)) MAXATOMLEN_UTF8 (ERLANG_LATIN1 OR ERLANG_UTF8)))
       (\<lambda>((b, _, enc), s).
          let i = strlen (the b); clone = take i (the b) @ [0]
          in Ok (\<lparr>a_utf8 = (if enc AND (ERLANG_UTF8 OR ERLANG_ASCII) \<noteq> 0 then Some clone else None),
                  a_lenU = (if enc AND (ERLANG_UTF8 OR ERLANG_ASCII) \<noteq> 0 then int i else 0),
                  a_latin1 = (if enc AND (ERLANG_LATIN1 OR ERLANG_ASCII) \<noteq> 0 then Some clone else None),
                  a_lenL = (if enc AND (ERLANG_LATIN1 OR ERLANG_ASCII) \<noteq> 0 then int i else 0)\<rparr>, s))"

section \<open>Numbers\<close>

text \<open>\<open>|= (unsigned long long)(*ext)[x] << 8*x\<close> over the octets.\<close>

fun or_octets :: "byte list \<Rightarrow> nat \<Rightarrow> 'a::len word" where
  "or_octets [] x = 0"
| "or_octets (b # bs) x = push_bit (8 * x) (ucast b) OR or_octets bs (x + 1)"

definition big_truncate :: "byte \<Rightarrow> int \<Rightarrow> int \<Rightarrow> ETERM udec" where
  "big_truncate sg arity ext = Ok (Erl_Integer (if sg \<noteq> 0 then - 1 else 1), ext + arity)"

definition decode_signed :: "byte list \<Rightarrow> byte \<Rightarrow> int \<Rightarrow> int \<Rightarrow> ETERM udec" where
  "decode_signed buf sg arity ext =
     bindr (rds buf ext (nat arity)) (\<lambda>bs.
       let l = or_octets bs 0 :: 64 word
       in if sg \<noteq> 0 \<and> l \<noteq> 0x8000000000000000
          then if sint (- l) > 0 then big_truncate sg arity ext else Ok (Erl_LLInteger (- l), ext + arity)
          else Ok (Erl_LLInteger l, ext + arity))"

definition decode_big :: "byte list \<Rightarrow> int \<Rightarrow> int \<Rightarrow> ETERM udec" where
  "decode_big buf arity ext =
     bindr (rd buf ext) (\<lambda>sg.
     let ext = ext + 1
     in if arity > 8 then big_truncate sg arity ext
        else if arity = 4
        then bindr (rds buf ext 4) (\<lambda>bs.
               if bs ! 3 AND 0x80 \<noteq> 0 \<and> sg = 0 then Ok (Erl_Uinteger (or_octets bs 0), ext + arity)
               else if bs ! 3 AND 0x80 = 0
               then Ok (Erl_Integer (if sg \<noteq> 0 then - or_octets bs 0 else or_octets bs 0), ext + arity)
               else decode_signed buf sg arity ext)
        else if arity = 8
        then bindr (rds buf ext 8) (\<lambda>bs.
               if bs ! 7 AND 0x80 \<noteq> 0 \<and> sg = 0 then Ok (Erl_ULLInteger (or_octets bs 0), ext + arity)
               else decode_signed buf sg arity ext)
        else decode_signed buf sg arity ext)"

section \<open>Identifiers\<close>

definition read_word :: "byte list \<Rightarrow> int \<Rightarrow> 32 word udec" where
  "read_word buf ext = bindr (get32be buf ext) (\<lambda>(n, ext). Ok (word_of_int n, ext))"

definition read_creation :: "byte list \<Rightarrow> bool \<Rightarrow> int \<Rightarrow> 32 word udec" where
  "read_creation buf short ext =
     (if short then bindr (get8 buf ext) (\<lambda>(n, ext). Ok (word_of_int n, ext)) else read_word buf ext)"

definition decode_pid :: "byte list \<Rightarrow> bool \<Rightarrow> int \<Rightarrow> ETERM udec" where
  "decode_pid buf short ext =
     bindr (read_atom buf ext) (\<lambda>(node, ext).
     bindr (read_word buf ext) (\<lambda>(number, ext).
     bindr (read_word buf ext) (\<lambda>(serial, ext).
     bindr (read_creation buf short ext) (\<lambda>(creation, ext).
       Ok (erl_mk_pid_helper node number serial creation, ext)))))"

definition decode_port :: "byte list \<Rightarrow> bool \<Rightarrow> int \<Rightarrow> ETERM udec" where
  "decode_port buf short ext =
     bindr (read_atom buf ext) (\<lambda>(node, ext).
     bindr (read_word buf ext) (\<lambda>(number, ext).
     bindr (read_creation buf short ext) (\<lambda>(creation, ext).
       Ok (erl_mk_port_helper node number creation, ext))))"

definition decode_old_ref :: "byte list \<Rightarrow> int \<Rightarrow> ETERM udec" where
  "decode_old_ref buf ext =
     bindr (read_atom buf ext) (\<lambda>(node, ext).
     bindr (read_word buf ext) (\<lambda>(n0, ext).
     bindr (read_creation buf True ext) (\<lambda>(creation, ext).
       Ok (erl_mk_reference node 1 [n0, 0, 0] creation, ext))))"

text \<open>
  \<open>n\<close> has three elements, also when \<open>cnt\<close> says that there are more. What it holds behind the first
  \<open>cnt\<close> is not determined; here it is 0.
\<close>

fun read_ref_numbers :: "byte list \<Rightarrow> nat \<Rightarrow> nat \<Rightarrow> 32 word list \<Rightarrow> int \<Rightarrow> (32 word list) udec" where
  "read_ref_numbers buf i 0 n ext = Ok (n, ext)"
| "read_ref_numbers buf i (Suc k) n ext =
     bindr (read_word buf ext) (\<lambda>(w, ext).
       if i < length n then read_ref_numbers buf (i + 1) k (n[i := w]) ext else Fault)"

definition decode_ref :: "byte list \<Rightarrow> bool \<Rightarrow> int \<Rightarrow> ETERM udec" where
  "decode_ref buf short ext =
     bindr (get16be buf ext) (\<lambda>(cnt, ext).
     bindr (read_atom buf ext) (\<lambda>(node, ext).
     bindr (read_creation buf short ext) (\<lambda>(creation, ext).
     bindr (read_ref_numbers buf 0 (nat cnt) [0, 0, 0] ext) (\<lambda>(n, ext).
       Ok (erl_mk_reference node cnt n creation, ext)))))"

section \<open>Flat data\<close>

definition decode_string :: "byte list \<Rightarrow> int \<Rightarrow> ETERM udec" where
  "decode_string buf ext =
     bindr (get16be buf ext) (\<lambda>(i, ext).
     bindr (rds buf ext (nat i)) (\<lambda>s.
       Ok (foldr (\<lambda>b t. Erl_List (Erl_Integer (ucast b)) t) s Erl_EmptyList, ext + i)))"

definition decode_binary :: "byte list \<Rightarrow> int \<Rightarrow> ETERM udec" where
  "decode_binary buf ext =
     bindr (get32be buf ext) (\<lambda>(i, ext).
       if i < 0 then Fault
       else bindr (rds buf ext (nat i)) (\<lambda>b. Ok (Erl_Binary b, ext + i)))"

text \<open>\<open>ei_decode_double\<close> is given the index -1, which is the tag.\<close>

definition decode_float :: "(byte list \<Rightarrow> int \<Rightarrow> 64 word option) \<Rightarrow> byte list \<Rightarrow> int \<Rightarrow> ETERM udec" where
  "decode_float scan buf ext =
     bindr (lift_err ext (ei_decode_double scan buf (ext - 1))) (\<lambda>(ff, ext). Ok (Erl_Float ff, ext))"

section \<open>Terms\<close>

type_synonym decoder = "int \<Rightarrow> ETERM udec option"

primrec decode_elems :: "decoder \<Rightarrow> nat \<Rightarrow> int \<Rightarrow> (ETERM list) udec option" where
  "decode_elems f 0 ext = Some (Ok ([], ext))"
| "decode_elems f (Suc n) ext =
     bindf (f ext) (\<lambda>(e, ext). bindf (decode_elems f n ext) (\<lambda>(es, ext). Some (Ok (e # es, ext))))"

text \<open>The members of a fun, NULL where reading failed.\<close>

primrec decode_ptrs :: "decoder \<Rightarrow> nat \<Rightarrow> int \<Rightarrow> (ETERM option list) udec option" where
  "decode_ptrs f 0 ext = Some (Ok ([], ext))"
| "decode_ptrs f (Suc n) ext =
     (let r = map_option (\<lambda>r. case r of Fault \<Rightarrow> Fault | Err e \<Rightarrow> Ok (None, e) | Ok (e, i) \<Rightarrow> Ok (Some e, i)) (f ext)
      in bindf r (\<lambda>(e, ext). bindf (decode_ptrs f n ext) (\<lambda>(es, ext). Some (Ok (e # es, ext)))))"

text \<open>Without an element the head of the first cell is never set.\<close>

definition decode_list :: "decoder \<Rightarrow> byte list \<Rightarrow> decoder" where
  "decode_list f buf ext =
     bindf (Some (get32be buf ext)) (\<lambda>(i, ext).
       if i \<le> 0 then Some Fault
       else bindf (decode_elems f (nat i) ext) (\<lambda>(es, ext).
            bindf (f ext) (\<lambda>(t, ext). Some (Ok (foldr Erl_List es t, ext)))))"

text \<open>
  The array has \<open>j\<close> bytes, a size that is cut to an \<open>int\<close>: the first element that is behind it is decoded
  and then stored outside. A negative size cannot be had and ends the program: no value.
\<close>

definition decode_tuple :: "decoder \<Rightarrow> int \<Rightarrow> decoder" where
  "decode_tuple f i ext =
     (if i < 0 \<or> i + 1 > INT_MAX then Some Fault
      else let j = sint (word_of_int ((i + 1) * 8) :: 32 word)
           in if j < 0 then Some Fault
              else if i \<le> j div 8
              then bindf (decode_elems f (nat i) ext) (\<lambda>(es, ext). Some (Ok (Erl_Tuple es, ext)))
              else bindf (decode_elems f (nat (j div 8 + 1)) ext) (\<lambda>_. Some Fault))"

definition decode_fun_ext :: "decoder \<Rightarrow> byte list \<Rightarrow> decoder" where
  "decode_fun_ext f buf ext =
     bindf (Some (get32be buf ext)) (\<lambda>(i, ext).
     bindf (decode_ptrs f 4 ext) (\<lambda>(ms, ext).
       if i < 0 then Some Fault
       else bindf (decode_ptrs f (nat i) ext) (\<lambda>(closure, ext).
            Some (Ok (Erl_Function (- 1) (replicate 16 0) 0 (ms ! 0) (ms ! 1) (ms ! 2) (ms ! 3) closure, ext)))))"

definition decode_new_fun_ext :: "decoder \<Rightarrow> byte list \<Rightarrow> decoder" where
  "decode_new_fun_ext f buf ext =
     bindf (Some (get32be buf ext)) (\<lambda>(_, ext).
     bindf (Some (get8 buf ext)) (\<lambda>(arity, ext).
     bindf (Some (rds buf ext 16)) (\<lambda>md5.
     bindf (Some (read_word buf (ext + 16))) (\<lambda>(new_index, ext).
     bindf (Some (get32be buf ext)) (\<lambda>(i, ext).
     bindf (decode_ptrs f 4 ext) (\<lambda>(ms, ext).
       if i < 0 then Some Fault
       else bindf (decode_ptrs f (nat i) ext) (\<lambda>(closure, ext).
            Some (Ok (Erl_Function (word_of_int arity) md5 new_index (ms ! 3) (ms ! 0) (ms ! 1) (ms ! 2) closure, ext)))))))))"

definition decode_step :: "(byte list \<Rightarrow> int \<Rightarrow> 64 word option) \<Rightarrow> byte list \<Rightarrow> decoder \<Rightarrow> decoder" where
  "decode_step scan buf f ext =
     bindf (Some (get8 buf ext)) (\<lambda>(tag, ext).
       if tag = ERL_INTEGER_EXT then bindf (Some (read_word buf ext)) (\<lambda>(i, ext). Some (Ok (Erl_Integer i, ext)))
       else if tag = ERL_SMALL_INTEGER_EXT
       then bindf (Some (get8 buf ext)) (\<lambda>(i, ext). Some (Ok (Erl_Integer (word_of_int i), ext)))
       else if tag = ERL_SMALL_BIG_EXT then bindf (Some (get8 buf ext)) (\<lambda>(arity, ext). Some (decode_big buf arity ext))
       else if tag = ERL_LARGE_BIG_EXT then bindf (Some (get32be buf ext)) (\<lambda>(arity, ext). Some (decode_big buf arity ext))
       else if tag = ERL_ATOM_EXT \<or> tag = ERL_SMALL_ATOM_EXT \<or> tag = ERL_ATOM_UTF8_EXT \<or> tag = ERL_SMALL_ATOM_UTF8_EXT
       then bindf (Some (read_atom buf (ext - 1))) (\<lambda>(a, ext). Some (Ok (Erl_Atom a, ext)))
       else if tag = ERL_PID_EXT \<or> tag = ERL_NEW_PID_EXT then Some (decode_pid buf (tag = ERL_PID_EXT) ext)
       else if tag = ERL_REFERENCE_EXT then Some (decode_old_ref buf ext)
       else if tag = ERL_NEW_REFERENCE_EXT \<or> tag = ERL_NEWER_REFERENCE_EXT
       then Some (decode_ref buf (tag = ERL_NEW_REFERENCE_EXT) ext)
       else if tag = ERL_PORT_EXT \<or> tag = ERL_NEW_PORT_EXT then Some (decode_port buf (tag = ERL_PORT_EXT) ext)
       else if tag = ERL_NIL_EXT then Some (Ok (Erl_EmptyList, ext))
       else if tag = ERL_LIST_EXT then decode_list f buf ext
       else if tag = ERL_STRING_EXT then Some (decode_string buf ext)
       else if tag = ERL_SMALL_TUPLE_EXT then bindf (Some (get8 buf ext)) (\<lambda>(i, ext). decode_tuple f i ext)
       else if tag = ERL_LARGE_TUPLE_EXT then bindf (Some (get32be buf ext)) (\<lambda>(i, ext). decode_tuple f i ext)
       else if tag = ERL_FLOAT_EXT \<or> tag = NEW_FLOAT_EXT then Some (decode_float scan buf ext)
       else if tag = ERL_BINARY_EXT then Some (decode_binary buf ext)
       else if tag = ERL_FUN_EXT then decode_fun_ext f buf ext
       else if tag = ERL_NEW_FUN_EXT then decode_new_fun_ext f buf ext
       else Some (Err ext))"

primrec erl_decode_it :: "nat \<Rightarrow> (byte list \<Rightarrow> int \<Rightarrow> 64 word option) \<Rightarrow> byte list \<Rightarrow> decoder" where
  "erl_decode_it 0 scan buf ext = None"
| "erl_decode_it (Suc d) scan buf ext = decode_step scan buf (erl_decode_it d scan buf) ext"

text \<open>A version byte is passed over. \<open>erl_decode_buf\<close> moves the pointer of the caller.\<close>

definition erl_decode_buf :: "nat \<Rightarrow> (byte list \<Rightarrow> int \<Rightarrow> 64 word option) \<Rightarrow> byte list \<Rightarrow> decoder" where
  "erl_decode_buf d scan buf ext =
     bindf (Some (rd buf ext)) (\<lambda>c.
       erl_decode_it d scan buf (if uint c = ERL_VERSION_MAGIC then ext + 1 else ext))"

definition erl_decode :: "nat \<Rightarrow> (byte list \<Rightarrow> int \<Rightarrow> 64 word option) \<Rightarrow> byte list \<Rightarrow> (unit, ETERM) res option" where
  "erl_decode d scan t =
     map_option (\<lambda>r. case r of Fault \<Rightarrow> Fault | Err _ \<Rightarrow> Err () | Ok (ep, _) \<Rightarrow> Ok ep) (erl_decode_buf d scan t 0)"

end
