(* ===== verification/Erl_MarshalSpec.thy ===== *)
theory Erl_MarshalSpec
  imports Erl_Marshal Ei_PrintSpec
begin

text \<open>
  What \<open>erl_encode_it\<close> writes for a term within the limits of the format (\<open>ext_bytes\<close>), and by how much
  \<open>erl_term_len\<close> falls short of it (\<open>slack\<close>).
\<close>

section \<open>The bytes of a term\<close>

definition atom_bytes :: "Erl_Atom_data \<Rightarrow> byte list" where
  "atom_bytes a =
     (case a_latin1 a of
        Some s \<Rightarrow> etf_atom_latin1 (take (nat (a_lenL a)) s)
      | None \<Rightarrow> etf_atom_utf8 (take (nat (a_lenU a)) (the (a_utf8 a))))"

definition utf8_name :: "Erl_Atom_data \<Rightarrow> byte list" where
  "utf8_name a =
     (case a_latin1 a of
        Some s \<Rightarrow> latin1_utf8 (take (nat (a_lenL a)) s)
      | None \<Rightarrow> take (nat (a_lenU a)) (the (a_utf8 a)))"

text \<open>
  A name of at most 255 characters; where both encodings are there, they are the same name.
\<close>

definition atom_ok :: "Erl_Atom_data \<Rightarrow> bool" where
  "atom_ok a \<longleftrightarrow>
     (case a_latin1 a of
        Some s \<Rightarrow> 0 \<le> a_lenL a \<and> a_lenL a < 256 \<and> nat (a_lenL a) \<le> length s
          \<and> (case a_utf8 a of None \<Rightarrow> True
             | Some u \<Rightarrow> 0 \<le> a_lenU a \<and> nat (a_lenU a) \<le> length u
                 \<and> take (nat (a_lenU a)) u = latin1_utf8 (take (nat (a_lenL a)) s))
      | None \<Rightarrow> (case a_utf8 a of None \<Rightarrow> False
          | Some u \<Rightarrow> 0 \<le> a_lenU a \<and> nat (a_lenU a) \<le> length u \<and> good_name (take (nat (a_lenU a)) u)))"

definition int_bytes :: "int \<Rightarrow> byte list" where
  "int_bytes n =
     (if 0 \<le> n \<and> n < 256 then [byte_of ERL_SMALL_INTEGER_EXT, byte_of n] else byte_of ERL_INTEGER_EXT # be32 n)"

definition long_bytes :: "int \<Rightarrow> byte list" where
  "long_bytes n =
     (if - (2 ^ 31) \<le> n \<and> n < 2 ^ 31 then int_bytes n
      else [byte_of ERL_SMALL_BIG_EXT, 8, if n < 0 then 1 else 0] @ eight_bytes (word_of_int \<bar>n\<bar>))"

definition creation_bytes :: "32 word \<Rightarrow> byte list" where
  "creation_bytes c = (if c \<le> 3 then [ucast c] else be32 (uint c))"

definition tag_for :: "32 word \<Rightarrow> int \<Rightarrow> int \<Rightarrow> byte" where
  "tag_for c short long = byte_of (if c \<le> 3 then short else long)"

definition float_bytes :: "64 word \<Rightarrow> byte list" where
  "float_bytes d = byte_of ERL_FLOAT_EXT # show_e d @ replicate (31 - length (show_e d)) 0"

fun ptr_bytes :: "(ETERM \<Rightarrow> byte list) \<Rightarrow> ETERM option list \<Rightarrow> byte list" where
  "ptr_bytes f [] = []"
| "ptr_bytes f (e # es) = (case e of None \<Rightarrow> [] | Some e \<Rightarrow> f e) @ ptr_bytes f es"

lemma ptr_bytes_cong [fundef_cong]:
  "es = es' \<Longrightarrow> (\<And>e. Some e \<in> set es' \<Longrightarrow> f e = g e) \<Longrightarrow> ptr_bytes f es = ptr_bytes g es'"
  by (induction es' arbitrary: es) (auto split: option.splits)

function ext_bytes :: "ETERM \<Rightarrow> byte list" where
  "ext_bytes (Erl_Atom a) = atom_bytes a"
| "ext_bytes (Erl_Integer i) = int_bytes (sint i)"
| "ext_bytes (Erl_Uinteger u) =
     (if uint u < 2 ^ 31 then int_bytes (uint u)
      else [byte_of ERL_SMALL_BIG_EXT, 4, 0, ucast u, ucast (drop_bit 8 u), ucast (drop_bit 16 u), ucast (drop_bit 24 u)])"
| "ext_bytes (Erl_LLInteger l) = long_bytes (sint l)"
| "ext_bytes (Erl_ULLInteger l) = long_bytes (uint l)"
| "ext_bytes (Erl_Pid node number serial c) =
     tag_for c ERL_PID_EXT ERL_NEW_PID_EXT # atom_bytes node @ be32 (uint number) @ be32 (uint serial) @ creation_bytes c"
| "ext_bytes (Erl_Port node number c) =
     tag_for c ERL_PORT_EXT ERL_NEW_PORT_EXT # atom_bytes node @ be32 (uint number) @ creation_bytes c"
| "ext_bytes (Erl_Ref node len n c) =
     tag_for c ERL_NEW_REFERENCE_EXT ERL_NEWER_REFERENCE_EXT # be16 len @ atom_bytes node @ creation_bytes c
       @ concat (map (\<lambda>w. be32 (uint w)) (take (nat len) n))"
| "ext_bytes Erl_EmptyList = [byte_of ERL_NIL_EXT]"
| "ext_bytes (Erl_List h t) =
     (let i = is_string (Erl_List h t); hs = list_heads (Erl_List h t)
      in if 0 < i \<and> i < 0x10000 then byte_of ERL_STRING_EXT # be16 i @ map low_byte hs
         else byte_of ERL_LIST_EXT # be32 (int (length hs)) @ concat (map (\<lambda>e. ext_bytes e) hs) @ ext_bytes (list_last t))"
| "ext_bytes (Erl_Tuple es) = tuple_header (int (length es)) @ concat (map (\<lambda>e. ext_bytes e) es)"
| "ext_bytes (Erl_Float d) = float_bytes d"
| "ext_bytes (Erl_Binary b) = byte_of ERL_BINARY_EXT # be32 (int (length b)) @ b"
| "ext_bytes (Erl_Function arity md5 new_index creator module index uniq closure) =
     (if arity \<noteq> - 1
      then let r = ucast arity # md5 @ be32 (uint new_index) @ be32 (int (length closure))
                 @ ptr_bytes (\<lambda>e. ext_bytes e) ([module, index, uniq, creator] @ closure)
           in byte_of ERL_NEW_FUN_EXT # be32 (int (length r) + 4) @ r
      else byte_of ERL_FUN_EXT # be32 (int (length closure))
             @ ptr_bytes (\<lambda>e. ext_bytes e) ([creator, module, index, uniq] @ closure))"
| "ext_bytes (Erl_Variable s v) = []"
| "ext_bytes (Erl_Big b) = []"
  by pat_completeness auto
termination
  by (relation "measure size")
    (auto simp: less_Suc_eq_le intro: size_list_last trans_le_add2 size_member size_member_option dest: size_list_heads)

text \<open>Terms within the limits; no pointer of a fun is NULL.\<close>

primrec marshal_ok :: "ETERM \<Rightarrow> bool" where
  "marshal_ok (Erl_Atom a) = atom_ok a"
| "marshal_ok (Erl_Integer i) = True"
| "marshal_ok (Erl_Uinteger i) = True"
| "marshal_ok (Erl_LLInteger i) = True"
| "marshal_ok (Erl_ULLInteger i) = True"
| "marshal_ok (Erl_Float d) = True"
| "marshal_ok (Erl_Pid node number serial c) = atom_ok node"
| "marshal_ok (Erl_Port node number c) = atom_ok node"
| "marshal_ok (Erl_Ref node len n c) = (atom_ok node \<and> a_latin1 node \<noteq> None \<and> 0 \<le> len \<and> len \<le> 3 \<and> length n = 3)"
| "marshal_ok (Erl_List h t) = (marshal_ok h \<and> marshal_ok t)"
| "marshal_ok Erl_EmptyList = True"
| "marshal_ok (Erl_Tuple es) = (int (length es) < 2 ^ 31 \<and> list_all marshal_ok es)"
| "marshal_ok (Erl_Binary b) = (int (length b) < 2 ^ 31)"
| "marshal_ok (Erl_Variable s v) = False"
| "marshal_ok (Erl_Big b) = False"
| "marshal_ok (Erl_Function arity md5 new_index creator module index uniq closure) =
     (length md5 = 16 \<and> pred_option marshal_ok creator \<and> creator \<noteq> None \<and> pred_option marshal_ok module \<and> module \<noteq> None
      \<and> pred_option marshal_ok index \<and> index \<noteq> None \<and> pred_option marshal_ok uniq \<and> uniq \<noteq> None
      \<and> int (length closure) < 2 ^ 31 \<and> list_all (pred_option marshal_ok) closure \<and> None \<notin> set closure)"

section \<open>The encoder writes them\<close>

lemma put_bytes_append: "bindr (put_bytes xs buf p) (\<lambda>(buf, p). put_bytes ys buf p) = put_bytes (xs @ ys) buf p"
  by (simp add: put_bytes_def wrs_append bindr_assoc add.assoc)

lemma put_bytes_bind:
  "bindr (put_bytes xs buf p) (\<lambda>(buf, p). bindr (put_bytes ys buf p) f) = bindr (put_bytes (xs @ ys) buf p) f"
  by (simp add: put_bytes_append [symmetric] bindr_assoc case_prod_unfold)

lemma put_bytes_Nil [simp]: "put_bytes [] buf p = Ok (buf, p)"
  by (simp add: put_bytes_def)

lemma disregard_put [simp]: "disregard (put_bytes bs buf p) = put_bytes bs buf p"
  by (auto simp: disregard_def put_bytes_def wrs_eq)

lemma encode_atom_put:
  assumes "atom_ok a"
  shows "encode_atom a buf p = put_bytes (atom_bytes a) buf p"
proof -
  have c: "(case emit (Some buf) p bs of Fault \<Rightarrow> Fault | Err (b, _) \<Rightarrow> Ok (the b, p) | Ok (b, q) \<Rightarrow> Ok (the b, q)) = put_bytes bs buf p" for bs
    by (cases "wrs buf p bs :: (estate, byte list) res"; cases "wrs buf p bs :: (byte list \<times> int, byte list) res")
      (auto simp: emit_Some put_bytes_def wrs_eq split: if_splits)
  show ?thesis
  proof (cases "a_latin1 a")
    case None
    then obtain u where "a_utf8 a = Some u" "0 \<le> a_lenU a" "nat (a_lenU a) \<le> length u" "good_name (take (nat (a_lenU a)) u)"
      using assms by (auto simp: atom_ok_def split: option.splits)
    then show ?thesis using None
      by (auto simp: encode_atom_def ei_encode_atom_utf8_emit atom_bytes_def good_name_def c split: option.splits)
  next
    case (Some s)
    then have "0 \<le> a_lenL a" "a_lenL a < 256" "nat (a_lenL a) \<le> length s"
      using assms by (auto simp: atom_ok_def)
    then show ?thesis using Some by (simp add: encode_atom_def ei_encode_atom_latin1_emit atom_bytes_def c)
  qed
qed

lemma put_hole:
  "bindr (put_bytes xs buf (p + 1)) (\<lambda>(buf, q). bindr (wr buf p x) (\<lambda>buf. put_bytes ys buf q)) = put_bytes (x # xs @ ys) buf p"
proof -
  have "bindr (wrs buf (p + 1) xs) (\<lambda>buf. bindr (wr buf p x) f)
      = bindr (wr buf p x) (\<lambda>buf. bindr (wrs buf (p + 1) xs) f)"
    for f :: "byte list \<Rightarrow> enc"
    using arg_cong [OF wr_wrs_swap [of p "p + 1" buf xs x], of "\<lambda>m. bindr m f"] by (simp add: bindr_assoc)
  then show ?thesis by (simp add: put_bytes_def bindr_assoc wrs_append add.assoc)
qed

lemma encode_creation_put:
  "bindr (put_bytes xs buf (p + 1)) (\<lambda>(buf, q). encode_creation c short long p buf q)
    = put_bytes (tag_for c short long # xs @ creation_bytes c) buf p"
  using put_hole [of xs buf p] by (cases "c \<le> 3") (simp_all add: encode_creation_def tag_for_def creation_bytes_def)

lemma low_byte_of:
  "byte_of (sint (w :: 32 word)) = ucast w" "byte_of (uint w) = ucast w"
  "byte_of (sint (v :: 64 word)) = ucast v" "byte_of (uint v) = ucast v"
  unfolding byte_of_def by (rule bit_word_eqI; auto simp: bit_simps)+

lemma encode_integer_put: "encode_integer i buf p = put_bytes (int_bytes (sint i)) buf p"
  by (simp add: encode_integer_def int_bytes_def low_byte_of)

lemma sint_32_neg: "sint (w :: 32 word) < 0 \<longleftrightarrow> \<not> uint w < 2 ^ 31"
proof (cases "sint w < 0")
  case True
  have "(sint w + 2 ^ 32) mod 2 ^ 32 = sint w + 2 ^ 32" using True sint32_range [of w] by (intro mod_pos_pos_trivial) simp_all
  moreover have "(sint w + 2 ^ 32) mod 2 ^ 32 = uint w" unfolding uint_sint_mod by simp
  ultimately have "uint w = sint w + 2 ^ 32" by linarith
  then show ?thesis using True sint32_range [of w] by simp
next
  case False
  then show ?thesis using sint32_range [of w] by (simp add: uint_sint_mod mod_pos_pos_trivial)
qed

lemma encode_uinteger_put: "encode_uinteger u buf p = put_bytes (ext_bytes (Erl_Uinteger u)) buf p"
proof -
  have "u < 256 \<longleftrightarrow> uint u < 256" by (simp add: word_less_def)
  then show ?thesis by (simp add: sint_32_neg encode_uinteger_def int_bytes_def low_byte_of)
qed

lemma encode_longlong_put: "encode_longlong l buf p = put_bytes (long_bytes (sint l)) buf p"
proof -
  have "word_of_int \<bar>sint l\<bar> = (if sint l < 0 then - l else l)" by (simp add: abs_if)
  then show ?thesis by (simp add: encode_longlong_def long_bytes_def int_bytes_def low_byte_of)
qed

lemma encode_ulonglong_put: "encode_ulonglong l buf p = put_bytes (long_bytes (uint l)) buf p"
proof -
  have c: "l > 2147483647 \<longleftrightarrow> \<not> uint l < 2 ^ 31" "l < 256 \<longleftrightarrow> uint l < 256" by (auto simp: word_less_def)
  have d: "(- (2 ^ 31) \<le> uint l \<and> uint l < 2 ^ 31) = (uint l < 2 ^ 31)" "(uint l < 0) = False"
    "(0 \<le> uint l \<and> uint l < 256) = (uint l < 256)"
    using uint_ge_0 [of l] by (linarith, simp_all add: linorder_not_less)
  show ?thesis unfolding encode_ulonglong_def long_bytes_def int_bytes_def c d low_byte_of by simp
qed

lemma encode_pid_put:
  "atom_ok node \<Longrightarrow> encode_pid node number serial c buf p = put_bytes (ext_bytes (Erl_Pid node number serial c)) buf p"
  by (simp add: encode_pid_def encode_atom_put put_bytes_bind encode_creation_put)

lemma encode_port_put:
  "atom_ok node \<Longrightarrow> encode_port node number c buf p = put_bytes (ext_bytes (Erl_Port node number c)) buf p"
  by (simp add: encode_port_def encode_atom_put put_bytes_bind encode_creation_put)

lemma encode_ref_numbers_put:
  "j + m \<le> length n \<Longrightarrow> encode_ref_numbers n j m = put_bytes (concat (map (\<lambda>w. be32 (uint w)) (take m (drop j n))))"
proof (induction m arbitrary: j)
  case (Suc m)
  then have "take (Suc m) (drop j n) = n ! j # take m (drop (Suc j) n)"
    by (simp add: Cons_nth_drop_Suc [symmetric])
  moreover have "encode_ref_numbers n (Suc j) m = put_bytes (concat (map (\<lambda>w. be32 (uint w)) (take m (drop (Suc j) n))))"
    using Suc by simp
  ultimately show ?case using Suc.prems by (intro ext) (simp add: put_bytes_append)
qed (simp add: fun_eq_iff)

lemma creation_then_put:
  "bindr (put_bytes xs buf (p + 1)) (\<lambda>(buf, q). bindr (encode_creation c short long p buf q) (\<lambda>(buf, q). put_bytes ys buf q))
    = put_bytes (tag_for c short long # xs @ creation_bytes c @ ys) buf p"
  using arg_cong [OF encode_creation_put [of xs buf p c short long], of "\<lambda>m. bindr m (\<lambda>(buf, q). put_bytes ys buf q)"]
  by (simp add: bindr_assoc case_prod_unfold put_bytes_append [unfolded case_prod_unfold])

lemma encode_ref_put:
  assumes "atom_ok node" "a_latin1 node \<noteq> None" "0 \<le> len" "len \<le> 3" "length n = 3"
  shows "encode_ref node len n c buf p = put_bytes (ext_bytes (Erl_Ref node len n c)) buf p"
proof -
  have "erl_atom_ptr_latin1 node = Ok (a_latin1 node, node)" using assms(2) by (auto simp: erl_atom_ptr_latin1_def)
  moreover have "encode_ref_numbers n 0 (nat len) = put_bytes (concat (map (\<lambda>w. be32 (uint w)) (take (nat len) n)))"
    using encode_ref_numbers_put [of 0 "nat len" n] assms(4,5) by simp
  ultimately show ?thesis
    using assms(1,2) by (auto simp: encode_ref_def encode_atom_put put_bytes_bind creation_then_put)
qed

lemma length_pad_left: "length (pad_left k cs) = max k (length cs)"
  by (simp add: pad_left_def)

lemma length_digits_of [simp]: "length (digits_of k n) = k"
  by (induction k arbitrary: n) auto

lemma decimal_exponent_range: "n \<le> 800 \<Longrightarrow> - 400 \<le> decimal_exponent m k n \<and> decimal_exponent m k n \<le> 400"
  by (induction n) (auto simp: Let_def)

lemma length_show_exponent: "\<bar>e\<bar> < 1000 \<Longrightarrow> length (show_exponent e) \<le> 5"
  using length_show_nat [of "nat \<bar>e\<bar>" 3] by (simp add: show_exponent_def length_pad_left show_int_def)

lemma length_show_scaled: "\<bar>e\<bar> < 1000 \<Longrightarrow> length (show_scaled n e) \<le> 27"
  using length_show_exponent [of e] by (simp add: show_scaled_def)

lemma length_show_finite: "length (show_finite m k) \<le> 27"
proof -
  define e where "e = (if m = 0 then 0 else decimal_exponent m k 800)"
  have "length (show_scaled n e) \<le> 27" "length (show_scaled n (e + 1)) \<le> 27" for n
    using decimal_exponent_range [of 800 m k] by (auto simp: e_def intro!: length_show_scaled)
  then show ?thesis by (simp add: show_finite_def e_def [symmetric] Let_def)
qed

lemma length_show_e: "length (show_e d) \<le> 30"
proof -
  have s: "length (if b then [c] else []) \<le> 1" for b :: bool and c :: byte by simp
  have r: "length (if b then if b' then [105, 110, 102] else [110, 97, 110] else show_finite m k) \<le> 27" for b b' m k
    using length_show_finite by simp
  show ?thesis unfolding show_e_def Let_def length_append using add_mono [OF s r] by (rule order_trans) simp
qed

lemma wrs_overwrite:
  assumes "length ys = length xs"
  shows "bindr (wrs b i xs) (\<lambda>b. wrs b i ys) = wrs b i ys"
proof (cases "0 \<le> i \<and> i + int (length xs) \<le> int (length b)")
  case True
  then show ?thesis using assms by (cases xs) (auto simp: wrs_eq min_absorb2 nat_le_iff)
qed (use assms in \<open>auto simp: wrs_eq\<close>)

lemma overwrite_front:
  assumes "length ys = length xs"
  shows "bindr (put_bytes (c # xs @ zs) buf p) (\<lambda>(buf, q). bindr (wrs buf (p + 1) ys) (\<lambda>buf. Ok (buf, q)))
    = put_bytes (c # ys @ zs) buf p"
proof -
  have swap: "bindr (wrs b i xs) (\<lambda>b. bindr (wrs b k zs) (\<lambda>b. bindr (wrs b i ys) g)) = bindr (wrs b i ys) (\<lambda>b. bindr (wrs b k zs) g)"
    if k: "k = i + int (length xs)" for b i k and g :: "byte list \<Rightarrow> enc"
  proof -
    have "bindr (wrs b i xs) (\<lambda>b. bindr (wrs b k zs) (\<lambda>b. wrs b i ys :: (byte list \<times> int, _) res))
        = bindr (bindr (wrs b i xs) (\<lambda>b. wrs b i ys)) (\<lambda>b. wrs b k zs)"
      by (simp add: wrs_wrs_swap k assms bindr_assoc)
    then have e: "bindr (wrs b i xs) (\<lambda>b. bindr (wrs b k zs) (\<lambda>b. wrs b i ys :: (byte list \<times> int, _) res))
        = bindr (wrs b i ys) (\<lambda>b. wrs b k zs)"
      by (simp add: wrs_overwrite assms)
    show ?thesis using arg_cong [OF e, of "\<lambda>m. bindr m g"] by (simp add: bindr_assoc)
  qed
  show ?thesis
    by (simp add: put_bytes_def wrs_append bindr_assoc add.assoc assms) (intro bindr_cong refl swap, simp)
qed

lemma encode_float_put: "encode_float d buf p = put_bytes (float_bytes d) buf p"
proof -
  define s z where "s = show_e d @ [0]" and "z = replicate (31 - length s) (0 :: byte)"
  have "length s \<le> 31" using length_show_e [of d] by (simp add: s_def)
  then have r: "replicate 31 0 = replicate (length s) 0 @ z"
    unfolding z_def by (subst replicate_add [symmetric]) simp
  have f: "float_bytes d = byte_of ERL_FLOAT_EXT # s @ z"
    using length_show_e [of d] by (simp add: float_bytes_def s_def z_def Suc_diff_le flip: replicate_Suc)
  show ?thesis unfolding encode_float_def r f s_def [symmetric] by (rule overwrite_front) simp
qed

lemma encode_all_put:
  "(\<And>e. e \<in> set es \<Longrightarrow> f e = put_bytes (g e)) \<Longrightarrow> encode_all f es = put_bytes (concat (map g es))"
proof (induction es)
  case (Cons e es)
  then have "encode_all f es = put_bytes (concat (map g es))" by simp
  then show ?case using Cons.prems [of e] by (intro ext) (simp add: put_bytes_append)
qed (simp add: fun_eq_iff)

lemma encode_ptrs_put:
  "(\<And>e. Some e \<in> set es \<Longrightarrow> f e = put_bytes (g e)) \<Longrightarrow> None \<notin> set es \<Longrightarrow> encode_ptrs f es = put_bytes (ptr_bytes g es)"
proof (induction es)
  case (Cons e es)
  obtain a where e: "e = Some a" using Cons.prems(2) by (cases e) auto
  have "encode_ptrs f es = put_bytes (ptr_bytes g es)" using Cons by simp
  then show ?case using Cons.prems(1) [of a] e by (intro ext) (simp add: put_bytes_append)
qed (simp add: fun_eq_iff)

lemma marshal_ok_heads: "marshal_ok t \<Longrightarrow> list_all marshal_ok (list_heads t) \<and> marshal_ok (list_last t)"
  by (induction t) auto

lemma ptr_bytes_append: "ptr_bytes f (xs @ ys) = ptr_bytes f xs @ ptr_bytes f ys"
  by (induction xs) auto

lemma encode_list_put:
  assumes "\<And>e. e \<in> set (list_heads (Erl_List h t)) \<Longrightarrow> erl_encode_it e = put_bytes (ext_bytes e)"
    "erl_encode_it (list_last t) = put_bytes (ext_bytes (list_last t))"
  shows "erl_encode_it (Erl_List h t) = put_bytes (ext_bytes (Erl_List h t))"
proof -
  define hs where "hs = list_heads (Erl_List h t)"
  have a: "encode_all erl_encode_it hs = put_bytes (concat (map ext_bytes hs))"
    using assms(1) by (intro encode_all_put) (simp add: hs_def)
  show ?thesis
    by (intro ext) (simp add: Let_def hs_def [symmetric] erl_length_x_def a assms(2) put_bytes_bind put_bytes_append
      del: list_heads.simps)
qed

lemma put_fun:
  assumes "n = p + 5 + int (length r) - (p + 1)" "q = p + 5 + int (length r)"
  shows "bindr (wr buf p x) (\<lambda>buf. bindr (wrs buf (p + 5) r) (\<lambda>buf. bindr (wrs buf (p + 1) (be32 n)) (\<lambda>buf. Ok (buf, q))))
    = put_bytes (x # be32 (int (length r) + 4) @ r) buf p"
  using put_gap_wrs [of "p + 1" p "[x]" "p + 5" "be32 n" buf r] assms
  by (simp add: put_bytes_def bindr_assoc add.commute add.left_commute)

lemma encode_fun_put:
  assumes "\<And>e. Some e \<in> set ([creator, module, index, uniq] @ closure) \<Longrightarrow> erl_encode_it e = put_bytes (ext_bytes e)"
    "None \<notin> set ([creator, module, index, uniq] @ closure)"
  shows "erl_encode_it (Erl_Function arity md5 new_index creator module index uniq closure)
    = put_bytes (ext_bytes (Erl_Function arity md5 new_index creator module index uniq closure))"
proof -
  have e: "encode_ptrs erl_encode_it es = put_bytes (ptr_bytes ext_bytes es)"
    if "set es \<subseteq> set ([creator, module, index, uniq] @ closure)" for es
    using assms that by (intro encode_ptrs_put) auto
  have e4: "encode_ptrs erl_encode_it [module, index, uniq, creator] = put_bytes (ptr_bytes ext_bytes [module, index, uniq, creator])"
    "encode_ptrs erl_encode_it [creator, module, index, uniq] = put_bytes (ptr_bytes ext_bytes [creator, module, index, uniq])"
    "encode_ptrs erl_encode_it closure = put_bytes (ptr_bytes ext_bytes closure)"
    by (intro e; auto)+
  show ?thesis
  proof (cases "arity = - 1")
    case True
    then show ?thesis
      by (intro ext) (simp add: e4 put_bytes_bind put_bytes_append ptr_bytes_append append_Cons [symmetric]
        del: encode_ptrs.simps ptr_bytes.simps append_Cons)
  next
    case False
    define r where "r = ucast arity # md5 @ be32 (uint new_index) @ be32 (int (length closure))
      @ ptr_bytes ext_bytes ([module, index, uniq, creator] @ closure)"
    have "erl_encode_it (Erl_Function arity md5 new_index creator module index uniq closure) buf p
      = (\<lambda>buf p. bindr (wr buf p (byte_of ERL_NEW_FUN_EXT)) (\<lambda>buf. bindr (put_bytes r buf (p + 5)) (\<lambda>(buf, q).
          bindr (wrs buf (p + 1) (be32 (q - (p + 1)))) (\<lambda>buf. Ok (buf, q))))) buf p" for buf p
      using False by (simp add: e4 put_bytes_bind r_def ptr_bytes_append del: encode_ptrs.simps ptr_bytes.simps append.simps)
        (simp del: ptr_bytes.simps)
    moreover have "\<dots> buf p = put_bytes (byte_of ERL_NEW_FUN_EXT # be32 (int (length r) + 4) @ r) buf p" for buf p
      using put_fun [OF refl refl, of buf p "byte_of ERL_NEW_FUN_EXT" r] by (simp add: put_bytes_def [of r] bindr_assoc)
    moreover have "ext_bytes (Erl_Function arity md5 new_index creator module index uniq closure)
      = byte_of ERL_NEW_FUN_EXT # be32 (int (length r) + 4) @ r"
      using False by (simp only: ext_bytes.simps Let_def r_def if_True not_False_eq_True)
    ultimately show ?thesis by (simp only: fun_eq_iff simp_thms)
  qed
qed

theorem erl_encode_put: "marshal_ok t \<Longrightarrow> erl_encode_it t = put_bytes (ext_bytes t)"
proof (induction t rule: measure_induct_rule [of size])
  case (less t)
  show ?case
  proof (cases t)
    case (Erl_List h r)
    have "size e < size t" if "e \<in> set (list_heads t)" for e using size_list_heads [OF that] .
    moreover have "size (list_last r) < size t" using size_list_last [of r] Erl_List by simp
    moreover have "list_all marshal_ok (list_heads t)" "marshal_ok (list_last t)" using marshal_ok_heads [OF less.prems] by auto
    ultimately show ?thesis using less.IH unfolding Erl_List by (intro encode_list_put) (simp_all add: list_all_iff del: list_heads.simps)
  next
    case (Erl_Tuple es)
    have "encode_all erl_encode_it es = put_bytes (concat (map ext_bytes es))"
      using less.prems Erl_Tuple by (intro encode_all_put less.IH) (auto simp: list_all_iff less_Suc_eq_le size_member)
    then show ?thesis using Erl_Tuple by (intro ext) (simp add: put_bytes_append)
  next
    case (Erl_Function arity md5 new_index creator module index uniq closure)
    have "erl_encode_it e = put_bytes (ext_bytes e)" if "Some e \<in> set ([creator, module, index, uniq] @ closure)" for e
    proof (rule less.IH)
      show "size e < size t" using that Erl_Function
        by (auto simp: less_Suc_eq_le intro: trans_le_add2 size_member_option)
      show "marshal_ok e" using that less.prems Erl_Function by (auto simp: list_all_iff)
    qed
    moreover have "None \<notin> set ([creator, module, index, uniq] @ closure)" using less.prems Erl_Function by auto
    ultimately show ?thesis unfolding Erl_Function by (rule encode_fun_put)
  qed (use less.prems in \<open>auto simp: fun_eq_iff encode_atom_put encode_integer_put encode_uinteger_put encode_longlong_put
      encode_ulonglong_put encode_pid_put encode_port_put encode_ref_put encode_float_put encode_binary_def
      simp del: ext_bytes.simps(3,6-8)\<close>)
qed

section \<open>The room that is announced\<close>

text \<open>
  \<open>erl_term_len\<close> announces too little for an atom that has 128 or more characters and fits in 255
  octets, because its length is written with two octets, for a creation that takes four, and for
  the arity of a fun.
\<close>

definition atom_slack :: "Erl_Atom_data \<Rightarrow> int" where
  "atom_slack a = (if a_latin1 a \<noteq> None \<and> 128 \<le> a_lenL a \<and> length (utf8_name a) \<le> 255 then 1 else 0)"

definition creation_slack :: "32 word \<Rightarrow> int" where
  "creation_slack c = (if c \<le> 3 then 0 else 3)"

primrec slack :: "ETERM \<Rightarrow> int" where
  "slack (Erl_Atom a) = atom_slack a"
| "slack (Erl_Integer i) = 0"
| "slack (Erl_Uinteger i) = 0"
| "slack (Erl_LLInteger i) = 0"
| "slack (Erl_ULLInteger i) = 0"
| "slack (Erl_Float d) = 0"
| "slack (Erl_Pid node number serial c) = atom_slack node + creation_slack c"
| "slack (Erl_Port node number c) = atom_slack node + creation_slack c"
| "slack (Erl_Ref node len n c) = atom_slack node + creation_slack c"
| "slack (Erl_List h t) = slack h + slack t"
| "slack Erl_EmptyList = 0"
| "slack (Erl_Tuple es) = sum_list (map slack es)"
| "slack (Erl_Binary b) = 0"
| "slack (Erl_Variable s v) = 0"
| "slack (Erl_Big b) = 0"
| "slack (Erl_Function arity md5 new_index creator module index uniq closure) =
     (if arity \<noteq> - 1 then 1 else 0) + sum_list (map (\<lambda>n. case n of None \<Rightarrow> 0 | Some n \<Rightarrow> n)
       (map_option slack creator # map_option slack module # map_option slack index # map_option slack uniq
         # map (map_option slack) closure))"

lemma wrs_fresh: "wrs (0 # replicate (length u) 0) 0 u = Ok (u @ [0])"
proof -
  have "drop (length u) (0 # replicate (length u) 0) = [0 :: byte]"
    unfolding replicate_Suc [symmetric] drop_replicate by simp
  then show ?thesis by (cases u) (simp_all add: wrs_eq)
qed

lemma atom_len:
  assumes "atom_ok a"
  shows "atom_len_helper a = Ok (int (length (atom_bytes a)) - atom_slack a)"
proof (cases "a_latin1 a")
  case None
  then obtain u where u: "a_utf8 a = Some u" "0 \<le> a_lenU a" "nat (a_lenU a) \<le> length u"
    using assms by (auto simp: atom_ok_def split: option.splits)
  then have "int (length (take (nat (a_lenU a)) u)) = a_lenU a" by simp
  then show ?thesis using None u
    by (auto simp: atom_len_helper_def erl_atom_ptr_utf8_def atom_bytes_def atom_slack_def etf_atom_utf8_def)
next
  case (Some s)
  define cs where "cs = take (nat (a_lenL a)) s"
  have l: "0 \<le> a_lenL a" "a_lenL a < 256" "nat (a_lenL a) \<le> length s" using assms Some by (auto simp: atom_ok_def)
  then have n: "int (length cs) = a_lenL a" by (simp add: cs_def)
  have u2: "length (latin1_utf8 cs) \<le> 2 * length cs" "length cs \<le> length (latin1_utf8 cs)"
    by (rule length_latin1_utf8)+
  have ptr: "\<exists>u a'. erl_atom_ptr_utf8 a = Ok (Some u, a') \<and> a_lenU a' = int (length (latin1_utf8 cs))"
  proof (cases "a_utf8 a")
    case (Some u)
    then have "0 \<le> a_lenU a" "nat (a_lenU a) \<le> length u" "take (nat (a_lenU a)) u = latin1_utf8 cs"
      using assms \<open>a_latin1 a = Some s\<close> by (auto simp: atom_ok_def cs_def)
    then have "a_lenU a = int (length (latin1_utf8 cs))" by (metis int_nat_eq length_take min_absorb2)
    then show ?thesis using Some by (simp add: erl_atom_ptr_utf8_def)
  next
    case None
    have at: "at_off s 0 cs" unfolding cs_def using l(3) by (intro at_off_take)
    have c1: "latin1_to_utf8 None 0 s 0 (a_lenL a) (a_lenL a * 2)
        = Ok (None, Some (int (length (latin1_utf8 cs)), if non_ascii cs then ERLANG_UTF8 else ERLANG_ASCII))"
      using latin1_to_utf8_wrs [OF at _ n [symmetric], where dst = None and d = 0 and destlen = "a_lenL a * 2"] u2 n by simp
    define m where "m = length (latin1_utf8 cs)"
    have c2: "latin1_to_utf8 (Some (0 # replicate m 0)) 0 s 0 (a_lenL a) (int m)
        = Ok (Some (latin1_utf8 cs @ [0]), Some (int m, if non_ascii cs then ERLANG_UTF8 else ERLANG_ASCII))"
      using latin1_to_utf8_wrs [OF at _ n [symmetric], where dst = "Some (0 # replicate m 0)" and d = 0 and destlen = "int m"]
      by (simp add: m_def wrs_fresh)
    show ?thesis using None Some
      by (cases "non_ascii cs")
        (simp_all add: erl_atom_ptr_utf8_def c1 m_def [symmetric] c2 put_nul_def wr_def in_range_def)
  qed
  then obtain u a' where ptr: "erl_atom_ptr_utf8 a = Ok (Some u, a')" "a_lenU a' = int (length (latin1_utf8 cs))" by blast
  have name: "utf8_name a = latin1_utf8 cs" using Some by (simp add: utf8_name_def cs_def)
  have lb: "length (atom_bytes a) = (if 128 \<le> length cs then 3 else 2) + length (latin1_utf8 cs)"
    using Some by (simp add: atom_bytes_def etf_atom_latin1_def Let_def cs_def [symmetric])
  show ?thesis using u2 Some n
    by (auto simp: atom_len_helper_def ptr atom_slack_def name lb)
qed

lemma len_all_sum:
  "(\<And>e. e \<in> set es \<Longrightarrow> f e = Ok (n e)) \<Longrightarrow> len_all f es len = Ok (len + sum_list (map n es))"
  by (induction es arbitrary: len) (auto simp: add.assoc)

lemma len_ptrs_sum:
  "(\<And>e. Some e \<in> set es \<Longrightarrow> f e = Ok (n e)) \<Longrightarrow>
   len_ptrs f es len = Ok (len + sum_list (map (\<lambda>e. case e of None \<Rightarrow> 0 | Some e \<Rightarrow> n e) es))"
  by (induction es arbitrary: len) (auto simp: add.assoc split: option.splits)

lemma sum_lengths:
  "sum_list (map (\<lambda>e. int (length (f e)) - g e) es) = int (length (concat (map f es))) - (sum_list (map g es) :: int)"
  by (induction es) auto

lemma sum_ptr_lengths:
  "sum_list (map (\<lambda>e. case e of None \<Rightarrow> 0 | Some e \<Rightarrow> int (length (f e)) - g e) es)
    = int (length (ptr_bytes f es)) - (sum_list (map (\<lambda>n. case n of None \<Rightarrow> 0 | Some n \<Rightarrow> n) (map (map_option g) es)) :: int)"
  by (induction es) (auto split: option.splits)

lemma string_heads: "0 < is_string_loop t n \<Longrightarrow> 0 \<le> n \<Longrightarrow>
    is_string_loop t n = n + int (length (list_heads t)) \<and> list_last t = Erl_EmptyList
    \<and> (\<forall>e \<in> set (list_heads t). \<exists>i. e = Erl_Integer i \<and> i \<le> 255)"
proof (induction t arbitrary: n)
  case (Erl_List h t)
  then obtain i where "h = Erl_Integer i" "i \<le> 255" "0 < is_string_loop t (n + 1)"
    by (cases h) (auto split: if_splits)
  then show ?case using Erl_List.IH(2) [of "n + 1"] Erl_List.prems by auto
qed auto

lemma is_stringD:
  assumes "0 < is_string t"
  shows "is_string t = int (length (list_heads t))" "list_last t = Erl_EmptyList"
    "e \<in> set (list_heads t) \<Longrightarrow> \<exists>i. e = Erl_Integer i \<and> i \<le> 255"
  using string_heads [of t 0] assms by (auto simp: is_string_def)

lemma slack_list: "slack t = sum_list (map slack (list_heads t)) + slack (list_last t)"
  by (induction t) auto

lemma length_creation: "int (length (creation_bytes c)) = 1 + creation_slack c"
  by (simp add: creation_bytes_def creation_slack_def)

lemma length_int_bytes: "int (length (int_bytes n)) = (if 0 \<le> n \<and> n < 256 then 2 else 5)"
  by (simp add: int_bytes_def)

lemma length_long_bytes:
  "int (length (long_bytes n)) = (if n < - 2147483648 \<or> n > 2147483647 then 11 else if 0 \<le> n \<and> n < 256 then 2 else 5)"
  by (auto simp: long_bytes_def length_int_bytes eight_bytes_def)

lemma length_float_bytes: "length (float_bytes d) = 32"
  using length_show_e [of d] by (simp add: float_bytes_def)

lemma length_ref_numbers: "length (concat (map (\<lambda>w. be32 (f w)) ws)) = 4 * length ws"
  by (induction ws) auto

lemma uint_not_neg: "\<not> uint (w :: 64 word) < - 2147483648"
  using uint_ge_0 [of w] by linarith

theorem erl_term_len_slack:
  "marshal_ok t \<Longrightarrow> erl_term_len_helper t = Ok (int (length (ext_bytes t)) - slack t)"
proof (induction t rule: measure_induct_rule [of size])
  case (less t)
  show ?case
  proof (cases t)
    case (Erl_List h r)
    define hs where "hs = list_heads t"
    have ok: "list_all marshal_ok hs" "marshal_ok (list_last r)"
      using marshal_ok_heads [OF less.prems] Erl_List by (auto simp: hs_def)
    have e: "erl_term_len_helper e = Ok (int (length (ext_bytes e)) - slack e)" if "e \<in> set hs" for e
      using less.IH size_list_heads that ok(1) by (auto simp: hs_def list_all_iff)
    have l: "erl_term_len_helper (list_last r) = Ok (int (length (ext_bytes (list_last r))) - slack (list_last r))"
      using less.IH [OF _ ok(2)] size_list_last [of r] Erl_List by simp
    have sl: "slack t = sum_list (map slack hs) + slack (list_last r)" using slack_list [of t] Erl_List by (simp add: hs_def)
    show ?thesis
    proof (cases "0 < is_string t \<and> is_string t < 0x10000")
      case True
      then have "slack e = 0" if "e \<in> set hs" for e
        using is_stringD(3) [of t e] that by (auto simp: hs_def)
      moreover have "slack (list_last r) = 0" using is_stringD(2) [of t] True Erl_List by simp
      ultimately have "\<forall>e \<in> set hs. slack e = 0" "slack (list_last r) = 0" by auto
      then have "slack t = 0" by (simp add: sl cong: map_cong)
      then show ?thesis using True unfolding Erl_List by (simp add: Let_def del: list_heads.simps)
    next
      case False
      then show ?thesis unfolding sl
        using len_all_sum [of hs erl_term_len_helper "\<lambda>e. int (length (ext_bytes e)) - slack e" 5, OF e] l hs_def unfolding Erl_List
        by (auto simp: Let_def sum_lengths simp del: list_heads.simps)
    qed
  next
    case (Erl_Tuple es)
    have "erl_term_len_helper e = Ok (int (length (ext_bytes e)) - slack e)" if "e \<in> set es" for e
      using less.prems Erl_Tuple that by (intro less.IH) (auto simp: list_all_iff less_Suc_eq_le size_member)
    note s = len_all_sum [of es erl_term_len_helper "\<lambda>e. int (length (ext_bytes e)) - slack e", OF this]
    show ?thesis using s Erl_Tuple by (simp add: sum_lengths tuple_header_def)
  next
    case (Erl_Function arity md5 new_index creator module index uniq closure)
    have e: "erl_term_len_helper e = Ok (int (length (ext_bytes e)) - slack e)"
      if "Some e \<in> set ([creator, module, index, uniq] @ closure)" for e
    proof (rule less.IH)
      show "size e < size t" using that Erl_Function by (auto simp: less_Suc_eq_le intro: trans_le_add2 size_member_option)
      show "marshal_ok e" using that less.prems Erl_Function by (auto simp: list_all_iff)
    qed
    have s: "len_ptrs erl_term_len_helper es n = Ok (n + int (length (ptr_bytes ext_bytes es))
        - sum_list (map (\<lambda>n. case n of None \<Rightarrow> 0 | Some n \<Rightarrow> n) (map (map_option slack) es)))"
      if "set es = set ([creator, module, index, uniq] @ closure)" for es n
      using len_ptrs_sum [of es erl_term_len_helper "\<lambda>e. int (length (ext_bytes e)) - slack e" n] e that
      by (simp add: sum_ptr_lengths)
    have sl: "slack t = (if arity \<noteq> - 1 then 1 else 0) + sum_list (map (\<lambda>n. case n of None \<Rightarrow> 0 | Some n \<Rightarrow> n)
        (map (map_option slack) ([creator, module, index, uniq] @ closure)))"
      using Erl_Function by (simp split del: if_split)
    show ?thesis
    proof (cases "arity = - 1")
      case True
      then show ?thesis unfolding sl unfolding Erl_Function
        by (simp add: s [of "[creator, module, index, uniq] @ closure"] del: append.simps len_ptrs.simps ptr_bytes.simps)
    next
      case False
      then show ?thesis using less.prems unfolding sl unfolding Erl_Function
        by (simp add: s [of "[module, index, uniq, creator] @ closure"] insert_commute Let_def
            del: append.simps len_ptrs.simps ptr_bytes.simps)
    qed
  qed (use less.prems in \<open>auto simp: atom_len length_creation length_int_bytes length_long_bytes length_float_bytes
      length_ref_numbers sint_32_neg word_less_def uint_not_neg\<close>)
qed

end
