(* ===== verification/Erl_RoundTrip.thy ===== *)
theory Erl_RoundTrip
  imports Erl_Unmarshal Erl_MarshalSpec
begin

text \<open>
  What \<open>erl_decode_it\<close> makes of the bytes that \<open>erl_encode_it\<close> writes: the same term, in the form that the
  decoder prefers (\<open>decoded\<close>).
\<close>

section \<open>The term that comes back\<close>

definition decoded_atom :: "Erl_Atom_data \<Rightarrow> Erl_Atom_data" where
  "decoded_atom a =
     (let u = utf8_name a; n = int (length u)
      in \<lparr>a_utf8 = Some (u @ [0]), a_lenU = n,
          a_latin1 = (if non_ascii u then None else Some (u @ [0])), a_lenL = (if non_ascii u then 0 else n)\<rparr>)"

definition decoded_long :: "int \<Rightarrow> ETERM" where
  "decoded_long n =
     (if - (2 ^ 31) \<le> n \<and> n < 2 ^ 31 then Erl_Integer (word_of_int n)
      else if n < 2 ^ 63 then Erl_LLInteger (word_of_int n) else Erl_ULLInteger (word_of_int n))"

definition kept_numbers :: "int \<Rightarrow> 32 word list \<Rightarrow> 32 word list" where
  "kept_numbers len n = take (nat len) n @ replicate (3 - nat len) 0"

primrec decoded :: "ETERM \<Rightarrow> ETERM" where
  "decoded (Erl_Integer i) = Erl_Integer i"
| "decoded (Erl_Uinteger u) = (if uint u < 2 ^ 31 then Erl_Integer u else Erl_Uinteger u)"
| "decoded (Erl_LLInteger l) = decoded_long (sint l)"
| "decoded (Erl_ULLInteger l) = decoded_long (uint l)"
| "decoded (Erl_Float d) = Erl_Float d"
| "decoded (Erl_Atom a) = Erl_Atom (decoded_atom a)"
| "decoded (Erl_Pid node number serial c) = erl_mk_pid_helper (decoded_atom node) number serial c"
| "decoded (Erl_Port node number c) = erl_mk_port_helper (decoded_atom node) number c"
| "decoded (Erl_Ref node len n c) = erl_mk_reference (decoded_atom node) len (kept_numbers len n) c"
| "decoded (Erl_List h t) = Erl_List (decoded h) (decoded t)"
| "decoded Erl_EmptyList = Erl_EmptyList"
| "decoded (Erl_Tuple es) = Erl_Tuple (map decoded es)"
| "decoded (Erl_Binary b) = Erl_Binary b"
| "decoded (Erl_Variable s v) = Erl_Variable s v"
| "decoded (Erl_Big b) = Erl_Big b"
| "decoded (Erl_Function arity md5 new_index creator module index uniq closure) =
     Erl_Function arity (if arity = - 1 then replicate 16 0 else md5) (if arity = - 1 then 0 else new_index)
       (map_option decoded creator) (map_option decoded module) (map_option decoded index) (map_option decoded uniq)
       (map (map_option decoded) closure)"

text \<open>\<open>sscanf\<close> reads what \<open>sprintf\<close> wrote.\<close>

definition scan_reads :: "(byte list \<Rightarrow> int \<Rightarrow> 64 word option) \<Rightarrow> 64 word \<Rightarrow> bool" where
  "scan_reads scan d \<longleftrightarrow> (\<forall>buf i. at_off buf i (show_e d @ [0]) \<longrightarrow> scan buf i = Some d)"

text \<open>
  Terms that can be read back: no NUL in a name, lists that the length field can count, tuples whose
  array of pointers has a size of type \<open>int\<close>, floats that \<open>scan\<close> reads, and an arity of one octet.
\<close>

primrec readable :: "(byte list \<Rightarrow> int \<Rightarrow> 64 word option) \<Rightarrow> ETERM \<Rightarrow> bool" where
  "readable scan (Erl_Integer i) = True"
| "readable scan (Erl_Uinteger i) = True"
| "readable scan (Erl_LLInteger i) = True"
| "readable scan (Erl_ULLInteger i) = True"
| "readable scan (Erl_Float d) = scan_reads scan d"
| "readable scan (Erl_Atom a) = (0 \<notin> set (utf8_name a))"
| "readable scan (Erl_Pid node number serial c) = (0 \<notin> set (utf8_name node))"
| "readable scan (Erl_Port node number c) = (0 \<notin> set (utf8_name node))"
| "readable scan (Erl_Ref node len n c) = (0 \<notin> set (utf8_name node))"
| "readable scan (Erl_List h t) = (readable scan h \<and> readable scan t \<and> int (length (list_heads t)) < 2 ^ 31 - 1)"
| "readable scan Erl_EmptyList = True"
| "readable scan (Erl_Tuple es) = (int (length es) < 2 ^ 28 - 1 \<and> list_all (readable scan) es)"
| "readable scan (Erl_Binary b) = True"
| "readable scan (Erl_Variable s v) = False"
| "readable scan (Erl_Big b) = False"
| "readable scan (Erl_Function arity md5 new_index creator module index uniq closure) =
     ((arity = - 1 \<or> uint arity < 256) \<and> pred_option (readable scan) creator \<and> pred_option (readable scan) module
      \<and> pred_option (readable scan) index \<and> pred_option (readable scan) uniq \<and> list_all (pred_option (readable scan)) closure)"

section \<open>Names\<close>

lemma atom_bytes_cases:
  assumes "atom_ok a"
  shows "length (utf8_name a) \<le> 1020"
    "atom_bytes a = byte_of ERL_ATOM_UTF8_EXT # be16 (int (length (utf8_name a))) @ utf8_name a
     \<or> length (utf8_name a) < 256 \<and> atom_bytes a = byte_of ERL_SMALL_ATOM_UTF8_EXT # byte_of (int (length (utf8_name a))) # utf8_name a"
proof -
  have "length (utf8_name a) \<le> 1020
    \<and> (atom_bytes a = byte_of ERL_ATOM_UTF8_EXT # be16 (int (length (utf8_name a))) @ utf8_name a
     \<or> length (utf8_name a) < 256 \<and> atom_bytes a = byte_of ERL_SMALL_ATOM_UTF8_EXT # byte_of (int (length (utf8_name a))) # utf8_name a)"
  proof (cases "a_latin1 a")
    case None
    then have "good_name (utf8_name a)" using assms by (auto simp: atom_ok_def utf8_name_def split: option.splits)
    then show ?thesis using good_name_length [of "utf8_name a"] None
      by (auto simp: atom_bytes_def utf8_name_def etf_atom_utf8_def)
  next
    case (Some s)
    then have "length (take (nat (a_lenL a)) s) < 256" using assms by (auto simp: atom_ok_def)
    then show ?thesis using Some length_latin1_utf8 [of "take (nat (a_lenL a)) s"]
      by (auto simp: atom_bytes_def utf8_name_def etf_atom_latin1_def Let_def)
  qed
  then show "length (utf8_name a) \<le> 1020"
    "atom_bytes a = byte_of ERL_ATOM_UTF8_EXT # be16 (int (length (utf8_name a))) @ utf8_name a
     \<or> length (utf8_name a) < 256 \<and> atom_bytes a = byte_of ERL_SMALL_ATOM_UTF8_EXT # byte_of (int (length (utf8_name a))) # utf8_name a"
    by auto
qed

lemma read_atom_at:
  assumes "atom_ok a" "0 \<notin> set (utf8_name a)" "at_off buf i (atom_bytes a)"
  shows "read_atom buf i = Ok (decoded_atom a, i + int (length (atom_bytes a)))"
proof -
  define u arr where "u = utf8_name a" and "arr = replicate 1021 (0 :: byte)"
  have l: "length u \<le> 1020" "length arr = 1021" using atom_bytes_cases(1) [OF assms(1)] by (simp_all add: u_def arr_def)
  obtain k where k: "atom_header buf i = Ok ((int (length u), ERLANG_UTF8), i + k)" "at_off buf (i + k) u"
    "i + int (length (atom_bytes a)) = i + k + int (length u)"
    using atom_bytes_cases(2) [OF assms(1), folded u_def]
  proof
    assume b: "atom_bytes a = byte_of ERL_ATOM_UTF8_EXT # be16 (int (length u)) @ u"
    show thesis
      using that [of 3] atom_header_long [of buf i "int (length u)" u] assms(3) l(1) unfolding b by simp
  next
    assume b: "length u < 256 \<and> atom_bytes a = byte_of ERL_SMALL_ATOM_UTF8_EXT # byte_of (int (length u)) # u"
    show thesis
      using that [of 2] atom_header_short [of buf i "int (length u)" u] assms(3) b unfolding conjunct2 [OF b] by simp
  qed
  have "at_off buf (i + k + 0) u" using k(2) by simp
  note c = copy_atom_wrs [OF this, of "Some arr" False]
  have r: "room (Some arr) (int (length u) + 1)" using l by (simp add: room_def)
  have d: "ei_decode_atom_as buf i (Some arr) MAXATOMLEN_UTF8 (ERLANG_LATIN1 OR ERLANG_UTF8)
    = Ok ((stored_name (Some arr) u, ERLANG_UTF8, if non_ascii u then ERLANG_UTF8 else ERLANG_ASCII), i + k + int (length u))"
    using l(1) by (simp add: ei_decode_atom_as_def k(1) c Let_def put_name [OF r, simplified])
  define b where "b = u @ 0 # drop (Suc (length u)) arr"
  have "takeWhile (\<lambda>c. c \<noteq> 0) b = u"
    unfolding b_def by (subst takeWhile_append2) (use assms(2) in \<open>auto simp: u_def\<close>)
  then have s: "strlen b = length u" "take (length u) b = u" by (simp_all add: strlen_def b_def)
  have "stored_name (Some arr) u = Some b" by (simp add: stored_name_def b_def)
  then show ?thesis using s
    unfolding read_atom_def arr_def [symmetric] d
    by (simp add: decoded_atom_def u_def [symmetric] k(3) Let_def)
qed

section \<open>Numbers\<close>

lemma read_word_at: "at_off buf i (be32 n) \<Longrightarrow> read_word buf i = Ok (word_of_int n, i + 4)"
  using word32_signed [of n] by (simp add: read_word_def get32be_at word32_def)

lemma tag_at:
  assumes "at_off buf i (byte_of t # bs)" "0 \<le> t" "t < 256"
  shows "get8 buf i = Ok (t, i + 1)" "at_off buf (i + 1) bs"
  using get8_at [OF assms(1)] assms by simp_all

lemma decode_int_at:
  assumes "at_off buf i (int_bytes n)" "- (2 ^ 31) \<le> n" "n < 2 ^ 31"
  shows "decode_step scan buf f i = Some (Ok (Erl_Integer (word_of_int n), i + int (length (int_bytes n))))"
proof (cases "0 \<le> n \<and> n < 256")
  case True
  then have b: "at_off buf i (byte_of ERL_SMALL_INTEGER_EXT # [byte_of n])" using assms(1) by (simp add: int_bytes_def)
  note g = get8_at [OF tag_at(2) [OF b]]
  show ?thesis using True by (simp add: decode_step_def int_bytes_def tag_at [OF b] g)
next
  case False
  then have "int_bytes n = byte_of ERL_INTEGER_EXT # be32 n" by (auto simp: int_bytes_def)
  note b = assms(1) [unfolded this] and e = this
  note r = read_word_at [OF tag_at(2) [OF b]]
  show ?thesis unfolding e by (simp add: decode_step_def tag_at [OF b] r)
qed

lemma or_octets_map:
  "or_octets (map (\<lambda>i. ucast (drop_bit (8 * i) l)) [k..<k + m]) k
    = push_bit (8 * k) (take_bit (8 * m) (drop_bit (8 * k) (l :: 'a::len word)))"
proof (induction m arbitrary: k)
  case (Suc m)
  have "[k..<k + Suc m] = k # [Suc k..<Suc k + m]" by (simp add: upt_rec)
  moreover have "push_bit (8 * k) (ucast (ucast (drop_bit (8 * k) l) :: byte)) OR
      push_bit (8 * Suc k) (take_bit (8 * m) (drop_bit (8 * Suc k) l)) = push_bit (8 * k) (take_bit (8 * Suc m) (drop_bit (8 * k) l))"
  proof (rule bit_word_eqI)
    fix n :: nat
    show "bit (push_bit (8 * k) (ucast (ucast (drop_bit (8 * k) l) :: byte)) OR
        push_bit (8 * Suc k) (take_bit (8 * m) (drop_bit (8 * Suc k) l))) n
      = bit (push_bit (8 * k) (take_bit (8 * Suc m) (drop_bit (8 * k) l)) :: 'a word) n"
      by (cases "8 + 8 * k \<le> n") (auto simp: bit_simps)
  qed
  ultimately show ?case using Suc.IH [of "Suc k"] by simp
qed simp

lemma or_octets_eight: "or_octets (eight_bytes l) 0 = l"
proof -
  have "take_bit 64 l = l" by (rule bit_word_eqI) (simp add: bit_simps)
  moreover have "[0..<8] = [0, 1, 2, 3, 4, 5, 6, 7 :: nat]" by (simp add: upt_rec)
  ultimately show ?thesis using or_octets_map [of l 0 8] by (simp add: eight_bytes_def)
qed

definition four_bytes :: "32 word \<Rightarrow> byte list" where
  "four_bytes u = [ucast u, ucast (drop_bit 8 u), ucast (drop_bit 16 u), ucast (drop_bit 24 u)]"

lemma or_octets_four: "or_octets (four_bytes u) 0 = u"
proof -
  have "take_bit 32 u = u" by (rule bit_word_eqI) (simp add: bit_simps)
  moreover have "[0..<4] = [0, 1, 2, 3 :: nat]" by (simp add: upt_rec)
  ultimately show ?thesis using or_octets_map [of u 0 4] by (simp add: four_bytes_def)
qed

lemma top_bit: "(w AND 0x80 \<noteq> 0) = bit (w :: byte) 7"
proof -
  have "bit w 7 = (w AND push_bit 7 1 \<noteq> 0)" by (simp add: bit_iff_and_push_bit_not_eq_0)
  then show ?thesis by (simp add: push_bit_of_1)
qed

lemma top_bit_32: "four_bytes u ! 3 AND 0x80 \<noteq> 0 \<longleftrightarrow> \<not> uint u < 2 ^ 31"
proof -
  have "four_bytes u ! 3 AND 0x80 \<noteq> 0 \<longleftrightarrow> bit u 31" by (simp only: top_bit) (simp add: four_bytes_def bit_simps)
  then show ?thesis using bit_last_iff [of u] sint_32_neg [of u] by simp
qed

lemma top_bit_64: "eight_bytes l ! 7 AND 0x80 \<noteq> 0 \<longleftrightarrow> 2 ^ 63 \<le> uint l"
proof -
  have "eight_bytes l ! 7 AND 0x80 \<noteq> 0 \<longleftrightarrow> bit l 63" by (simp only: top_bit) (simp add: eight_bytes_def bit_simps)
  moreover have "bit l 63 \<longleftrightarrow> sint l < 0" using bit_last_iff [of l] by simp
  moreover have "sint l < 0 \<longleftrightarrow> 2 ^ 63 \<le> uint l"
  proof (cases "sint l < 0")
    case True
    have "(sint l + 2 ^ 64) mod 2 ^ 64 = sint l + 2 ^ 64" using True sint64_range [of l] by (intro mod_pos_pos_trivial) simp_all
    moreover have "(sint l + 2 ^ 64) mod 2 ^ 64 = uint l" unfolding uint_sint_mod by simp
    ultimately have "uint l = sint l + 2 ^ 64" by linarith
    then show ?thesis using True sint64_range [of l] by simp
  next
    case False
    then show ?thesis using sint64_range [of l] by (simp add: uint_sint_mod mod_pos_pos_trivial)
  qed
  ultimately show ?thesis by simp
qed

lemma decode_big_at:
  assumes "at_off buf i (byte_of ERL_SMALL_BIG_EXT # byte_of n # sg # bs)" "0 \<le> n" "n < 256" "n = int (length bs)"
  shows "decode_step scan buf f i = Some (decode_big buf n (i + 2))" "rd buf (i + 2) = Ok sg" "at_off buf (i + 3) bs"
proof -
  note b = tag_at [OF assms(1)]
  note c = tag_at [OF b(2)]
  show "decode_step scan buf f i = Some (decode_big buf n (i + 2))"
    using assms(2,3) by (simp add: decode_step_def b c add.assoc)
  show "rd buf (i + 2) = Ok sg" "at_off buf (i + 3) bs"
    using at_off_rd [OF c(2)] c(2) assms(2,3) by (simp_all add: add.assoc)
qed

lemma decode_big_four:
  assumes "rd buf i = (Ok 0 :: (int, byte) res)" "rds buf (i + 1) 4 = (Ok bs :: (int, byte list) res)" "bs ! 3 AND 0x80 \<noteq> 0"
  shows "decode_big buf 4 i = Ok (Erl_Uinteger (or_octets bs 0), i + 1 + 4)"
  using assms(3) unfolding decode_big_def assms(1) bindr.simps Let_def assms(2) by simp

lemma decode_uint_at:
  assumes "at_off buf i (ext_bytes (Erl_Uinteger u))"
  shows "decode_step scan buf f i = Some (Ok (decoded (Erl_Uinteger u), i + int (length (ext_bytes (Erl_Uinteger u)))))"
proof (cases "uint u < 2 ^ 31")
  case True
  moreover have "- (2 ^ 31) \<le> uint u" by (rule order_trans [OF _ uint_ge_0]) simp
  ultimately show ?thesis using assms decode_int_at [of buf i "uint u" scan f] by simp
next
  case False
  then have e: "ext_bytes (Erl_Uinteger u) = byte_of ERL_SMALL_BIG_EXT # byte_of 4 # 0 # four_bytes u"
    by (simp add: four_bytes_def byte_of_def)
  have n: "length (four_bytes u) = 4" by (simp add: four_bytes_def)
  have "decode_step scan buf f i = Some (decode_big buf 4 (i + 2))" and z: "rd buf (i + 2) = Ok 0" and o3: "at_off buf (i + 3) (four_bytes u)"
    by (rule decode_big_at [OF assms [unfolded e]]; simp add: n)+
  moreover have "decode_big buf 4 (i + 2) = Ok (Erl_Uinteger u, i + 2 + 1 + 4)"
  proof -
    have "rds buf (i + 2 + 1) 4 = Ok (four_bytes u)" using at_off_rds [OF o3] unfolding n by (simp add: add.assoc)
    from decode_big_four [OF z this] False show ?thesis unfolding top_bit_32 or_octets_four by blast
  qed
  ultimately show ?thesis using False by (simp add: e n del: ext_bytes.simps)
qed

lemma word_abs_64:
  assumes "- (2 ^ 63) \<le> n" "n < 0"
  shows "- word_of_int \<bar>n\<bar> = (word_of_int n :: 64 word)"
    "(word_of_int \<bar>n\<bar> :: 64 word) = 0x8000000000000000 \<Longrightarrow> word_of_int \<bar>n\<bar> = (word_of_int n :: 64 word)"
    "sint (word_of_int n :: 64 word) = n"
proof -
  show m: "- word_of_int \<bar>n\<bar> = (word_of_int n :: 64 word)" using assms by simp
  show "word_of_int \<bar>n\<bar> = (word_of_int n :: 64 word)" if "(word_of_int \<bar>n\<bar> :: 64 word) = 0x8000000000000000"
    using m unfolding that by simp
  show "sint (word_of_int n :: 64 word) = n" using assms by (simp add: signed_of_int signed_take_bit_int_eq_self)
qed

lemma decode_big_eight:
  assumes "rd buf i = (Ok sg :: (int, byte) res)" "rds buf (i + 1) 8 = (Ok bs :: (int, byte list) res)"
  shows "decode_big buf 8 i =
    (if bs ! 7 AND 0x80 \<noteq> 0 \<and> sg = 0 then Ok (Erl_ULLInteger (or_octets bs 0), i + 1 + 8)
     else let l = or_octets bs 0 :: 64 word
       in if sg \<noteq> 0 \<and> l \<noteq> 0x8000000000000000
          then if sint (- l) > 0 then big_truncate sg 8 (i + 1) else Ok (Erl_LLInteger (- l), i + 1 + 8)
          else Ok (Erl_LLInteger l, i + 1 + 8))"
proof -
  have "nat 8 = 8" "\<not> (8 :: int) < 8" "(8 :: int) = 4 \<longleftrightarrow> False" "(8 :: int) = 8 \<longleftrightarrow> True" by simp_all
  then show ?thesis
    unfolding decode_big_def decode_signed_def assms(1) bindr.simps Let_def
    by (simp only: assms(2) bindr.simps if_True if_False)
qed

lemma decode_long_at:
  assumes "at_off buf i (long_bytes n)" "- (2 ^ 63) \<le> n" "n < 2 ^ 64"
  shows "decode_step scan buf f i = Some (Ok (decoded_long n, i + int (length (long_bytes n))))"
proof (cases "- (2 ^ 31) \<le> n \<and> n < 2 ^ 31")
  case True
  then show ?thesis using assms(1) decode_int_at [of buf i n scan f] by (simp add: long_bytes_def decoded_long_def)
next
  case False
  define l :: "64 word" where "l = word_of_int \<bar>n\<bar>"
  define sg :: byte where "sg = (if n < 0 then 1 else 0)"
  have e: "long_bytes n = byte_of ERL_SMALL_BIG_EXT # byte_of 8 # sg # eight_bytes l"
    using False by (auto simp: long_bytes_def l_def sg_def byte_of_def)
  have n8: "length (eight_bytes l) = 8" by (simp add: eight_bytes_def)
  have d: "decode_step scan buf f i = Some (decode_big buf 8 (i + 2))" and rd: "rd buf (i + 2) = Ok sg"
    and o3: "at_off buf (i + 3) (eight_bytes l)"
    by (rule decode_big_at [OF assms(1) [unfolded e]]; simp add: n8)+
  have r: "rds buf (i + 2 + 1) 8 = Ok (eight_bytes l)" using at_off_rds [OF o3] unfolding n8 by (simp add: add.assoc)
  have big: "decode_big buf 8 (i + 2) =
      (if 2 ^ 63 \<le> uint l \<and> sg = 0 then Ok (Erl_ULLInteger l, i + 11)
       else if sg \<noteq> 0 \<and> l \<noteq> 0x8000000000000000
       then if sint (- l) > 0 then big_truncate sg 8 (i + 3) else Ok (Erl_LLInteger (- l), i + 11)
       else Ok (Erl_LLInteger l, i + 11))"
    unfolding decode_big_eight [OF rd r] top_bit_64 or_octets_eight Let_def by (simp only: add.assoc) simp
  have len: "int (length (long_bytes n)) = 11" by (simp add: e n8)
  show ?thesis
  proof (cases "n < 0")
    case True
    note w = word_abs_64 [OF assms(2) True]
    have sgv: "sg = 1" using True by (simp add: sg_def)
    have "decode_big buf 8 (i + 2) = Ok (Erl_LLInteger (word_of_int n), i + 11)"
      using w True unfolding big sgv by (auto simp: l_def)
    then show ?thesis using True False d len by (auto simp: decoded_long_def)
  next
    case False
    then have u: "uint l = n" using assms(3) by (simp add: l_def uint_word_of_int mod_pos_pos_trivial)
    have sgv: "sg = 0" using False by (simp add: sg_def)
    have lw: "l = word_of_int n" using False by (simp add: l_def)
    show ?thesis using False \<open>\<not> (- (2 ^ 31) \<le> n \<and> n < 2 ^ 31)\<close> d len unfolding big sgv u
      by (auto simp: decoded_long_def lw)
  qed
qed

section \<open>Identifiers and flat data\<close>

lemma decode_atom_at:
  assumes "atom_ok a" "0 \<notin> set (utf8_name a)" "at_off buf i (atom_bytes a)"
  shows "decode_step scan buf f i = Some (Ok (Erl_Atom (decoded_atom a), i + int (length (atom_bytes a))))"
proof -
  obtain t bs where t: "atom_bytes a = byte_of t # bs" "t = ERL_ATOM_UTF8_EXT \<or> t = ERL_SMALL_ATOM_UTF8_EXT"
    using atom_bytes_cases(2) [OF assms(1)] by blast
  then have "0 \<le> t" "t < 256" by auto
  note g = tag_at(1) [OF assms(3) [unfolded t(1)] this]
  show ?thesis using t(2) by (auto simp: decode_step_def g read_atom_at [OF assms])
qed

lemma read_creation_at:
  "at_off buf i (creation_bytes c) \<Longrightarrow> read_creation buf (c \<le> 3) i = Ok (c, i + int (length (creation_bytes c)))"
proof (cases "c \<le> 3")
  case True
  assume "at_off buf i (creation_bytes c)"
  then have "at_off buf i [ucast c]" using True by (simp add: creation_bytes_def)
  note g = get8_at [OF this]
  have "uint c < 256" using True by (simp add: word_le_def)
  then have "word_of_int (uint (ucast c :: byte)) = c"
    by (simp add: unsigned_ucast_eq take_bit_int_eq_self)
  then show ?thesis using True by (simp add: read_creation_def g creation_bytes_def)
next
  case False
  assume "at_off buf i (creation_bytes c)"
  then have "at_off buf i (be32 (uint c))" using False by (simp add: creation_bytes_def)
  note g = read_word_at [OF this]
  show ?thesis using False by (simp add: read_creation_def g creation_bytes_def)
qed

lemma tag_for_at:
  assumes "at_off buf i (tag_for c short long # bs)" "0 \<le> short" "short < 256" "0 \<le> long" "long < 256"
  shows "get8 buf i = Ok (if c \<le> 3 then short else long, i + 1)" "at_off buf (i + 1) bs"
  by (rule tag_at [OF assms(1) [unfolded tag_for_def]]; use assms(2-) in simp)+

lemma decode_pid_at:
  assumes "atom_ok node" "0 \<notin> set (utf8_name node)" "at_off buf i (ext_bytes (Erl_Pid node number serial c))"
  shows "decode_step scan buf f i
    = Some (Ok (decoded (Erl_Pid node number serial c), i + int (length (ext_bytes (Erl_Pid node number serial c)))))"
proof -
  note b = tag_for_at [OF assms(3) [unfolded ext_bytes.simps]]
  have o: "at_off buf (i + 1) (atom_bytes node)"
    "at_off buf (i + 1 + int (length (atom_bytes node))) (be32 (uint number))"
    "at_off buf (i + 1 + int (length (atom_bytes node)) + 4) (be32 (uint serial))"
    "at_off buf (i + 1 + int (length (atom_bytes node)) + 4 + 4) (creation_bytes c)"
    using b(2) by (simp_all add: at_off_append)
  note r = read_atom_at [OF assms(1,2) o(1)] read_word_at [OF o(2)] read_word_at [OF o(3)] read_creation_at [OF o(4)]
  have d: "decode_pid buf (c \<le> 3) (i + 1)
    = Ok (decoded (Erl_Pid node number serial c), i + 1 + int (length (atom_bytes node)) + 4 + 4 + int (length (creation_bytes c)))"
    unfolding decode_pid_def r bindr.simps prod.case by simp
  have "decode_step scan buf f i = Some (decode_pid buf (c \<le> 3) (i + 1))"
    by (cases "c \<le> 3") (simp_all add: decode_step_def b)
  then show ?thesis unfolding d by simp
qed

lemma decode_port_at:
  assumes "atom_ok node" "0 \<notin> set (utf8_name node)" "at_off buf i (ext_bytes (Erl_Port node number c))"
  shows "decode_step scan buf f i
    = Some (Ok (decoded (Erl_Port node number c), i + int (length (ext_bytes (Erl_Port node number c)))))"
proof -
  note b = tag_for_at [OF assms(3) [unfolded ext_bytes.simps]]
  have o: "at_off buf (i + 1) (atom_bytes node)"
    "at_off buf (i + 1 + int (length (atom_bytes node))) (be32 (uint number))"
    "at_off buf (i + 1 + int (length (atom_bytes node)) + 4) (creation_bytes c)"
    using b(2) by (simp_all add: at_off_append)
  note r = read_atom_at [OF assms(1,2) o(1)] read_word_at [OF o(2)] read_creation_at [OF o(3)]
  have d: "decode_port buf (c \<le> 3) (i + 1)
    = Ok (decoded (Erl_Port node number c), i + 1 + int (length (atom_bytes node)) + 4 + int (length (creation_bytes c)))"
    unfolding decode_port_def r bindr.simps prod.case by simp
  have "decode_step scan buf f i = Some (decode_port buf (c \<le> 3) (i + 1))"
    by (cases "c \<le> 3") (simp_all add: decode_step_def b)
  then show ?thesis unfolding d by simp
qed

lemma read_ref_numbers_at:
  "at_off buf i (concat (map (\<lambda>w. be32 (uint w)) ws)) \<Longrightarrow> length xs + length ws \<le> length n \<Longrightarrow> take (length xs) n = xs \<Longrightarrow>
   read_ref_numbers buf (length xs) (length ws) n i
     = Ok (xs @ ws @ drop (length xs + length ws) n, i + 4 * int (length ws))"
proof (induction ws arbitrary: xs n i)
  case Nil
  then show ?case using append_take_drop_id [of "length xs" n] by simp
next
  case (Cons w ws)
  have o: "at_off buf i (be32 (uint w))" "at_off buf (i + 4) (concat (map (\<lambda>w. be32 (uint w)) ws))"
    using Cons.prems(1) by (simp_all add: at_off_append)
  have "take (length xs) (n[length xs := w]) = xs" using Cons.prems(3) by simp
  then have t: "take (length (xs @ [w])) (n[length xs := w]) = xs @ [w]"
    using Cons.prems(2) by (simp add: take_Suc_conv_app_nth)
  have "read_ref_numbers buf (length (xs @ [w])) (length ws) (n[length xs := w]) (i + 4)
    = Ok ((xs @ [w]) @ ws @ drop (length (xs @ [w]) + length ws) (n[length xs := w]), i + 4 + 4 * int (length ws))"
    by (rule Cons.IH [OF o(2) _ t]) (use Cons.prems(2) in simp)
  then show ?case using Cons.prems(2) by (simp add: read_word_at [OF o(1)] drop_update_cancel)
qed

lemma decode_ref_at:
  assumes "atom_ok node" "0 \<notin> set (utf8_name node)" "0 \<le> len" "len \<le> 3" "length n = 3"
    "at_off buf i (ext_bytes (Erl_Ref node len n c))"
  shows "decode_step scan buf f i
    = Some (Ok (decoded (Erl_Ref node len n c), i + int (length (ext_bytes (Erl_Ref node len n c)))))"
proof -
  note b = tag_for_at [OF assms(6) [unfolded ext_bytes.simps]]
  define ws where "ws = take (nat len) n"
  have l: "length ws = nat len" using assms(4,5) by (simp add: ws_def)
  have o: "at_off buf (i + 1) (be16 len)" "at_off buf (i + 1 + 2) (atom_bytes node)"
    "at_off buf (i + 1 + 2 + int (length (atom_bytes node))) (creation_bytes c)"
    "at_off buf (i + 1 + 2 + int (length (atom_bytes node)) + int (length (creation_bytes c))) (concat (map (\<lambda>w. be32 (uint w)) ws))"
    using b(2) by (simp_all add: at_off_append ws_def add.assoc)
  have g: "(get16be buf (i + 1) :: int udec) = Ok (len, i + 1 + 2)" using get16be_at [OF o(1)] assms(3,4) by simp
  have "nat len \<le> 3" using assms(4) by simp
  then have dr: "drop (nat len) [0, 0, 0 :: 32 word] = replicate (3 - nat len) 0"
    by (auto simp: le_Suc_eq numeral_3_eq_3)
  have rn: "read_ref_numbers buf 0 (nat len) [0, 0, 0] (i + 1 + 2 + int (length (atom_bytes node)) + int (length (creation_bytes c)))
    = Ok (kept_numbers len n, i + 1 + 2 + int (length (atom_bytes node)) + int (length (creation_bytes c)) + 4 * len)"
    using read_ref_numbers_at [OF o(4), of "[]" "[0, 0, 0]"] l dr \<open>nat len \<le> 3\<close> assms(3) by (simp add: kept_numbers_def ws_def)
  note r = read_atom_at [OF assms(1,2) o(2)] read_creation_at [OF o(3)]
  have d: "decode_ref buf (c \<le> 3) (i + 1) = Ok (decoded (Erl_Ref node len n c),
      i + 1 + 2 + int (length (atom_bytes node)) + int (length (creation_bytes c)) + 4 * len)"
    unfolding decode_ref_def g r rn bindr.simps prod.case by simp
  have "decode_step scan buf f i = Some (decode_ref buf (c \<le> 3) (i + 1))"
    by (cases "c \<le> 3") (simp_all add: decode_step_def b)
  then show ?thesis unfolding d using l assms(3) by (simp add: length_ref_numbers ws_def [symmetric])
qed

lemma decode_float_at:
  assumes "scan_reads scan d" "at_off buf i (float_bytes d)"
  shows "decode_step scan buf f i = Some (Ok (Erl_Float d, i + int (length (float_bytes d))))"
proof -
  note b = tag_at [OF assms(2) [unfolded float_bytes_def]]
  have "replicate (31 - length (show_e d)) 0 = 0 # replicate (30 - length (show_e d)) (0 :: byte)"
    using length_show_e [of d] by (simp add: Suc_diff_le flip: replicate_Suc)
  then have "at_off buf (i + 1) (show_e d @ [0])" using b(2) by (simp add: at_off_append)
  then have s: "scan buf (i + 1) = Some d" using assms(1) by (simp add: scan_reads_def)
  show ?thesis
    by (simp add: decode_step_def b(1) decode_float_def ei_decode_double_def s lift_err_def length_float_bytes)
qed

lemma decode_binary_at:
  assumes "int (length bs) < 2 ^ 31" "at_off buf i (ext_bytes (Erl_Binary bs))"
  shows "decode_step scan buf f i = Some (Ok (Erl_Binary bs, i + int (length (ext_bytes (Erl_Binary bs)))))"
proof -
  note b = tag_at [OF assms(2) [unfolded ext_bytes.simps]]
  have o: "at_off buf (i + 1) (be32 (int (length bs)))" "at_off buf (i + 1 + 4) bs"
    using b(2) by (simp_all add: at_off_append)
  have g: "(get32be buf (i + 1) :: int udec) = Ok (int (length bs), i + 1 + 4)"
    using get32be_at [OF o(1)] assms(1) by (simp add: signed_take_bit_int_eq_self)
  note r = at_off_rds [OF o(2)]
  have "decode_binary buf (i + 1) = Ok (Erl_Binary bs, i + 1 + 4 + int (length bs))"
    unfolding decode_binary_def g bindr.simps prod.case nat_int r by simp
  then show ?thesis by (simp add: decode_step_def b(1))
qed

section \<open>Compound terms\<close>

text \<open>\<open>f\<close> reads \<open>e\<close> wherever its bytes are.\<close>

definition reads :: "decoder \<Rightarrow> byte list \<Rightarrow> ETERM \<Rightarrow> bool" where
  "reads f buf e \<longleftrightarrow>
     (\<forall>p. at_off buf p (ext_bytes e) \<longrightarrow> f p = Some (Ok (decoded e, p + int (length (ext_bytes e)))))"

lemma decode_elems_at:
  "(\<And>e. e \<in> set es \<Longrightarrow> reads f buf e) \<Longrightarrow> at_off buf p (concat (map ext_bytes es)) \<Longrightarrow>
   decode_elems f (length es) p = Some (Ok (map decoded es, p + int (length (concat (map ext_bytes es)))))"
proof (induction es arbitrary: p)
  case (Cons e es)
  have o: "at_off buf p (ext_bytes e)" "at_off buf (p + int (length (ext_bytes e))) (concat (map ext_bytes es))"
    using Cons.prems(2) by (simp_all add: at_off_append)
  have "f p = Some (Ok (decoded e, p + int (length (ext_bytes e))))"
    using Cons.prems(1) o(1) by (simp add: reads_def)
  moreover have "decode_elems f (length es) (p + int (length (ext_bytes e)))
    = Some (Ok (map decoded es, p + int (length (ext_bytes e)) + int (length (concat (map ext_bytes es)))))"
    using Cons.IH [OF _ o(2)] Cons.prems(1) by simp
  ultimately show ?case by simp
qed simp

lemma decode_ptrs_at:
  "(\<And>e. Some e \<in> set es \<Longrightarrow> reads f buf e) \<Longrightarrow> None \<notin> set es \<Longrightarrow> at_off buf p (ptr_bytes ext_bytes es) \<Longrightarrow>
   decode_ptrs f (length es) p = Some (Ok (map (map_option decoded) es, p + int (length (ptr_bytes ext_bytes es))))"
proof (induction es arbitrary: p)
  case (Cons x es)
  obtain e where x: "x = Some e" using Cons.prems(2) by (cases x) auto
  have o: "at_off buf p (ext_bytes e)" "at_off buf (p + int (length (ext_bytes e))) (ptr_bytes ext_bytes es)"
    using Cons.prems(3) x by (simp_all add: at_off_append)
  have "f p = Some (Ok (decoded e, p + int (length (ext_bytes e))))"
    using Cons.prems(1) o(1) x by (simp add: reads_def)
  moreover have "decode_ptrs f (length es) (p + int (length (ext_bytes e)))
    = Some (Ok (map (map_option decoded) es, p + int (length (ext_bytes e)) + int (length (ptr_bytes ext_bytes es))))"
    using Cons.IH [OF _ _ o(2)] Cons.prems(1,2) by simp
  ultimately show ?case using x by simp
qed simp

lemma get32be_count:
  assumes "at_off buf i (be32 (int n))" "int n < 2 ^ 31"
  shows "get32be buf i = Ok (int n, i + 4)"
  using get32be_at [OF assms(1)] assms(2) by (simp add: signed_take_bit_int_eq_self)

lemma decode_tuple_at:
  assumes "\<And>e. e \<in> set es \<Longrightarrow> reads f buf e" "int (length es) < 2 ^ 28 - 1" "at_off buf i (ext_bytes (Erl_Tuple es))"
  shows "decode_step scan buf f i = Some (Ok (decoded (Erl_Tuple es), i + int (length (ext_bytes (Erl_Tuple es)))))"
proof -
  have l: "int (length es) < 2 ^ 31" using assms(2) by simp
  define n where "n = int (length (tuple_header (int (length es))))"
  have o: "at_off buf i (tuple_header (int (length es)))" "at_off buf (i + n) (concat (map ext_bytes es))"
    using assms(3) by (simp_all add: at_off_append n_def)
  have "decode_step scan buf f i = decode_tuple f (int (length es)) (i + n)"
  proof (cases "int (length es) \<le> 255")
    case True
    then have h: "tuple_header (int (length es)) = byte_of ERL_SMALL_TUPLE_EXT # [byte_of (int (length es))]"
      by (simp add: tuple_header_def)
    note b = tag_at [OF o(1) [unfolded h]]
    note g = tag_at(1) [OF b(2)]
    show ?thesis using True by (simp add: decode_step_def b(1) g n_def h) (simp add: add.commute)
  next
    case False
    then have h: "tuple_header (int (length es)) = byte_of ERL_LARGE_TUPLE_EXT # be32 (int (length es))"
      by (simp add: tuple_header_def)
    note b = tag_at [OF o(1) [unfolded h]]
    have "at_off buf (i + 1) (be32 (int (length es)))" by (rule b(2)) simp_all
    note g = get32be_count [OF this l]
    show ?thesis by (simp add: decode_step_def b(1) g n_def h) (simp add: add.commute)
  qed
  moreover have "decode_tuple f (int (length es)) (i + n)
    = Some (Ok (decoded (Erl_Tuple es), i + n + int (length (concat (map ext_bytes es)))))"
  proof -
    have w: "sint (word_of_int m :: 32 word) = m" if "0 \<le> m" "m < 2 ^ 31" for m
      using that by (simp add: signed_of_int signed_take_bit_int_eq_self)
    have "sint (word_of_int ((int (length es) + 1) * 8) :: 32 word) = (int (length es) + 1) * 8"
      by (rule w) (use assms(2) in simp_all)
    then show ?thesis
      using decode_elems_at [OF assms(1) o(2)] assms(2)
      by (simp add: decode_tuple_def Let_def del: of_int_add of_int_mult)
  qed
  ultimately show ?thesis by (simp add: n_def)
qed

lemma decoded_list: "foldr Erl_List (map decoded (list_heads t)) (decoded (list_last t)) = decoded t"
  by (induction t) auto

lemma decode_string_list:
  "\<forall>e \<in> set es. \<exists>i. e = Erl_Integer i \<and> i \<le> 255 \<Longrightarrow>
   foldr (\<lambda>b t. Erl_List (Erl_Integer (ucast b)) t) (map low_byte es) r = foldr Erl_List (map decoded es) r"
proof (induction es)
  case (Cons e es)
  then obtain i where i: "e = Erl_Integer i" "i \<le> 255" by auto
  have "uint i < 256" using i(2) by (simp add: word_le_def)
  then have "ucast (ucast i :: byte) = i"
    by (intro word_uint_eqI) (simp add: unsigned_ucast_eq unsigned_take_bit_eq take_bit_int_eq_self)
  then show ?case using Cons i by simp
qed simp

lemma decode_list_at:
  assumes "\<And>e. e \<in> set (list_heads (Erl_List h t)) \<Longrightarrow> reads f buf e" "reads f buf (list_last t)"
    "int (length (list_heads (Erl_List h t))) < 2 ^ 31" "at_off buf i (ext_bytes (Erl_List h t))"
  shows "decode_step scan buf f i = Some (Ok (decoded (Erl_List h t), i + int (length (ext_bytes (Erl_List h t)))))"
proof (cases "0 < is_string (Erl_List h t) \<and> is_string (Erl_List h t) < 0x10000")
  case True
  define hs where "hs = list_heads (Erl_List h t)"
  note str = is_stringD [OF conjunct1 [OF True]]
  have n: "int (length hs) < 0x10000" "is_string (Erl_List h t) = int (length hs)" using True str(1) by (simp_all add: hs_def)
  have e: "ext_bytes (Erl_List h t) = byte_of ERL_STRING_EXT # be16 (int (length hs)) @ map low_byte hs"
    using True n(2) by (simp add: Let_def hs_def del: list_heads.simps)
  note b = tag_at [OF assms(4) [unfolded e]]
  have o: "at_off buf (i + 1) (be16 (int (length hs)))" "at_off buf (i + 1 + 2) (map low_byte hs)"
    using b(2) by (simp_all add: at_off_append)
  have g: "(get16be buf (i + 1) :: int udec) = Ok (int (length hs), i + 1 + 2)"
    using get16be_at [OF o(1)] n(1) by simp
  note r = at_off_rds [OF o(2), unfolded length_map]
  have "foldr (\<lambda>b t. Erl_List (Erl_Integer (ucast b)) t) (map low_byte hs) Erl_EmptyList = decoded (Erl_List h t)"
    using decode_string_list [of hs Erl_EmptyList] str(3) str(2) decoded_list [of "Erl_List h t"] by (simp add: hs_def)
  then have "decode_string buf (i + 1) = Ok (decoded (Erl_List h t), i + 1 + 2 + int (length hs))"
    unfolding decode_string_def g bindr.simps prod.case nat_int r by simp
  then show ?thesis by (simp add: decode_step_def b(1) e del: decoded.simps ext_bytes.simps)
next
  case False
  define hs where "hs = list_heads (Erl_List h t)"
  have e: "ext_bytes (Erl_List h t)
    = byte_of ERL_LIST_EXT # be32 (int (length hs)) @ concat (map ext_bytes hs) @ ext_bytes (list_last t)"
    using False unfolding ext_bytes.simps Let_def hs_def by (simp only: if_False)
  have pos: "0 < length hs" by (simp add: hs_def)
  note b = tag_at [OF assms(4) [unfolded e]]
  have o: "at_off buf (i + 1) (be32 (int (length hs)))" "at_off buf (i + 1 + 4) (concat (map ext_bytes hs))"
    "at_off buf (i + 1 + 4 + int (length (concat (map ext_bytes hs)))) (ext_bytes (list_last t))"
    using b(2) by (simp_all add: at_off_append)
  note g = get32be_count [OF o(1) assms(3) [folded hs_def]]
  have es: "decode_elems f (length hs) (i + 1 + 4) = Some (Ok (map decoded hs, i + 1 + 4 + int (length (concat (map ext_bytes hs)))))"
    by (rule decode_elems_at [OF _ o(2)]) (use assms(1) in \<open>simp add: hs_def\<close>)
  have l: "f (i + 1 + 4 + int (length (concat (map ext_bytes hs))))
    = Some (Ok (decoded (list_last t), i + 1 + 4 + int (length (concat (map ext_bytes hs))) + int (length (ext_bytes (list_last t)))))"
    using assms(2) o(3) by (simp add: reads_def)
  have "\<not> int (length hs) \<le> 0" using pos by simp
  then have "decode_list f buf (i + 1) = Some (Ok (foldr Erl_List (map decoded hs) (decoded (list_last t)),
      i + 1 + 4 + int (length (concat (map ext_bytes hs))) + int (length (ext_bytes (list_last t)))))"
    unfolding decode_list_def g bindf.simps prod.case nat_int es l by (simp only: if_False)
  moreover have "foldr Erl_List (map decoded hs) (decoded (list_last t)) = decoded (Erl_List h t)"
    using decoded_list [of "Erl_List h t"] by (simp add: hs_def)
  ultimately show ?thesis by (simp add: decode_step_def b(1) e del: decoded.simps ext_bytes.simps)
qed

lemma decode_fun_at:
  fixes arity :: "32 word"
  assumes r: "\<And>e. Some e \<in> set ([creator, module, index, uniq] @ closure) \<Longrightarrow> reads f buf e"
    and s: "None \<notin> set ([creator, module, index, uniq] @ closure)" "int (length closure) < 2 ^ 31" "length md5 = 16"
      "arity = - 1 \<or> uint arity < 256"
    and o: "at_off buf i (ext_bytes (Erl_Function arity md5 new_index creator module index uniq closure))"
  shows "decode_step scan buf f i = Some (Ok (decoded (Erl_Function arity md5 new_index creator module index uniq closure),
    i + int (length (ext_bytes (Erl_Function arity md5 new_index creator module index uniq closure)))))"
proof -
  have p: "decode_ptrs f (length es) p = Some (Ok (map (map_option decoded) es, p + int (length (ptr_bytes ext_bytes es))))"
    if "at_off buf p (ptr_bytes ext_bytes es)" "set es \<subseteq> set ([creator, module, index, uniq] @ closure)" for p es
    by (rule decode_ptrs_at) (use r s(1) that in auto)
  show ?thesis
  proof (cases "arity = - 1")
    case True
    define ms where "ms = [creator, module, index, uniq]"
    have ms: "length ms = 4" "set ms \<subseteq> set ([creator, module, index, uniq] @ closure)" by (auto simp: ms_def)
    have e: "ext_bytes (Erl_Function arity md5 new_index creator module index uniq closure)
      = byte_of ERL_FUN_EXT # be32 (int (length closure)) @ ptr_bytes ext_bytes ms @ ptr_bytes ext_bytes closure"
      using True by (simp only: ext_bytes.simps Let_def ms_def ptr_bytes_append if_False simp_thms)
    note b = tag_at [OF o [unfolded e]]
    have o: "at_off buf (i + 1) (be32 (int (length closure)))" "at_off buf (i + 1 + 4) (ptr_bytes ext_bytes ms)"
      "at_off buf (i + 1 + 4 + int (length (ptr_bytes ext_bytes ms))) (ptr_bytes ext_bytes closure)"
      using b(2) by (simp_all add: at_off_append)
    note g = get32be_count [OF o(1) s(2)]
    have m4: "decode_ptrs f 4 (i + 1 + 4) = Some (Ok (map (map_option decoded) ms, i + 1 + 4 + int (length (ptr_bytes ext_bytes ms))))"
      using p [OF o(2) ms(2)] unfolding ms(1) .
    have "set closure \<subseteq> set ([creator, module, index, uniq] @ closure)" by auto
    note cl = p [OF o(3) this]
    have c: "\<not> int (length closure) < 0" by simp
    have "decode_fun_ext f buf (i + 1) = Some (Ok (decoded (Erl_Function arity md5 new_index creator module index uniq closure),
        i + 1 + 4 + int (length (ptr_bytes ext_bytes ms)) + int (length (ptr_bytes ext_bytes closure))))"
      using True unfolding decode_fun_ext_def g m4 bindf.simps prod.case nat_int if_not_P [OF c] cl by (simp add: ms_def)
    then show ?thesis by (simp add: decode_step_def b(1) e del: decoded.simps ext_bytes.simps)
  next
    case False
    define ms where "ms = [module, index, uniq, creator]"
    have ms: "length ms = 4" "set ms \<subseteq> set ([creator, module, index, uniq] @ closure)" by (auto simp: ms_def)
    define r where "r = ucast arity # md5 @ be32 (uint new_index) @ be32 (int (length closure))
      @ ptr_bytes ext_bytes ms @ ptr_bytes ext_bytes closure"
    have e: "ext_bytes (Erl_Function arity md5 new_index creator module index uniq closure)
      = byte_of ERL_NEW_FUN_EXT # be32 (int (length r) + 4) @ r"
      using False by (simp only: ext_bytes.simps Let_def r_def ms_def ptr_bytes_append append_assoc if_True not_False_eq_True)
    note b = tag_at [OF o [unfolded e]]
    have q: "at_off buf (i + 1) (be32 (int (length r) + 4))" "at_off buf (i + 1 + 4) r"
      using b(2) by (simp_all add: at_off_append)
    have o: "at_off buf (i + 1 + 4) [ucast arity]" "at_off buf (i + 1 + 4 + 1) md5"
      "at_off buf (i + 1 + 4 + 1 + 16) (be32 (uint new_index))"
      "at_off buf (i + 1 + 4 + 1 + 16 + 4) (be32 (int (length closure)))"
      "at_off buf (i + 1 + 4 + 1 + 16 + 4 + 4) (ptr_bytes ext_bytes ms)"
      "at_off buf (i + 1 + 4 + 1 + 16 + 4 + 4 + int (length (ptr_bytes ext_bytes ms))) (ptr_bytes ext_bytes closure)"
      using q(2) s(3) by (simp_all add: at_off_append r_def)
    have a: "word_of_int (uint (ucast arity :: byte)) = arity"
      using False s(4) by (simp add: unsigned_ucast_eq take_bit_int_eq_self)
    have m: "rds buf (i + 1 + 4 + 1) 16 = Ok md5" using at_off_rds [OF o(2)] unfolding s(3) .
    have m4: "decode_ptrs f 4 (i + 1 + 4 + 1 + 16 + 4 + 4)
      = Some (Ok (map (map_option decoded) ms, i + 1 + 4 + 1 + 16 + 4 + 4 + int (length (ptr_bytes ext_bytes ms))))"
      using p [OF o(5) ms(2)] unfolding ms(1) .
    note g = get32be_at [OF q(1)] get8_at [OF o(1)] m read_word_at [OF o(3)] get32be_count [OF o(4) s(2)]
    have "set closure \<subseteq> set ([creator, module, index, uniq] @ closure)" by auto
    note cl = p [OF o(6) this]
    have c: "\<not> int (length closure) < 0" by simp
    have "decode_new_fun_ext f buf (i + 1) = Some (Ok (decoded (Erl_Function arity md5 new_index creator module index uniq closure),
        i + 1 + 4 + 1 + 16 + 4 + 4 + int (length (ptr_bytes ext_bytes ms)) + int (length (ptr_bytes ext_bytes closure))))"
      using False unfolding decode_new_fun_ext_def g m4 bindf.simps prod.case nat_int a if_not_P [OF c] cl by (simp add: ms_def)
    then show ?thesis by (simp add: decode_step_def b(1) e r_def s(3) del: decoded.simps ext_bytes.simps)
  qed
qed

lemma readable_heads: "readable scan t \<Longrightarrow> list_all (readable scan) (list_heads t) \<and> readable scan (list_last t)"
  by (induction t) auto

lemma readable_length: "readable scan (Erl_List h t) \<Longrightarrow> int (length (list_heads (Erl_List h t))) < 2 ^ 31"
  by simp

theorem erl_decode_encode:
  "marshal_ok t \<Longrightarrow> readable scan t \<Longrightarrow> size t < d \<Longrightarrow> reads (erl_decode_it d scan buf) buf t"
proof (induction t arbitrary: d rule: measure_induct_rule [of size])
  case (less t)
  then obtain k where d: "d = Suc k" by (cases d) auto
  have IH: "reads (erl_decode_it k scan buf) buf e" if "size e < size t" "marshal_ok e" "readable scan e" for e
    using less.IH [OF that] that(1) less.prems(3) d by simp
  show ?case unfolding reads_def
  proof (intro allI impI)
    fix p
    assume o: "at_off buf p (ext_bytes t)"
    show "erl_decode_it d scan buf p = Some (Ok (decoded t, p + int (length (ext_bytes t))))"
    proof (cases t)
      case (Erl_List h r)
      have "reads (erl_decode_it k scan buf) buf e" if "e \<in> set (list_heads (Erl_List h r))" for e
        using that marshal_ok_heads [OF less.prems(1)] readable_heads [OF less.prems(2)] size_list_heads [of e t] Erl_List
        by (intro IH) (auto simp: list_all_iff)
      moreover have "reads (erl_decode_it k scan buf) buf (list_last r)"
        using marshal_ok_heads [OF less.prems(1)] readable_heads [OF less.prems(2)] size_list_last [of r] Erl_List
        by (intro IH) auto
      ultimately show ?thesis using readable_length [of scan h r] less.prems(2) o unfolding d Erl_List erl_decode_it.simps
        by (intro decode_list_at)
    next
      case (Erl_Tuple es)
      have "reads (erl_decode_it k scan buf) buf e" if "e \<in> set es" for e
        using that less.prems Erl_Tuple by (intro IH) (auto simp: list_all_iff less_Suc_eq_le size_member)
      then show ?thesis using less.prems(2) o unfolding d Erl_Tuple erl_decode_it.simps by (intro decode_tuple_at) simp_all
    next
      case (Erl_Function arity md5 new_index creator module index uniq closure)
      have "reads (erl_decode_it k scan buf) buf e" if "Some e \<in> set ([creator, module, index, uniq] @ closure)" for e
      proof (rule IH)
        show "size e < size t" using that Erl_Function
          by (auto simp: less_Suc_eq_le intro: trans_le_add2 size_member_option)
        show "marshal_ok e" using that less.prems(1) Erl_Function by (auto simp: list_all_iff)
        show "readable scan e" using that less.prems(2) Erl_Function by (auto simp: list_all_iff)
      qed
      moreover have "None \<notin> set ([creator, module, index, uniq] @ closure)" "int (length closure) < 2 ^ 31" "length md5 = 16"
        "arity = - 1 \<or> uint arity < 256"
        using less.prems(1,2) Erl_Function by auto
      ultimately show ?thesis using o unfolding d Erl_Function erl_decode_it.simps by (intro decode_fun_at)
    next
      case (Erl_Integer i)
      then show ?thesis using o decode_int_at [of buf p "sint i" scan "erl_decode_it k scan buf"] sint32_range [of i] by (simp add: d)
    next
      case (Erl_Uinteger u)
      then show ?thesis using o decode_uint_at [of buf p u scan "erl_decode_it k scan buf"] by (simp add: d)
    next
      case (Erl_LLInteger l)
      then show ?thesis using o decode_long_at [of buf p "sint l" scan "erl_decode_it k scan buf"] sint64_range [of l] by (simp add: d)
    next
      case (Erl_ULLInteger l)
      have "- (2 ^ 63) \<le> uint l" by (rule order_trans [OF _ uint_ge_0]) simp
      moreover have "uint l < 2 ^ 64" using uint_lt2p [of l] by simp
      ultimately show ?thesis using o Erl_ULLInteger decode_long_at [of buf p "uint l" scan "erl_decode_it k scan buf"] by (simp add: d)
    next
      case (Erl_Pid node number serial c)
      then show ?thesis using o less.prems(1,2) unfolding d Erl_Pid erl_decode_it.simps by (intro decode_pid_at) simp_all
    next
      case (Erl_Port node number c)
      then show ?thesis using o less.prems(1,2) unfolding d Erl_Port erl_decode_it.simps by (intro decode_port_at) simp_all
    next
      case (Erl_Ref node len n c)
      then show ?thesis using o less.prems(1,2) unfolding d Erl_Ref erl_decode_it.simps by (intro decode_ref_at) simp_all
    next
      case (Erl_Binary bs)
      then show ?thesis using o less.prems(1) unfolding d Erl_Binary erl_decode_it.simps decoded.simps by (intro decode_binary_at) simp_all
    next
      case (Erl_Float x)
      then show ?thesis using o less.prems(2) decode_float_at [of scan x buf p "erl_decode_it k scan buf"] by (simp add: d)
    next
      case (Erl_Atom a)
      then show ?thesis using o less.prems(1,2) decode_atom_at [of a buf p scan "erl_decode_it k scan buf"] by (simp add: d)
    next
      case Erl_EmptyList
      then have "at_off buf p [byte_of ERL_NIL_EXT]" using o by simp
      note g = tag_at(1) [OF this]
      show ?thesis using Erl_EmptyList by (simp add: d decode_step_def g)
    qed (use less.prems in simp_all)
  qed
qed

end
