(* ===== verification/Erl_Match.thy ===== *)
theory Erl_Match
  imports Erl_Term
begin

text \<open>
  Pattern matching of the older interface: \<open>erl_match\<close> of \<^verbatim>\<open>erl_format.c\<close>. Matching stores values in the
  variables of the pattern. The pattern is a tree whose variables are not shared; a variable is
  addressed by its path from the root. The chain of local variables holds, newest first, the path, the
  name and the value of every variable that was bound. The recursion depth is fuel. The Latin-1 name
  that \<open>erl_atom_ptr_latin1\<close> leaves in an identifier is not recorded.
\<close>

section \<open>Names\<close>

text \<open>
  \<open>cmp_latin1_vs_utf8\<close> of \<^verbatim>\<open>erl_marshal.c\<close>. For a character that is not ASCII the two octets are taken for a
  two-octet sequence also when the first one is ASCII.
\<close>

function cmp_latin1_loop :: "byte list \<Rightarrow> int \<Rightarrow> byte list \<Rightarrow> int \<Rightarrow> int \<Rightarrow> int \<Rightarrow> ('e, int) res" where
  "cmp_latin1_loop strL lenL strU lenU i j =
     (if i < lenL \<and> j < lenU
      then
        bindr (rd strL i) (\<lambda>l.
        bindr (rd strU j) (\<lambda>u.
        bindr (if l \<ge> 0x80
               then if u < 0xC4 \<and> j + 1 < lenU
                    then bindr (rd strU (j + 1)) (\<lambda>v. Ok (Some (push_bit 6 (u AND 3) OR (v AND 0x3F))))
                    else Ok None
               else Ok (Some u)) (\<lambda>r.
        case r of
          None \<Rightarrow> Ok (- 1)
        | Some x \<Rightarrow>
            if l < x then Ok (- 1)
            else if l > x then Ok 1
            else cmp_latin1_loop strL lenL strU lenU (i + 1)
                   (if u < 0x80 then j + 1 else if u < 0xE0 then j + 2 else if u < 0xF0 then j + 3 else j + 4))))
      else Ok ((if j \<ge> lenU then 1 else 0) - (if i \<ge> lenL then 1 else 0)))"
  by pat_completeness auto
termination by (relation "measure (\<lambda>(_, lenL, _, _, i, _). nat (lenL - i))") auto

declare cmp_latin1_loop.simps [simp del]

definition cmp_latin1_vs_utf8 :: "byte list \<Rightarrow> int \<Rightarrow> byte list \<Rightarrow> int \<Rightarrow> ('e, int) res" where
  "cmp_latin1_vs_utf8 strL lenL strU lenU = cmp_latin1_loop strL lenL strU lenU 0 0"

definition mem_eq :: "byte list \<Rightarrow> byte list \<Rightarrow> int \<Rightarrow> ('e, bool) res" where
  "mem_eq a b n = bindr (rds a 0 (nat n)) (\<lambda>x. bindr (rds b 0 (nat n)) (\<lambda>y. Ok (x = y)))"

definition match_atoms :: "Erl_Atom_data \<Rightarrow> Erl_Atom_data \<Rightarrow> (unit, bool) res" where
  "match_atoms pa ta =
     (case (a_utf8 pa, a_utf8 ta, a_latin1 pa, a_latin1 ta) of
        (Some pu, Some tu, _, _) \<Rightarrow> if a_lenU pa = a_lenU ta then mem_eq pu tu (a_lenU pa) else Ok False
      | (_, _, Some ps, Some ts) \<Rightarrow> if a_lenL pa = a_lenL ta then mem_eq ps ts (a_lenL pa) else Ok False
      | (_, Some tu, Some ps, _) \<Rightarrow> bindr (cmp_latin1_vs_utf8 ps (a_lenL pa) tu (a_lenU ta)) (\<lambda>r. Ok (r = 0))
      | (Some pu, _, _, Some ts) \<Rightarrow> bindr (cmp_latin1_vs_utf8 ts (a_lenL ta) pu (a_lenU pa)) (\<lambda>r. Ok (r = 0))
      | _ \<Rightarrow> Fault)"

text \<open>\<open>strcmp\<close> of two node names, which must have a Latin-1 form.\<close>

definition same_node :: "Erl_Atom_data \<Rightarrow> Erl_Atom_data \<Rightarrow> (unit, bool) res" where
  "same_node a b =
     bindr (erl_atom_ptr_latin1 a) (\<lambda>(s, _).
     bindr (erl_atom_ptr_latin1 b) (\<lambda>(s', _).
       case (s, s') of (Some s, Some s') \<Rightarrow> Ok (take (strlen s) s = take (strlen s') s') | _ \<Rightarrow> Fault))"

text \<open>Equality of two \<open>double\<close>s: no NaN, and the two zeros are equal.\<close>

definition float_eq :: "64 word \<Rightarrow> 64 word \<Rightarrow> bool" where
  "float_eq d e \<longleftrightarrow>
     (let nan = (\<lambda>d. drop_bit 52 d AND 0x7FF = 0x7FF \<and> take_bit 52 d \<noteq> 0)
      in \<not> nan d \<and> \<not> nan e \<and> (d = e \<or> take_bit 63 d = 0 \<and> take_bit 63 e = 0))"

section \<open>Local variables\<close>

type_synonym chain = "(nat list \<times> byte list \<times> ETERM option) list"

fun find_lvar :: "chain \<Rightarrow> byte list \<Rightarrow> ETERM option" where
  "find_lvar [] name = None"
| "find_lvar ((_, s, v) # chain) name =
     (if take (strlen s) s = take (strlen name) name then v else find_lvar chain name)"

text \<open>
  The copy that is stored in a variable. A copy with a NULL pointer inside has no value in the model;
  it counts as a fault.
\<close>

definition copy_value :: "ETERM \<Rightarrow> (unit, ETERM option) res" where
  "copy_value t =
     (case copy_term t of
        Fault \<Rightarrow> Fault
      | Ok e \<Rightarrow> Ok (Some e)
      | Err _ \<Rightarrow> (case t of Erl_List _ _ \<Rightarrow> Fault | Erl_Tuple _ \<Rightarrow> Fault | _ \<Rightarrow> Ok None))"

fun clear_at :: "nat list \<Rightarrow> ETERM \<Rightarrow> ETERM" where
  "clear_at [] (Erl_Variable s v) = Erl_Variable s None"
| "clear_at (i # q) (Erl_List h t) = (if i = 0 then Erl_List (clear_at q h) t else Erl_List h (clear_at q t))"
| "clear_at (i # q) (Erl_Tuple es) = (if i < length es then Erl_Tuple (es[i := clear_at q (es ! i)]) else Erl_Tuple es)"
| "clear_at (i # q) (Erl_Variable s (Some v)) = Erl_Variable s (Some (clear_at q v))"
| "clear_at q p = p"

definition undo_bindings :: "chain \<Rightarrow> ETERM \<Rightarrow> ETERM" where
  "undo_bindings chain p = fold (\<lambda>(q, _, _). clear_at q) chain p"

section \<open>Matching\<close>

text \<open>The first \<open>n\<close> integers of two references, in arrays of three.\<close>

definition match_numbers :: "32 word list \<Rightarrow> 32 word list \<Rightarrow> nat \<Rightarrow> (unit, bool) res" where
  "match_numbers a b n = (if length a < n \<or> length b < n then Fault else Ok (take n a = take n b))"

text \<open>The result, the pattern with its new values, and the chain. NULL is \<open>None\<close>.\<close>

type_synonym mres = "(unit, bool \<times> ETERM option \<times> chain) res option"
type_synonym matcher = "chain \<Rightarrow> nat list \<Rightarrow> ETERM option \<Rightarrow> ETERM option \<Rightarrow> mres"

fun ematch_elems :: "matcher \<Rightarrow> chain \<Rightarrow> nat list \<Rightarrow> nat \<Rightarrow> ETERM list \<Rightarrow> ETERM list \<Rightarrow>
    (unit, bool \<times> ETERM list \<times> chain) res option" where
  "ematch_elems f ch q i (p # ps) (t # ts) =
     bindf (f ch (q @ [i]) (Some p) (Some t)) (\<lambda>(r, p', ch).
       if r then bindf (ematch_elems f ch q (i + 1) ps ts) (\<lambda>(r, ps, ch). Some (Ok (r, the p' # ps, ch)))
       else Some (Ok (False, the p' # ps, ch)))"
| "ematch_elems f ch q i ps ts = Some (Ok (True, ps, ch))"

definition ematch_var :: "matcher \<Rightarrow> chain \<Rightarrow> nat list \<Rightarrow> byte list \<Rightarrow> ETERM option \<Rightarrow> ETERM \<Rightarrow> mres" where
  "ematch_var f ch q name v t =
     (if take (strlen name) name = [c_underscore] then Some (Ok (True, Some (Erl_Variable name v), ch))
      else case find_lvar ch name of
          Some tmp \<Rightarrow>
            bindf (Some (case v of None \<Rightarrow> copy_value tmp | Some v \<Rightarrow> Ok (Some v))) (\<lambda>v.
            bindf (f ch (q @ [0]) v (Some t)) (\<lambda>(r, v, ch). Some (Ok (r, Some (Erl_Variable name v), ch))))
        | None \<Rightarrow>
            (case v of
               Some _ \<Rightarrow>
                 bindf (f ch (q @ [0]) v (Some t)) (\<lambda>(r, v, ch).
                   Some (Ok (r, Some (Erl_Variable name v), if r then (q, name, v) # ch else ch)))
             | None \<Rightarrow>
                 bindf (Some (copy_value t)) (\<lambda>v. Some (Ok (True, Some (Erl_Variable name v), (q, name, v) # ch)))))"

text \<open>\<open>t\<close> is followed to its value when it is a variable, but its type is still that of a variable.\<close>

definition ematch_step :: "matcher \<Rightarrow> matcher" where
  "ematch_step f ch q p t =
     (case (p, t) of
        (None, None) \<Rightarrow> Some (Ok (True, p, ch))
      | (Some (Erl_Variable name v), Some (Erl_Variable _ None)) \<Rightarrow> Some (Ok (False, p, ch))
      | (Some (Erl_Variable name v), Some (Erl_Variable _ (Some t))) \<Rightarrow> ematch_var f ch q name v t
      | (Some (Erl_Variable name v), Some t) \<Rightarrow> ematch_var f ch q name v t
      | (Some (Erl_Atom pa), Some (Erl_Atom ta)) \<Rightarrow> bindf (Some (match_atoms pa ta)) (\<lambda>r. Some (Ok (r, p, ch)))
      | (Some (Erl_Pid n1 a1 s1 c1), Some (Erl_Pid n2 a2 s2 c2)) \<Rightarrow>
          bindf (Some (same_node n1 n2)) (\<lambda>r. Some (Ok (r \<and> a1 = a2 \<and> s1 = s2 \<and> c1 = c2, p, ch)))
      | (Some (Erl_Port n1 a1 c1), Some (Erl_Port n2 a2 c2)) \<Rightarrow>
          bindf (Some (same_node n1 n2)) (\<lambda>r. Some (Ok (r \<and> a1 = a2 \<and> c1 = c2, p, ch)))
      | (Some (Erl_Ref n1 l1 a1 c1), Some (Erl_Ref n2 l2 a2 c2)) \<Rightarrow>
          bindf (Some (same_node n1 n2)) (\<lambda>r.
            if \<not> (r \<and> c1 = c2) then Some (Ok (False, p, ch))
            else bindf (Some (match_numbers a1 a2 (nat (min l1 l2)))) (\<lambda>r. Some (Ok (r, p, ch))))
      | (Some Erl_EmptyList, Some Erl_EmptyList) \<Rightarrow> Some (Ok (True, p, ch))
      | (Some (Erl_List ph pt), Some (Erl_List th tt)) \<Rightarrow>
          bindf (f ch (q @ [0]) (Some ph) (Some th)) (\<lambda>(r, ph, ch).
            if r then bindf (f ch (q @ [1]) (Some pt) (Some tt)) (\<lambda>(r, pt, ch). Some (Ok (r, Some (Erl_List (the ph) (the pt)), ch)))
            else Some (Ok (False, Some (Erl_List (the ph) pt), ch)))
      | (Some (Erl_Tuple ps), Some (Erl_Tuple ts)) \<Rightarrow>
          if length ps \<noteq> length ts then Some (Ok (False, p, ch))
          else bindf (ematch_elems f ch q 0 ps ts) (\<lambda>(r, ps, ch). Some (Ok (r, Some (Erl_Tuple ps), ch)))
      | (Some (Erl_Binary b), Some (Erl_Binary c)) \<Rightarrow> Some (Ok (b = c, p, ch))
      | (Some (Erl_Integer i), Some (Erl_Integer j)) \<Rightarrow> Some (Ok (i = j, p, ch))
      | (Some (Erl_Float d), Some (Erl_Float e)) \<Rightarrow> Some (Ok (float_eq d e, p, ch))
      | _ \<Rightarrow> Some (Ok (False, p, ch)))"

primrec ematch :: "nat \<Rightarrow> matcher" where
  "ematch 0 ch q p t = None"
| "ematch (Suc d) ch q p t = ematch_step (ematch d) ch q p t"

definition erl_match :: "nat \<Rightarrow> ETERM option \<Rightarrow> ETERM option \<Rightarrow> (unit, bool \<times> ETERM option) res option" where
  "erl_match d p t =
     bindf (ematch d [] [] p t) (\<lambda>(r, p, ch).
       Some (Ok (r, if r then p else map_option (undo_bindings ch) p)))"

end
