(* ===== verification/Erl_TermSpec.thy ===== *)
theory Erl_TermSpec
  imports Erl_Term Erl_MarshalSpec
begin

text \<open>
  I/O lists after the grammar in \<^verbatim>\<open>erl_eterm.c\<close>, and what a copy of a term is: a term with the same bytes.
\<close>

section \<open>I/O lists\<close>

inductive iolist :: "ETERM \<Rightarrow> byte list \<Rightarrow> bool" and iohead :: "ETERM \<Rightarrow> byte list \<Rightarrow> bool" where
  iolist_nil: "iolist Erl_EmptyList []"
| iolist_binary: "iolist (Erl_Binary b) b"
| iolist_cons: "iohead h xs \<Longrightarrow> iolist t ys \<Longrightarrow> iolist (Erl_List h t) (xs @ ys)"
| iohead_byte: "i \<le> 255 \<Longrightarrow> iohead (Erl_Integer i) [ucast i]"
| iohead_iolist: "iolist t xs \<Longrightarrow> iohead t xs"

inductive_cases iolist_consE: "iolist (Erl_List h t) bs"

lemma is_byte: "ERL_IS_BYTE (Erl_Integer i) \<longleftrightarrow> i \<le> 255"
proof -
  have "(0xFF :: 32 word) = mask 8" by (simp add: mask_eq_exp_minus_1)
  then have "ERL_IS_BYTE (Erl_Integer i) \<longleftrightarrow> i AND NOT (mask 8) = 0" by (simp add: ERL_IS_BYTE_def)
  also have "\<dots> \<longleftrightarrow> take_bit 8 i = i"
    by (auto simp: bit_eq_iff bit_simps)
  also have "\<dots> \<longleftrightarrow> uint i < 256"
    by (simp add: word_uint_eq_iff unsigned_take_bit_eq take_bit_int_eq_self_iff)
  finally show ?thesis by (auto simp: word_le_def)
qed

lemma is_byte_iff: "ERL_IS_BYTE h \<longleftrightarrow> (\<exists>i. h = Erl_Integer i \<and> i \<le> 255)"
  by (cases h) (simp_all add: is_byte, simp_all add: ERL_IS_BYTE_def)

definition copies :: "ETERM \<Rightarrow> byte list \<Rightarrow> bool" where
  "copies t bs \<longleftrightarrow>
     (\<forall>n. iolist_length t n = n + int (length bs)) \<and>
     (\<forall>bufp buf dest. iolist_to_buf t bufp buf dest = bindr (wrs buf dest bs) (\<lambda>buf. Ok (buf, dest + int (length bs))))"

lemma iolist_copies:
  "iolist t bs \<Longrightarrow> copies t bs"
  "iohead h bs \<Longrightarrow> (ERL_IS_BYTE h \<and> bs = [low_byte h]) \<or> (\<not> ERL_IS_BYTE h \<and> copies h bs \<and> iolist h bs)"
proof (induction rule: iolist_iohead.inducts)
  case (iolist_cons h xs t ys)
  then show ?case
  proof (elim disjE conjE)
    assume "ERL_IS_BYTE h" "xs = [low_byte h]" "copies t ys"
    then show ?thesis by (simp add: copies_def bindr_assoc add.assoc)
  next
    assume h: "\<not> ERL_IS_BYTE h" "copies h xs" "iolist h xs" and t: "copies t ys"
    from h(3) consider "h = Erl_EmptyList" "xs = []" | "h = Erl_Binary xs" | a b where "h = Erl_List a b"
      by (cases rule: iolist.cases) auto
    then show ?thesis
    proof cases
      case 3
      have "\<not> iolist_length h 0 < 0" using h(2) by (simp add: copies_def)
      then show ?thesis using h(1,2) t unfolding copies_def 3
        by (simp add: bindr_assoc wrs_append add.assoc)
    qed (use h(1) t in \<open>simp_all add: copies_def bindr_assoc wrs_append add.assoc\<close>)
  qed
next
  case (iohead_iolist t xs)
  then show ?case by (auto simp: is_byte_iff elim: iolist.cases)
qed (simp_all add: copies_def bindr_Ok_right is_byte)

lemma not_iolist: "0 \<le> n \<Longrightarrow> iolist_length t n = - 1 \<or> (\<exists>bs. iolist t bs)"
proof (induction t arbitrary: n)
  case (Erl_List h t)
  have tail: "iolist_length t m = - 1 \<or> (\<exists>bs. iolist (Erl_List h t) bs)" if "iohead h xs" "0 \<le> m" for xs m
    using Erl_List.IH(2) [OF that(2)] iolist_cons [OF that(1)] by blast
  show ?case
  proof (cases "ERL_IS_BYTE h")
    case True
    then obtain i where "h = Erl_Integer i" "i \<le> 255" by (auto simp: is_byte_iff)
    then have "iohead h [ucast i]" by (simp add: iohead_byte)
    then show ?thesis using tail [of _ "n + 1"] True Erl_List.prems by simp
  next
    case F: False
    show ?thesis
    proof (cases "\<exists>xs. iolist h xs")
      case True
      then obtain xs where x: "iolist h xs" by blast
      have "0 \<le> iolist_length h 0" "iolist_length h 0 = int (length xs)" using iolist_copies(1) [OF x] by (simp_all add: copies_def)
      then show ?thesis using tail [OF iohead_iolist [OF x]] F Erl_List.prems
        by (cases h) (auto simp: Let_def)
    next
      case False
      then have "iolist_length h 0 = - 1" "\<forall>b. h \<noteq> Erl_Binary b" "h \<noteq> Erl_EmptyList"
        using Erl_List.IH(1) [of 0] iolist_binary iolist_nil by auto
      then show ?thesis using F by (cases h) (auto simp: Let_def)
    qed
  qed
qed (auto intro: iolist_nil iolist_binary)

lemma wrs_all: "wrs (replicate (length bs) 0) 0 bs = Ok bs"
  by (cases bs) (auto simp: wrs_eq)

lemma iolist_accepted:
  assumes "iolist t bs"
  shows "erl_iolist_length t = int (length bs)" "erl_iolist_to_binary (Some t) = Ok (Erl_Binary bs)"
proof -
  show l: "erl_iolist_length t = int (length bs)"
    using iolist_copies(1) [OF assms] by (simp add: copies_def erl_iolist_length_def)
  have "iolist_to_buf t 0 (replicate (length bs) 0) 0 = Ok (bs, int (length bs))"
    using iolist_copies(1) [OF assms] by (simp add: copies_def wrs_all)
  then show "erl_iolist_to_binary (Some t) = Ok (Erl_Binary bs)" using l by (simp add: erl_iolist_to_binary_def Let_def)
qed

lemma iolist_refused:
  assumes "\<nexists>bs. iolist t bs"
  shows "erl_iolist_length t = - 1" "erl_iolist_to_binary (Some t) = Err ()"
proof -
  show "erl_iolist_length t = - 1" using not_iolist [of 0 t] assms by (auto simp: erl_iolist_length_def)
  then show "erl_iolist_to_binary (Some t) = Err ()" by (simp add: erl_iolist_to_binary_def)
qed

section \<open>Copies\<close>

text \<open>The arrays hold the name and a NUL.\<close>

definition c_name :: "Erl_Atom_data \<Rightarrow> bool" where
  "c_name a \<longleftrightarrow>
     (\<forall>s. a_latin1 a = Some s \<longrightarrow> int (strlen s) = a_lenL a) \<and> (\<forall>u. a_utf8 a = Some u \<longrightarrow> int (strlen u) = a_lenU a)"

text \<open>Terms that \<open>erl_copy_term\<close> copies: every atom has a name in Latin-1.\<close>

primrec copyable :: "ETERM \<Rightarrow> bool" where
  "copyable (Erl_Integer i) = True"
| "copyable (Erl_Uinteger i) = True"
| "copyable (Erl_LLInteger i) = True"
| "copyable (Erl_ULLInteger i) = True"
| "copyable (Erl_Float d) = True"
| "copyable (Erl_Atom a) = (c_name a \<and> a_latin1 a \<noteq> None)"
| "copyable (Erl_Pid node number serial c) = (c_name node \<and> (a_latin1 node \<noteq> None \<or> a_utf8 node \<noteq> None))"
| "copyable (Erl_Port node number c) = (c_name node \<and> (a_latin1 node \<noteq> None \<or> a_utf8 node \<noteq> None))"
| "copyable (Erl_Ref node len n c) = (c_name node \<and> (a_latin1 node \<noteq> None \<or> a_utf8 node \<noteq> None))"
| "copyable (Erl_List h t) = (copyable h \<and> copyable t)"
| "copyable Erl_EmptyList = True"
| "copyable (Erl_Tuple es) = list_all copyable es"
| "copyable (Erl_Binary b) = True"
| "copyable (Erl_Variable s v) = False"
| "copyable (Erl_Big b) = False"
| "copyable (Erl_Function arity md5 new_index creator module index uniq closure) =
     (pred_option copyable creator \<and> pred_option copyable module \<and> pred_option copyable index
      \<and> pred_option copyable uniq \<and> list_all (pred_option copyable) closure)"

definition copied_atom :: "Erl_Atom_data \<Rightarrow> Erl_Atom_data" where
  "copied_atom a =
     (if a_latin1 a = a_utf8 a then a\<lparr>a_utf8 := map_option strsave (a_utf8 a), a_latin1 := map_option strsave (a_latin1 a)\<rparr>
      else case a_latin1 a of
          Some s \<Rightarrow> a\<lparr>a_utf8 := None, a_lenU := 0, a_latin1 := Some (strsave s)\<rparr>
        | None \<Rightarrow> a\<lparr>a_utf8 := map_option strsave (a_utf8 a), a_lenL := 0\<rparr>)"

primrec copied :: "ETERM \<Rightarrow> ETERM" where
  "copied (Erl_Integer i) = Erl_Integer i"
| "copied (Erl_Uinteger i) = Erl_Uinteger i"
| "copied (Erl_LLInteger i) = Erl_LLInteger i"
| "copied (Erl_ULLInteger i) = Erl_ULLInteger i"
| "copied (Erl_Float d) = Erl_Float d"
| "copied (Erl_Atom a) = Erl_Atom (copied_atom a)"
| "copied (Erl_Pid node number serial c) = Erl_Pid (copied_atom node) number serial c"
| "copied (Erl_Port node number c) = Erl_Port (copied_atom node) number c"
| "copied (Erl_Ref node len n c) = Erl_Ref (copied_atom node) len n c"
| "copied (Erl_List h t) = Erl_List (copied h) (copied t)"
| "copied Erl_EmptyList = Erl_EmptyList"
| "copied (Erl_Tuple es) = Erl_Tuple (map copied es)"
| "copied (Erl_Binary b) = Erl_Binary b"
| "copied (Erl_Variable s v) = Erl_Variable s v"
| "copied (Erl_Big b) = Erl_Big b"
| "copied (Erl_Function arity md5 new_index creator module index uniq closure) =
     Erl_Function arity md5 new_index (map_option copied creator) (map_option copied module)
       (map_option copied index) (map_option copied uniq) (map (map_option copied) closure)"

lemma atom_copy:
  assumes "c_name a" "a_latin1 a \<noteq> None \<or> a_utf8 a \<noteq> None"
  shows "erl_atom_copy a = Ok (copied_atom a, a_latin1 a \<noteq> None)"
  using assms by (auto simp: erl_atom_copy_def copied_atom_def c_name_def split: option.splits)

lemma copy_all_map: "(\<And>e. e \<in> set es \<Longrightarrow> f e = Ok (g e)) \<Longrightarrow> copy_all f es = Ok (map g es)"
  by (induction es) auto

lemma copy_ptrs_map: "(\<And>e. Some e \<in> set ps \<Longrightarrow> f e = Ok (g e)) \<Longrightarrow> copy_ptrs f ps = Ok (map (map_option g) ps)"
  by (induction ps) (auto split: option.splits)

theorem copy_term_copied: "copyable t \<Longrightarrow> copy_term t = Ok (copied t)"
proof (induction t rule: measure_induct_rule [of size])
  case (less t)
  show ?case
  proof (cases t)
    case (Erl_List h r)
    have "copy_all copy_term [h, r] = Ok (map copied [h, r])"
      by (rule copy_all_map) (use less Erl_List in auto)
    then show ?thesis using Erl_List by simp
  next
    case (Erl_Tuple es)
    have "copy_all copy_term es = Ok (map copied es)"
      by (rule copy_all_map) (use less Erl_Tuple in \<open>auto simp: list_all_iff less_Suc_eq_le size_member\<close>)
    then show ?thesis using Erl_Tuple by simp
  next
    case (Erl_Function arity md5 new_index creator module index uniq closure)
    have c: "copy_ptrs copy_term ps = Ok (map (map_option copied) ps)" if "set ps \<subseteq> set ([index, uniq, creator, module] @ closure)" for ps
    proof (rule copy_ptrs_map)
      fix e
      assume "Some e \<in> set ps"
      then have e: "Some e \<in> set ([index, uniq, creator, module] @ closure)" using that by blast
      then have "size e < size t" using Erl_Function by (auto simp: less_Suc_eq_le intro: trans_le_add2 size_member_option)
      moreover have "copyable e" using e less.prems Erl_Function by (auto simp: list_all_iff)
      ultimately show "copy_term e = Ok (copied e)" by (rule less.IH)
    qed
    have "copy_ptrs copy_term [index, uniq, creator, module] = Ok (map (map_option copied) [index, uniq, creator, module])"
      "copy_ptrs copy_term closure = Ok (map (map_option copied) closure)"
      by (rule c, auto)+
    then show ?thesis using Erl_Function by (simp del: copy_ptrs.simps)
  qed (use less.prems in \<open>auto simp: atom_copy\<close>)
qed

lemma copied_heads: "list_heads (copied t) = map copied (list_heads t)" "list_last (copied t) = copied (list_last t)"
  by (induction t) auto

lemma copyable_heads: "copyable t \<Longrightarrow> list_all copyable (list_heads t) \<and> copyable (list_last t)"
  by (induction t) auto

lemma copied_string: "is_string_loop (copied t) n = is_string_loop t n"
proof (induction t arbitrary: n)
  case (Erl_List h t)
  then show ?case by (cases h) simp_all
qed simp_all

lemma take_strsave: "int (strlen s) = n \<Longrightarrow> take (nat n) (strsave s) = take (nat n) s"
  using strlen_le [of s] by (auto simp: strsave_def)

lemma copied_atom_bytes: "c_name a \<Longrightarrow> atom_ok a \<Longrightarrow> atom_bytes (copied_atom a) = atom_bytes a"
  by (auto simp: copied_atom_def c_name_def atom_bytes_def atom_ok_def take_strsave split: option.splits)

lemma ptr_bytes_map: "ptr_bytes f (map (map_option g) ps) = ptr_bytes (\<lambda>e. f (g e)) ps"
  by (induction ps) (auto split: option.splits)

lemma low_byte_copied: "low_byte (copied e) = low_byte e"
  by (cases e) simp_all

theorem copied_bytes: "copyable t \<Longrightarrow> marshal_ok t \<Longrightarrow> ext_bytes (copied t) = ext_bytes t"
proof (induction t rule: measure_induct_rule [of size])
  case (less t)
  show ?case
  proof (cases t)
    case (Erl_List h r)
    define hs where "hs = list_heads (Erl_List h r)"
    have hs': "list_heads (Erl_List (copied h) (copied r)) = map copied hs"
      using copied_heads(1) [of "Erl_List h r"] by (simp add: hs_def)
    have str: "is_string (Erl_List (copied h) (copied r)) = is_string (Erl_List h r)"
      using copied_string [of "Erl_List h r" 0] by (simp add: is_string_def)
    have ok: "\<forall>e \<in> set hs. copyable e \<and> marshal_ok e" "copyable (list_last r)" "marshal_ok (list_last r)"
      using marshal_ok_heads [OF less.prems(2)] copyable_heads [OF less.prems(1)] Erl_List by (auto simp: list_all_iff hs_def)
    have "ext_bytes (copied e) = ext_bytes e" if "e \<in> set hs" for e
      using less.IH [of e] size_list_heads [of e t] Erl_List ok(1) that by (auto simp: hs_def)
    then have m: "map ext_bytes (map copied hs) = map ext_bytes hs" "map low_byte (map copied hs) = map low_byte hs"
      by (simp_all add: low_byte_copied)
    have l: "ext_bytes (list_last (copied r)) = ext_bytes (list_last r)"
      using less.IH [OF _ ok(2,3)] size_list_last [of r] Erl_List by (simp add: copied_heads(2))
    show ?thesis unfolding Erl_List copied.simps ext_bytes.simps hs' str m l hs_def [symmetric] Let_def length_map ..
  next
    case (Erl_Tuple es)
    have "map (\<lambda>e. ext_bytes (copied e)) es = map ext_bytes es"
      using less Erl_Tuple by (auto simp: list_all_iff less_Suc_eq_le size_member)
    then show ?thesis unfolding Erl_Tuple copied.simps ext_bytes.simps length_map map_map comp_def by (simp only:)
  next
    case (Erl_Function arity md5 new_index creator module index uniq closure)
    have p: "ptr_bytes ext_bytes (map (map_option copied) ps) = ptr_bytes ext_bytes ps"
      if "set ps \<subseteq> set ([creator, module, index, uniq] @ closure)" for ps
      unfolding ptr_bytes_map
    proof (rule ptr_bytes_cong [OF refl])
      fix e
      assume "Some e \<in> set ps"
      then have e: "Some e \<in> set ([creator, module, index, uniq] @ closure)" using that by blast
      then have "size e < size t" using Erl_Function by (auto simp: less_Suc_eq_le intro: trans_le_add2 size_member_option)
      moreover have "copyable e" "marshal_ok e" using e less.prems Erl_Function by (auto simp: list_all_iff)
      ultimately show "ext_bytes (copied e) = ext_bytes e" by (rule less.IH)
    qed
    have "ptr_bytes ext_bytes (map (map_option copied) ([creator, module, index, uniq] @ closure))
        = ptr_bytes ext_bytes ([creator, module, index, uniq] @ closure)"
      "ptr_bytes ext_bytes (map (map_option copied) ([module, index, uniq, creator] @ closure))
        = ptr_bytes ext_bytes ([module, index, uniq, creator] @ closure)"
      by (rule p, force)+
    then have q: "ptr_bytes ext_bytes ([map_option copied creator, map_option copied module, map_option copied index, map_option copied uniq]
          @ map (map_option copied) closure) = ptr_bytes ext_bytes ([creator, module, index, uniq] @ closure)"
      "ptr_bytes ext_bytes ([map_option copied module, map_option copied index, map_option copied uniq, map_option copied creator]
          @ map (map_option copied) closure) = ptr_bytes ext_bytes ([module, index, uniq, creator] @ closure)"
      unfolding map_append list.map .
    show ?thesis unfolding Erl_Function copied.simps ext_bytes.simps q length_map ..
  qed (use less.prems in \<open>auto simp: copied_atom_bytes\<close>)
qed

text \<open>A copy can be encoded, and its length is announced like that of the term.\<close>

lemma length_strsave: "length (strsave s) = strlen s + 1"
  using strlen_le [of s] by (simp add: strsave_def)

lemma copied_atom_ok:
  assumes "c_name a" "atom_ok a"
  shows "atom_ok (copied_atom a)" "utf8_name (copied_atom a) = utf8_name a"
  using assms
  by (auto simp: copied_atom_def c_name_def atom_ok_def utf8_name_def take_strsave length_strsave split: option.splits)

lemma copied_latin1: "a_latin1 (copied_atom a) = map_option strsave (a_latin1 a)"
  by (simp add: copied_atom_def split: option.split)

lemma copied_slack: "c_name a \<Longrightarrow> atom_ok a \<Longrightarrow> atom_slack (copied_atom a) = atom_slack a"
  by (auto simp: atom_slack_def copied_atom_ok) (auto simp: copied_atom_def atom_ok_def split: option.splits if_splits)

theorem copied_marshal: "copyable t \<Longrightarrow> marshal_ok t \<Longrightarrow> marshal_ok (copied t) \<and> slack (copied t) = slack t"
proof (induction t)
  case (Erl_Tuple es)
  have "map (\<lambda>e. slack (copied e)) es = map slack es" using Erl_Tuple by (auto simp: list_all_iff)
  then show ?case using Erl_Tuple by (auto simp: list_all_iff comp_def intro!: arg_cong [of _ _ sum_list])
next
  case (Erl_Function arity md5 new_index creator module index uniq closure)
  have m: "marshal_ok (copied e) \<and> slack (copied e) = slack e"
    if e: "Some e \<in> set ([creator, module, index, uniq] @ closure)" for e
  proof -
    have "pred_option copyable (Some e)" "pred_option marshal_ok (Some e)"
      using Erl_Function.prems e by (auto simp: list_all_iff simp del: option.pred_inject)
    then show ?thesis using Erl_Function.IH e by auto
  qed
  have p: "pred_option marshal_ok (map_option copied x) \<and> map_option slack (map_option copied x) = map_option slack x"
    if "x \<in> set ([creator, module, index, uniq] @ closure)" for x
    using m [of "the x"] that by (cases x) auto
  have q: "map (map_option slack) (map (map_option copied) closure) = map (map_option slack) closure" using p by auto
  have "list_all (pred_option marshal_ok) (map (map_option copied) closure)" using p by (auto simp: list_all_iff)
  moreover have "None \<notin> set closure \<Longrightarrow> None \<notin> set (map (map_option copied) closure)" by auto
  ultimately show ?case using Erl_Function.prems p [of creator] p [of module] p [of index] p [of uniq]
    unfolding copied.simps marshal_ok.simps slack.simps q by (simp del: set_map)
qed (auto simp: copied_atom_ok copied_slack copied_latin1)

end
