(* ===== verification/Erl_MatchSpec.thy ===== *)
theory Erl_MatchSpec
  imports Erl_Match Erl_TermSpec
begin

text \<open>
  What \<open>erl_match\<close> decides: whether there is an assignment of values to the variables of the pattern
  that makes it equal to the term (\<open>matches\<close>), where terms are equal when their canonical forms are.
\<close>

section \<open>Names\<close>

definition cname :: "byte list \<Rightarrow> byte list" where
  "cname s = take (strlen s) s"

lemma cname_takeWhile: "cname s = takeWhile (\<lambda>c. c \<noteq> 0) s"
  by (simp add: cname_def strlen_def takeWhile_eq_take [symmetric])

lemma cname_idem [simp]: "cname (cname s) = cname s"
  by (simp add: cname_takeWhile takeWhile_idem)

lemma strsave_cname: "strsave s = cname s @ [0]"
  by (simp add: strsave_def cname_def)

lemma strlen_cname: "strlen s = length (cname s)"
  using strlen_le [of s] by (simp add: cname_def)

lemma cname_strsave [simp]: "cname (strsave s) = cname s"
proof -
  have "0 \<notin> set (cname s)" by (auto simp: cname_takeWhile dest: set_takeWhileD)
  then show ?thesis unfolding strsave_def cname_def [symmetric] by (simp add: cname_takeWhile takeWhile_append)
qed

lemma latin1_utf8_inj: "latin1_utf8 x = latin1_utf8 y \<Longrightarrow> x = y"
proof (induction x arbitrary: y)
  case Nil
  then show ?case by (cases y) (auto split: if_splits)
next
  case (Cons c cs)
  then obtain c' cs' where y: "y = c' # cs'" by (cases y) (auto split: if_splits)
  have "c = c' \<and> latin1_utf8 cs = latin1_utf8 cs'"
  proof (cases "c AND 128 = 0"; cases "c' AND 128 = 0")
    assume a: "c AND 128 \<noteq> 0" "c' AND 128 \<noteq> 0"
    then show ?thesis using Cons.prems y latin1_utf8_byte [OF a(1)] latin1_utf8_byte [OF a(2)] by force
  next
    assume a: "c AND 128 = 0" "c' AND 128 \<noteq> 0"
    then show ?thesis using Cons.prems y latin1_utf8_byte [OF a(2)] by force
  next
    assume a: "c AND 128 \<noteq> 0" "c' AND 128 = 0"
    then show ?thesis using Cons.prems y latin1_utf8_byte [OF a(1)] by force
  qed (use Cons.prems y in simp)
  then show ?case using Cons.IH y by simp
qed

lemma strlen_strsave: "strlen (strsave s) = strlen s"
  by (simp only: strlen_cname cname_strsave)

text \<open>Atoms with a Latin-1 name in an array that ends with its NUL, and that name.\<close>

definition plain_atom :: "Erl_Atom_data \<Rightarrow> bool" where
  "plain_atom a \<longleftrightarrow> atom_ok a \<and> c_name a \<and> a_latin1 a \<noteq> None"

definition latin1_name :: "Erl_Atom_data \<Rightarrow> byte list" where
  "latin1_name a = take (nat (a_lenL a)) (the (a_latin1 a))"

lemma plain_atomD:
  assumes "plain_atom a"
  obtains s where "a_latin1 a = Some s" "cname s = latin1_name a" "a_lenL a = int (length (latin1_name a))"
    "nat (a_lenL a) \<le> length s"
    "\<forall>u. a_utf8 a = Some u \<longrightarrow> a_lenU a = int (length (latin1_utf8 (latin1_name a)))
       \<and> take (nat (a_lenU a)) u = latin1_utf8 (latin1_name a) \<and> nat (a_lenU a) \<le> length u"
proof -
  obtain s where s: "a_latin1 a = Some s" using assms by (auto simp: plain_atom_def)
  have l: "a_lenL a = int (strlen s)" "0 \<le> a_lenL a" "nat (a_lenL a) \<le> length s"
    using assms s by (auto simp: plain_atom_def c_name_def atom_ok_def)
  have "cname s = latin1_name a" using l(1) s by (simp add: cname_def latin1_name_def)
  moreover have "a_lenL a = int (length (latin1_name a))" using l s by (simp add: latin1_name_def)
  moreover have "a_lenU a = int (length (latin1_utf8 (latin1_name a)))
       \<and> take (nat (a_lenU a)) u = latin1_utf8 (latin1_name a) \<and> nat (a_lenU a) \<le> length u" if "a_utf8 a = Some u" for u
  proof -
    have u: "0 \<le> a_lenU a" "nat (a_lenU a) \<le> length u" "take (nat (a_lenU a)) u = latin1_utf8 (latin1_name a)"
      using assms s that by (auto simp: plain_atom_def atom_ok_def latin1_name_def)
    have "length (take (nat (a_lenU a)) u) = nat (a_lenU a)" using u(2) by simp
    then show ?thesis using u unfolding u(3) by simp
  qed
  ultimately show thesis using that s l(3) by blast
qed

lemma mem_eq_take: "nat n \<le> length a \<Longrightarrow> nat n \<le> length b \<Longrightarrow> mem_eq a b n = Ok (take (nat n) a = take (nat n) b)"
  by (simp add: mem_eq_def rds_take)

lemma match_plain_atoms:
  assumes "plain_atom a" "plain_atom b"
  shows "match_atoms a b = Ok (latin1_name a = latin1_name b)"
proof -
  from assms(1) obtain s where a: "a_latin1 a = Some s" "a_lenL a = int (length (latin1_name a))" "nat (a_lenL a) \<le> length s"
    "\<forall>u. a_utf8 a = Some u \<longrightarrow> a_lenU a = int (length (latin1_utf8 (latin1_name a)))
       \<and> take (nat (a_lenU a)) u = latin1_utf8 (latin1_name a) \<and> nat (a_lenU a) \<le> length u" by (rule plain_atomD) blast
  from assms(2) obtain s' where b: "a_latin1 b = Some s'" "a_lenL b = int (length (latin1_name b))" "nat (a_lenL b) \<le> length s'"
    "\<forall>u. a_utf8 b = Some u \<longrightarrow> a_lenU b = int (length (latin1_utf8 (latin1_name b)))
       \<and> take (nat (a_lenU b)) u = latin1_utf8 (latin1_name b) \<and> nat (a_lenU b) \<le> length u" by (rule plain_atomD) blast
  have names: "take (nat (a_lenL a)) s = latin1_name a" "take (nat (a_lenL b)) s' = latin1_name b"
    by (simp_all add: latin1_name_def a(1) b(1))
  show ?thesis
  proof (cases "\<exists>u u'. a_utf8 a = Some u \<and> a_utf8 b = Some u'")
    case True
    then obtain u u' where u: "a_utf8 a = Some u" "a_utf8 b = Some u'" by blast
    note ua = a(4) [rule_format, OF u(1)] and ub = b(4) [rule_format, OF u(2)]
    show ?thesis
    proof (cases "a_lenU a = a_lenU b")
      case True
      have x: "take (nat (a_lenU a)) u = latin1_utf8 (latin1_name a)" "nat (a_lenU a) \<le> length u" 
        using conjunct1 [OF conjunct2 [OF ua]] conjunct2 [OF conjunct2 [OF ua]] .
      have y: "take (nat (a_lenU a)) u' = latin1_utf8 (latin1_name b)" "nat (a_lenU a) \<le> length u'" 
        using conjunct1 [OF conjunct2 [OF ub]] conjunct2 [OF conjunct2 [OF ub]] unfolding True .
      have "mem_eq u u' (a_lenU a) = Ok (latin1_utf8 (latin1_name a) = latin1_utf8 (latin1_name b))"
        using mem_eq_take [OF x(2) y(2)] unfolding x(1) y(1) .
      moreover have "(latin1_utf8 (latin1_name a) = latin1_utf8 (latin1_name b)) = (latin1_name a = latin1_name b)"
        by (rule iffI) (erule latin1_utf8_inj, simp)
      ultimately show ?thesis using u True a(1) b(1) by (simp add: match_atoms_def)
    next
      case False
      then have "latin1_name a \<noteq> latin1_name b" using ua ub by auto
      then show ?thesis using u False a(1) b(1) by (simp add: match_atoms_def)
    qed
  next
    case False
    then have "match_atoms a b = (if a_lenL a = a_lenL b then mem_eq s s' (a_lenL a) else Ok False)"
      using a(1) b(1) by (auto simp: match_atoms_def split: option.splits)
    then show ?thesis using a(2,3) b(2,3) names mem_eq_take [of "a_lenL a" s s'] by auto
  qed
qed

lemma same_plain_node:
  assumes "plain_atom a" "plain_atom b"
  shows "same_node a b = Ok (latin1_name a = latin1_name b)"
proof -
  from assms(1) obtain s where a: "a_latin1 a = Some s" "cname s = latin1_name a" by (rule plain_atomD) blast
  from assms(2) obtain s' where b: "a_latin1 b = Some s'" "cname s' = latin1_name b" by (rule plain_atomD) blast
  show ?thesis using a b by (simp add: same_node_def erl_atom_ptr_latin1_def cname_def)
qed

section \<open>Equality of terms\<close>

definition canon_atom :: "Erl_Atom_data \<Rightarrow> Erl_Atom_data" where
  "canon_atom a = \<lparr>a_utf8 = None, a_lenU = 0, a_latin1 = Some (latin1_name a), a_lenL = 0\<rparr>"

lemma canon_atom_eq [simp]: "canon_atom a = canon_atom b \<longleftrightarrow> latin1_name a = latin1_name b"
  by (simp add: canon_atom_def)

text \<open>The two zeros are equal, and names are what they are in Latin-1.\<close>

primrec canon :: "ETERM \<Rightarrow> ETERM" where
  "canon (Erl_Integer i) = Erl_Integer i"
| "canon (Erl_Uinteger i) = Erl_Uinteger i"
| "canon (Erl_LLInteger i) = Erl_LLInteger i"
| "canon (Erl_ULLInteger i) = Erl_ULLInteger i"
| "canon (Erl_Float d) = Erl_Float (if take_bit 63 d = 0 then 0 else d)"
| "canon (Erl_Atom a) = Erl_Atom (canon_atom a)"
| "canon (Erl_Pid node number serial c) = Erl_Pid (canon_atom node) number serial c"
| "canon (Erl_Port node number c) = Erl_Port (canon_atom node) number c"
| "canon (Erl_Ref node len n c) = Erl_Ref (canon_atom node) len n c"
| "canon (Erl_List h t) = Erl_List (canon h) (canon t)"
| "canon Erl_EmptyList = Erl_EmptyList"
| "canon (Erl_Tuple es) = Erl_Tuple (map canon es)"
| "canon (Erl_Binary b) = Erl_Binary b"
| "canon (Erl_Variable s v) = Erl_Variable s v"
| "canon (Erl_Big b) = Erl_Big b"
| "canon (Erl_Function a m n c mo i u cl) = Erl_Function a m n c mo i u cl"

text \<open>
  Terms whose equality \<open>ematch\<close> decides: no integers of the other three kinds and no funs, which never
  match, no NaN, and references of three integers.
\<close>

definition not_nan :: "64 word \<Rightarrow> bool" where
  "not_nan d \<longleftrightarrow> \<not> (drop_bit 52 d AND 0x7FF = 0x7FF \<and> take_bit 52 d \<noteq> 0)"

primrec plain_value :: "ETERM \<Rightarrow> bool" where
  "plain_value (Erl_Integer i) = True"
| "plain_value (Erl_Uinteger i) = False"
| "plain_value (Erl_LLInteger i) = False"
| "plain_value (Erl_ULLInteger i) = False"
| "plain_value (Erl_Float d) = not_nan d"
| "plain_value (Erl_Atom a) = plain_atom a"
| "plain_value (Erl_Pid node number serial c) = plain_atom node"
| "plain_value (Erl_Port node number c) = plain_atom node"
| "plain_value (Erl_Ref node len n c) = (plain_atom node \<and> len = 3 \<and> length n = 3)"
| "plain_value (Erl_List h t) = (plain_value h \<and> plain_value t)"
| "plain_value Erl_EmptyList = True"
| "plain_value (Erl_Tuple es) = list_all plain_value es"
| "plain_value (Erl_Binary b) = True"
| "plain_value (Erl_Variable s v) = False"
| "plain_value (Erl_Big b) = False"
| "plain_value (Erl_Function a m n c mo i u cl) = False"

lemma float_eq_canon: "not_nan d \<Longrightarrow> not_nan e \<Longrightarrow> float_eq d e = (canon (Erl_Float d) = canon (Erl_Float e))"
  by (auto simp: float_eq_def not_nan_def Let_def)

lemma ematch_elems_plain:
  assumes "\<And>p t j. p \<in> set ps \<Longrightarrow> t \<in> set ts \<Longrightarrow> f ch (q @ [j]) (Some p) (Some t) = Some (Ok (canon p = canon t, Some p, ch))"
    "length ps = length ts"
  shows "ematch_elems f ch q i ps ts = Some (Ok (map canon ps = map canon ts, ps, ch))"
  using assms(2,1)
proof (induction ps ts arbitrary: i rule: list_induct2)
  case (Cons p ps t ts)
  have "ematch_elems f ch q (i + 1) ps ts = Some (Ok (map canon ps = map canon ts, ps, ch))"
    by (rule Cons.IH) (use Cons.prems in simp)
  then show ?case using Cons.prems [of p t i] by simp
qed simp

lemma ematch_plain:
  "plain_value p \<Longrightarrow> plain_value t \<Longrightarrow> size t < d \<Longrightarrow> ematch d ch q (Some p) (Some t) = Some (Ok (canon p = canon t, Some p, ch))"
proof (induction d arbitrary: q p t)
  case (Suc d)
  note step = ematch_step_def
  show ?case
  proof (cases p)
    case (Erl_List h r)
    then show ?thesis using Suc by (cases t) (auto simp: step)
  next
    case (Erl_Tuple ps)
    show ?thesis
    proof (cases t)
      case (Erl_Tuple ts)
      have e: "length ps = length ts \<Longrightarrow> ematch_elems (ematch d) ch q 0 ps ts = Some (Ok (map canon ps = map canon ts, ps, ch))"
      proof (rule ematch_elems_plain)
        fix x y j
        assume m: "x \<in> set ps" "y \<in> set ts"
        then have "size y < d" using size_member [OF m(2)] Suc.prems(3) Erl_Tuple by simp
        moreover have "plain_value x" "plain_value y" using m Suc.prems Erl_Tuple \<open>p = Erl_Tuple ps\<close> by (auto simp: list_all_iff)
        ultimately show "ematch d ch (q @ [j]) (Some x) (Some y) = Some (Ok (canon x = canon y, Some x, ch))" by (intro Suc.IH)
      qed
      show ?thesis
      proof (cases "length ps = length ts")
        case False
        then have "map canon ps \<noteq> map canon ts" by (metis length_map)
        then show ?thesis using False Erl_Tuple \<open>p = Erl_Tuple ps\<close> by (simp add: step)
      qed (use e Erl_Tuple \<open>p = Erl_Tuple ps\<close> in \<open>simp add: step\<close>)
    qed (use Suc.prems Erl_Tuple in \<open>simp_all add: step\<close>)
  next
    case (Erl_Atom a)
    then show ?thesis using Suc.prems by (cases t) (simp_all add: step match_plain_atoms)
  next
    case (Erl_Float d)
    then show ?thesis using Suc.prems by (cases t) (simp_all add: step float_eq_canon del: canon.simps(5), simp_all)
  next
    case (Erl_Pid a n s c)
    then show ?thesis using Suc.prems by (cases t) (simp_all add: step same_plain_node)
  next
    case (Erl_Port a n c)
    then show ?thesis using Suc.prems by (cases t) (simp_all add: step same_plain_node)
  next
    case (Erl_Ref a l n c)
    then show ?thesis using Suc.prems by (cases t) (auto simp: step same_plain_node match_numbers_def)
  qed (use Suc.prems in \<open>cases t; simp add: step\<close>)+
qed simp

section \<open>Patterns\<close>

abbreviation anonymous :: "byte list \<Rightarrow> bool" where
  "anonymous s \<equiv> cname s = [c_underscore]"

text \<open>A pattern has variables without a value; the rest of it is plain.\<close>

primrec pattern :: "ETERM \<Rightarrow> bool" where
  "pattern (Erl_Integer i) = True"
| "pattern (Erl_Uinteger i) = False"
| "pattern (Erl_LLInteger i) = False"
| "pattern (Erl_ULLInteger i) = False"
| "pattern (Erl_Float d) = not_nan d"
| "pattern (Erl_Atom a) = plain_atom a"
| "pattern (Erl_Pid node number serial c) = plain_atom node"
| "pattern (Erl_Port node number c) = plain_atom node"
| "pattern (Erl_Ref node len n c) = (plain_atom node \<and> len = 3 \<and> length n = 3)"
| "pattern (Erl_List h t) = (pattern h \<and> pattern t)"
| "pattern Erl_EmptyList = True"
| "pattern (Erl_Tuple es) = list_all pattern es"
| "pattern (Erl_Binary b) = True"
| "pattern (Erl_Variable s v) = (v = None)"
| "pattern (Erl_Big b) = False"
| "pattern (Erl_Function a m n c mo i u cl) = False"

primrec flat :: "ETERM \<Rightarrow> bool" where
  "flat (Erl_Integer i) = True"
| "flat (Erl_Uinteger i) = True"
| "flat (Erl_LLInteger i) = True"
| "flat (Erl_ULLInteger i) = True"
| "flat (Erl_Float d) = True"
| "flat (Erl_Atom a) = True"
| "flat (Erl_Pid node number serial c) = True"
| "flat (Erl_Port node number c) = True"
| "flat (Erl_Ref node len n c) = True"
| "flat (Erl_List h t) = False"
| "flat Erl_EmptyList = True"
| "flat (Erl_Tuple es) = False"
| "flat (Erl_Binary b) = True"
| "flat (Erl_Variable s v) = False"
| "flat (Erl_Big b) = True"
| "flat (Erl_Function a m n c mo i u cl) = True"

text \<open>\<open>p\<close> with the values \<open>\<sigma>\<close> for its variables is \<open>t\<close>.\<close>

inductive matches :: "(byte list \<Rightarrow> ETERM option) \<Rightarrow> ETERM \<Rightarrow> ETERM \<Rightarrow> bool" for \<sigma> where
  "anonymous s \<Longrightarrow> matches \<sigma> (Erl_Variable s v) t"
| "\<not> anonymous s \<Longrightarrow> \<sigma> (cname s) = Some u \<Longrightarrow> canon u = canon t \<Longrightarrow> matches \<sigma> (Erl_Variable s v) t"
| "flat p \<Longrightarrow> canon p = canon t \<Longrightarrow> matches \<sigma> p t"
| "matches \<sigma> h h' \<Longrightarrow> matches \<sigma> r r' \<Longrightarrow> matches \<sigma> (Erl_List h r) (Erl_List h' r')"
| "list_all2 (matches \<sigma>) ps ts \<Longrightarrow> matches \<sigma> (Erl_Tuple ps) (Erl_Tuple ts)"

inductive_simps matches_var: "matches \<sigma> (Erl_Variable s v) t"
inductive_simps matches_list: "matches \<sigma> (Erl_List h r) t"
inductive_simps matches_tuple: "matches \<sigma> (Erl_Tuple ps) t"

lemma matches_flat: "flat p \<Longrightarrow> matches \<sigma> p t \<longleftrightarrow> canon p = canon t"
  by (auto intro: matches.intros elim: matches.cases)

text \<open>The names of the variables, in the order in which matching meets them.\<close>

primrec var_names :: "ETERM \<Rightarrow> byte list list" where
  "var_names (Erl_Integer i) = []"
| "var_names (Erl_Uinteger i) = []"
| "var_names (Erl_LLInteger i) = []"
| "var_names (Erl_ULLInteger i) = []"
| "var_names (Erl_Float d) = []"
| "var_names (Erl_Atom a) = []"
| "var_names (Erl_Pid node number serial c) = []"
| "var_names (Erl_Port node number c) = []"
| "var_names (Erl_Ref node len n c) = []"
| "var_names (Erl_List h t) = var_names h @ var_names t"
| "var_names Erl_EmptyList = []"
| "var_names (Erl_Tuple es) = concat (map var_names es)"
| "var_names (Erl_Binary b) = []"
| "var_names (Erl_Variable s v) = (if anonymous s then [] else [cname s])"
| "var_names (Erl_Big b) = []"
| "var_names (Erl_Function a m n c mo i u cl) = []"

text \<open>The variables of a pattern with their values.\<close>

primrec var_values :: "ETERM \<Rightarrow> (byte list \<times> ETERM option) list" where
  "var_values (Erl_Integer i) = []"
| "var_values (Erl_Uinteger i) = []"
| "var_values (Erl_LLInteger i) = []"
| "var_values (Erl_ULLInteger i) = []"
| "var_values (Erl_Float d) = []"
| "var_values (Erl_Atom a) = []"
| "var_values (Erl_Pid node number serial c) = []"
| "var_values (Erl_Port node number c) = []"
| "var_values (Erl_Ref node len n c) = []"
| "var_values (Erl_List h t) = var_values h @ var_values t"
| "var_values Erl_EmptyList = []"
| "var_values (Erl_Tuple es) = concat (map var_values es)"
| "var_values (Erl_Binary b) = []"
| "var_values (Erl_Variable s v) = (if anonymous s then [] else [(cname s, v)])"
| "var_values (Erl_Big b) = []"
| "var_values (Erl_Function a m n c mo i u cl) = []"

section \<open>Stored values\<close>

lemma plain_copyable: "plain_value t \<Longrightarrow> copyable t"
  by (induction t) (auto simp: plain_atom_def list_all_iff)

lemma latin1_name_copied:
  assumes "plain_atom a"
  shows "latin1_name (copied_atom a) = latin1_name a \<and> plain_atom (copied_atom a)"
proof -
  from assms obtain s where s: "a_latin1 a = Some s" "cname s = latin1_name a" "a_lenL a = int (length (latin1_name a))"
    by (rule plain_atomD) blast
  have c: "c_name a" "atom_ok a" using assms by (simp_all add: plain_atom_def)
  have n: "take (nat (a_lenL a)) (strsave s) = latin1_name a" "strlen (strsave s) = strlen s" "nat (a_lenL a) \<le> length (strsave s)"
    "int (strlen s) = a_lenL a"
    using s c by (auto simp: c_name_def strlen_strsave) (simp_all add: strsave_cname strlen_cname)
  show ?thesis
    using s(1) c n by (auto simp: copied_atom_def plain_atom_def c_name_def atom_ok_def latin1_name_def split: option.splits if_splits)
qed

lemma copied_canon: "plain_value t \<Longrightarrow> canon (copied t) = canon t \<and> plain_value (copied t)"
  by (induction t) (auto simp: latin1_name_copied list_all_iff)

lemma copy_plain: "plain_value t \<Longrightarrow> copy_value t = Ok (Some (copied t))"
  by (simp add: copy_value_def copy_term_copied plain_copyable)

section \<open>The chain\<close>

lemma find_lvar_cname: "find_lvar ch (cname n) = find_lvar ch n"
  by (induction ch n rule: find_lvar.induct) (simp_all add: cname_def [symmetric])

definition bound_ok :: "chain \<Rightarrow> bool" where
  "bound_ok ch \<longleftrightarrow> (\<forall>(q, s, v) \<in> set ch. \<exists>u. v = Some u \<and> plain_value u)"

lemma bound_ok_find: "bound_ok ch \<Longrightarrow> find_lvar ch n = Some u \<Longrightarrow> plain_value u"
  by (induction ch n rule: find_lvar.induct) (auto simp: bound_ok_def split: if_splits)

text \<open>\<open>\<sigma>\<close> has the values that the chain has.\<close>

definition agrees :: "(byte list \<Rightarrow> ETERM option) \<Rightarrow> chain \<Rightarrow> bool" where
  "agrees \<sigma> ch \<longleftrightarrow> (\<forall>n u. find_lvar ch n = Some u \<longrightarrow> (\<exists>u'. \<sigma> (cname n) = Some u' \<and> canon u' = canon u))"

definition chain_extends :: "chain \<Rightarrow> chain \<Rightarrow> bool" where
  "chain_extends ch ch' \<longleftrightarrow> (\<forall>n u. find_lvar ch n = Some u \<longrightarrow> find_lvar ch' n = Some u)"

definition stored :: "chain \<Rightarrow> ETERM \<Rightarrow> bool" where
  "stored ch p \<longleftrightarrow> (\<forall>(s, v) \<in> set (var_values p). \<exists>u u'. v = Some u \<and> find_lvar ch s = Some u' \<and> canon u = canon u')"

lemma matches_extends: "matches (find_lvar ch) p t \<Longrightarrow> chain_extends ch ch' \<Longrightarrow> matches (find_lvar ch') p t"
proof (induction rule: matches.induct)
  case (5 ps ts)
  then have "list_all2 (matches (find_lvar ch')) ps ts" by (auto elim!: list_all2_mono)
  then show ?case by (rule matches.intros)
qed (auto simp: chain_extends_def intro: matches.intros)

lemma stored_extends: "stored ch p \<Longrightarrow> chain_extends ch ch' \<Longrightarrow> stored ch' p"
  by (fastforce simp: stored_def chain_extends_def)

lemma chain_extends_trans: "chain_extends a b \<Longrightarrow> chain_extends b c \<Longrightarrow> chain_extends a c"
  by (simp add: chain_extends_def)

lemma agrees_matches:
  assumes "agrees \<sigma> ch" "find_lvar ch s = Some u" "\<not> anonymous s"
  shows "matches \<sigma> (Erl_Variable s v) t \<longleftrightarrow> canon u = canon t"
proof -
  obtain u' where "\<sigma> (cname s) = Some u'" "canon u' = canon u" using assms(1,2) by (auto simp: agrees_def)
  then show ?thesis using assms(3) by (simp add: matches_var)
qed

text \<open>Chain entries relative to the pattern they are in.\<close>

definition below :: "nat list \<Rightarrow> chain \<Rightarrow> chain" where
  "below q rel = map (\<lambda>(x, e). (q @ x, e)) rel"

lemma below_simps [simp]: "below q [] = []" "below q (a @ b) = below q a @ below q b" "below q (below x rel) = below (q @ x) rel"
  by (simp_all add: below_def case_prod_unfold comp_def)

lemma bound_ok_below: "bound_ok (below q rel) = bound_ok rel"
  by (auto simp: bound_ok_def below_def)

lemma bound_ok_append_iff [simp]: "bound_ok (a @ b) \<longleftrightarrow> bound_ok a \<and> bound_ok b"
  by (simp only: bound_ok_def set_append ball_Un)

lemma find_lvar_below: "find_lvar (below q rel @ ch) n = find_lvar (rel @ ch) n"
  by (induction rel) (auto simp: below_def)

lemma undo_append: "undo_bindings (a @ b) p = undo_bindings b (undo_bindings a p)"
  by (simp add: undo_bindings_def)

lemma undo_list: "undo_bindings (below [0] rel) (Erl_List h t) = Erl_List (undo_bindings rel h) t"
    "undo_bindings (below [Suc i] rel) (Erl_List h t) = Erl_List h (undo_bindings rel t)"
  by (induction rel arbitrary: h t) (auto simp: undo_bindings_def below_def)

lemma undo_tuple: "undo_bindings (below [length pre] rel) (Erl_Tuple (pre @ e # es)) = Erl_Tuple (pre @ undo_bindings rel e # es)"
  by (induction rel arbitrary: e) (auto simp: undo_bindings_def below_def)

section \<open>The result of matching\<close>

definition fresh :: "byte list list \<Rightarrow> chain \<Rightarrow> bool" where
  "fresh ns ch \<longleftrightarrow> distinct ns \<and> (\<forall>n \<in> set ns. find_lvar ch n = None)"

text \<open>
  Matching \<open>p\<close> against \<open>t\<close>, with the chain \<open>ch\<close>, has the result \<open>r\<close>, leaves the pattern \<open>p'\<close> and adds \<open>rel\<close>
  to the chain.
\<close>

definition outcome :: "chain \<Rightarrow> ((byte list \<Rightarrow> ETERM option) \<Rightarrow> bool) \<Rightarrow> byte list list \<Rightarrow> bool \<Rightarrow> chain \<Rightarrow> bool" where
  "outcome ch m ns r rel \<longleftrightarrow>
     bound_ok rel \<and> chain_extends ch (rel @ ch)
     \<and> (\<forall>n. find_lvar (rel @ ch) n \<noteq> None \<longrightarrow> find_lvar ch n \<noteq> None \<or> cname n \<in> set ns)
     \<and> (r \<longrightarrow> (\<forall>ch'. chain_extends (rel @ ch) ch' \<longrightarrow> m (find_lvar ch')) \<and> (\<forall>\<sigma>. agrees \<sigma> ch \<longrightarrow> m \<sigma> \<longrightarrow> agrees \<sigma> (rel @ ch)))
     \<and> (\<not> r \<longrightarrow> (\<forall>\<sigma>. agrees \<sigma> ch \<longrightarrow> \<not> m \<sigma>))"

definition matched :: "matcher \<Rightarrow> chain \<Rightarrow> nat list \<Rightarrow> ETERM \<Rightarrow> ETERM \<Rightarrow> bool" where
  "matched f ch q p t \<longleftrightarrow>
     (\<exists>r p' rel. f ch q (Some p) (Some t) = Some (Ok (r, Some p', below q rel @ ch))
       \<and> outcome ch (\<lambda>\<sigma>. matches \<sigma> p t) (var_names p) r rel
       \<and> (r \<longrightarrow> stored (rel @ ch) p')
       \<and> (fresh (var_names p) ch \<longrightarrow> undo_bindings rel p' = p))"

lemma matchedI:
  assumes "f ch q (Some p) (Some t) = Some (Ok (r, Some p', below q rel @ ch))"
    "outcome ch (\<lambda>\<sigma>. matches \<sigma> p t) (var_names p) r rel"
    "r \<Longrightarrow> stored (rel @ ch) p'" "fresh (var_names p) ch \<Longrightarrow> undo_bindings rel p' = p"
  shows "matched f ch q p t"
  unfolding matched_def using assms by (intro exI [of _ r] exI [of _ p'] exI [of _ rel]) simp

text \<open>Two parts of a pattern, one after the other.\<close>

lemma outcome_fail: "outcome ch m ns False rel \<Longrightarrow> outcome ch (\<lambda>\<sigma>. m \<sigma> \<and> m' \<sigma>) (ns @ ns') False rel"
  by (auto simp: outcome_def)

lemma outcome_both:
  assumes "outcome ch m ns True rel" "outcome (rel @ ch) m' ns' r rel'"
  shows "outcome ch (\<lambda>\<sigma>. m \<sigma> \<and> m' \<sigma>) (ns @ ns') r (rel' @ rel)"
proof -
  have "bound_ok (rel' @ rel)" using assms by (auto simp: outcome_def bound_ok_def)
  moreover have "chain_extends ch ((rel' @ rel) @ ch)"
    using assms chain_extends_trans by (fastforce simp: outcome_def)
  moreover have "m (find_lvar ch') \<and> m' (find_lvar ch')" if r "chain_extends ((rel' @ rel) @ ch) ch'" for ch'
  proof -
    have "chain_extends (rel @ ch) ch'" using assms(2) that chain_extends_trans by (fastforce simp: outcome_def)
    then show ?thesis using assms that by (simp add: outcome_def)
  qed
  moreover have "find_lvar ch n \<noteq> None \<or> cname n \<in> set (ns @ ns')" if "find_lvar ((rel' @ rel) @ ch) n \<noteq> None" for n
    using assms that unfolding outcome_def append_assoc set_append Un_iff by blast
  moreover have "agrees \<sigma> ((rel' @ rel) @ ch)" if "agrees \<sigma> ch" "m \<sigma>" "m' \<sigma>" r for \<sigma>
    using assms that by (simp add: outcome_def)
  moreover have "\<not> (m \<sigma> \<and> m' \<sigma>)" if "\<not> r" "agrees \<sigma> ch" for \<sigma>
    using assms that by (auto simp: outcome_def)
  ultimately show ?thesis unfolding outcome_def by blast
qed

lemma outcome_none: "(\<And>\<sigma>. \<not> m \<sigma>) \<Longrightarrow> outcome ch m ns False []"
  by (simp add: outcome_def bound_ok_def chain_extends_def)

lemma outcome_always: "(\<And>\<sigma>. m \<sigma>) \<Longrightarrow> outcome ch m ns True []"
  by (simp add: outcome_def bound_ok_def chain_extends_def)

lemma var_names_cname: "n \<in> set (var_names p) \<Longrightarrow> cname n = n"
  by (induction p) (auto split: if_splits)

lemma fresh_append:
  assumes "fresh (ns @ ns') ch" "outcome ch m ns r rel" "\<And>n. n \<in> set ns' \<Longrightarrow> cname n = n"
  shows "fresh ns ch" "fresh ns' (rel @ ch)"
proof -
  show "fresh ns ch" using assms(1) by (simp add: fresh_def)
  have "find_lvar (rel @ ch) n = None" if "n \<in> set ns'" for n
  proof (rule ccontr)
    assume "find_lvar (rel @ ch) n \<noteq> None"
    then have "find_lvar ch n \<noteq> None \<or> cname n \<in> set ns" using assms(2) unfolding outcome_def by blast
    then show False using assms(1,3) that by (auto simp: fresh_def)
  qed
  then show "fresh ns' (rel @ ch)" using assms(1) by (simp add: fresh_def)
qed

text \<open>Only the new entries of a chain and their order matter for the names below.\<close>

lemma matched_flat:
  assumes "flat p" "plain_value p" "plain_value t" "size t < d"
  shows "matched (ematch d) ch q p t"
proof -
  have n: "var_names p = []" "var_values p = []" using assms(1,2) by (cases p; simp)+
  have "outcome ch (\<lambda>\<sigma>. matches \<sigma> p t) [] (canon p = canon t) []"
    using outcome_always outcome_none by (cases "canon p = canon t") (auto simp: matches_flat [OF assms(1)])
  then show ?thesis
    by (intro matchedI [where p' = p and rel = "[]" and r = "canon p = canon t"])
      (simp_all add: ematch_plain [OF assms(2-4)] stored_def n undo_bindings_def)
qed

lemma step_var: "plain_value t \<Longrightarrow> ematch_step f ch q (Some (Erl_Variable s v)) (Some t) = ematch_var f ch q s v t"
  by (cases t) (simp_all add: ematch_step_def)

lemma matched_var:
  assumes "plain_value t" "size t < d" "bound_ok ch"
  shows "matched (ematch (Suc d)) ch q (Erl_Variable s None) t"
proof -
  have step: "ematch (Suc d) ch q (Some (Erl_Variable s None)) (Some t) = ematch_var (ematch d) ch q s None t"
    using step_var [OF assms(1)] by simp
  consider "anonymous s" | "\<not> anonymous s" "find_lvar ch s = None" | u where "\<not> anonymous s" "find_lvar ch s = Some u" by blast
  then show ?thesis
  proof cases
    case 1
    then have "ematch (Suc d) ch q (Some (Erl_Variable s None)) (Some t) = Some (Ok (True, Some (Erl_Variable s None), below q [] @ ch))"
      unfolding step by (simp add: ematch_var_def cname_def)
    moreover have "outcome ch (\<lambda>\<sigma>. matches \<sigma> (Erl_Variable s None) t) [] True []"
      by (rule outcome_always) (use 1 in \<open>simp add: matches_var\<close>)
    ultimately show ?thesis using 1
      by (intro matchedI [where p' = "Erl_Variable s None" and rel = "[]" and r = True]) (simp_all add: stored_def undo_bindings_def)
  next
    case 2
    define u where "u = copied t"
    have u: "canon u = canon t" "plain_value u" using copied_canon [OF assms(1)] by (simp_all add: u_def)
    define rel :: chain where "rel = [([], s, Some u)]"
    have "ematch (Suc d) ch q (Some (Erl_Variable s None)) (Some t) = Some (Ok (True, Some (Erl_Variable s (Some u)), below q rel @ ch))"
      using 2 unfolding step by (simp add: ematch_var_def cname_def copy_plain [OF assms(1)] u_def below_def rel_def)
    moreover have fl: "find_lvar (rel @ ch) n = (if cname s = cname n then Some u else find_lvar ch n)" for n
      by (simp add: rel_def cname_def)
    have fn: "find_lvar ch n = None" if "cname s = cname n" for n
      using 2(2) find_lvar_cname [of ch n] find_lvar_cname [of ch s] that by simp
    have "outcome ch (\<lambda>\<sigma>. matches \<sigma> (Erl_Variable s None) t) [cname s] True rel"
      unfolding outcome_def
    proof (intro conjI allI impI)
      show "bound_ok rel" using u(2) by (simp add: rel_def bound_ok_def)
      show e: "chain_extends ch (rel @ ch)" using fl fn by (auto simp: chain_extends_def)
      show "find_lvar ch n \<noteq> None \<or> cname n \<in> set [cname s]" if "find_lvar (rel @ ch) n \<noteq> None" for n
        using that fl [of n] by (auto split: if_splits)
      show "matches (find_lvar ch') (Erl_Variable s None) t" if "chain_extends (rel @ ch) ch'" for ch'
      proof -
        have "find_lvar (rel @ ch) (cname s) = Some u" by (simp add: fl)
        then have "find_lvar ch' (cname s) = Some u" using that by (simp add: chain_extends_def)
        then show ?thesis using 2(1) u(1) by (simp add: matches_var)
      qed
      show "agrees \<sigma> (rel @ ch)" if "agrees \<sigma> ch" "matches \<sigma> (Erl_Variable s None) t" for \<sigma>
        using that 2(1) u(1) fl unfolding agrees_def by (auto simp: matches_var split: if_splits)
    qed simp
    moreover have "stored (rel @ ch) (Erl_Variable s (Some u))" using fl by (auto simp: stored_def)
    moreover have "undo_bindings rel (Erl_Variable s (Some u)) = Erl_Variable s None" by (simp add: undo_bindings_def rel_def)
    ultimately show ?thesis using 2(1)
      by (intro matchedI [where p' = "Erl_Variable s (Some u)" and rel = rel and r = True]) simp_all
  next
    case (3 u)
    have pu: "plain_value u" using bound_ok_find [OF assms(3) 3(2)] .
    note cu = copied_canon [OF pu]
    define r where "r = (canon u = canon t)"
    have "ematch d ch (q @ [0]) (Some (copied u)) (Some t) = Some (Ok (r, Some (copied u), ch))"
      using ematch_plain [of "copied u" t d ch] cu assms(1,2) by (simp add: r_def)
    then have "ematch (Suc d) ch q (Some (Erl_Variable s None)) (Some t) = Some (Ok (r, Some (Erl_Variable s (Some (copied u))), below q [] @ ch))"
      using 3 unfolding step by (simp add: ematch_var_def cname_def copy_plain [OF pu])
    moreover have "outcome ch (\<lambda>\<sigma>. matches \<sigma> (Erl_Variable s None) t) [cname s] r []"
    proof -
      have "matches (find_lvar ch') (Erl_Variable s None) t" if "canon u = canon t" "chain_extends ch ch'" for ch'
      proof -
        have "find_lvar ch' (cname s) = Some u" using 3(2) that(2) find_lvar_cname [of ch s] by (simp add: chain_extends_def)
        then show ?thesis using 3(1) that(1) by (simp add: matches_var)
      qed
      then show ?thesis using agrees_matches [OF _ 3(2,1)]
        by (auto simp: outcome_def r_def bound_ok_def chain_extends_def)
    qed
    moreover have "stored ([] @ ch) (Erl_Variable s (Some (copied u)))"
      using 3 cu find_lvar_cname [of ch s] by (auto simp: stored_def)
    moreover have "\<not> fresh [cname s] ch" using 3 find_lvar_cname [of ch s] by (simp add: fresh_def)
    ultimately show ?thesis using 3(1)
      by (intro matchedI [where p' = "Erl_Variable s (Some (copied u))" and rel = "[]" and r = r]) simp_all
  qed
qed

lemma matchedE:
  assumes "matched f ch q p t"
  obtains r p' rel where "f ch q (Some p) (Some t) = Some (Ok (r, Some p', below q rel @ ch))"
    "outcome ch (\<lambda>\<sigma>. matches \<sigma> p t) (var_names p) r rel" "r \<Longrightarrow> stored (rel @ ch) p'"
    "fresh (var_names p) ch \<Longrightarrow> undo_bindings rel p' = p"
  using assms unfolding matched_def by blast

lemma bound_ok_append: "bound_ok ch \<Longrightarrow> outcome ch m ns r rel \<Longrightarrow> bound_ok (rel @ ch)"
  by (auto simp: outcome_def bound_ok_def)

lemma outcome_extends: "outcome ch m ns r rel \<Longrightarrow> chain_extends ch (rel @ ch)"
  by (simp add: outcome_def)

text \<open>Only the names and values in a chain matter, not the paths.\<close>

lemma find_lvar_append_cong: "find_lvar ch = find_lvar ch' \<Longrightarrow> find_lvar (rel @ ch) n = find_lvar (rel @ ch') n"
  by (induction rel) auto

lemma outcome_cong:
  assumes "find_lvar ch = find_lvar ch'"
  shows "outcome ch m ns r rel = outcome ch' m ns r rel"
proof -
  have "find_lvar (rel @ ch) = find_lvar (rel @ ch')" using find_lvar_append_cong [OF assms] by blast
  then show ?thesis using assms by (simp add: outcome_def agrees_def chain_extends_def)
qed

lemma fresh_cong: "find_lvar ch = find_lvar ch' \<Longrightarrow> fresh ns ch = fresh ns ch'"
  by (simp add: fresh_def)

lemma stored_cong: "find_lvar ch = find_lvar ch' \<Longrightarrow> stored ch p = stored ch' p"
  by (simp add: stored_def)

lemma find_lvar_below': "find_lvar (below q rel @ ch) = find_lvar (rel @ ch)"
  using find_lvar_below by blast

lemma find_lvar_two: "find_lvar (below q rel' @ below x rel @ ch) = find_lvar (rel' @ rel @ ch)"
  using find_lvar_append_cong [OF find_lvar_below', of rel' x rel ch] find_lvar_below' [of q rel' "below x rel @ ch"] by auto

lemma outcome_paths:
  assumes "outcome ch m ns r (rel' @ rel)"
  shows "outcome ch m ns r (below q rel' @ below x rel)"
proof -
  have "bound_ok (below q rel' @ below x rel) = bound_ok (rel' @ rel)"
    by (simp add: bound_ok_below)
  moreover have "find_lvar ((below q rel' @ below x rel) @ ch) = find_lvar ((rel' @ rel) @ ch)"
    using find_lvar_two by simp
  ultimately show ?thesis using assms by (simp add: outcome_def agrees_def chain_extends_def)
qed

lemma outcome_path: "outcome ch m ns r rel \<Longrightarrow> outcome ch m ns r (below q rel)"
  using outcome_paths [of ch m ns r "[]" rel] by simp

lemma outcome_iff: "(\<And>\<sigma>. m \<sigma> = m' \<sigma>) \<Longrightarrow> outcome ch m ns r rel \<Longrightarrow> outcome ch m' ns r rel"
  by (simp add: outcome_def)

lemma matched_list:
  assumes "matched f ch (q @ [0]) h h'"
    "\<And>ch'. bound_ok ch' \<Longrightarrow> matched f ch' (q @ [1]) r r'" "bound_ok ch"
    "\<And>ch. g ch q (Some (Erl_List h r)) (Some (Erl_List h' r')) = ematch_step f ch q (Some (Erl_List h r)) (Some (Erl_List h' r'))"
  shows "matched g ch q (Erl_List h r) (Erl_List h' r')"
proof -
  from assms(1) obtain b p1 rel1 where 1: "f ch (q @ [0]) (Some h) (Some h') = Some (Ok (b, Some p1, below (q @ [0]) rel1 @ ch))"
    "outcome ch (\<lambda>\<sigma>. matches \<sigma> h h') (var_names h) b rel1" "b \<Longrightarrow> stored (rel1 @ ch) p1"
    "fresh (var_names h) ch \<Longrightarrow> undo_bindings rel1 p1 = h" by (rule matchedE) blast
  have m: "matches \<sigma> (Erl_List h r) (Erl_List h' r') \<longleftrightarrow> matches \<sigma> h h' \<and> matches \<sigma> r r'" for \<sigma>
    by (simp add: matches_list)
  show ?thesis
  proof (cases b)
    case False
    have "outcome ch (\<lambda>\<sigma>. matches \<sigma> (Erl_List h r) (Erl_List h' r')) (var_names (Erl_List h r)) False (below [0] rel1)"
      unfolding m var_names.simps using outcome_fail 1(2) False by (intro outcome_path) simp
    moreover have "undo_bindings (below [0] rel1) (Erl_List p1 r) = Erl_List h r" if "fresh (var_names h @ var_names r) ch"
      using 1(4) that by (simp add: undo_list fresh_def)
    ultimately show ?thesis using False 1(1)
      by (intro matchedI [where r = False and p' = "Erl_List p1 r" and rel = "below [0] rel1"]) (simp_all add: assms(4) ematch_step_def)
  next
    case True
    define ch1 where "ch1 = below (q @ [0]) rel1 @ ch"
    have f1: "find_lvar ch1 = find_lvar (rel1 @ ch)" unfolding ch1_def by (rule find_lvar_below')
    have "bound_ok ch1" using bound_ok_append [OF assms(3) 1(2)] by (simp add: ch1_def bound_ok_below)
    from assms(2) [OF this] obtain c p2 rel2 where 2: "f ch1 (q @ [1]) (Some r) (Some r') = Some (Ok (c, Some p2, below (q @ [1]) rel2 @ ch1))"
      "outcome ch1 (\<lambda>\<sigma>. matches \<sigma> r r') (var_names r) c rel2" "c \<Longrightarrow> stored (rel2 @ ch1) p2"
      "fresh (var_names r) ch1 \<Longrightarrow> undo_bindings rel2 p2 = r" by (rule matchedE) blast
    define rel where "rel = below [1] rel2 @ below [0] rel1"
    have o2: "outcome (rel1 @ ch) (\<lambda>\<sigma>. matches \<sigma> r r') (var_names r) c rel2" using 2(2) outcome_cong [OF f1] by simp
    have "outcome ch (\<lambda>\<sigma>. matches \<sigma> (Erl_List h r) (Erl_List h' r')) (var_names (Erl_List h r)) c rel"
      unfolding m var_names.simps rel_def using outcome_both 1(2) True o2 by (intro outcome_paths) simp
    moreover have "stored (rel @ ch) (Erl_List p1 p2)" if c
    proof -
      have "find_lvar (rel @ ch) = find_lvar (rel2 @ ch1)"
        using find_lvar_two [of "[1]" rel2 "[0]" rel1 ch] find_lvar_append_cong [OF f1, of rel2] by (auto simp: rel_def)
      moreover have "stored (rel2 @ rel1 @ ch) p1" using stored_extends [OF 1(3) [OF True] outcome_extends [OF o2]] .
      moreover have "find_lvar (rel2 @ rel1 @ ch) = find_lvar (rel2 @ ch1)" using find_lvar_append_cong [OF f1, of rel2] by auto
      ultimately show ?thesis using 2(3) that by (auto simp: stored_def)
    qed
    moreover have "undo_bindings rel (Erl_List p1 p2) = Erl_List h r" if "fresh (var_names h @ var_names r) ch"
      using 1(4) 2(4) fresh_append [OF that 1(2)] var_names_cname fresh_cong [OF f1] undo_list(2) [of 0]
      by (simp add: rel_def undo_append undo_list)
    moreover have "g ch q (Some (Erl_List h r)) (Some (Erl_List h' r')) = Some (Ok (c, Some (Erl_List p1 p2), below q rel @ ch))"
      using 1(1) 2(1) True by (simp add: assms(4) ematch_step_def rel_def ch1_def)
    ultimately show ?thesis by (intro matchedI [where r = c and p' = "Erl_List p1 p2" and rel = rel]) simp_all
  qed
qed

lemma matched_elems:
  assumes "length ps = length ts" "\<And>p t ch j. p \<in> set ps \<Longrightarrow> t \<in> set ts \<Longrightarrow> bound_ok ch \<Longrightarrow> matched f ch (q @ [j]) p t" "bound_ok ch"
  shows "\<exists>r ps' rel. ematch_elems f ch q i ps ts = Some (Ok (r, ps', below q rel @ ch))
    \<and> outcome ch (\<lambda>\<sigma>. list_all2 (matches \<sigma>) ps ts) (concat (map var_names ps)) r rel
    \<and> (r \<longrightarrow> (\<forall>p \<in> set ps'. stored (rel @ ch) p))
    \<and> (fresh (concat (map var_names ps)) ch \<longrightarrow>
        (\<forall>pre. length pre = i \<longrightarrow> undo_bindings rel (Erl_Tuple (pre @ ps')) = Erl_Tuple (pre @ ps)))"
  using assms
proof (induction ps ts arbitrary: i ch rule: list_induct2)
  case Nil
  have "outcome ch (\<lambda>\<sigma>. list_all2 (matches \<sigma>) [] []) [] True []" by (rule outcome_always) simp
  then show ?case by (intro exI [of _ True] exI [of _ "[]"]) (simp add: undo_bindings_def)
next
  case (Cons p ps t ts)
  have "matched f ch (q @ [i]) p t" using Cons.prems by simp
  then obtain b p1 rel1 where 1: "f ch (q @ [i]) (Some p) (Some t) = Some (Ok (b, Some p1, below (q @ [i]) rel1 @ ch))"
    "outcome ch (\<lambda>\<sigma>. matches \<sigma> p t) (var_names p) b rel1" "b \<Longrightarrow> stored (rel1 @ ch) p1"
    "fresh (var_names p) ch \<Longrightarrow> undo_bindings rel1 p1 = p" by (rule matchedE) blast
  show ?case
  proof (cases b)
    case False
    have "outcome ch (\<lambda>\<sigma>. list_all2 (matches \<sigma>) (p # ps) (t # ts)) (concat (map var_names (p # ps))) False (below [i] rel1)"
      using outcome_path [OF outcome_fail] 1(2) False by simp
    moreover have "undo_bindings (below [i] rel1) (Erl_Tuple (pre @ p1 # ps)) = Erl_Tuple (pre @ p # ps)"
      if "fresh (concat (map var_names (p # ps))) ch" "length pre = i" for pre
      using 1(4) that undo_tuple [of pre rel1 p1 ps] by (simp add: fresh_def)
    ultimately show ?thesis using 1(1) False
      by (intro exI [of _ False] exI [of _ "p1 # ps"] exI [of _ "below [i] rel1"]) simp
  next
    case True
    define ch1 where "ch1 = below (q @ [i]) rel1 @ ch"
    have f1: "find_lvar ch1 = find_lvar (rel1 @ ch)" unfolding ch1_def by (rule find_lvar_below')
    have "bound_ok ch1" using bound_ok_append [OF Cons.prems(2) 1(2)] by (simp add: ch1_def bound_ok_below)
    then obtain c ps2 rel2 where 2: "ematch_elems f ch1 q (i + 1) ps ts = Some (Ok (c, ps2, below q rel2 @ ch1))"
      "outcome ch1 (\<lambda>\<sigma>. list_all2 (matches \<sigma>) ps ts) (concat (map var_names ps)) c rel2"
      "c \<Longrightarrow> \<forall>p \<in> set ps2. stored (rel2 @ ch1) p"
      "fresh (concat (map var_names ps)) ch1 \<Longrightarrow> length pre = i + 1 \<Longrightarrow> undo_bindings rel2 (Erl_Tuple (pre @ ps2)) = Erl_Tuple (pre @ ps)" for pre
      using Cons.IH [of ch1 "i + 1"] Cons.prems(1) by (auto 0 3)
    define rel where "rel = below [] rel2 @ below [i] rel1"
    have o2: "outcome (rel1 @ ch) (\<lambda>\<sigma>. list_all2 (matches \<sigma>) ps ts) (concat (map var_names ps)) c rel2"
      using 2(2) outcome_cong [OF f1] by simp
    have "outcome ch (\<lambda>\<sigma>. list_all2 (matches \<sigma>) (p # ps) (t # ts)) (concat (map var_names (p # ps))) c rel"
    proof -
      have "outcome ch (\<lambda>\<sigma>. matches \<sigma> p t \<and> list_all2 (matches \<sigma>) ps ts) (var_names p @ concat (map var_names ps)) c (rel2 @ rel1)"
        by (rule outcome_both [OF _ o2]) (use 1(2) True in simp)
      from outcome_paths [OF this] show ?thesis by (simp add: rel_def)
    qed
    moreover have "\<forall>x \<in> set (p1 # ps2). stored (rel @ ch) x" if c
    proof -
      have "find_lvar (rel2 @ rel1 @ ch) = find_lvar (rel2 @ ch1)" "find_lvar (rel @ ch) = find_lvar (rel2 @ rel1 @ ch)"
        using find_lvar_append_cong [OF f1, of rel2] find_lvar_two [of "[]" rel2 "[i]" rel1 ch] by (auto simp: rel_def)
      moreover have "stored (rel2 @ rel1 @ ch) p1" using stored_extends [OF 1(3) [OF True] outcome_extends [OF o2]] .
      ultimately show ?thesis using 2(3) that by (auto simp: stored_def)
    qed
    moreover have "undo_bindings rel (Erl_Tuple (pre @ p1 # ps2)) = Erl_Tuple (pre @ p # ps)"
      if f: "fresh (concat (map var_names (p # ps))) ch" and l: "length pre = i" for pre
    proof -
      have f': "fresh (var_names p @ concat (map var_names ps)) ch" using f by simp
      have "\<And>n. n \<in> set (concat (map var_names ps)) \<Longrightarrow> cname n = n" using var_names_cname by auto
      note fr = fresh_append [OF f' 1(2) this]
      have "undo_bindings rel2 (Erl_Tuple ((pre @ [p1]) @ ps2)) = Erl_Tuple ((pre @ [p1]) @ ps)"
        by (rule 2(4)) (use fr(2) fresh_cong [OF f1] l in simp_all)
      then show ?thesis using 1(4) [OF fr(1)] undo_tuple [of pre rel1 p1 ps] l
        by (simp add: rel_def undo_append below_def)
    qed
    moreover have "ematch_elems f ch q i (p # ps) (t # ts) = Some (Ok (c, p1 # ps2, below q rel @ ch))"
      using 1(1) 2(1) True by (simp add: rel_def ch1_def)
    ultimately show ?thesis
      by (intro exI [of _ c] exI [of _ "p1 # ps2"] exI [of _ rel]) simp
  qed
qed

lemma pattern_flat: "flat p \<Longrightarrow> pattern p \<Longrightarrow> plain_value p"
  by (cases p) simp_all

theorem ematch_matches:
  "pattern p \<Longrightarrow> plain_value t \<Longrightarrow> size t < d \<Longrightarrow> bound_ok ch \<Longrightarrow> matched (ematch (Suc d)) ch q p t"
proof (induction p arbitrary: t d ch q)
  case (Erl_List h r)
  show ?case
  proof (cases "\<exists>h' r'. t = Erl_List h' r'")
    case True
    then obtain h' r' where t: "t = Erl_List h' r'" by blast
    then obtain k where k: "d = Suc k" using Erl_List.prems by (cases d) auto
    show ?thesis unfolding t
    proof (rule matched_list [where f = "ematch d"])
      show "matched (ematch d) ch (q @ [0]) h h'" unfolding k using Erl_List.prems t k by (intro Erl_List.IH(1)) simp_all
      show "matched (ematch d) ch' (q @ [1]) r r'" if "bound_ok ch'" for ch'
        unfolding k using Erl_List.prems t k that by (intro Erl_List.IH(2)) simp_all
    qed (use Erl_List.prems(4) in simp_all)
  next
    case False
    have "\<not> matches \<sigma> (Erl_List h r) t" for \<sigma> using False by (auto simp: matches_list)
    then have "outcome ch (\<lambda>\<sigma>. matches \<sigma> (Erl_List h r) t) (var_names (Erl_List h r)) False []" by (rule outcome_none)
    moreover have "ematch (Suc d) ch q (Some (Erl_List h r)) (Some t) = Some (Ok (False, Some (Erl_List h r), ch))"
      using False Erl_List.prems(2) by (cases t) (simp_all add: ematch_step_def)
    ultimately show ?thesis
      by (intro matchedI [where r = False and p' = "Erl_List h r" and rel = "[]"]) (simp_all add: undo_bindings_def)
  qed
next
  case (Erl_Tuple ps)
  show ?case
  proof (cases "\<exists>ts. t = Erl_Tuple ts \<and> length ps = length ts")
    case True
    then obtain ts where t: "t = Erl_Tuple ts" "length ps = length ts" by blast
    then obtain k where k: "d = Suc k" using Erl_Tuple.prems by (cases d) auto
    have "matched (ematch d) ch (q @ [j]) p y" if "p \<in> set ps" "y \<in> set ts" "bound_ok ch" for p y j ch
      unfolding k using that Erl_Tuple t k size_member [OF that(2)] by (intro Erl_Tuple.IH) (auto simp: list_all_iff)
    from matched_elems [OF t(2) this Erl_Tuple.prems(4), where i = 0] obtain r ps' rel where
      e: "ematch_elems (ematch d) ch q 0 ps ts = Some (Ok (r, ps', below q rel @ ch))"
        "outcome ch (\<lambda>\<sigma>. list_all2 (matches \<sigma>) ps ts) (concat (map var_names ps)) r rel"
        "r \<Longrightarrow> \<forall>p \<in> set ps'. stored (rel @ ch) p"
        "fresh (concat (map var_names ps)) ch \<Longrightarrow> undo_bindings rel (Erl_Tuple ps') = Erl_Tuple ps" by auto
    show ?thesis using e t
      by (intro matchedI [where r = r and p' = "Erl_Tuple ps'" and rel = rel])
        (simp_all add: ematch_step_def matches_tuple stored_def)
  next
    case False
    have "\<not> matches \<sigma> (Erl_Tuple ps) t" for \<sigma>
      using False by (auto simp: matches_tuple dest: list_all2_lengthD)
    then have "outcome ch (\<lambda>\<sigma>. matches \<sigma> (Erl_Tuple ps) t) (var_names (Erl_Tuple ps)) False []" by (rule outcome_none)
    moreover have "ematch (Suc d) ch q (Some (Erl_Tuple ps)) (Some t) = Some (Ok (False, Some (Erl_Tuple ps), ch))"
      using False Erl_Tuple.prems(2) by (cases t) (simp_all add: ematch_step_def)
    ultimately show ?thesis
      by (intro matchedI [where r = False and p' = "Erl_Tuple ps" and rel = "[]"]) (simp_all add: undo_bindings_def)
  qed
next
  case (Erl_Variable s v)
  then show ?case by (simp add: matched_var del: ematch.simps)
qed (rule matched_flat; simp)+

section \<open>The pattern that is left\<close>

text \<open>A pattern without the values of its named variables.\<close>

primrec cleared :: "ETERM \<Rightarrow> ETERM" where
  "cleared (Erl_Integer i) = Erl_Integer i"
| "cleared (Erl_Uinteger i) = Erl_Uinteger i"
| "cleared (Erl_LLInteger i) = Erl_LLInteger i"
| "cleared (Erl_ULLInteger i) = Erl_ULLInteger i"
| "cleared (Erl_Float d) = Erl_Float d"
| "cleared (Erl_Atom a) = Erl_Atom a"
| "cleared (Erl_Pid node number serial c) = Erl_Pid node number serial c"
| "cleared (Erl_Port node number c) = Erl_Port node number c"
| "cleared (Erl_Ref node len n c) = Erl_Ref node len n c"
| "cleared (Erl_List h t) = Erl_List (cleared h) (cleared t)"
| "cleared Erl_EmptyList = Erl_EmptyList"
| "cleared (Erl_Tuple es) = Erl_Tuple (map cleared es)"
| "cleared (Erl_Binary b) = Erl_Binary b"
| "cleared (Erl_Variable s v) = Erl_Variable s (if anonymous s then v else None)"
| "cleared (Erl_Big b) = Erl_Big b"
| "cleared (Erl_Function a m n c mo i u cl) = Erl_Function a m n c mo i u cl"

lemma cleared_pattern: "pattern p \<Longrightarrow> cleared p = p"
  by (induction p) (auto simp: list_all_iff intro: map_idI)

definition keeps :: "matcher \<Rightarrow> bool" where
  "keeps f \<longleftrightarrow> (\<forall>ch q p t r p' ch'. pattern p \<longrightarrow> f ch q (Some p) t = Some (Ok (r, p', ch')) \<longrightarrow> (\<exists>x. p' = Some x \<and> cleared x = p))"

lemma keepsD: "keeps f \<Longrightarrow> pattern p \<Longrightarrow> f ch q (Some p) t = Some (Ok (r, p', ch')) \<Longrightarrow> \<exists>x. p' = Some x \<and> cleared x = p"
  unfolding keeps_def by blast

lemma step_flat_none: "flat p \<Longrightarrow> ematch_step f ch q (Some p) None = Some (Ok (r, p', ch')) \<Longrightarrow> p' = Some p"
  by (cases p) (simp_all add: ematch_step_def)

lemma step_flat_some: "flat p \<Longrightarrow> ematch_step f ch q (Some p) (Some t) = Some (Ok (r, p', ch')) \<Longrightarrow> p' = Some p"
  by (cases p; simp; cases t) (auto simp: ematch_step_def bindf_eq_Ok split: if_splits)

lemma step_flat: "flat p \<Longrightarrow> ematch_step f ch q (Some p) t = Some (Ok (r, p', ch')) \<Longrightarrow> p' = Some p"
  using step_flat_none step_flat_some by (cases t) blast+

lemma keeps_elems:
  "keeps f \<Longrightarrow> list_all pattern ps \<Longrightarrow> ematch_elems f ch q i ps ts = Some (Ok (r, ps', ch')) \<Longrightarrow> map cleared ps' = ps"
proof (induction f ch q i ps ts arbitrary: r ps' ch' rule: ematch_elems.induct)
  case (1 f ch q i p ps t ts)
  from 1(4) obtain b x c where x: "f ch (q @ [i]) (Some p) (Some t) = Some (Ok (b, x, c))"
    and e: "(if b then bindf (ematch_elems f c q (i + 1) ps ts) (\<lambda>(r, ps, ch). Some (Ok (r, the x # ps, ch)))
      else Some (Ok (False, the x # ps, c))) = Some (Ok (r, ps', ch'))"
    by (auto simp: bindf_eq_Ok)
  from keepsD [OF 1(2) _ x] 1(3) have px: "cleared (the x) = p" by auto
  have "map cleared ps = ps" using 1(3) cleared_pattern by (auto simp: list_all_iff intro: map_idI)
  then show ?case using px e 1(1) [OF x refl refl _ 1(2)] 1(3)
    by (auto simp: bindf_eq_Ok split: if_splits)
qed (auto simp: list_all_iff intro: map_idI cleared_pattern)

lemma keeps_step:
  assumes "keeps f"
  shows "keeps (ematch_step f)"
  unfolding keeps_def
proof (intro allI impI)
  fix ch q p t r p' ch'
  assume p: "pattern p" and e: "ematch_step f ch q (Some p) t = Some (Ok (r, p', ch'))"
  show "\<exists>x. p' = Some x \<and> cleared x = p"
  proof (cases p)
    case (Erl_List h l)
    have c: "cleared h = h" "cleared l = l" using p Erl_List cleared_pattern by simp_all
    show ?thesis
    proof (cases t)
      case None
      then show ?thesis using e Erl_List c by (auto simp: ematch_step_def)
    next
      case (Some u)
      show ?thesis using e p c keepsD [OF assms, of h] keepsD [OF assms, of l] unfolding Erl_List Some
        by (cases u) (fastforce simp: ematch_step_def bindf_eq_Ok split: if_splits)+
    qed
  next
    case (Erl_Tuple ps)
    have c: "map cleared ps = ps" using p Erl_Tuple cleared_pattern by (auto simp: list_all_iff intro: map_idI)
    show ?thesis
    proof (cases t)
      case None
      then show ?thesis using e Erl_Tuple c by (auto simp: ematch_step_def)
    next
      case (Some u)
      show ?thesis using e p c keeps_elems [OF assms, of ps] unfolding Erl_Tuple Some
        by (cases u) (auto simp: ematch_step_def bindf_eq_Ok split: if_splits)
    qed
  next
    case (Erl_Variable s v)
    have "\<exists>w. p' = Some (Erl_Variable s w) \<and> (anonymous s \<longrightarrow> w = None)" if "ematch_var f ch q s None u = Some (Ok (r, p', ch'))" for u
      using that by (auto simp: ematch_var_def bindf_eq_Ok cname_def split: if_splits option.splits)
    note v = this
    show ?thesis
    proof (cases t)
      case None
      then show ?thesis using e p Erl_Variable by (auto simp: ematch_step_def)
    next
      case (Some u)
      have "(\<exists>u. ematch_var f ch q s None u = Some (Ok (r, p', ch'))) \<or> p' = Some p"
        using e p unfolding Erl_Variable Some
        by (cases u) (auto simp: ematch_step_def split: option.splits)
      then show ?thesis using v p Erl_Variable by fastforce
    qed
  qed (use step_flat [OF _ e] p in simp_all)
qed

lemma keeps_ematch: "keeps (ematch d)"
proof (induction d)
  case 0
  show ?case by (simp add: keeps_def)
next
  case (Suc d)
  have "ematch (Suc d) = ematch_step (ematch d)" by (intro ext) simp
  then show ?case using keeps_step [OF Suc] by simp
qed

text \<open>The values of a pattern are those of \<open>\<sigma>\<close>.\<close>

definition holds_values :: "(byte list \<Rightarrow> ETERM option) \<Rightarrow> ETERM \<Rightarrow> bool" where
  "holds_values \<sigma> p \<longleftrightarrow> (\<forall>(n, v) \<in> set (var_values p). \<exists>u u'. v = Some u \<and> \<sigma> n = Some u' \<and> canon u = canon u')"

end
