(* ===== verification/Erl_Props.thy ===== *)
theory Erl_Props
  imports Erl_RoundTrip Erl_MatchSpec
begin

text \<open>The properties of the older interface, with witnesses.\<close>

section \<open>Buffers\<close>

lemma put_magic:
  assumes "marshal_ok t"
  shows "bindr (put_bytes [byte_of ERL_VERSION_MAGIC] buf p) (\<lambda>(buf, x). erl_encode_it t buf x)
    = put_bytes (byte_of ERL_VERSION_MAGIC # ext_bytes t) buf p"
  using put_bytes_append [of "[byte_of ERL_VERSION_MAGIC]" buf p "ext_bytes t"] by (simp add: erl_encode_put [OF assms])

lemma erl_encode_bytes:
  assumes "marshal_ok t"
  shows "erl_encode t buf =
    (if length (ext_bytes t) < length buf
     then Ok (1 + int (length (ext_bytes t)), byte_of ERL_VERSION_MAGIC # ext_bytes t @ drop (1 + length (ext_bytes t)) buf)
     else Fault)"
  unfolding erl_encode_def erl_encode3_def put_magic [OF assms] by (auto simp: put_bytes_def wrs_eq)

lemma atom_slack_nonneg: "0 \<le> atom_slack a"
  by (simp add: atom_slack_def)

lemma sum_slack_nonneg: "(\<And>e. e \<in> set es \<Longrightarrow> 0 \<le> f e) \<Longrightarrow> (0 :: int) \<le> sum_list (map f es)"
  by (induction es) auto

lemma slack_nonneg: "0 \<le> slack t"
proof (induction t rule: measure_induct_rule [of size])
  case (less t)
  show ?case
  proof (cases t)
    case (Erl_Tuple es)
    then show ?thesis using less.IH by (auto simp: less_Suc_eq_le size_member intro!: sum_slack_nonneg)
  next
    case (Erl_Function arity md5 new_index creator module index uniq closure)
    have m: "0 \<le> (case map_option slack e of None \<Rightarrow> 0 | Some n \<Rightarrow> n)" if "e \<in> set ([creator, module, index, uniq] @ closure)" for e
    proof (cases e)
      case (Some a)
      have "size a < size t" using that Some Erl_Function by (auto simp: less_Suc_eq_le intro: trans_le_add2 size_member_option)
      then show ?thesis using less.IH Some by simp
    qed simp
    have "0 \<le> sum_list (map (\<lambda>e. case map_option slack e of None \<Rightarrow> 0 | Some n \<Rightarrow> n) ([creator, module, index, uniq] @ closure))"
      by (rule sum_slack_nonneg) (rule m)
    then have "0 \<le> sum_list (map (\<lambda>n. case n of None \<Rightarrow> 0 | Some n \<Rightarrow> n)
        (map_option slack creator # map_option slack module # map_option slack index # map_option slack uniq
          # map (map_option slack) closure))"
      by (simp add: comp_def)
    then show ?thesis unfolding Erl_Function slack.simps by (rule add_nonneg_nonneg [rotated]) simp
  next
    case (Erl_List h r)
    then show ?thesis using less.IH [of h] less.IH [of r] by simp
  qed (simp_all add: atom_slack_nonneg creation_slack_def)
qed

section \<open>Writing\<close>

text \<open>
  C0: \<open>erl_term_len\<close> announces the bytes of a term less its \<open>slack\<close>; \<open>erl_encode\<close> writes exactly the version and
  the bytes of the term when they fit, leaves the rest of the buffer alone and has a buffer overflow otherwise. So a
  buffer of the announced size overflows exactly for the terms with a positive \<open>slack\<close>: those with an atom of 128 or
  more Latin-1 characters in 255 octets, a creation above 3 or a fun with an arity.
\<close>

theorem erl_encode_room:
  assumes "marshal_ok t"
  shows "\<exists>n. erl_term_len t = Ok n \<and> n = 1 + int (length (ext_bytes t)) - slack t
    \<and> (\<forall>buf. erl_encode t buf =
         (if 1 + int (length (ext_bytes t)) \<le> int (length buf)
          then Ok (1 + int (length (ext_bytes t)), byte_of ERL_VERSION_MAGIC # ext_bytes t @ drop (1 + length (ext_bytes t)) buf)
          else Fault))
    \<and> (erl_encode t (replicate (nat n) 0) = Fault \<longleftrightarrow> 0 < slack t)"
  using slack_nonneg [of t]
  by (auto simp: erl_term_len_def erl_term_len_slack [OF assms] erl_encode_bytes [OF assms] Suc_le_eq)

definition sample_atom :: Erl_Atom_data where
  "sample_atom = \<lparr>a_utf8 = None, a_lenU = 0, a_latin1 = Some [97, 64, 98, 0], a_lenL = 3\<rparr>"

definition sample_pid :: ETERM where
  "sample_pid = Erl_Pid sample_atom 7 0 4"

lemma sample_pid_facts: "marshal_ok sample_pid" "slack sample_pid = 3" "length (ext_bytes sample_pid) = 18"
  by (simp_all add: sample_pid_def sample_atom_def atom_ok_def atom_slack_def creation_slack_def atom_bytes_def
      etf_atom_latin1_def creation_bytes_def Let_def)

lemma erl_encode_room_witness:
  "erl_term_len sample_pid = Ok 16 \<and> erl_encode sample_pid (replicate 16 0) = Fault
   \<and> erl_encode sample_pid (replicate 19 0) = Ok (19, byte_of ERL_VERSION_MAGIC # ext_bytes sample_pid)"
proof -
  note f = sample_pid_facts
  from erl_encode_room [OF f(1)] obtain n where
    n: "erl_term_len sample_pid = Ok n" "n = 1 + int (length (ext_bytes sample_pid)) - slack sample_pid"
      "\<forall>buf. erl_encode sample_pid buf =
         (if 1 + int (length (ext_bytes sample_pid)) \<le> int (length buf)
          then Ok (1 + int (length (ext_bytes sample_pid)),
            byte_of ERL_VERSION_MAGIC # ext_bytes sample_pid @ drop (1 + length (ext_bytes sample_pid)) buf)
          else Fault)"
      "erl_encode sample_pid (replicate (nat n) 0) = Fault \<longleftrightarrow> 0 < slack sample_pid"
    by blast
  have "n = 16" using n(2) f by simp
  then show ?thesis using n f by simp
qed

section \<open>Reading\<close>

text \<open>
  C0: A term that \<open>erl_encode\<close> has written is read back by \<open>erl_decode\<close> as \<open>decoded t\<close>: the same term, except that
  integers come back in the smallest kind that holds them, names are in UTF-8 and in Latin-1 only when they are ASCII,
  lists of bytes lose nothing, numbers of identifiers are cut to their widths, and a fun without arity has no digest.
\<close>

theorem erl_encode_decode:
  assumes "marshal_ok t" "readable scan t" "size t < d"
  shows "\<exists>buf. erl_encode t (replicate (1 + length (ext_bytes t)) 0) = Ok (1 + int (length (ext_bytes t)), buf)
    \<and> erl_decode d scan buf = Some (Ok (decoded t))"
proof (intro exI conjI)
  define buf where "buf = byte_of ERL_VERSION_MAGIC # ext_bytes t"
  show "erl_encode t (replicate (1 + length (ext_bytes t)) 0) = Ok (1 + int (length (ext_bytes t)), buf)"
    by (simp add: erl_encode_bytes [OF assms(1)] buf_def)
  have "at_off buf 0 buf" using at_off_take [of "length buf" buf] by simp
  then have o: "at_off buf (0 + 1) (ext_bytes t)" unfolding buf_def by simp
  have v: "rd buf 0 = (Ok (byte_of ERL_VERSION_MAGIC) :: (int, byte) res)" by (simp add: buf_def rd_def in_range_def)
  show "erl_decode d scan buf = Some (Ok (decoded t))"
    using erl_decode_encode [OF assms, of buf] o
    by (simp add: erl_decode_def erl_decode_buf_def v reads_def byte_of_def)
qed

definition sample_term :: ETERM where
  "sample_term = Erl_Tuple [sample_pid, Erl_Uinteger 7, Erl_LLInteger (- 1), Erl_List (Erl_Atom sample_atom) (Erl_Integer 300)]"

definition sample_name :: Erl_Atom_data where
  "sample_name = \<lparr>a_utf8 = Some [97, 64, 98, 0], a_lenU = 3, a_latin1 = Some [97, 64, 98, 0], a_lenL = 3\<rparr>"

lemma utf8_name_sample: "utf8_name sample_atom = [97, 64, 98]"
  by (simp add: utf8_name_def sample_atom_def)

lemma decoded_sample: "decoded_atom sample_atom = sample_name"
  by (simp add: decoded_atom_def utf8_name_sample sample_name_def non_ascii_def)

lemma sample_term_facts: "marshal_ok sample_term" "readable scan sample_term" "size sample_term < 20"
  by (simp_all add: sample_term_def sample_pid_def utf8_name_sample) (simp_all add: sample_atom_def atom_ok_def)

lemma erl_encode_decode_witness:
  "\<exists>buf. erl_encode sample_term (replicate (1 + length (ext_bytes sample_term)) 0) = Ok (1 + int (length (ext_bytes sample_term)), buf)
    \<and> erl_decode 20 (\<lambda>_ _. None) buf = Some (Ok (Erl_Tuple
        [Erl_Pid sample_name 7 0 4, Erl_Integer 7, Erl_Integer (- 1), Erl_List (Erl_Atom sample_name) (Erl_Integer 300)]))"
proof -
  have "decoded sample_term = Erl_Tuple
      [Erl_Pid sample_name 7 0 4, Erl_Integer 7, Erl_Integer (- 1), Erl_List (Erl_Atom sample_name) (Erl_Integer 300)]"
    by (simp add: sample_term_def sample_pid_def decoded_sample decoded_long_def erl_mk_pid_helper_def)
  then show ?thesis using erl_encode_decode [OF sample_term_facts, of "\<lambda>_ _. None"] by simp
qed

section \<open>I/O lists\<close>

text \<open>
  C0: \<open>erl_iolist_to_binary\<close> makes a binary of a term exactly when the term is an I/O list after the grammar, of
  the bytes the grammar gives it; \<open>erl_iolist_length\<close> is their number, and -1 exactly for a term that is no I/O
  list; \<open>erl_iolist_to_string\<close> adds a NUL and refuses bytes that contain one.
\<close>

theorem erl_iolist_bytes:
  "(\<forall>bs. erl_iolist_to_binary (Some t) = Ok (Erl_Binary bs) \<longleftrightarrow> iolist t bs)
   \<and> (\<forall>bs. iolist t bs \<longrightarrow> erl_iolist_length t = int (length bs)
        \<and> erl_iolist_to_string (Some t) = (if 0 \<in> set bs then Err () else Ok (bs @ [0])))
   \<and> (erl_iolist_length t = - 1 \<longleftrightarrow> (\<nexists>bs. iolist t bs))
   \<and> (erl_iolist_to_binary (Some t) = Err () \<longleftrightarrow> (\<nexists>bs. iolist t bs))"
proof (cases "\<exists>bs. iolist t bs")
  case True
  then obtain bs where b: "iolist t bs" by blast
  note f = iolist_accepted [OF b]
  have "iolist t bs' \<longleftrightarrow> bs' = bs" for bs' using f(2) iolist_accepted(2) [of t bs'] b by auto
  then show ?thesis using f b by (auto simp: erl_iolist_to_string_def)
next
  case False
  then show ?thesis using iolist_refused [OF False] by auto
qed

definition sample_iolist :: ETERM where
  "sample_iolist =
     Erl_List (Erl_Integer 1) (Erl_List (Erl_List (Erl_Binary [2]) Erl_EmptyList) (Erl_List (Erl_Integer 3) (Erl_Binary [4])))"

lemma sample_iolist_bytes: "iolist sample_iolist [1, 2, 3, 4]"
proof -
  have b: "iohead (Erl_Integer 1) [1]" "iohead (Erl_Integer 3) [3]"
    using iohead_byte [of 1] iohead_byte [of 3] by (simp_all add: word_le_def)
  have i: "iolist (Erl_List (Erl_Binary [2]) Erl_EmptyList) [2]" "iolist (Erl_List (Erl_Integer 3) (Erl_Binary [4])) [3, 4]"
    using iolist_cons [OF iohead_iolist [OF iolist_binary] iolist_nil, of "[2]"] iolist_cons [OF b(2) iolist_binary, of "[4]"]
    by simp_all
  show ?thesis unfolding sample_iolist_def using iolist_cons [OF b(1) iolist_cons [OF iohead_iolist [OF i(1)] i(2)]] by simp
qed

lemma erl_iolist_bytes_witness:
  "erl_iolist_to_binary (Some sample_iolist) = Ok (Erl_Binary [1, 2, 3, 4])
   \<and> erl_iolist_length sample_iolist = 4 \<and> erl_iolist_to_string (Some sample_iolist) = Ok [1, 2, 3, 4, 0]"
  using erl_iolist_bytes [of sample_iolist] sample_iolist_bytes by auto

section \<open>Copies and matching\<close>

text \<open>
  C0: \<open>erl_copy_term\<close> of a term that can be encoded and whose atoms have Latin-1 names gives a term that
  \<open>erl_encode\<close> writes as the same bytes, into any buffer; it gives nothing for an atom with a name in UTF-8 only.
\<close>

theorem erl_copy_same_bytes:
  assumes "copyable t" "marshal_ok t"
  shows "\<exists>u. erl_copy_term (Some t) = Ok u \<and> (\<forall>buf. erl_encode u buf = erl_encode t buf) \<and> erl_term_len u = erl_term_len t"
proof -
  note m = copied_marshal [OF assms]
  note b = copied_bytes [OF assms]
  have "erl_encode (copied t) buf = erl_encode t buf" for buf
    using m assms(2) b by (simp add: erl_encode_bytes)
  moreover have "erl_term_len (copied t) = erl_term_len t"
    using m assms(2) b by (simp add: erl_term_len_def erl_term_len_slack)
  ultimately show ?thesis using assms(1) by (auto simp: erl_copy_term_def copy_term_copied)
qed

lemma erl_copy_same_bytes_witness:
  "\<exists>u. erl_copy_term (Some sample_term) = Ok u \<and> erl_encode u (replicate 60 0) = erl_encode sample_term (replicate 60 0)"
proof -
  have "copyable sample_term"
    by (simp add: sample_term_def sample_pid_def) (simp add: sample_atom_def c_name_def strlen_def)
  then show ?thesis using erl_copy_same_bytes [OF _ sample_term_facts(1)] by blast
qed

lemma erl_copy_utf8_atom: "a_latin1 a = None \<Longrightarrow> a_utf8 a = Some u \<Longrightarrow> erl_copy_term (Some (Erl_Atom a)) = Err ()"
  by (simp add: erl_copy_term_def erl_atom_copy_def)

text \<open>
  C0: \<open>erl_match\<close> of a pattern without values and a term finds out whether values for the variables make the pattern
  the term. Then the pattern that is left is the pattern with such values in its variables, a variable that occurs
  twice with equal ones; otherwise, if no variable occurs twice, it is unchanged.
\<close>

theorem erl_match_decides:
  assumes "pattern p" "plain_value t" "size t < d"
  shows "\<exists>r p'. erl_match (Suc d) (Some p) (Some t) = Some (Ok (r, Some p'))
    \<and> (r \<longleftrightarrow> (\<exists>\<sigma>. matches \<sigma> p t))
    \<and> (r \<longrightarrow> cleared p' = p \<and> (\<exists>\<sigma>. matches \<sigma> p t \<and> holds_values \<sigma> p'))
    \<and> (\<not> r \<longrightarrow> distinct (var_names p) \<longrightarrow> p' = p)"
proof -
  have "matched (ematch (Suc d)) [] [] p t" by (rule ematch_matches [OF assms]) (simp add: bound_ok_def)
  then obtain r p' rel where m: "ematch (Suc d) [] [] (Some p) (Some t) = Some (Ok (r, Some p', rel))"
    "outcome [] (\<lambda>\<sigma>. matches \<sigma> p t) (var_names p) r rel" "r \<Longrightarrow> stored rel p'"
    "fresh (var_names p) [] \<Longrightarrow> undo_bindings rel p' = p"
    by (rule matchedE) (simp add: below_def case_prod_unfold)
  have c: "cleared p' = p" using keepsD [OF keeps_ematch assms(1) m(1)] by simp
  have e: "erl_match (Suc d) (Some p) (Some t) = Some (Ok (r, if r then Some p' else Some (undo_bindings rel p')))"
    unfolding erl_match_def m(1) by simp
  show ?thesis
  proof (cases r)
    case True
    have x: "chain_extends rel rel" by (simp add: chain_extends_def)
    have "matches (find_lvar rel) p t" using m(2) True x by (simp add: outcome_def)
    moreover have "holds_values (find_lvar rel) p'" using m(3) True by (simp add: stored_def holds_values_def)
    ultimately show ?thesis using e True c by auto
  next
    case False
    have "\<not> matches \<sigma> p t" for \<sigma> using m(2) False by (simp add: outcome_def agrees_def)
    then show ?thesis using e False m(4) by (auto simp: fresh_def)
  qed
qed

definition var :: "byte \<Rightarrow> ETERM" where
  "var c = Erl_Variable [c, 0] None"

definition sample_pattern :: ETERM where
  "sample_pattern = Erl_Tuple [var 88, Erl_List (var 89) Erl_EmptyList, var 88, var 95]"

lemma var_facts: "pattern (var c)" "c \<noteq> 0 \<Longrightarrow> c \<noteq> 95 \<Longrightarrow> matches \<sigma> (var c) t \<longleftrightarrow> (\<exists>u. \<sigma> [c] = Some u \<and> canon u = canon t)"
  "matches \<sigma> (var 95) t"
  by (simp_all add: var_def matches_var cname_takeWhile)

lemma erl_match_decides_witness:
  "\<exists>p'. erl_match 20 (Some sample_pattern) (Some (Erl_Tuple [Erl_Integer 1, Erl_List (Erl_Integer 2) Erl_EmptyList, Erl_Integer 1, sample_pid]))
      = Some (Ok (True, Some p')) \<and> cleared p' = sample_pattern"
proof -
  define t where "t = Erl_Tuple [Erl_Integer 1, Erl_List (Erl_Integer 2) Erl_EmptyList, Erl_Integer 1, sample_pid]"
  have f: "pattern sample_pattern" "plain_value t" "size t < 19"
    by (simp_all add: sample_pattern_def t_def var_def sample_pid_def)
      (simp add: plain_atom_def sample_atom_def c_name_def strlen_def atom_ok_def)
  have "matches [[88] \<mapsto> Erl_Integer 1, [89] \<mapsto> Erl_Integer 2] sample_pattern t"
    by (simp add: sample_pattern_def t_def matches_tuple matches_list var_facts matches_flat)
  then show ?thesis using erl_match_decides [OF f] by (auto simp: t_def)
qed

section \<open>Where matching goes wrong\<close>

text \<open>
  The Latin-1 name of two e-acutes with a closing parenthesis between them equals the UTF-8 name in which the first
  e-acute is the letter c: the octet of the letter is taken for the start of a sequence.
\<close>

lemma cmp_confused: "cmp_latin1_vs_utf8 [0xE9, 0x29, 0xE9, 0] 3 [0x63, 0x29, 0xC3, 0xA9, 0] 4 = (Ok 0 :: (unit, int) res)"
proof -
  let ?L = "[0xE9, 0x29, 0xE9, 0]" and ?U = "[0x63, 0x29, 0xC3, 0xA9, 0]"
  have "cmp_latin1_loop ?L 3 ?U 4 0 0 = (cmp_latin1_loop ?L 3 ?U 4 1 1 :: (unit, int) res)"
    by (subst cmp_latin1_loop.simps) (simp add: rd_def in_range_def)
  also have "\<dots> = cmp_latin1_loop ?L 3 ?U 4 2 2" by (subst cmp_latin1_loop.simps) (simp add: rd_def in_range_def)
  also have "\<dots> = cmp_latin1_loop ?L 3 ?U 4 3 4" by (subst cmp_latin1_loop.simps) (simp add: rd_def in_range_def)
  also have "\<dots> = Ok 0" by (subst cmp_latin1_loop.simps) simp
  finally show ?thesis by (simp add: cmp_latin1_vs_utf8_def)
qed

lemma erl_match_confuses_atoms:
  "erl_match (Suc d) (Some (Erl_Atom \<lparr>a_utf8 = None, a_lenU = 0, a_latin1 = Some [0xE9, 0x29, 0xE9, 0], a_lenL = 3\<rparr>))
     (Some (Erl_Atom \<lparr>a_utf8 = Some [0x63, 0x29, 0xC3, 0xA9, 0], a_lenU = 4, a_latin1 = None, a_lenL = 0\<rparr>))
   = Some (Ok (True, Some (Erl_Atom \<lparr>a_utf8 = None, a_lenU = 0, a_latin1 = Some [0xE9, 0x29, 0xE9, 0], a_lenL = 3\<rparr>)))"
  by (simp add: erl_match_def ematch_step_def match_atoms_def cmp_confused)

text \<open>A variable that occurs twice keeps the value of its second occurrence when the match fails.\<close>

lemma erl_match_leaves_value:
  "erl_match (Suc (Suc (Suc d))) (Some (Erl_Tuple [var 88, var 88, Erl_Integer 1])) (Some (Erl_Tuple [Erl_Integer 2, Erl_Integer 2, Erl_Integer 3]))
   = Some (Ok (False, Some (Erl_Tuple [var 88, Erl_Variable [88, 0] (Some (Erl_Integer 2)), Erl_Integer 1])))"
  by (simp add: erl_match_def ematch_step_def ematch_var_def var_def copy_value_def undo_bindings_def strlen_def)

text \<open>An unsigned integer does not match itself.\<close>

lemma erl_match_unsigned: "erl_match (Suc d) (Some (Erl_Uinteger i)) (Some (Erl_Uinteger i)) = Some (Ok (False, Some (Erl_Uinteger i)))"
  by (simp add: erl_match_def ematch_step_def undo_bindings_def)

end
