(* ===== verification/Spec2Isabelle.thy ===== *)
theory Spec2Isabelle
  imports Ei_Props Asn1_Props Reg_Props Md5_Props Fmt_Props Erl_Props
begin

text \<open>
  A verification of C code of an Erlang/OTP release: \<^verbatim>\<open>lib/erl_interface-3.10.1/src\<close>
  and \<^verbatim>\<open>lib/asn1-5.0.4/c_src/asn1_erl_nif.c\<close>.

  \<^bold>\<open>The program.\<close> \<open>erl_interface\<close> lets a C program read and write Erlang terms in the external
  term format: \<^verbatim>\<open>src/encode\<close> and \<^verbatim>\<open>src/decode\<close> have one function per kind of term,
  \<^verbatim>\<open>src/misc/ei_x_encode.c\<close> wraps the encoders with a buffer that grows, \<^verbatim>\<open>src/decode/decode_skip.c\<close>
  steps over a term of unknown type; they share the byte-order macros of \<^verbatim>\<open>putget.h\<close>.
  \<^verbatim>\<open>src/registry\<close> is a store of typed values under string keys, a hash table
  (\<^verbatim>\<open>hash_*.c\<close>) of pointers to objects (\<^verbatim>\<open>reg_*.c\<close>). The NIF of \<open>asn1\<close> is called by the Erlang
  runtime: it encodes and decodes tagged values in BER and completes PER encodings from a list of
  commands.

  \<^bold>\<open>The model.\<close> A C function is a function into the outcome type \<open>res\<close> of theory \<open>Prelude\<close>:
  \<open>Fault\<close> is an access outside the objects it was given or another undefined operation, \<open>Err\<close> an
  error return, \<open>Ok\<close> a normal return. A \<open>char\<close> array is a list of bytes, a pointer into it an offset
  (an \<open>int\<close>), a NULL buffer \<open>None\<close>; integers whose width matters are words. An encoder returns the
  buffer and \<open>*index\<close>, a decoder the value and \<open>*index\<close>. The sizes that the code computes before it
  asks for memory have their widths: in \<open>x_fix_buff\<close>, in the size pass of \<open>ei_encode_string_len\<close>, for
  the array of a tuple in \<open>erl_decode_it\<close>, in the memory chunks of the BER encoder, in the search for the
  size of a hash table and in MD5 a sum or product that overflows is a fault, or wraps around where its
  type is unsigned. Other indices, the lengths of strings (\<open>strlen\<close>) and the counts of \<open>erl_term_len\<close> and
  \<open>erl_iolist_length\<close> are unbounded integers: strings, terms and buffers of 2 GB and more are outside the
  model there. The one signed overflow that is not a fault is the negation of the smallest 64-bit
  integer in \<open>ei_encode_longlong\<close> and \<open>encode_longlong\<close>, which has its two's complement value. A C string ends at its first NUL or at the end of its list.

  \<^bold>\<open>External term format.\<close>
  \<^item> \<open>Prelude\<close>: outcomes, with and without fuel, arrays, sequences at an offset, base-256 digits.
  \<^item> \<open>Ei_PutGet\<close>: \<^verbatim>\<open>putget.h\<close>; what \<open>put\<close> writes \<open>get\<close> reads.
  \<^item> \<open>Ei_Encode\<close>: integers, floats, headers, binaries, strings; each encoder is \<open>emit\<close> of an
    explicit byte sequence, with a buffer and without.
  \<^item> \<open>Ei_Atom\<close>: atoms with the conversions between Latin-1 and UTF-8, both directions.
  \<^item> \<open>Ei_Decode\<close>: the decoders of scalars, headers, binaries, strings, integer lists.
  \<^item> \<open>Ei_Ids\<close>: processes, ports, references, big integers, both directions.
  \<^item> \<open>Ei_Fun\<close>: trace tokens and the encoder of funs.
  \<^item> \<open>Ei_Skip\<close>: \<open>ei_get_type\<close>, \<open>ei_decode_fun\<close>, \<open>ei_skip_term\<close>. The recursion of the last one
    has a depth as fuel; \<open>depth t\<close> is enough for a term \<open>t\<close> and more never changes a result.
  \<^item> \<open>Ei_Term\<close>: \<open>ei_decode_ei_term\<close>; the type \<open>eterm\<close> of terms and their bytes \<open>etf\<close>.
  \<^item> \<open>Ei_XBuff\<close>: \<open>ei_x_buff\<close>. The locale \<open>sized_encoder\<close> is the contract between an encoder and
    the buffer, interpreted for the encoders; the C allocator is a parameter that may fail. \<open>fits\<close> is the
    condition under which no size leaves the range of \<open>int\<close>.
  \<^item> \<open>Ei_Build\<close>: sequences of \<open>ei_x_encode_*\<close> calls that write a whole term.
  \<^item> \<open>Ei_Props\<close>: the properties of this part, with witnesses.

  \<^bold>\<open>ASN.1.\<close>
  \<^item> \<open>Asn1_Nif\<close>: the functions of the Erlang runtime that the NIF calls are a parameter, the record
    \<open>nif\<close>; what the code relies on is stated in the locales \<open>nif_terms\<close>, \<open>nif_memory\<close>, \<open>nif_env\<close>,
    and they are interpreted on a concrete runtime whose allocator may refuse.
  \<^item> \<open>Asn1_BerDecode\<close>, \<open>Asn1_BerEncode\<close>: the BER decoder and the encoder, which writes its memory
    chunks backwards. The decoder has fuel, one more than the number of octets is enough; the
    recursion of the encoder is bounded by the size of the term.
  \<^item> \<open>Asn1_Ber\<close>: the decoder on what the encoder wrote.
  \<^item> \<open>Asn1_Per\<close>: the PER completion, one definition per command, over an output buffer that may have
    to be reallocated; its loop ends because every command consumes input. \<open>Asn1_PerBits\<close> reads the
    buffer as a sequence of bits, \<open>Asn1_PerCmds\<close> gives the commands their meaning on bits.
  \<^item> \<open>Asn1_Props\<close>: the properties of this part, with witnesses.

  \<^bold>\<open>Registry.\<close>
  \<^item> \<open>Heap\<close>: which blocks are allocated; releasing one twice is a fault, and any pattern of refused
    allocations is covered. \<open>owns\<close> says that a component owns a list of blocks.
  \<^item> \<open>Machine\<close>: sequences of calls; the locale \<open>component\<close> is the contract of one call and lifts it
    to all sequences. It is interpreted for the hash table and for the registry.
  \<^item> \<open>Ei_Prime\<close>: \<open>ei_isprime\<close> and the loop for the table size. They are partial functions; both
    are shown to return (numbers below 46339 squared, sizes up to 1048583), which also says that no
    product overflows.
  \<^item> \<open>Ei_Hash\<close>, \<open>Ei_HashMap\<close>: the hash table; its invariant, the finite map it stands for
    (\<open>tab_map\<close>) and the blocks it owns.
  \<^item> \<open>Ei_Reg\<close>, \<open>Ei_RegInv\<close>, \<open>Ei_RegSpec\<close>: the registry with its objects in the heap, changed in
    place; its invariant and ownership, the map from keys to objects (\<open>reg_view\<close>), and the
    specification of every call on that map.
  \<^item> \<open>Reg_Props\<close>: the properties of this part, with witnesses.

  \<^bold>\<open>Message digest.\<close>
  \<^item> \<open>Ei_Md5\<close>: MD5 as \<^verbatim>\<open>src/misc/eimd5.c\<close> computes it, piece by piece. Its loop has a counter of
    32 bits and is a partial function; it returns for pieces up to \<open>2 ^ 32 - 64\<close> octets.
  \<^item> \<open>Ei_Md5Spec\<close>: the digest of a whole message after RFC 1321 (\<open>md5\<close>), and \<open>md5_repr\<close>, which
    says that a context stands for the octets fed so far.
  \<^item> \<open>Md5_Props\<close>: the properties of this part, with witnesses.

  \<^bold>\<open>Text.\<close> \<^verbatim>\<open>src/misc/ei_format.c\<close> parses a format into a term, \<^verbatim>\<open>src/misc/ei_printterm.c\<close> prints
  a term; both go through the decoders, the encoders and the buffer above.
  \<^item> \<open>Ei_Text\<close>: the characters and numbers of the C library, in the C locale.
  \<^item> \<open>Ei_Format\<close>: \<open>ei_x_format\<close>. The parser is recursive in C; its fuel bounds the nesting and, on each
    level, the elements. It is not the number of nested C calls.
  \<^item> \<open>Ei_FormatSpec\<close>: the terms that a format describes (\<open>fterm\<close>), their text and their bytes; the
    parser reads the one and writes the other. The locale \<open>element_loop\<close> is what the loops over the
    elements of tuples and lists share.
  \<^item> \<open>Ei_FormatTotal\<close>: the parser advances with every call, so the length of the format and two is
    enough fuel for any format, well-formed or not.
  \<^item> \<open>Ei_Print\<close>, \<open>Ei_PrintSpec\<close>: \<open>ei_print_term\<close> into a file and \<open>ei_s_print_term\<close> into a buffer, with
    the nesting of the term as fuel, and the text they write.
  \<^item> \<open>Fmt_Props\<close>: the properties of this part, with witnesses, and inputs on which the code goes wrong.

  \<^bold>\<open>Older interface.\<close> \<^verbatim>\<open>src/legacy\<close> works on terms in memory (\<open>ETERM\<close>) instead of on bytes.
  \<^item> \<open>Erl_Eterm\<close>: terms as a datatype, without sharing and reference counts; the two encodings of a name.
  \<^item> \<open>Erl_Marshal\<close>: \<open>erl_encode\<close>, which writes without a look at the size of the buffer, and \<open>erl_term_len\<close>,
    which announces the size. \<open>Erl_MarshalSpec\<close>: the bytes of a term (\<open>ext_bytes\<close>), and by how much the announced
    size falls short of them (\<open>slack\<close>).
  \<^item> \<open>Erl_Unmarshal\<close>: \<open>erl_decode\<close>; the depth of its recursion is fuel, more than the size of the term is
    enough. \<open>Erl_RoundTrip\<close>: what it makes of the bytes of a term (\<open>decoded\<close>).
  \<^item> \<open>Erl_Term\<close>: the functions of \<^verbatim>\<open>erl_eterm.c\<close> that make, take apart and copy terms, and I/O lists.
    \<open>Erl_TermSpec\<close>: the grammar of I/O lists as an inductive definition, and what a copy of a term is (\<open>copied\<close>).
  \<^item> \<open>Erl_Match\<close>: \<open>erl_match\<close> of \<^verbatim>\<open>erl_format.c\<close>, with the values it leaves in the variables of the pattern; the
    recursion depth is fuel, more than the size of the term is enough. \<open>Erl_MatchSpec\<close>: matching as an
    inductive relation between values of the variables, pattern and term, which the code decides for patterns
    without values (\<open>pattern\<close>) and terms of the kinds that can match (\<open>plain_value\<close>).
  \<^item> \<open>Erl_Props\<close>: the properties of this part, with witnesses.

  \<^bold>\<open>Not modelled.\<close> In \<open>erl_interface\<close>: the GMP variants, \<open>ei_big_to_double\<close>, sockets and the
  connection handshake, dump and restore of a registry over a connection, the printing of control
  messages in \<^verbatim>\<open>show_msg.c\<close>; of the older interface the format parser, printing, the
  functions that look into or compare encoded terms, the block allocator and the connections. \<open>sscanf\<close> on the old textual floats is the parameter
  \<open>scan\<close>. What a decoder that returns -1 has stored in its destination by then is not modelled.
  In \<open>asn1\<close>: the release of the chunk list and the load callbacks of the NIF.
\<close>

end
